(* ===== verification/Prelude.thy ===== *)
theory Prelude
  imports Main "HOL-Library.Word"
begin

text \<open>
  The vocabulary the components share: byte strings, C integer conversions, the values of the
  epoll flags, and generic lemmas on lists that are read and written through index sequences
  (the ring buffers, the latency ring and the bounded queues all address an array through
  \<open>counter mod size\<close>).
\<close>

unbundle bit_operations_syntax


section \<open>Machine types\<close>

type_synonym byte = "8 word"
type_synonym u32 = "32 word"
type_synonym u64 = "64 word"

text \<open>The conversion of an \<open>uint64_t\<close> value to \<open>int\<close>: the low 32 bits as two's complement.\<close>

definition int_of_u64 :: "u64 \<Rightarrow> int" where
  "int_of_u64 x = sint (ucast x :: 32 word)"

text \<open>The conversion of an \<open>int\<close> value to \<open>uint64_t\<close> (sign extension, then modulo \<open>2^64\<close>).\<close>

definition u64_of_int :: "int \<Rightarrow> u64" where
  "u64_of_int i = word_of_int i"

lemma uint_below_int_max:
  fixes x :: u64
  assumes "unat x < 2 ^ 31"
  shows "uint x < 2147483648"
proof -
  have "int (unat x) < int (2 ^ 31)"
    using assms by (simp only: of_nat_less_iff)
  then show ?thesis by simp
qed

lemma int_of_u64_small [simp]:
  assumes "unat x < 2 ^ 31"
  shows "int_of_u64 x = int (unat x)"
proof -
  note b = uint_below_int_max [OF assms]
  have u: "uint (ucast x :: 32 word) = uint x"
    using b by (simp add: unsigned_ucast_eq take_bit_int_eq_self)
  have "signed_take_bit 31 (uint x) = uint x"
    using b by (intro signed_take_bit_int_eq_self) (auto intro: order_trans [OF _ uint_ge_0])
  then show ?thesis
    by (simp add: int_of_u64_def sint_uint u)
qed

lemma unat_of_nat_u64 [simp]: "n < 2 ^ 64 \<Longrightarrow> unat (of_nat n :: u64) = n"
  by (simp add: unat_of_nat take_bit_nat_eq_self)

lemma u64_of_int_of_nat [simp]: "u64_of_int (int n) = of_nat n"
  by (simp add: u64_of_int_def)

text \<open>Taking 8 off a counter difference that shows at least 8 takes 8 off what it shows.\<close>

lemma ucast_u32_of_int: "(ucast (word_of_int k :: 64 word) :: 32 word) = word_of_int k"
  by transfer simp

lemma ucast_u32_diff: "(ucast (x - y :: 64 word) :: 32 word) = ucast x - ucast y"
proof -
  have "x - y = word_of_int (uint x - uint y)"
    by simp
  then have "(ucast (x - y) :: 32 word) = word_of_int (uint x - uint y)"
    by (simp only: ucast_u32_of_int)
  also have "\<dots> = ucast x - ucast y"
    by (simp only: wi_hom_sub [symmetric] ucast_eq)
  finally show ?thesis .
qed

lemma int_of_u64_minus_8:
  assumes "8 \<le> int_of_u64 x"
  shows "int_of_u64 (x - 8) = int_of_u64 x - 8"
proof -
  let ?y = "ucast x :: 32 word"
  have "(ucast (x - 8) :: 32 word) = ?y - 8"
    by (simp add: ucast_u32_diff)
  moreover have "sint (?y - 8) = signed_take_bit 31 (sint ?y - 8)"
    by (simp add: sint_word_ariths)
  moreover have "signed_take_bit 31 (sint ?y - 8) = sint ?y - 8"
    using assms sint_lt [of ?y] by (intro signed_take_bit_int_eq_self) (auto simp: int_of_u64_def)
  ultimately show ?thesis
    by (simp add: int_of_u64_def)
qed

text \<open>The distance between two free-running counters survives advancing either of them.\<close>

lemma unat_advance_hi:
  fixes f p :: u64
  assumes "unat (p - f) + n < 2 ^ 64"
  shows "unat (p + of_nat n - f) = unat (p - f) + n"
proof -
  have "p + of_nat n - f = (p - f) + of_nat n" by simp
  moreover have "unat ((p - f) + of_nat n) = unat (p - f) + n"
    using assms by (simp add: unat_word_ariths)
  ultimately show ?thesis by (simp only:)
qed

lemma unat_advance_lo:
  fixes f p :: u64
  assumes "n \<le> unat (p - f)"
  shows "unat (p - (f + of_nat n)) = unat (p - f) - n"
proof -
  have n: "n < 2 ^ 64"
    using assms unsigned_less [where 'a = nat, of "p - f"] by simp
  then have "of_nat n \<le> p - f"
    using assms by (simp add: word_le_nat_alt)
  moreover have "p - (f + of_nat n) = (p - f) - of_nat n" by simp
  ultimately show ?thesis
    using n by (simp only:) (simp add: unat_sub)
qed

text \<open>
  Taking a counter modulo a size that divides \<open>2^64\<close> commutes with its wrap-around.
\<close>

lemma unat_mod_wrap:
  fixes x :: u64
  assumes "m dvd 2 ^ 64"
  shows "unat (x + of_nat i) mod m = (unat x + i) mod m"
proof -
  have "unat (x + of_nat i) = (unat x + i) mod 2 ^ 64"
    by (simp add: unat_word_ariths unat_of_nat take_bit_nat_def mod_add_right_eq)
  then show ?thesis
    using assms by (simp only: mod_mod_cancel)
qed

section \<open>epoll flags\<close>

definition EPOLLIN :: u32 where "EPOLLIN = 1"
definition EPOLLOUT :: u32 where "EPOLLOUT = 4"
definition EPOLLERR :: u32 where "EPOLLERR = 8"
definition EPOLLHUP :: u32 where "EPOLLHUP = 16"
definition EPOLLET :: u32 where "EPOLLET = 2147483648"

lemmas epoll_flags = EPOLLIN_def EPOLLOUT_def EPOLLERR_def EPOLLHUP_def EPOLLET_def

text \<open>C's truth value of a masked flag word.\<close>

definition has :: "u32 \<Rightarrow> u32 \<Rightarrow> bool" where
  "has w flag \<longleftrightarrow> w AND flag \<noteq> 0"

section \<open>Arrays addressed through index lists\<close>

text \<open>Write the elements of a list at a list of positions, one after the other.\<close>

fun write_at :: "'a list \<Rightarrow> nat list \<Rightarrow> 'a list \<Rightarrow> 'a list" where
  "write_at buf (i # is) (x # xs) = write_at (buf[i := x]) is xs"
| "write_at buf _ _ = buf"

definition read_at :: "'a list \<Rightarrow> nat list \<Rightarrow> 'a list" where
  "read_at buf is = map (\<lambda>i. buf ! i) is"

lemma length_write_at [simp]: "length (write_at buf is xs) = length buf"
  by (induction buf "is" xs rule: write_at.induct) auto

lemma write_at_other: "j \<notin> set (take (length xs) is) \<Longrightarrow> write_at buf is xs ! j = buf ! j"
  by (induction buf "is" xs rule: write_at.induct) auto

lemma write_at_append:
  "write_at buf (is @ js) xs = write_at (write_at buf is (take (length is) xs)) js (drop (length is) xs)"
  by (induction buf "is" xs rule: write_at.induct) auto

lemma read_write_at:
  assumes "distinct is" "\<forall>i \<in> set is. i < length buf" "length xs \<le> length is"
  shows "read_at (write_at buf is xs) (take (length xs) is) = xs"
  using assms
proof (induction buf "is" xs rule: write_at.induct)
  case (1 buf i "is" x xs)
  then have "write_at (buf[i := x]) is xs ! i = buf[i := x] ! i"
    by (intro write_at_other) (auto dest: in_set_takeD)
  with 1 show ?case by (simp add: read_at_def)
qed (auto simp: read_at_def)

lemma read_write_at_disjoint:
  "set is \<inter> set js = {} \<Longrightarrow> read_at (write_at buf is xs) js = read_at buf js"
  unfolding read_at_def by (auto intro!: write_at_other dest: in_set_takeD)

lemma read_at_append [simp]: "read_at buf (is @ js) = read_at buf is @ read_at buf js"
  by (simp add: read_at_def)

lemma read_at_Nil [simp]: "read_at buf [] = []"
  by (simp add: read_at_def)

lemma length_read_at [simp]: "length (read_at buf is) = length is"
  by (simp add: read_at_def)

lemma take_read_at: "take n (read_at buf is) = read_at buf (take n is)"
  by (simp add: read_at_def take_map)

lemma drop_read_at: "drop n (read_at buf is) = read_at buf (drop n is)"
  by (simp add: read_at_def drop_map)

section \<open>Windows of a ring\<close>

text \<open>The \<open>n\<close> positions of a ring of size \<open>m\<close> that start at counter value \<open>s\<close>.\<close>

definition window :: "nat \<Rightarrow> nat \<Rightarrow> nat \<Rightarrow> nat list" where
  "window m s n = map (\<lambda>i. (s + i) mod m) [0..<n]"

lemma length_window [simp]: "length (window m s n) = n"
  by (simp add: window_def)

lemma window_0 [simp]: "window m s 0 = []"
  by (simp add: window_def)

lemma set_window_lt: "0 < m \<Longrightarrow> i \<in> set (window m s n) \<Longrightarrow> i < m"
  by (auto simp: window_def)

lemma window_mod: "window m (s mod m) n = window m s n"
  by (simp add: window_def mod_add_left_eq)

lemma window_add: "window m s (a + b) = window m s a @ window m (s + a) b"
  by (rule nth_equalityI) (auto simp: window_def nth_append algebra_simps)

lemma take_window: "take k (window m s n) = window m s (min k n)"
  by (simp add: window_def take_map min_def)

lemma drop_window: "drop k (window m s n) = window m (s + k) (n - k)"
  by (rule nth_equalityI) (auto simp: window_def algebra_simps)

lemma mod_window_inj:
  assumes "((s::nat) + i) mod m = (s + j) mod m" "i < m" "j < m"
  shows "i = j"
proof -
  obtain q r where "s + i + m * q = s + j + m * r"
    using assms(1) unfolding nat_mod_eq_iff by blast
  then have "(i + m * q) mod m = (j + m * r) mod m" by simp
  then show ?thesis
    using assms(2,3) by simp
qed

lemma distinct_window: "n \<le> m \<Longrightarrow> distinct (window m s n)"
  by (auto simp: window_def distinct_map intro!: inj_onI dest: mod_window_inj)

lemma window_disjoint:
  assumes "a + b \<le> m"
  shows "set (window m s a) \<inter> set (window m (s + a) b) = {}"
  using distinct_window [OF assms, of s] by (simp add: window_add)

text \<open>A window that does not cross the end of the array is an interval; one that does is two.\<close>

lemma window_flat: "s + n \<le> m \<Longrightarrow> window m s n = [s..<s + n]"
  by (rule nth_equalityI) (auto simp: window_def)

lemma window_wrapped: "n \<le> m \<Longrightarrow> window m m n = [0..<n]"
  by (rule nth_equalityI) (auto simp: window_def)

lemma window_two:
  assumes "s < m" "m \<le> s + n" "n \<le> m"
  shows "window m s n = [s..<m] @ [0..<s + n - m]"
proof -
  have "window m s n = window m s (m - s) @ window m m (s + n - m)"
    using assms window_add [of m s "m - s" "s + n - m"] by simp
  moreover have "window m s (m - s) = [s..<m]"
    using assms by (simp add: window_flat)
  moreover have "window m m (s + n - m) = [0..<s + n - m]"
    using assms by (simp add: window_wrapped)
  ultimately show ?thesis by simp
qed

text \<open>
  The filled and the free part of a ring whose front is at position \<open>f\<close>, whose rear is at \<open>p\<close>
  and which holds \<open>n\<close> of at most \<open>m - 1\<close> elements, as intervals of positions.
\<close>

lemma window_filled:
  fixes f n m p :: nat
  assumes "f < m" "n < m" "p = (f + n) mod m"
  shows "window m f n = (if f \<le> p then [f..<p] else [f..<m] @ [0..<p])"
proof (cases "f + n < m")
  case True
  then show ?thesis
    using assms by (simp add: window_flat)
next
  case False
  then have "p = f + n - m"
    using assms by (simp add: mod_if)
  then show ?thesis
    using False assms(1,2) by (simp add: window_two)
qed

lemma window_free:
  fixes f n m p :: nat
  assumes "f < m" "n < m" "p = (f + n) mod m"
  shows "window m p (m - 1 - n) =
    (if p < f then [p..<f - 1] else if f = 0 then [p..<m - 1] else [p..<m] @ [0..<f - 1])"
proof (cases "f + n < m")
  case True
  then have p: "p = f + n"
    using assms by simp
  show ?thesis
  proof (cases "f = 0")
    case True
    then show ?thesis
      using p assms(2) by (simp add: window_flat)
  next
    case False
    then show ?thesis
      using p True assms(1,2) by (simp add: window_two)
  qed
next
  case False
  then have "p = f + n - m"
    using assms by (simp add: mod_if)
  with False assms(1,2) have pf: "p < f" "p + (m - 1 - n) = f - 1" "p + (m - 1 - n) \<le> m"
    by auto
  have "window m p (m - 1 - n) = [p..<p + (m - 1 - n)]"
    using pf(3) by (rule window_flat)
  then show ?thesis
    using pf(1,2) by simp
qed

end
