(* ===== verification/Ring_Buffer.thy ===== *)
theory Ring_Buffer
  imports Prelude
begin

text \<open>
  \<^verbatim>\<open>class RingBuffer\<close> of the echo servers (\<^verbatim>\<open>tcp_echo1/common/ring_buffer.h\<close>; the servers
  of \<^verbatim>\<open>tcp_echo/\<close> carry copies of it that differ in \<^verbatim>\<open>max_pkt_size\<close> only, which is why the
  capacity \<open>m\<close> is an argument here).  Two free-running 64-bit counters, \<open>f\<close> (front) and
  \<open>p\<close> (rear), address a byte array modulo \<open>m\<close>; one cell always stays free, so that
  \<open>f = p\<close> means empty.  The buffer hands the kernel at most two iovecs that describe its
  free or its filled part, and is told afterwards how many bytes moved.

  The lemmas show that the iovecs are exactly the free (filled) window of the ring, in stream
  order, for every position of the counters and across their wrap-around at \<open>2^64\<close>, and
  that depositing and consuming bytes are append and drop on the list of buffered bytes: the
  interpretation of the interface \<open>byte_fifo\<close>.
\<close>

section \<open>The interface a byte queue gives its connection\<close>

locale byte_fifo =
  fixes items :: "'q \<Rightarrow> byte list"
    and invar :: "'q \<Rightarrow> bool"
    and capacity :: nat
    and deposit :: "byte list \<Rightarrow> 'q \<Rightarrow> 'q"
    and consume :: "nat \<Rightarrow> 'q \<Rightarrow> 'q"
  assumes items_deposit:
      "invar q \<Longrightarrow> length (items q) + length xs \<le> capacity \<Longrightarrow> items (deposit xs q) = items q @ xs"
    and invar_deposit:
      "invar q \<Longrightarrow> length (items q) + length xs \<le> capacity \<Longrightarrow> invar (deposit xs q)"
    and items_consume:
      "invar q \<Longrightarrow> n \<le> length (items q) \<Longrightarrow> items (consume n q) = drop n (items q)"
    and invar_consume: "invar q \<Longrightarrow> n \<le> length (items q) \<Longrightarrow> invar (consume n q)"
    and items_capacity: "invar q \<Longrightarrow> length (items q) \<le> capacity"
begin

text \<open>What a connection that echoes through the queue relies on: nothing is lost or reordered.\<close>

lemma echo_deposit:
  assumes "invar q" "length (items q) + length xs \<le> capacity" "sent @ items q = received"
  shows "sent @ items (deposit xs q) = received @ xs"
  using assms by (auto simp: items_deposit)

lemma echo_consume:
  assumes "invar q" "n \<le> length (items q)" "sent @ items q = received"
  shows "(sent @ take n (items q)) @ items (consume n q) = received"
  using assms by (simp add: items_consume)

lemma consume_all: "invar q \<Longrightarrow> items (consume (length (items q)) q) = []"
  by (simp add: items_consume)

end

section \<open>The code\<close>

record ring =
  rb_f :: u64
  rb_p :: u64
  rb_buf :: "byte list"

record iovec =
  iov_base :: nat
  iov_len :: nat

text \<open>The array comes uninitialised from \<^verbatim>\<open>new char[max_pkt_size]\<close>: its bytes are a parameter.\<close>

definition ring_new :: "nat \<Rightarrow> (nat \<Rightarrow> byte) \<Rightarrow> ring" where
  "ring_new m junk = \<lparr>rb_f = 0, rb_p = 0, rb_buf = map junk [0..<m]\<rparr>"

definition get_blank_size :: "nat \<Rightarrow> ring \<Rightarrow> int" where
  "get_blank_size m r = int_of_u64 (u64_of_int (int m - 1) - (rb_p r - rb_f r))"

definition get_exist_size :: "ring \<Rightarrow> int" where
  "get_exist_size r = int_of_u64 (rb_p r - rb_f r)"

text \<open>
  The two iovec functions return 0 and store the iovecs and their number through pointers; the
  model returns the pair of the result and the list of the iovecs stored.
\<close>

definition get_blank_iovec :: "nat \<Rightarrow> ring \<Rightarrow> int \<times> iovec list" where
  "get_blank_iovec m r =
    (let mf = unat (rb_f r mod of_nat m); mp = unat (rb_p r mod of_nat m) in
     if mp < mf then (0, [\<lparr>iov_base = mp, iov_len = mf - mp - 1\<rparr>])
     else if mf = 0 then (0, [\<lparr>iov_base = mp, iov_len = m - mp - 1\<rparr>])
     else if mf = 1 then (0, [\<lparr>iov_base = mp, iov_len = m - mp\<rparr>])
     else (0, [\<lparr>iov_base = mp, iov_len = m - mp\<rparr>, \<lparr>iov_base = 0, iov_len = mf - 1\<rparr>]))"

definition get_exist_iovec :: "nat \<Rightarrow> ring \<Rightarrow> int \<times> iovec list" where
  "get_exist_iovec m r =
    (let mf = unat (rb_f r mod of_nat m); mp = unat (rb_p r mod of_nat m) in
     if mf \<le> mp then (0, [\<lparr>iov_base = mf, iov_len = mp - mf\<rparr>])
     else if mp = 0 then (0, [\<lparr>iov_base = mf, iov_len = m - mf\<rparr>])
     else (0, [\<lparr>iov_base = mf, iov_len = m - mf\<rparr>, \<lparr>iov_base = 0, iov_len = mp\<rparr>]))"

definition add_blank :: "int \<Rightarrow> ring \<Rightarrow> ring" where
  "add_blank v r = r\<lparr>rb_f := rb_f r + u64_of_int v\<rparr>"

definition add_exist :: "int \<Rightarrow> ring \<Rightarrow> ring" where
  "add_exist v r = r\<lparr>rb_p := rb_p r + u64_of_int v\<rparr>"

text \<open>
  What the kernel does with the iovecs it is handed, as the interface of \<^verbatim>\<open>recvmsg\<close> and
  \<^verbatim>\<open>sendmsg\<close> documents it: the buffers are filled, or read, one after the other.
\<close>

definition iov_positions :: "iovec list \<Rightarrow> nat list" where
  "iov_positions vs = concat (map (\<lambda>v. [iov_base v..<iov_base v + iov_len v]) vs)"

definition iov_total :: "iovec list \<Rightarrow> nat" where
  "iov_total vs = sum_list (map iov_len vs)"

definition fill_iov :: "iovec list \<Rightarrow> byte list \<Rightarrow> ring \<Rightarrow> ring" where
  "fill_iov vs xs r = r\<lparr>rb_buf := write_at (rb_buf r) (iov_positions vs) xs\<rparr>"

definition read_iov :: "iovec list \<Rightarrow> ring \<Rightarrow> byte list" where
  "read_iov vs r = read_at (rb_buf r) (iov_positions vs)"

section \<open>The abstraction\<close>

text \<open>
  The ring works for the sizes that divide \<open>2^64\<close> (so that the counters may wrap) and fit an
  \<open>int\<close>.  The servers use 64 and 4096.
\<close>

definition ring_cap_ok :: "nat \<Rightarrow> bool" where
  "ring_cap_ok m \<longleftrightarrow> 1 < m \<and> m < 2 ^ 31 \<and> m dvd 2 ^ 64"

definition ring_len :: "ring \<Rightarrow> nat" where
  "ring_len r = unat (rb_p r - rb_f r)"

definition ring_inv :: "nat \<Rightarrow> ring \<Rightarrow> bool" where
  "ring_inv m r \<longleftrightarrow> ring_cap_ok m \<and> length (rb_buf r) = m \<and> ring_len r < m"

definition ring_items :: "nat \<Rightarrow> ring \<Rightarrow> byte list" where
  "ring_items m r = read_at (rb_buf r) (window m (unat (rb_f r)) (ring_len r))"

definition ring_deposit :: "nat \<Rightarrow> byte list \<Rightarrow> ring \<Rightarrow> ring" where
  "ring_deposit m xs r = add_exist (int (length xs)) (fill_iov (snd (get_blank_iovec m r)) xs r)"

definition ring_consume :: "nat \<Rightarrow> ring \<Rightarrow> ring" where
  "ring_consume n r = add_blank (int n) r"

lemma ring_cap_64 [simp]: "ring_cap_ok 64"
  and ring_cap_4096 [simp]: "ring_cap_ok 4096"
  by (simp_all add: ring_cap_ok_def)

lemma ring_capD:
  assumes "ring_cap_ok m"
  shows "1 < m" "m < 2147483648" "m dvd 2 ^ 64" "0 < m"
  using assms by (auto simp: ring_cap_ok_def)

lemma ring_new_inv: "ring_cap_ok m \<Longrightarrow> ring_inv m (ring_new m junk)"
  by (auto simp: ring_inv_def ring_new_def ring_len_def dest: ring_capD)

lemma ring_new_items [simp]: "ring_items m (ring_new m junk) = []"
  by (simp add: ring_items_def ring_new_def ring_len_def)

lemma length_ring_items [simp]: "length (ring_items m r) = ring_len r"
  by (simp add: ring_items_def)

lemma ring_len_bound: "ring_inv m r \<Longrightarrow> ring_len r \<le> m - 1"
  by (auto simp: ring_inv_def)

text \<open>The two sizes the connections test, as the free and the filled length.\<close>

lemma get_exist_size_eq:
  assumes "ring_inv m r"
  shows "get_exist_size r = int (ring_len r)"
proof -
  from assms have "unat (rb_p r - rb_f r) < 2 ^ 31"
    by (simp add: ring_inv_def ring_cap_ok_def ring_len_def)
  then show ?thesis
    by (simp add: get_exist_size_def ring_len_def)
qed

lemma get_blank_size_eq:
  assumes "ring_inv m r"
  shows "get_blank_size m r = int (m - 1 - ring_len r)"
proof -
  from assms obtain k where m: "m = Suc k" "k < 2147483647"
    by (cases m) (auto simp: ring_inv_def dest: ring_capD)
  with assms have len: "unat (rb_p r - rb_f r) \<le> k"
    by (auto simp: ring_inv_def ring_len_def)
  have u: "u64_of_int (int m - 1) = of_nat k"
    using m by (simp add: u64_of_int_def)
  have "unat (of_nat k - (rb_p r - rb_f r)) = k - ring_len r"
    using m len by (subst unat_sub) (simp_all add: word_le_nat_alt ring_len_def)
  then show ?thesis
    using m u by (simp only: get_blank_size_def) simp
qed

text \<open>
  The free part ends one cell before the front; both parts are windows of the ring, and the
  iovecs list their positions in stream order.
\<close>

lemma rear_mod:
  assumes "ring_inv m r"
  shows "unat (rb_p r) mod m = (unat (rb_f r) mod m + ring_len r) mod m"
proof -
  have "rb_p r = rb_f r + of_nat (ring_len r)"
    by (simp add: ring_len_def)
  then have "unat (rb_p r) mod m = (unat (rb_f r) + ring_len r) mod m"
    using assms unat_mod_wrap [of m "rb_f r" "ring_len r"]
    by (simp only:) (auto simp: ring_inv_def dest: ring_capD)
  then show ?thesis
    by (simp add: mod_add_left_eq)
qed

lemma unat_mod_cap: "ring_cap_ok m \<Longrightarrow> unat (x mod of_nat m :: u64) = unat x mod m"
  by (simp add: unat_mod ring_cap_ok_def)

lemma ring_position_laws:
  assumes "ring_inv m r"
  shows "unat (rb_f r) mod m < m" "ring_len r < m" "ring_cap_ok m"
    "unat (rb_p r) mod m = (unat (rb_f r) mod m + ring_len r) mod m" "unat (rb_p r) mod m < m"
  using assms rear_mod [OF assms] by (auto simp: ring_inv_def dest: ring_capD)

lemma exist_positions:
  assumes inv: "ring_inv m r"
  shows "iov_positions (snd (get_exist_iovec m r)) = window m (unat (rb_f r)) (ring_len r)"
proof -
  note laws = ring_position_laws [OF inv]
  have "window m (unat (rb_f r)) (ring_len r) = window m (unat (rb_f r) mod m) (ring_len r)"
    by (simp add: window_mod)
  also note window_filled [OF laws(1,2,4)]
  finally show ?thesis
    using laws(1) by (simp add: get_exist_iovec_def iov_positions_def Let_def unat_mod_cap laws(3))
qed

lemma blank_positions:
  assumes inv: "ring_inv m r"
  shows "iov_positions (snd (get_blank_iovec m r)) = window m (unat (rb_p r)) (m - 1 - ring_len r)"
proof -
  note laws = ring_position_laws [OF inv]
  have "window m (unat (rb_p r)) (m - 1 - ring_len r)
      = window m (unat (rb_p r) mod m) (m - 1 - ring_len r)"
    by (simp add: window_mod)
  also note window_free [OF laws(1,2,4)]
  finally show ?thesis
    using laws(1,5) by (auto simp: get_blank_iovec_def iov_positions_def Let_def unat_mod_cap laws(3))
qed

lemma iov_positions_simps [simp]:
  "iov_positions [] = []"
  "iov_positions (v # vs) = [iov_base v..<iov_base v + iov_len v] @ iov_positions vs"
  by (simp_all add: iov_positions_def)

lemma length_iov_positions [simp]: "length (iov_positions vs) = iov_total vs"
  by (induction vs) (simp_all add: iov_total_def)

lemma blank_total: "ring_inv m r \<Longrightarrow> iov_total (snd (get_blank_iovec m r)) = m - 1 - ring_len r"
  using blank_positions [of m r] by (metis length_iov_positions length_window)

lemma exist_total: "ring_inv m r \<Longrightarrow> iov_total (snd (get_exist_iovec m r)) = ring_len r"
  using exist_positions [of m r] by (metis length_iov_positions length_window)

lemma blank_iovec_returns_0 [simp]: "fst (get_blank_iovec m r) = 0"
  by (simp add: get_blank_iovec_def Let_def)

lemma read_exist: "ring_inv m r \<Longrightarrow> read_iov (snd (get_exist_iovec m r)) r = ring_items m r"
  by (simp add: read_iov_def exist_positions ring_items_def)

section \<open>Depositing and consuming\<close>

lemma ring_len_deposit:
  assumes "ring_inv m r" "ring_len r + length xs \<le> m - 1"
  shows "ring_len (ring_deposit m xs r) = ring_len r + length xs"
proof -
  have "unat (rb_p r - rb_f r) + length xs < 2 ^ 64"
    using assms by (auto simp: ring_inv_def ring_len_def dest: ring_capD)
  then show ?thesis
    by (simp add: ring_deposit_def ring_len_def add_exist_def fill_iov_def unat_advance_hi)
qed

lemma ring_deposit_inv:
  assumes "ring_inv m r" "ring_len r + length xs \<le> m - 1"
  shows "ring_inv m (ring_deposit m xs r)"
  using assms ring_len_deposit [OF assms] ring_capD(1) [of m]
  by (auto simp: ring_inv_def) (auto simp: ring_deposit_def add_exist_def fill_iov_def)

lemma ring_items_deposit:
  assumes inv: "ring_inv m r" and room: "ring_len r + length xs \<le> m - 1"
  shows "ring_items m (ring_deposit m xs r) = ring_items m r @ xs"
proof -
  let ?f = "unat (rb_f r)" and ?p = "unat (rb_p r)" and ?n = "ring_len r" and ?k = "m - 1 - ring_len r"
  let ?buf = "write_at (rb_buf r) (window m ?p ?k) xs"
  from inv have m: "0 < m" "length (rb_buf r) = m" and n: "?n < m"
    by (auto simp: ring_inv_def dest: ring_capD)
  have pf: "window m ?p i = window m (?f + ?n) i" for i
    using rear_mod [OF inv] by (metis window_mod mod_add_left_eq)
  have "ring_items m (ring_deposit m xs r) = read_at ?buf (window m ?f (?n + length xs))"
    using ring_len_deposit [OF assms]
    by (simp add: ring_items_def) (simp add: ring_deposit_def add_exist_def fill_iov_def blank_positions inv)
  also have "\<dots> = read_at ?buf (window m ?f ?n) @ read_at ?buf (window m ?p (length xs))"
    by (simp add: window_add pf)
  also have "read_at ?buf (window m ?f ?n) = ring_items m r"
    unfolding ring_items_def
    by (rule read_write_at_disjoint) (use window_disjoint [of ?n ?k m ?f] n pf in auto)
  also have "read_at ?buf (window m ?p (length xs)) = xs"
  proof -
    have "\<forall>i \<in> set (window m ?p ?k). i < length (rb_buf r)"
      using m(1) set_window_lt [of m _ ?p ?k] unfolding m(2) by blast
    moreover have "take (length xs) (window m ?p ?k) = window m ?p (length xs)"
      using room by (subst take_window, subst min_absorb1) simp_all
    ultimately show ?thesis
      using read_write_at [of "window m ?p ?k" "rb_buf r" xs] room by (simp add: distinct_window)
  qed
  finally show ?thesis .
qed

lemma ring_len_consume:
  assumes "n \<le> ring_len r"
  shows "ring_len (ring_consume n r) = ring_len r - n"
  using assms by (simp add: ring_consume_def add_blank_def ring_len_def unat_advance_lo)

lemma ring_consume_inv: "ring_inv m r \<Longrightarrow> n \<le> ring_len r \<Longrightarrow> ring_inv m (ring_consume n r)"
  using ring_len_consume [of n r] by (auto simp: ring_inv_def) (auto simp: ring_consume_def add_blank_def)

lemma ring_items_consume:
  assumes inv: "ring_inv m r" and n: "n \<le> ring_len r"
  shows "ring_items m (ring_consume n r) = drop n (ring_items m r)"
proof -
  from inv have "m dvd 2 ^ 64"
    by (auto simp: ring_inv_def dest: ring_capD)
  then have "window m (unat (rb_f r + of_nat n)) k = window m (unat (rb_f r) + n) k" for k
    by (metis unat_mod_wrap window_mod)
  then show ?thesis
    using ring_len_consume [OF n]
    by (simp add: ring_items_def drop_read_at drop_window) (simp add: ring_consume_def add_blank_def)
qed

interpretation ring: byte_fifo "ring_items m" "ring_inv m" "m - 1" "ring_deposit m" ring_consume for m
  by unfold_locales
    (auto simp: ring_items_deposit ring_deposit_inv ring_items_consume ring_consume_inv dest: ring_len_bound)

text \<open>
  Depositing a prefix of the free part leaves its rest.  And no iovec is empty while there is room,
  or data: the native connections would take the 0 that \<^verbatim>\<open>recv\<close> returns for an empty buffer for
  the end of the stream.
\<close>

lemma blank_positions_deposit:
  assumes inv: "ring_inv m r" and room: "ring_len r + length xs \<le> m - 1"
  shows "iov_positions (snd (get_blank_iovec m (ring_deposit m xs r))) =
    drop (length xs) (iov_positions (snd (get_blank_iovec m r)))"
proof -
  from inv have m: "m dvd 2 ^ 64"
    by (auto simp: ring_inv_def dest: ring_capD)
  have "rb_p (ring_deposit m xs r) = rb_p r + of_nat (length xs)"
    by (simp add: ring_deposit_def add_exist_def fill_iov_def)
  then have "window m (unat (rb_p (ring_deposit m xs r))) k = window m (unat (rb_p r) + length xs) k" for k
    using unat_mod_wrap [OF m] by (metis window_mod)
  then show ?thesis
    by (simp add: blank_positions [OF ring_deposit_inv [OF assms]] blank_positions [OF inv]
        ring_len_deposit [OF assms] drop_window)
qed

lemma blank_iovecs_nonempty:
  assumes "ring_inv m r" "ring_len r < m - 1" "v \<in> set (snd (get_blank_iovec m r))"
  shows "0 < iov_len v"
proof -
  note laws = ring_position_laws [OF assms(1)]
  have "0 < iov_total (snd (get_blank_iovec m r))"
    using blank_total [OF assms(1)] assms(2) by simp
  then show ?thesis
    using assms(3) laws(1,5)
    by (auto simp: get_blank_iovec_def Let_def iov_total_def unat_mod_cap [OF laws(3)] split: if_splits)
qed

lemma exist_iovecs_nonempty:
  assumes "ring_inv m r" "0 < ring_len r" "v \<in> set (snd (get_exist_iovec m r))"
  shows "0 < iov_len v"
proof -
  note laws = ring_position_laws [OF assms(1)]
  have "0 < iov_total (snd (get_exist_iovec m r))"
    using exist_total [OF assms(1)] assms(2) by simp
  then show ?thesis
    using assms(3) laws(1,5)
    by (auto simp: get_exist_iovec_def Let_def iov_total_def unat_mod_cap [OF laws(3)] split: if_splits)
qed

lemma add_exist_0 [simp]: "add_exist 0 r = r" and add_blank_0 [simp]: "add_blank 0 r = r"
  by (simp_all add: add_exist_def add_blank_def u64_of_int_def)

section \<open>What the ring promises\<close>

text \<open>C9: the iovecs of a ring describe exactly its free and its filled part.  For every position of
  the two counters the iovecs of \<^verbatim>\<open>get_blank_iovec\<close> list, in stream order, the cells behind the
  rear up to the one kept free, those of \<^verbatim>\<open>get_exist_iovec\<close> list the buffered cells, the two sets of
  cells are disjoint and inside the array, there are at most two iovecs, none of them empty while there is
  room (data), and the two sizes the connections test are their lengths.\<close>

theorem ring_iovecs_exact:
  assumes "ring_inv m r"
  shows "iov_positions (snd (get_blank_iovec m r)) = window m (unat (rb_p r)) (m - 1 - ring_len r) \<and>
    iov_positions (snd (get_exist_iovec m r)) = window m (unat (rb_f r)) (ring_len r) \<and>
    set (iov_positions (snd (get_blank_iovec m r))) \<inter> set (iov_positions (snd (get_exist_iovec m r))) = {} \<and>
    set (iov_positions (snd (get_blank_iovec m r))) \<subseteq> {..<m} \<and>
    set (iov_positions (snd (get_exist_iovec m r))) \<subseteq> {..<m} \<and>
    length (snd (get_blank_iovec m r)) \<le> 2 \<and> length (snd (get_exist_iovec m r)) \<le> 2 \<and>
    (0 < get_blank_size m r \<longrightarrow> 0 \<notin> iov_len ` set (snd (get_blank_iovec m r))) \<and>
    (0 < get_exist_size r \<longrightarrow> 0 \<notin> iov_len ` set (snd (get_exist_iovec m r))) \<and>
    get_blank_size m r = int (iov_total (snd (get_blank_iovec m r))) \<and>
    get_exist_size r = int (iov_total (snd (get_exist_iovec m r)))"
proof -
  note laws = ring_position_laws [OF assms]
  have m: "0 < m" using laws(1) by simp
  have rear: "window m (unat (rb_p r)) n = window m (unat (rb_f r) + ring_len r) n" for n
    using laws(4) by (metis window_mod mod_add_left_eq)
  have "ring_len r + (m - 1 - ring_len r) \<le> m" using laws(2) by simp
  from window_disjoint [OF this, of "unat (rb_f r)"]
  have "set (window m (unat (rb_p r)) (m - 1 - ring_len r)) \<inter>
      set (window m (unat (rb_f r)) (ring_len r)) = {}"
    unfolding rear by blast
  moreover have "set (window m s n) \<subseteq> {..<m}" for s n
    using set_window_lt [OF m] by blast
  moreover have "length (snd (get_blank_iovec m r)) \<le> 2" "length (snd (get_exist_iovec m r)) \<le> 2"
    by (simp_all add: get_blank_iovec_def get_exist_iovec_def Let_def)
  moreover have "0 < get_blank_size m r \<longrightarrow> 0 \<notin> iov_len ` set (snd (get_blank_iovec m r))"
    using blank_iovecs_nonempty [OF assms] by (force simp: get_blank_size_eq [OF assms])
  moreover have "0 < get_exist_size r \<longrightarrow> 0 \<notin> iov_len ` set (snd (get_exist_iovec m r))"
    using exist_iovecs_nonempty [OF assms] by (force simp: get_exist_size_eq [OF assms])
  ultimately show ?thesis
    using blank_positions [OF assms] exist_positions [OF assms]
    by (simp add: get_blank_size_eq assms get_exist_size_eq [OF assms] blank_total exist_total)
qed

text \<open>A ring whose counters wrap around \<open>2^64\<close> between its front and its rear.\<close>

definition wrapping_ring :: ring where
  "wrapping_ring = \<lparr>rb_f = - 3, rb_p = 2, rb_buf = [10, 11, 12, 13, 14, 15, 16, 17]\<rparr>"

lemma wrapping_ring_inv: "ring_inv 8 wrapping_ring" and wrapping_ring_len: "ring_len wrapping_ring = 5"
  by (simp_all add: wrapping_ring_def ring_inv_def ring_len_def ring_cap_ok_def)

lemma wrapping_ring_items: "ring_items 8 wrapping_ring = [15, 16, 17, 10, 11]"
  unfolding read_exist [OF wrapping_ring_inv, symmetric] by code_simp

lemma ring_iovecs_exact_witness:
  "set (iov_positions (snd (get_blank_iovec 8 wrapping_ring))) \<inter>
    set (iov_positions (snd (get_exist_iovec 8 wrapping_ring))) = {} \<and>
   get_blank_size 8 wrapping_ring = 2 \<and> get_exist_size wrapping_ring = 5"
proof -
  note exact = ring_iovecs_exact [OF wrapping_ring_inv]
  have "get_blank_size 8 wrapping_ring = 2" "get_exist_size wrapping_ring = 5"
    using exact by (simp_all add: blank_total [OF wrapping_ring_inv] exist_total [OF wrapping_ring_inv] wrapping_ring_len)
  with exact show ?thesis by blast
qed

text \<open>C10: the ring is a FIFO of bytes.  Filling the blank iovecs with bytes that fit and announcing them with
  \<^verbatim>\<open>add_exist\<close> appends exactly these bytes to the stream; the bytes that the exist iovecs present to the
  kernel are the whole buffered stream, and \<^verbatim>\<open>add_blank\<close> of the number the kernel took drops exactly these
  from the front.  Both keep the ring well formed.\<close>

theorem ring_is_fifo:
  assumes "ring_inv m r"
  shows "(int (length xs) \<le> get_blank_size m r \<longrightarrow>
      ring_inv m (add_exist (int (length xs)) (fill_iov (snd (get_blank_iovec m r)) xs r)) \<and>
      ring_items m (add_exist (int (length xs)) (fill_iov (snd (get_blank_iovec m r)) xs r)) = ring_items m r @ xs) \<and>
    read_iov (snd (get_exist_iovec m r)) r = ring_items m r \<and>
    (int n \<le> get_exist_size r \<longrightarrow>
      ring_inv m (add_blank (int n) r) \<and> ring_items m (add_blank (int n) r) = drop n (ring_items m r))"
proof (intro conjI impI)
  assume "int (length xs) \<le> get_blank_size m r"
  then have "length (ring_items m r) + length xs \<le> m - 1"
    using get_blank_size_eq [OF assms] ring_len_bound [OF assms] by simp
  then show "ring_inv m (add_exist (int (length xs)) (fill_iov (snd (get_blank_iovec m r)) xs r))"
    "ring_items m (add_exist (int (length xs)) (fill_iov (snd (get_blank_iovec m r)) xs r)) = ring_items m r @ xs"
    using ring.invar_deposit [OF assms] ring.items_deposit [OF assms] unfolding ring_deposit_def by blast+
next
  show "read_iov (snd (get_exist_iovec m r)) r = ring_items m r" by (rule read_exist [OF assms])
next
  assume "int n \<le> get_exist_size r"
  then have n: "n \<le> length (ring_items m r)" using get_exist_size_eq [OF assms] by simp
  show "ring_inv m (add_blank (int n) r)" "ring_items m (add_blank (int n) r) = drop n (ring_items m r)"
    using ring.invar_consume [OF assms n] ring.items_consume [OF assms n] by (simp_all add: ring_consume_def)
qed

lemma ring_is_fifo_witness:
  "ring_items 8 (add_exist (int (length [1, 2])) (fill_iov (snd (get_blank_iovec 8 wrapping_ring)) [1, 2]
      wrapping_ring)) = [15, 16, 17, 10, 11, 1, 2] \<and>
    read_iov (snd (get_exist_iovec 8 wrapping_ring)) wrapping_ring = [15, 16, 17, 10, 11] \<and>
    ring_items 8 (add_blank (int 4) wrapping_ring) = [11]"
proof -
  have "int (length [1 :: byte, 2]) \<le> get_blank_size 8 wrapping_ring" "int 4 \<le> get_exist_size wrapping_ring"
    by (simp_all add: get_blank_size_eq [OF wrapping_ring_inv] get_exist_size_eq [OF wrapping_ring_inv] wrapping_ring_len)
  then show ?thesis
    using ring_is_fifo [OF wrapping_ring_inv, of "[1, 2]" 4] unfolding wrapping_ring_items by simp
qed

end
