(* ===== verification/Net_Io.thy ===== *)
theory Net_Io
  imports Ring_Buffer
begin

text \<open>
  The operating system as the servers see it.  The kernel is not part of the repository: it is
  a parameter, a record of functions over an arbitrary state type \<open>'k\<close> that answer each system
  call.  What the servers do to the outside world is recorded in a trace: the bytes each
  \<^verbatim>\<open>recv\<close> and \<^verbatim>\<open>send\<close> moved, and the epoll registrations.  The one hypothesis about the
  kernel, \<open>kernel_ok\<close>, is what the manual pages promise: a call moves at most as many bytes as
  it was asked to, an accepted descriptor is not one that is still open.
\<close>

section \<open>System calls\<close>

datatype errno = EAGAIN | EWOULDBLOCK | EOTHER nat

text \<open>\<^verbatim>\<open>errno == EAGAIN || errno == EWOULDBLOCK\<close>\<close>

definition again :: "errno \<Rightarrow> bool" where
  "again e \<longleftrightarrow> e = EAGAIN \<or> e = EWOULDBLOCK"

datatype recv_res = RecvData "byte list" | RecvErr errno
datatype send_res = SendLen nat | SendErr errno

record 'k kernel =
  k_recv :: "int \<Rightarrow> nat \<Rightarrow> 'k \<Rightarrow> recv_res \<times> 'k"
  k_send :: "int \<Rightarrow> byte list \<Rightarrow> 'k \<Rightarrow> send_res \<times> 'k"

definition kernel_ok :: "('k, 'z) kernel_scheme \<Rightarrow> bool" where
  "kernel_ok K \<longleftrightarrow>
    (\<forall>fd n s bs s'. k_recv K fd n s = (RecvData bs, s') \<longrightarrow> length bs \<le> n) \<and>
    (\<forall>fd bs s n s'. k_send K fd bs s = (SendLen n, s') \<longrightarrow> n \<le> length bs)"

lemma kernel_ok_recv: "kernel_ok K \<Longrightarrow> k_recv K fd n s = (RecvData bs, s') \<Longrightarrow> length bs \<le> n"
  and kernel_ok_send: "kernel_ok K \<Longrightarrow> k_send K fd bs s = (SendLen k, s') \<Longrightarrow> k \<le> length bs"
  unfolding kernel_ok_def by blast+

section \<open>The trace\<close>

datatype io_event =
    Recvd int "byte list"
  | Sent int "byte list"
  | CtlAdd int u32
  | CtlMod int u32
  | CtlDel int
  | Closed int

record 'k world =
  w_os :: 'k
  w_trace :: "io_event list"

definition emit :: "io_event \<Rightarrow> 'k world \<Rightarrow> 'k world" where
  "emit e w = w\<lparr>w_trace := w_trace w @ [e]\<rparr>"

definition sys_recv :: "('k, 'z) kernel_scheme \<Rightarrow> int \<Rightarrow> nat \<Rightarrow> 'k world \<Rightarrow> recv_res \<times> 'k world" where
  "sys_recv K fd n w = (case k_recv K fd n (w_os w) of
      (RecvData bs, s) \<Rightarrow> (RecvData bs, emit (Recvd fd bs) (w\<lparr>w_os := s\<rparr>))
    | (RecvErr e, s) \<Rightarrow> (RecvErr e, w\<lparr>w_os := s\<rparr>))"

definition sys_send :: "('k, 'z) kernel_scheme \<Rightarrow> int \<Rightarrow> byte list \<Rightarrow> 'k world \<Rightarrow> send_res \<times> 'k world" where
  "sys_send K fd bs w = (case k_send K fd bs (w_os w) of
      (SendLen n, s) \<Rightarrow> (SendLen n, emit (Sent fd (take n bs)) (w\<lparr>w_os := s\<rparr>))
    | (SendErr e, s) \<Rightarrow> (SendErr e, w\<lparr>w_os := s\<rparr>))"

text \<open>
  What was received and sent on a descriptor since it was last registered with epoll, that is, by
  the connection that owns the descriptor: the kernel reuses the numbers of closed ones.
\<close>

fun recv_step :: "int \<Rightarrow> byte list \<Rightarrow> io_event \<Rightarrow> byte list" where
  "recv_step fd acc (Recvd g bs) = (if g = fd then acc @ bs else acc)"
| "recv_step fd acc (CtlAdd g ev) = (if g = fd then [] else acc)"
| "recv_step fd acc _ = acc"

fun sent_step :: "int \<Rightarrow> byte list \<Rightarrow> io_event \<Rightarrow> byte list" where
  "sent_step fd acc (Sent g bs) = (if g = fd then acc @ bs else acc)"
| "sent_step fd acc (CtlAdd g ev) = (if g = fd then [] else acc)"
| "sent_step fd acc _ = acc"

definition received_on :: "int \<Rightarrow> io_event list \<Rightarrow> byte list" where
  "received_on fd tr = foldl (recv_step fd) [] tr"

definition sent_on :: "int \<Rightarrow> io_event list \<Rightarrow> byte list" where
  "sent_on fd tr = foldl (sent_step fd) [] tr"

text \<open>The epoll interest the trace leaves registered for a descriptor.\<close>

fun interest_step :: "(int \<Rightarrow> u32 option) \<Rightarrow> io_event \<Rightarrow> (int \<Rightarrow> u32 option)" where
  "interest_step m (CtlAdd fd ev) = m(fd \<mapsto> ev)"
| "interest_step m (CtlMod fd ev) = m(fd \<mapsto> ev)"
| "interest_step m (CtlDel fd) = m(fd := None)"
| "interest_step m _ = m"

definition interest :: "io_event list \<Rightarrow> int \<Rightarrow> u32 option" where
  "interest tr = foldl interest_step (\<lambda>_. None) tr"

lemma received_on_append [simp]: "received_on fd (tr @ es) = foldl (recv_step fd) (received_on fd tr) es"
  and sent_on_append [simp]: "sent_on fd (tr @ es) = foldl (sent_step fd) (sent_on fd tr) es"
  and interest_append [simp]: "interest (tr @ es) = foldl interest_step (interest tr) es"
  by (simp_all add: received_on_def sent_on_def interest_def)

lemma trace_emit [simp]: "w_trace (emit e w) = w_trace w @ [e]"
  and os_emit [simp]: "w_os (emit e w) = w_os w"
  by (simp_all add: emit_def)

text \<open>Events on one descriptor do not touch what the trace says of another.\<close>

fun ev_fd :: "io_event \<Rightarrow> int" where
  "ev_fd (Recvd fd bs) = fd"
| "ev_fd (Sent fd bs) = fd"
| "ev_fd (CtlAdd fd ev) = fd"
| "ev_fd (CtlMod fd ev) = fd"
| "ev_fd (CtlDel fd) = fd"
| "ev_fd (Closed fd) = fd"

definition only_on :: "int \<Rightarrow> 'k world \<Rightarrow> 'k world \<Rightarrow> bool" where
  "only_on fd w w' \<longleftrightarrow> (\<exists>es. w_trace w' = w_trace w @ es \<and> (\<forall>e \<in> set es. ev_fd e = fd))"

lemma only_on_refl [intro, simp]: "only_on fd w w"
  by (simp add: only_on_def)

lemma only_on_quiet: "w_trace w' = w_trace w \<Longrightarrow> only_on fd w w'"
  by (simp add: only_on_def)

lemma only_on_event: "w_trace w' = w_trace w @ [e] \<Longrightarrow> ev_fd e = fd \<Longrightarrow> only_on fd w w'"
  by (simp add: only_on_def)

lemma only_on_emit [simp]: "ev_fd e = fd \<Longrightarrow> only_on fd w (emit e w)"
  by (simp add: only_on_event)

lemma only_on_trans [trans]: "only_on fd w w1 \<Longrightarrow> only_on fd w1 w2 \<Longrightarrow> only_on fd w w2"
  by (auto simp: only_on_def)

lemma other_fd_step:
  assumes "ev_fd e \<noteq> fd"
  shows "recv_step fd a e = a" "sent_step fd a e = a" "interest_step m e fd = m fd"
  using assms by (cases e; simp)+

lemma only_on_frame:
  assumes "only_on g w w'" "g \<noteq> fd"
  shows "received_on fd (w_trace w') = received_on fd (w_trace w)"
    "sent_on fd (w_trace w') = sent_on fd (w_trace w)"
    "interest (w_trace w') fd = interest (w_trace w) fd"
proof -
  have frame: "foldl (recv_step fd) a es = a \<and> foldl (sent_step fd) b es = b \<and>
      foldl interest_step m es fd = m fd" if "\<forall>e \<in> set es. ev_fd e = g" for a b m es
    using that
  proof (induction es arbitrary: a b m)
    case (Cons e es)
    then have "ev_fd e \<noteq> fd" using assms(2) by simp
    then show ?case
      using Cons by (simp add: other_fd_step)
  qed simp
  obtain es where es: "w_trace w' = w_trace w @ es" "\<forall>e \<in> set es. ev_fd e = g"
    using assms(1) by (auto simp: only_on_def)
  show "received_on fd (w_trace w') = received_on fd (w_trace w)"
    "sent_on fd (w_trace w') = sent_on fd (w_trace w)"
    "interest (w_trace w') fd = interest (w_trace w) fd"
    using frame [OF es(2)] es(1) by simp_all
qed

lemma sys_recv_only: "sys_recv K fd n w = (res, w') \<Longrightarrow> only_on fd w w'"
  by (auto simp: sys_recv_def only_on_def split: prod.splits recv_res.splits)

lemma sys_send_only: "sys_send K fd bs w = (res, w') \<Longrightarrow> only_on fd w w'"
  by (auto simp: sys_send_def only_on_def split: prod.splits send_res.splits)

section \<open>Facts about the calls\<close>

lemma sys_recv_cases:
  assumes "kernel_ok K" "sys_recv K fd n w = (res, w')"
  obtains (data) bs where "res = RecvData bs" "length bs \<le> n" "w_trace w' = w_trace w @ [Recvd fd bs]"
  | (error) e where "res = RecvErr e" "w_trace w' = w_trace w" "k_recv K fd n (w_os w) = (RecvErr e, w_os w')"
proof -
  obtain r s where rs: "k_recv K fd n (w_os w) = (r, s)" by (cases "k_recv K fd n (w_os w)") auto
  show ?thesis
  proof (cases r)
    case (RecvData bs)
    then show ?thesis
      using assms rs data [of bs] kernel_ok_recv [of K fd n "w_os w" bs s]
      by (auto simp: sys_recv_def)
  next
    case (RecvErr e)
    then show ?thesis
      using assms rs error [of e] by (auto simp: sys_recv_def)
  qed
qed

lemma sys_send_cases:
  assumes "kernel_ok K" "sys_send K fd bs w = (res, w')"
  obtains (sent) n where "res = SendLen n" "n \<le> length bs" "w_trace w' = w_trace w @ [Sent fd (take n bs)]"
  | (error) e where "res = SendErr e" "w_trace w' = w_trace w" "k_send K fd bs (w_os w) = (SendErr e, w_os w')"
proof -
  obtain r s where rs: "k_send K fd bs (w_os w) = (r, s)" by (cases "k_send K fd bs (w_os w)") auto
  show ?thesis
  proof (cases r)
    case (SendLen n)
    then show ?thesis
      using assms rs sent [of n] kernel_ok_send [of K fd bs "w_os w" n s]
      by (auto simp: sys_send_def)
  next
    case (SendErr e)
    then show ?thesis
      using assms rs error [of e] by (auto simp: sys_send_def)
  qed
qed

text \<open>The kernel can answer a call on the descriptor with an error other than "try again".\<close>

definition hard_error :: "('k, 'z) kernel_scheme \<Rightarrow> int \<Rightarrow> bool" where
  "hard_error K fd \<longleftrightarrow>
    (\<exists>n s e s'. k_recv K fd n s = (RecvErr e, s') \<and> \<not> again e) \<or>
    (\<exists>bs s e s'. k_send K fd bs s = (SendErr e, s') \<and> \<not> again e)"

lemma hard_errorI:
  "k_recv K fd n s = (RecvErr e, s') \<Longrightarrow> \<not> again e \<Longrightarrow> hard_error K fd"
  "k_send K fd bs s = (SendErr e, s') \<Longrightarrow> \<not> again e \<Longrightarrow> hard_error K fd"
  unfolding hard_error_def by blast+

text \<open>The last thing read from the descriptor was the end of the stream.\<close>

definition saw_eof :: "int \<Rightarrow> 'k world \<Rightarrow> bool" where
  "saw_eof fd w \<longleftrightarrow> (\<exists>tr. w_trace w = tr @ [Recvd fd []])"

section \<open>A scripted kernel\<close>

text \<open>
  A concrete kernel for evaluating the servers: it plays back a list of answers to \<^verbatim>\<open>recv\<close>
  and a list of answers to \<^verbatim>\<open>send\<close>, cut down to what was asked for, and answers
  \<open>EAGAIN\<close> once a list is used up.
\<close>

type_synonym script = "recv_res list \<times> send_res list"

fun script_recv :: "int \<Rightarrow> nat \<Rightarrow> script \<Rightarrow> recv_res \<times> script" where
  "script_recv fd n (RecvData bs # rs, ss) = (RecvData (take n bs), (rs, ss))"
| "script_recv fd n (RecvErr e # rs, ss) = (RecvErr e, (rs, ss))"
| "script_recv fd n ([], ss) = (RecvErr EAGAIN, ([], ss))"

fun script_send :: "int \<Rightarrow> byte list \<Rightarrow> script \<Rightarrow> send_res \<times> script" where
  "script_send fd bs (rs, SendLen n # ss) = (SendLen (min n (length bs)), (rs, ss))"
| "script_send fd bs (rs, SendErr e # ss) = (SendErr e, (rs, ss))"
| "script_send fd bs (rs, []) = (SendErr EAGAIN, (rs, []))"

definition script_kernel :: "script kernel" where
  "script_kernel = \<lparr>k_recv = script_recv, k_send = script_send\<rparr>"

lemma script_recv_bound: "script_recv fd n s = (RecvData bs, s') \<Longrightarrow> length bs \<le> n"
  by (induction fd n s rule: script_recv.induct) auto

lemma script_send_bound: "script_send fd bs s = (SendLen n, s') \<Longrightarrow> n \<le> length bs"
  by (induction fd bs s rule: script_send.induct) auto

lemma script_kernel_ok [simp]: "kernel_ok script_kernel"
  by (auto simp: kernel_ok_def script_kernel_def script_recv_bound script_send_bound)

end
