(* ===== verification/Connection.thy ===== *)
theory Connection
  imports Net_Io
begin

text \<open>
  The part of \<^verbatim>\<open>class Connection\<close> the echo servers share: a descriptor, the epoll instance it is
  registered with, and a ring buffer.  Each server extends the record with the way it remembers its
  epoll interest.

  The interface \<open>echo_handler\<close> is what the event loop relies on when it calls a connection's
  virtual \<^verbatim>\<open>handle\<close>: a law about one call, from which the theorems about whole runs follow.
\<close>

record conn =
  cn_fd :: int
  cn_epfd :: int
  cn_buf :: ring

definition echo_ok :: "nat \<Rightarrow> 'x conn_scheme \<Rightarrow> 'k world \<Rightarrow> bool" where
  "echo_ok m c w \<longleftrightarrow> ring_inv m (cn_buf c) \<and>
    sent_on (cn_fd c) (w_trace w) @ ring_items m (cn_buf c) = received_on (cn_fd c) (w_trace w)"

lemma echo_okD:
  assumes "echo_ok m c w"
  shows "ring_inv m (cn_buf c)"
    "sent_on (cn_fd c) (w_trace w) @ ring_items m (cn_buf c) = received_on (cn_fd c) (w_trace w)"
  using assms by (auto simp: echo_ok_def)

text \<open>What the kinds of outside action do to the echo equation.\<close>

lemma echo_ok_ctl [simp]:
  "echo_ok m c (emit (CtlMod fd ev) w) = echo_ok m c w"
  "echo_ok m c (emit (CtlDel fd) w) = echo_ok m c w"
  "echo_ok m c (emit (Closed fd) w) = echo_ok m c w"
  by (simp_all add: echo_ok_def)

lemma echo_ok_frame:
  assumes "echo_ok m c w" "only_on g w w'" "g \<noteq> cn_fd c"
  shows "echo_ok m c w'"
  using assms by (simp add: echo_ok_def only_on_frame)

lemma echo_ok_quiet: "echo_ok m c w \<Longrightarrow> w_trace w' = w_trace w \<Longrightarrow> echo_ok m c w'"
  by (simp add: echo_ok_def)

text \<open>Data read into the free part, or into a first piece of it, and counted with \<open>add_exist\<close>.\<close>

lemma fill_prefix:
  assumes "iov_positions vs @ js = iov_positions (snd (get_blank_iovec m r))"
    and "length xs \<le> iov_total vs"
  shows "add_exist (int (length xs)) (fill_iov vs xs r) = ring_deposit m xs r"
proof -
  have "write_at (rb_buf r) (iov_positions vs) xs = write_at (rb_buf r) (iov_positions vs @ js) xs"
    using assms(2) by (simp add: write_at_append)
  then show ?thesis
    by (simp add: ring_deposit_def fill_iov_def assms(1))
qed

lemma echo_ok_recv:
  assumes ok: "echo_ok m c w"
    and pos: "iov_positions vs @ js = iov_positions (snd (get_blank_iovec m (cn_buf c)))"
    and xs: "length xs \<le> iov_total vs"
    and tr: "w_trace w' = w_trace w @ [Recvd (cn_fd c) xs]"
  shows "echo_ok m (c\<lparr>cn_buf := add_exist (int (length xs)) (fill_iov vs xs (cn_buf c))\<rparr>) w'"
proof -
  let ?r = "cn_buf c"
  note inv = echo_okD(1) [OF ok]
  have "iov_total vs \<le> m - 1 - ring_len ?r"
    using arg_cong [OF pos, of length] blank_total [OF inv] by simp
  then have room: "length (ring_items m ?r) + length xs \<le> m - 1"
    using xs ring_len_bound [OF inv] by simp
  show ?thesis
    using ring.invar_deposit [OF inv room] ring.echo_deposit [OF inv room echo_okD(2) [OF ok]]
    by (simp add: echo_ok_def fill_prefix [OF pos xs] tr)
qed

text \<open>Data read from the front and counted with \<open>add_blank\<close>.\<close>

lemma echo_ok_send:
  assumes ok: "echo_ok m c w"
    and n: "n \<le> ring_len (cn_buf c)"
    and tr: "w_trace w' = w_trace w @ [Sent (cn_fd c) (take n (ring_items m (cn_buf c)))]"
  shows "echo_ok m (c\<lparr>cn_buf := add_blank (int n) (cn_buf c)\<rparr>) w'"
proof -
  note inv = echo_okD(1) [OF ok]
  have n': "n \<le> length (ring_items m (cn_buf c))"
    using n by simp
  show ?thesis
    using ring.invar_consume [OF inv n'] ring.echo_consume [OF inv n' echo_okD(2) [OF ok]]
    by (simp add: echo_ok_def ring_consume_def tr)
qed

lemma ring_len_add_blank: "n \<le> ring_len r \<Longrightarrow> ring_len (add_blank (int n) r) = ring_len r - n"
  using ring_len_consume [of n r] by (simp add: ring_consume_def)

section \<open>The effect of receiving\<close>

text \<open>
  What every function that reads into the ring does, whatever it returns: the bytes it read are
  appended to the ring and to what the trace says was received, and nothing else changes.
\<close>

definition recv_effect :: "nat \<Rightarrow> 'x conn_scheme \<times> 'k world \<Rightarrow> 'x conn_scheme \<times> 'k world \<Rightarrow> bool" where
  "recv_effect m = (\<lambda>(c, w) (c', w').
    ring_inv m (cn_buf c') \<and> c' = c\<lparr>cn_buf := cn_buf c'\<rparr> \<and>
    (\<exists>bs. ring_items m (cn_buf c') = ring_items m (cn_buf c) @ bs \<and>
      received_on (cn_fd c) (w_trace w') = received_on (cn_fd c) (w_trace w) @ bs) \<and>
    sent_on (cn_fd c) (w_trace w') = sent_on (cn_fd c) (w_trace w) \<and>
    interest (w_trace w') (cn_fd c) = interest (w_trace w) (cn_fd c) \<and> only_on (cn_fd c) w w')"

lemma recv_effectD:
  assumes "recv_effect m (c, w) (c', w')"
  shows "ring_inv m (cn_buf c')" "c' = c\<lparr>cn_buf := cn_buf c'\<rparr>" "cn_fd c' = cn_fd c"
    "sent_on (cn_fd c) (w_trace w') = sent_on (cn_fd c) (w_trace w)"
    "interest (w_trace w') (cn_fd c) = interest (w_trace w) (cn_fd c)" "only_on (cn_fd c) w w'"
    "\<exists>bs. ring_items m (cn_buf c') = ring_items m (cn_buf c) @ bs \<and>
      received_on (cn_fd c) (w_trace w') = received_on (cn_fd c) (w_trace w) @ bs"
    "ring_len (cn_buf c) \<le> ring_len (cn_buf c')"
proof -
  note e = assms [unfolded recv_effect_def prod.case]
  from e show "ring_inv m (cn_buf c')" "c' = c\<lparr>cn_buf := cn_buf c'\<rparr>"
    "sent_on (cn_fd c) (w_trace w') = sent_on (cn_fd c) (w_trace w)"
    "interest (w_trace w') (cn_fd c) = interest (w_trace w) (cn_fd c)" "only_on (cn_fd c) w w'"
    "\<exists>bs. ring_items m (cn_buf c') = ring_items m (cn_buf c) @ bs \<and>
      received_on (cn_fd c) (w_trace w') = received_on (cn_fd c) (w_trace w) @ bs"
    by blast+
  from e have "c' = c\<lparr>cn_buf := cn_buf c'\<rparr>" by blast
  then show "cn_fd c' = cn_fd c"
    by (metis conn.select_convs(1) conn.surjective conn.update_convs(3))
  from e show "ring_len (cn_buf c) \<le> ring_len (cn_buf c')"
    by (metis length_append length_ring_items le_add1)
qed

lemma recv_effect_refl: "ring_inv m (cn_buf c) \<Longrightarrow> recv_effect m (c, w) (c, w)"
  by (simp add: recv_effect_def)

lemma recv_effect_quiet: "ring_inv m (cn_buf c) \<Longrightarrow> w_trace w' = w_trace w \<Longrightarrow> recv_effect m (c, w) (c, w')"
  by (simp add: recv_effect_def only_on_quiet)

lemma recv_effect_eof:
  "ring_inv m (cn_buf c) \<Longrightarrow> w_trace w' = w_trace w @ [Recvd (cn_fd c) []] \<Longrightarrow> recv_effect m (c, w) (c, w')"
  by (simp add: recv_effect_def only_on_event)

lemma recv_effect_data:
  assumes inv: "ring_inv m (cn_buf c)"
    and pos: "iov_positions vs @ js = iov_positions (snd (get_blank_iovec m (cn_buf c)))"
    and xs: "length xs \<le> iov_total vs"
    and tr: "w_trace w' = w_trace w @ [Recvd (cn_fd c) xs]"
  shows "recv_effect m (c, w) (c\<lparr>cn_buf := add_exist (int (length xs)) (fill_iov vs xs (cn_buf c))\<rparr>, w')"
    "add_exist (int (length xs)) (fill_iov vs xs (cn_buf c)) = ring_deposit m xs (cn_buf c)"
    "ring_len (cn_buf c) + length xs \<le> m - 1"
proof -
  let ?r = "cn_buf c"
  have "iov_total vs \<le> m - 1 - ring_len ?r"
    using arg_cong [OF pos, of length] blank_total [OF inv] by simp
  then show room: "ring_len ?r + length xs \<le> m - 1"
    using xs ring_len_bound [OF inv] by simp
  show dep: "add_exist (int (length xs)) (fill_iov vs xs (cn_buf c)) = ring_deposit m xs (cn_buf c)"
    by (rule fill_prefix [OF pos xs])
  show "recv_effect m (c, w) (c\<lparr>cn_buf := add_exist (int (length xs)) (fill_iov vs xs ?r)\<rparr>, w')"
    using ring_deposit_inv [OF inv room] ring_items_deposit [OF inv room]
    by (simp add: recv_effect_def dep tr only_on_event)
qed

lemma recv_effect_trans:
  assumes "recv_effect m (c, w) (c1, w1)" "recv_effect m (c1, w1) (c2, w2)"
  shows "recv_effect m (c, w) (c2, w2)"
proof -
  note a = recv_effectD [OF assms(1)] and b = recv_effectD [OF assms(2)]
  have "c2 = c\<lparr>cn_buf := cn_buf c2\<rparr>"
    using a(2) b(2) by (metis conn.update_convs(3) conn.surjective)
  moreover have "\<exists>bs. ring_items m (cn_buf c2) = ring_items m (cn_buf c) @ bs \<and>
      received_on (cn_fd c) (w_trace w2) = received_on (cn_fd c) (w_trace w) @ bs"
    using a(3,7) b(7) by (metis append_assoc)
  ultimately show ?thesis
    using a b only_on_trans [OF a(6)] unfolding recv_effect_def by simp
qed

lemma recv_effect_echo: "recv_effect m (c, w) (c', w') \<Longrightarrow> echo_ok m c w \<Longrightarrow> echo_ok m c' w'"
  using recv_effectD [of m c w c' w'] unfolding echo_ok_def by (metis append_assoc)

section \<open>The interface of the environment\<close>

text \<open>
  What a connection gets from outside: a kernel that keeps the documented contract of its calls,
  and a ring size for which the buffer works.  The kernel has no code in the repository, so the
  instance is the scripted one; the sublocales below hold for every kernel.
\<close>

locale echo_env =
  fixes K :: "('k, 'z) kernel_scheme"
    and m :: nat
  assumes kernel: "kernel_ok K"
    and cap: "ring_cap_ok m"

interpretation script_4096: echo_env script_kernel 4096
  by unfold_locales simp_all

interpretation script_64: echo_env script_kernel 64
  by unfold_locales simp_all

section \<open>The interface of a connection's handler\<close>

text \<open>
  \<open>good\<close> is what the handler keeps true of the connection between two calls; after a negative
  result the event loop deletes the object.
\<close>

locale echo_handler =
  fixes handle :: "u32 \<Rightarrow> 'x conn_scheme \<times> 'k world \<Rightarrow> int \<times> 'x conn_scheme \<times> 'k world"
    and good :: "'x conn_scheme \<Rightarrow> 'k world \<Rightarrow> bool"
    and m :: nat
  assumes handle_echo: "good c w \<Longrightarrow> handle ev (c, w) = (ret, c', w') \<Longrightarrow> echo_ok m c' w'"
    and handle_good: "good c w \<Longrightarrow> handle ev (c, w) = (ret, c', w') \<Longrightarrow> 0 \<le> ret \<Longrightarrow> good c' w'"
    and handle_fd: "good c w \<Longrightarrow> handle ev (c, w) = (ret, c', w') \<Longrightarrow> cn_fd c' = cn_fd c"
    and good_echo: "good c w \<Longrightarrow> echo_ok m c w"

text \<open>
  The event loop's use of one connection: deliver events in order until \<^verbatim>\<open>handle\<close> returns a
  negative value (\<^verbatim>\<open>if (handler->handle(events[i].events) < 0) delete handler;\<close>).
\<close>

fun deliver :: "(u32 \<Rightarrow> 'x conn_scheme \<times> 'k world \<Rightarrow> int \<times> 'x conn_scheme \<times> 'k world) \<Rightarrow> u32 list \<Rightarrow>
    'x conn_scheme \<times> 'k world \<Rightarrow> int \<times> 'x conn_scheme \<times> 'k world" where
  "deliver h [] (c, w) = (0, c, w)"
| "deliver h (ev # evs) (c, w) =
    (case h ev (c, w) of (ret, c', w') \<Rightarrow> if ret < 0 then (ret, c', w') else deliver h evs (c', w'))"

context echo_handler
begin

lemma deliver_correct:
  "good c w \<Longrightarrow> deliver handle evs (c, w) = (ret, c', w') \<Longrightarrow>
    echo_ok m c' w' \<and> cn_fd c' = cn_fd c \<and> (0 \<le> ret \<longrightarrow> good c' w')"
proof (induction evs arbitrary: c w)
  case Nil
  then show ?case by (auto simp: good_echo)
next
  case (Cons ev evs)
  obtain r c1 w1 where h: "handle ev (c, w) = (r, c1, w1)"
    by (cases "handle ev (c, w)") auto
  show ?case
  proof (cases "r < 0")
    case True
    then show ?thesis
      using Cons.prems h handle_echo handle_fd by auto
  next
    case False
    then have "good c1 w1" "cn_fd c1 = cn_fd c"
      using Cons.prems(1) h handle_good handle_fd by auto
    then show ?thesis
      using Cons.IH [of c1 w1] Cons.prems(2) h False by simp
  qed
qed

lemma deliver_sent_prefix:
  assumes "good c w" "deliver handle evs (c, w) = (ret, c', w')"
  shows "\<exists>rest. sent_on (cn_fd c) (w_trace w') @ rest = received_on (cn_fd c) (w_trace w')"
  using deliver_correct [OF assms] by (auto simp: echo_ok_def)

end

text \<open>
  A handler that says why it fails: after a negative result of one call the event was not one the
  connection registered for, the peer has ended its stream, or the kernel reports a hard error.
\<close>

locale closing_handler = echo_handler handle good m
  for handle :: "u32 \<Rightarrow> 'x conn_scheme \<times> 'k world \<Rightarrow> int \<times> 'x conn_scheme \<times> 'k world"
    and good :: "'x conn_scheme \<Rightarrow> 'k world \<Rightarrow> bool"
    and m :: nat +
  fixes bad :: "u32 \<Rightarrow> bool"
    and hard :: "int \<Rightarrow> bool"
  assumes handle_why: "good c w \<Longrightarrow> handle ev (c, w) = (ret, c', w') \<Longrightarrow> ret < 0 \<Longrightarrow>
      bad ev \<or> saw_eof (cn_fd c) w' \<or> hard (cn_fd c)"
begin

lemma deliver_why:
  "good c w \<Longrightarrow> deliver handle evs (c, w) = (ret, c', w') \<Longrightarrow> ret < 0 \<Longrightarrow>
    (\<exists>ev \<in> set evs. bad ev) \<or> saw_eof (cn_fd c) w' \<or> hard (cn_fd c)"
proof (induction evs arbitrary: c w)
  case (Cons ev evs)
  obtain r c1 w1 where h: "handle ev (c, w) = (r, c1, w1)"
    by (cases "handle ev (c, w)") auto
  show ?case
  proof (cases "r < 0")
    case True
    then show ?thesis
      using Cons.prems h handle_why [OF Cons.prems(1) h] by auto
  next
    case False
    then have "good c1 w1" "cn_fd c1 = cn_fd c"
      using handle_good [OF Cons.prems(1) h] handle_fd [OF Cons.prems(1) h] by simp_all
    then show ?thesis
      using Cons.IH [of c1 w1] Cons.prems(2,3) h False by auto
  qed
qed simp

end

text \<open>A kernel that always takes some of the bytes offered for the descriptor.\<close>

definition willing_sender :: "('k, 'z) kernel_scheme \<Rightarrow> int \<Rightarrow> bool" where
  "willing_sender K fd \<longleftrightarrow>
    (\<forall>bs s. bs \<noteq> [] \<longrightarrow> (case k_send K fd bs s of (SendLen n, s') \<Rightarrow> 0 < n | (SendErr e, s') \<Rightarrow> False))"

lemma willing_sendD:
  assumes "willing_sender K fd" "bs \<noteq> []"
  obtains n s' where "k_send K fd bs s = (SendLen n, s')" "0 < n"
proof -
  obtain r s' where r: "k_send K fd bs s = (r, s')" by (cases "k_send K fd bs s")
  from assms(1) [unfolded willing_sender_def, rule_format, OF assms(2), of s]
  show thesis
    using that r by (cases r) simp_all
qed

text \<open>Runs with the scripted kernel start here, with rings of four cells.\<close>

definition run_world :: "recv_res list \<Rightarrow> send_res list \<Rightarrow> script world" where
  "run_world rs ss = \<lparr>w_os = (rs, ss), w_trace = []\<rparr>"

lemma ring_cap_4 [simp]: "ring_cap_ok 4"
  by (simp add: ring_cap_ok_def)

text \<open>One that takes a byte at a time and always has three bytes to read.\<close>

definition byte_kernel :: "unit kernel" where
  "byte_kernel = \<lparr>k_recv = (\<lambda>fd n s. (RecvData (take n [1, 2, 3]), s)),
    k_send = (\<lambda>fd bs s. (SendLen (min 1 (length bs)), s))\<rparr>"

lemma byte_kernel_ok [simp]: "kernel_ok byte_kernel"
  by (simp add: kernel_ok_def byte_kernel_def)

lemma byte_kernel_willing [simp]: "willing_sender byte_kernel fd"
  by (auto simp: willing_sender_def byte_kernel_def min_def Suc_le_eq)

section \<open>Handlers\<close>

text \<open>
  The destructor and the dispatch are the same in every server.  \<^verbatim>\<open>handle_read\<close> of the servers
  without input flow control receives and then sends, \<^verbatim>\<open>handle_write\<close> sends; \<open>rcv\<close> and \<open>sd\<close> are
  the functions they call.
\<close>

type_synonym ('c, 'k) op = "'c \<times> 'k world \<Rightarrow> int \<times> 'c \<times> 'k world"

definition conn_delete :: "'x conn_scheme \<times> 'k world \<Rightarrow> 'k world" where
  "conn_delete = (\<lambda>(c, w). emit (Closed (cn_fd c)) (emit (CtlDel (cn_fd c)) w))"

definition conn_handle_read :: "('c, 'k) op \<Rightarrow> ('c, 'k) op \<Rightarrow> ('c, 'k) op" where
  "conn_handle_read rcv sd s =
    (case rcv s of (r, s1) \<Rightarrow> if r < 0 then (-1, s1)
      else case sd s1 of (r2, s2) \<Rightarrow> if r2 < 0 then (-1, s2) else (0, s2))"

definition conn_handle_write :: "('c, 'k) op \<Rightarrow> ('c, 'k) op" where
  "conn_handle_write sd s = (case sd s of (r, s1) \<Rightarrow> if r < 0 then (-1, s1) else (0, s1))"

definition conn_handle :: "('c, 'k) op \<Rightarrow> ('c, 'k) op \<Rightarrow> u32 \<Rightarrow> ('c, 'k) op" where
  "conn_handle rd wr ev s =
    (if has ev (NOT (EPOLLIN OR EPOLLOUT)) then (-1, s)
     else case (if has ev EPOLLOUT then wr s else (0, s)) of (ret, s1) \<Rightarrow>
       if ret < 0 then (ret, s1)
       else case (if has ev EPOLLIN then rd s1 else (0, s1)) of (ret, s2) \<Rightarrow>
         if ret < 0 then (ret, s2) else (0, s2))"

text \<open>
  An operation that takes a \<open>good\<close> connection to one where \<open>base\<close> still holds, and \<open>good\<close> again
  unless it reports an error; the dispatch keeps such a law.
\<close>

definition op_law :: "('x conn_scheme \<Rightarrow> 'k world \<Rightarrow> bool) \<Rightarrow> ('x conn_scheme \<Rightarrow> 'k world \<Rightarrow> bool) \<Rightarrow>
    ('x conn_scheme, 'k) op \<Rightarrow> bool" where
  "op_law good base f \<longleftrightarrow> (\<forall>c w r c' w'. good c w \<longrightarrow> f (c, w) = (r, c', w') \<longrightarrow>
    base c' w' \<and> cn_fd c' = cn_fd c \<and> (0 \<le> r \<longrightarrow> good c' w'))"

lemma op_lawI:
  assumes "\<And>c w r c' w'. good c w \<Longrightarrow> f (c, w) = (r, c', w') \<Longrightarrow>
    base c' w' \<and> cn_fd c' = cn_fd c \<and> (0 \<le> r \<longrightarrow> good c' w')"
  shows "op_law good base f"
  using assms unfolding op_law_def by blast

lemma op_lawD:
  assumes "op_law good base f" "good c w" "f (c, w) = (r, c', w')"
  shows "base c' w'" "cn_fd c' = cn_fd c" "0 \<le> r \<Longrightarrow> good c' w'"
  using assms(1) [unfolded op_law_def, rule_format, OF assms(2,3)] by simp_all

lemma op_law_write:
  fixes good base :: "'x conn_scheme \<Rightarrow> 'k world \<Rightarrow> bool"
  shows "op_law good base sd \<Longrightarrow> op_law good base (conn_handle_write sd)"
proof (rule op_lawI)
  fix c r c' and w w' :: "'k world"
  assume law: "op_law good base sd" and good: "good c w" and run: "conn_handle_write sd (c, w) = (r, c', w')"
  obtain k c1 w1 where s: "sd (c, w) = (k, c1, w1)" by (cases "sd (c, w)") auto
  show "base c' w' \<and> cn_fd c' = cn_fd c \<and> (0 \<le> r \<longrightarrow> good c' w')"
    using run s op_lawD [OF law good s] by (auto simp: conn_handle_write_def split: if_splits)
qed

lemma op_law_handle:
  fixes good base :: "'x conn_scheme \<Rightarrow> 'k world \<Rightarrow> bool"
  assumes rd: "op_law good base rd" and wr: "op_law good base wr" and sub: "\<And>c w. good c w \<Longrightarrow> base c w"
  shows "op_law good base (conn_handle rd wr ev)"
proof (rule op_lawI)
  fix c r c' and w w' :: "'k world"
  assume good: "good c w" and run: "conn_handle rd wr ev (c, w) = (r, c', w')"
  show "base c' w' \<and> cn_fd c' = cn_fd c \<and> (0 \<le> r \<longrightarrow> good c' w')"
  proof (cases "has ev (NOT (EPOLLIN OR EPOLLOUT))")
    case True
    then show ?thesis
      using good sub run by (auto simp: conn_handle_def)
  next
    case False
    obtain r1 c1 w1 where 1: "(if has ev EPOLLOUT then wr (c, w) else (0, c, w)) = (r1, c1, w1)"
      by (cases "if has ev EPOLLOUT then wr (c, w) else (0, c, w)") auto
    have law1: "base c1 w1 \<and> cn_fd c1 = cn_fd c \<and> (0 \<le> r1 \<longrightarrow> good c1 w1)"
      using 1 good sub op_lawD [OF wr good, of r1 c1 w1] by (auto split: if_splits)
    obtain r2 c2 w2 where 2: "(if has ev EPOLLIN then rd (c1, w1) else (0, c1, w1)) = (r2, c2, w2)"
      by (cases "if has ev EPOLLIN then rd (c1, w1) else (0, c1, w1)") auto
    show ?thesis
    proof (cases "r1 < 0")
      case True
      then show ?thesis
        using run False 1 law1 by (auto simp: conn_handle_def)
    next
      case pos: False
      then have good1: "good c1 w1" using law1 by simp
      have "base c2 w2 \<and> cn_fd c2 = cn_fd c1 \<and> (0 \<le> r2 \<longrightarrow> good c2 w2)"
        using 2 good1 sub op_lawD [OF rd good1, of r2 c2 w2] by (auto split: if_splits)
      moreover have "(if r2 < 0 then (r2, c2, w2) else (0, c2, w2)) = (r, c', w')"
        using run False 1 2 pos by (simp add: conn_handle_def)
      ultimately show ?thesis
        using law1 by (auto split: if_splits)
    qed
  qed
qed

lemma op_law_echo_handler:
  fixes good base :: "'x conn_scheme \<Rightarrow> 'k world \<Rightarrow> bool"
  assumes law: "\<And>ev. op_law good base (h ev)" and sub: "\<And>c w. good c w \<Longrightarrow> base c w"
    and echo: "\<And>c w. base c w \<Longrightarrow> echo_ok m c w"
  shows "echo_handler h good m"
proof
  fix c ev r c' and w w' :: "'k world"
  assume good: "good c w"
  show "echo_ok m c w"
    by (rule echo [OF sub [OF good]])
  assume run: "h ev (c, w) = (r, c', w')"
  show "echo_ok m c' w'" "cn_fd c' = cn_fd c" "0 \<le> r \<Longrightarrow> good c' w'"
    using echo op_lawD [OF law good run] by simp_all
qed

section \<open>Operations that touch one descriptor\<close>

text \<open>
  A member function acts on the world through its own descriptor only, and never changes which
  one that is.  The combinators follow the way the handlers call each other.
\<close>

definition op_only :: "('x conn_scheme \<times> 'k world \<Rightarrow> int \<times> 'x conn_scheme \<times> 'k world) \<Rightarrow> bool" where
  "op_only f \<longleftrightarrow> (\<forall>c w r c' w'. f (c, w) = (r, c', w') \<longrightarrow> only_on (cn_fd c) w w' \<and> cn_fd c' = cn_fd c)"

lemma op_onlyD:
  assumes "op_only f" "f (c, w) = (r, c', w')"
  shows "only_on (cn_fd c) w w'" "cn_fd c' = cn_fd c"
  using assms unfolding op_only_def by blast+

lemma op_onlyI:
  "(\<And>c w r c' w'. f (c, w) = (r, c', w') \<Longrightarrow> only_on (cn_fd c) w w' \<and> cn_fd c' = cn_fd c) \<Longrightarrow> op_only f"
  unfolding op_only_def by blast

lemma op_only_bind:
  fixes f :: "'x conn_scheme \<times> 'k world \<Rightarrow> int \<times> 'x conn_scheme \<times> 'k world"
  assumes "op_only f" "\<And>n. op_only (g n)"
  shows "op_only (\<lambda>s. case f s of (n, s1) \<Rightarrow> g n s1)"
proof (rule op_onlyI)
  fix c r c' and w w' :: "'k world"
  assume run: "(case f (c, w) of (n, s1) \<Rightarrow> g n s1) = (r, c', w')"
  obtain n c1 w1 where f: "f (c, w) = (n, c1, w1)" by (cases "f (c, w)") auto
  then have g: "g n (c1, w1) = (r, c', w')" using run by simp
  show "only_on (cn_fd c) w w' \<and> cn_fd c' = cn_fd c"
    using op_onlyD [OF assms(1) f] op_onlyD [OF assms(2) g] only_on_trans by metis
qed

lemma op_only_return [simp, intro]: "op_only (\<lambda>s. (n, s))"
  by (simp add: op_only_def)

lemma op_only_if [intro]: "op_only f \<Longrightarrow> op_only g \<Longrightarrow> op_only (\<lambda>s. if b then f s else g s)"
  by (cases b) simp_all

lemma handle_only:
  assumes "op_only rd" "op_only wr"
  shows "op_only (conn_handle rd wr ev)"
  unfolding conn_handle_def by (intro op_only_bind op_only_if op_only_return assms)

lemma handle_read_only: "op_only rcv \<Longrightarrow> op_only sd \<Longrightarrow> op_only (conn_handle_read rcv sd)"
  unfolding conn_handle_read_def by (intro op_only_bind op_only_if op_only_return)

lemma handle_write_only: "op_only sd \<Longrightarrow> op_only (conn_handle_write sd)"
  unfolding conn_handle_write_def by (intro op_only_bind op_only_if op_only_return)

lemma delete_only: "only_on (cn_fd c) w (conn_delete (c, w))"
  and delete_unregisters: "interest (w_trace (conn_delete (c, w))) (cn_fd c) = None"
  by (auto simp: conn_delete_def only_on_def)

end
