(* ===== verification/Event_Loop.thy ===== *)
theory Event_Loop
  imports Connection
begin

text \<open>
  The event loop and the acceptor (\<^verbatim>\<open>tcp_echo1/common/io_context.h\<close>, \<^verbatim>\<open>acceptor.h\<close>,
  \<^verbatim>\<open>connection_factory.h\<close>; the servers of \<^verbatim>\<open>tcp_echo/\<close> carry copies).  The loop casts the
  \<^verbatim>\<open>data.ptr\<close> that epoll hands back to an \<^verbatim>\<open>EpollHandler*\<close>, calls its virtual \<^verbatim>\<open>handle\<close> and
  deletes the object after a negative result.  Whether that is sound depends on which pointers epoll
  can still hand back, so the model keeps the heap of connections and epoll's table of registered
  pointers, and makes the two ways it can go wrong (a call on a deleted object, a \<^verbatim>\<open>delete\<close> of the
  acceptor, which \<^verbatim>\<open>main\<close> keeps on its stack) values of the result.

  The connection class is a record of its virtual functions (\<open>None\<close> for a call that does not return); \<open>handler_class\<close> is what the loop relies on
  in it, and its lemmas hold for every class that is shown to obey it.
\<close>

section \<open>Objects\<close>

record ('c, 'k) conn_class =
  cc_new :: "int \<Rightarrow> int \<Rightarrow> 'k world \<Rightarrow> 'c \<times> 'k world"
  cc_handle :: "u32 \<Rightarrow> 'c \<times> 'k world \<Rightarrow> (int \<times> 'c \<times> 'k world) option"
  cc_delete :: "'c \<times> 'k world \<Rightarrow> 'k world"
  cc_fd :: "'c \<Rightarrow> int"

datatype accept_res = Accepted int | AcceptErr errno

record 'k net_kernel = "'k kernel" +
  k_accept :: "int \<Rightarrow> 'k \<Rightarrow> accept_res \<times> 'k"

text \<open>
  \<open>sv_regs\<close> is the kernel's side of the epoll instance: the pointer stored with each registered
  descriptor.  \<open>sv_conns\<close> is the heap: the live connection objects by address.
\<close>

record ('c, 'k) server =
  sv_epfd :: int
  sv_listen :: int
  sv_acceptor :: nat
  sv_conns :: "nat \<rightharpoonup> 'c"
  sv_regs :: "int \<rightharpoonup> nat"
  sv_world :: "'k world"

datatype fault = UseAfterFree | DeleteOfStackObject | NoReturn

definition acceptor_new :: "nat \<Rightarrow> int \<Rightarrow> int \<Rightarrow> 'k world \<Rightarrow> ('c, 'k) server" where
  "acceptor_new addr lfd epfd w = \<lparr>sv_epfd = epfd, sv_listen = lfd, sv_acceptor = addr,
    sv_conns = Map.empty, sv_regs = [lfd \<mapsto> addr], sv_world = emit (CtlAdd lfd EPOLLIN) w\<rparr>"

text \<open>\<open>alloc\<close> stands for \<^verbatim>\<open>operator new\<close>: it picks the address of a new object.\<close>

definition make_connection :: "('c, 'k) conn_class \<Rightarrow> (('c, 'k) server \<Rightarrow> nat) \<Rightarrow> int \<Rightarrow>
    ('c, 'k) server \<Rightarrow> ('c, 'k) server" where
  "make_connection C alloc fd sv =
    (let p = alloc sv; (c, w) = cc_new C fd (sv_epfd sv) (sv_world sv) in
     sv\<lparr>sv_conns := (sv_conns sv)(p \<mapsto> c), sv_regs := (sv_regs sv)(fd \<mapsto> p), sv_world := w\<rparr>)"

definition acceptor_handle :: "('c, 'k) conn_class \<Rightarrow> ('k, 'z) net_kernel_scheme \<Rightarrow>
    (('c, 'k) server \<Rightarrow> nat) \<Rightarrow> u32 \<Rightarrow> ('c, 'k) server \<Rightarrow> int \<times> ('c, 'k) server" where
  "acceptor_handle C K alloc ev sv =
    (if has ev (NOT EPOLLIN) then (-1, sv)
     else case k_accept K (sv_listen sv) (w_os (sv_world sv)) of
       (AcceptErr e, s) \<Rightarrow> (if again e then 0 else -1, sv\<lparr>sv_world := (sv_world sv)\<lparr>w_os := s\<rparr>\<rparr>)
     | (Accepted fd, s) \<Rightarrow> (0, make_connection C alloc fd (sv\<lparr>sv_world := (sv_world sv)\<lparr>w_os := s\<rparr>\<rparr>)))"

section \<open>The loop\<close>

text \<open>One iteration of the loop over the events that \<^verbatim>\<open>epoll_wait\<close> stored.\<close>

definition delete_conn :: "('c, 'k) conn_class \<Rightarrow> nat \<Rightarrow> 'c \<Rightarrow> ('c, 'k) server \<Rightarrow> ('c, 'k) server" where
  "delete_conn C p c sv = sv\<lparr>sv_conns := (sv_conns sv)(p := None),
    sv_regs := (sv_regs sv)(cc_fd C c := None), sv_world := cc_delete C (c, sv_world sv)\<rparr>"

definition dispatch_event :: "('c, 'k) conn_class \<Rightarrow> ('k, 'z) net_kernel_scheme \<Rightarrow>
    (('c, 'k) server \<Rightarrow> nat) \<Rightarrow> nat \<times> u32 \<Rightarrow> ('c, 'k) server \<Rightarrow> fault + ('c, 'k) server" where
  "dispatch_event C K alloc = (\<lambda>(p, ev) sv.
    if p = sv_acceptor sv then
      (case acceptor_handle C K alloc ev sv of (ret, sv1) \<Rightarrow>
        if ret < 0 then Inl DeleteOfStackObject else Inr sv1)
    else case sv_conns sv p of
      None \<Rightarrow> Inl UseAfterFree
    | Some c \<Rightarrow> (case cc_handle C ev (c, sv_world sv) of
        None \<Rightarrow> Inl NoReturn
      | Some (ret, c1, w1) \<Rightarrow>
        let sv1 = sv\<lparr>sv_conns := (sv_conns sv)(p \<mapsto> c1), sv_world := w1\<rparr> in
        if ret < 0 then Inr (delete_conn C p c1 sv1) else Inr sv1))"

definition max_events :: nat where "max_events = 1024"

text \<open>
  The contracts of the two calls: \<^verbatim>\<open>epoll_wait\<close> reports at most \<open>max_events\<close> events, each pointer
  once, and only pointers of registered descriptors; \<^verbatim>\<open>accept4\<close> does not return a descriptor that
  is still open (each open descriptor of the server but the epoll instance is registered).
\<close>

definition epoll_batch_ok :: "('c, 'k) server \<Rightarrow> (nat \<times> u32) list \<Rightarrow> bool" where
  "epoll_batch_ok sv batch \<longleftrightarrow> length batch \<le> max_events \<and> distinct (map fst batch) \<and>
    (\<forall>(p, ev) \<in> set batch. p \<in> ran (sv_regs sv))"

definition accept_fresh :: "('k, 'z) net_kernel_scheme \<Rightarrow> ('c, 'k) server \<Rightarrow> bool" where
  "accept_fresh K sv \<longleftrightarrow>
    (case k_accept K (sv_listen sv) (w_os (sv_world sv)) of
      (Accepted fd, _) \<Rightarrow> sv_regs sv fd = None | (AcceptErr e, _) \<Rightarrow> True)"

text \<open>
  The states of \<^verbatim>\<open>run\<close>: the server with the events of the current batch still to be dispatched, or
  a fault.  \<^verbatim>\<open>running\<close> is never cleared, so the loop has no end; its runs are the sequences of steps.
\<close>

datatype ('c, 'k) loop_state = Running "('c, 'k) server" "(nat \<times> u32) list" | Crashed fault

inductive loop_step :: "('c, 'k) conn_class \<Rightarrow> ('k, 'z) net_kernel_scheme \<Rightarrow> (('c, 'k) server \<Rightarrow> nat) \<Rightarrow>
    ('c, 'k) loop_state \<Rightarrow> ('c, 'k) loop_state \<Rightarrow> bool"
  for C K alloc where
  wait: "epoll_batch_ok sv batch \<Longrightarrow> loop_step C K alloc (Running sv []) (Running sv batch)"
| dispatch: "accept_fresh K sv \<Longrightarrow> dispatch_event C K alloc e sv = Inr sv' \<Longrightarrow>
    loop_step C K alloc (Running sv (e # es)) (Running sv' es)"
| fault: "accept_fresh K sv \<Longrightarrow> dispatch_event C K alloc e sv = Inl f \<Longrightarrow>
    loop_step C K alloc (Running sv (e # es)) (Crashed f)"

inductive_cases loop_step_RunningE: "loop_step C K alloc (Running sv es) s"
inductive_simps loop_step_Crashed [simp]: "loop_step C K alloc (Crashed f) s"

abbreviation loop_run :: "('c, 'k) conn_class \<Rightarrow> ('k, 'z) net_kernel_scheme \<Rightarrow> (('c, 'k) server \<Rightarrow> nat) \<Rightarrow>
    ('c, 'k) loop_state \<Rightarrow> ('c, 'k) loop_state \<Rightarrow> bool" where
  "loop_run C K alloc \<equiv> (loop_step C K alloc)\<^sup>*\<^sup>*"

text \<open>\<^verbatim>\<open>operator new\<close> returns an address no live object has; the heap holds finitely many.\<close>

definition alloc_ok :: "(('c, 'k) server \<Rightarrow> nat) \<Rightarrow> bool" where
  "alloc_ok alloc \<longleftrightarrow> (\<forall>sv. finite (dom (sv_conns sv)) \<longrightarrow>
    sv_conns sv (alloc sv) = None \<and> alloc sv \<noteq> sv_acceptor sv)"

section \<open>The interface of a connection class\<close>

locale handler_class =
  fixes C :: "('c, 'k) conn_class"
    and good :: "'c \<Rightarrow> 'k world \<Rightarrow> bool"
  assumes new_good: "cc_new C fd epfd w = (c, w') \<Longrightarrow> good c w' \<and> cc_fd C c = fd \<and> only_on fd w w'"
    and handle_returns: "good c w \<Longrightarrow> cc_handle C ev (c, w) \<noteq> None"
    and handle_only: "good c w \<Longrightarrow> cc_handle C ev (c, w) = Some (ret, c', w') \<Longrightarrow>
      only_on (cc_fd C c) w w' \<and> cc_fd C c' = cc_fd C c"
    and handle_keep: "good c w \<Longrightarrow> cc_handle C ev (c, w) = Some (ret, c', w') \<Longrightarrow> 0 \<le> ret \<Longrightarrow> good c' w'"
    and delete_only: "only_on (cc_fd C c) w (cc_delete C (c, w))"
    and delete_reg: "interest (w_trace (cc_delete C (c, w))) (cc_fd C c) = None"
    and good_reg: "good c w \<Longrightarrow> interest (w_trace w) (cc_fd C c) \<noteq> None"
    and good_frame: "good c w \<Longrightarrow> only_on g w w' \<Longrightarrow> g \<noteq> cc_fd C c \<Longrightarrow> good c w'"
    and good_os: "good c w \<Longrightarrow> good c (w\<lparr>w_os := s\<rparr>)"

text \<open>
  The invariant of the loop: epoll's table is the inverse of the heap's descriptors, each live
  connection keeps its own invariant, and exactly the descriptors of live objects are registered.
\<close>

definition sv_inv :: "('c, 'k) conn_class \<Rightarrow> ('c \<Rightarrow> 'k world \<Rightarrow> bool) \<Rightarrow> ('c, 'k) server \<Rightarrow> bool" where
  "sv_inv C good sv \<longleftrightarrow>
    (\<forall>p c. sv_conns sv p = Some c \<longrightarrow> good c (sv_world sv) \<and> sv_regs sv (cc_fd C c) = Some p) \<and>
    (\<forall>fd p. sv_regs sv fd = Some p \<longrightarrow> (fd = sv_listen sv \<and> p = sv_acceptor sv) \<or>
      (\<exists>c. sv_conns sv p = Some c \<and> cc_fd C c = fd)) \<and>
    sv_regs sv (sv_listen sv) = Some (sv_acceptor sv) \<and> sv_conns sv (sv_acceptor sv) = None \<and>
    (\<forall>fd. (interest (w_trace (sv_world sv)) fd = None) = (sv_regs sv fd = None)) \<and> finite (dom (sv_conns sv))"

lemma sv_invD:
  assumes "sv_inv C good sv"
  shows "sv_conns sv p = Some c \<Longrightarrow> good c (sv_world sv)"
    "sv_conns sv p = Some c \<Longrightarrow> sv_regs sv (cc_fd C c) = Some p"
    "sv_regs sv fd = Some p \<Longrightarrow> (fd = sv_listen sv \<and> p = sv_acceptor sv) \<or> (\<exists>c. sv_conns sv p = Some c \<and> cc_fd C c = fd)"
    "sv_regs sv (sv_listen sv) = Some (sv_acceptor sv)" "sv_conns sv (sv_acceptor sv) = None"
    "(interest (w_trace (sv_world sv)) fd = None) = (sv_regs sv fd = None)" "finite (dom (sv_conns sv))"
  using assms unfolding sv_inv_def by blast+

text \<open>The pointers still to be dispatched are distinct, and each is the acceptor or a live object.\<close>

definition pending_ok :: "('c, 'k) server \<Rightarrow> (nat \<times> u32) list \<Rightarrow> bool" where
  "pending_ok sv es \<longleftrightarrow> distinct (map fst es) \<and>
    (\<forall>p \<in> fst ` set es. p = sv_acceptor sv \<or> sv_conns sv p \<noteq> None)"

text \<open>What holds in every state the loop reaches.\<close>

definition loop_inv :: "('c, 'k) conn_class \<Rightarrow> ('c \<Rightarrow> 'k world \<Rightarrow> bool) \<Rightarrow> nat \<Rightarrow> int \<Rightarrow> ('c, 'k) loop_state \<Rightarrow> bool" where
  "loop_inv C good addr lfd s = (case s of
      Running sv es \<Rightarrow> sv_inv C good sv \<and> pending_ok sv es \<and> sv_acceptor sv = addr \<and> sv_listen sv = lfd
    | Crashed f \<Rightarrow> f = DeleteOfStackObject)"

lemma sv_invI:
  assumes "\<And>p c. sv_conns sv p = Some c \<Longrightarrow> good c (sv_world sv)"
    "\<And>p c. sv_conns sv p = Some c \<Longrightarrow> sv_regs sv (cc_fd C c) = Some p"
    "\<And>fd p. sv_regs sv fd = Some p \<Longrightarrow> (fd = sv_listen sv \<and> p = sv_acceptor sv) \<or>
      (\<exists>c. sv_conns sv p = Some c \<and> cc_fd C c = fd)"
    "sv_regs sv (sv_listen sv) = Some (sv_acceptor sv)" "sv_conns sv (sv_acceptor sv) = None"
    "\<And>fd. (interest (w_trace (sv_world sv)) fd = None) = (sv_regs sv fd = None)" "finite (dom (sv_conns sv))"
  shows "sv_inv C good sv"
  using assms unfolding sv_inv_def by simp

lemma sv_inv_start:
  assumes "interest (w_trace w) = (\<lambda>_. None)"
  shows "sv_inv C good (acceptor_new addr lfd epfd w)"
  using assms by (simp add: sv_inv_def acceptor_new_def)

context handler_class
begin

lemma fds_distinct:
  assumes "sv_inv C good sv" "sv_conns sv p = Some c" "sv_conns sv q = Some d" "p \<noteq> q"
  shows "cc_fd C c \<noteq> cc_fd C d"
  using sv_invD(2) [OF assms(1,2)] sv_invD(2) [OF assms(1,3)] assms(4) by auto

text \<open>The three things a dispatched event can do to the server keep the invariant.\<close>

lemma inv_make_connection:
  assumes inv: "sv_inv C good sv" and alloc: "alloc_ok alloc" and fd: "sv_regs sv fd = None"
  shows "sv_inv C good (make_connection C alloc fd sv)"
proof -
  obtain c w where new: "cc_new C fd (sv_epfd sv) (sv_world sv) = (c, w)"
    by (cases "cc_new C fd (sv_epfd sv) (sv_world sv)") auto
  note law = new_good [OF new]
  let ?p = "alloc sv"
  have p: "sv_conns sv ?p = None" "?p \<noteq> sv_acceptor sv"
    using alloc sv_invD(7) [OF inv] by (auto simp: alloc_ok_def)
  have other: "cc_fd C d \<noteq> fd" if "sv_conns sv q = Some d" for q d
    using sv_invD(2) [OF inv that] fd by auto
  have frame: "good d w" if "sv_conns sv q = Some d" for q d
    using good_frame [OF sv_invD(1) [OF inv that]] law other [OF that] by metis
  have reg: "(interest (w_trace w) g = None) = (sv_regs sv g = None)" if "g \<noteq> fd" for g
    using only_on_frame(3) [of fd "sv_world sv" w g] law that sv_invD(6) [OF inv] by auto
  have own: "interest (w_trace w) fd \<noteq> None"
    using good_reg [of c w] law by simp
  have "fd \<noteq> sv_listen sv"
    using sv_invD(4) [OF inv] fd by auto
  moreover have "sv_regs sv g \<noteq> Some ?p" for g
    using sv_invD(3) [OF inv, of g ?p] p by auto
  ultimately show ?thesis
    using law p frame other reg own sv_invD(2,4,5,7) [OF inv] sv_invD(3) [OF inv] fd
    unfolding make_connection_def new Let_def by (intro sv_invI) (auto split: if_splits)
qed

lemma inv_update:
  assumes inv: "sv_inv C good sv" and c: "sv_conns sv p = Some c" and c1: "good c1 w1" "cc_fd C c1 = cc_fd C c"
    and only: "only_on (cc_fd C c) (sv_world sv) w1"
  shows "sv_inv C good (sv\<lparr>sv_conns := (sv_conns sv)(p \<mapsto> c1), sv_world := w1\<rparr>)"
proof -
  have frame: "good d w1" if "sv_conns sv q = Some d" "q \<noteq> p" for q d
    using good_frame [OF sv_invD(1) [OF inv that(1)] only] fds_distinct [OF inv c that(1)] that(2) by simp
  have reg: "(interest (w_trace w1) g = None) = (sv_regs sv g = None)" for g
  proof (cases "g = cc_fd C c")
    case True
    then show ?thesis
      using good_reg [OF c1(1)] c1(2) sv_invD(2) [OF inv c] by simp
  next
    case False
    then show ?thesis
      using only_on_frame(3) [OF only, of g] sv_invD(6) [OF inv] by auto
  qed
  have "p \<noteq> sv_acceptor sv"
    using sv_invD(5) [OF inv] c by auto
  then show ?thesis
    using frame reg c c1 sv_invD(2,4,5,7) [OF inv] sv_invD(3) [OF inv]
    by (intro sv_invI) (auto split: if_splits, fastforce)
qed

lemma inv_delete:
  assumes inv: "sv_inv C good sv" and c: "sv_conns sv p = Some c" and fd: "cc_fd C c1 = cc_fd C c"
    and only: "only_on (cc_fd C c) (sv_world sv) w1"
  shows "sv_inv C good (delete_conn C p c1 (sv\<lparr>sv_conns := (sv_conns sv)(p \<mapsto> c1), sv_world := w1\<rparr>))"
proof -
  let ?w = "cc_delete C (c1, w1)"
  have only': "only_on (cc_fd C c) (sv_world sv) ?w"
    using only_on_trans [OF only] delete_only [of c1 w1] fd by simp
  have frame: "good d ?w" if "sv_conns sv q = Some d" "q \<noteq> p" for q d
    using good_frame [OF sv_invD(1) [OF inv that(1)] only'] fds_distinct [OF inv c that(1)] that(2) by simp
  have reg: "(interest (w_trace ?w) g = None) = (sv_regs sv g = None)" if "g \<noteq> cc_fd C c" for g
    using only_on_frame(3) [OF only', of g] that sv_invD(6) [OF inv] by auto
  have gone: "interest (w_trace ?w) (cc_fd C c) = None"
    using delete_reg [of c1 w1] fd by simp
  have other: "cc_fd C d \<noteq> cc_fd C c" if "sv_conns sv q = Some d" "q \<noteq> p" for q d
    using fds_distinct [OF inv c that(1)] that(2) by auto
  have p: "p \<noteq> sv_acceptor sv"
    using sv_invD(5) [OF inv] c by auto
  then have "cc_fd C c \<noteq> sv_listen sv"
    using sv_invD(2) [OF inv c] sv_invD(4) [OF inv] by auto
  with p show ?thesis
    using frame reg gone other fd c sv_invD(2,4,5,7) [OF inv] sv_invD(3) [OF inv]
    unfolding delete_conn_def by (intro sv_invI) (auto split: if_splits, fastforce)
qed

lemma inv_accept:
  assumes inv: "sv_inv C good sv" and alloc: "alloc_ok alloc" and fresh: "accept_fresh K sv"
    and run: "acceptor_handle C K alloc ev sv = (ret, sv')"
  shows "sv_inv C good sv'"
proof -
  have os: "sv_inv C good (sv\<lparr>sv_world := (sv_world sv)\<lparr>w_os := s\<rparr>\<rparr>)" for s
    using sv_invD(2-7) [OF inv] good_os [OF sv_invD(1) [OF inv]] by (intro sv_invI) auto
  have new: "sv_inv C good (make_connection C alloc fd (sv\<lparr>sv_world := (sv_world sv)\<lparr>w_os := s\<rparr>\<rparr>))"
    if "sv_regs sv fd = None" for fd s
    by (rule inv_make_connection [OF os alloc]) (simp add: that)
  show ?thesis
    using run inv os new fresh
    by (auto simp: acceptor_handle_def accept_fresh_def split: if_splits prod.splits accept_res.splits)
qed

lemma pending_batch: "sv_inv C good sv \<Longrightarrow> epoll_batch_ok sv es \<Longrightarrow> pending_ok sv es"
  unfolding pending_ok_def epoll_batch_ok_def ran_def by (fastforce dest: sv_invD(3))

lemma pending_mono:
  assumes "pending_ok sv (e # es)" "sv_acceptor sv' = sv_acceptor sv"
    and "\<And>q. sv_conns sv q \<noteq> None \<Longrightarrow> sv_conns sv' q \<noteq> None"
  shows "pending_ok sv' es"
proof -
  have "p = sv_acceptor sv \<or> sv_conns sv' p \<noteq> None" if "p \<in> fst ` set es" for p
    using assms(1) that assms(3) [of p] unfolding pending_ok_def by (metis insertCI list.set(2) image_insert)
  then show ?thesis
    using assms(1,2) unfolding pending_ok_def by simp
qed

lemma dispatch_law:
  assumes inv: "sv_inv C good sv" and alloc: "alloc_ok alloc" and fresh: "accept_fresh K sv"
    and pend: "pending_ok sv (e # es)"
  shows "case dispatch_event C K alloc e sv of
      Inl f \<Rightarrow> f = DeleteOfStackObject \<and> fst e = sv_acceptor sv \<and>
        fst (acceptor_handle C K alloc (snd e) sv) < 0
    | Inr sv' \<Rightarrow> sv_inv C good sv' \<and> pending_ok sv' es \<and> sv_acceptor sv' = sv_acceptor sv \<and>
        sv_listen sv' = sv_listen sv"
proof -
  obtain p ev where e: "e = (p, ev)" by (cases e)
  show ?thesis
  proof (cases "p = sv_acceptor sv")
    case True
    obtain ret sv' where a: "acceptor_handle C K alloc ev sv = (ret, sv')"
      by (cases "acceptor_handle C K alloc ev sv") auto
    have "sv_acceptor sv' = sv_acceptor sv \<and> sv_listen sv' = sv_listen sv \<and>
        (\<forall>q. sv_conns sv q \<noteq> None \<longrightarrow> sv_conns sv' q \<noteq> None)"
      using a by (auto simp: acceptor_handle_def make_connection_def Let_def
          split: if_splits prod.splits accept_res.splits)
    then have "pending_ok sv' es \<and> sv_acceptor sv' = sv_acceptor sv \<and> sv_listen sv' = sv_listen sv"
      using pending_mono [OF pend] by blast
    then show ?thesis
      using True e a inv_accept [OF inv alloc fresh a] by (simp add: dispatch_event_def)
  next
    case False
    then obtain c where c: "sv_conns sv p = Some c"
      using pend e by (auto simp: pending_ok_def)
    obtain ret c1 w1 where h: "cc_handle C ev (c, sv_world sv) = Some (ret, c1, w1)"
      using handle_returns [OF sv_invD(1) [OF inv c], of ev] by auto
    note law = handle_only [OF sv_invD(1) [OF inv c] h]
    have rest: "pending_ok (sv\<lparr>sv_conns := (sv_conns sv)(p \<mapsto> c1), sv_world := w1\<rparr>) es"
      "pending_ok (delete_conn C p c1 (sv\<lparr>sv_conns := (sv_conns sv)(p \<mapsto> c1), sv_world := w1\<rparr>)) es"
      using pend e by (auto simp: pending_ok_def delete_conn_def)
    have keep: "sv_inv C good (sv\<lparr>sv_conns := (sv_conns sv)(p \<mapsto> c1), sv_world := w1\<rparr>)" if "0 \<le> ret"
      using inv_update [OF inv c handle_keep [OF sv_invD(1) [OF inv c] h that]] law by simp
    have del: "sv_inv C good (delete_conn C p c1 (sv\<lparr>sv_conns := (sv_conns sv)(p \<mapsto> c1), sv_world := w1\<rparr>))"
      using inv_delete [OF inv c] law by simp
    show ?thesis
      using False e c h rest keep del by (simp add: dispatch_event_def Let_def delete_conn_def)
  qed
qed

lemma loop_inv_step:
  assumes "alloc_ok alloc" "loop_step C K alloc s s'" "loop_inv C good addr lfd s"
  shows "loop_inv C good addr lfd s'"
  using assms(2,3)
proof (cases rule: loop_step.cases)
  case (wait sv batch)
  then show ?thesis
    using assms(3) pending_batch by (simp add: loop_inv_def)
next
  case (dispatch sv e sv' es)
  then show ?thesis
    using assms(3) dispatch_law [OF _ assms(1) dispatch(3), of e es] by (simp add: loop_inv_def)
next
  case (fault sv e f es)
  then show ?thesis
    using assms(3) dispatch_law [OF _ assms(1) fault(3), of e es] by (simp add: loop_inv_def)
qed

lemma loop_inv_run:
  assumes "alloc_ok alloc" "interest (w_trace w) = (\<lambda>_. None)"
    and "loop_run C K alloc (Running (acceptor_new addr lfd epfd w) []) s"
  shows "loop_inv C good addr lfd s"
  using assms(3)
proof (induction rule: rtranclp_induct)
  case base
  show ?case
    using sv_inv_start [OF assms(2)] by (simp add: loop_inv_def pending_ok_def acceptor_new_def)
next
  case (step s s')
  then show ?case
    using loop_inv_step [OF assms(1)] by blast
qed

text \<open>Every descriptor registered with epoll is the listener or that of exactly one live object.\<close>

lemma inv_registered:
  assumes inv: "sv_inv C good sv"
  shows "interest (w_trace (sv_world sv)) fd \<noteq> None \<longleftrightarrow>
    fd = sv_listen sv \<or> (\<exists>!p. \<exists>c. sv_conns sv p = Some c \<and> cc_fd C c = fd)"
proof -
  have live: "p = q" if "sv_conns sv p = Some c \<and> cc_fd C c = fd" "sv_conns sv q = Some d \<and> cc_fd C d = fd" for p q c d
    using fds_distinct [OF inv] that by metis
  have "interest (w_trace (sv_world sv)) fd \<noteq> None \<longleftrightarrow> (\<exists>p. sv_regs sv fd = Some p)"
    using sv_invD(6) [OF inv, of fd] by auto
  also have "\<dots> \<longleftrightarrow> fd = sv_listen sv \<or> (\<exists>p c. sv_conns sv p = Some c \<and> cc_fd C c = fd)"
    using sv_invD(2) [OF inv] sv_invD(3) [OF inv, of fd] sv_invD(4) [OF inv] by metis
  also have "\<dots> \<longleftrightarrow> fd = sv_listen sv \<or> (\<exists>!p. \<exists>c. sv_conns sv p = Some c \<and> cc_fd C c = fd)"
    using live by (metis (no_types, lifting))
  finally show ?thesis .
qed

end

text \<open>
  How a connection class is shown to obey the interface: from the law of its handler and what its
  invariant says about the trace.
\<close>

lemma handler_classI:
  fixes good base :: "'x conn_scheme \<Rightarrow> 'k world \<Rightarrow> bool"
  assumes only: "\<And>ev. op_only (h ev)" and law: "\<And>ev. op_law good base (h ev)"
    and new: "\<And>fd epfd w c w'. nw fd epfd w = (c, w') \<Longrightarrow> good c w' \<and> cn_fd c = fd \<and> only_on fd w w'"
    and reg: "\<And>c w. good c w \<Longrightarrow> interest (w_trace w) (cn_fd c) \<noteq> None"
    and frame: "\<And>c w g w'. good c w \<Longrightarrow> only_on g w w' \<Longrightarrow> g \<noteq> cn_fd c \<Longrightarrow> good c w'"
    and os: "\<And>c w s. good c w \<Longrightarrow> good c (w\<lparr>w_os := s\<rparr>)"
  shows "handler_class \<lparr>cc_new = nw, cc_handle = (\<lambda>ev s. Some (h ev s)), cc_delete = conn_delete, cc_fd = cn_fd\<rparr> good"
  unfolding handler_class_def conn_class.simps
proof (intro conjI allI impI)
  fix fd epfd c and w w' :: "'k world"
  assume "nw fd epfd w = (c, w')"
  from new [OF this] show "good c w'" "cn_fd c = fd" "only_on fd w w'" by simp_all
next
  fix c ev r c' and w w' :: "'k world"
  assume good: "good c w" and "Some (h ev (c, w)) = Some (r, c', w')"
  then have h: "h ev (c, w) = (r, c', w')" by simp
  show "only_on (cn_fd c) w w'" "cn_fd c' = cn_fd c"
    using op_onlyD [OF only h] by simp_all
  show "good c' w'" if "0 \<le> r"
    by (rule op_lawD(3) [OF law good h that])
next
  fix c g s and w w' :: "'k world"
  assume good: "good c w"
  show "interest (w_trace w) (cn_fd c) \<noteq> None" "good c (w\<lparr>w_os := s\<rparr>)"
    by (rule reg [OF good], rule os [OF good])
  show "good c w'" if "only_on g w w'" "g \<noteq> cn_fd c"
    by (rule frame [OF good that])
qed (rule delete_only delete_unregisters option.discI [OF refl])+

end
