(* ===== verification/Lt_Echo.thy ===== *)
theory Lt_Echo
  imports Event_Loop
begin

text \<open>
  The level-triggered echo connection with flow control in both directions
  (\<^verbatim>\<open>tcp_echo/server_epollout_epollin_handle.cpp\<close> and its \<^verbatim>\<open>_native\<close> twin;
  \<^verbatim>\<open>tcp_echo1/main/server_epoll_lt_recvmsg.cpp\<close> is the same class on the shared headers).

  Its contract is the one \<^verbatim>\<open>outline.txt\<close> states for level triggering: EPOLLOUT is enabled
  exactly while the buffer is not empty, EPOLLIN exactly while it is not full.  The lemmas
  prove it for every call of \<^verbatim>\<open>handle\<close>, together with the echo equation and the fact that
  the interest registered with the kernel is the one the object remembers.
\<close>

section \<open>Epoll interest\<close>

record lt_conn = conn +
  cn_event :: u32

lemma echo_ok_event [simp]: "echo_ok m (c\<lparr>cn_event := ev\<rparr>) w = echo_ok m c w"
  by (simp add: echo_ok_def)

definition lt_new :: "nat \<Rightarrow> (nat \<Rightarrow> byte) \<Rightarrow> int \<Rightarrow> int \<Rightarrow> 'k world \<Rightarrow> lt_conn \<times> 'k world" where
  "lt_new m junk fd epfd w =
    (\<lparr>cn_fd = fd, cn_epfd = epfd, cn_buf = ring_new m junk, cn_event = EPOLLIN\<rparr>,
     emit (CtlAdd fd EPOLLIN) w)"

definition lt_enable_epollout :: "lt_conn \<Rightarrow> bool" where
  "lt_enable_epollout c = has (cn_event c) EPOLLOUT"

definition lt_enable_epollin :: "lt_conn \<Rightarrow> bool" where
  "lt_enable_epollin c = has (cn_event c) EPOLLIN"

definition lt_set_epollout :: "bool \<Rightarrow> lt_conn \<times> 'k world \<Rightarrow> lt_conn \<times> 'k world" where
  "lt_set_epollout flag = (\<lambda>(c, w).
    if has (cn_event c) EPOLLOUT then
      (if flag then (c, w)
       else let ev = cn_event c AND NOT EPOLLOUT in (c\<lparr>cn_event := ev\<rparr>, emit (CtlMod (cn_fd c) ev) w))
    else
      (if flag then let ev = cn_event c OR EPOLLOUT in (c\<lparr>cn_event := ev\<rparr>, emit (CtlMod (cn_fd c) ev) w)
       else (c, w)))"

definition lt_set_epollin :: "bool \<Rightarrow> lt_conn \<times> 'k world \<Rightarrow> lt_conn \<times> 'k world" where
  "lt_set_epollin flag = (\<lambda>(c, w).
    if has (cn_event c) EPOLLIN then
      (if flag then (c, w)
       else let ev = cn_event c AND NOT EPOLLIN in (c\<lparr>cn_event := ev\<rparr>, emit (CtlMod (cn_fd c) ev) w))
    else
      (if flag then let ev = cn_event c OR EPOLLIN in (c\<lparr>cn_event := ev\<rparr>, emit (CtlMod (cn_fd c) ev) w)
       else (c, w)))"

section \<open>Reading and writing\<close>

text \<open>
  The tail \<^verbatim>\<open>recv_buf\<close> and \<^verbatim>\<open>recv_buf_native\<close> share: count the bytes and set EPOLLIN by the
  room that is left.
\<close>

definition lt_recv_done :: "nat \<Rightarrow> int \<Rightarrow> lt_conn \<times> 'k world \<Rightarrow> int \<times> lt_conn \<times> 'k world" where
  "lt_recv_done m recv_len = (\<lambda>(c, w).
    let c1 = c\<lparr>cn_buf := add_exist recv_len (cn_buf c)\<rparr>;
        to_read1 = get_blank_size m (cn_buf c1) in
    if to_read1 < 0 then (-1, c1, w)
    else if to_read1 = 0 then (recv_len, lt_set_epollin False (c1, w))
    else (recv_len, lt_set_epollin True (c1, w)))"

text \<open>\<open>iovs\<close> chooses what the call reads into: all iovecs (\<^verbatim>\<open>recvmsg\<close>) or the first (\<^verbatim>\<open>recv\<close>).\<close>

definition lt_recv_into :: "(iovec list \<Rightarrow> iovec list) \<Rightarrow> ('k, 'z) kernel_scheme \<Rightarrow> nat \<Rightarrow>
    lt_conn \<times> 'k world \<Rightarrow> int \<times> lt_conn \<times> 'k world" where
  "lt_recv_into iovs K m = (\<lambda>(c, w).
    let to_read = get_blank_size m (cn_buf c) in
    if to_read < 0 then (-1, c, w)
    else if to_read = 0 then (0, lt_set_epollin False (c, w))
    else
      let (r, iov) = get_blank_iovec m (cn_buf c) in
      if r < 0 then (0, c, w)
      else case sys_recv K (cn_fd c) (iov_total (iovs iov)) w of
        (RecvData bs, w1) \<Rightarrow>
          if length bs = 0 then (-1, c, w1)
          else lt_recv_done m (int (length bs)) (c\<lparr>cn_buf := fill_iov (iovs iov) bs (cn_buf c)\<rparr>, w1)
      | (RecvErr e, w1) \<Rightarrow> if again e then lt_recv_done m 0 (c, w1) else (-1, c, w1))"

definition lt_recv_buf :: "('k, 'z) kernel_scheme \<Rightarrow> nat \<Rightarrow> lt_conn \<times> 'k world \<Rightarrow> int \<times> lt_conn \<times> 'k world" where
  "lt_recv_buf K m = lt_recv_into (\<lambda>iov. iov) K m"

definition lt_recv_buf_native :: "('k, 'z) kernel_scheme \<Rightarrow> nat \<Rightarrow> lt_conn \<times> 'k world \<Rightarrow> int \<times> lt_conn \<times> 'k world" where
  "lt_recv_buf_native K m = lt_recv_into (take 1) K m"

definition lt_send_done :: "int \<Rightarrow> lt_conn \<times> 'k world \<Rightarrow> int \<times> lt_conn \<times> 'k world" where
  "lt_send_done send_len = (\<lambda>(c, w).
    let c1 = c\<lparr>cn_buf := add_blank send_len (cn_buf c)\<rparr>;
        to_send1 = get_exist_size (cn_buf c1) in
    if to_send1 < 0 then (-1, c1, w)
    else if to_send1 = 0 then (send_len, lt_set_epollout False (c1, w))
    else (send_len, lt_set_epollout True (c1, w)))"

definition lt_send_from :: "(iovec list \<Rightarrow> iovec list) \<Rightarrow> ('k, 'z) kernel_scheme \<Rightarrow> nat \<Rightarrow>
    lt_conn \<times> 'k world \<Rightarrow> int \<times> lt_conn \<times> 'k world" where
  "lt_send_from iovs K m = (\<lambda>(c, w).
    let to_send = get_exist_size (cn_buf c) in
    if to_send < 0 then (-1, c, w)
    else if to_send = 0 then (0, lt_set_epollout False (c, w))
    else
      let (_, iov) = get_exist_iovec m (cn_buf c) in
      case sys_send K (cn_fd c) (read_iov (iovs iov) (cn_buf c)) w of
        (SendLen n, w1) \<Rightarrow> lt_send_done (int n) (c, w1)
      | (SendErr e, w1) \<Rightarrow> if again e then lt_send_done 0 (c, w1) else (-1, c, w1))"

definition lt_send_buf :: "('k, 'z) kernel_scheme \<Rightarrow> nat \<Rightarrow> lt_conn \<times> 'k world \<Rightarrow> int \<times> lt_conn \<times> 'k world" where
  "lt_send_buf K m = lt_send_from (\<lambda>iov. iov) K m"

definition lt_send_buf_native :: "('k, 'z) kernel_scheme \<Rightarrow> nat \<Rightarrow> lt_conn \<times> 'k world \<Rightarrow> int \<times> lt_conn \<times> 'k world" where
  "lt_send_buf_native K m = lt_send_from (take 1) K m"

section \<open>The handlers\<close>

text \<open>
  The two files differ in the pair of functions their handlers call, which is the argument
  \<open>io\<close>: \<open>(lt_recv_buf, lt_send_buf)\<close> or the native pair.
\<close>

type_synonym 'k conn_op = "lt_conn \<times> 'k world \<Rightarrow> int \<times> lt_conn \<times> 'k world"

definition lt_handle_read :: "'k conn_op \<times> 'k conn_op \<Rightarrow> 'k conn_op" where
  "lt_handle_read io s =
    (case fst io s of (recv_len, s1) \<Rightarrow>
      if recv_len < 0 then (-1, s1)
      else if 0 < recv_len then
        (case snd io s1 of (send_len, s2) \<Rightarrow>
          if send_len < 0 then (-1, s2)
          else if 0 < send_len then (0, lt_set_epollin True s2)
          else (0, s2))
      else (0, s1))"

definition lt_handle_write :: "'k conn_op \<times> 'k conn_op \<Rightarrow> 'k conn_op" where
  "lt_handle_write io s =
    (case snd io s of (send_len, s1) \<Rightarrow>
      if send_len < 0 then (-1, s1)
      else if 0 < send_len then (0, lt_set_epollin True s1)
      else (0, s1))"

definition lt_handle :: "'k conn_op \<times> 'k conn_op \<Rightarrow> u32 \<Rightarrow> 'k conn_op" where
  "lt_handle io ev s =
    (if has ev (NOT (EPOLLIN OR EPOLLOUT)) then (-1, s)
     else case (if has ev EPOLLOUT then lt_handle_write io s else (-1, s)) of (ret, s1) \<Rightarrow>
       if has ev EPOLLOUT \<and> ret < 0 then (ret, s1)
       else case (if has ev EPOLLIN then lt_handle_read io s1 else (0, s1)) of (ret, s2) \<Rightarrow>
         if has ev EPOLLIN \<and> ret < 0 then (ret, s2) else (0, s2))"

definition lt_io :: "('k, 'z) kernel_scheme \<Rightarrow> nat \<Rightarrow> 'k conn_op \<times> 'k conn_op" where
  "lt_io K m = (lt_recv_buf K m, lt_send_buf K m)"

definition lt_io_native :: "('k, 'z) kernel_scheme \<Rightarrow> nat \<Rightarrow> 'k conn_op \<times> 'k conn_op" where
  "lt_io_native K m = (lt_recv_buf_native K m, lt_send_buf_native K m)"

section \<open>The contract\<close>

lemma has_exp: "has e (2 ^ n) \<longleftrightarrow> bit e n"
  unfolding has_def by (simp add: and_exp_eq_0_iff_not_bit)

lemma has_bits: "has e EPOLLIN \<longleftrightarrow> bit e 0" "has e EPOLLOUT \<longleftrightarrow> bit e 2"
  using has_exp [of e 0] has_exp [of e 2] by (simp_all add: epoll_flags)

lemma has_set [simp]:
  "has (e OR EPOLLOUT) EPOLLOUT" "has (e OR EPOLLIN) EPOLLIN"
  "has (e OR EPOLLOUT) EPOLLIN = has e EPOLLIN" "has (e OR EPOLLIN) EPOLLOUT = has e EPOLLOUT"
  "\<not> has (e AND NOT EPOLLOUT) EPOLLOUT" "\<not> has (e AND NOT EPOLLIN) EPOLLIN"
  "has (e AND NOT EPOLLOUT) EPOLLIN = has e EPOLLIN" "has (e AND NOT EPOLLIN) EPOLLOUT = has e EPOLLOUT"
  unfolding has_bits by (simp_all add: epoll_flags bit_simps)

lemma has_EPOLLIN [simp]: "has EPOLLIN EPOLLIN" "\<not> has EPOLLIN EPOLLOUT"
  by (simp_all add: has_def epoll_flags)

text \<open>The interest registered with the kernel is the one the object remembers.\<close>

definition lt_registered :: "lt_conn \<Rightarrow> 'k world \<Rightarrow> bool" where
  "lt_registered c w \<longleftrightarrow> interest (w_trace w) (cn_fd c) = Some (cn_event c)"

definition lt_base :: "nat \<Rightarrow> lt_conn \<Rightarrow> 'k world \<Rightarrow> bool" where
  "lt_base m c w \<longleftrightarrow> echo_ok m c w \<and> lt_registered c w"

definition in_ok :: "nat \<Rightarrow> lt_conn \<Rightarrow> bool" where
  "in_ok m c \<longleftrightarrow> has (cn_event c) EPOLLIN = (ring_len (cn_buf c) \<noteq> m - 1)"

definition out_ok :: "lt_conn \<Rightarrow> bool" where
  "out_ok c \<longleftrightarrow> has (cn_event c) EPOLLOUT = (ring_len (cn_buf c) \<noteq> 0)"

text \<open>EPOLLIN iff not full, EPOLLOUT iff not empty, between any two calls of \<^verbatim>\<open>handle\<close>.\<close>

definition lt_good :: "nat \<Rightarrow> lt_conn \<Rightarrow> 'k world \<Rightarrow> bool" where
  "lt_good m c w \<longleftrightarrow> lt_base m c w \<and> in_ok m c \<and> out_ok c"

lemma lt_baseD: "lt_base m c w \<Longrightarrow> echo_ok m c w" "lt_base m c w \<Longrightarrow> lt_registered c w"
  "lt_base m c w \<Longrightarrow> ring_inv m (cn_buf c)"
  by (simp_all add: lt_base_def echo_ok_def)

lemma set_epollout_spec:
  assumes "lt_set_epollout flag (c, w) = (c', w')"
  shows "cn_buf c' = cn_buf c" "cn_fd c' = cn_fd c" "has (cn_event c') EPOLLOUT = flag"
    "has (cn_event c') EPOLLIN = has (cn_event c) EPOLLIN"
    "echo_ok m c' w' = echo_ok m c w" "lt_registered c w \<Longrightarrow> lt_registered c' w'"
  using assms by (auto simp: lt_set_epollout_def Let_def lt_registered_def split: if_splits)

lemma set_epollin_spec:
  assumes "lt_set_epollin flag (c, w) = (c', w')"
  shows "cn_buf c' = cn_buf c" "cn_fd c' = cn_fd c" "has (cn_event c') EPOLLIN = flag"
    "has (cn_event c') EPOLLOUT = has (cn_event c) EPOLLOUT"
    "echo_ok m c' w' = echo_ok m c w" "lt_registered c w \<Longrightarrow> lt_registered c' w'"
  using assms by (auto simp: lt_set_epollin_def Let_def lt_registered_def split: if_splits)

lemma lt_registered_buf [simp]: "lt_registered (c\<lparr>cn_buf := r\<rparr>) w = lt_registered c w"
  by (simp add: lt_registered_def)

lemma lt_registered_io:
  "lt_registered c w \<Longrightarrow> w_trace w' = w_trace w \<or> w_trace w' = w_trace w @ [Recvd fd bs] \<or>
    w_trace w' = w_trace w @ [Sent fd bs] \<Longrightarrow> lt_registered c w'"
  by (auto simp: lt_registered_def)

section \<open>The functions that read and write keep it\<close>

text \<open>
  What the handlers rely on in the pair of functions they call, so that one proof serves the
  \<^verbatim>\<open>recvmsg\<close> and the native file.
\<close>

locale flow_io =
  fixes rcv :: "'k conn_op"
    and snd' :: "'k conn_op"
    and m :: nat
    and hard :: "int \<Rightarrow> bool"
  assumes capacity: "1 < m"
    and recv_close: "lt_base m c w \<Longrightarrow> rcv (c, w) = (ret, c', w') \<Longrightarrow> ret < 0 \<Longrightarrow>
      saw_eof (cn_fd c) w' \<or> hard (cn_fd c)"
    and send_close: "lt_base m c w \<Longrightarrow> snd' (c, w) = (ret, c', w') \<Longrightarrow> ret < 0 \<Longrightarrow> hard (cn_fd c)"
    and recv_echo: "lt_base m c w \<Longrightarrow> rcv (c, w) = (ret, c', w') \<Longrightarrow> echo_ok m c' w' \<and> cn_fd c' = cn_fd c"
    and recv_base: "lt_base m c w \<Longrightarrow> rcv (c, w) = (ret, c', w') \<Longrightarrow> 0 \<le> ret \<Longrightarrow> lt_base m c' w' \<and> in_ok m c'"
    and recv_none: "lt_base m c w \<Longrightarrow> out_ok c \<Longrightarrow> rcv (c, w) = (0, c', w') \<Longrightarrow> out_ok c'"
    and send_echo: "lt_base m c w \<Longrightarrow> snd' (c, w) = (ret, c', w') \<Longrightarrow> echo_ok m c' w' \<and> cn_fd c' = cn_fd c"
    and send_base: "lt_base m c w \<Longrightarrow> snd' (c, w) = (ret, c', w') \<Longrightarrow> 0 \<le> ret \<Longrightarrow> lt_base m c' w' \<and> out_ok c'"
    and send_some: "lt_base m c w \<Longrightarrow> snd' (c, w) = (ret, c', w') \<Longrightarrow> 0 < ret \<Longrightarrow>
      ring_len (cn_buf c') < ring_len (cn_buf c)"
    and send_none: "lt_base m c w \<Longrightarrow> in_ok m c \<Longrightarrow> snd' (c, w) = (0, c', w') \<Longrightarrow> in_ok m c'"
begin

lemma after_send:
  assumes "lt_base m c w" "in_ok m c" "snd' (c, w) = (ret, c1, w1)" "0 \<le> ret"
    and "(if 0 < ret then lt_set_epollin True (c1, w1) else (c1, w1)) = (c', w')"
  shows "lt_good m c' w'" "cn_fd c' = cn_fd c"
proof -
  from send_base [OF assms(1,3,4)] have b: "lt_base m c1 w1" "out_ok c1" by simp_all
  have fd: "cn_fd c1 = cn_fd c"
    using send_echo [OF assms(1,3)] by simp
  show "lt_good m c' w'"
  proof (cases "0 < ret")
    case True
    then have set: "lt_set_epollin True (c1, w1) = (c', w')"
      using assms(5) by simp
    have "ring_len (cn_buf c1) < m - 1"
      using send_some [OF assms(1,3) True] ring_len_bound [OF lt_baseD(3) [OF assms(1)]] by simp
    then show ?thesis
      using b set_epollin_spec [OF set]
      by (auto simp: lt_good_def lt_base_def in_ok_def out_ok_def)
  next
    case False
    then have "in_ok m c1"
      using assms(3,4) send_none [OF assms(1,2)] by simp
    then show ?thesis
      using b False assms(5) by (simp add: lt_good_def)
  qed
  show "cn_fd c' = cn_fd c"
    using fd assms(5) set_epollin_spec(2) [of True c1 w1 c' w'] by (cases "0 < ret") simp_all
qed

lemma after_send_echo:
  assumes "lt_base m c w" "snd' (c, w) = (ret, c1, w1)"
    and "(if 0 < ret then lt_set_epollin True (c1, w1) else (c1, w1)) = (c', w')"
  shows "echo_ok m c' w' \<and> cn_fd c' = cn_fd c"
  using send_echo [OF assms(1,2)] assms(3) set_epollin_spec(2,5) [of True c1 w1 c' w']
  by (cases "0 < ret") auto

lemma handle_write_law:
  assumes "lt_base m c w" "in_ok m c" "lt_handle_write (rcv, snd') (c, w) = (ret, c', w')"
  shows "echo_ok m c' w' \<and> cn_fd c' = cn_fd c \<and> (0 \<le> ret \<longrightarrow> lt_good m c' w')"
proof -
  obtain n c1 w1 where s: "snd' (c, w) = (n, c1, w1)"
    by (cases "snd' (c, w)") auto
  show ?thesis
  proof (cases "n < 0")
    case True
    then show ?thesis
      using assms(3) s send_echo [OF assms(1) s] by (simp add: lt_handle_write_def)
  next
    case False
    then have set: "(if 0 < n then lt_set_epollin True (c1, w1) else (c1, w1)) = (c', w')"
      using assms(3) s by (auto simp: lt_handle_write_def split: if_splits)
    have "lt_good m c' w'"
      using after_send(1) [OF assms(1,2) s _ set] False by simp
    moreover have "echo_ok m c' w' \<and> cn_fd c' = cn_fd c"
      by (rule after_send_echo [OF assms(1) s set])
    ultimately show ?thesis by simp
  qed
qed

lemma handle_read_law:
  assumes "lt_good m c w" "lt_handle_read (rcv, snd') (c, w) = (ret, c', w')"
  shows "echo_ok m c' w' \<and> cn_fd c' = cn_fd c \<and> (0 \<le> ret \<longrightarrow> lt_good m c' w')"
proof -
  obtain n c1 w1 where r: "rcv (c, w) = (n, c1, w1)"
    by (cases "rcv (c, w)") auto
  have g: "lt_base m c w" "in_ok m c" "out_ok c"
    using assms(1) by (auto simp: lt_good_def)
  note e = recv_echo [OF g(1) r]
  consider "n < 0" | "n = 0" | "0 < n" by linarith
  then show ?thesis
  proof cases
    case 1
    then show ?thesis
      using assms(2) r e by (auto simp: lt_handle_read_def)
  next
    case 2
    then show ?thesis
      using assms(2) r e recv_base [OF g(1) r] recv_none [OF g(1,3)]
      by (auto simp: lt_handle_read_def lt_good_def)
  next
    case 3
    then have "lt_base m c1 w1" "in_ok m c1"
      using recv_base [OF g(1) r] by simp_all
    moreover have "lt_handle_write (rcv, snd') (c1, w1) = (ret, c', w')"
      using assms(2) r 3 by (auto simp: lt_handle_read_def lt_handle_write_def split: prod.splits)
    ultimately show ?thesis
      using handle_write_law [of c1 w1 ret c' w'] e by auto
  qed
qed

lemma handle_law:
  assumes "lt_good m c w" "lt_handle (rcv, snd') ev (c, w) = (ret, c', w')"
  shows "echo_ok m c' w' \<and> cn_fd c' = cn_fd c \<and> (0 \<le> ret \<longrightarrow> lt_good m c' w')"
proof (cases "has ev (NOT (EPOLLIN OR EPOLLOUT))")
  case True
  then show ?thesis
    using assms by (auto simp: lt_handle_def lt_good_def lt_base_def)
next
  case valid: False
  obtain r1 c1 w1 where s1: "(if has ev EPOLLOUT then lt_handle_write (rcv, snd') (c, w) else (0, c, w)) = (r1, c1, w1)"
    by (cases "if has ev EPOLLOUT then lt_handle_write (rcv, snd') (c, w) else (0, c, w)") auto
  have law1: "echo_ok m c1 w1 \<and> cn_fd c1 = cn_fd c \<and> (0 \<le> r1 \<longrightarrow> lt_good m c1 w1)"
    using s1 assms(1) handle_write_law [of c w r1 c1 w1]
    by (auto simp: lt_good_def lt_base_def split: if_splits)
  show ?thesis
  proof (cases "r1 < 0")
    case True
    then have "has ev EPOLLOUT" "(ret, c', w') = (r1, c1, w1)"
      using s1 assms(2) valid by (auto simp: lt_handle_def split: if_splits)
    then show ?thesis
      using law1 True by simp
  next
    case False
    then have good: "lt_good m c1 w1"
      using law1 by simp
    have "(if has ev EPOLLIN then
        (case lt_handle_read (rcv, snd') (c1, w1) of (r, s) \<Rightarrow> if r < 0 then (r, s) else (0, s))
      else (0, c1, w1)) = (ret, c', w')"
      using s1 assms(2) valid False by (auto simp: lt_handle_def split: if_splits prod.splits)
    then have "lt_handle_read (rcv, snd') (c1, w1) = (ret, c', w') \<or>
        (\<exists>r. lt_handle_read (rcv, snd') (c1, w1) = (r, c', w') \<and> 0 \<le> r) \<or> (c', w') = (c1, w1)"
      by (cases "lt_handle_read (rcv, snd') (c1, w1)") (simp split: if_splits)
    then show ?thesis
      using law1 good handle_read_law [OF good] by auto
  qed
qed

lemma handle_write_close:
  assumes "lt_base m c w" "lt_handle_write (rcv, snd') (c, w) = (ret, c', w')" "ret < 0"
  shows "hard (cn_fd c)"
  using assms send_close [OF assms(1)] by (auto simp: lt_handle_write_def split: prod.splits if_splits)

lemma handle_read_close:
  assumes "lt_base m c w" "lt_handle_read (rcv, snd') (c, w) = (ret, c', w')" "ret < 0"
  shows "saw_eof (cn_fd c) w' \<or> hard (cn_fd c)"
proof -
  obtain n c1 w1 where r: "rcv (c, w) = (n, c1, w1)"
    by (cases "rcv (c, w)") auto
  show ?thesis
  proof (cases "n < 0")
    case True
    then show ?thesis
      using assms(2) r recv_close [OF assms(1) r] by (auto simp: lt_handle_read_def)
  next
    case False
    then have "lt_base m c1 w1" "cn_fd c1 = cn_fd c"
      using recv_base [OF assms(1) r] recv_echo [OF assms(1) r] by simp_all
    moreover have "lt_handle_write (rcv, snd') (c1, w1) = (ret, c', w')"
      using assms(2,3) r False
      by (auto simp: lt_handle_read_def lt_handle_write_def split: prod.splits if_splits)
    ultimately show ?thesis
      using handle_write_close assms(3) by metis
  qed
qed

lemma handle_close:
  assumes "lt_good m c w" "lt_handle (rcv, snd') ev (c, w) = (ret, c', w')" "ret < 0"
  shows "has ev (NOT (EPOLLIN OR EPOLLOUT)) \<or> saw_eof (cn_fd c) w' \<or> hard (cn_fd c)"
proof (cases "has ev (NOT (EPOLLIN OR EPOLLOUT))")
  case valid: False
  obtain r1 c1 w1 where s1: "(if has ev EPOLLOUT then lt_handle_write (rcv, snd') (c, w) else (0, c, w)) = (r1, c1, w1)"
    by (cases "if has ev EPOLLOUT then lt_handle_write (rcv, snd') (c, w) else (0, c, w)") auto
  have base: "lt_base m c w" "in_ok m c"
    using assms(1) by (simp_all add: lt_good_def)
  show ?thesis
  proof (cases "r1 < 0")
    case True
    then show ?thesis
      using s1 handle_write_close [OF base(1)] by (auto split: if_splits)
  next
    case False
    then have good: "lt_base m c1 w1" "cn_fd c1 = cn_fd c"
      using s1 assms(1) handle_write_law [OF base, of r1 c1 w1] by (auto simp: lt_good_def split: if_splits)
    have "lt_handle_read (rcv, snd') (c1, w1) = (ret, c', w')"
      using s1 assms(2,3) valid False by (auto simp: lt_handle_def split: if_splits prod.splits)
    then show ?thesis
      using handle_read_close [OF good(1)] good(2) assms(3) by metis
  qed
qed simp

end

section \<open>Both pairs of functions obey the laws\<close>

definition iov_choice :: "(iovec list \<Rightarrow> iovec list) \<Rightarrow> bool" where
  "iov_choice iovs \<longleftrightarrow> (\<forall>vs. \<exists>js. iov_positions (iovs vs) @ js = iov_positions vs)"

lemma iov_choice_all [simp]: "iov_choice (\<lambda>vs. vs)"
  by (simp add: iov_choice_def)

lemma iov_positions_append: "iov_positions (us @ vs) = iov_positions us @ iov_positions vs"
  by (induction us) simp_all

lemma iov_choice_first [simp]: "iov_choice (take 1)"
  unfolding iov_choice_def by (metis append_take_drop_id iov_positions_append)

lemma recv_done_law:
  assumes "lt_base m (c\<lparr>cn_buf := add_exist n (cn_buf c)\<rparr>) w" "lt_recv_done m n (c, w) = (ret, c', w')"
  shows "ret = n" "lt_base m c' w'" "in_ok m c'" "cn_fd c' = cn_fd c"
    "cn_buf c' = add_exist n (cn_buf c)" "has (cn_event c') EPOLLOUT = has (cn_event c) EPOLLOUT"
proof -
  let ?c = "c\<lparr>cn_buf := add_exist n (cn_buf c)\<rparr>"
  let ?room = "m - 1 - ring_len (add_exist n (cn_buf c))"
  have inv: "ring_inv m (add_exist n (cn_buf c))"
    using lt_baseD(3) [OF assms(1)] by simp
  then have ret: "ret = n" and set: "lt_set_epollin (?room \<noteq> 0) (?c, w) = (c', w')"
    using assms(2) by (auto simp: lt_recv_done_def get_blank_size_eq Let_def split: if_splits)
  show "ret = n" by (rule ret)
  show "lt_base m c' w'" "in_ok m c'" "cn_fd c' = cn_fd c" "cn_buf c' = add_exist n (cn_buf c)"
    "has (cn_event c') EPOLLOUT = has (cn_event c) EPOLLOUT"
    using set_epollin_spec [OF set] assms(1) ring_len_bound [OF inv]
    by (auto simp: lt_base_def in_ok_def)
qed

lemma send_done_law:
  assumes "lt_base m (c\<lparr>cn_buf := add_blank n (cn_buf c)\<rparr>) w" "lt_send_done n (c, w) = (ret, c', w')"
  shows "ret = n" "lt_base m c' w'" "out_ok c'" "cn_fd c' = cn_fd c"
    "cn_buf c' = add_blank n (cn_buf c)" "has (cn_event c') EPOLLIN = has (cn_event c) EPOLLIN"
proof -
  let ?c = "c\<lparr>cn_buf := add_blank n (cn_buf c)\<rparr>"
  let ?left = "ring_len (add_blank n (cn_buf c))"
  have inv: "ring_inv m (add_blank n (cn_buf c))"
    using lt_baseD(3) [OF assms(1)] by simp
  then have ret: "ret = n" and set: "lt_set_epollout (?left \<noteq> 0) (?c, w) = (c', w')"
    using assms(2) by (auto simp: lt_send_done_def get_exist_size_eq Let_def split: if_splits)
  show "ret = n" by (rule ret)
  show "lt_base m c' w'" "out_ok c'" "cn_fd c' = cn_fd c" "cn_buf c' = add_blank n (cn_buf c)"
    "has (cn_event c') EPOLLIN = has (cn_event c) EPOLLIN"
    using set_epollout_spec [OF set] assms(1) by (auto simp: lt_base_def out_ok_def)
qed

lemma recv_data_base:
  assumes "lt_base m c w" "iov_positions vs @ js = iov_positions (snd (get_blank_iovec m (cn_buf c)))"
    and "length bs \<le> iov_total vs" "w_trace w1 = w_trace w @ [Recvd (cn_fd c) bs]"
  shows "lt_base m (c\<lparr>cn_buf := add_exist (int (length bs)) (fill_iov vs bs (cn_buf c))\<rparr>) w1"
  using echo_ok_recv [OF lt_baseD(1) [OF assms(1)] assms(2-4)] lt_baseD(2) [OF assms(1)] assms(4)
  by (simp add: lt_base_def lt_registered_def)

lemma lt_base_quiet: "lt_base m c w \<Longrightarrow> w_trace w1 = w_trace w \<Longrightarrow> lt_base m c w1"
  by (simp add: lt_base_def echo_ok_def lt_registered_def)

lemma recv_into_cases:
  assumes K: "kernel_ok K" and iovs: "iov_choice iovs" and base: "lt_base m c w"
    and run: "lt_recv_into iovs K m (c, w) = (ret, c', w')"
  obtains (full) "ring_len (cn_buf c) = m - 1" "ret = 0" "lt_set_epollin False (c, w) = (c', w')"
  | (data) bs vs w1 where "bs \<noteq> []"
      "lt_base m (c\<lparr>cn_buf := add_exist (int (length bs)) (fill_iov vs bs (cn_buf c))\<rparr>) w1"
      "lt_recv_done m (int (length bs)) (c\<lparr>cn_buf := fill_iov vs bs (cn_buf c)\<rparr>, w1) = (ret, c', w')"
  | (wait) w1 where "lt_base m c w1" "lt_recv_done m 0 (c, w1) = (ret, c', w')"
  | (close) "ret = -1" "c' = c" "w_trace w' = w_trace w \<or> w_trace w' = w_trace w @ [Recvd (cn_fd c) []]"
      "saw_eof (cn_fd c) w' \<or> hard_error K (cn_fd c)"
proof -
  note inv = lt_baseD(3) [OF base]
  obtain iov where iov: "get_blank_iovec m (cn_buf c) = (0, iov)"
    by (metis blank_iovec_returns_0 prod.collapse)
  obtain js where js: "iov_positions (iovs iov) @ js = iov_positions (snd (get_blank_iovec m (cn_buf c)))"
    using iovs iov unfolding iov_choice_def by auto
  obtain res w1 where sys: "sys_recv K (cn_fd c) (iov_total (iovs iov)) w = (res, w1)"
    by (cases "sys_recv K (cn_fd c) (iov_total (iovs iov)) w") auto
  show ?thesis
  proof (cases "ring_len (cn_buf c) = m - 1")
    case True
    then show ?thesis
      using full run inv by (simp add: lt_recv_into_def get_blank_size_eq Let_def)
  next
    case False
    then have room: "0 < m - 1 - ring_len (cn_buf c)"
      using ring_len_bound [OF inv] by simp
    have eq: "(case res of RecvData bs \<Rightarrow>
          if length bs = 0 then (-1, c, w1)
          else lt_recv_done m (int (length bs)) (c\<lparr>cn_buf := fill_iov (iovs iov) bs (cn_buf c)\<rparr>, w1)
        | RecvErr e \<Rightarrow> if again e then lt_recv_done m 0 (c, w1) else (-1, c, w1)) = (ret, c', w')"
      using run room inv iov sys by (simp add: lt_recv_into_def get_blank_size_eq Let_def)
    show ?thesis
      using K sys
    proof (cases rule: sys_recv_cases)
      case (data bs)
      note base1 = recv_data_base [OF base js data(2,3)]
      show ?thesis
      proof (cases "bs = []")
        case True
        then show ?thesis
          using close eq data by (simp add: saw_eof_def)
      next
        case False
        then show ?thesis
          using that(2) [OF False base1] eq data(1) by simp
      qed
    next
      case (error e)
      then show ?thesis
        using eq lt_base_quiet [OF base error(2)] wait close hard_errorI(1) [OF error(3)]
        by (auto split: if_splits)
    qed
  qed
qed

lemma recv_into_echo:
  assumes "kernel_ok K" "iov_choice iovs" "lt_base m c w" "lt_recv_into iovs K m (c, w) = (ret, c', w')"
  shows "echo_ok m c' w' \<and> cn_fd c' = cn_fd c"
  using assms
proof (cases rule: recv_into_cases)
  case full
  then show ?thesis
    using set_epollin_spec(2,5) [OF full(3)] lt_baseD(1) [OF assms(3)] by simp
next
  case (data bs vs w1)
  then show ?thesis
    using recv_done_law(2,4) [OF _ data(3)] by (auto dest: lt_baseD(1))
next
  case (wait w1)
  then show ?thesis
    using recv_done_law(2,4) [OF _ wait(2)] by (auto dest: lt_baseD(1))
next
  case close
  then show ?thesis
    using lt_baseD(1) [OF assms(3)] by (auto simp: echo_ok_def)
qed

lemma recv_into_base:
  assumes "kernel_ok K" "iov_choice iovs" "lt_base m c w" "lt_recv_into iovs K m (c, w) = (ret, c', w')"
    and "0 \<le> ret"
  shows "lt_base m c' w' \<and> in_ok m c'"
  using assms(1-4)
proof (cases rule: recv_into_cases)
  case full
  then show ?thesis
    using set_epollin_spec [OF full(3)] assms(3) by (auto simp: lt_base_def in_ok_def)
next
  case (data bs vs w1)
  then show ?thesis
    using recv_done_law(2,3) [OF _ data(3)] by simp
next
  case (wait w1)
  then show ?thesis
    using recv_done_law(2,3) [OF _ wait(2)] by simp
next
  case close
  then show ?thesis
    using assms(5) by simp
qed

lemma recv_into_none:
  assumes "kernel_ok K" "iov_choice iovs" "lt_base m c w" "lt_recv_into iovs K m (c, w) = (0, c', w')"
    and "out_ok c"
  shows "out_ok c'"
  using assms(1-4)
proof (cases rule: recv_into_cases)
  case full
  then show ?thesis
    using set_epollin_spec [OF full(3)] assms(5) by (auto simp: out_ok_def)
next
  case (data bs vs w1)
  then show ?thesis
    using recv_done_law(1) [OF _ data(3)] by simp
next
  case (wait w1)
  then show ?thesis
    using recv_done_law(5,6) [OF _ wait(2)] assms(5) by (simp add: out_ok_def)
qed simp

lemma send_from_cases:
  assumes K: "kernel_ok K" and iovs: "iov_choice iovs" and base: "lt_base m c w"
    and run: "lt_send_from iovs K m (c, w) = (ret, c', w')"
  obtains (empty) "ring_len (cn_buf c) = 0" "ret = 0" "lt_set_epollout False (c, w) = (c', w')"
  | (moved) n w1 where "n \<le> ring_len (cn_buf c)" "lt_base m (c\<lparr>cn_buf := add_blank (int n) (cn_buf c)\<rparr>) w1"
      "lt_send_done (int n) (c, w1) = (ret, c', w')"
  | (close) "ret = -1" "c' = c" "w_trace w' = w_trace w" "hard_error K (cn_fd c)"
proof -
  note inv = lt_baseD(3) [OF base]
  obtain r iov where iov: "get_exist_iovec m (cn_buf c) = (r, iov)"
    by (cases "get_exist_iovec m (cn_buf c)") auto
  obtain js where "iov_positions (iovs iov) @ js = iov_positions iov"
    using iovs unfolding iov_choice_def by auto
  then have "read_iov iov (cn_buf c) = read_iov (iovs iov) (cn_buf c) @ read_at (rb_buf (cn_buf c)) js"
    unfolding read_iov_def by (metis read_at_append)
  then obtain rest where items: "ring_items m (cn_buf c) = read_iov (iovs iov) (cn_buf c) @ rest"
    using read_exist [OF inv] iov by (metis snd_conv)
  obtain res w1 where sys: "sys_send K (cn_fd c) (read_iov (iovs iov) (cn_buf c)) w = (res, w1)"
    by (cases "sys_send K (cn_fd c) (read_iov (iovs iov) (cn_buf c)) w") auto
  show ?thesis
  proof (cases "ring_len (cn_buf c) = 0")
    case True
    then show ?thesis
      using empty run inv by (simp add: lt_send_from_def get_exist_size_eq Let_def)
  next
    case False
    then have eq: "(case res of SendLen n \<Rightarrow> lt_send_done (int n) (c, w1)
        | SendErr e \<Rightarrow> if again e then lt_send_done 0 (c, w1) else (-1, c, w1)) = (ret, c', w')"
      using run inv iov sys by (simp add: lt_send_from_def get_exist_size_eq Let_def)
    show ?thesis
      using K sys
    proof (cases rule: sys_send_cases)
      case (sent n)
      have n: "n \<le> ring_len (cn_buf c)"
        using sent(2) arg_cong [OF items, of length] by simp
      have "w_trace w1 = w_trace w @ [Sent (cn_fd c) (take n (ring_items m (cn_buf c)))]"
        using sent(2,3) by (simp add: items)
      note echo_ok_send [OF lt_baseD(1) [OF base] n this]
      then have "lt_base m (c\<lparr>cn_buf := add_blank (int n) (cn_buf c)\<rparr>) w1"
        using lt_baseD(2) [OF base] sent(3) by (simp add: lt_base_def lt_registered_def)
      then show ?thesis
        using moved n eq sent(1) by simp
    next
      case (error e)
      have "lt_base m c w1"
        by (rule lt_base_quiet [OF base error(2)])
      then show ?thesis
        using moved [of 0 w1] close eq error(1,2) hard_errorI(2) [OF error(3)] by (auto split: if_splits)
    qed
  qed
qed

lemma send_from_echo:
  assumes "kernel_ok K" "iov_choice iovs" "lt_base m c w" "lt_send_from iovs K m (c, w) = (ret, c', w')"
  shows "echo_ok m c' w' \<and> cn_fd c' = cn_fd c"
  using assms
proof (cases rule: send_from_cases)
  case empty
  then show ?thesis
    using set_epollout_spec(2,5) [OF empty(3)] lt_baseD(1) [OF assms(3)] by simp
next
  case (moved n w1)
  then show ?thesis
    using send_done_law(2,4) [OF _ moved(3)] by (auto dest: lt_baseD(1))
next
  case close
  then show ?thesis
    using lt_baseD(1) [OF assms(3)] by (simp add: echo_ok_def)
qed

lemma send_from_base:
  assumes "kernel_ok K" "iov_choice iovs" "lt_base m c w" "lt_send_from iovs K m (c, w) = (ret, c', w')"
    and "0 \<le> ret"
  shows "lt_base m c' w' \<and> out_ok c'"
  using assms(1-4)
proof (cases rule: send_from_cases)
  case empty
  then show ?thesis
    using set_epollout_spec [OF empty(3)] assms(3) by (auto simp: lt_base_def out_ok_def)
next
  case (moved n w1)
  then show ?thesis
    using send_done_law(2,3) [OF _ moved(3)] by simp
next
  case close
  then show ?thesis
    using assms(5) by simp
qed

lemma send_from_len:
  assumes "kernel_ok K" "iov_choice iovs" "lt_base m c w" "lt_send_from iovs K m (c, w) = (ret, c', w')"
    and "0 \<le> ret"
  shows "int (ring_len (cn_buf c')) = int (ring_len (cn_buf c)) - ret"
    and "has (cn_event c') EPOLLIN = has (cn_event c) EPOLLIN"
proof -
  have "int (ring_len (cn_buf c')) = int (ring_len (cn_buf c)) - ret \<and>
    has (cn_event c') EPOLLIN = has (cn_event c) EPOLLIN"
    using assms(1-4)
  proof (cases rule: send_from_cases)
    case empty
    then show ?thesis
      using set_epollout_spec [OF empty(3)] by simp
  next
    case (moved n w1)
    then show ?thesis
      using send_done_law(1,5,6) [OF _ moved(3)] ring_len_add_blank [OF moved(1)] by simp
  next
    case close
    then show ?thesis
      using assms(5) by simp
  qed
  then show "int (ring_len (cn_buf c')) = int (ring_len (cn_buf c)) - ret"
    and "has (cn_event c') EPOLLIN = has (cn_event c) EPOLLIN" by simp_all
qed

lemma recv_into_close:
  assumes "kernel_ok K" "iov_choice iovs" "lt_base m c w" "lt_recv_into iovs K m (c, w) = (ret, c', w')"
    and "ret < 0"
  shows "saw_eof (cn_fd c) w' \<or> hard_error K (cn_fd c)"
  using assms(1-4)
proof (cases rule: recv_into_cases)
  case full
  then show ?thesis using assms(5) by simp
next
  case (data bs vs w1)
  then show ?thesis
    using recv_done_law(1) [OF _ data(3)] assms(5) by simp
next
  case (wait w1)
  then show ?thesis
    using recv_done_law(1) [OF _ wait(2)] assms(5) by simp
next
  case close
  then show ?thesis by simp
qed

lemma send_from_close:
  assumes "kernel_ok K" "iov_choice iovs" "lt_base m c w" "lt_send_from iovs K m (c, w) = (ret, c', w')"
    and "ret < 0"
  shows "hard_error K (cn_fd c)"
  using assms(1-4)
proof (cases rule: send_from_cases)
  case empty
  then show ?thesis using assms(5) by simp
next
  case (moved n w1)
  then show ?thesis
    using send_done_law(1) [OF moved(2,3)] assms(5) by simp
next
  case close
  then show ?thesis by simp
qed

lemma flow_io_choice:
  fixes K :: "('k, 'z) kernel_scheme"
  assumes K: "kernel_ok K" and iovs: "iov_choice iovs" and m: "1 < m"
  shows "flow_io (lt_recv_into iovs K m) (lt_send_from iovs K m) m (hard_error K)"
proof
  show "1 < m" by (rule m)
next
  fix c ret c' and w w' :: "'k world"
  assume base: "lt_base m c w"
  show "echo_ok m c' w' \<and> cn_fd c' = cn_fd c" if "lt_recv_into iovs K m (c, w) = (ret, c', w')"
    by (rule recv_into_echo [OF K iovs base that])
  show "lt_base m c' w' \<and> in_ok m c'" if "lt_recv_into iovs K m (c, w) = (ret, c', w')" "0 \<le> ret"
    by (rule recv_into_base [OF K iovs base that])
  show "echo_ok m c' w' \<and> cn_fd c' = cn_fd c" if "lt_send_from iovs K m (c, w) = (ret, c', w')"
    by (rule send_from_echo [OF K iovs base that])
  show "lt_base m c' w' \<and> out_ok c'" if "lt_send_from iovs K m (c, w) = (ret, c', w')" "0 \<le> ret"
    by (rule send_from_base [OF K iovs base that])
  show "saw_eof (cn_fd c) w' \<or> hard_error K (cn_fd c)"
    if "lt_recv_into iovs K m (c, w) = (ret, c', w')" "ret < 0"
    by (rule recv_into_close [OF K iovs base that])
  show "hard_error K (cn_fd c)" if "lt_send_from iovs K m (c, w) = (ret, c', w')" "ret < 0"
    by (rule send_from_close [OF K iovs base that])
  show "ring_len (cn_buf c') < ring_len (cn_buf c)"
    if "lt_send_from iovs K m (c, w) = (ret, c', w')" "0 < ret"
    using send_from_len(1) [OF K iovs base that(1)] that(2) by simp
next
  fix c c' and w w' :: "'k world"
  assume base: "lt_base m c w"
  show "out_ok c'" if "out_ok c" "lt_recv_into iovs K m (c, w) = (0, c', w')"
    by (rule recv_into_none [OF K iovs base that(2,1)])
  show "in_ok m c'" if "in_ok m c" "lt_send_from iovs K m (c, w) = (0, c', w')"
    using send_from_len [OF K iovs base that(2)] that(1) by (simp add: in_ok_def)
qed

context echo_env
begin

lemma recvmsg_flow: "flow_io (lt_recv_buf K m) (lt_send_buf K m) m (hard_error K)"
  unfolding lt_recv_buf_def lt_send_buf_def
  by (rule flow_io_choice [OF kernel iov_choice_all ring_capD(1) [OF cap]])

lemma native_flow: "flow_io (lt_recv_buf_native K m) (lt_send_buf_native K m) m (hard_error K)"
  unfolding lt_recv_buf_native_def lt_send_buf_native_def
  by (rule flow_io_choice [OF kernel iov_choice_first ring_capD(1) [OF cap]])

end

sublocale echo_env \<subseteq> lt: flow_io "lt_recv_buf K m" "lt_send_buf K m" m "hard_error K"
  by (rule recvmsg_flow)

sublocale echo_env \<subseteq> lt_native: flow_io "lt_recv_buf_native K m" "lt_send_buf_native K m" m "hard_error K"
  by (rule native_flow)

lemma flow_io_handler:
  fixes rcv sd :: "'k conn_op"
  assumes "flow_io rcv sd m hard"
  shows "echo_handler (lt_handle (rcv, sd)) (lt_good m) m"
proof
  fix c ev ret c' and w w' :: "'k world"
  assume good: "lt_good m c w"
  show "echo_ok m c w"
    using good by (simp add: lt_good_def lt_base_def)
  assume "lt_handle (rcv, sd) ev (c, w) = (ret, c', w')"
  note law = flow_io.handle_law [OF assms good this]
  show "echo_ok m c' w'" "cn_fd c' = cn_fd c"
    using law by simp_all
  show "lt_good m c' w'" if "0 \<le> ret"
    using law that by simp
qed

lemma flow_io_closing:
  fixes rcv sd :: "'k conn_op"
  assumes "flow_io rcv sd m hard"
  shows "closing_handler (lt_handle (rcv, sd)) (lt_good m) m (\<lambda>ev. has ev (NOT (EPOLLIN OR EPOLLOUT))) hard"
  by (intro closing_handler.intro closing_handler_axioms.intro flow_io_handler [OF assms]
      flow_io.handle_close [OF assms])

sublocale echo_env \<subseteq> lt_conn: closing_handler "lt_handle (lt_io K m)" "lt_good m" m
    "\<lambda>ev. has ev (NOT (EPOLLIN OR EPOLLOUT))" "hard_error K"
  unfolding lt_io_def by (rule flow_io_closing [OF recvmsg_flow])

sublocale echo_env \<subseteq> lt_native_conn: closing_handler "lt_handle (lt_io_native K m)" "lt_good m" m
    "\<lambda>ev. has ev (NOT (EPOLLIN OR EPOLLOUT))" "hard_error K"
  unfolding lt_io_native_def by (rule flow_io_closing [OF native_flow])

lemma lt_new_good:
  assumes "ring_cap_ok m"
  shows "lt_good m (fst (lt_new m junk fd epfd w)) (snd (lt_new m junk fd epfd w))"
proof -
  have "ring_inv m (ring_new m junk)"
    by (rule ring_new_inv [OF assms(1)])
  moreover have "ring_len (ring_new m junk) = 0" by (simp add: ring_new_def ring_len_def)
  ultimately show ?thesis
    using assms ring_capD(1) [OF assms(1)]
    by (simp add: lt_good_def lt_base_def echo_ok_def lt_new_def lt_registered_def in_ok_def out_ok_def)
qed

lemma lt_conn_closing:
  assumes "kernel_ok K" "ring_cap_ok m" "io = lt_io K m \<or> io = lt_io_native K m"
  shows "closing_handler (lt_handle io) (lt_good m) m (\<lambda>ev. has ev (NOT (EPOLLIN OR EPOLLOUT))) (hard_error K)"
proof -
  note env = echo_env.intro [OF assms(1,2)]
  show ?thesis
    using assms(3) flow_io_closing [OF echo_env.recvmsg_flow [OF env]]
      flow_io_closing [OF echo_env.native_flow [OF env]]
    unfolding lt_io_def lt_io_native_def by blast
qed

text \<open>One run of a connection, from its construction on.\<close>

lemma lt_run:
  assumes "kernel_ok K" "ring_cap_ok m" "io = lt_io K m \<or> io = lt_io_native K m"
    and run: "deliver (lt_handle io) evs (lt_new m junk fd epfd w) = (ret, c', w')"
  shows "echo_ok m c' w'" "cn_fd c' = fd" "0 \<le> ret \<Longrightarrow> lt_good m c' w'"
    "ret < 0 \<Longrightarrow> (\<exists>ev \<in> set evs. has ev (NOT (EPOLLIN OR EPOLLOUT))) \<or> saw_eof fd w' \<or> hard_error K fd"
proof -
  obtain c0 w0 where new: "lt_new m junk fd epfd w = (c0, w0)" by (cases "lt_new m junk fd epfd w") auto
  then have good: "lt_good m c0 w0" and fd: "cn_fd c0 = fd"
    using lt_new_good [OF assms(2), of junk fd epfd w] by (auto simp: lt_new_def)
  note law = lt_conn_closing [OF assms(1-3)]
  show "echo_ok m c' w'" "cn_fd c' = fd" "0 \<le> ret \<Longrightarrow> lt_good m c' w'"
    using echo_handler.deliver_correct [OF closing_handler.axioms(1) [OF law] good run [unfolded new]] fd by simp_all
  show "ret < 0 \<Longrightarrow> (\<exists>ev \<in> set evs. has ev (NOT (EPOLLIN OR EPOLLOUT))) \<or> saw_eof fd w' \<or> hard_error K fd"
    using closing_handler.deliver_why [OF law good run [unfolded new]] fd by simp
qed

section \<open>The class the event loop sees\<close>

definition lt_class :: "'k conn_op \<times> 'k conn_op \<Rightarrow> nat \<Rightarrow> (nat \<Rightarrow> byte) \<Rightarrow> (lt_conn, 'k) conn_class" where
  "lt_class io m junk =
    \<lparr>cc_new = lt_new m junk, cc_handle = (\<lambda>ev s. Some (lt_handle io ev s)), cc_delete = conn_delete, cc_fd = cn_fd\<rparr>"

lemma set_epollout_only: "op_only (\<lambda>s. (n, lt_set_epollout flag s))"
  and set_epollin_only: "op_only (\<lambda>s. (n, lt_set_epollin flag s))"
  by (auto simp: op_only_def lt_set_epollout_def lt_set_epollin_def Let_def)

lemma recv_done_only: "op_only (lt_recv_done m n)"
  and send_done_only: "op_only (lt_send_done k)"
  by (auto simp: op_only_def lt_recv_done_def lt_send_done_def lt_set_epollout_def lt_set_epollin_def Let_def
      split: if_splits)

lemma recv_into_only: "op_only (lt_recv_into iovs K m)"
proof (rule op_onlyI)
  fix c r c' and w w' :: "'a world"
  assume run: "lt_recv_into iovs K m (c, w) = (r, c', w')"
  obtain iov where iov: "get_blank_iovec m (cn_buf c) = (0, iov)"
    by (metis blank_iovec_returns_0 prod.collapse)
  obtain res w1 where sys: "sys_recv K (cn_fd c) (iov_total (iovs iov)) w = (res, w1)"
    by (cases "sys_recv K (cn_fd c) (iov_total (iovs iov)) w") auto
  have "(r, c', w') = (-1, c, w) \<or> (r, c', w') = (0, lt_set_epollin False (c, w)) \<or>
      (\<exists>n c1. cn_fd c1 = cn_fd c \<and> lt_recv_done m n (c1, w1) = (r, c', w')) \<or> (c', w') = (c, w1)"
    using run iov sys by (cases res) (auto simp: lt_recv_into_def Let_def split: if_splits)
  then show "only_on (cn_fd c) w w' \<and> cn_fd c' = cn_fd c"
  proof (elim disjE exE conjE)
    assume "(r, c', w') = (0, lt_set_epollin False (c, w))"
    then show ?thesis
      using op_onlyD [OF set_epollin_only, of 0 False c w 0 c' w'] by simp
  next
    fix n c1
    assume "cn_fd c1 = cn_fd c" "lt_recv_done m n (c1, w1) = (r, c', w')"
    then show ?thesis
      using op_onlyD [OF recv_done_only, of m n c1 w1] only_on_trans [OF sys_recv_only [OF sys]] by metis
  qed (use sys_recv_only [OF sys] in simp_all)
qed

lemma send_from_only: "op_only (lt_send_from iovs K m)"
proof (rule op_onlyI)
  fix c r c' and w w' :: "'a world"
  assume run: "lt_send_from iovs K m (c, w) = (r, c', w')"
  obtain x iov where iov: "get_exist_iovec m (cn_buf c) = (x, iov)"
    by (cases "get_exist_iovec m (cn_buf c)") auto
  obtain res w1 where sys: "sys_send K (cn_fd c) (read_iov (iovs iov) (cn_buf c)) w = (res, w1)"
    by (cases "sys_send K (cn_fd c) (read_iov (iovs iov) (cn_buf c)) w") auto
  have "(r, c', w') = (-1, c, w) \<or> (r, c', w') = (0, lt_set_epollout False (c, w)) \<or>
      (\<exists>n. lt_send_done n (c, w1) = (r, c', w')) \<or> (c', w') = (c, w1)"
    using run iov sys by (cases res) (auto simp: lt_send_from_def Let_def split: if_splits)
  then show "only_on (cn_fd c) w w' \<and> cn_fd c' = cn_fd c"
  proof (elim disjE exE)
    assume "(r, c', w') = (0, lt_set_epollout False (c, w))"
    then show ?thesis
      using op_onlyD [OF set_epollout_only, of 0 False c w 0 c' w'] by simp
  next
    fix n
    assume "lt_send_done n (c, w1) = (r, c', w')"
    then show ?thesis
      using op_onlyD [OF send_done_only, of n c w1] only_on_trans [OF sys_send_only [OF sys]] by metis
  qed (use sys_send_only [OF sys] in simp_all)
qed

lemma lt_handle_only:
  assumes "op_only (fst io)" "op_only (snd io)"
  shows "op_only (lt_handle io ev)"
proof -
  have w: "op_only (lt_handle_write io)"
    unfolding lt_handle_write_def by (intro op_only_bind assms op_only_if op_only_return set_epollin_only)
  have r: "op_only (lt_handle_read io)"
    unfolding lt_handle_read_def by (intro op_only_bind assms op_only_if op_only_return set_epollin_only)
  show ?thesis
    unfolding lt_handle_def by (intro op_only_bind op_only_if op_only_return w r)
qed

lemma lt_good_frame: "lt_good m c w \<Longrightarrow> only_on g w w' \<Longrightarrow> g \<noteq> cn_fd c \<Longrightarrow> lt_good m c w'"
  using echo_ok_frame [of m c w g w'] only_on_frame(3) [of g w w' "cn_fd c"]
  by (auto simp: lt_good_def lt_base_def lt_registered_def)

lemma lt_handler_class:
  assumes "kernel_ok K" "ring_cap_ok m" "io = lt_io K m \<or> io = lt_io_native K m"
  shows "handler_class (lt_class io m junk) (lt_good m)"
  unfolding lt_class_def
proof (rule handler_classI)
  have "op_only (fst io)" "op_only (snd io)"
    using assms(3) recv_into_only send_from_only
    by (auto simp: lt_io_def lt_io_native_def lt_recv_buf_def lt_recv_buf_native_def lt_send_buf_def
        lt_send_buf_native_def)
  then show "op_only (lt_handle io ev)" for ev
    by (rule lt_handle_only)
  note law = lt_conn_closing [OF assms, THEN closing_handler.axioms(1)]
  show "op_law (lt_good m) (echo_ok m) (lt_handle io ev)" for ev
    using echo_handler.handle_echo [OF law] echo_handler.handle_fd [OF law] echo_handler.handle_good [OF law]
    by (intro op_lawI) blast
  show "lt_good m c w' \<and> cn_fd c = fd \<and> only_on fd w w'" if "lt_new m junk fd epfd w = (c, w')" for fd epfd c and w w' :: "'a world"
    using that lt_new_good [OF assms(2), of junk fd epfd w] by (auto simp: lt_new_def)
  show "lt_good m c w'" if "lt_good m c w" "only_on g w w'" "g \<noteq> cn_fd c" for c g and w w' :: "'a world"
    by (rule lt_good_frame [OF that])
qed (simp_all add: lt_good_def lt_base_def lt_registered_def echo_ok_def)

sublocale echo_env \<subseteq> lt_server: handler_class "lt_class (lt_io K m) m junk" "lt_good m" for junk
  by (rule lt_handler_class [OF kernel cap disjI1 [OF refl]])

sublocale echo_env \<subseteq> lt_native_server: handler_class "lt_class (lt_io_native K m) m junk" "lt_good m" for junk
  by (rule lt_handler_class [OF kernel cap disjI2 [OF refl]])

section \<open>Draining\<close>

lemma exist_first_nonempty:
  assumes "ring_inv m r" "0 < ring_len r"
  shows "read_iov (take 1 (snd (get_exist_iovec m r))) r \<noteq> []" "read_iov (snd (get_exist_iovec m r)) r \<noteq> []"
proof -
  have pos: "iov_total (snd (get_exist_iovec m r)) \<noteq> 0"
    using exist_total [OF assms(1)] assms(2) by simp
  have "unat (rb_f r mod of_nat m) < m"
    using ring_position_laws(1,3) [OF assms(1)] by (simp add: unat_mod_cap)
  with pos have "iov_total (take 1 (snd (get_exist_iovec m r))) \<noteq> 0"
    by (auto simp: get_exist_iovec_def Let_def iov_total_def split: if_splits)
  moreover have "iov_total vs = 0" if "read_iov vs r = []" for vs
    using that length_read_at [of "rb_buf r" "iov_positions vs"] by (simp add: read_iov_def)
  ultimately show "read_iov (take 1 (snd (get_exist_iovec m r))) r \<noteq> []"
    and "read_iov (snd (get_exist_iovec m r)) r \<noteq> []"
    using pos by metis+
qed

lemma send_from_willing:
  assumes K: "kernel_ok K" and will: "willing_sender K (cn_fd c)" and inv: "ring_inv m (cn_buf c)"
    and pos: "0 < ring_len (cn_buf c)" and iovs: "iovs = (\<lambda>v. v) \<or> iovs = take 1"
    and run: "lt_send_from iovs K m (c, w) = (ret, c', w')"
  shows "0 < ret"
proof -
  obtain r iov where iov: "get_exist_iovec m (cn_buf c) = (r, iov)"
    by (cases "get_exist_iovec m (cn_buf c)") auto
  let ?bs = "read_iov (iovs iov) (cn_buf c)"
  have "?bs \<noteq> []"
    using exist_first_nonempty [OF inv pos] iovs iov by auto
  then obtain n s' where k: "k_send K (cn_fd c) ?bs (w_os w) = (SendLen n, s')" "0 < n"
    by (rule willing_sendD [OF will])
  have "length ?bs \<le> length (read_iov iov (cn_buf c))"
    using iovs by (auto simp: read_iov_def iov_total_def) (metis add_leD1 append_take_drop_id le_refl map_append sum_list_append)
  then have n: "n \<le> ring_len (cn_buf c)"
    using kernel_ok_send [OF K k(1)] read_exist [OF inv] iov length_ring_items [of m "cn_buf c"] by simp
  have "get_exist_size (add_blank (int n) (cn_buf c)) \<ge> 0"
    using ring_consume_inv [OF inv n] by (simp add: ring_consume_def get_exist_size_eq)
  then show ?thesis
    using run k inv pos iov
    by (auto simp: lt_send_from_def sys_send_def get_exist_size_eq lt_send_done_def Let_def split: if_splits)
qed

lemma handle_epollout:
  "lt_handle io EPOLLOUT s = (case lt_handle_write io s of (ret, s1) \<Rightarrow> if ret < 0 then (ret, s1) else (0, s1))"
proof -
  have "\<not> has EPOLLOUT (NOT (EPOLLIN OR EPOLLOUT))" "has EPOLLOUT EPOLLOUT" "\<not> has EPOLLOUT EPOLLIN"
    by (simp_all add: has_def epoll_flags)
  then show ?thesis
    by (auto simp: lt_handle_def split: prod.splits)
qed

lemma lt_io_send:
  assumes "io = lt_io K m \<or> io = lt_io_native K m"
  obtains iovs where "iovs = (\<lambda>v. v) \<or> iovs = take 1" "iov_choice iovs" "snd io = lt_send_from iovs K m"
  using assms
proof
  assume "io = lt_io K m"
  then have "snd io = lt_send_from (\<lambda>v. v) K m" by (simp add: lt_io_def lt_send_buf_def)
  then show thesis by (rule that [OF disjI1 [OF refl] iov_choice_all])
next
  assume "io = lt_io_native K m"
  then have "snd io = lt_send_from (take 1) K m" by (simp add: lt_io_native_def lt_send_buf_native_def)
  then show thesis by (rule that [OF disjI2 [OF refl] iov_choice_first])
qed

lemma lt_drain_step:
  assumes K: "kernel_ok K" and m: "ring_cap_ok m" and io: "io = lt_io K m \<or> io = lt_io_native K m"
    and will: "willing_sender K (cn_fd c)" and good: "lt_good m c w"
    and run: "lt_handle io EPOLLOUT (c, w) = (ret, c', w')"
  shows "ret = 0" "lt_good m c' w'" "cn_fd c' = cn_fd c" "ring_len (cn_buf c') \<le> ring_len (cn_buf c) - 1"
proof -
  obtain iovs where iovs: "iovs = (\<lambda>v. v) \<or> iovs = take 1" and choice: "iov_choice iovs"
    and snd_io: "snd io = lt_send_from iovs K m"
    by (rule lt_io_send [OF io])
  have base: "lt_base m c w" and inv: "ring_inv m (cn_buf c)"
    using good by (auto simp: lt_good_def lt_base_def echo_ok_def)
  obtain n c1 w1 where s: "lt_send_from iovs K m (c, w) = (n, c1, w1)"
    by (cases "lt_send_from iovs K m (c, w)") auto
  have "ring_len (cn_buf c) = 0 \<Longrightarrow> n = 0"
    using s inv by (simp add: lt_send_from_def get_exist_size_eq split: prod.splits)
  then have n: "if ring_len (cn_buf c) = 0 then n = 0 else 0 < n"
    using send_from_willing [OF K will inv _ iovs s] by auto
  then have len: "ring_len (cn_buf c1) \<le> ring_len (cn_buf c) - 1"
    using send_from_len(1) [OF K choice base s] by (auto split: if_splits)
  have run': "ret = 0 \<and> (c', w') = (if 0 < n then lt_set_epollin True (c1, w1) else (c1, w1))"
    using run n unfolding handle_epollout by (auto simp: lt_handle_write_def snd_io s split: if_splits)
  then show ret: "ret = 0" by simp
  show "ring_len (cn_buf c') \<le> ring_len (cn_buf c) - 1"
    using run' len set_epollin_spec(1) [of True c1 w1 c' w'] by (auto split: if_splits)
  note law = lt_conn_closing [OF K m io, THEN closing_handler.axioms(1)]
  show "lt_good m c' w'" "cn_fd c' = cn_fd c"
    using echo_handler.handle_good [OF law good run] echo_handler.handle_fd [OF law good run] ret by simp_all
qed

lemma lt_drain:
  assumes K: "kernel_ok K" and m: "ring_cap_ok m" and io: "io = lt_io K m \<or> io = lt_io_native K m"
  shows "willing_sender K (cn_fd c) \<Longrightarrow> lt_good m c w \<Longrightarrow>
    deliver (lt_handle io) (replicate n EPOLLOUT) (c, w) = (ret, c', w') \<Longrightarrow>
    ret = 0 \<and> lt_good m c' w' \<and> cn_fd c' = cn_fd c \<and> ring_len (cn_buf c') \<le> ring_len (cn_buf c) - n"
proof (induction n arbitrary: c w)
  case (Suc n)
  obtain r c1 w1 where h: "lt_handle io EPOLLOUT (c, w) = (r, c1, w1)"
    by (cases "lt_handle io EPOLLOUT (c, w)") auto
  note step = lt_drain_step [OF K m io Suc.prems(1,2) h]
  have "deliver (lt_handle io) (replicate n EPOLLOUT) (c1, w1) = (ret, c', w')"
    using Suc.prems(3) h step(1) by simp
  from Suc.IH [OF _ step(2) this] show ?case
    using step(3,4) Suc.prems(1) by auto
qed auto

section \<open>What the connection promises\<close>

text \<open>C3: the level-triggered server echoes.  For both files (\<^verbatim>\<open>recvmsg\<close>/\<^verbatim>\<open>sendmsg\<close> and native), every ring
  size for which the buffer works, every kernel that keeps the contract of its calls and every
  sequence of epoll events, what a connection has sent since it was constructed, followed by what its
  ring still holds, is exactly what it has received: nothing is lost, duplicated or reordered, also
  when the run ends with an error.\<close>

theorem lt_echo_correct:
  assumes "kernel_ok K" "ring_cap_ok m" "io = lt_io K m \<or> io = lt_io_native K m"
    and "deliver (lt_handle io) evs (lt_new m junk fd epfd w) = (ret, c', w')"
  shows "sent_on fd (w_trace w') @ ring_items m (cn_buf c') = received_on fd (w_trace w')"
  using lt_run(1,2) [OF assms] by (simp add: echo_ok_def)

text \<open>C4: the interest contract of \<^verbatim>\<open>outline.txt\<close> for level triggering.  While a connection lives, the
  mask registered with epoll is the one the object remembers, EPOLLIN is in it exactly while the ring is
  not full, EPOLLOUT exactly while it is not empty, and so the two are never both off.\<close>

theorem lt_interest_contract:
  assumes "kernel_ok K" "ring_cap_ok m" "io = lt_io K m \<or> io = lt_io_native K m"
    and "deliver (lt_handle io) evs (lt_new m junk fd epfd w) = (ret, c', w')" "0 \<le> ret"
  shows "interest (w_trace w') fd = Some (cn_event c') \<and>
    lt_enable_epollin c' = (get_blank_size m (cn_buf c') \<noteq> 0) \<and>
    lt_enable_epollout c' = (get_exist_size (cn_buf c') \<noteq> 0) \<and>
    (lt_enable_epollin c' \<or> lt_enable_epollout c')"
proof -
  have good: "lt_good m c' w'" and fd: "cn_fd c' = fd"
    using lt_run(2,3) [OF assms(1-4)] assms(5) by simp_all
  have inv: "ring_inv m (cn_buf c')"
    using good by (simp add: lt_good_def lt_base_def echo_ok_def)
  show ?thesis
    using good fd ring_len_bound [OF inv] ring_capD(1) [OF assms(2)]
    by (auto simp: lt_good_def lt_base_def lt_registered_def in_ok_def out_ok_def lt_enable_epollin_def
        lt_enable_epollout_def get_blank_size_eq [OF inv] get_exist_size_eq [OF inv])
qed

text \<open>C6: why a connection is closed.  \<^verbatim>\<open>handle\<close> returns a negative value, and the event loop deletes the
  connection, only when an event outside EPOLLIN and EPOLLOUT was delivered, the peer ended its stream, or
  the kernel can answer a call on the descriptor with an error other than "try again".\<close>

theorem lt_close_reason:
  assumes "kernel_ok K" "ring_cap_ok m" "io = lt_io K m \<or> io = lt_io_native K m"
    and "deliver (lt_handle io) evs (lt_new m junk fd epfd w) = (ret, c', w')" "ret < 0"
  shows "(\<exists>ev \<in> set evs. has ev (NOT (EPOLLIN OR EPOLLOUT))) \<or> saw_eof fd w' \<or> hard_error K fd"
  by (rule lt_run(4) [OF assms])

text \<open>C7: the buffered bytes go out.  If the kernel takes at least one byte whenever it is offered some,
  then after any run that left the connection open, as many EPOLLOUT events as there are buffered bytes
  send everything that was received back, the connection stays open, and only EPOLLIN stays
  enabled.\<close>

theorem lt_drains:
  assumes "kernel_ok K" "ring_cap_ok m" "io = lt_io K m \<or> io = lt_io_native K m"
    and "willing_sender K fd"
    and "deliver (lt_handle io) evs (lt_new m junk fd epfd w) = (ret, c1, w1)" "0 \<le> ret"
    and "get_exist_size (cn_buf c1) \<le> int n"
    and "deliver (lt_handle io) (replicate n EPOLLOUT) (c1, w1) = (ret', c', w')"
  shows "ret' = 0 \<and> sent_on fd (w_trace w') = received_on fd (w_trace w') \<and>
    lt_enable_epollin c' \<and> \<not> lt_enable_epollout c'"
proof -
  have good: "lt_good m c1 w1" and fd: "cn_fd c1 = fd"
    using lt_run(2,3) [OF assms(1-3,5)] assms(6) by simp_all
  have inv: "ring_inv m (cn_buf c1)"
    using good by (simp add: lt_good_def lt_base_def echo_ok_def)
  have "ret' = 0 \<and> lt_good m c' w' \<and> cn_fd c' = cn_fd c1 \<and> ring_len (cn_buf c') \<le> ring_len (cn_buf c1) - n"
    using lt_drain [OF assms(1-3) _ good assms(8)] assms(4) fd by simp
  moreover have "ring_len (cn_buf c1) \<le> n"
    using assms(7) get_exist_size_eq [OF inv] by simp
  ultimately have final: "ret' = 0" "lt_good m c' w'" "cn_fd c' = fd" "ring_len (cn_buf c') = 0"
    using fd by simp_all
  then have "ring_items m (cn_buf c') = []"
    by (metis length_0_conv length_ring_items)
  then show ?thesis
    using final ring_capD(1) [OF assms(2)]
    by (auto simp: lt_good_def lt_base_def echo_ok_def in_ok_def out_ok_def lt_enable_epollin_def
        lt_enable_epollout_def)
qed

section \<open>Runs\<close>

text \<open>
  A run with a ring of four cells: the input fills it, so EPOLLIN is switched off, the first
  \<^verbatim>\<open>send\<close> is short, so EPOLLOUT is switched on.
\<close>

definition lt_demo_start :: "lt_conn \<times> script world" where
  "lt_demo_start = lt_new 4 (\<lambda>_. 0) 5 3 (run_world [RecvData [1, 2, 3]] [SendLen 2])"

definition lt_demo :: "int \<times> lt_conn \<times> script world" where
  "lt_demo = deliver (lt_handle (lt_io script_kernel 4)) [EPOLLIN] lt_demo_start"

definition lt_demo_end :: "int \<times> lt_conn \<times> script world" where
  "lt_demo_end = deliver (lt_handle (lt_io script_kernel 4)) [EPOLLIN, EPOLLERR] lt_demo_start"

lemma lt_echo_correct_witness:
  "sent_on 5 (w_trace (snd (snd lt_demo))) = [1, 2] \<and> received_on 5 (w_trace (snd (snd lt_demo))) = [1, 2, 3] \<and>
   ring_items 4 (cn_buf (fst (snd lt_demo))) = [3]"
proof -
  have "sent_on 5 (w_trace (snd (snd lt_demo))) = [1, 2]"
    "received_on 5 (w_trace (snd (snd lt_demo))) = [1, 2, 3]" by code_simp+
  moreover have "sent_on 5 (w_trace (snd (snd lt_demo))) @ ring_items 4 (cn_buf (fst (snd lt_demo)))
      = received_on 5 (w_trace (snd (snd lt_demo)))"
    by (rule lt_echo_correct [OF script_kernel_ok ring_cap_4 disjI1 [OF refl]])
      (simp add: lt_demo_def lt_demo_start_def prod_eq_iff)
  ultimately show ?thesis by simp
qed

lemma lt_interest_contract_witness:
  "interest (w_trace (snd (snd lt_demo))) 5 = Some 5 \<and> lt_enable_epollin (fst (snd lt_demo)) \<and>
   lt_enable_epollout (fst (snd lt_demo))"
proof -
  have *: "0 \<le> fst lt_demo" "cn_event (fst (snd lt_demo)) = 5"
    "get_blank_size 4 (cn_buf (fst (snd lt_demo))) = 2" "get_exist_size (cn_buf (fst (snd lt_demo))) = 1"
    by code_simp+
  have "deliver (lt_handle (lt_io script_kernel 4)) [EPOLLIN] (lt_new 4 (\<lambda>_. 0) 5 3
      (run_world [RecvData [1, 2, 3]] [SendLen 2])) = (fst lt_demo, fst (snd lt_demo), snd (snd lt_demo))"
    by (simp add: lt_demo_def lt_demo_start_def)
  from lt_interest_contract [OF script_kernel_ok ring_cap_4 disjI1 [OF refl] this *(1)]
  show ?thesis
    using *(2-4) by simp
qed

lemma lt_close_reason_witness:
  "fst lt_demo_end = -1 \<and> ((\<exists>ev \<in> set [EPOLLIN, EPOLLERR]. has ev (NOT (EPOLLIN OR EPOLLOUT))) \<or>
    saw_eof 5 (snd (snd lt_demo_end)) \<or> hard_error script_kernel 5)"
proof -
  have *: "fst lt_demo_end = -1" by code_simp
  have "deliver (lt_handle (lt_io script_kernel 4)) [EPOLLIN, EPOLLERR] (lt_new 4 (\<lambda>_. 0) 5 3
      (run_world [RecvData [1, 2, 3]] [SendLen 2])) = (fst lt_demo_end, fst (snd lt_demo_end), snd (snd lt_demo_end))"
    by (simp add: lt_demo_end_def lt_demo_start_def)
  from lt_close_reason [OF script_kernel_ok ring_cap_4 disjI1 [OF refl] this]
  show ?thesis
    using * by simp
qed

definition byte_start :: "int \<times> lt_conn \<times> unit world" where
  "byte_start = deliver (lt_handle (lt_io_native byte_kernel 4)) [EPOLLIN]
    (lt_new 4 (\<lambda>_. 0) 5 3 \<lparr>w_os = (), w_trace = []\<rparr>)"

definition byte_end :: "int \<times> lt_conn \<times> unit world" where
  "byte_end = deliver (lt_handle (lt_io_native byte_kernel 4)) (replicate 2 EPOLLOUT) (snd byte_start)"

lemma lt_drains_witness:
  "received_on 5 (w_trace (snd (snd byte_end))) = [1, 2, 3] \<and> sent_on 5 (w_trace (snd (snd byte_end))) = [1, 2, 3] \<and>
   fst byte_end = 0"
proof -
  have *: "0 \<le> fst byte_start" "get_exist_size (cn_buf (fst (snd byte_start))) \<le> int 2"
    "received_on 5 (w_trace (snd (snd byte_end))) = [1, 2, 3]"
    by code_simp+
  have 1: "deliver (lt_handle (lt_io_native byte_kernel 4)) [EPOLLIN] (lt_new 4 (\<lambda>_. 0) 5 3 \<lparr>w_os = (), w_trace = []\<rparr>)
      = (fst byte_start, fst (snd byte_start), snd (snd byte_start))"
    by (simp add: byte_start_def)
  have 2: "deliver (lt_handle (lt_io_native byte_kernel 4)) (replicate 2 EPOLLOUT)
      (fst (snd byte_start), snd (snd byte_start)) = (fst byte_end, fst (snd byte_end), snd (snd byte_end))"
    by (simp only: byte_end_def prod.collapse)
  from lt_drains [OF byte_kernel_ok ring_cap_4 disjI2 [OF refl] byte_kernel_willing 1 *(1,2) 2]
  show ?thesis
    using *(3) by simp
qed

end
