(* ===== verification/Out_Echo.thy ===== *)
theory Out_Echo
  imports Event_Loop
begin

text \<open>
  The level-triggered echo connection that switches EPOLLOUT only
  (\<^verbatim>\<open>tcp_echo/server_epollout_handle.cpp\<close> and \<^verbatim>\<open>server_epollout_handle_native.cpp\<close>).  EPOLLIN stays
  registered for good; the flag \<^verbatim>\<open>enable_epollout\<close> remembers whether EPOLLOUT is.  The native functions
  loop over the iovecs with one \<^verbatim>\<open>recv\<close> or \<^verbatim>\<open>send\<close> each; \<^verbatim>\<open>recv_buf\<close> takes every result that is not
  positive, \<open>EAGAIN\<close> included, as a reason to close.

  The lemmas show the echo equation and that, between two events, \<^verbatim>\<open>enable_epollout\<close> holds exactly
  while the ring holds data and is what epoll has registered.
\<close>

section \<open>The code\<close>

record out_conn = conn +
  cn_epollout :: bool

type_synonym 'k out_op = "(out_conn, 'k) op"

definition out_new :: "nat \<Rightarrow> (nat \<Rightarrow> byte) \<Rightarrow> int \<Rightarrow> int \<Rightarrow> 'k world \<Rightarrow> out_conn \<times> 'k world" where
  "out_new m junk fd epfd w =
    (\<lparr>cn_fd = fd, cn_epfd = epfd, cn_buf = ring_new m junk, cn_epollout = False\<rparr>, emit (CtlAdd fd EPOLLIN) w)"

definition out_mask :: "bool \<Rightarrow> u32" where
  "out_mask flag = EPOLLIN OR (if flag then EPOLLOUT else 0)"

definition out_set_epollout :: "bool \<Rightarrow> out_conn \<times> 'k world \<Rightarrow> out_conn \<times> 'k world" where
  "out_set_epollout flag = (\<lambda>(c, w). (c\<lparr>cn_epollout := flag\<rparr>, emit (CtlMod (cn_fd c) (out_mask flag)) w))"

definition out_recv_buf :: "('k, 'z) kernel_scheme \<Rightarrow> nat \<Rightarrow> ('x conn_scheme, 'k) op" where
  "out_recv_buf K m = (\<lambda>(c, w).
    if get_blank_size m (cn_buf c) \<le> 0 then (0, c, w)
    else
      let (r, iov) = get_blank_iovec m (cn_buf c) in
      if r < 0 then (0, c, w)
      else case sys_recv K (cn_fd c) (iov_total iov) w of
        (RecvData bs, w1) \<Rightarrow>
          if length bs = 0 then (-1, c, w1)
          else (int (length bs), c\<lparr>cn_buf := add_exist (int (length bs)) (fill_iov iov bs (cn_buf c))\<rparr>, w1)
      | (RecvErr e, w1) \<Rightarrow> (-1, c, w1))"

text \<open>The loops over \<^verbatim>\<open>iov[i]\<close>; \<open>got\<close> is \<^verbatim>\<open>ret\<close>, \<open>sent\<close> is \<^verbatim>\<open>have_send\<close>.\<close>

fun out_recv_loop :: "('k, 'z) kernel_scheme \<Rightarrow> iovec list \<Rightarrow> int \<Rightarrow> ('x conn_scheme, 'k) op" where
  "out_recv_loop K [] got (c, w) = (got, c, w)"
| "out_recv_loop K (v # vs) got (c, w) =
    (case sys_recv K (cn_fd c) (iov_len v) w of
      (RecvData bs, w1) \<Rightarrow>
        if length bs = 0 then (-1, c, w1)
        else
          let c1 = c\<lparr>cn_buf := add_exist (int (length bs)) (fill_iov [v] bs (cn_buf c))\<rparr>;
              got1 = got + int (length bs) in
          if length bs < iov_len v then (got1, c1, w1) else out_recv_loop K vs got1 (c1, w1)
    | (RecvErr e, w1) \<Rightarrow>
        if again e then
          (let c1 = c\<lparr>cn_buf := add_exist 0 (cn_buf c)\<rparr> in
           if 0 < iov_len v then (got, c1, w1) else out_recv_loop K vs got (c1, w1))
        else (-1, c, w1))"

definition out_recv_buf_native :: "('k, 'z) kernel_scheme \<Rightarrow> nat \<Rightarrow> ('x conn_scheme, 'k) op" where
  "out_recv_buf_native K m = (\<lambda>(c, w).
    if get_blank_size m (cn_buf c) \<le> 0 then (0, c, w)
    else
      let (r, iov) = get_blank_iovec m (cn_buf c) in
      if r < 0 then (0, c, w) else out_recv_loop K iov 0 (c, w))"

definition out_send_buf :: "('k, 'z) kernel_scheme \<Rightarrow> nat \<Rightarrow> 'k out_op" where
  "out_send_buf K m = (\<lambda>(c, w).
    let to_send = get_exist_size (cn_buf c) in
    if to_send \<le> 0 then (0, c, w)
    else
      let (_, iov) = get_exist_iovec m (cn_buf c);
          finish = (\<lambda>send_len w1.
            let c1 = c\<lparr>cn_buf := add_blank send_len (cn_buf c)\<rparr> in
            if send_len = to_send then
              (send_len, if cn_epollout c1 then out_set_epollout False (c1, w1) else (c1, w1))
            else
              (send_len, if \<not> cn_epollout c1 then out_set_epollout True (c1, w1) else (c1, w1))) in
      case sys_send K (cn_fd c) (read_iov iov (cn_buf c)) w of
        (SendLen n, w1) \<Rightarrow> finish (int n) w1
      | (SendErr e, w1) \<Rightarrow> if again e then finish 0 w1 else (-1, c, w1))"

fun out_send_loop :: "('k, 'z) kernel_scheme \<Rightarrow> int \<Rightarrow> iovec list \<Rightarrow> int \<Rightarrow> 'k out_op" where
  "out_send_loop K to_send [] sent (c, w) = (sent, c, w)"
| "out_send_loop K to_send (v # vs) sent (c, w) =
    (let (res, w1) = sys_send K (cn_fd c) (read_iov [v] (cn_buf c)) w;
         step = (\<lambda>send_len.
           let c1 = c\<lparr>cn_buf := add_blank (int send_len) (cn_buf c)\<rparr>;
               sent1 = sent + int send_len in
           if sent1 = to_send then
             out_send_loop K to_send vs sent1
               (if cn_epollout c1 then out_set_epollout False (c1, w1) else (c1, w1))
           else if send_len < iov_len v then
             (sent1, if \<not> cn_epollout c1 then out_set_epollout True (c1, w1) else (c1, w1))
           else out_send_loop K to_send vs sent1 (c1, w1)) in
     case res of
       SendLen n \<Rightarrow> step n
     | SendErr e \<Rightarrow> if again e then step 0 else (-1, c, w1))"

definition out_send_buf_native :: "('k, 'z) kernel_scheme \<Rightarrow> nat \<Rightarrow> 'k out_op" where
  "out_send_buf_native K m = (\<lambda>(c, w).
    let to_send = get_exist_size (cn_buf c) in
    if to_send \<le> 0 then (0, c, w)
    else let (_, iov) = get_exist_iovec m (cn_buf c) in out_send_loop K to_send iov 0 (c, w))"

text \<open>The two programs: \<^verbatim>\<open>handle_read\<close> of the first calls \<^verbatim>\<open>recv_buf\<close> and \<^verbatim>\<open>send_buf\<close>, everything else
  calls the native functions.\<close>

definition out_program :: "('k, 'z) kernel_scheme \<Rightarrow> nat \<Rightarrow> u32 \<Rightarrow> 'k out_op" where
  "out_program K m = conn_handle (conn_handle_read (out_recv_buf K m) (out_send_buf K m))
    (conn_handle_write (out_send_buf_native K m))"

definition out_program_native :: "('k, 'z) kernel_scheme \<Rightarrow> nat \<Rightarrow> u32 \<Rightarrow> 'k out_op" where
  "out_program_native K m = conn_handle (conn_handle_read (out_recv_buf_native K m) (out_send_buf_native K m))
    (conn_handle_write (out_send_buf_native K m))"

definition out_class :: "(u32 \<Rightarrow> 'k out_op) \<Rightarrow> nat \<Rightarrow> (nat \<Rightarrow> byte) \<Rightarrow> (out_conn, 'k) conn_class" where
  "out_class h m junk =
    \<lparr>cc_new = out_new m junk, cc_handle = (\<lambda>ev s. Some (h ev s)), cc_delete = conn_delete, cc_fd = cn_fd\<rparr>"

section \<open>The contract\<close>

definition out_base :: "nat \<Rightarrow> out_conn \<Rightarrow> 'k world \<Rightarrow> bool" where
  "out_base m c w \<longleftrightarrow> echo_ok m c w \<and>
    interest (w_trace w) (cn_fd c) = Some (out_mask (cn_epollout c))"

definition flag_ok :: "out_conn \<Rightarrow> bool" where
  "flag_ok c \<longleftrightarrow> cn_epollout c = (ring_len (cn_buf c) \<noteq> 0)"

definition out_good :: "nat \<Rightarrow> out_conn \<Rightarrow> 'k world \<Rightarrow> bool" where
  "out_good m c w \<longleftrightarrow> out_base m c w \<and> flag_ok c"

lemma out_baseD:
  assumes "out_base m c w"
  shows "echo_ok m c w" "interest (w_trace w) (cn_fd c) = Some (out_mask (cn_epollout c))"
    "ring_inv m (cn_buf c)"
  using assms by (simp_all add: out_base_def echo_ok_def)

lemma set_epollout_base:
  assumes "out_base m c w" "out_set_epollout flag (c, w) = (c', w')"
  shows "out_base m c' w'" "cn_fd c' = cn_fd c" "cn_buf c' = cn_buf c" "cn_epollout c' = flag"
  using assms by (auto simp: out_set_epollout_def out_base_def echo_ok_def)

lemma out_base_quiet: "out_base m c w \<Longrightarrow> w_trace w' = w_trace w \<Longrightarrow> out_base m c w'"
  by (simp add: out_base_def echo_ok_def)

lemma out_base_send:
  assumes "out_base m c w" "n \<le> ring_len (cn_buf c)"
    and "w_trace w1 = w_trace w @ [Sent (cn_fd c) (take n (ring_items m (cn_buf c)))]"
  shows "out_base m (c\<lparr>cn_buf := add_blank (int n) (cn_buf c)\<rparr>) w1"
  using echo_ok_send [OF out_baseD(1) [OF assms(1)] assms(2,3)] out_baseD(2) [OF assms(1)] assms(3)
  by (simp add: out_base_def)

section \<open>Receiving\<close>

definition recv_law :: "nat \<Rightarrow> ('x conn_scheme, 'k) op \<Rightarrow> bool" where
  "recv_law m f \<longleftrightarrow> (\<forall>c w r c' w'. ring_inv m (cn_buf c) \<longrightarrow> f (c, w) = (r, c', w') \<longrightarrow>
    recv_effect m (c, w) (c', w'))"

lemma recv_lawD: "recv_law m f \<Longrightarrow> ring_inv m (cn_buf c) \<Longrightarrow> f (c, w) = (r, c', w') \<Longrightarrow> recv_effect m (c, w) (c', w')"
  unfolding recv_law_def by blast

lemma recv_lawI:
  assumes "\<And>c w r c' w'. ring_inv m (cn_buf c) \<Longrightarrow> f (c, w) = (r, c', w') \<Longrightarrow> recv_effect m (c, w) (c', w')"
  shows "recv_law m f"
  using assms unfolding recv_law_def by blast

lemma out_recv_loop_law:
  assumes K: "kernel_ok K"
  shows "ring_inv m (cn_buf c) \<Longrightarrow> iov_positions vs = iov_positions (snd (get_blank_iovec m (cn_buf c))) \<Longrightarrow>
    out_recv_loop K vs got (c, w) = (r, c', w') \<Longrightarrow> recv_effect m (c, w) (c', w')"
proof (induction vs arbitrary: got c w)
  case Nil
  then show ?case by (simp add: recv_effect_refl)
next
  case (Cons v vs)
  note inv = Cons.prems(1)
  have pos: "iov_positions [v] @ iov_positions vs = iov_positions (snd (get_blank_iovec m (cn_buf c)))"
    using Cons.prems(2) by simp
  obtain res w1 where sys: "sys_recv K (cn_fd c) (iov_len v) w = (res, w1)"
    by (cases "sys_recv K (cn_fd c) (iov_len v) w") auto
  show ?case
    using K sys
  proof (cases rule: sys_recv_cases)
    case (data bs)
    let ?c = "c\<lparr>cn_buf := add_exist (int (length bs)) (fill_iov [v] bs (cn_buf c))\<rparr>"
    have len: "length bs \<le> iov_total [v]"
      using data(2) by (simp add: iov_total_def)
    note eff = recv_effect_data [OF inv pos len data(3)]
    consider "bs = []" | "bs \<noteq> []" "length bs < iov_len v" | "bs \<noteq> []" "length bs = iov_len v"
      using data(2) by linarith
    then show ?thesis
    proof cases
      case 1
      then have "(c', w') = (c, w1)" "w_trace w1 = w_trace w @ [Recvd (cn_fd c) []]"
        using Cons.prems(3) sys data by simp_all
      then show ?thesis
        using recv_effect_eof [OF inv] by simp
    next
      case 2
      then have "(c', w') = (?c, w1)"
        using Cons.prems(3) sys data(1) by simp
      then show ?thesis
        using eff(1) by simp
    next
      case 3
      have "iov_len v \<noteq> 0"
        using 3 by (metis length_0_conv)
      then have rest: "out_recv_loop K vs (got + int (length bs)) (?c, w1) = (r, c', w')"
        using Cons.prems(3) sys data(1) 3 by (simp add: Let_def)
      have buf: "cn_buf ?c = ring_deposit m bs (cn_buf c)"
        using eff(2) by simp
      have "iov_positions vs = iov_positions (snd (get_blank_iovec m (cn_buf ?c)))"
        unfolding buf blank_positions_deposit [OF inv eff(3)] pos [symmetric] using 3 by simp
      then show ?thesis
        using recv_effect_trans [OF eff(1)] Cons.IH [OF recv_effectD(1) [OF eff(1)] _ rest] by simp
    qed
  next
    case (error e)
    note quiet = recv_effect_quiet [OF inv error(2)]
    show ?thesis
    proof (cases "again e \<and> iov_len v = 0")
      case True
      then have "out_recv_loop K vs got (c, w1) = (r, c', w')"
        using Cons.prems(3) sys error(1) by simp
      from recv_effect_trans [OF quiet Cons.IH [OF inv _ this]] show ?thesis
        using Cons.prems(2) True by simp
    next
      case False
      then have "(c', w') = (c, w1)"
        using Cons.prems(3) sys error(1) by (auto split: if_splits)
      then show ?thesis
        using quiet by simp
    qed
  qed
qed

lemma out_recv_native_law: "kernel_ok K \<Longrightarrow> recv_law m (out_recv_buf_native K m)"
proof (rule recv_lawI)
  fix c :: "'x conn_scheme" and r c' and w w' :: "'a world"
  assume K: "kernel_ok K" and inv: "ring_inv m (cn_buf c)" and run: "out_recv_buf_native K m (c, w) = (r, c', w')"
  obtain iov where iov: "get_blank_iovec m (cn_buf c) = (0, iov)"
    by (metis blank_iovec_returns_0 prod.collapse)
  then have "(c', w') = (c, w) \<or> out_recv_loop K iov 0 (c, w) = (r, c', w')"
    using run by (auto simp: out_recv_buf_native_def split: if_splits)
  then show "recv_effect m (c, w) (c', w')"
    using recv_effect_refl [OF inv] out_recv_loop_law [OF K inv] iov by auto
qed

text \<open>The functions that read once, with all iovecs.\<close>

lemma recv_once_effect:
  assumes K: "kernel_ok K" and inv: "ring_inv m (cn_buf c)" and iov: "get_blank_iovec m (cn_buf c) = (0, iov)"
    and sys: "sys_recv K (cn_fd c) (iov_total iov) w = (res, w1)"
    and cases: "(c', w') = (c, w) \<or> (c', w') = (c, w1) \<and> (\<forall>bs. res = RecvData bs \<longrightarrow> bs = []) \<or>
      (\<exists>bs. res = RecvData bs \<and>
        (c', w') = (c\<lparr>cn_buf := add_exist (int (length bs)) (fill_iov iov bs (cn_buf c))\<rparr>, w1))"
  shows "recv_effect m (c, w) (c', w')"
proof -
  have pos: "iov_positions iov @ [] = iov_positions (snd (get_blank_iovec m (cn_buf c)))"
    using iov by simp
  show ?thesis
    using K sys
  proof (cases rule: sys_recv_cases)
    case (data bs)
    have "recv_effect m (c, w) (c, w1)" if "bs = []"
      using recv_effect_eof [OF inv] data(3) that by simp
    then show ?thesis
      using cases data(1) recv_effect_refl [OF inv] recv_effect_data(1) [OF inv pos data(2,3)] by auto
  next
    case (error e)
    then show ?thesis
      using cases recv_effect_refl [OF inv] recv_effect_quiet [OF inv error(2)] by auto
  qed
qed

lemma out_recv_law: "kernel_ok K \<Longrightarrow> recv_law m (out_recv_buf K m)"
proof (rule recv_lawI)
  fix c :: "'x conn_scheme" and r c' and w w' :: "'a world"
  assume K: "kernel_ok K" and inv: "ring_inv m (cn_buf c)" and run: "out_recv_buf K m (c, w) = (r, c', w')"
  obtain iov where iov: "get_blank_iovec m (cn_buf c) = (0, iov)"
    by (metis blank_iovec_returns_0 prod.collapse)
  obtain res w1 where sys: "sys_recv K (cn_fd c) (iov_total iov) w = (res, w1)"
    by (cases "sys_recv K (cn_fd c) (iov_total iov) w") auto
  show "recv_effect m (c, w) (c', w')"
    by (rule recv_once_effect [OF K inv iov sys])
      (use run iov sys in \<open>cases res; auto simp: out_recv_buf_def split: if_splits\<close>)
qed

lemma out_base_recv_effect:
  assumes "out_base m c w" "recv_effect m (c, w) (c', w')"
  shows "out_base m c' w'" "cn_fd c' = cn_fd c" "cn_epollout c' = cn_epollout c"
    "ring_len (cn_buf c) \<le> ring_len (cn_buf c')"
proof -
  note e = recv_effectD [OF assms(2)]
  show flag: "cn_epollout c' = cn_epollout c"
    by (subst e(2)) simp
  show "cn_fd c' = cn_fd c" "ring_len (cn_buf c) \<le> ring_len (cn_buf c')"
    by (rule e(3), rule e(8))
  show "out_base m c' w'"
    using recv_effect_echo [OF assms(2)] assms(1) e(3,5) flag by (simp add: out_base_def)
qed

section \<open>Sending\<close>

text \<open>A sending function re-establishes the flag, unless it reports an error.\<close>

definition send_law :: "nat \<Rightarrow> 'k out_op \<Rightarrow> bool" where
  "send_law m f \<longleftrightarrow> (\<forall>c w r c' w'. out_base m c w \<longrightarrow> (ring_len (cn_buf c) = 0 \<longrightarrow> \<not> cn_epollout c) \<longrightarrow>
    f (c, w) = (r, c', w') \<longrightarrow> out_base m c' w' \<and> cn_fd c' = cn_fd c \<and> (0 \<le> r \<longrightarrow> flag_ok c'))"

lemma send_lawD:
  assumes "send_law m f" "out_base m c w" "ring_len (cn_buf c) = 0 \<longrightarrow> \<not> cn_epollout c"
    and "f (c, w) = (r, c', w')"
  shows "out_base m c' w'" "cn_fd c' = cn_fd c" "0 \<le> r \<Longrightarrow> flag_ok c'"
  using assms(1) [unfolded send_law_def, rule_format, OF assms(2) _ assms(4)] assms(3) by simp_all

lemma send_lawI:
  assumes "\<And>c w r c' w'. out_base m c w \<Longrightarrow> (ring_len (cn_buf c) = 0 \<Longrightarrow> \<not> cn_epollout c) \<Longrightarrow>
    f (c, w) = (r, c', w') \<Longrightarrow> out_base m c' w' \<and> cn_fd c' = cn_fd c \<and> (0 \<le> r \<longrightarrow> flag_ok c')"
  shows "send_law m f"
  using assms unfolding send_law_def by blast

text \<open>What both functions do after a send: \<open>flag\<close> is whether data is left.\<close>

lemma adjust_flag:
  assumes "out_base m c w" "(if cn_epollout c = flag then (c, w) else out_set_epollout flag (c, w)) = (c', w')"
  shows "out_base m c' w'" "cn_fd c' = cn_fd c" "cn_buf c' = cn_buf c" "cn_epollout c' = flag"
  using assms set_epollout_base [of m c w flag c' w'] by (auto split: if_splits)

lemma out_send_law:
  assumes K: "kernel_ok K"
  shows "send_law m (out_send_buf K m)"
proof (rule send_lawI)
  fix c r c' and w w' :: "'a world"
  assume base: "out_base m c w" and weak: "ring_len (cn_buf c) = 0 \<Longrightarrow> \<not> cn_epollout c"
    and run: "out_send_buf K m (c, w) = (r, c', w')"
  note inv = out_baseD(3) [OF base]
  obtain x iov where iov: "get_exist_iovec m (cn_buf c) = (x, iov)"
    by (cases "get_exist_iovec m (cn_buf c)") auto
  then have items: "read_iov iov (cn_buf c) = ring_items m (cn_buf c)"
    using read_exist [OF inv] by simp
  obtain res w1 where sys: "sys_send K (cn_fd c) (ring_items m (cn_buf c)) w = (res, w1)"
    by (cases "sys_send K (cn_fd c) (ring_items m (cn_buf c)) w") auto
  have finish: "out_base m c' w' \<and> cn_fd c' = cn_fd c \<and> (0 \<le> r \<longrightarrow> flag_ok c')"
    if n: "n \<le> ring_len (cn_buf c)" "out_base m (c\<lparr>cn_buf := add_blank (int n) (cn_buf c)\<rparr>) w1"
      and set: "(if cn_epollout c = (n \<noteq> ring_len (cn_buf c))
        then (c\<lparr>cn_buf := add_blank (int n) (cn_buf c)\<rparr>, w1)
        else out_set_epollout (n \<noteq> ring_len (cn_buf c)) (c\<lparr>cn_buf := add_blank (int n) (cn_buf c)\<rparr>, w1)) = (c', w')" for n
    using adjust_flag [OF n(2), of "n \<noteq> ring_len (cn_buf c)" c' w'] set n(1) ring_len_add_blank [OF n(1)]
    by (auto simp: flag_ok_def)
  show "out_base m c' w' \<and> cn_fd c' = cn_fd c \<and> (0 \<le> r \<longrightarrow> flag_ok c')"
  proof (cases "ring_len (cn_buf c) = 0")
    case True
    then show ?thesis
      using run base weak by (simp add: out_send_buf_def get_exist_size_eq [OF inv] flag_ok_def)
  next
    case False
    show ?thesis
      using K sys
    proof (cases rule: sys_send_cases)
      case (sent n)
      then have n: "n \<le> ring_len (cn_buf c)" by simp
      show ?thesis
        by (rule finish [OF n out_base_send [OF base n sent(3)]])
          (use run iov items sys sent(1) False in
            \<open>auto simp: out_send_buf_def get_exist_size_eq [OF inv] Let_def split: if_splits\<close>)
    next
      case (error e)
      note quiet = out_base_quiet [OF base error(2)]
      show ?thesis
      proof (cases "again e")
        case True
        show ?thesis
          by (rule finish [of 0])
            (use True quiet run iov items sys error(1) False in
              \<open>auto simp: out_send_buf_def get_exist_size_eq [OF inv] Let_def split: if_splits\<close>)
      next
        case F: False
        then show ?thesis
          using quiet run iov items sys error(1) False
          by (simp add: out_send_buf_def get_exist_size_eq [OF inv] Let_def)
      qed
    qed
  qed
qed


lemma exist_choice_front:
  assumes inv: "ring_inv m r" and items: "read_iov (v # vs) r = ring_items m r"
  shows "take n (read_iov [v] r) = take (min n (iov_len v)) (ring_items m r)" "iov_len v \<le> ring_len r"
    "read_iov vs r = drop (iov_len v) (ring_items m r)"
proof -
  have split: "ring_items m r = read_iov [v] r @ read_iov vs r" and len: "length (read_iov [v] r) = iov_len v"
    using items by (simp_all add: read_iov_def)
  show "iov_len v \<le> ring_len r"
    using arg_cong [OF split, of length] len by simp
  show "take n (read_iov [v] r) = take (min n (iov_len v)) (ring_items m r)"
    "read_iov vs r = drop (iov_len v) (ring_items m r)"
    unfolding split using len by (simp_all add: min_def)
qed

lemma out_send_loop_law:
  assumes K: "kernel_ok K"
  shows "out_base m c w \<Longrightarrow> read_iov vs (cn_buf c) = ring_items m (cn_buf c) \<Longrightarrow>
    \<forall>v \<in> set vs. 0 < iov_len v \<Longrightarrow> to_send = sent + int (ring_len (cn_buf c)) \<Longrightarrow>
    (vs = [] \<longrightarrow> flag_ok c) \<Longrightarrow> out_send_loop K to_send vs sent (c, w) = (r, c', w') \<Longrightarrow>
    out_base m c' w' \<and> cn_fd c' = cn_fd c \<and> (0 \<le> r \<longrightarrow> flag_ok c')"
proof (induction vs arbitrary: sent c w)
  case Nil
  then show ?case by simp
next
  case (Cons v vs)
  let ?r = "cn_buf c"
  note inv = out_baseD(3) [OF Cons.prems(1)] and front = exist_choice_front [OF out_baseD(3) [OF Cons.prems(1)] Cons.prems(2)]
  obtain res w1 where sys: "sys_send K (cn_fd c) (read_iov [v] ?r) w = (res, w1)"
    by (cases "sys_send K (cn_fd c) (read_iov [v] ?r) w") auto
  have step: "out_base m c' w' \<and> cn_fd c' = cn_fd c \<and> (0 \<le> r \<longrightarrow> flag_ok c')"
    if n: "n \<le> iov_len v" and base1: "out_base m (c\<lparr>cn_buf := add_blank (int n) ?r\<rparr>) w1"
      and run: "(let c1 = c\<lparr>cn_buf := add_blank (int n) ?r\<rparr>; sent1 = sent + int n in
          if sent1 = to_send then
            out_send_loop K to_send vs sent1 (if cn_epollout c1 then out_set_epollout False (c1, w1) else (c1, w1))
          else if n < iov_len v then
            (sent1, if \<not> cn_epollout c1 then out_set_epollout True (c1, w1) else (c1, w1))
          else out_send_loop K to_send vs sent1 (c1, w1)) = (r, c', w')" for n
  proof -
    let ?c1 = "c\<lparr>cn_buf := add_blank (int n) ?r\<rparr>"
    have n': "n \<le> ring_len ?r" using n front(2) by simp
    have left: "ring_len (cn_buf ?c1) = ring_len ?r - n"
      using ring_len_add_blank [OF n'] by simp
    have rest: "read_iov vs (cn_buf ?c1) = ring_items m (cn_buf ?c1)" if "n = iov_len v"
      using front(3) ring_items_consume [OF inv n'] that
      by (simp add: ring_consume_def read_iov_def add_blank_def)
    consider (all) "n = ring_len ?r" | (short) "n < ring_len ?r" "n < iov_len v" | (more) "n < ring_len ?r" "n = iov_len v"
      using n n' by linarith
    then show ?thesis
    proof cases
      case all
      obtain c2 w2 where set: "(if cn_epollout ?c1 = False then (?c1, w1) else out_set_epollout False (?c1, w1)) = (c2, w2)"
        by (cases "if cn_epollout ?c1 = False then (?c1, w1) else out_set_epollout False (?c1, w1)") auto
      note law = adjust_flag [OF base1 set]
      have rec: "out_send_loop K to_send vs (sent + int n) (c2, w2) = (r, c', w')"
        using run set all Cons.prems(4) by (simp add: Let_def split: if_splits)
      have "iov_len v = ring_len ?r" using n front(2) all by simp
      then have "read_iov vs (cn_buf c2) = ring_items m (cn_buf c2)"
        using rest all law(3) by simp
      moreover have "flag_ok c2"
        using law(3,4) left all by (simp add: flag_ok_def)
      moreover have "to_send = (sent + int n) + int (ring_len (cn_buf c2))"
        using law(3) left all Cons.prems(4) by simp
      ultimately show ?thesis
        using Cons.IH [OF law(1) _ _ _ _ rec] Cons.prems(3) law(2) by simp
    next
      case short
      then have "(if cn_epollout ?c1 = True then (?c1, w1) else out_set_epollout True (?c1, w1)) = (c', w')"
        using run Cons.prems(4) by (simp add: Let_def split: if_splits)
      note law = adjust_flag [OF base1 this]
      then show ?thesis
        using left short by (simp add: flag_ok_def)
    next
      case more
      then have rec: "out_send_loop K to_send vs (sent + int n) (?c1, w1) = (r, c', w')"
        using run Cons.prems(4) by (simp add: Let_def split: if_splits)
      have "vs \<noteq> []"
        using front(3) more arg_cong [OF front(3), of length] by (auto simp: read_iov_def)
      then show ?thesis
        using Cons.IH [OF base1 rest [OF more(2)] _ _ _ rec] Cons.prems(3,4) left more by simp
    qed
  qed
  show ?case
    using K sys
  proof (cases rule: sys_send_cases)
    case (sent n)
    have n: "n \<le> iov_len v" using sent(2) by (simp add: read_iov_def)
    then have "w_trace w1 = w_trace w @ [Sent (cn_fd c) (take n (ring_items m ?r))]"
      using sent(3) front(1) [of n] by (simp add: min_def)
    note base1 = out_base_send [OF Cons.prems(1) _ this]
    show ?thesis
      by (rule step [OF n base1]) (use n front(2) Cons.prems(6) sys sent(1) in \<open>simp_all add: Let_def\<close>)
  next
    case (error e)
    show ?thesis
    proof (cases "again e")
      case True
      show ?thesis
        by (rule step [of 0]) (use out_base_quiet [OF Cons.prems(1) error(2)] True Cons.prems(6) sys error(1)
            in \<open>simp_all add: Let_def cong: if_cong\<close>)
    next
      case False
      then show ?thesis
        using out_base_quiet [OF Cons.prems(1) error(2)] Cons.prems(6) sys error(1) by simp
    qed
  qed
qed


lemma out_send_native_law:
  assumes K: "kernel_ok K"
  shows "send_law m (out_send_buf_native K m)"
proof (rule send_lawI)
  fix c r c' and w w' :: "'a world"
  assume base: "out_base m c w" and weak: "ring_len (cn_buf c) = 0 \<Longrightarrow> \<not> cn_epollout c"
    and run: "out_send_buf_native K m (c, w) = (r, c', w')"
  note inv = out_baseD(3) [OF base]
  obtain x iov where iov: "get_exist_iovec m (cn_buf c) = (x, iov)"
    by (cases "get_exist_iovec m (cn_buf c)") auto
  show "out_base m c' w' \<and> cn_fd c' = cn_fd c \<and> (0 \<le> r \<longrightarrow> flag_ok c')"
  proof (cases "ring_len (cn_buf c) = 0")
    case True
    then show ?thesis
      using run base weak by (simp add: out_send_buf_native_def get_exist_size_eq [OF inv] flag_ok_def)
  next
    case False
    have items: "read_iov iov (cn_buf c) = ring_items m (cn_buf c)"
      using read_exist [OF inv] iov by simp
    have "iov \<noteq> []"
      using exist_total [OF inv] iov False by (auto simp: iov_total_def)
    moreover have "\<forall>v \<in> set iov. 0 < iov_len v"
      using exist_iovecs_nonempty [OF inv] iov False by auto
    moreover have "out_send_loop K (int (ring_len (cn_buf c))) iov 0 (c, w) = (r, c', w')"
      using run iov False by (simp add: out_send_buf_native_def get_exist_size_eq [OF inv])
    ultimately show ?thesis
      using out_send_loop_law [OF K base items, of "int (ring_len (cn_buf c))" 0 r c' w'] by simp
  qed
qed

section \<open>The handlers\<close>

lemma handle_read_out:
  assumes "recv_law m rcv" "send_law m sd"
  shows "op_law (out_good m) (out_base m) (conn_handle_read rcv sd)"
proof (rule op_lawI)
  fix c r c' and w w' :: "'a world"
  assume good: "out_good m c w" and run: "conn_handle_read rcv sd (c, w) = (r, c', w')"
  obtain n c1 w1 where f: "rcv (c, w) = (n, c1, w1)" by (cases "rcv (c, w)") auto
  obtain k c2 w2 where s: "sd (c1, w1) = (k, c2, w2)" by (cases "sd (c1, w1)") auto
  have base: "out_base m c w" "flag_ok c" using good by (simp_all add: out_good_def)
  note R = out_base_recv_effect [OF base(1) recv_lawD [OF assms(1) out_baseD(3) [OF base(1)] f]]
  have weak: "ring_len (cn_buf c1) = 0 \<longrightarrow> \<not> cn_epollout c1"
    using R(3,4) base(2) by (simp add: flag_ok_def)
  note S = send_lawD [OF assms(2) R(1) weak s]
  show "out_base m c' w' \<and> cn_fd c' = cn_fd c \<and> (0 \<le> r \<longrightarrow> out_good m c' w')"
    using run f s R(1,2) S by (auto simp: conn_handle_read_def out_good_def split: if_splits)
qed

lemma send_law_op:
  assumes "send_law m sd"
  shows "op_law (out_good m) (out_base m) sd"
proof (rule op_lawI)
  fix c r c' and w w' :: "'a world"
  assume good: "out_good m c w" and run: "sd (c, w) = (r, c', w')"
  then have base: "out_base m c w" and "ring_len (cn_buf c) = 0 \<longrightarrow> \<not> cn_epollout c"
    by (simp_all add: out_good_def flag_ok_def)
  from send_lawD [OF assms this run]
  show "out_base m c' w' \<and> cn_fd c' = cn_fd c \<and> (0 \<le> r \<longrightarrow> out_good m c' w')"
    by (simp add: out_good_def)
qed

lemma out_program_law:
  assumes K: "kernel_ok K" and h: "h = out_program K m \<or> h = out_program_native K m"
  shows "op_law (out_good m) (out_base m) (h ev)"
proof -
  note wr = op_law_write [OF send_law_op [OF out_send_native_law [OF K]]]
  note rd = handle_read_out [OF out_recv_law [OF K] out_send_law [OF K]]
  note rd_native = handle_read_out [OF out_recv_native_law [OF K] out_send_native_law [OF K]]
  have sub: "out_base m c w" if "out_good m c w" for c and w :: "'a world"
    using that by (simp add: out_good_def)
  show ?thesis
    using h op_law_handle [OF rd wr sub] op_law_handle [OF rd_native wr sub]
    unfolding out_program_def out_program_native_def by blast
qed

lemma out_new_good:
  assumes "ring_cap_ok m" "out_new m junk fd epfd w = (c, w')"
  shows "out_good m c w'" "cn_fd c = fd" "only_on fd w w'"
proof -
  have "ring_inv m (ring_new m junk)" "ring_len (ring_new m junk) = 0"
    using ring_new_inv [OF assms(1)] by (simp_all add: ring_new_def ring_len_def)
  then show "out_good m c w'" "cn_fd c = fd" "only_on fd w w'"
    using assms(2) by (auto simp: out_new_def out_good_def out_base_def echo_ok_def flag_ok_def out_mask_def)
qed

lemma out_conn_handler:
  assumes "kernel_ok K" "h = out_program K m \<or> h = out_program_native K m"
  shows "echo_handler h (out_good m) m"
  by (rule op_law_echo_handler [OF out_program_law [OF assms]]) (simp_all add: out_good_def out_base_def)

sublocale echo_env \<subseteq> out_conn: echo_handler "out_program K m" "out_good m" m
  by (rule out_conn_handler [OF kernel disjI1 [OF refl]])

sublocale echo_env \<subseteq> out_native_conn: echo_handler "out_program_native K m" "out_good m" m
  by (rule out_conn_handler [OF kernel disjI2 [OF refl]])


section \<open>The class the event loop sees\<close>

lemma out_set_only: "out_set_epollout flag (c, w) = (c', w') \<Longrightarrow> only_on (cn_fd c) w w' \<and> cn_fd c' = cn_fd c"
  by (auto simp: out_set_epollout_def)

lemma out_recv_loop_only:
  fixes K :: "('k, 'z) kernel_scheme"
  shows "op_only (out_recv_loop K vs got :: ('x conn_scheme, 'k) op)"
proof (induction vs arbitrary: got)
  case Nil
  then show ?case by (simp add: op_only_def)
next
  case (Cons v vs)
  show ?case
  proof (rule op_onlyI)
    fix c c' :: "'x conn_scheme" and r and w w' :: "'k world"
    assume run: "out_recv_loop K (v # vs) got (c, w) = (r, c', w')"
    obtain res w1 where sys: "sys_recv K (cn_fd c) (iov_len v) w = (res, w1)"
      by (cases "sys_recv K (cn_fd c) (iov_len v) w") auto
    have "(\<exists>c1. cn_fd c1 = cn_fd c \<and> (c', w') = (c1, w1)) \<or>
        (\<exists>n c1. cn_fd c1 = cn_fd c \<and> out_recv_loop K vs n (c1, w1) = (r, c', w'))"
      using run sys by (cases res) (auto simp: Let_def split: if_splits)
    then show "only_on (cn_fd c) w w' \<and> cn_fd c' = cn_fd c"
    proof (elim disjE exE conjE)
      fix n c1
      assume fd: "cn_fd c1 = cn_fd c" and rest: "out_recv_loop K vs n (c1, w1) = (r, c', w')"
      show ?thesis
        using op_onlyD [OF Cons.IH rest] fd only_on_trans [OF sys_recv_only [OF sys]] by simp
    qed (use sys_recv_only [OF sys] in simp)
  qed
qed

lemma maybe_set_only:
  assumes "(if b then out_set_epollout flag (c, w) else (c, w)) = (c', w')"
  shows "cn_fd c' = cn_fd c" "only_on (cn_fd c) w w'"
  using assms by (auto simp: out_set_epollout_def split: if_splits)

lemma out_send_loop_only:
  fixes K :: "('k, 'z) kernel_scheme"
  shows "op_only (out_send_loop K k vs sent)"
proof (induction vs arbitrary: sent)
  case Nil
  then show ?case by (simp add: op_only_def)
next
  case (Cons v vs)
  show ?case
  proof (rule op_onlyI)
    fix c r c' and w w' :: "'k world"
    assume run: "out_send_loop K k (v # vs) sent (c, w) = (r, c', w')"
    obtain res w1 where sys: "sys_send K (cn_fd c) (read_iov [v] (cn_buf c)) w = (res, w1)"
      by (cases "sys_send K (cn_fd c) (read_iov [v] (cn_buf c)) w") auto
    have step: "only_on (cn_fd c) w1 w' \<and> cn_fd c' = cn_fd c"
      if n: "(let c1 = c\<lparr>cn_buf := add_blank (int n) (cn_buf c)\<rparr>; sent1 = sent + int n in
          if sent1 = k then
            out_send_loop K k vs sent1 (if cn_epollout c1 then out_set_epollout False (c1, w1) else (c1, w1))
          else if n < iov_len v then
            (sent1, if \<not> cn_epollout c1 then out_set_epollout True (c1, w1) else (c1, w1))
          else out_send_loop K k vs sent1 (c1, w1)) = (r, c', w')" for n
    proof -
      let ?c1 = "c\<lparr>cn_buf := add_blank (int n) (cn_buf c)\<rparr>"
      obtain c2 w2 where off: "(if cn_epollout ?c1 then out_set_epollout False (?c1, w1) else (?c1, w1)) = (c2, w2)"
        by (cases "if cn_epollout ?c1 then out_set_epollout False (?c1, w1) else (?c1, w1)") auto
      consider "out_send_loop K k vs (sent + int n) (c2, w2) = (r, c', w')"
        | "(if \<not> cn_epollout ?c1 then out_set_epollout True (?c1, w1) else (?c1, w1)) = (c', w')"
        | "out_send_loop K k vs (sent + int n) (?c1, w1) = (r, c', w')"
        using n unfolding Let_def off by (simp split: if_splits)
      then show ?thesis
      proof cases
        case 1
        then show ?thesis
          using op_onlyD [OF Cons.IH 1] maybe_set_only [OF off] only_on_trans by auto
      next
        case 2
        then show ?thesis using maybe_set_only [OF 2] by simp
      next
        case 3
        then show ?thesis using op_onlyD [OF Cons.IH 3] by simp
      qed
    qed
    show "only_on (cn_fd c) w w' \<and> cn_fd c' = cn_fd c"
    proof (cases res)
      case (SendLen n)
      then show ?thesis
        using step [of n] run sys only_on_trans [OF sys_send_only [OF sys]] by (simp add: Let_def)
    next
      case (SendErr e)
      then show ?thesis
        using step [of 0] run sys only_on_trans [OF sys_send_only [OF sys]] sys_send_only [OF sys]
        by (cases "again e") (simp_all add: Let_def cong: if_cong)
    qed
  qed
qed

lemma out_io_only:
  fixes K :: "('k, 'z) kernel_scheme"
  shows "op_only (out_recv_buf K m)" "op_only (out_recv_buf_native K m)"
  "op_only (out_send_buf K m)" "op_only (out_send_buf_native K m)"
proof -
  show "op_only (out_recv_buf_native K m)" "op_only (out_send_buf_native K m)"
    using op_onlyD [OF out_recv_loop_only] op_onlyD [OF out_send_loop_only]
    by (auto simp: op_only_def out_recv_buf_native_def out_send_buf_native_def Let_def split: if_splits prod.splits)
  show "op_only (out_recv_buf K m)"
    by (auto simp: op_only_def out_recv_buf_def Let_def split: if_splits prod.splits recv_res.splits
        dest: sys_recv_only)
  show "op_only (out_send_buf K m)"
  proof (rule op_onlyI)
    fix c r c' and w w' :: "'k world"
    assume run: "out_send_buf K m (c, w) = (r, c', w')"
    obtain x iov where iov: "get_exist_iovec m (cn_buf c) = (x, iov)"
      by (cases "get_exist_iovec m (cn_buf c)") auto
    obtain res w1 where sys: "sys_send K (cn_fd c) (read_iov iov (cn_buf c)) w = (res, w1)"
      by (cases "sys_send K (cn_fd c) (read_iov iov (cn_buf c)) w") auto
    have "(c', w') = (c, w) \<or> cn_fd c' = cn_fd c \<and> only_on (cn_fd c) w1 w'"
      using run iov sys
      by (cases res) (auto simp: out_send_buf_def Let_def out_set_epollout_def split: if_splits)
    then show "only_on (cn_fd c) w w' \<and> cn_fd c' = cn_fd c"
      using sys_send_only [OF sys] only_on_trans by auto
  qed
qed

lemma out_program_only: "op_only (out_program K m ev)" "op_only (out_program_native K m ev)"
  unfolding out_program_def out_program_native_def
  by (intro handle_only handle_read_only handle_write_only out_io_only)+

lemma out_handler_class:
  assumes "kernel_ok K" "ring_cap_ok m" "h = out_program K m \<or> h = out_program_native K m"
  shows "handler_class (out_class h m junk) (out_good m)"
  unfolding out_class_def
proof (rule handler_classI [OF _ out_program_law [OF assms(1,3)]])
  show "op_only (h ev)" for ev
    using assms(3) out_program_only by blast
  show "out_good m c w' \<and> cn_fd c = fd \<and> only_on fd w w'" if "out_new m junk fd epfd w = (c, w')" for fd epfd c and w w' :: "'a world"
    using out_new_good [OF assms(2) that] by simp
  show "out_good m c w'" if "out_good m c w" "only_on g w w'" "g \<noteq> cn_fd c" for c g and w w' :: "'a world"
    using that echo_ok_frame [of m c w g w'] only_on_frame(3) [OF that(2,3)]
    by (simp add: out_good_def out_base_def)
qed (simp_all add: out_good_def out_base_def echo_ok_def)

sublocale echo_env \<subseteq> out_server: handler_class "out_class (out_program K m) m junk" "out_good m" for junk
  by (rule out_handler_class [OF kernel cap disjI1 [OF refl]])

sublocale echo_env \<subseteq> out_native_server: handler_class "out_class (out_program_native K m) m junk" "out_good m" for junk
  by (rule out_handler_class [OF kernel cap disjI2 [OF refl]])

section \<open>What the connection promises\<close>

lemma out_run:
  assumes "kernel_ok K" "ring_cap_ok m" "h = out_program K m \<or> h = out_program_native K m"
    and run: "deliver h evs (out_new m junk fd epfd w) = (ret, c', w')"
  shows "echo_ok m c' w'" "cn_fd c' = fd" "0 \<le> ret \<Longrightarrow> out_good m c' w'"
proof -
  obtain c0 w0 where new: "out_new m junk fd epfd w = (c0, w0)" by (cases "out_new m junk fd epfd w") auto
  note good = out_new_good [OF assms(2) new]
  note law = echo_handler.deliver_correct [OF out_conn_handler [OF assms(1,3)] good(1) run [unfolded new]]
  show "echo_ok m c' w'" "cn_fd c' = fd" "0 \<le> ret \<Longrightarrow> out_good m c' w'"
    using law good(2) by simp_all
qed

text \<open>The EPOLLOUT-switching servers echo.  Whether a handler uses \<^verbatim>\<open>recvmsg\<close>/\<^verbatim>\<open>sendmsg\<close> or loops over
  the iovecs with one \<^verbatim>\<open>recv\<close>/\<^verbatim>\<open>send\<close> each, and whatever the kernel answers to each call, what a connection
  has sent followed by what its ring holds is what it has received, also after an error in the middle
  of a loop.\<close>

lemma out_echo_correct:
  assumes "kernel_ok K" "ring_cap_ok m" "h = out_program K m \<or> h = out_program_native K m"
    and "deliver h evs (out_new m junk fd epfd w) = (ret, c', w')"
  shows "sent_on fd (w_trace w') @ ring_items m (cn_buf c') = received_on fd (w_trace w')"
  using out_run(1,2) [OF assms] by (simp add: echo_ok_def)

text \<open>The flag \<^verbatim>\<open>enable_epollout\<close> is right.  While the connection lives, between two events, it holds
  exactly while the ring has data to send, and epoll has EPOLLIN, and EPOLLOUT exactly by the flag,
  registered for the descriptor.\<close>

lemma out_flag_contract:
  assumes "kernel_ok K" "ring_cap_ok m" "h = out_program K m \<or> h = out_program_native K m"
    and "deliver h evs (out_new m junk fd epfd w) = (ret, c', w')" "0 \<le> ret"
  shows "cn_epollout c' = (get_exist_size (cn_buf c') \<noteq> 0) \<and>
    interest (w_trace w') fd = Some (EPOLLIN OR (if cn_epollout c' then EPOLLOUT else 0))"
proof -
  have good: "out_good m c' w'" and fd: "cn_fd c' = fd"
    using out_run(2,3) [OF assms(1-4)] assms(5) by simp_all
  then have "ring_inv m (cn_buf c')"
    by (simp add: out_good_def out_base_def echo_ok_def)
  then show ?thesis
    using good fd by (simp add: out_good_def out_base_def flag_ok_def out_mask_def get_exist_size_eq)
qed

text \<open>The two programs disagree on a spurious wake-up.  When EPOLLIN is delivered to an idle connection
  and the read says "try again", the first program closes the connection (\<^verbatim>\<open>recv_buf\<close> takes
  \<open>recv_len <= 0\<close> for an error), the native one keeps it.\<close>

lemma out_eagain_closes:
  assumes "ring_cap_ok m" "ring_inv m (cn_buf c)" "get_exist_size (cn_buf c) = 0" "again e"
    and "\<And>n. k_recv K (cn_fd c) n (w_os w) = (RecvErr e, s)"
  shows "fst (out_program K m EPOLLIN (c, w)) = -1 \<and> fst (out_program_native K m EPOLLIN (c, w)) = 0"
proof -
  have len: "ring_len (cn_buf c) = 0"
    using assms(3) get_exist_size_eq [OF assms(2)] by simp
  have m: "1 < m"
    using ring_capD(1) [OF assms(1)] .
  have ev: "\<not> has EPOLLIN (NOT (EPOLLIN OR EPOLLOUT))" "has EPOLLIN EPOLLIN" "\<not> has EPOLLIN EPOLLOUT"
    by (simp_all add: has_def epoll_flags)
  obtain iov where iov: "get_blank_iovec m (cn_buf c) = (0, iov)"
    by (metis blank_iovec_returns_0 prod.collapse)
  have sys: "sys_recv K (cn_fd c) n w = (RecvErr e, w\<lparr>w_os := s\<rparr>)" for n
    using assms(5) by (simp add: sys_recv_def)
  have room: "get_blank_size m (cn_buf c) = int (m - 1)"
    using get_blank_size_eq [OF assms(2)] len by simp
  have r1: "out_recv_buf K m (c, w) = (-1, c, w\<lparr>w_os := s\<rparr>)"
    using m room iov sys by (simp add: out_recv_buf_def)
  have "iov \<noteq> []"
    using blank_total [OF assms(2)] iov len m by (auto simp: iov_total_def)
  then obtain v vs where v: "iov = v # vs" by (cases iov) auto
  have "0 < iov_len v"
    using blank_iovecs_nonempty [OF assms(2), of v] len m iov v by simp
  then have r2: "out_recv_buf_native K m (c, w) = (0, c, w\<lparr>w_os := s\<rparr>)"
    using m room iov sys assms(4) v by (simp add: out_recv_buf_native_def)
  have s2: "out_send_buf_native K m (c, w') = (0, c, w')" for w'
    using assms(3) by (simp add: out_send_buf_native_def)
  show ?thesis
    using ev r1 r2 s2
    by (simp add: out_program_def out_program_native_def conn_handle_def conn_handle_read_def)
qed

section \<open>Runs\<close>

text \<open>A ring of four cells that has wrapped: the native loop reads into two iovecs.\<close>

definition out_demo_start :: "out_conn \<times> script world" where
  "out_demo_start = out_new 4 (\<lambda>_. 0) 5 3
    (run_world [RecvData [1, 2], RecvData [3, 4], RecvData [5]] [SendLen 2, SendLen 2])"

definition out_demo :: "int \<times> out_conn \<times> script world" where
  "out_demo = deliver (out_program_native script_kernel 4) [EPOLLIN, EPOLLIN] out_demo_start"

definition out_idle :: "out_conn \<times> script world" where
  "out_idle = out_new 4 (\<lambda>_. 0) 5 3 (run_world [] [])"

lemma out_demo_split: "deliver (out_program_native script_kernel 4) [EPOLLIN, EPOLLIN] (out_new 4 (\<lambda>_. 0) 5 3
    (run_world [RecvData [1, 2], RecvData [3, 4], RecvData [5]] [SendLen 2, SendLen 2]))
    = (fst out_demo, fst (snd out_demo), snd (snd out_demo))"
  by (simp add: out_demo_def out_demo_start_def)

lemma out_echo_correct_witness:
  "received_on 5 (w_trace (snd (snd out_demo))) = [1, 2, 3, 4, 5] \<and>
   sent_on 5 (w_trace (snd (snd out_demo))) = [1, 2, 3, 4] \<and> ring_items 4 (cn_buf (fst (snd out_demo))) = [5]"
proof -
  have "received_on 5 (w_trace (snd (snd out_demo))) = [1, 2, 3, 4, 5]"
    "sent_on 5 (w_trace (snd (snd out_demo))) = [1, 2, 3, 4]" by code_simp+
  then show ?thesis
    using out_echo_correct [OF script_kernel_ok ring_cap_4 disjI2 [OF refl] out_demo_split] by simp
qed

lemma out_flag_contract_witness:
  "cn_epollout (fst (snd out_demo)) \<and> interest (w_trace (snd (snd out_demo))) 5 = Some (EPOLLIN OR EPOLLOUT)"
proof -
  have ok: "0 \<le> fst out_demo" "get_exist_size (cn_buf (fst (snd out_demo))) \<noteq> 0" by code_simp+
  from out_flag_contract [OF script_kernel_ok ring_cap_4 disjI2 [OF refl] out_demo_split ok(1)] ok(2)
  show ?thesis by simp
qed

lemma out_eagain_closes_witness:
  "fst (out_program script_kernel 4 EPOLLIN (fst out_idle, snd out_idle)) = -1 \<and>
   fst (out_program_native script_kernel 4 EPOLLIN (fst out_idle, snd out_idle)) = 0"
proof (rule out_eagain_closes [OF ring_cap_4])
  show "ring_inv 4 (cn_buf (fst out_idle))" "get_exist_size (cn_buf (fst out_idle)) = 0" "again EAGAIN"
    by (simp_all add: out_idle_def out_new_def ring_new_inv get_exist_size_def ring_new_def again_def)
      (rule ring_new_inv [OF ring_cap_4, unfolded ring_new_def])
  show "k_recv script_kernel (cn_fd (fst out_idle)) n (w_os (snd out_idle)) = (RecvErr EAGAIN, ([], []))" for n
    by (simp add: script_kernel_def out_idle_def out_new_def run_world_def)
qed

end
