(* ===== verification/Et_Echo.thy ===== *)
theory Et_Echo
  imports Out_Echo
begin

text \<open>
  The edge-triggered echo connection (\<^verbatim>\<open>tcp_echo/server_epollet_epollout_handle.cpp\<close>;
  \<^verbatim>\<open>tcp_echo1/main/server_epoll_et_recvmsg.cpp\<close> is the same class on the shared headers).  All three
  flags EPOLLIN, EPOLLOUT, EPOLLET are registered once and never changed, so the connection keeps
  no interest of its own.  It has no input flow control: a readable event on a full ring closes it.

  The lemmas show the echo equation, that output never gets stuck (bytes stay in the ring only when
  the kernel has refused some, so that an EPOLLOUT edge is still to come), and that an input edge
  is answered by exactly one read.
\<close>

section \<open>The code\<close>

definition et_mask :: u32 where
  "et_mask = EPOLLIN OR EPOLLOUT OR EPOLLET"

definition et_new :: "nat \<Rightarrow> (nat \<Rightarrow> byte) \<Rightarrow> int \<Rightarrow> int \<Rightarrow> 'k world \<Rightarrow> conn \<times> 'k world" where
  "et_new m junk fd epfd w =
    (\<lparr>cn_fd = fd, cn_epfd = epfd, cn_buf = ring_new m junk\<rparr>, emit (CtlAdd fd et_mask) w)"

definition et_recv_buf :: "('k, 'z) kernel_scheme \<Rightarrow> nat \<Rightarrow> ('x conn_scheme, 'k) op" where
  "et_recv_buf K m = (\<lambda>(c, w).
    if get_blank_size m (cn_buf c) \<le> 0 then (-1, c, w)
    else
      let (r, iov) = get_blank_iovec m (cn_buf c) in
      if r < 0 then (0, c, w)
      else case sys_recv K (cn_fd c) (iov_total iov) w of
        (RecvData bs, w1) \<Rightarrow>
          if length bs = 0 then (-1, c, w1)
          else (int (length bs), c\<lparr>cn_buf := add_exist (int (length bs)) (fill_iov iov bs (cn_buf c))\<rparr>, w1)
      | (RecvErr e, w1) \<Rightarrow> (-1, c, w1))"

definition et_send_buf :: "('k, 'z) kernel_scheme \<Rightarrow> nat \<Rightarrow> (conn, 'k) op" where
  "et_send_buf K m = (\<lambda>(c, w).
    if get_exist_size (cn_buf c) \<le> 0 then (0, c, w)
    else
      let (_, iov) = get_exist_iovec m (cn_buf c);
          finish = (\<lambda>send_len w1. (send_len, c\<lparr>cn_buf := add_blank send_len (cn_buf c)\<rparr>, w1)) in
      case sys_send K (cn_fd c) (read_iov iov (cn_buf c)) w of
        (SendLen n, w1) \<Rightarrow> finish (int n) w1
      | (SendErr e, w1) \<Rightarrow> if again e then finish 0 w1 else (-1, c, w1))"

definition et_program :: "('k, 'z) kernel_scheme \<Rightarrow> nat \<Rightarrow> u32 \<Rightarrow> (conn, 'k) op" where
  "et_program K m = conn_handle (conn_handle_read (et_recv_buf K m) (et_send_buf K m))
    (conn_handle_write (et_send_buf K m))"

definition et_class :: "('k, 'z) kernel_scheme \<Rightarrow> nat \<Rightarrow> (nat \<Rightarrow> byte) \<Rightarrow> (conn, 'k) conn_class" where
  "et_class K m junk =
    \<lparr>cc_new = et_new m junk, cc_handle = (\<lambda>ev s. Some (et_program K m ev s)), cc_delete = conn_delete, cc_fd = cn_fd\<rparr>"

section \<open>The contract\<close>

definition et_good :: "nat \<Rightarrow> conn \<Rightarrow> 'k world \<Rightarrow> bool" where
  "et_good m c w \<longleftrightarrow> echo_ok m c w \<and> interest (w_trace w) (cn_fd c) = Some et_mask"

text \<open>The last thing asked of the kernel was to send, and it did not take everything.\<close>

definition send_blocked :: "('k, 'z) kernel_scheme \<Rightarrow> int \<Rightarrow> 'k world \<Rightarrow> bool" where
  "send_blocked K fd w \<longleftrightarrow> (\<exists>bs s res. k_send K fd bs s = (res, w_os w) \<and>
    (case res of SendLen n \<Rightarrow> n < length bs | SendErr e \<Rightarrow> again e))"

definition et_parked :: "('k, 'z) kernel_scheme \<Rightarrow> nat \<Rightarrow> conn \<Rightarrow> 'k world \<Rightarrow> bool" where
  "et_parked K m c w \<longleftrightarrow> et_good m c w \<and> (ring_len (cn_buf c) = 0 \<or> send_blocked K (cn_fd c) w)"

lemma et_goodD:
  assumes "et_good m c w"
  shows "echo_ok m c w" "interest (w_trace w) (cn_fd c) = Some et_mask" "ring_inv m (cn_buf c)"
  using assms by (simp_all add: et_good_def echo_ok_def)

lemma et_good_quiet: "et_good m c w \<Longrightarrow> w_trace w' = w_trace w \<Longrightarrow> et_good m c w'"
  by (simp add: et_good_def echo_ok_def)

lemma et_new_good:
  assumes "ring_cap_ok m" "et_new m junk fd epfd w = (c, w')"
  shows "et_good m c w'" "et_parked K m c w'" "cn_fd c = fd" "only_on fd w w'"
proof -
  have "ring_inv m (ring_new m junk)" "ring_len (ring_new m junk) = 0"
    using ring_new_inv [OF assms(1)] by (simp_all add: ring_new_def ring_len_def)
  then show "et_good m c w'" "et_parked K m c w'" "cn_fd c = fd" "only_on fd w w'"
    using assms(2) by (auto simp: et_new_def et_good_def et_parked_def echo_ok_def)
qed

lemma et_recv_effect: "kernel_ok K \<Longrightarrow> recv_law m (et_recv_buf K m)"
proof (rule recv_lawI)
  fix c :: "'x conn_scheme" and r c' and w w' :: "'a world"
  assume K: "kernel_ok K" and inv: "ring_inv m (cn_buf c)" and run: "et_recv_buf K m (c, w) = (r, c', w')"
  obtain iov where iov: "get_blank_iovec m (cn_buf c) = (0, iov)"
    by (metis blank_iovec_returns_0 prod.collapse)
  obtain res w1 where sys: "sys_recv K (cn_fd c) (iov_total iov) w = (res, w1)"
    by (cases "sys_recv K (cn_fd c) (iov_total iov) w") auto
  show "recv_effect m (c, w) (c', w')"
    by (rule recv_once_effect [OF K inv iov sys])
      (use run iov sys in \<open>cases res; auto simp: et_recv_buf_def split: if_splits\<close>)
qed

lemma et_recv_law:
  assumes K: "kernel_ok K" and good: "et_good m c w" and run: "et_recv_buf K m (c, w) = (r, c', w')"
  shows "et_good m c' w' \<and> cn_fd c' = cn_fd c"
proof -
  note e = recv_lawD [OF et_recv_effect [OF K] et_goodD(3) [OF good] run]
  show ?thesis
    using recv_effect_echo [OF e] recv_effectD(3,5) [OF e] good by (simp add: et_good_def)
qed

lemma et_send_law:
  assumes K: "kernel_ok K" and good: "et_good m c w" and run: "et_send_buf K m (c, w) = (r, c', w')"
  shows "et_good m c' w' \<and> cn_fd c' = cn_fd c \<and> (0 \<le> r \<longrightarrow> et_parked K m c' w')"
proof -
  note inv = et_goodD(3) [OF good]
  obtain x iov where iov: "get_exist_iovec m (cn_buf c) = (x, iov)"
    by (cases "get_exist_iovec m (cn_buf c)") auto
  then have items: "read_iov iov (cn_buf c) = ring_items m (cn_buf c)"
    using read_exist [OF inv] by simp
  let ?bs = "ring_items m (cn_buf c)"
  obtain res s where k: "k_send K (cn_fd c) ?bs (w_os w) = (res, s)"
    by (cases "k_send K (cn_fd c) ?bs (w_os w)") auto
  show ?thesis
  proof (cases "ring_len (cn_buf c) = 0")
    case True
    then show ?thesis
      using run good by (simp add: et_send_buf_def get_exist_size_eq [OF inv] et_parked_def)
  next
    case False
    show ?thesis
    proof (cases res)
      case (SendLen n)
      have n: "n \<le> ring_len (cn_buf c)"
        using kernel_ok_send [OF K k [unfolded SendLen]] by simp
      let ?w = "emit (Sent (cn_fd c) (take n ?bs)) (w\<lparr>w_os := s\<rparr>)"
      have res: "c' = c\<lparr>cn_buf := add_blank (int n) (cn_buf c)\<rparr>" "w' = ?w"
        using run False iov items k SendLen
        by (auto simp: et_send_buf_def get_exist_size_eq [OF inv] sys_send_def)
      have "et_good m c' w'"
        using echo_ok_send [OF et_goodD(1) [OF good] n, of ?w] et_goodD(2) [OF good] res
        by (simp add: et_good_def)
      moreover have "ring_len (cn_buf c') = 0 \<or> n < length ?bs"
        using ring_len_add_blank [OF n] n res(1) by auto
      moreover have "send_blocked K (cn_fd c) w'" if "n < length ?bs"
        unfolding send_blocked_def using k SendLen res(2) that
        by (intro exI [of _ ?bs] exI [of _ "w_os w"] exI [of _ "SendLen n"]) simp
      ultimately show ?thesis
        using res(1) by (auto simp: et_parked_def)
    next
      case (SendErr e)
      then have w': "w' = w\<lparr>w_os := s\<rparr>" "c' = c" "0 \<le> r \<Longrightarrow> again e"
        using run False iov items k
        by (auto simp: et_send_buf_def get_exist_size_eq [OF inv] sys_send_def split: if_splits)
      have "again e \<Longrightarrow> send_blocked K (cn_fd c) w'"
        unfolding send_blocked_def w' using k SendErr by (intro exI [of _ ?bs] exI [of _ "w_os w"] exI [of _ res]) simp
      then show ?thesis
        using et_good_quiet [OF good, of w'] w' by (auto simp: et_parked_def)
    qed
  qed
qed

lemma et_read_law:
  assumes K: "kernel_ok K"
  shows "op_law (et_good m) (et_good m) (conn_handle_read (et_recv_buf K m) (et_send_buf K m))"
    "op_law (et_parked K m) (et_good m) (conn_handle_read (et_recv_buf K m) (et_send_buf K m))"
proof -
  have law: "et_good m c' w' \<and> cn_fd c' = cn_fd c \<and> (0 \<le> r \<longrightarrow> et_parked K m c' w')"
    if good: "et_good m c w" and run: "conn_handle_read (et_recv_buf K m) (et_send_buf K m) (c, w) = (r, c', w')"
    for c r c' and w w' :: "'a world"
  proof -
    obtain n c1 w1 where f: "et_recv_buf K m (c, w) = (n, c1, w1)" by (cases "et_recv_buf K m (c, w)") auto
    obtain k c2 w2 where s: "et_send_buf K m (c1, w1) = (k, c2, w2)" by (cases "et_send_buf K m (c1, w1)") auto
    note R = et_recv_law [OF K good f]
    note S = et_send_law [OF K R [THEN conjunct1] s]
    show ?thesis
      using run f s R S by (auto simp: conn_handle_read_def split: if_splits)
  qed
  have parked: "et_good m c w" if "et_parked K m c w" for c and w :: "'a world"
    using that by (simp add: et_parked_def)
  show "op_law (et_good m) (et_good m) (conn_handle_read (et_recv_buf K m) (et_send_buf K m))"
    by (rule op_lawI, drule (1) law) (simp add: et_parked_def)
  show "op_law (et_parked K m) (et_good m) (conn_handle_read (et_recv_buf K m) (et_send_buf K m))"
    by (rule op_lawI, drule parked, drule (1) law) simp
qed

lemma et_program_law:
  assumes K: "kernel_ok K"
  shows "op_law (et_good m) (et_good m) (et_program K m ev)"
    "op_law (et_parked K m) (et_good m) (et_program K m ev)"
proof -
  have w1: "op_law (et_good m) (et_good m) (et_send_buf K m)"
    by (rule op_lawI) (use et_send_law [OF K] in blast)
  have w2: "op_law (et_parked K m) (et_good m) (et_send_buf K m)"
    by (rule op_lawI) (use et_send_law [OF K] in \<open>unfold et_parked_def, blast\<close>)
  show "op_law (et_good m) (et_good m) (et_program K m ev)"
    unfolding et_program_def by (rule op_law_handle [OF et_read_law(1) [OF K] op_law_write [OF w1]])
  show "op_law (et_parked K m) (et_good m) (et_program K m ev)"
    unfolding et_program_def
    by (rule op_law_handle [OF et_read_law(2) [OF K] op_law_write [OF w2]]) (simp add: et_parked_def)
qed

lemma et_conn_handler:
  assumes "kernel_ok K"
  shows "echo_handler (et_program K m) (et_parked K m) m"
  by (rule op_law_echo_handler [OF et_program_law(2) [OF assms]]) (simp_all add: et_parked_def et_good_def)

sublocale echo_env \<subseteq> et_conn: echo_handler "et_program K m" "et_parked K m" m
  by (rule et_conn_handler [OF kernel])

section \<open>The class the event loop sees\<close>

lemma et_program_only: "op_only (et_program K m ev)"
proof -
  have "op_only (et_recv_buf K m)"
    by (auto simp: op_only_def et_recv_buf_def Let_def split: if_splits prod.splits recv_res.splits
        dest: sys_recv_only)
  moreover have "op_only (et_send_buf K m)"
    by (auto simp: op_only_def et_send_buf_def Let_def split: if_splits prod.splits send_res.splits
        dest: sys_send_only)
  ultimately show ?thesis
    unfolding et_program_def by (intro handle_only handle_read_only handle_write_only)
qed

lemma et_handler_class:
  assumes "kernel_ok K" "ring_cap_ok m"
  shows "handler_class (et_class K m junk) (et_good m)"
  unfolding et_class_def
proof (rule handler_classI [OF et_program_only et_program_law(1) [OF assms(1)]])
  show "et_good m c w' \<and> cn_fd c = fd \<and> only_on fd w w'" if "et_new m junk fd epfd w = (c, w')"
    for fd epfd c and w w' :: "'a world"
    using et_new_good [OF assms(2) that] by simp
  show "et_good m c w'" if "et_good m c w" "only_on g w w'" "g \<noteq> cn_fd c" for c g and w w' :: "'a world"
    using that echo_ok_frame [of m c w g w'] only_on_frame(3) [OF that(2,3)] by (simp add: et_good_def)
qed (simp_all add: et_good_def echo_ok_def)

sublocale echo_env \<subseteq> et_server: handler_class "et_class K m junk" "et_good m" for junk
  by (rule et_handler_class [OF kernel cap])

section \<open>What the connection promises\<close>

lemma et_run:
  assumes "kernel_ok K" "ring_cap_ok m" and run: "deliver (et_program K m) evs (et_new m junk fd epfd w) = (ret, c', w')"
  shows "echo_ok m c' w'" "cn_fd c' = fd" "0 \<le> ret \<Longrightarrow> et_parked K m c' w'"
proof -
  obtain c0 w0 where new: "et_new m junk fd epfd w = (c0, w0)" by (cases "et_new m junk fd epfd w") auto
  note good = et_new_good [OF assms(2) new]
  note law = echo_handler.deliver_correct [OF et_conn_handler [OF assms(1)] good(2) run [unfolded new]]
  show "echo_ok m c' w'" "cn_fd c' = fd" "0 \<le> ret \<Longrightarrow> et_parked K m c' w'"
    using law good(3) by simp_all
qed

text \<open>C11: the edge-triggered server echoes and its output is never stuck.  For every kernel and every sequence
  of events, what a connection has sent followed by what its ring holds is what it has received.  Between
  two events of a live connection, either everything received has been sent back, or the last system
  call was a send that the kernel did not take in full, which is what makes it report an EPOLLOUT edge
  later; and the registration still asks for it.\<close>

theorem et_echo_correct:
  assumes "kernel_ok K" "ring_cap_ok m"
    and "deliver (et_program K m) evs (et_new m junk fd epfd w) = (ret, c', w')"
  shows "sent_on fd (w_trace w') @ ring_items m (cn_buf c') = received_on fd (w_trace w') \<and>
    (0 \<le> ret \<longrightarrow> (sent_on fd (w_trace w') = received_on fd (w_trace w') \<or> send_blocked K fd w') \<and>
      interest (w_trace w') fd = Some (EPOLLIN OR EPOLLOUT OR EPOLLET))"
proof -
  have echo: "sent_on fd (w_trace w') @ ring_items m (cn_buf c') = received_on fd (w_trace w')"
    using et_run(1,2) [OF assms] by (simp add: echo_ok_def)
  have parked: "et_parked K m c' w'" and fd: "cn_fd c' = fd" if "0 \<le> ret"
    using et_run(2,3) [OF assms] that by simp_all
  have "ring_len (cn_buf c') = 0 \<Longrightarrow> ring_items m (cn_buf c') = []"
    by (metis length_0_conv length_ring_items)
  then show ?thesis
    using parked fd echo et_run(1) [OF assms]
    by (auto simp: et_parked_def et_good_def et_mask_def echo_ok_def)
qed

text \<open>an input edge is answered by one read.  A successful EPOLLIN event on a connection makes exactly
  one receive call and one send call, however much more the kernel has to read: the state of the operating
  system afterwards is the one these two calls leave.  (\<^verbatim>\<open>outline.txt\<close> asks an edge-triggered
  reader to read until nothing is left.)\<close>

theorem et_one_read_per_edge:
  assumes "kernel_ok K" "ring_inv m (cn_buf c)" "et_program K m EPOLLIN (c, w) = (0, c', w')"
  shows "\<exists>n bs s ys res. k_recv K (cn_fd c) n (w_os w) = (RecvData bs, s) \<and> 0 < length bs \<and>
    k_send K (cn_fd c) ys s = (res, w_os w') \<and> received_on (cn_fd c) (w_trace w') = received_on (cn_fd c) (w_trace w) @ bs"
proof -
  note inv = assms(2)
  have ev: "\<not> has EPOLLIN (NOT (EPOLLIN OR EPOLLOUT))" "has EPOLLIN EPOLLIN" "\<not> has EPOLLIN EPOLLOUT"
    by (simp_all add: has_def epoll_flags)
  obtain n c1 w1 where f: "et_recv_buf K m (c, w) = (n, c1, w1)" by (cases "et_recv_buf K m (c, w)") auto
  obtain k c2 w2 where s: "et_send_buf K m (c1, w1) = (k, c2, w2)" by (cases "et_send_buf K m (c1, w1)") auto
  have nn: "0 \<le> n" "0 \<le> k" "w' = w2"
    using assms(3) ev f s by (auto simp: et_program_def conn_handle_def conn_handle_read_def split: if_splits)
  obtain iov where iov: "get_blank_iovec m (cn_buf c) = (0, iov)"
    by (metis blank_iovec_returns_0 prod.collapse)
  have pos: "iov_positions iov @ [] = iov_positions (snd (get_blank_iovec m (cn_buf c)))"
    using iov by simp
  obtain bs s1 where rcv: "k_recv K (cn_fd c) (iov_total iov) (w_os w) = (RecvData bs, s1)" "bs \<noteq> []"
    and 1: "c1 = c\<lparr>cn_buf := add_exist (int (length bs)) (fill_iov iov bs (cn_buf c))\<rparr>"
      "w1 = emit (Recvd (cn_fd c) bs) (w\<lparr>w_os := s1\<rparr>)"
    using f nn(1) iov by (auto simp: et_recv_buf_def sys_recv_def split: if_splits prod.splits recv_res.splits)
  have len: "length bs \<le> iov_total iov"
    by (rule kernel_ok_recv [OF assms(1) rcv(1)])
  have "iov_total iov \<le> m - 1 - ring_len (cn_buf c)"
    using blank_total [OF inv] iov by simp
  then have room: "ring_len (cn_buf c) + length bs \<le> m - 1"
    using len ring_len_bound [OF inv] by simp
  have "cn_buf c1 = ring_deposit m bs (cn_buf c)"
    using 1(1) fill_prefix [OF pos len] by simp
  then have inv1: "ring_inv m (cn_buf c1)" and "ring_len (cn_buf c1) \<noteq> 0"
    using ring_deposit_inv [OF inv room] ring_len_deposit [OF inv room] rcv(2) by simp_all
  then have "get_exist_size (cn_buf c1) > 0"
    by (simp add: get_exist_size_eq)
  then obtain ys res where "k_send K (cn_fd c) ys s1 = (res, w_os w2)"
    and "received_on (cn_fd c) (w_trace w2) = received_on (cn_fd c) (w_trace w1)"
    using s nn(2) 1 by (auto simp: et_send_buf_def sys_send_def split: if_splits prod.splits send_res.splits)
  then show ?thesis
    using rcv 1(2) nn(3)
    by (intro exI [of _ "iov_total iov"] exI [of _ bs] exI [of _ s1] exI [of _ ys] exI [of _ res]) simp
qed

section \<open>Runs\<close>

definition et_demo_start :: "conn \<times> script world" where
  "et_demo_start = et_new 4 (\<lambda>_. 0) 5 3 (run_world [RecvData [1, 2, 3], RecvData [4]] [SendLen 2])"

definition et_demo :: "int \<times> conn \<times> script world" where
  "et_demo = deliver (et_program script_kernel 4) [EPOLLIN] et_demo_start"

lemma et_demo_split: "deliver (et_program script_kernel 4) [EPOLLIN]
    (et_new 4 (\<lambda>_. 0) 5 3 (run_world [RecvData [1, 2, 3], RecvData [4]] [SendLen 2]))
    = (fst et_demo, fst (snd et_demo), snd (snd et_demo))"
  by (simp add: et_demo_def et_demo_start_def)

lemma et_echo_correct_witness:
  "received_on 5 (w_trace (snd (snd et_demo))) = [1, 2, 3] \<and> sent_on 5 (w_trace (snd (snd et_demo))) = [1, 2] \<and>
   ring_items 4 (cn_buf (fst (snd et_demo))) = [3] \<and> send_blocked script_kernel 5 (snd (snd et_demo))"
proof -
  have "0 \<le> fst et_demo" "received_on 5 (w_trace (snd (snd et_demo))) = [1, 2, 3]" "sent_on 5 (w_trace (snd (snd et_demo))) = [1, 2]"
    by code_simp+
  then show ?thesis
    using et_echo_correct [OF script_kernel_ok ring_cap_4 et_demo_split] by auto
qed

lemma et_one_read_per_edge_witness:
  "fst (w_os (snd (snd et_demo))) = [RecvData [4]] \<and>
   (\<exists>bs. 0 < length bs \<and> received_on 5 (w_trace (snd (snd et_demo))) = received_on 5 (w_trace (snd et_demo_start)) @ bs)"
proof -
  have *: "fst et_demo = 0" "cn_fd (fst et_demo_start) = 5" "fst (w_os (snd (snd et_demo))) = [RecvData [4]]"
    by code_simp+
  have step: "et_program script_kernel 4 EPOLLIN et_demo_start = et_demo"
    by code_simp
  have inv: "ring_inv 4 (cn_buf (fst et_demo_start))"
    by (simp add: et_demo_start_def et_new_def ring_new_inv)
  have "et_program script_kernel 4 EPOLLIN (fst et_demo_start, snd et_demo_start) = (0, fst (snd et_demo), snd (snd et_demo))"
    using *(1) step by (simp add: prod_eq_iff)
  from et_one_read_per_edge [OF script_kernel_ok inv this] show ?thesis
    using * by auto
qed

end
