(* ===== verification/Response.thy ===== *)
theory Response
  imports Et_Echo
begin

text \<open>
  The request/response servers (\<^verbatim>\<open>tcp_echo/server_epollout_response.cpp\<close>, level-triggered, and
  \<^verbatim>\<open>server_epollet_epollout_response.cpp\<close>, edge-triggered).  Every 8 bytes received are a request;
  every request is answered with the whole array \<^verbatim>\<open>response_buf\<close> (256 MiB), whose unsent part is the
  pair \<open>(response_cnt, response_pos)\<close>: so many whole responses to come, and the position in the
  current one.  \<open>resp\<close> is the array; the lemmas hold for every one that is not empty.

  \<^verbatim>\<open>send_response\<close> loops until the kernel takes nothing; the model is the loop itself, as a
  partial function, and the lemmas show that it returns (each round sends something or leaves), that
  the bytes sent are exactly the responses to the complete requests received, and that EPOLLOUT is on
  exactly while some are pending.
\<close>

section \<open>The code\<close>

record rsp_conn = conn +
  rc_cnt :: int
  rc_pos :: int

record lt_rsp_conn = rsp_conn +
  rc_epollout :: bool

definition lt_rsp_new :: "nat \<Rightarrow> byte list \<Rightarrow> (nat \<Rightarrow> byte) \<Rightarrow> int \<Rightarrow> int \<Rightarrow> 'k world \<Rightarrow> lt_rsp_conn \<times> 'k world" where
  "lt_rsp_new m resp junk fd epfd w =
    (\<lparr>cn_fd = fd, cn_epfd = epfd, cn_buf = ring_new m junk, rc_cnt = 0, rc_pos = int (length resp),
      rc_epollout = False\<rparr>, emit (CtlAdd fd EPOLLIN) w)"

definition et_rsp_new :: "nat \<Rightarrow> byte list \<Rightarrow> (nat \<Rightarrow> byte) \<Rightarrow> int \<Rightarrow> int \<Rightarrow> 'k world \<Rightarrow> rsp_conn \<times> 'k world" where
  "et_rsp_new m resp junk fd epfd w =
    (\<lparr>cn_fd = fd, cn_epfd = epfd, cn_buf = ring_new m junk, rc_cnt = 0, rc_pos = int (length resp)\<rparr>,
     emit (CtlAdd fd et_mask) w)"

definition rsp_set_epollout :: "bool \<Rightarrow> lt_rsp_conn \<times> 'k world \<Rightarrow> lt_rsp_conn \<times> 'k world" where
  "rsp_set_epollout flag = (\<lambda>(c, w). (c\<lparr>rc_epollout := flag\<rparr>, emit (CtlMod (cn_fd c) (out_mask flag)) w))"

text \<open>
  The loop of \<^verbatim>\<open>send_response\<close>.  The files differ in what happens when everything is sent
  (\<open>finished\<close>) and when the kernel takes nothing (\<open>blocked\<close>).
\<close>

partial_function (option) send_response ::
  "('k, 'z) kernel_scheme \<Rightarrow> byte list \<Rightarrow> ('x rsp_conn_scheme \<times> 'k world \<Rightarrow> 'x rsp_conn_scheme \<times> 'k world) \<Rightarrow>
    ('x rsp_conn_scheme \<times> 'k world \<Rightarrow> 'x rsp_conn_scheme \<times> 'k world) \<Rightarrow>
    'x rsp_conn_scheme \<times> 'k world \<Rightarrow> (int \<times> 'x rsp_conn_scheme \<times> 'k world) option" where
  [code]: "send_response K resp finished blocked s =
    (case s of (c, w) \<Rightarrow>
      if 0 < rc_cnt c \<or> rc_pos c < int (length resp) then
        let c1 = (if rc_pos c = int (length resp) \<and> 0 < rc_cnt c then c\<lparr>rc_cnt := rc_cnt c - 1, rc_pos := 0\<rparr> else c);
            (res, w1) = sys_send K (cn_fd c1) (drop (nat (rc_pos c1)) resp) w;
            taken = (case res of SendLen n \<Rightarrow> Some n | SendErr e \<Rightarrow> if again e then Some 0 else None) in
        (case taken of
          None \<Rightarrow> Some (-1, c1, w1)
        | Some send_len \<Rightarrow>
            let c2 = c1\<lparr>rc_pos := rc_pos c1 + int send_len\<rparr> in
            if rc_cnt c2 = 0 \<and> rc_pos c2 = int (length resp) then
              send_response K resp finished blocked (finished (c2, w1))
            else if send_len = 0 then Some (0, blocked (c2, w1))
            else send_response K resp finished blocked (c2, w1))
      else Some (0, c, w))"

text \<open>The loop of \<^verbatim>\<open>recv_request\<close> that turns every 8 buffered bytes into a pending response.\<close>

function take_requests :: "'x rsp_conn_scheme \<Rightarrow> 'x rsp_conn_scheme" where
  "take_requests c =
    (if 8 \<le> get_exist_size (cn_buf c)
     then take_requests (c\<lparr>rc_cnt := rc_cnt c + 1, cn_buf := add_blank 8 (cn_buf c)\<rparr>)
     else c)"
  by auto

termination take_requests
  by (relation "measure (\<lambda>c. nat (get_exist_size (cn_buf c)))")
    (auto simp: get_exist_size_def add_blank_def u64_of_int_def diff_diff_eq [symmetric] int_of_u64_minus_8)

declare take_requests.simps [simp del]

type_synonym ('c, 'k) opt_op = "'c \<times> 'k world \<Rightarrow> (int \<times> 'c \<times> 'k world) option"

definition recv_request :: "('x rsp_conn_scheme, 'k) op \<Rightarrow> ('x rsp_conn_scheme, 'k) opt_op \<Rightarrow>
    ('x rsp_conn_scheme, 'k) opt_op" where
  "recv_request rcv sd s =
    (case rcv s of (r, c1, w1) \<Rightarrow>
      if r < 0 then Some (-1, c1, w1)
      else Option.bind (sd (take_requests c1, w1)) (\<lambda>(r2, s2). Some (if r2 < 0 then -1 else 0, s2)))"

definition rsp_handle_read :: "('c, 'k) opt_op \<Rightarrow> ('c, 'k) opt_op" where
  "rsp_handle_read request s = Option.bind (request s) (\<lambda>(r, s1). Some (if r < 0 then -1 else 0, s1))"

definition rsp_handle_write :: "('c, 'k) opt_op \<Rightarrow> ('c, 'k) opt_op" where
  "rsp_handle_write sd s = Option.bind (sd s) (\<lambda>(r, s1). Some (if r < 0 then -1 else 0, s1))"

definition rsp_handle :: "('c, 'k) opt_op \<Rightarrow> ('c, 'k) opt_op \<Rightarrow> u32 \<Rightarrow> ('c, 'k) opt_op" where
  "rsp_handle rd wr ev s =
    (if has ev (NOT (EPOLLIN OR EPOLLOUT)) then Some (-1, s)
     else Option.bind (if has ev EPOLLOUT then wr s else Some (0, s)) (\<lambda>(ret, s1).
       if ret < 0 then Some (ret, s1)
       else Option.bind (if has ev EPOLLIN then rd s1 else Some (0, s1)) (\<lambda>(ret, s2).
         if ret < 0 then Some (ret, s2) else Some (0, s2))))"

text \<open>The level-triggered file adjusts EPOLLOUT; in the edge-triggered one these lines are commented out.\<close>

definition lt_rsp_finished :: "lt_rsp_conn \<times> 'k world \<Rightarrow> lt_rsp_conn \<times> 'k world" where
  "lt_rsp_finished s = (if rc_epollout (fst s) then rsp_set_epollout False s else s)"

definition lt_rsp_blocked :: "lt_rsp_conn \<times> 'k world \<Rightarrow> lt_rsp_conn \<times> 'k world" where
  "lt_rsp_blocked s = (if \<not> rc_epollout (fst s) then rsp_set_epollout True s else s)"

definition lt_send_response :: "('k, 'z) kernel_scheme \<Rightarrow> byte list \<Rightarrow> (lt_rsp_conn, 'k) opt_op" where
  "lt_send_response K resp = send_response K resp lt_rsp_finished lt_rsp_blocked"

definition et_send_response :: "('k, 'z) kernel_scheme \<Rightarrow> byte list \<Rightarrow> (rsp_conn, 'k) opt_op" where
  "et_send_response K resp = send_response K resp (\<lambda>s. s) (\<lambda>s. s)"

definition lt_rsp_program :: "('k, 'z) kernel_scheme \<Rightarrow> nat \<Rightarrow> byte list \<Rightarrow> u32 \<Rightarrow> (lt_rsp_conn, 'k) opt_op" where
  "lt_rsp_program K m resp = rsp_handle
    (rsp_handle_read (recv_request (out_recv_buf_native K m) (lt_send_response K resp)))
    (rsp_handle_write (lt_send_response K resp))"

definition et_rsp_program :: "('k, 'z) kernel_scheme \<Rightarrow> nat \<Rightarrow> byte list \<Rightarrow> u32 \<Rightarrow> (rsp_conn, 'k) opt_op" where
  "et_rsp_program K m resp = rsp_handle
    (rsp_handle_read (recv_request (et_recv_buf K m) (et_send_response K resp)))
    (rsp_handle_write (et_send_response K resp))"

section \<open>The contract\<close>

text \<open>The bytes still owed: the rest of the current response and the whole ones to come.\<close>

definition owed :: "byte list \<Rightarrow> 'x rsp_conn_scheme \<Rightarrow> byte list" where
  "owed resp c = drop (nat (rc_pos c)) resp @ concat (replicate (nat (rc_cnt c)) resp)"

definition rsp_range :: "byte list \<Rightarrow> 'x rsp_conn_scheme \<Rightarrow> bool" where
  "rsp_range resp c \<longleftrightarrow> 0 \<le> rc_cnt c \<and> 0 \<le> rc_pos c \<and> rc_pos c \<le> int (length resp)"

lemma owed_Nil:
  assumes "rsp_range resp c" "resp \<noteq> []"
  shows "owed resp c = [] \<longleftrightarrow> rc_cnt c = 0 \<and> rc_pos c = int (length resp)"
  using assms by (auto simp: owed_def rsp_range_def)

lemma owed_loop: "rsp_range resp c \<Longrightarrow> resp \<noteq> [] \<Longrightarrow>
    (0 < rc_cnt c \<or> rc_pos c < int (length resp)) = (owed resp c \<noteq> [])"
  by (auto simp: owed_Nil) (auto simp: rsp_range_def)

text \<open>What \<open>finished\<close> and \<open>blocked\<close> may do: change the interest that the object remembers in step with
  the one registered (\<open>reg\<close>), and nothing else.\<close>

definition quiet_op :: "('x rsp_conn_scheme \<Rightarrow> u32) \<Rightarrow>
    ('x rsp_conn_scheme \<times> 'k world \<Rightarrow> 'x rsp_conn_scheme \<times> 'k world) \<Rightarrow> bool" where
  "quiet_op reg f \<longleftrightarrow> (\<forall>c w c' w'. f (c, w) = (c', w') \<longrightarrow>
    cn_fd c' = cn_fd c \<and> cn_buf c' = cn_buf c \<and> rc_cnt c' = rc_cnt c \<and> rc_pos c' = rc_pos c \<and>
    w_os w' = w_os w \<and> only_on (cn_fd c) w w' \<and>
    sent_on (cn_fd c) (w_trace w') = sent_on (cn_fd c) (w_trace w) \<and>
    received_on (cn_fd c) (w_trace w') = received_on (cn_fd c) (w_trace w) \<and>
    (interest (w_trace w) (cn_fd c) = Some (reg c) \<longrightarrow> interest (w_trace w') (cn_fd c) = Some (reg c')))"

lemma quiet_opD:
  assumes "quiet_op reg f" "f (c, w) = (c', w')"
  shows "cn_fd c' = cn_fd c" "cn_buf c' = cn_buf c" "rc_cnt c' = rc_cnt c" "rc_pos c' = rc_pos c"
    "w_os w' = w_os w" "only_on (cn_fd c) w w'"
    "sent_on (cn_fd c) (w_trace w') = sent_on (cn_fd c) (w_trace w)"
    "received_on (cn_fd c) (w_trace w') = received_on (cn_fd c) (w_trace w)"
    "interest (w_trace w) (cn_fd c) = Some (reg c) \<Longrightarrow> interest (w_trace w') (cn_fd c) = Some (reg c')"
  using assms unfolding quiet_op_def by metis+

locale responder =
  fixes finished blocked :: "'x rsp_conn_scheme \<times> 'k world \<Rightarrow> 'x rsp_conn_scheme \<times> 'k world"
    and reg :: "'x rsp_conn_scheme \<Rightarrow> u32"
  assumes quiet_finished: "quiet_op reg finished"
    and quiet_blocked: "quiet_op reg blocked"
    and reg_frame: "reg (c\<lparr>rc_cnt := a\<rparr>) = reg c" "reg (c\<lparr>rc_pos := b\<rparr>) = reg c"
      "reg (c\<lparr>cn_buf := r\<rparr>) = reg c"

text \<open>One round, or several, of the loop: bytes move from what is owed to what is sent.\<close>

definition rsp_moves :: "('x rsp_conn_scheme \<Rightarrow> u32) \<Rightarrow> byte list \<Rightarrow> 'x rsp_conn_scheme \<times> 'k world \<Rightarrow>
    'x rsp_conn_scheme \<times> 'k world \<Rightarrow> bool" where
  "rsp_moves reg resp = (\<lambda>(c, w) (c', w').
    cn_fd c' = cn_fd c \<and> cn_buf c' = cn_buf c \<and> rsp_range resp c' \<and> only_on (cn_fd c) w w' \<and>
    received_on (cn_fd c) (w_trace w') = received_on (cn_fd c) (w_trace w) \<and>
    sent_on (cn_fd c) (w_trace w') @ owed resp c' = sent_on (cn_fd c) (w_trace w) @ owed resp c \<and>
    interest (w_trace w') (cn_fd c) = Some (reg c'))"

lemma rsp_movesD:
  assumes "rsp_moves reg resp (c, w) (c', w')"
  shows "cn_fd c' = cn_fd c" "cn_buf c' = cn_buf c" "rsp_range resp c'" "only_on (cn_fd c) w w'"
    "received_on (cn_fd c) (w_trace w') = received_on (cn_fd c) (w_trace w)"
    "sent_on (cn_fd c) (w_trace w') @ owed resp c' = sent_on (cn_fd c) (w_trace w) @ owed resp c"
    "interest (w_trace w') (cn_fd c) = Some (reg c')"
  using assms unfolding rsp_moves_def by simp_all

lemma rsp_moves_trans:
  assumes "rsp_moves reg resp (c, w) (c1, w1)" "rsp_moves reg resp (c1, w1) (c2, w2)"
  shows "rsp_moves reg resp (c, w) (c2, w2)"
  using rsp_movesD [OF assms(1)] rsp_movesD [OF assms(2)] only_on_trans
  unfolding rsp_moves_def by auto

lemma owed_next:
  assumes "rsp_range resp c" "rc_pos c = int (length resp)" "0 < rc_cnt c"
  shows "owed resp (c\<lparr>rc_cnt := rc_cnt c - 1, rc_pos := 0\<rparr>) = owed resp c"
    "rsp_range resp (c\<lparr>rc_cnt := rc_cnt c - 1, rc_pos := 0\<rparr>)"
proof -
  have "nat (rc_cnt c) = Suc (nat (rc_cnt c - 1))"
    using assms(3) by simp
  then show "owed resp (c\<lparr>rc_cnt := rc_cnt c - 1, rc_pos := 0\<rparr>) = owed resp c"
    using assms(2) by (simp add: owed_def)
  show "rsp_range resp (c\<lparr>rc_cnt := rc_cnt c - 1, rc_pos := 0\<rparr>)"
    using assms(3) by (simp add: rsp_range_def)
qed

lemma owed_advance:
  assumes "rsp_range resp c" "n \<le> length (drop (nat (rc_pos c)) resp)"
  shows "owed resp c = take n (drop (nat (rc_pos c)) resp) @ owed resp (c\<lparr>rc_pos := rc_pos c + int n\<rparr>)"
    "rsp_range resp (c\<lparr>rc_pos := rc_pos c + int n\<rparr>)"
proof -
  have "nat (rc_pos c + int n) = n + nat (rc_pos c)"
    using assms(1) by (simp add: rsp_range_def nat_add_distrib)
  then have "drop (nat (rc_pos c)) resp
      = take n (drop (nat (rc_pos c)) resp) @ drop (nat (rc_pos c + int n)) resp"
    by (metis append_take_drop_id drop_drop)
  then show "owed resp c = take n (drop (nat (rc_pos c)) resp) @ owed resp (c\<lparr>rc_pos := rc_pos c + int n\<rparr>)"
    unfolding owed_def by simp
  show "rsp_range resp (c\<lparr>rc_pos := rc_pos c + int n\<rparr>)"
    using assms by (auto simp: rsp_range_def)
qed

text \<open>How the loop ends: nothing was owed, everything has been sent, or the kernel took nothing.\<close>

definition send_refused :: "('k, 'z) kernel_scheme \<Rightarrow> int \<Rightarrow> 'k world \<Rightarrow> bool" where
  "send_refused K fd w \<longleftrightarrow> (\<exists>bs s res. bs \<noteq> [] \<and> k_send K fd bs s = (res, w_os w) \<and>
    (case res of SendLen n \<Rightarrow> n = 0 | SendErr e \<Rightarrow> again e))"

definition rsp_exit :: "('k, 'z) kernel_scheme \<Rightarrow> byte list \<Rightarrow>
    ('x rsp_conn_scheme \<times> 'k world \<Rightarrow> 'x rsp_conn_scheme \<times> 'k world) \<Rightarrow>
    ('x rsp_conn_scheme \<times> 'k world \<Rightarrow> 'x rsp_conn_scheme \<times> 'k world) \<Rightarrow>
    'x rsp_conn_scheme \<times> 'k world \<Rightarrow> 'x rsp_conn_scheme \<times> 'k world \<Rightarrow> bool" where
  "rsp_exit K resp finished blocked s s' \<longleftrightarrow>
    owed resp (fst s) = [] \<and> s' = s \<or> owed resp (fst s') = [] \<and> s' \<in> range finished \<or>
    owed resp (fst s') \<noteq> [] \<and> s' \<in> range blocked \<and> send_refused K (cn_fd (fst s')) (snd s')"

lemma send_response_done:
  "rsp_range resp c \<Longrightarrow> resp \<noteq> [] \<Longrightarrow> owed resp c = [] \<Longrightarrow>
    send_response K resp finished blocked (c, w) = Some (0, c, w)"
  by (subst send_response.simps) (simp add: owed_Nil)

context responder
begin

lemma quiet_moves:
  assumes "quiet_op reg f" "f (c, w) = (c', w')" "rsp_range resp c" "interest (w_trace w) (cn_fd c) = Some (reg c)"
  shows "rsp_moves reg resp (c, w) (c', w')" "owed resp c' = owed resp c" "w_os w' = w_os w"
  using quiet_opD [OF assms(1,2)] assms(3,4) by (simp_all add: rsp_moves_def owed_def rsp_range_def)

text \<open>What one send does to the connection \<open>c1\<close> that the round starts with.\<close>

lemma sent_moves:
  assumes range: "rsp_range resp c1" and n: "n \<le> length (drop (nat (rc_pos c1)) resp)"
    and reg: "interest (w_trace w) (cn_fd c1) = Some (reg c1)"
    and tr: "w_trace w1 = w_trace w @ [Sent (cn_fd c1) (take n (drop (nat (rc_pos c1)) resp))] \<or>
      n = 0 \<and> w_trace w1 = w_trace w"
  shows "rsp_moves reg resp (c1, w) (c1\<lparr>rc_pos := rc_pos c1 + int n\<rparr>, w1)"
  using owed_advance [OF range n] reg reg_frame(2) tr
  by (auto simp: rsp_moves_def only_on_event only_on_quiet)

lemma send_response_law:
  assumes K: "kernel_ok K" and resp: "resp \<noteq> []"
  shows "rsp_range resp c \<Longrightarrow> interest (w_trace w) (cn_fd c) = Some (reg c) \<Longrightarrow>
    \<exists>r c' w'. send_response K resp finished blocked (c, w) = Some (r, c', w') \<and>
      rsp_moves reg resp (c, w) (c', w') \<and> (0 \<le> r \<longrightarrow> rsp_exit K resp finished blocked (c, w) (c', w'))"
proof (induction "length (owed resp c)" arbitrary: c w rule: less_induct)
  case less
  show ?case
  proof (cases "owed resp c = []")
    case True
    then show ?thesis
      using less.prems send_response_done [OF less.prems(1) resp True, of K finished blocked w]
      by (auto simp: rsp_moves_def rsp_exit_def)
  next
    case False
    define c1 where "c1 = (if rc_pos c = int (length resp) \<and> 0 < rc_cnt c
      then c\<lparr>rc_cnt := rc_cnt c - 1, rc_pos := 0\<rparr> else c)"
    let ?bs = "drop (nat (rc_pos c1)) resp"
    have c1: "owed resp c1 = owed resp c" "rsp_range resp c1" "cn_fd c1 = cn_fd c" "cn_buf c1 = cn_buf c"
      "reg c1 = reg c"
      using owed_next [OF less.prems(1)] less.prems(1) reg_frame unfolding c1_def by auto
    have loop: "0 < rc_cnt c \<or> rc_pos c < int (length resp)"
      using owed_loop [OF less.prems(1) resp] False by simp
    have pos: "rc_pos c1 < int (length resp)"
      using loop less.prems(1) resp by (auto simp: c1_def rsp_range_def)
    then have bs: "?bs \<noteq> []"
      using c1(2) by (auto simp: rsp_range_def)
    have start: "rsp_moves reg resp (c, w) (c1, w)"
      using c1 less.prems(2) by (simp add: rsp_moves_def)
    have reg1: "interest (w_trace w) (cn_fd c1) = Some (reg c1)"
      using less.prems(2) c1 by simp
    obtain res w1 where sys: "sys_send K (cn_fd c1) ?bs w = (res, w1)"
      by (cases "sys_send K (cn_fd c1) ?bs w") auto
    have unfold: "send_response K resp finished blocked (c, w) =
      (case (case res of SendLen n \<Rightarrow> Some n | SendErr e \<Rightarrow> if again e then Some 0 else None) of
          None \<Rightarrow> Some (-1, c1, w1)
        | Some send_len \<Rightarrow>
            let c2 = c1\<lparr>rc_pos := rc_pos c1 + int send_len\<rparr> in
            if rc_cnt c2 = 0 \<and> rc_pos c2 = int (length resp) then
              send_response K resp finished blocked (finished (c2, w1))
            else if send_len = 0 then Some (0, blocked (c2, w1))
            else send_response K resp finished blocked (c2, w1))"
      by (subst send_response.simps) (simp add: loop c1_def [symmetric] sys Let_def cong: option.case_cong)
    have goon: "\<exists>r c' w'. send_response K resp finished blocked (c, w) = Some (r, c', w') \<and>
        rsp_moves reg resp (c, w) (c', w') \<and> (0 \<le> r \<longrightarrow> rsp_exit K resp finished blocked (c, w) (c', w'))"
      if n: "n \<le> length ?bs" and taken: "(case res of SendLen n \<Rightarrow> Some n | SendErr e \<Rightarrow> if again e then Some 0 else None) = Some n"
        and tr: "w_trace w1 = w_trace w @ [Sent (cn_fd c1) (take n ?bs)] \<or> n = 0 \<and> w_trace w1 = w_trace w"
        and none: "n = 0 \<Longrightarrow> send_refused K (cn_fd c) w1" for n
    proof -
      let ?c2 = "c1\<lparr>rc_pos := rc_pos c1 + int n\<rparr>"
      have moves: "rsp_moves reg resp (c, w) (?c2, w1)"
        by (rule rsp_moves_trans [OF start sent_moves [OF c1(2) n reg1 tr]])
      note D = rsp_movesD [OF moves]
      have reg2: "interest (w_trace w1) (cn_fd ?c2) = Some (reg ?c2)"
        using D(1,7) by simp
      have left: "length (owed resp ?c2) + n = length (owed resp c)"
        using arg_cong [OF owed_advance(1) [OF c1(2) n], of length] c1(1) n by simp
      note empty = owed_Nil [OF D(3) resp]
      consider (all) "owed resp ?c2 = []" | (stop) "owed resp ?c2 \<noteq> []" "n = 0" | (more) "owed resp ?c2 \<noteq> []" "0 < n"
        by blast
      then show ?thesis
      proof cases
        case all
        obtain c3 w3 where f: "finished (?c2, w1) = (c3, w3)" by (cases "finished (?c2, w1)") auto
        note q = quiet_moves [OF quiet_finished f D(3) reg2]
        have "send_response K resp finished blocked (c, w) = Some (0, c3, w3)"
          using unfold taken empty all f send_response_done [OF rsp_movesD(3) [OF q(1)] resp] q(2) by simp
        moreover have "(c3, w3) \<in> range finished"
          using f by (metis rangeI)
        ultimately show ?thesis
          using rsp_moves_trans [OF moves q(1)] q(2) all by (auto simp: rsp_exit_def)
      next
        case stop
        obtain c3 w3 where f: "blocked (?c2, w1) = (c3, w3)" by (cases "blocked (?c2, w1)") auto
        note q = quiet_moves [OF quiet_blocked f D(3) reg2]
        have "send_response K resp finished blocked (c, w) = Some (0, c3, w3)"
          using unfold taken empty stop f by auto
        moreover have "(c3, w3) \<in> range blocked"
          using f by (metis rangeI)
        moreover have "send_refused K (cn_fd c3) w3"
          using none [OF stop(2)] q(3) rsp_movesD(1) [OF q(1)] D(1) by (simp add: send_refused_def)
        ultimately show ?thesis
          using rsp_moves_trans [OF moves q(1)] q(2) stop(1) by (auto simp: rsp_exit_def)
      next
        case more
        have eq: "send_response K resp finished blocked (c, w) = send_response K resp finished blocked (?c2, w1)"
          using unfold taken empty more by auto
        obtain r c' w' where ih: "send_response K resp finished blocked (?c2, w1) = Some (r, c', w')"
            "rsp_moves reg resp (?c2, w1) (c', w')" "0 \<le> r \<longrightarrow> rsp_exit K resp finished blocked (?c2, w1) (c', w')"
          using less.hyps [of ?c2 w1] left more(2) D(3) reg2 by auto
        have "0 \<le> r \<longrightarrow> rsp_exit K resp finished blocked (c, w) (c', w')"
          using ih(3) more(1) by (auto simp: rsp_exit_def)
        then show ?thesis
          using eq ih(1) rsp_moves_trans [OF moves ih(2)] by auto
      qed
    qed
    show ?thesis
      using K sys
    proof (cases rule: sys_send_cases)
      case (sent n)
      have "send_refused K (cn_fd c) w1" if "n = 0"
        using sys sent(1) that c1(3) bs
        by (auto simp: send_refused_def sys_send_def split: prod.splits send_res.splits
            intro!: exI [of _ ?bs] exI [of _ "w_os w"] exI [of _ "SendLen 0"])
      then show ?thesis
        using goon [OF sent(2)] sent(1,3) by simp
    next
      case (error e)
      show ?thesis
      proof (cases "again e")
        case True
        have "send_refused K (cn_fd c) w1"
          using error(3) True c1(3) bs by (auto simp: send_refused_def intro!: exI [of _ ?bs] exI [of _ "w_os w"] exI [of _ "SendErr e"])
        then show ?thesis
          using goon [of 0] error(1,2) True by simp
      next
        case F: False
        have "rsp_moves reg resp (c1, w) (c1, w1)"
          using c1(2) reg1 error(2) by (simp add: rsp_moves_def only_on_quiet)
        then show ?thesis
          using unfold error(1) F rsp_moves_trans [OF start] by auto
      qed
    qed
  qed
qed

end

section \<open>Requests\<close>

text \<open>\<open>n\<close> requests are complete; the bytes owed complete their responses.\<close>

definition rsp_ok :: "('x rsp_conn_scheme \<Rightarrow> u32) \<Rightarrow> nat \<Rightarrow> byte list \<Rightarrow> 'x rsp_conn_scheme \<Rightarrow> 'k world \<Rightarrow> bool" where
  "rsp_ok reg m resp c w \<longleftrightarrow> ring_inv m (cn_buf c) \<and> rsp_range resp c \<and>
    interest (w_trace w) (cn_fd c) = Some (reg c) \<and>
    (\<exists>n. length (received_on (cn_fd c) (w_trace w)) = 8 * n + ring_len (cn_buf c) \<and>
      sent_on (cn_fd c) (w_trace w) @ owed resp c = concat (replicate n resp))"

lemma rsp_okD:
  assumes "rsp_ok reg m resp c w"
  shows "ring_inv m (cn_buf c)" "rsp_range resp c" "interest (w_trace w) (cn_fd c) = Some (reg c)"
    "\<exists>n. length (received_on (cn_fd c) (w_trace w)) = 8 * n + ring_len (cn_buf c) \<and>
      sent_on (cn_fd c) (w_trace w) @ owed resp c = concat (replicate n resp)"
  using assms unfolding rsp_ok_def by blast+

lemma take_requests_law:
  "ring_inv m (cn_buf c) \<Longrightarrow> \<exists>r. take_requests c = c\<lparr>rc_cnt := rc_cnt c + int (ring_len (cn_buf c) div 8), cn_buf := r\<rparr> \<and>
    ring_inv m r \<and> ring_len r = ring_len (cn_buf c) mod 8"
proof (induction c rule: take_requests.induct)
  case (1 c)
  show ?case
  proof (cases "8 \<le> ring_len (cn_buf c)")
    case True
    let ?r = "ring_consume 8 (cn_buf c)"
    let ?c = "c\<lparr>rc_cnt := rc_cnt c + 1, cn_buf := add_blank 8 (cn_buf c)\<rparr>"
    have r: "add_blank 8 (cn_buf c) = ?r" "ring_inv m ?r" "ring_len ?r = ring_len (cn_buf c) - 8"
      using ring_consume_inv [OF 1(2) True] ring_len_consume [OF True] by (simp_all add: ring_consume_def)
    have "8 \<le> get_exist_size (cn_buf c)"
      using True get_exist_size_eq [OF 1(2)] by simp
    then obtain r where ih: "take_requests ?c = ?c\<lparr>rc_cnt := rc_cnt ?c + int (ring_len (cn_buf ?c) div 8), cn_buf := r\<rparr>"
        "ring_inv m r" "ring_len r = ring_len (cn_buf ?c) mod 8"
      using 1(1) r by auto
    have "take_requests c = take_requests ?c"
      using \<open>8 \<le> get_exist_size (cn_buf c)\<close> by (subst take_requests.simps) simp
    moreover have "ring_len (cn_buf c) div 8 = Suc (ring_len (cn_buf ?c) div 8)"
      "ring_len (cn_buf c) mod 8 = ring_len (cn_buf ?c) mod 8"
      using r True le_div_geq [of 8 "ring_len (cn_buf c)"] le_mod_geq [of 8 "ring_len (cn_buf c)"] by simp_all
    ultimately show ?thesis
      using ih by (intro exI [of _ r]) simp
  next
    case False
    then have "take_requests c = c"
      using get_exist_size_eq [OF 1(2)] by (subst take_requests.simps) simp
    then show ?thesis
      using False 1(2) by (intro exI [of _ "cn_buf c"]) simp
  qed
qed

lemma owed_take_requests:
  assumes "ring_inv m (cn_buf c)" "rsp_range resp c"
  shows "owed resp (take_requests c) = owed resp c @ concat (replicate (ring_len (cn_buf c) div 8) resp)"
    "rsp_range resp (take_requests c)" "cn_fd (take_requests c) = cn_fd c"
    "ring_inv m (cn_buf (take_requests c))" "ring_len (cn_buf (take_requests c)) = ring_len (cn_buf c) mod 8"
proof -
  obtain r where r: "take_requests c = c\<lparr>rc_cnt := rc_cnt c + int (ring_len (cn_buf c) div 8), cn_buf := r\<rparr>"
    "ring_inv m r" "ring_len r = ring_len (cn_buf c) mod 8"
    using take_requests_law [OF assms(1)] by blast
  have "nat (rc_cnt c + int (ring_len (cn_buf c) div 8)) = nat (rc_cnt c) + ring_len (cn_buf c) div 8"
    using assms(2) by (simp add: rsp_range_def nat_add_distrib)
  then show "owed resp (take_requests c) = owed resp c @ concat (replicate (ring_len (cn_buf c) div 8) resp)"
    "rsp_range resp (take_requests c)" "cn_fd (take_requests c) = cn_fd c"
    "ring_inv m (cn_buf (take_requests c))" "ring_len (cn_buf (take_requests c)) = ring_len (cn_buf c) mod 8"
    using r assms(2) by (simp_all add: owed_def rsp_range_def replicate_add)
qed

section \<open>The handlers\<close>

definition opt_law :: "('x conn_scheme \<Rightarrow> 'k world \<Rightarrow> bool) \<Rightarrow> ('x conn_scheme \<Rightarrow> 'k world \<Rightarrow> bool) \<Rightarrow>
    ('x conn_scheme, 'k) opt_op \<Rightarrow> bool" where
  "opt_law good base f \<longleftrightarrow> (\<forall>c w. good c w \<longrightarrow> (\<exists>r c' w'. f (c, w) = Some (r, c', w') \<and>
    base c' w' \<and> cn_fd c' = cn_fd c \<and> only_on (cn_fd c) w w' \<and> (0 \<le> r \<longrightarrow> good c' w')))"

lemma opt_lawE:
  assumes "opt_law good base f" "good c w"
  obtains r c' w' where "f (c, w) = Some (r, c', w')" "base c' w'" "cn_fd c' = cn_fd c" "only_on (cn_fd c) w w'"
    "0 \<le> r \<Longrightarrow> good c' w'"
  using assms unfolding opt_law_def by blast

lemma opt_lawI:
  assumes "\<And>c w. good c w \<Longrightarrow> \<exists>r c' w'. f (c, w) = Some (r, c', w') \<and>
    base c' w' \<and> cn_fd c' = cn_fd c \<and> only_on (cn_fd c) w w' \<and> (0 \<le> r \<longrightarrow> good c' w')"
  shows "opt_law good base f"
  using assms unfolding opt_law_def by blast

lemma opt_law_read: "opt_law good base f \<Longrightarrow> opt_law good base (rsp_handle_read f)"
  by (rule opt_lawI, erule (1) opt_lawE) (simp add: rsp_handle_read_def)

lemma opt_law_write: "opt_law good base f \<Longrightarrow> opt_law good base (rsp_handle_write f)"
  by (rule opt_lawI, erule (1) opt_lawE) (simp add: rsp_handle_write_def)

lemma opt_law_skip:
  assumes "opt_law good base f" "\<And>c w. good c w \<Longrightarrow> base c w"
  shows "opt_law good base (\<lambda>s. if b then f s else Some (0, s))"
proof (cases b)
  case False
  then show ?thesis
    by (auto intro!: opt_lawI simp: assms(2))
qed (use assms in simp)

lemma opt_law_handle:
  fixes good base :: "'x conn_scheme \<Rightarrow> 'k world \<Rightarrow> bool"
  assumes rd: "opt_law good base rd" and wr: "opt_law good base wr" and sub: "\<And>c w. good c w \<Longrightarrow> base c w"
  shows "opt_law good base (rsp_handle rd wr ev)"
proof (rule opt_lawI)
  fix c and w :: "'k world"
  assume good: "good c w"
  show "\<exists>r c' w'. rsp_handle rd wr ev (c, w) = Some (r, c', w') \<and>
    base c' w' \<and> cn_fd c' = cn_fd c \<and> only_on (cn_fd c) w w' \<and> (0 \<le> r \<longrightarrow> good c' w')"
  proof (cases "has ev (NOT (EPOLLIN OR EPOLLOUT))")
    case True
    then show ?thesis
      using good sub by (simp add: rsp_handle_def)
  next
    case False
    obtain r1 c1 w1 where 1: "(if has ev EPOLLOUT then wr (c, w) else Some (0, c, w)) = Some (r1, c1, w1)"
      "base c1 w1" "cn_fd c1 = cn_fd c" "only_on (cn_fd c) w w1" "0 \<le> r1 \<Longrightarrow> good c1 w1"
      using opt_lawE [OF opt_law_skip [OF wr sub] good] by blast
    show ?thesis
    proof (cases "r1 < 0")
      case True
      then show ?thesis
        using 1 False by (simp add: rsp_handle_def)
    next
      case pos: False
      then have good1: "good c1 w1" using 1(5) by simp
      obtain r2 c2 w2 where 2: "(if has ev EPOLLIN then rd (c1, w1) else Some (0, c1, w1)) = Some (r2, c2, w2)"
        "base c2 w2" "cn_fd c2 = cn_fd c1" "only_on (cn_fd c1) w1 w2" "0 \<le> r2 \<Longrightarrow> good c2 w2"
        using opt_lawE [OF opt_law_skip [OF rd sub] good1] by blast
      show ?thesis
        using 1 2 False pos only_on_trans by (auto simp: rsp_handle_def)
    qed
  qed
qed

text \<open>Between two events fewer than 8 bytes are buffered, and \<open>idle\<close> holds: the server's promise about
  what it waits for.\<close>

definition rsp_waiting :: "('x rsp_conn_scheme \<Rightarrow> u32) \<Rightarrow> nat \<Rightarrow> byte list \<Rightarrow>
    ('x rsp_conn_scheme \<Rightarrow> 'k world \<Rightarrow> bool) \<Rightarrow> 'x rsp_conn_scheme \<Rightarrow> 'k world \<Rightarrow> bool" where
  "rsp_waiting reg m resp idle c w \<longleftrightarrow> rsp_ok reg m resp c w \<and> ring_len (cn_buf c) < 8 \<and> idle c w"

locale rsp_contract = responder finished blocked reg
  for finished blocked :: "'x rsp_conn_scheme \<times> 'k world \<Rightarrow> 'x rsp_conn_scheme \<times> 'k world"
    and reg :: "'x rsp_conn_scheme \<Rightarrow> u32" +
  fixes K :: "('k, 'z) kernel_scheme"
    and resp :: "byte list"
    and idle :: "'x rsp_conn_scheme \<Rightarrow> 'k world \<Rightarrow> bool"
  assumes kernel: "kernel_ok K"
    and nonempty: "resp \<noteq> []"
    and idle_finished: "(c, w) \<in> range finished \<Longrightarrow> owed resp c = [] \<Longrightarrow> idle c w"
    and idle_blocked: "(c, w) \<in> range blocked \<Longrightarrow> owed resp c \<noteq> [] \<Longrightarrow> send_refused K (cn_fd c) w \<Longrightarrow> idle c w"
    and idle_nothing: "idle c w \<Longrightarrow> owed resp c = [] \<Longrightarrow> owed resp c' = [] \<Longrightarrow> reg c' = reg c \<Longrightarrow> idle c' w'"
begin

lemma send_keeps:
  assumes ok: "rsp_ok reg m resp c w" and idle: "owed resp c = [] \<Longrightarrow> idle c w"
  obtains r c' w' where "send_response K resp finished blocked (c, w) = Some (r, c', w')" "rsp_ok reg m resp c' w'"
    "cn_fd c' = cn_fd c" "cn_buf c' = cn_buf c" "only_on (cn_fd c) w w'" "0 \<le> r \<Longrightarrow> idle c' w'"
proof -
  obtain r c' w' where s: "send_response K resp finished blocked (c, w) = Some (r, c', w')"
    "rsp_moves reg resp (c, w) (c', w')" "0 \<le> r \<longrightarrow> rsp_exit K resp finished blocked (c, w) (c', w')"
    using send_response_law [OF kernel nonempty rsp_okD(2,3) [OF ok]] by blast
  note D = rsp_movesD [OF s(2)]
  have "rsp_ok reg m resp c' w'"
    using rsp_okD [OF ok] D by (simp add: rsp_ok_def)
  moreover have "idle c' w'" if "0 \<le> r"
    using s(3) that idle idle_finished idle_blocked D(1) by (auto simp: rsp_exit_def)
  ultimately show thesis
    using that [OF s(1)] D by simp
qed

lemma send_law: "opt_law (rsp_waiting reg m resp idle) (rsp_ok reg m resp) (send_response K resp finished blocked)"
proof (rule opt_lawI)
  fix c w
  assume "rsp_waiting reg m resp idle c w"
  then have ok: "rsp_ok reg m resp c w" "idle c w" "ring_len (cn_buf c) < 8"
    by (simp_all add: rsp_waiting_def)
  show "\<exists>r c' w'. send_response K resp finished blocked (c, w) = Some (r, c', w') \<and> rsp_ok reg m resp c' w' \<and>
      cn_fd c' = cn_fd c \<and> only_on (cn_fd c) w w' \<and> (0 \<le> r \<longrightarrow> rsp_waiting reg m resp idle c' w')"
    by (rule send_keeps [OF ok(1)]) (use ok in \<open>auto simp: rsp_waiting_def\<close>)
qed

lemma request_keeps:
  assumes ok: "rsp_ok reg m resp c w" and eff: "recv_effect m (c, w) (c1, w1)"
  shows "rsp_ok reg m resp c1 w1" "rsp_ok reg m resp (take_requests c1) w1"
    "ring_len (cn_buf (take_requests c1)) < 8" "reg (take_requests c1) = reg c"
    "owed resp (take_requests c1) = [] \<Longrightarrow> owed resp c = []"
proof -
  note R = recv_effectD [OF eff]
  obtain n where n: "length (received_on (cn_fd c) (w_trace w)) = 8 * n + ring_len (cn_buf c)"
    "sent_on (cn_fd c) (w_trace w) @ owed resp c = concat (replicate n resp)"
    using rsp_okD(4) [OF ok] by blast
  obtain bs where bs: "ring_items m (cn_buf c1) = ring_items m (cn_buf c) @ bs"
    "received_on (cn_fd c) (w_trace w1) = received_on (cn_fd c) (w_trace w) @ bs"
    using R(7) by blast
  have len: "ring_len (cn_buf c1) = ring_len (cn_buf c) + length bs"
    using arg_cong [OF bs(1), of length] by simp
  have range: "rsp_range resp c1"
    by (subst R(2)) (use rsp_okD(2) [OF ok] in \<open>simp add: rsp_range_def\<close>)
  have owed1: "owed resp c1 = owed resp c"
    by (subst R(2)) (simp add: owed_def)
  have reg1: "reg c1 = reg c"
    by (subst R(2)) (rule reg_frame(3))
  show ok1: "rsp_ok reg m resp c1 w1"
    using R(1,3,4,5) range reg1 rsp_okD(3) [OF ok] n bs(2) len owed1 by (auto simp: rsp_ok_def)
  note T = owed_take_requests [OF R(1) range]
  obtain r where r: "take_requests c1 = c1\<lparr>rc_cnt := rc_cnt c1 + int (ring_len (cn_buf c1) div 8), cn_buf := r\<rparr>"
    using take_requests_law [OF R(1)] by blast
  show reg2: "reg (take_requests c1) = reg c"
    unfolding r using reg_frame reg1 by simp
  show "ring_len (cn_buf (take_requests c1)) < 8"
    using T(5) by simp
  show "owed resp (take_requests c1) = [] \<Longrightarrow> owed resp c = []"
    using T(1) owed1 by simp
  have "length (received_on (cn_fd c) (w_trace w1)) = 8 * (n + ring_len (cn_buf c1) div 8) + ring_len (cn_buf c1) mod 8"
    using n(1) bs(2) len by simp
  moreover have "sent_on (cn_fd c) (w_trace w1) @ owed resp (take_requests c1)
      = concat (replicate (n + ring_len (cn_buf c1) div 8) resp)"
    using n(2) R(4) T(1) owed1 by (simp add: replicate_add)
  ultimately show "rsp_ok reg m resp (take_requests c1) w1"
    using T R(3,5) reg2 rsp_okD(3) [OF ok] unfolding rsp_ok_def by metis
qed

lemma recv_request_law:
  assumes rcv: "recv_law m rcv"
  shows "opt_law (rsp_waiting reg m resp idle) (rsp_ok reg m resp) (recv_request rcv (send_response K resp finished blocked))"
proof (rule opt_lawI)
  fix c w
  assume wait: "rsp_waiting reg m resp idle c w"
  then have ok: "rsp_ok reg m resp c w" and idle: "idle c w"
    by (simp_all add: rsp_waiting_def)
  obtain k c1 w1 where r: "rcv (c, w) = (k, c1, w1)" by (cases "rcv (c, w)") auto
  note eff = recv_lawD [OF rcv rsp_okD(1) [OF ok] r]
  note req = request_keeps [OF ok eff] and fd = recv_effectD(3,6) [OF eff]
  have fd2: "cn_fd (take_requests c1) = cn_fd c1"
    using owed_take_requests(3) [OF rsp_okD(1,2) [OF req(1)]] .
  have "owed resp (take_requests c1) = [] \<Longrightarrow> idle (take_requests c1) w1"
    using idle_nothing [OF idle] req(4,5) by simp
  then obtain q c2 w2 where s: "send_response K resp finished blocked (take_requests c1, w1) = Some (q, c2, w2)"
    "rsp_ok reg m resp c2 w2" "cn_fd c2 = cn_fd (take_requests c1)" "cn_buf c2 = cn_buf (take_requests c1)"
    "only_on (cn_fd (take_requests c1)) w1 w2" "0 \<le> q \<Longrightarrow> idle c2 w2"
    using send_keeps [OF req(2)] by blast
  show "\<exists>r c' w'. recv_request rcv (send_response K resp finished blocked) (c, w) = Some (r, c', w') \<and>
      rsp_ok reg m resp c' w' \<and> cn_fd c' = cn_fd c \<and> only_on (cn_fd c) w w' \<and> (0 \<le> r \<longrightarrow> rsp_waiting reg m resp idle c' w')"
    using r s req(1,3) fd fd2 only_on_trans [OF fd(2)]
    by (cases "k < 0") (auto simp: recv_request_def rsp_waiting_def)
qed

lemma program_law:
  assumes "recv_law m rcv"
  shows "opt_law (rsp_waiting reg m resp idle) (rsp_ok reg m resp) (rsp_handle
    (rsp_handle_read (recv_request rcv (send_response K resp finished blocked)))
    (rsp_handle_write (send_response K resp finished blocked)) ev)"
  by (rule opt_law_handle [OF opt_law_read [OF recv_request_law [OF assms]] opt_law_write [OF send_law]])
    (simp add: rsp_waiting_def)

end

section \<open>The two programs\<close>

interpretation lt_responder: responder lt_rsp_finished lt_rsp_blocked "\<lambda>c. out_mask (rc_epollout c)"
  by unfold_locales
    (auto simp: quiet_op_def lt_rsp_finished_def lt_rsp_blocked_def rsp_set_epollout_def split: if_splits)

interpretation et_responder: responder "\<lambda>s. s" "\<lambda>s. s" "\<lambda>_ :: rsp_conn. et_mask"
  by unfold_locales (auto simp: quiet_op_def)

definition lt_idle :: "byte list \<Rightarrow> lt_rsp_conn \<Rightarrow> 'k world \<Rightarrow> bool" where
  "lt_idle resp c w \<longleftrightarrow> rc_epollout c = (owed resp c \<noteq> [])"

definition et_idle :: "('k, 'z) kernel_scheme \<Rightarrow> byte list \<Rightarrow> rsp_conn \<Rightarrow> 'k world \<Rightarrow> bool" where
  "et_idle K resp c w \<longleftrightarrow> owed resp c = [] \<or> send_refused K (cn_fd c) w"

lemma out_mask_inj: "out_mask a = out_mask b \<Longrightarrow> a = b"
  by (cases a; cases b) (simp_all add: out_mask_def epoll_flags)

locale rsp_env = echo_env K m
  for K :: "('k, 'z) kernel_scheme" and m :: nat +
  fixes resp :: "byte list"
  assumes resp: "resp \<noteq> []"

sublocale rsp_env \<subseteq> lt_rsp: rsp_contract lt_rsp_finished lt_rsp_blocked "\<lambda>c. out_mask (rc_epollout c)" K resp "lt_idle resp"
proof unfold_locales
  show "kernel_ok K" "resp \<noteq> []" by (rule kernel, rule resp)
  fix c c' :: lt_rsp_conn and w w' :: "'k world"
  show "lt_idle resp c w" if "(c, w) \<in> range lt_rsp_finished" "owed resp c = []"
    using that by (auto simp: lt_idle_def lt_rsp_finished_def rsp_set_epollout_def split: if_splits)
  show "lt_idle resp c w" if "(c, w) \<in> range lt_rsp_blocked" "owed resp c \<noteq> []" "send_refused K (cn_fd c) w"
    using that by (auto simp: lt_idle_def lt_rsp_blocked_def rsp_set_epollout_def split: if_splits)
  show "lt_idle resp c' w'" if "lt_idle resp c w" "owed resp c = []" "owed resp c' = []"
      "out_mask (rc_epollout c') = out_mask (rc_epollout c)"
    using that out_mask_inj by (auto simp: lt_idle_def)
qed

sublocale rsp_env \<subseteq> et_rsp: rsp_contract "\<lambda>s. s" "\<lambda>s. s" "\<lambda>_ :: rsp_conn. et_mask" K resp "et_idle K resp"
  by unfold_locales (simp_all add: kernel resp et_idle_def)

text \<open>What a server needs of a connection whatever other connections do to the kernel.\<close>

sublocale rsp_env \<subseteq> et_rsp_any: rsp_contract "\<lambda>s. s" "\<lambda>s. s" "\<lambda>_ :: rsp_conn. et_mask" K resp "\<lambda>_ _. True"
  by unfold_locales (simp_all add: kernel resp)

interpretation script_rsp: rsp_env script_kernel 64 "[1]"
  by unfold_locales simp

abbreviation lt_reg :: "lt_rsp_conn \<Rightarrow> u32" where
  "lt_reg \<equiv> \<lambda>c. out_mask (rc_epollout c)"

abbreviation et_reg :: "rsp_conn \<Rightarrow> u32" where
  "et_reg \<equiv> \<lambda>_. et_mask"

context rsp_env
begin

lemma lt_program: "opt_law (rsp_waiting lt_reg m resp (lt_idle resp)) (rsp_ok lt_reg m resp) (lt_rsp_program K m resp ev)"
  unfolding lt_rsp_program_def lt_send_response_def
  by (rule lt_rsp.program_law [OF out_recv_native_law [OF kernel]])

lemma et_program: "opt_law (rsp_waiting et_reg m resp (et_idle K resp)) (rsp_ok et_reg m resp) (et_rsp_program K m resp ev)"
  unfolding et_rsp_program_def et_send_response_def
  by (rule et_rsp.program_law [OF et_recv_effect [OF kernel]])

lemma et_program_any: "opt_law (rsp_waiting et_reg m resp (\<lambda>_ _. True)) (rsp_ok et_reg m resp) (et_rsp_program K m resp ev)"
  unfolding et_rsp_program_def et_send_response_def
  by (rule et_rsp_any.program_law [OF et_recv_effect [OF kernel]])

end

lemma rsp_envI: "kernel_ok K \<Longrightarrow> ring_cap_ok m \<Longrightarrow> resp \<noteq> [] \<Longrightarrow> rsp_env K m resp"
  by (simp add: rsp_env_def rsp_env_axioms_def echo_env_def)

lemma rsp_ok_new:
  assumes "ring_inv m (cn_buf c)" "ring_len (cn_buf c) = 0" "rc_cnt c = 0" "rc_pos c = int (length resp)"
    and "received_on (cn_fd c) (w_trace w) = []" "sent_on (cn_fd c) (w_trace w) = []"
    and "interest (w_trace w) (cn_fd c) = Some (reg c)"
  shows "rsp_ok reg m resp c w" "owed resp c = []"
  using assms by (auto simp: rsp_ok_def rsp_range_def owed_def intro: exI [of _ 0])

lemma lt_rsp_new_waiting:
  assumes "ring_cap_ok m" "lt_rsp_new m resp junk fd epfd w = (c, w')"
  shows "rsp_waiting lt_reg m resp (lt_idle resp) c w'" "cn_fd c = fd" "only_on fd w w'"
proof -
  have r: "ring_inv m (ring_new m junk)" "ring_len (ring_new m junk) = 0"
    using ring_new_inv [OF assms(1)] by (simp_all add: ring_new_def ring_len_def)
  show "cn_fd c = fd" "only_on fd w w'"
    using assms(2) by (auto simp: lt_rsp_new_def)
  show "rsp_waiting lt_reg m resp (lt_idle resp) c w'"
    using rsp_ok_new [of m c resp w' lt_reg] assms(2) r
    by (auto simp: lt_rsp_new_def rsp_waiting_def lt_idle_def out_mask_def)
qed

lemma et_rsp_new_waiting:
  assumes "ring_cap_ok m" "et_rsp_new m resp junk fd epfd w = (c, w')"
  shows "rsp_waiting et_reg m resp (et_idle K resp) c w'" "rsp_waiting et_reg m resp (\<lambda>_ _. True) c w'"
    "cn_fd c = fd" "only_on fd w w'"
proof -
  have r: "ring_inv m (ring_new m junk)" "ring_len (ring_new m junk) = 0"
    using ring_new_inv [OF assms(1)] by (simp_all add: ring_new_def ring_len_def)
  show "cn_fd c = fd" "only_on fd w w'"
    using assms(2) by (auto simp: et_rsp_new_def)
  show "rsp_waiting et_reg m resp (et_idle K resp) c w'" "rsp_waiting et_reg m resp (\<lambda>_ _. True) c w'"
    using rsp_ok_new [of m c resp w' et_reg] assms(2) r
    by (auto simp: et_rsp_new_def rsp_waiting_def et_idle_def)
qed

section \<open>The classes the event loop sees\<close>

definition lt_rsp_class :: "('k, 'z) kernel_scheme \<Rightarrow> nat \<Rightarrow> byte list \<Rightarrow> (nat \<Rightarrow> byte) \<Rightarrow> (lt_rsp_conn, 'k) conn_class" where
  "lt_rsp_class K m resp junk = \<lparr>cc_new = lt_rsp_new m resp junk, cc_handle = lt_rsp_program K m resp,
    cc_delete = conn_delete, cc_fd = cn_fd\<rparr>"

definition et_rsp_class :: "('k, 'z) kernel_scheme \<Rightarrow> nat \<Rightarrow> byte list \<Rightarrow> (nat \<Rightarrow> byte) \<Rightarrow> (rsp_conn, 'k) conn_class" where
  "et_rsp_class K m resp junk = \<lparr>cc_new = et_rsp_new m resp junk, cc_handle = et_rsp_program K m resp,
    cc_delete = conn_delete, cc_fd = cn_fd\<rparr>"

lemma rsp_ok_frame:
  assumes "rsp_ok reg m resp c w" "only_on g w w'" "g \<noteq> cn_fd c"
  shows "rsp_ok reg m resp c w'"
  using assms(1) only_on_frame [OF assms(2,3)] by (simp add: rsp_ok_def)

lemma opt_handler_classI:
  fixes good base :: "'x conn_scheme \<Rightarrow> 'k world \<Rightarrow> bool"
  assumes law: "\<And>ev. opt_law good base (h ev)"
    and new: "\<And>fd epfd w c w'. nw fd epfd w = (c, w') \<Longrightarrow> good c w' \<and> cn_fd c = fd \<and> only_on fd w w'"
    and reg: "\<And>c w. good c w \<Longrightarrow> interest (w_trace w) (cn_fd c) \<noteq> None"
    and frame: "\<And>c w g w'. good c w \<Longrightarrow> only_on g w w' \<Longrightarrow> g \<noteq> cn_fd c \<Longrightarrow> good c w'"
    and os: "\<And>c w s. good c w \<Longrightarrow> good c (w\<lparr>w_os := s\<rparr>)"
  shows "handler_class \<lparr>cc_new = nw, cc_handle = h, cc_delete = conn_delete, cc_fd = cn_fd\<rparr> good"
  unfolding handler_class_def conn_class.simps
proof (intro conjI allI impI)
  fix fd epfd c and w w' :: "'k world"
  assume "nw fd epfd w = (c, w')"
  from new [OF this] show "good c w'" "cn_fd c = fd" "only_on fd w w'" by simp_all
next
  fix c ev and w :: "'k world"
  assume good: "good c w"
  show "h ev (c, w) \<noteq> None"
    using opt_lawE [OF law good, of ev] by blast
  fix r c' and w' :: "'k world"
  assume h: "h ev (c, w) = Some (r, c', w')"
  have "cn_fd c' = cn_fd c \<and> only_on (cn_fd c) w w' \<and> (0 \<le> r \<longrightarrow> good c' w')"
    using opt_lawE [OF law good, of ev] h by (metis option.inject prod.inject)
  then show "only_on (cn_fd c) w w'" "cn_fd c' = cn_fd c" "0 \<le> r \<Longrightarrow> good c' w'" by blast+
next
  fix c g s and w w' :: "'k world"
  assume good: "good c w"
  show "interest (w_trace w) (cn_fd c) \<noteq> None" "good c (w\<lparr>w_os := s\<rparr>)"
    by (rule reg [OF good], rule os [OF good])
  show "good c w'" if "only_on g w w'" "g \<noteq> cn_fd c"
    by (rule frame [OF good that])
qed (rule delete_only delete_unregisters)+

lemma lt_rsp_handler_class:
  fixes K :: "('k, 'z) kernel_scheme"
  assumes "kernel_ok K" "ring_cap_ok m" "resp \<noteq> []"
  shows "handler_class (lt_rsp_class K m resp junk) (rsp_waiting lt_reg m resp (lt_idle resp))"
  unfolding lt_rsp_class_def
proof (rule opt_handler_classI [OF rsp_env.lt_program [OF rsp_envI [OF assms]]])
  show "rsp_waiting lt_reg m resp (lt_idle resp) c w' \<and> cn_fd c = fd \<and> only_on fd w w'"
    if "lt_rsp_new m resp junk fd epfd w = (c, w')" for fd epfd c and w w' :: "'k world"
    using lt_rsp_new_waiting [OF assms(2) that] by simp
  show "rsp_waiting lt_reg m resp (lt_idle resp) c w'"
    if "rsp_waiting lt_reg m resp (lt_idle resp) c w" "only_on g w w'" "g \<noteq> cn_fd c" for c g and w w' :: "'k world"
    using that rsp_ok_frame [of lt_reg m resp c w g w'] by (simp add: rsp_waiting_def lt_idle_def)
qed (simp_all add: rsp_waiting_def rsp_ok_def lt_idle_def)

lemma et_rsp_handler_class:
  fixes K :: "('k, 'z) kernel_scheme"
  assumes "kernel_ok K" "ring_cap_ok m" "resp \<noteq> []"
  shows "handler_class (et_rsp_class K m resp junk) (rsp_waiting et_reg m resp (\<lambda>_ _. True))"
  unfolding et_rsp_class_def
proof (rule opt_handler_classI [OF rsp_env.et_program_any [OF rsp_envI [OF assms]]])
  show "rsp_waiting et_reg m resp (\<lambda>_ _. True) c w' \<and> cn_fd c = fd \<and> only_on fd w w'"
    if "et_rsp_new m resp junk fd epfd w = (c, w')" for fd epfd c and w w' :: "'k world"
    using et_rsp_new_waiting [OF assms(2) that] by simp
  show "rsp_waiting et_reg m resp (\<lambda>_ _. True) c w'"
    if "rsp_waiting et_reg m resp (\<lambda>_ _. True) c w" "only_on g w w'" "g \<noteq> cn_fd c" for c g and w w' :: "'k world"
    using that rsp_ok_frame [of et_reg m resp c w g w'] by (simp add: rsp_waiting_def)
qed (simp_all add: rsp_waiting_def rsp_ok_def)

section \<open>What the connections promise\<close>

fun deliver_opt :: "(u32 \<Rightarrow> ('c, 'k) opt_op) \<Rightarrow> u32 list \<Rightarrow> ('c, 'k) opt_op" where
  "deliver_opt h [] (c, w) = Some (0, c, w)"
| "deliver_opt h (ev # evs) (c, w) =
    (case h ev (c, w) of None \<Rightarrow> None
      | Some (ret, c', w') \<Rightarrow> if ret < 0 then Some (ret, c', w') else deliver_opt h evs (c', w'))"

lemma deliver_opt_law:
  fixes good base :: "'x conn_scheme \<Rightarrow> 'k world \<Rightarrow> bool"
  assumes law: "\<And>ev. opt_law good base (h ev)" and sub: "\<And>c w. good c w \<Longrightarrow> base c w"
  shows "good c w \<Longrightarrow> \<exists>ret c' w'. deliver_opt h evs (c, w) = Some (ret, c', w') \<and> base c' w' \<and>
    cn_fd c' = cn_fd c \<and> (0 \<le> ret \<longrightarrow> good c' w')"
proof (induction evs arbitrary: c w)
  case Nil
  then show ?case by (simp add: sub)
next
  case (Cons ev evs)
  obtain r c1 w1 where 1: "h ev (c, w) = Some (r, c1, w1)" "base c1 w1" "cn_fd c1 = cn_fd c" "0 \<le> r \<Longrightarrow> good c1 w1"
    using opt_lawE [OF law Cons.prems, of ev] by metis
  show ?case
    using 1 Cons.IH [of c1 w1] by (cases "r < 0") auto
qed

lemma rsp_ok_answers:
  assumes "rsp_ok reg m resp c w"
  obtains n where "8 * n \<le> length (received_on (cn_fd c) (w_trace w))"
    "sent_on (cn_fd c) (w_trace w) @ owed resp c = concat (replicate n resp)"
  using assms that unfolding rsp_ok_def by (metis le_add1)

lemma rsp_waiting_answers:
  assumes "rsp_waiting reg m resp idle c w"
  shows "sent_on (cn_fd c) (w_trace w) @ owed resp c
    = concat (replicate (length (received_on (cn_fd c) (w_trace w)) div 8) resp)"
proof -
  obtain n where "length (received_on (cn_fd c) (w_trace w)) = 8 * n + ring_len (cn_buf c)"
    "sent_on (cn_fd c) (w_trace w) @ owed resp c = concat (replicate n resp)" "ring_len (cn_buf c) < 8"
    using assms unfolding rsp_waiting_def rsp_ok_def by blast
  then show ?thesis by simp
qed

text \<open>C5: the level-triggered response server answers every request, and each call returns.  For every
  sequence of events the handlers terminate; what was sent and what is owed together are at any time a
  number of whole responses, no more than the complete requests received, and, while the connection
  lives, exactly one response for each 8 bytes received.\<close>

theorem lt_response_correct:
  assumes "kernel_ok K" "ring_cap_ok m" "resp \<noteq> []"
  shows "\<exists>ret c' w'. deliver_opt (lt_rsp_program K m resp) evs (lt_rsp_new m resp junk fd epfd w) = Some (ret, c', w') \<and>
    (\<exists>n. 8 * n \<le> length (received_on fd (w_trace w')) \<and>
      sent_on fd (w_trace w') @ owed resp c' = concat (replicate n resp)) \<and>
    (0 \<le> ret \<longrightarrow> sent_on fd (w_trace w') @ owed resp c'
      = concat (replicate (length (received_on fd (w_trace w')) div 8) resp))"
proof -
  obtain c0 w0 where new: "lt_rsp_new m resp junk fd epfd w = (c0, w0)"
    by (cases "lt_rsp_new m resp junk fd epfd w") auto
  note start = lt_rsp_new_waiting [OF assms(2) new]
  obtain ret c' w' where run: "deliver_opt (lt_rsp_program K m resp) evs (c0, w0) = Some (ret, c', w')"
    "rsp_ok lt_reg m resp c' w'" "cn_fd c' = fd" "0 \<le> ret \<longrightarrow> rsp_waiting lt_reg m resp (lt_idle resp) c' w'"
    using deliver_opt_law [where evs = evs and h = "lt_rsp_program K m resp", OF rsp_env.lt_program [OF rsp_envI [OF assms]] _ start(1)] start(2)
    by (auto simp: rsp_waiting_def)
  show ?thesis
    using run rsp_ok_answers [OF run(2)] rsp_waiting_answers [of lt_reg m resp "lt_idle resp" c' w']
    by (intro exI [of _ ret] exI [of _ c'] exI [of _ w']) (auto simp: new)
qed

text \<open>EPOLLOUT is on exactly while a response is owed.  Between two events of a live level-triggered
  connection \<^verbatim>\<open>enable_epollout\<close> says whether bytes are owed, and epoll has the matching mask
  registered.\<close>

theorem lt_response_epollout:
  assumes "kernel_ok K" "ring_cap_ok m" "resp \<noteq> []"
    and "deliver_opt (lt_rsp_program K m resp) evs (lt_rsp_new m resp junk fd epfd w) = Some (ret, c', w')" "0 \<le> ret"
  shows "rc_epollout c' = (0 < rc_cnt c' \<or> rc_pos c' < int (length resp)) \<and>
    interest (w_trace w') fd = Some (EPOLLIN OR (if rc_epollout c' then EPOLLOUT else 0))"
proof -
  obtain c0 w0 where new: "lt_rsp_new m resp junk fd epfd w = (c0, w0)"
    by (cases "lt_rsp_new m resp junk fd epfd w") auto
  note start = lt_rsp_new_waiting [OF assms(2) new]
  have "rsp_waiting lt_reg m resp (lt_idle resp) c' w'" "cn_fd c' = fd"
    using deliver_opt_law [where evs = evs and h = "lt_rsp_program K m resp", OF rsp_env.lt_program [OF rsp_envI [OF assms(1-3)]] _ start(1)] start(2) assms(4,5)
    by (auto simp: rsp_waiting_def new)
  then show ?thesis
    using owed_loop [of resp c'] assms(3)
    by (auto simp: rsp_waiting_def rsp_ok_def lt_idle_def out_mask_def)
qed


section \<open>Runs\<close>

text \<open>A response of three bytes; the second request arrives in two pieces, the second response is cut
  short.\<close>

definition rsp_demo_world :: "script world" where
  "rsp_demo_world = run_world [RecvData [1, 2, 3, 4, 5, 6, 7, 8, 9, 10], RecvData [11, 12, 13, 14, 15, 16]]
    [SendLen 2, SendLen 1, SendLen 2]"

definition lt_rsp_demo :: "(int \<times> lt_rsp_conn \<times> script world) option" where
  "lt_rsp_demo = deliver_opt (lt_rsp_program script_kernel 16 [7, 8, 9]) [EPOLLIN, EPOLLIN]
    (lt_rsp_new 16 [7, 8, 9] (\<lambda>_. 0) 5 3 rsp_demo_world)"

definition lt_rsp_end :: "int \<times> lt_rsp_conn \<times> script world" where
  "lt_rsp_end = the lt_rsp_demo"

definition et_rsp_demo :: "(int \<times> rsp_conn \<times> script world) option" where
  "et_rsp_demo = deliver_opt (et_rsp_program script_kernel 16 [7, 8, 9]) [EPOLLIN, EPOLLIN]
    (et_rsp_new 16 [7, 8, 9] (\<lambda>_. 0) 5 3 rsp_demo_world)"

definition et_rsp_end :: "int \<times> rsp_conn \<times> script world" where
  "et_rsp_end = the et_rsp_demo"

lemma ring_cap_16 [simp]: "ring_cap_ok 16"
  by (simp add: ring_cap_ok_def)

lemma lt_rsp_demo_Some: "lt_rsp_demo = Some (fst lt_rsp_end, fst (snd lt_rsp_end), snd (snd lt_rsp_end))"
  and et_rsp_demo_Some: "et_rsp_demo = Some (fst et_rsp_end, fst (snd et_rsp_end), snd (snd et_rsp_end))"
  by code_simp+

lemma lt_response_correct_witness:
  "length (received_on 5 (w_trace (snd (snd lt_rsp_end)))) = 16 \<and>
   sent_on 5 (w_trace (snd (snd lt_rsp_end))) = [7, 8, 9, 7, 8] \<and> owed [7, 8, 9] (fst (snd lt_rsp_end)) = [9]"
proof -
  have *: "0 \<le> fst lt_rsp_end" "length (received_on 5 (w_trace (snd (snd lt_rsp_end)))) = 16"
    "sent_on 5 (w_trace (snd (snd lt_rsp_end))) = [7, 8, 9, 7, 8]" by code_simp+
  from lt_response_correct [OF script_kernel_ok ring_cap_16, of "[7, 8, 9]" "[EPOLLIN, EPOLLIN]" "\<lambda>_. 0" 5 3 rsp_demo_world]
  obtain ret c' w' where run: "lt_rsp_demo = Some (ret, c', w')" and
    ok: "0 \<le> ret \<longrightarrow> sent_on 5 (w_trace w') @ owed [7, 8, 9] c'
      = concat (replicate (length (received_on 5 (w_trace w')) div 8) [7, 8, 9])"
    unfolding lt_rsp_demo_def by blast
  have "ret = fst lt_rsp_end" "c' = fst (snd lt_rsp_end)" "w' = snd (snd lt_rsp_end)"
    using run unfolding lt_rsp_demo_Some by (simp_all only: option.inject prod.inject)
  with ok *(1) have "sent_on 5 (w_trace (snd (snd lt_rsp_end))) @ owed [7, 8, 9] (fst (snd lt_rsp_end))
      = concat (replicate (length (received_on 5 (w_trace (snd (snd lt_rsp_end)))) div 8) [7, 8, 9])"
    by simp
  moreover have "replicate (16 div 8) x = [x, x]" for x :: "byte list"
    by (simp add: numeral_2_eq_2)
  ultimately show ?thesis
    using *(2,3) by simp
qed

lemma lt_response_epollout_witness:
  "rc_epollout (fst (snd lt_rsp_end)) \<and> interest (w_trace (snd (snd lt_rsp_end))) 5 = Some (EPOLLIN OR EPOLLOUT)"
proof -
  have *: "0 \<le> fst lt_rsp_end" "rc_epollout (fst (snd lt_rsp_end))" by code_simp+
  show ?thesis
    using lt_response_epollout [OF script_kernel_ok ring_cap_16 _ lt_rsp_demo_Some [unfolded lt_rsp_demo_def] *(1)] *(2)
    by simp
qed


end
