(* ===== verification/Config.thy ===== *)
theory Config
  imports Prelude
begin

text \<open>
  The command line of the servers: \<^verbatim>\<open>struct Config\<close> of \<^verbatim>\<open>tcp_echo1/common/config.h\<close>, and the function
  \<^verbatim>\<open>parse_args\<close> on globals that the programs of \<^verbatim>\<open>tcp_echo/\<close> have instead.  The one library call
  in it is \<^verbatim>\<open>sscanf(s, "%d", &x)\<close>, modelled as the C standard describes it: white space is skipped, a
  string that ends there is an input failure (\<^verbatim>\<open>EOF\<close>, negative), one that then shows no number is a
  matching failure (0 conversions, which is not negative), and in both cases \<open>x\<close> keeps its value.
\<close>

section \<open>Scanning a number\<close>

definition is_space :: "char \<Rightarrow> bool" where
  "is_space c \<longleftrightarrow> (of_char c :: nat) \<in> {32, 9, 10, 11, 12, 13}"

definition is_digit :: "char \<Rightarrow> bool" where
  "is_digit c \<longleftrightarrow> (of_char c :: nat) \<in> {48..57}"

definition digit_value :: "char \<Rightarrow> nat" where
  "digit_value c = of_char c - 48"

definition digits_value :: "string \<Rightarrow> nat" where
  "digits_value ds = foldl (\<lambda>n d. 10 * n + digit_value d) 0 ds"

text \<open>The result of \<^verbatim>\<open>sscanf\<close> and the value it leaves in the variable.\<close>

definition scan_number :: "int \<Rightarrow> string \<Rightarrow> int \<Rightarrow> int \<times> int" where
  "scan_number sign s old =
    (let ds = takeWhile is_digit s in
     if ds = [] then (0, old) else (1, sign * int (digits_value ds)))"

definition sscanf_d :: "string \<Rightarrow> int \<Rightarrow> int \<times> int" where
  "sscanf_d s old =
    (case dropWhile is_space s of
      [] \<Rightarrow> (-1, old)
    | c # cs \<Rightarrow>
        if c = CHR ''-'' then scan_number (-1) cs old
        else if c = CHR ''+'' then scan_number 1 cs old
        else scan_number 1 (c # cs) old)"

section \<open>The configuration\<close>

type_synonym u16 = "16 word"

record config =
  cf_port :: u16
  cf_thread_num :: int
  cf_conn_num :: int
  cf_pkt_size :: int
  cf_duration :: int

text \<open>The values before parsing; \<^verbatim>\<open>local_addr\<close> is a global and starts as zero.\<close>

definition config_init :: config where
  "config_init = \<lparr>cf_port = 0, cf_thread_num = 1, cf_conn_num = 1, cf_pkt_size = 64, cf_duration = 10\<rparr>"

text \<open>\<^verbatim>\<open>htons\<close> on a little-endian machine swaps the two bytes; the argument is converted to \<^verbatim>\<open>short\<close>.\<close>

definition htons :: "u16 \<Rightarrow> u16" where
  "htons x = (drop_bit 8 x) OR (push_bit 8 x)"

definition parse_args :: "string list \<Rightarrow> config \<Rightarrow> int \<times> config" where
  "parse_args argv cf =
    (if length argv < 2 then (-1, cf)
     else
       let (n, port) = sscanf_d (argv ! 1) 0 in
       if n < 0 then (-1, cf)
       else
         let cf1 = cf\<lparr>cf_port := htons (word_of_int port)\<rparr> in
         if 2 < length argv then
           (case sscanf_d (argv ! 2) (cf_thread_num cf1) of (n2, threads) \<Rightarrow>
             if n2 < 0 then (-1, cf1) else (0, cf1\<lparr>cf_thread_num := threads\<rparr>))
         else (0, cf1))"

section \<open>Decimal numbers\<close>

text \<open>The decimal numeral of a number, as a user types it.\<close>

fun dec :: "nat \<Rightarrow> string" where
  "dec n = (if n < 10 then [char_of (48 + n)] else dec (n div 10) @ [char_of (48 + n mod 10)])"

declare dec.simps [simp del]

lemma of_char_digit: "n < 10 \<Longrightarrow> (of_char (char_of (48 + n) :: char) :: nat) = 48 + n"
  by (simp add: of_char_of)

lemma digit_char: "n < 10 \<Longrightarrow> is_digit (char_of (48 + n))" "n < 10 \<Longrightarrow> digit_value (char_of (48 + n)) = n"
  by (simp_all add: is_digit_def digit_value_def of_char_digit del: of_char_of)

lemma dec_digits: "\<forall>c \<in> set (dec n). is_digit c"
proof (induction n rule: dec.induct)
  case (1 n)
  then show ?case
    using digit_char(1) by (subst dec.simps) auto
qed

lemma dec_nonempty: "dec n \<noteq> []"
  by (subst dec.simps) simp

lemma digits_value_dec: "digits_value (dec n) = n"
proof (induction n rule: dec.induct)
  case (1 n)
  show ?case
  proof (cases "n < 10")
    case True
    then show ?thesis
      using digit_char(2) [of n] by (subst dec.simps) (simp add: digits_value_def)
  next
    case False
    have "digits_value (dec (n div 10) @ [char_of (48 + n mod 10)])
        = 10 * digits_value (dec (n div 10)) + digit_value (char_of (48 + n mod 10))"
      by (simp add: digits_value_def)
    then show ?thesis
      using False 1 digit_char(2) [of "n mod 10"] by (subst dec.simps) simp
  qed
qed

lemma digit_not_space: "is_digit c \<Longrightarrow> \<not> is_space c"
  by (auto simp: is_digit_def is_space_def)

lemma digit_not_sign: "is_digit c \<Longrightarrow> c \<noteq> CHR ''-'' \<and> c \<noteq> CHR ''+''"
  by (auto simp: is_digit_def)

lemma scan_dec: "sscanf_d (dec n) old = (1, int n)"
proof -
  obtain c cs where d: "dec n = c # cs"
    using dec_nonempty by (cases "dec n") auto
  then have c: "is_digit c"
    using dec_digits [of n] by simp
  then have "dropWhile is_space (dec n) = c # cs"
    using d digit_not_space by simp
  moreover have "takeWhile is_digit (c # cs) = c # cs"
    using dec_digits [of n] d by (metis takeWhile_eq_all_conv)
  ultimately show ?thesis
    using digit_not_sign [OF c] digits_value_dec [of n] d by (simp add: sscanf_d_def scan_number_def)
qed

lemma htons_involution: "htons (htons x) = x"
  unfolding htons_def by (rule bit_word_eqI) (auto simp: bit_simps, metis le_add_diff_inverse not_less)

section \<open>What the command line means\<close>



text \<open>an argument that is no number is accepted as port 0.  \<^verbatim>\<open>sscanf\<close> reports a matching failure as 0
  conversions, the code tests for negative results only: \<^verbatim>\<open>parse_args\<close> returns success and the
  server binds port 0, an arbitrary one; only an empty or blank argument is reported as a bad port.\<close>

theorem parse_args_no_number:
  "(c \<noteq> CHR ''-'' \<and> c \<noteq> CHR ''+'' \<and> \<not> is_digit c \<and> \<not> is_space c \<longrightarrow>
      parse_args [prog, c # cs] cf = (0, cf\<lparr>cf_port := 0\<rparr>)) \<and>
   ((\<forall>c \<in> set s. is_space c) \<longrightarrow> parse_args [prog, s] cf = (-1, cf))"
proof -
  have "htons 0 = 0" by (simp add: htons_def)
  then show ?thesis
    by (auto simp: parse_args_def sscanf_d_def scan_number_def dropWhile_eq_Nil_conv [THEN iffD2])
qed

lemma parse_args_no_number_witness:
  "parse_args [''server'', ''http''] config_init = (0, config_init) \<and> parse_args [''server'', '' ''] config_init = (-1, config_init)"
proof -
  have "\<not> is_digit CHR ''h''" "\<not> is_space CHR ''h''" "is_space CHR '' ''"
    by (simp_all add: is_digit_def is_space_def)
  then show ?thesis
    using parse_args_no_number [of "CHR ''h''" "''server''" "''ttp''" config_init "'' ''"]
    by (simp add: config_init_def)
qed

end
