(* ===== verification/Servers.thy ===== *)
theory Servers
  imports Lt_Echo Response Config
begin

text \<open>
  The server programs, each put together from its parts the way its file does: the ring size it
  compiles in, its connection class, the acceptor and the event loop on this class, and \<^verbatim>\<open>main\<close>.  The
  files of \<^verbatim>\<open>tcp_echo/\<close> carry their own textual copies of the ring buffer, the acceptor, the event loop
  and \<^verbatim>\<open>parse_args\<close>, so each copy is a definition here; the two programs of \<^verbatim>\<open>tcp_echo1/\<close> share headers.

  The theorems are the ones that need the whole program: memory safety of the loop, no descriptor
  registered without an object, and the echo of every connection next to all the others.
\<close>

section \<open>Common parts\<close>

record ring_ops =
  ro_new :: "(nat \<Rightarrow> byte) \<Rightarrow> ring"
  ro_get_blank_size :: "ring \<Rightarrow> int"
  ro_get_exist_size :: "ring \<Rightarrow> int"
  ro_get_blank_iovec :: "ring \<Rightarrow> int \<times> iovec list"
  ro_get_exist_iovec :: "ring \<Rightarrow> int \<times> iovec list"
  ro_add_blank :: "int \<Rightarrow> ring \<Rightarrow> ring"
  ro_add_exist :: "int \<Rightarrow> ring \<Rightarrow> ring"

definition ring_class :: "nat \<Rightarrow> ring_ops" where
  "ring_class max_pkt_size = \<lparr>ro_new = ring_new max_pkt_size,
    ro_get_blank_size = get_blank_size max_pkt_size, ro_get_exist_size = get_exist_size,
    ro_get_blank_iovec = get_blank_iovec max_pkt_size, ro_get_exist_iovec = get_exist_iovec max_pkt_size,
    ro_add_blank = add_blank, ro_add_exist = add_exist\<rparr>"

text \<open>
  What \<^verbatim>\<open>main\<close> gets from the system: the address of its local \<^verbatim>\<open>acceptor\<close>, the listening descriptor
  that \<^verbatim>\<open>socket\<close>, \<^verbatim>\<open>bind\<close> and \<^verbatim>\<open>listen\<close> leave for the configured address, and the epoll descriptor
  (errors of these calls are only printed by the code).
\<close>

record main_env =
  me_acceptor :: nat
  me_socket :: "config \<Rightarrow> int"
  me_epfd :: int

text \<open>The exit status, or the state in which \<^verbatim>\<open>run\<close> is entered.\<close>

definition server_start :: "main_env \<Rightarrow> string list \<Rightarrow> 'k world \<Rightarrow> int + ('c, 'k) loop_state" where
  "server_start env argv w =
    (case parse_args argv config_init of (ret, cf) \<Rightarrow>
      if ret < 0 then Inl 1
      else Inr (Running (acceptor_new (me_acceptor env) (me_socket env cf) (me_epfd env) w) []))"

text \<open>The states that \<^verbatim>\<open>main\<close> reaches with the given loop.\<close>

definition main_run :: "(('c, 'k) loop_state \<Rightarrow> ('c, 'k) loop_state \<Rightarrow> bool) \<Rightarrow> main_env \<Rightarrow> string list \<Rightarrow>
    'k world \<Rightarrow> ('c, 'k) loop_state \<Rightarrow> bool" where
  "main_run loop env argv w s \<longleftrightarrow> (\<exists>s0. server_start env argv w = Inr s0 \<and> loop\<^sup>*\<^sup>* s0 s)"

section \<open>\<^verbatim>\<open>tcp_echo/server_epollout_epollin_handle.cpp\<close>\<close>

definition epollin_ring :: ring_ops where
  "epollin_ring = ring_class 4096"

definition epollin_connection :: "('k, 'z) net_kernel_scheme \<Rightarrow> (nat \<Rightarrow> byte) \<Rightarrow> (lt_conn, 'k) conn_class" where
  "epollin_connection K junk = lt_class (lt_io K 4096) 4096 junk"

definition epollin_acceptor :: "('k, 'z) net_kernel_scheme \<Rightarrow> (nat \<Rightarrow> byte) \<Rightarrow> ((lt_conn, 'k) server \<Rightarrow> nat) \<Rightarrow>
    u32 \<Rightarrow> (lt_conn, 'k) server \<Rightarrow> int \<times> (lt_conn, 'k) server" where
  "epollin_acceptor K junk alloc = acceptor_handle (epollin_connection K junk) K alloc"

definition epollin_loop :: "('k, 'z) net_kernel_scheme \<Rightarrow> (nat \<Rightarrow> byte) \<Rightarrow> ((lt_conn, 'k) server \<Rightarrow> nat) \<Rightarrow>
    (lt_conn, 'k) loop_state \<Rightarrow> (lt_conn, 'k) loop_state \<Rightarrow> bool" where
  "epollin_loop K junk alloc = loop_step (epollin_connection K junk) K alloc"

definition epollin_main :: "('k, 'z) net_kernel_scheme \<Rightarrow> (nat \<Rightarrow> byte) \<Rightarrow> ((lt_conn, 'k) server \<Rightarrow> nat) \<Rightarrow>
    main_env \<Rightarrow> string list \<Rightarrow> 'k world \<Rightarrow> (lt_conn, 'k) loop_state \<Rightarrow> bool" where
  "epollin_main K junk alloc = main_run (epollin_loop K junk alloc)"

section \<open>\<^verbatim>\<open>tcp_echo/server_epollout_epollin_handle_native.cpp\<close>\<close>

definition epollin_native_ring :: ring_ops where
  "epollin_native_ring = ring_class 4096"

definition epollin_native_connection :: "('k, 'z) net_kernel_scheme \<Rightarrow> (nat \<Rightarrow> byte) \<Rightarrow> (lt_conn, 'k) conn_class" where
  "epollin_native_connection K junk = lt_class (lt_io_native K 4096) 4096 junk"

definition epollin_native_acceptor :: "('k, 'z) net_kernel_scheme \<Rightarrow> (nat \<Rightarrow> byte) \<Rightarrow> ((lt_conn, 'k) server \<Rightarrow> nat) \<Rightarrow>
    u32 \<Rightarrow> (lt_conn, 'k) server \<Rightarrow> int \<times> (lt_conn, 'k) server" where
  "epollin_native_acceptor K junk alloc = acceptor_handle (epollin_native_connection K junk) K alloc"

definition epollin_native_loop :: "('k, 'z) net_kernel_scheme \<Rightarrow> (nat \<Rightarrow> byte) \<Rightarrow> ((lt_conn, 'k) server \<Rightarrow> nat) \<Rightarrow>
    (lt_conn, 'k) loop_state \<Rightarrow> (lt_conn, 'k) loop_state \<Rightarrow> bool" where
  "epollin_native_loop K junk alloc = loop_step (epollin_native_connection K junk) K alloc"

definition epollin_native_main :: "('k, 'z) net_kernel_scheme \<Rightarrow> (nat \<Rightarrow> byte) \<Rightarrow> ((lt_conn, 'k) server \<Rightarrow> nat) \<Rightarrow>
    main_env \<Rightarrow> string list \<Rightarrow> 'k world \<Rightarrow> (lt_conn, 'k) loop_state \<Rightarrow> bool" where
  "epollin_native_main K junk alloc = main_run (epollin_native_loop K junk alloc)"

section \<open>\<^verbatim>\<open>tcp_echo/server_epollout_handle.cpp\<close>\<close>

definition epollout_ring :: ring_ops where
  "epollout_ring = ring_class 64"

definition epollout_connection :: "('k, 'z) net_kernel_scheme \<Rightarrow> (nat \<Rightarrow> byte) \<Rightarrow> (out_conn, 'k) conn_class" where
  "epollout_connection K junk = out_class (out_program K 64) 64 junk"

definition epollout_acceptor :: "('k, 'z) net_kernel_scheme \<Rightarrow> (nat \<Rightarrow> byte) \<Rightarrow> ((out_conn, 'k) server \<Rightarrow> nat) \<Rightarrow>
    u32 \<Rightarrow> (out_conn, 'k) server \<Rightarrow> int \<times> (out_conn, 'k) server" where
  "epollout_acceptor K junk alloc = acceptor_handle (epollout_connection K junk) K alloc"

definition epollout_loop :: "('k, 'z) net_kernel_scheme \<Rightarrow> (nat \<Rightarrow> byte) \<Rightarrow> ((out_conn, 'k) server \<Rightarrow> nat) \<Rightarrow>
    (out_conn, 'k) loop_state \<Rightarrow> (out_conn, 'k) loop_state \<Rightarrow> bool" where
  "epollout_loop K junk alloc = loop_step (epollout_connection K junk) K alloc"

definition epollout_main :: "('k, 'z) net_kernel_scheme \<Rightarrow> (nat \<Rightarrow> byte) \<Rightarrow> ((out_conn, 'k) server \<Rightarrow> nat) \<Rightarrow>
    main_env \<Rightarrow> string list \<Rightarrow> 'k world \<Rightarrow> (out_conn, 'k) loop_state \<Rightarrow> bool" where
  "epollout_main K junk alloc = main_run (epollout_loop K junk alloc)"

section \<open>\<^verbatim>\<open>tcp_echo/server_epollout_handle_native.cpp\<close>\<close>

definition epollout_native_ring :: ring_ops where
  "epollout_native_ring = ring_class 64"

definition epollout_native_connection :: "('k, 'z) net_kernel_scheme \<Rightarrow> (nat \<Rightarrow> byte) \<Rightarrow> (out_conn, 'k) conn_class" where
  "epollout_native_connection K junk = out_class (out_program_native K 64) 64 junk"

definition epollout_native_acceptor :: "('k, 'z) net_kernel_scheme \<Rightarrow> (nat \<Rightarrow> byte) \<Rightarrow> ((out_conn, 'k) server \<Rightarrow> nat) \<Rightarrow>
    u32 \<Rightarrow> (out_conn, 'k) server \<Rightarrow> int \<times> (out_conn, 'k) server" where
  "epollout_native_acceptor K junk alloc = acceptor_handle (epollout_native_connection K junk) K alloc"

definition epollout_native_loop :: "('k, 'z) net_kernel_scheme \<Rightarrow> (nat \<Rightarrow> byte) \<Rightarrow> ((out_conn, 'k) server \<Rightarrow> nat) \<Rightarrow>
    (out_conn, 'k) loop_state \<Rightarrow> (out_conn, 'k) loop_state \<Rightarrow> bool" where
  "epollout_native_loop K junk alloc = loop_step (epollout_native_connection K junk) K alloc"

definition epollout_native_main :: "('k, 'z) net_kernel_scheme \<Rightarrow> (nat \<Rightarrow> byte) \<Rightarrow> ((out_conn, 'k) server \<Rightarrow> nat) \<Rightarrow>
    main_env \<Rightarrow> string list \<Rightarrow> 'k world \<Rightarrow> (out_conn, 'k) loop_state \<Rightarrow> bool" where
  "epollout_native_main K junk alloc = main_run (epollout_native_loop K junk alloc)"

section \<open>\<^verbatim>\<open>tcp_echo/server_epollet_epollout_handle.cpp\<close>\<close>

definition epollet_ring :: ring_ops where
  "epollet_ring = ring_class 4096"

definition epollet_connection :: "('k, 'z) net_kernel_scheme \<Rightarrow> (nat \<Rightarrow> byte) \<Rightarrow> (conn, 'k) conn_class" where
  "epollet_connection K junk = et_class K 4096 junk"

definition epollet_acceptor :: "('k, 'z) net_kernel_scheme \<Rightarrow> (nat \<Rightarrow> byte) \<Rightarrow> ((conn, 'k) server \<Rightarrow> nat) \<Rightarrow>
    u32 \<Rightarrow> (conn, 'k) server \<Rightarrow> int \<times> (conn, 'k) server" where
  "epollet_acceptor K junk alloc = acceptor_handle (epollet_connection K junk) K alloc"

definition epollet_loop :: "('k, 'z) net_kernel_scheme \<Rightarrow> (nat \<Rightarrow> byte) \<Rightarrow> ((conn, 'k) server \<Rightarrow> nat) \<Rightarrow>
    (conn, 'k) loop_state \<Rightarrow> (conn, 'k) loop_state \<Rightarrow> bool" where
  "epollet_loop K junk alloc = loop_step (epollet_connection K junk) K alloc"

definition epollet_main :: "('k, 'z) net_kernel_scheme \<Rightarrow> (nat \<Rightarrow> byte) \<Rightarrow> ((conn, 'k) server \<Rightarrow> nat) \<Rightarrow>
    main_env \<Rightarrow> string list \<Rightarrow> 'k world \<Rightarrow> (conn, 'k) loop_state \<Rightarrow> bool" where
  "epollet_main K junk alloc = main_run (epollet_loop K junk alloc)"

section \<open>\<^verbatim>\<open>tcp_echo/server_epollout_response.cpp\<close>\<close>

definition response_size :: nat where "response_size = 256 * 1024 * 1024"

text \<open>\<^verbatim>\<open>main\<close> fills the array with \<^verbatim>\<open>response_buf[i] = i\<close>.\<close>

definition response_buf :: "byte list" where
  "response_buf = map of_nat [0..<response_size]"

definition response_ring :: ring_ops where
  "response_ring = ring_class 64"

definition response_connection :: "('k, 'z) net_kernel_scheme \<Rightarrow> (nat \<Rightarrow> byte) \<Rightarrow> (lt_rsp_conn, 'k) conn_class" where
  "response_connection K junk = lt_rsp_class K 64 response_buf junk"

definition response_acceptor :: "('k, 'z) net_kernel_scheme \<Rightarrow> (nat \<Rightarrow> byte) \<Rightarrow> ((lt_rsp_conn, 'k) server \<Rightarrow> nat) \<Rightarrow>
    u32 \<Rightarrow> (lt_rsp_conn, 'k) server \<Rightarrow> int \<times> (lt_rsp_conn, 'k) server" where
  "response_acceptor K junk alloc = acceptor_handle (response_connection K junk) K alloc"

definition response_loop :: "('k, 'z) net_kernel_scheme \<Rightarrow> (nat \<Rightarrow> byte) \<Rightarrow> ((lt_rsp_conn, 'k) server \<Rightarrow> nat) \<Rightarrow>
    (lt_rsp_conn, 'k) loop_state \<Rightarrow> (lt_rsp_conn, 'k) loop_state \<Rightarrow> bool" where
  "response_loop K junk alloc = loop_step (response_connection K junk) K alloc"

definition response_main :: "('k, 'z) net_kernel_scheme \<Rightarrow> (nat \<Rightarrow> byte) \<Rightarrow> ((lt_rsp_conn, 'k) server \<Rightarrow> nat) \<Rightarrow>
    main_env \<Rightarrow> string list \<Rightarrow> 'k world \<Rightarrow> (lt_rsp_conn, 'k) loop_state \<Rightarrow> bool" where
  "response_main K junk alloc = main_run (response_loop K junk alloc)"

section \<open>\<^verbatim>\<open>tcp_echo/server_epollet_epollout_response.cpp\<close>\<close>

text \<open>This file declares the same size and leaves its global array as the zeros it starts with.\<close>

definition et_response_buf :: "byte list" where
  "et_response_buf = replicate response_size 0"

definition et_response_ring :: ring_ops where
  "et_response_ring = ring_class 4096"

definition et_response_connection :: "('k, 'z) net_kernel_scheme \<Rightarrow> (nat \<Rightarrow> byte) \<Rightarrow> (rsp_conn, 'k) conn_class" where
  "et_response_connection K junk = et_rsp_class K 4096 et_response_buf junk"

definition et_response_acceptor :: "('k, 'z) net_kernel_scheme \<Rightarrow> (nat \<Rightarrow> byte) \<Rightarrow> ((rsp_conn, 'k) server \<Rightarrow> nat) \<Rightarrow>
    u32 \<Rightarrow> (rsp_conn, 'k) server \<Rightarrow> int \<times> (rsp_conn, 'k) server" where
  "et_response_acceptor K junk alloc = acceptor_handle (et_response_connection K junk) K alloc"

definition et_response_loop :: "('k, 'z) net_kernel_scheme \<Rightarrow> (nat \<Rightarrow> byte) \<Rightarrow> ((rsp_conn, 'k) server \<Rightarrow> nat) \<Rightarrow>
    (rsp_conn, 'k) loop_state \<Rightarrow> (rsp_conn, 'k) loop_state \<Rightarrow> bool" where
  "et_response_loop K junk alloc = loop_step (et_response_connection K junk) K alloc"

definition et_response_main :: "('k, 'z) net_kernel_scheme \<Rightarrow> (nat \<Rightarrow> byte) \<Rightarrow> ((rsp_conn, 'k) server \<Rightarrow> nat) \<Rightarrow>
    main_env \<Rightarrow> string list \<Rightarrow> 'k world \<Rightarrow> (rsp_conn, 'k) loop_state \<Rightarrow> bool" where
  "et_response_main K junk alloc = main_run (et_response_loop K junk alloc)"

section \<open>\<^verbatim>\<open>tcp_echo1/\<close>\<close>

text \<open>The two programs on the shared headers: the connection classes, the factories, and \<^verbatim>\<open>main\<close>.\<close>

definition lt_recvmsg_connection :: "('k, 'z) net_kernel_scheme \<Rightarrow> (nat \<Rightarrow> byte) \<Rightarrow> (lt_conn, 'k) conn_class" where
  "lt_recvmsg_connection K junk = lt_class (lt_io K 4096) 4096 junk"

definition lt_recvmsg_main :: "('k, 'z) net_kernel_scheme \<Rightarrow> (nat \<Rightarrow> byte) \<Rightarrow> ((lt_conn, 'k) server \<Rightarrow> nat) \<Rightarrow>
    main_env \<Rightarrow> string list \<Rightarrow> 'k world \<Rightarrow> (lt_conn, 'k) loop_state \<Rightarrow> bool" where
  "lt_recvmsg_main K junk alloc = main_run (loop_step (lt_recvmsg_connection K junk) K alloc)"

definition et_recvmsg_connection :: "('k, 'z) net_kernel_scheme \<Rightarrow> (nat \<Rightarrow> byte) \<Rightarrow> (conn, 'k) conn_class" where
  "et_recvmsg_connection K junk = et_class K 4096 junk"

definition et_recvmsg_main :: "('k, 'z) net_kernel_scheme \<Rightarrow> (nat \<Rightarrow> byte) \<Rightarrow> ((conn, 'k) server \<Rightarrow> nat) \<Rightarrow>
    main_env \<Rightarrow> string list \<Rightarrow> 'k world \<Rightarrow> (conn, 'k) loop_state \<Rightarrow> bool" where
  "et_recvmsg_main K junk alloc = main_run (loop_step (et_recvmsg_connection K junk) K alloc)"

section \<open>The classes obey the loop's interface\<close>

lemmas connection_defs = epollin_connection_def epollin_native_connection_def epollout_connection_def
  epollout_native_connection_def epollet_connection_def response_connection_def et_response_connection_def
  lt_recvmsg_connection_def et_recvmsg_connection_def

lemmas main_defs = epollin_main_def epollin_loop_def epollin_native_main_def epollin_native_loop_def
  epollout_main_def epollout_loop_def epollout_native_main_def epollout_native_loop_def
  epollet_main_def epollet_loop_def response_main_def response_loop_def et_response_main_def
  et_response_loop_def lt_recvmsg_main_def et_recvmsg_main_def

lemma response_buf_nonempty: "response_buf \<noteq> []" "et_response_buf \<noteq> []"
  by (simp_all add: response_buf_def et_response_buf_def response_size_def del: upt_conv_Cons)

lemma class_laws:
  assumes K: "kernel_ok K"
  shows "handler_class (epollin_connection K junk) (lt_good 4096)"
    "handler_class (epollin_native_connection K junk) (lt_good 4096)"
    "handler_class (epollout_connection K junk) (out_good 64)"
    "handler_class (epollout_native_connection K junk) (out_good 64)"
    "handler_class (epollet_connection K junk) (et_good 4096)"
    "handler_class (response_connection K junk) (rsp_waiting lt_reg 64 response_buf (lt_idle response_buf))"
    "handler_class (et_response_connection K junk) (rsp_waiting et_reg 4096 et_response_buf (\<lambda>_ _. True))"
    "handler_class (lt_recvmsg_connection K junk) (lt_good 4096)"
    "handler_class (et_recvmsg_connection K junk) (et_good 4096)"
  unfolding connection_defs
  by (rule lt_handler_class [OF K ring_cap_4096 disjI1 [OF refl]] lt_handler_class [OF K ring_cap_4096 disjI2 [OF refl]]
      out_handler_class [OF K ring_cap_64 disjI1 [OF refl]] out_handler_class [OF K ring_cap_64 disjI2 [OF refl]]
      et_handler_class [OF K ring_cap_4096] lt_rsp_handler_class [OF K ring_cap_64 response_buf_nonempty(1)]
      et_rsp_handler_class [OF K ring_cap_4096 response_buf_nonempty(2)])+

text \<open>What a run of \<^verbatim>\<open>main\<close> on a class that obeys the interface cannot do, and keeps.\<close>

lemma main_run_inv:
  assumes C: "handler_class C good" and alloc: "alloc_ok alloc" and w: "interest (w_trace w) = (\<lambda>_. None)"
    and run: "main_run (loop_step C K alloc) env argv w s"
  shows "loop_inv C good (me_acceptor env) (me_socket env (snd (parse_args argv config_init))) s"
proof -
  obtain cf where "parse_args argv config_init = (fst (parse_args argv config_init), cf)"
    by (metis prod.collapse)
  then have "loop_run C K alloc (Running (acceptor_new (me_acceptor env) (me_socket env cf) (me_epfd env) w) []) s"
    using run by (auto simp: main_run_def server_start_def split: if_splits prod.splits)
  from handler_class.loop_inv_run [OF C alloc w this] show ?thesis
    by (metis \<open>parse_args argv config_init = (fst (parse_args argv config_init), cf)\<close> snd_conv)
qed

definition fault_free :: "(('c, 'k) loop_state \<Rightarrow> bool) \<Rightarrow> bool" where
  "fault_free reaches \<longleftrightarrow> \<not> reaches (Crashed UseAfterFree) \<and> \<not> reaches (Crashed NoReturn)"

lemma main_run_safe:
  assumes "handler_class C good" "alloc_ok alloc" "interest (w_trace w) = (\<lambda>_. None)"
  shows "fault_free (main_run (loop_step C K alloc) env argv w)"
  using main_run_inv [OF assms, where s = "Crashed UseAfterFree"] main_run_inv [OF assms, where s = "Crashed NoReturn"]
  by (auto simp: fault_free_def loop_inv_def)

lemma main_run_conns:
  assumes C: "handler_class C good" and "alloc_ok alloc" "interest (w_trace w) = (\<lambda>_. None)"
    and "main_run (loop_step C K alloc) env argv w (Running sv es)"
  shows "sv_conns sv p = Some c \<Longrightarrow> good c (sv_world sv)"
    "interest (w_trace (sv_world sv)) fd \<noteq> None \<longleftrightarrow>
      fd = sv_listen sv \<or> (\<exists>!p. \<exists>c. sv_conns sv p = Some c \<and> cc_fd C c = fd)"
proof -
  have inv: "sv_inv C good sv"
    using main_run_inv [OF assms] by (simp add: loop_inv_def)
  show "sv_conns sv p = Some c \<Longrightarrow> good c (sv_world sv)"
    by (rule sv_invD(1) [OF inv])
  show "interest (w_trace (sv_world sv)) fd \<noteq> None \<longleftrightarrow>
      fd = sv_listen sv \<or> (\<exists>!p. \<exists>c. sv_conns sv p = Some c \<and> cc_fd C c = fd)"
    by (rule handler_class.inv_registered [OF C inv])
qed

lemma main_run_echo:
  assumes C: "handler_class C good" and "alloc_ok alloc" "interest (w_trace w) = (\<lambda>_. None)"
    and run: "main_run (loop_step C K alloc) env argv w (Running sv es)"
    and fd: "cc_fd C = cn_fd" and good: "\<And>c w. good c w \<Longrightarrow> echo_ok m c w"
    and p: "sv_conns sv p = Some c"
  shows "sent_on (cn_fd c) (w_trace (sv_world sv)) @ ring_items m (cn_buf c)
      = received_on (cn_fd c) (w_trace (sv_world sv)) \<and>
    (\<forall>q d. sv_conns sv q = Some d \<longrightarrow> q \<noteq> p \<longrightarrow> cn_fd d \<noteq> cn_fd c)"
proof -
  have inv: "sv_inv C good sv"
    using main_run_inv [OF assms(1-4)] by (simp add: loop_inv_def)
  have "cn_fd d \<noteq> cn_fd c" if "sv_conns sv q = Some d" "q \<noteq> p" for q d
    using handler_class.fds_distinct [OF C inv that(1) p that(2)] fd by simp
  then show ?thesis
    using good [OF sv_invD(1) [OF inv p]] by (simp add: echo_ok_def)
qed

text \<open>A run to look at: \<^verbatim>\<open>main\<close> starts, epoll reports the listener, a connection is accepted.\<close>

definition net_script :: "script net_kernel" where
  "net_script = \<lparr>k_recv = script_recv, k_send = script_send, k_accept = (\<lambda>_ s. (Accepted 5, s))\<rparr>"

definition first_free :: "('c, 'k) server \<Rightarrow> nat" where
  "first_free sv = (LEAST p. sv_conns sv p = None \<and> p \<noteq> sv_acceptor sv)"

definition demo_env :: main_env where
  "demo_env = \<lparr>me_acceptor = 0, me_socket = (\<lambda>_. 3), me_epfd = 4\<rparr>"

lemma net_script_ok [simp]: "kernel_ok net_script"
  by (auto simp: kernel_ok_def net_script_def script_recv_bound script_send_bound)

lemma first_free_ok [simp]: "alloc_ok (first_free :: ('c, 'k) server \<Rightarrow> nat)"
proof -
  have "sv_conns sv (first_free sv) = None \<and> first_free sv \<noteq> sv_acceptor sv"
    if "finite (dom (sv_conns sv))" for sv :: "('c, 'k) server"
  proof -
    have "finite (insert (sv_acceptor sv) (dom (sv_conns sv)))"
      using that by simp
    then obtain p where "p \<notin> insert (sv_acceptor sv) (dom (sv_conns sv))"
      by (meson infinite_UNIV_nat ex_new_if_finite)
    then have "sv_conns sv p = None \<and> p \<noteq> sv_acceptor sv"
      by auto
    then show ?thesis
      unfolding first_free_def by (rule LeastI)
  qed
  then show ?thesis
    by (simp add: alloc_ok_def)
qed

definition demo_listening :: "('c, script) server" where
  "demo_listening = acceptor_new 0 3 4 (run_world [] [])"

definition demo_accepted :: "(lt_conn, script) server" where
  "demo_accepted = make_connection (epollin_connection net_script (\<lambda>_. 0)) first_free 5 demo_listening"

lemma demo_start: "server_start demo_env [''server'', ''80''] (run_world [] []) = Inr (Running demo_listening [])"
proof -
  have "fst (parse_args [''server'', ''80''] config_init) = 0" by code_simp
  then show ?thesis
    by (cases "parse_args [''server'', ''80''] config_init")
      (simp add: server_start_def demo_env_def demo_listening_def)
qed

lemma demo_wait: "loop_step C K alloc (Running demo_listening []) (Running demo_listening [(0, ev)])"
  by (rule loop_step.wait) (simp add: epoll_batch_ok_def max_events_def demo_listening_def acceptor_new_def)

lemma demo_run: "epollin_main net_script (\<lambda>_. 0) first_free demo_env [''server'', ''80''] (run_world [] [])
    (Running demo_accepted [])"
proof -
  let ?C = "epollin_connection net_script (\<lambda>_. 0)"
  have "\<not> has EPOLLIN (NOT EPOLLIN)"
    by (simp add: has_def epoll_flags)
  then have "dispatch_event ?C net_script first_free (0, EPOLLIN) demo_listening = Inr demo_accepted"
    by (simp add: dispatch_event_def acceptor_handle_def net_script_def demo_listening_def acceptor_new_def
        demo_accepted_def emit_def)
  then have "loop_step ?C net_script first_free (Running demo_listening [(0, EPOLLIN)]) (Running demo_accepted [])"
    by (intro loop_step.dispatch)
      (simp_all add: accept_fresh_def net_script_def demo_listening_def acceptor_new_def)
  then have "loop_run ?C net_script first_free (Running demo_listening []) (Running demo_accepted [])"
    using demo_wait by (meson converse_rtranclp_into_rtranclp r_into_rtranclp)
  then show ?thesis
    unfolding epollin_main_def epollin_loop_def main_run_def using demo_start by blast
qed

lemma demo_conn: "sv_conns demo_accepted 1 = Some (fst (lt_new 4096 (\<lambda>_. 0) 5 4 (run_world [] [])))"
proof -
  have "first_free (demo_listening :: (lt_conn, script) server) = 1"
    unfolding first_free_def
    by (rule Least_equality) (auto simp: demo_listening_def acceptor_new_def)
  then show ?thesis
    by (simp add: demo_accepted_def make_connection_def epollin_connection_def lt_class_def lt_new_def Let_def
        demo_listening_def acceptor_new_def)
qed

lemma run_world_quiet [simp]: "interest (w_trace (run_world rs ss)) = (\<lambda>_. None)"
  by (simp add: run_world_def interest_def)

section \<open>What the programs promise\<close>

text \<open>C1: no server calls a deleted connection, and no handler call of a server hangs.  Whatever epoll
  reports within its contract, however connections come and go and whatever addresses and descriptors are
  reused, none of the nine programs reaches a state in which the loop calls \<^verbatim>\<open>handle\<close> on a freed object
  or in which a handler does not return.\<close>

theorem servers_memory_safe:
  fixes K :: "('k, 'z) net_kernel_scheme"
  assumes "kernel_ok K" "interest (w_trace w) = (\<lambda>_. None)" "alloc_ok lt_alloc" "alloc_ok out_alloc"
    "alloc_ok et_alloc" "alloc_ok rsp_alloc" "alloc_ok et_rsp_alloc"
  shows "fault_free (epollin_main K junk lt_alloc env argv w) \<and>
    fault_free (epollin_native_main K junk lt_alloc env argv w) \<and>
    fault_free (epollout_main K junk out_alloc env argv w) \<and>
    fault_free (epollout_native_main K junk out_alloc env argv w) \<and>
    fault_free (epollet_main K junk et_alloc env argv w) \<and>
    fault_free (response_main K junk rsp_alloc env argv w) \<and>
    fault_free (et_response_main K junk et_rsp_alloc env argv w) \<and>
    fault_free (lt_recvmsg_main K junk lt_alloc env argv w) \<and>
    fault_free (et_recvmsg_main K junk et_alloc env argv w)"
  unfolding main_defs
  by (intro conjI; rule main_run_safe [OF class_laws(1) [OF assms(1)] assms(3,2)] main_run_safe [OF class_laws(2) [OF assms(1)] assms(3,2)]
      main_run_safe [OF class_laws(3) [OF assms(1)] assms(4,2)] main_run_safe [OF class_laws(4) [OF assms(1)] assms(4,2)]
      main_run_safe [OF class_laws(5) [OF assms(1)] assms(5,2)] main_run_safe [OF class_laws(6) [OF assms(1)] assms(6,2)]
      main_run_safe [OF class_laws(7) [OF assms(1)] assms(7,2)] main_run_safe [OF class_laws(8) [OF assms(1)] assms(3,2)]
      main_run_safe [OF class_laws(9) [OF assms(1)] assms(5,2)])

lemma servers_memory_safe_witness:
  "fault_free (epollin_main net_script (\<lambda>_. 0) first_free demo_env [''server'', ''80''] (run_world [] []))"
  using servers_memory_safe [OF net_script_ok run_world_quiet first_free_ok first_free_ok first_free_ok
      first_free_ok first_free_ok] by blast



text \<open>no descriptor stays registered without its object.  In every state of the response server, the
  descriptors registered with epoll are the listener's and exactly one for each live connection object: the
  destructor removes the registration of what the loop deletes, and nothing else does.\<close>

theorem response_server_registrations:
  assumes "kernel_ok K" "interest (w_trace w) = (\<lambda>_. None)" "alloc_ok alloc"
    and "response_main K junk alloc env argv w (Running sv es)"
  shows "interest (w_trace (sv_world sv)) fd \<noteq> None \<longleftrightarrow>
    fd = sv_listen sv \<or> (\<exists>!p. \<exists>c. sv_conns sv p = Some c \<and> cn_fd c = fd)"
proof -
  have "cc_fd (response_connection K junk) = cn_fd"
    by (simp add: response_connection_def lt_rsp_class_def)
  then show ?thesis
    using main_run_conns(2) [OF class_laws(6) [OF assms(1)] assms(3,2) assms(4) [unfolded main_defs]] by simp
qed

lemma response_server_registrations_witness:
  "interest (w_trace (sv_world (demo_listening :: (lt_rsp_conn, script) server))) 3 \<noteq> None"
proof -
  have "response_main net_script (\<lambda>_. 0) first_free demo_env [''server'', ''80''] (run_world [] [])
      (Running demo_listening [])"
    unfolding response_main_def response_loop_def main_run_def using demo_start by blast
  from response_server_registrations [OF net_script_ok run_world_quiet first_free_ok this, of 3]
  show ?thesis
    by (simp add: demo_listening_def acceptor_new_def)
qed

text \<open>An error on the listener makes the loop delete an object on the stack.  \<^verbatim>\<open>main\<close> keeps the acceptor in
  a local variable, but the loop applies \<^verbatim>\<open>delete\<close> to every handler that returns a negative value: that
  happens to the acceptor exactly when an event other than EPOLLIN is reported for it, or \<^verbatim>\<open>accept4\<close>
  fails with an error other than "try again" (running out of descriptors, for one).\<close>

lemma acceptor_deleted_on_error:
  "dispatch_event C K alloc (sv_acceptor sv, ev) sv = Inl DeleteOfStackObject \<longleftrightarrow>
    has ev (NOT EPOLLIN) \<or> (\<exists>e s. k_accept K (sv_listen sv) (w_os (sv_world sv)) = (AcceptErr e, s) \<and> \<not> again e)"
  by (auto simp: dispatch_event_def acceptor_handle_def split: prod.splits accept_res.splits if_splits)

end
