(* ===== verification/Simple_Echo.thy ===== *)
theory Simple_Echo
  imports Event_Loop Config "HOL-Library.Sublist"
begin

text \<open>
  The simple epoll servers of \<^verbatim>\<open>tcp_echo/\<close>: \<^verbatim>\<open>server_epoll.cpp\<close> and \<^verbatim>\<open>server_epoll_reuseport.cpp\<close>, whose
  events carry a descriptor, and \<^verbatim>\<open>server_epoll_handle.cpp\<close> with its C variant
  \<^verbatim>\<open>server_epoll_handle.c\<close>, whose events carry a pointer to a handler (null for the listener).  A connection
  has no buffer of its own: an event is answered by one \<^verbatim>\<open>recv\<close> into a buffer that the loop owns and one
  \<^verbatim>\<open>send\<close> of what was read (``this has not failure tolerrance'', as a comment says).  So what these programs
  promise is weaker than what the ring-buffer servers do: bytes that \<^verbatim>\<open>send\<close> does not take are dropped.
  \<open>relayed\<close> states it with a switch: what is sent is a subsequence of what is received, and equal to it if the
  kernel takes all that is offered.
\<close>

section \<open>One receive, one send\<close>

definition simple_buf_size :: nat where "simple_buf_size = 4096"

definition recv_send :: "('k, 'z) kernel_scheme \<Rightarrow> nat \<Rightarrow> int \<Rightarrow> 'k world \<Rightarrow> int \<times> 'k world" where
  "recv_send K len fd w =
    (case sys_recv K fd len w of
      (RecvErr e, w1) \<Rightarrow> (-1, w1)
    | (RecvData bs, w1) \<Rightarrow>
        if length bs = 0 then (0, w1)
        else case sys_send K fd bs w1 of
          (SendLen n, w2) \<Rightarrow> (int n, w2)
        | (SendErr e, w2) \<Rightarrow> (-1, w2))"

definition handle_echo :: "('k, 'z) kernel_scheme \<Rightarrow> int \<Rightarrow> 'k world \<Rightarrow> int \<times> 'k world" where
  "handle_echo K = recv_send K simple_buf_size"

definition takes_all :: "('k, 'z) kernel_scheme \<Rightarrow> bool" where
  "takes_all K \<longleftrightarrow> (\<forall>fd bs s. fst (k_send K fd bs s) = SendLen (length bs))"

definition relayed :: "bool \<Rightarrow> int \<Rightarrow> 'k world \<Rightarrow> bool" where
  "relayed full fd w \<longleftrightarrow>
    (if full then sent_on fd (w_trace w) = received_on fd (w_trace w)
     else subseq (sent_on fd (w_trace w)) (received_on fd (w_trace w)))"

lemma relayed_frame: "relayed full fd w \<Longrightarrow> only_on g w w' \<Longrightarrow> g \<noteq> fd \<Longrightarrow> relayed full fd w'"
  by (simp add: relayed_def only_on_frame)

lemma relayed_add [simp]: "relayed full fd (emit (CtlAdd fd ev) w)"
  by (simp add: relayed_def)

lemma relayed_add_other [simp]: "g \<noteq> fd \<Longrightarrow> relayed full fd (emit (CtlAdd g ev) w) = relayed full fd w"
  by (simp add: relayed_def)

lemma relayed_os [simp]: "relayed full fd (w\<lparr>w_os := s\<rparr>) = relayed full fd w"
  by (simp add: relayed_def)

lemma relayed_exchange:
  assumes "relayed full fd w" "n \<le> length bs" "full \<Longrightarrow> n = length bs"
    and "w_trace w' = w_trace w @ [Recvd fd bs, Sent fd (take n bs)]"
  shows "relayed full fd w'"
  using assms take_is_prefix [of n bs]
  by (auto simp: relayed_def intro: list_emb_append_mono prefix_imp_subseq)

lemma recv_send_only: "recv_send K len fd w = (ret, w') \<Longrightarrow> only_on fd w w'"
  by (auto simp: recv_send_def split: prod.splits recv_res.splits send_res.splits if_splits
      dest!: sys_recv_only sys_send_only intro: only_on_trans)

lemma recv_send_law:
  assumes K: "kernel_ok K" and full: "full \<Longrightarrow> takes_all K" and run: "recv_send K len fd w = (ret, w')"
    and rel: "relayed full fd w"
  shows "relayed full fd w'" "interest (w_trace w') = interest (w_trace w)"
    "ret = 0 \<Longrightarrow> saw_eof fd w' \<or> \<not> takes_all K"
proof -
  obtain res w1 where rc: "sys_recv K fd len w = (res, w1)"
    by (cases "sys_recv K fd len w")
  have "relayed full fd w' \<and> interest (w_trace w') = interest (w_trace w) \<and>
    (ret = 0 \<longrightarrow> saw_eof fd w' \<or> \<not> takes_all K)"
    using K rc
  proof (cases rule: sys_recv_cases)
    case (error e)
    then show ?thesis
      using run rc rel by (auto simp: recv_send_def relayed_def)
  next
    case (data bs)
    show ?thesis
    proof (cases "length bs = 0")
      case True
      then have "ret = 0" "w' = w1"
        using run rc data by (simp_all add: recv_send_def)
      then show ?thesis
        using data True rel by (auto simp: saw_eof_def relayed_def)
    next
      case False
      obtain sres w2 where sd: "sys_send K fd bs w1 = (sres, w2)"
        by (cases "sys_send K fd bs w1")
      show ?thesis
        using K sd
      proof (cases rule: sys_send_cases)
        case (error e)
        then have "\<not> takes_all K"
          unfolding takes_all_def by (metis fst_conv send_res.distinct(1))
        then show ?thesis
          using error data False run rc sd rel full
          by (auto simp: recv_send_def relayed_def intro: list_emb_append2)
      next
        case (sent n)
        have tr: "w_trace w2 = w_trace w @ [Recvd fd bs, Sent fd (take n bs)]"
          using data sent by simp
        have all: "n = length bs" if "takes_all K"
        proof -
          have "fst (sys_send K fd bs w1) = SendLen (length bs)"
            using that by (auto simp: takes_all_def sys_send_def split: prod.splits send_res.splits)
              (metis fst_conv send_res.inject(1) send_res.distinct(1))+
          then show ?thesis
            using sd sent by simp
        qed
        have "w' = w2" "ret = int n"
          using run rc data False sd sent by (simp_all add: recv_send_def)
        moreover have "relayed full fd w2"
          by (rule relayed_exchange [OF rel sent(2) all [OF full] tr])
        ultimately show ?thesis
          using tr all False by auto
      qed
    qed
  qed
  then show "relayed full fd w'" "interest (w_trace w') = interest (w_trace w)"
    "ret = 0 \<Longrightarrow> saw_eof fd w' \<or> \<not> takes_all K"
    by blast+
qed

lemmas handle_echo_only = recv_send_only [where len = simple_buf_size, folded handle_echo_def]
lemmas handle_echo_law = recv_send_law [where len = simple_buf_size, folded handle_echo_def]

section \<open>Servers whose events carry a descriptor\<close>

definition fd_accept :: "('k, 'z) net_kernel_scheme \<Rightarrow> int \<Rightarrow> 'k world \<Rightarrow> 'k world" where
  "fd_accept K lfd w =
    (case k_accept K lfd (w_os w) of
      (AcceptErr e, s) \<Rightarrow> w\<lparr>w_os := s\<rparr>
    | (Accepted fd, s) \<Rightarrow> emit (CtlAdd fd EPOLLIN) (w\<lparr>w_os := s\<rparr>))"

definition close_fd :: "int \<Rightarrow> 'k world \<Rightarrow> 'k world" where
  "close_fd fd w = emit (Closed fd) (emit (CtlDel fd) w)"

text \<open>
  The body of the two loops over the events.  The test of both is \<^verbatim>\<open>event.events | EPOLLIN\<close>, an
  or.  \<^verbatim>\<open>server_epoll.cpp\<close> closes when the result of the echo is 0, \<^verbatim>\<open>server_epoll_reuseport.cpp\<close> when it
  is not positive.
\<close>

definition epoll_event :: "('k, 'z) net_kernel_scheme \<Rightarrow> int \<Rightarrow> int \<times> u32 \<Rightarrow> 'k world \<Rightarrow> 'k world" where
  "epoll_event K lfd = (\<lambda>(fd, ev) w.
    if ev OR EPOLLIN \<noteq> 0 then
      (if fd = lfd then fd_accept K lfd w
       else case handle_echo K fd w of (ret, w1) \<Rightarrow> if ret = 0 then close_fd fd w1 else w1)
    else close_fd fd w)"

definition reuseport_event :: "('k, 'z) net_kernel_scheme \<Rightarrow> int \<Rightarrow> int \<times> u32 \<Rightarrow> 'k world \<Rightarrow> 'k world" where
  "reuseport_event K lfd = (\<lambda>(fd, ev) w.
    if ev OR EPOLLIN \<noteq> 0 then
      (if fd = lfd then fd_accept K lfd w
       else case handle_echo K fd w of (ret, w1) \<Rightarrow> if ret \<le> 0 then close_fd fd w1 else w1)
    else close_fd fd w)"

definition simple_max_events :: nat where "simple_max_events = 4096"

text \<open>
  The contracts of \<^verbatim>\<open>epoll_wait\<close> and \<^verbatim>\<open>accept4\<close> as before, with the registrations read off the trace.
\<close>

definition fd_batch_ok :: "'k world \<Rightarrow> (int \<times> u32) list \<Rightarrow> bool" where
  "fd_batch_ok w batch \<longleftrightarrow> length batch \<le> simple_max_events \<and> distinct (map fst batch) \<and>
    (\<forall>(fd, ev) \<in> set batch. interest (w_trace w) fd \<noteq> None)"

definition fd_accept_fresh :: "('k, 'z) net_kernel_scheme \<Rightarrow> int \<Rightarrow> 'k world \<Rightarrow> bool" where
  "fd_accept_fresh K lfd w \<longleftrightarrow>
    (case k_accept K lfd (w_os w) of
      (Accepted fd, _) \<Rightarrow> interest (w_trace w) fd = None | (AcceptErr e, _) \<Rightarrow> True)"

definition fd_loop_start :: "int \<Rightarrow> 'k world \<Rightarrow> 'k world \<times> (int \<times> u32) list" where
  "fd_loop_start lfd w = (emit (CtlAdd lfd EPOLLIN) w, [])"

text \<open>In the step \<open>others\<close> the peers act, and in \<^verbatim>\<open>server_epoll_reuseport.cpp\<close> the other threads.\<close>

inductive fd_loop_step :: "(int \<Rightarrow> int \<times> u32 \<Rightarrow> 'k world \<Rightarrow> 'k world) \<Rightarrow> ('k, 'z) net_kernel_scheme \<Rightarrow> int \<Rightarrow>
    'k world \<times> (int \<times> u32) list \<Rightarrow> 'k world \<times> (int \<times> u32) list \<Rightarrow> bool"
  for event K lfd where
  wait: "fd_batch_ok w batch \<Longrightarrow> fd_loop_step event K lfd (w, []) (w, batch)"
| dispatch: "(fst e = lfd \<longrightarrow> fd_accept_fresh K lfd w) \<Longrightarrow> fd_loop_step event K lfd (w, e # es) (event lfd e w, es)"
| others: "fd_loop_step event K lfd (w, es) (w\<lparr>w_os := s\<rparr>, es)"

definition epoll_loop :: "('k, 'z) net_kernel_scheme \<Rightarrow> int \<Rightarrow> 'k world \<times> (int \<times> u32) list \<Rightarrow>
    'k world \<times> (int \<times> u32) list \<Rightarrow> bool" where
  "epoll_loop K = fd_loop_step (epoll_event K) K"

definition reuseport_loop :: "('k, 'z) net_kernel_scheme \<Rightarrow> int \<Rightarrow> 'k world \<times> (int \<times> u32) list \<Rightarrow>
    'k world \<times> (int \<times> u32) list \<Rightarrow> bool" where
  "reuseport_loop K = fd_loop_step (reuseport_event K) K"

text \<open>What the loop relies on in its body: the listener accepts, a connection is served or closed.\<close>

locale fd_server =
  fixes event :: "int \<Rightarrow> int \<times> u32 \<Rightarrow> 'k world \<Rightarrow> 'k world"
    and K :: "('k, 'z) net_kernel_scheme"
  assumes listener: "event lfd (lfd, ev) w = fd_accept K lfd w"
    and connection: "fd \<noteq> lfd \<Longrightarrow> handle_echo K fd w = (ret, w1) \<Longrightarrow>
      event lfd (fd, ev) w = w1 \<or> event lfd (fd, ev) w = close_fd fd w1"

text \<open>The listener is registered, every other registered descriptor is relayed, and each event still to
  be dispatched is about a registered descriptor.\<close>

definition fd_inv :: "bool \<Rightarrow> int \<Rightarrow> 'k world \<times> (int \<times> u32) list \<Rightarrow> bool" where
  "fd_inv full lfd = (\<lambda>(w, es). interest (w_trace w) lfd \<noteq> None \<and>
    (\<forall>fd. fd \<noteq> lfd \<longrightarrow> interest (w_trace w) fd \<noteq> None \<longrightarrow> relayed full fd w) \<and>
    distinct (map fst es) \<and> (\<forall>fd \<in> fst ` set es. interest (w_trace w) fd \<noteq> None))"

lemma fd_invI:
  assumes "interest (w_trace w) lfd \<noteq> None" "distinct (map fst es)"
    and "\<And>fd. fd \<noteq> lfd \<Longrightarrow> interest (w_trace w) fd \<noteq> None \<Longrightarrow> relayed full fd w"
    and "\<And>fd. fd \<in> fst ` set es \<Longrightarrow> interest (w_trace w) fd \<noteq> None"
  shows "fd_inv full lfd (w, es)"
  using assms by (simp add: fd_inv_def)

lemma fd_invD:
  assumes "fd_inv full lfd (w, es)"
  shows "interest (w_trace w) lfd \<noteq> None" "distinct (map fst es)"
    "fd \<noteq> lfd \<Longrightarrow> interest (w_trace w) fd \<noteq> None \<Longrightarrow> relayed full fd w"
    "fd \<in> fst ` set es \<Longrightarrow> interest (w_trace w) fd \<noteq> None"
  using assms by (auto simp: fd_inv_def)

lemma close_fd_facts [simp]:
  "interest (w_trace (close_fd fd w)) = (interest (w_trace w))(fd := None)"
  "relayed full g (close_fd fd w) = relayed full g w"
  by (simp_all add: close_fd_def relayed_def)

lemma fd_inv_accept:
  assumes inv: "fd_inv full lfd (w, e # es)" and fresh: "fd_accept_fresh K lfd w"
  shows "fd_inv full lfd (fd_accept K lfd w, es)"
proof (cases "k_accept K lfd (w_os w)")
  case (Pair r s)
  show ?thesis
  proof (cases r)
    case (AcceptErr e')
    then show ?thesis
      using Pair inv by (auto simp: fd_inv_def fd_accept_def)
  next
    case (Accepted fd)
    let ?w = "emit (CtlAdd fd EPOLLIN) (w\<lparr>w_os := s\<rparr>)"
    have new: "interest (w_trace w) fd = None"
      using fresh Pair Accepted by (simp add: fd_accept_fresh_def)
    have "relayed full g ?w" if "g \<noteq> lfd" "interest (w_trace ?w) g \<noteq> None" for g
    proof (cases "g = fd")
      case False
      then have "relayed full g w"
        using fd_invD(3) [OF inv that(1)] that(2) by simp
      then show ?thesis
        using False by simp
    qed simp
    then have "fd_inv full lfd (?w, es)"
      using fd_invD(1,2,4) [OF inv] by (intro fd_invI) auto
    then show ?thesis
      using Pair Accepted by (simp add: fd_accept_def)
  qed
qed

context fd_server
begin

lemma inv_dispatch:
  assumes K: "kernel_ok K" and full: "full \<Longrightarrow> takes_all K"
    and fresh: "fd = lfd \<Longrightarrow> fd_accept_fresh K lfd w" and inv: "fd_inv full lfd (w, (fd, ev) # es)"
  shows "fd_inv full lfd (event lfd (fd, ev) w, es)"
proof (cases "fd = lfd")
  case True
  then show ?thesis
    using fd_inv_accept [OF inv fresh [OF True]] listener by simp
next
  case False
  obtain ret w1 where run: "handle_echo K fd w = (ret, w1)"
    by (cases "handle_echo K fd w")
  have "relayed full fd w"
    using fd_invD(3) [OF inv False] fd_invD(4) [OF inv] by simp
  note law = handle_echo_law [OF K full run this]
  have rel: "relayed full g w1" if "g \<noteq> lfd" "interest (w_trace w) g \<noteq> None" for g
    using relayed_frame [OF fd_invD(3) [OF inv that] handle_echo_only [OF run]] law(1) by metis
  have es: "fd \<notin> fst ` set es" "distinct (map fst es)"
    using fd_invD(2) [OF inv] by (simp_all add: image_image)
  have "fd_inv full lfd (w1, es)"
    using fd_invD(1,4) [OF inv] law(2) rel es by (intro fd_invI) auto
  moreover have "fd_inv full lfd (close_fd fd w1, es)"
    using fd_invD(1,4) [OF inv] law(2) rel es False by (intro fd_invI) (auto split: if_splits)
  ultimately show ?thesis
    using connection [OF False run] by metis
qed

lemma inv_step:
  assumes "kernel_ok K" "full \<Longrightarrow> takes_all K" "fd_loop_step event K lfd s s'" "fd_inv full lfd s"
  shows "fd_inv full lfd s'"
  using assms(3,4)
proof (cases rule: fd_loop_step.cases)
  case (wait w batch)
  then show ?thesis
    using assms(4) by (auto simp: fd_inv_def fd_batch_ok_def)
next
  case (dispatch e w es)
  then show ?thesis
    using assms(4) inv_dispatch [OF assms(1,2), where fd = "fst e" and ev = "snd e" and es = es] by simp
next
  case (others w es s)
  then show ?thesis
    using assms(4) by (simp add: fd_inv_def)
qed

lemma inv_run:
  assumes "kernel_ok K" "full \<Longrightarrow> takes_all K" "interest (w_trace w0) = (\<lambda>_. None)"
    and "(fd_loop_step event K lfd)\<^sup>*\<^sup>* (fd_loop_start lfd w0) s"
  shows "fd_inv full lfd s"
  using assms(4)
proof (induction rule: rtranclp_induct)
  case base
  show ?case
    using assms(3) by (simp add: fd_inv_def fd_loop_start_def)
next
  case (step s s')
  then show ?case
    using inv_step [OF assms(1,2)] by blast
qed

end

lemma or_EPOLLIN: "ev OR EPOLLIN \<noteq> 0"
proof
  have "bit (ev OR EPOLLIN) 0"
    by (simp add: bit_or_iff EPOLLIN_def)
  moreover assume "ev OR EPOLLIN = 0"
  ultimately show False by simp
qed

interpretation epoll_fds: fd_server "epoll_event K" K for K
  by unfold_locales (simp_all add: epoll_event_def or_EPOLLIN split: prod.splits)

interpretation reuseport_fds: fd_server "reuseport_event K" K for K
  by unfold_locales (simp_all add: reuseport_event_def or_EPOLLIN split: prod.splits)

text \<open>The or makes the test constant: an error or a hang-up is handled like input.\<close>

lemma event_flags_ignored:
  "epoll_event K lfd (fd, ev) = epoll_event K lfd (fd, ev')"
  "reuseport_event K lfd (fd, ev) = reuseport_event K lfd (fd, ev')"
  by (simp_all add: epoll_event_def reuseport_event_def or_EPOLLIN)

text \<open>After a failed call \<^verbatim>\<open>server_epoll.cpp\<close> keeps the descriptor, its sibling closes it.\<close>

lemma failed_echo:
  assumes "fd \<noteq> lfd" "handle_echo K fd w = (ret, w1)" "ret < 0"
  shows "epoll_event K lfd (fd, ev) w = w1" "reuseport_event K lfd (fd, ev) w = close_fd fd w1"
  using assms by (simp_all add: epoll_event_def reuseport_event_def or_EPOLLIN)

section \<open>\<^verbatim>\<open>server_epoll_handle.cpp\<close>\<close>

record plain_conn =
  pc_fd :: int
  pc_epfd :: int

definition plain_new :: "int \<Rightarrow> int \<Rightarrow> 'k world \<Rightarrow> plain_conn \<times> 'k world" where
  "plain_new fd epfd w = (\<lparr>pc_fd = fd, pc_epfd = epfd\<rparr>, emit (CtlAdd fd EPOLLIN) w)"

definition plain_handle :: "('k, 'z) kernel_scheme \<Rightarrow> u32 \<Rightarrow> plain_conn \<times> 'k world \<Rightarrow> int \<times> plain_conn \<times> 'k world" where
  "plain_handle K ev = (\<lambda>(c, w).
    if has ev EPOLLIN then
      (case handle_echo K (pc_fd c) w of (r, w1) \<Rightarrow> (if r \<le> 0 then -1 else 0, c, w1))
    else (-1, c, w))"

definition plain_delete :: "plain_conn \<times> 'k world \<Rightarrow> 'k world" where
  "plain_delete = (\<lambda>(c, w). emit (Closed (pc_fd c)) (emit (CtlDel (pc_fd c)) w))"

definition plain_class :: "('k, 'z) kernel_scheme \<Rightarrow> (plain_conn, 'k) conn_class" where
  "plain_class K = \<lparr>cc_new = plain_new, cc_handle = (\<lambda>ev s. Some (plain_handle K ev s)),
    cc_delete = plain_delete, cc_fd = pc_fd\<rparr>"

text \<open>
  The loop: the listener is registered with a null pointer (address 0 here, which \<^verbatim>\<open>new\<close> never returns) and
  is served by a function, so there is no acceptor object that could be deleted.
\<close>

definition plain_accept :: "('c, 'k) conn_class \<Rightarrow> ('k, 'z) net_kernel_scheme \<Rightarrow> (('c, 'k) server \<Rightarrow> nat) \<Rightarrow>
    ('c, 'k) server \<Rightarrow> ('c, 'k) server" where
  "plain_accept C K alloc sv =
    (case k_accept K (sv_listen sv) (w_os (sv_world sv)) of
      (AcceptErr e, s) \<Rightarrow> sv\<lparr>sv_world := (sv_world sv)\<lparr>w_os := s\<rparr>\<rparr>
    | (Accepted fd, s) \<Rightarrow> make_connection C alloc fd (sv\<lparr>sv_world := (sv_world sv)\<lparr>w_os := s\<rparr>\<rparr>))"

definition plain_dispatch :: "('c, 'k) conn_class \<Rightarrow> ('k, 'z) net_kernel_scheme \<Rightarrow> (('c, 'k) server \<Rightarrow> nat) \<Rightarrow>
    nat \<times> u32 \<Rightarrow> ('c, 'k) server \<Rightarrow> fault + ('c, 'k) server" where
  "plain_dispatch C K alloc = (\<lambda>(data, ev) sv.
    if data = 0 then Inr (plain_accept C K alloc sv)
    else case sv_conns sv data of
      None \<Rightarrow> Inl UseAfterFree
    | Some c \<Rightarrow> (case cc_handle C ev (c, sv_world sv) of
        None \<Rightarrow> Inl NoReturn
      | Some (ret, c1, w1) \<Rightarrow>
        let sv1 = sv\<lparr>sv_conns := (sv_conns sv)(data \<mapsto> c1), sv_world := w1\<rparr> in
        if ret < 0 then Inr (delete_conn C data c1 sv1) else Inr sv1))"

definition plain_batch_ok :: "('c, 'k) server \<Rightarrow> (nat \<times> u32) list \<Rightarrow> bool" where
  "plain_batch_ok sv batch \<longleftrightarrow> length batch \<le> simple_max_events \<and> distinct (map fst batch) \<and>
    (\<forall>(p, ev) \<in> set batch. p \<in> ran (sv_regs sv))"

inductive plain_step :: "('c, 'k) conn_class \<Rightarrow> ('k, 'z) net_kernel_scheme \<Rightarrow> (('c, 'k) server \<Rightarrow> nat) \<Rightarrow>
    ('c, 'k) loop_state \<Rightarrow> ('c, 'k) loop_state \<Rightarrow> bool"
  for C K alloc where
  wait: "plain_batch_ok sv batch \<Longrightarrow> plain_step C K alloc (Running sv []) (Running sv batch)"
| dispatch: "accept_fresh K sv \<Longrightarrow> plain_dispatch C K alloc e sv = Inr sv' \<Longrightarrow>
    plain_step C K alloc (Running sv (e # es)) (Running sv' es)"
| fault: "accept_fresh K sv \<Longrightarrow> plain_dispatch C K alloc e sv = Inl f \<Longrightarrow>
    plain_step C K alloc (Running sv (e # es)) (Crashed f)"

definition plain_loop_start :: "int \<Rightarrow> int \<Rightarrow> 'k world \<Rightarrow> ('c, 'k) loop_state" where
  "plain_loop_start lfd epfd w = Running (acceptor_new 0 lfd epfd w) []"

definition plain_good :: "bool \<Rightarrow> plain_conn \<Rightarrow> 'k world \<Rightarrow> bool" where
  "plain_good full c w \<longleftrightarrow> interest (w_trace w) (pc_fd c) \<noteq> None \<and> relayed full (pc_fd c) w"

definition plain_inv :: "('c, 'k) conn_class \<Rightarrow> ('c \<Rightarrow> 'k world \<Rightarrow> bool) \<Rightarrow> ('c, 'k) loop_state \<Rightarrow> bool" where
  "plain_inv C good s = (case s of
      Running sv es \<Rightarrow> sv_inv C good sv \<and> pending_ok sv es \<and> sv_acceptor sv = 0
    | Crashed f \<Rightarrow> False)"

text \<open>Beside the listener the two loops dispatch alike.\<close>

lemma plain_dispatch_conn:
  "sv_acceptor sv = 0 \<Longrightarrow> fst e \<noteq> 0 \<Longrightarrow> plain_dispatch C K alloc e sv = dispatch_event C K alloc e sv"
  by (cases e) (simp add: plain_dispatch_def dispatch_event_def)

lemma plain_accept_handle:
  "plain_accept C K alloc sv = snd (acceptor_handle C K alloc EPOLLIN sv)"
proof -
  have "\<not> has EPOLLIN (NOT EPOLLIN)"
    by (simp add: has_def epoll_flags)
  then show ?thesis
    by (simp add: plain_accept_def acceptor_handle_def split: prod.splits accept_res.splits)
qed

context handler_class
begin

lemma plain_dispatch_law:
  assumes inv: "plain_inv C good (Running sv (e # es))" and alloc: "alloc_ok alloc" and fresh: "accept_fresh K sv"
  shows "\<exists>sv'. plain_dispatch C K alloc e sv = Inr sv' \<and> plain_inv C good (Running sv' es)"
proof -
  have i: "sv_inv C good sv" "pending_ok sv (e # es)" "sv_acceptor sv = 0"
    using inv by (simp_all add: plain_inv_def)
  show ?thesis
  proof (cases "fst e = 0")
    case True
    obtain ret sv' where a: "acceptor_handle C K alloc EPOLLIN sv = (ret, sv')"
      by (cases "acceptor_handle C K alloc EPOLLIN sv")
    have "sv_acceptor sv' = sv_acceptor sv \<and> (\<forall>q. sv_conns sv q \<noteq> None \<longrightarrow> sv_conns sv' q \<noteq> None)"
      using a by (auto simp: acceptor_handle_def make_connection_def Let_def
          split: if_splits prod.splits accept_res.splits)
    then have "plain_inv C good (Running sv' es)"
      using inv_accept [OF i(1) alloc fresh a] pending_mono [OF i(2), of sv'] i(3) by (simp add: plain_inv_def)
    then show ?thesis
      using True a by (cases e) (simp add: plain_dispatch_def plain_accept_handle)
  next
    case False
    then have same: "plain_dispatch C K alloc e sv = dispatch_event C K alloc e sv"
      using plain_dispatch_conn i(3) by simp
    show ?thesis
    proof (cases "dispatch_event C K alloc e sv")
      case (Inl f)
      then show ?thesis
        using dispatch_law [OF i(1) alloc fresh i(2)] False i(3) by simp
    next
      case (Inr sv')
      then show ?thesis
        using dispatch_law [OF i(1) alloc fresh i(2)] same i(3) by (simp add: plain_inv_def)
    qed
  qed
qed

lemma plain_inv_step:
  assumes "alloc_ok alloc" "plain_step C K alloc s s'" "plain_inv C good s"
  shows "plain_inv C good s'"
  using assms(2)
proof (cases rule: plain_step.cases)
  case (wait sv batch)
  then have "pending_ok sv batch"
    using assms(3) unfolding pending_ok_def plain_batch_ok_def plain_inv_def ran_def
    by (fastforce dest: sv_invD(3))
  then show ?thesis
    using wait assms(3) by (simp add: plain_inv_def)
next
  case (dispatch sv e sv' es)
  then show ?thesis
    using plain_dispatch_law [of sv e es alloc K] assms(1,3) by auto
next
  case (fault sv e f es)
  then show ?thesis
    using plain_dispatch_law [of sv e es alloc K] assms(1,3) by auto
qed

lemma plain_inv_run:
  assumes "alloc_ok alloc" "interest (w_trace w) = (\<lambda>_. None)"
    and "(plain_step C K alloc)\<^sup>*\<^sup>* (plain_loop_start lfd epfd w) s"
  shows "plain_inv C good s"
  using assms(3)
proof (induction rule: rtranclp_induct)
  case base
  show ?case
    using sv_inv_start [OF assms(2)]
    by (simp add: plain_inv_def plain_loop_start_def pending_ok_def acceptor_new_def)
next
  case (step s s')
  then show ?case
    using plain_inv_step [OF assms(1)] by blast
qed

end

lemma plain_handler_class:
  assumes K: "kernel_ok K" and full: "full \<Longrightarrow> takes_all K"
  shows "handler_class (plain_class K) (plain_good full)"
proof
  fix c ev ret c' and w w' :: "'a world"
  assume good: "plain_good full c w" and "cc_handle (plain_class K) ev (c, w) = Some (ret, c', w')"
  then have run: "plain_handle K ev (c, w) = (ret, c', w')"
    by (simp add: plain_class_def)
  obtain r w1 where h: "handle_echo K (pc_fd c) w = (r, w1)"
    by (cases "handle_echo K (pc_fd c) w")
  note law = handle_echo_law [OF K full h] handle_echo_only [OF h]
  have "only_on (pc_fd c) w w' \<and> c' = c" 
    using run h law by (auto simp: plain_handle_def split: if_splits)
  then show "only_on (cc_fd (plain_class K) c) w w' \<and> cc_fd (plain_class K) c' = cc_fd (plain_class K) c"
    by (simp add: plain_class_def)
  show "plain_good full c' w'" if "0 \<le> ret"
    using run h law good that by (auto simp: plain_handle_def plain_good_def split: if_splits)
next
  show "only_on (cc_fd (plain_class K) c) w (cc_delete (plain_class K) (c, w))" for c and w :: "'a world"
    by (auto simp: plain_class_def plain_delete_def only_on_def)
qed (auto simp: plain_class_def plain_new_def plain_delete_def plain_good_def only_on_frame relayed_frame)

section \<open>\<^verbatim>\<open>server_epoll_handle.c\<close>\<close>

text \<open>
  The same program in C: an object starts with two function pointers, \<^verbatim>\<open>handler\<close> and \<^verbatim>\<open>destructor\<close>, and
  the loop calls through them.  Each type of pointer has one function in this program.
\<close>

datatype epoll_handler_t = Connection_handler
datatype destructor_t = Connection_destructor

record c_connection =
  cx_handler :: epoll_handler_t
  cx_destructor :: destructor_t
  cx_fd :: int
  cx_epfd :: int

definition connection_constructor :: "int \<Rightarrow> int \<Rightarrow> 'k world \<Rightarrow> c_connection \<times> 'k world" where
  "connection_constructor fd epfd w =
    (\<lparr>cx_handler = Connection_handler, cx_destructor = Connection_destructor, cx_fd = fd, cx_epfd = epfd\<rparr>,
     emit (CtlAdd fd EPOLLIN) w)"

definition connection_echo :: "('k, 'z) kernel_scheme \<Rightarrow> c_connection \<times> 'k world \<Rightarrow> int \<times> c_connection \<times> 'k world" where
  "connection_echo K = (\<lambda>(conn, w).
    case sys_recv K (cx_fd conn) simple_buf_size w of
      (RecvErr e, w1) \<Rightarrow> (-1, conn, w1)
    | (RecvData bs, w1) \<Rightarrow>
        if bs = [] then (0, conn, w1)
        else case sys_send K (cx_fd conn) bs w1 of
          (SendLen n, w2) \<Rightarrow> (int n, conn, w2)
        | (SendErr e, w2) \<Rightarrow> (-1, conn, w2))"

definition connection_handler :: "('k, 'z) kernel_scheme \<Rightarrow> u32 \<Rightarrow> c_connection \<times> 'k world \<Rightarrow>
    int \<times> c_connection \<times> 'k world" where
  "connection_handler K ev s =
    (if has ev EPOLLIN then case connection_echo K s of (r, s1) \<Rightarrow> (if r \<le> 0 then -1 else 0, s1)
     else (-1, s))"

definition connection_destructor :: "c_connection \<times> 'k world \<Rightarrow> 'k world" where
  "connection_destructor = (\<lambda>(conn, w). emit (Closed (cx_fd conn)) (emit (CtlDel (cx_fd conn)) w))"

definition epoll_handle :: "('k, 'z) kernel_scheme \<Rightarrow> u32 \<Rightarrow> c_connection \<times> 'k world \<Rightarrow> int \<times> c_connection \<times> 'k world" where
  "epoll_handle K ev s = (case cx_handler (fst s) of Connection_handler \<Rightarrow> connection_handler K ev s)"

definition epoll_destruct :: "c_connection \<times> 'k world \<Rightarrow> 'k world" where
  "epoll_destruct s = (case cx_destructor (fst s) of Connection_destructor \<Rightarrow> connection_destructor s)"

definition c_class :: "('k, 'z) kernel_scheme \<Rightarrow> (c_connection, 'k) conn_class" where
  "c_class K = \<lparr>cc_new = connection_constructor, cc_handle = (\<lambda>ev s. Some (epoll_handle K ev s)),
    cc_delete = epoll_destruct, cc_fd = cx_fd\<rparr>"

definition plain_of_c :: "c_connection \<Rightarrow> plain_conn" where
  "plain_of_c conn = \<lparr>pc_fd = cx_fd conn, pc_epfd = cx_epfd conn\<rparr>"

text \<open>Through \<open>plain_of_c\<close> the C object does what the C++ object does.\<close>

lemma c_like_plain:
  "map_prod plain_of_c id (connection_constructor fd epfd w) = plain_new fd epfd w"
  "map_prod id (map_prod plain_of_c id) (epoll_handle K ev (conn, w)) = plain_handle K ev (plain_of_c conn, w)"
  "epoll_destruct (conn, w) = plain_delete (plain_of_c conn, w)"
proof -
  have "map_prod id (map_prod plain_of_c id) (connection_echo K (conn, w)) =
    (case handle_echo K (cx_fd conn) w of (r, w1) \<Rightarrow> (r, plain_of_c conn, w1))"
    by (simp add: connection_echo_def handle_echo_def recv_send_def split: prod.splits recv_res.splits send_res.splits)
  then show "map_prod id (map_prod plain_of_c id) (epoll_handle K ev (conn, w)) = plain_handle K ev (plain_of_c conn, w)"
    by (cases "cx_handler conn")
      (auto simp: epoll_handle_def connection_handler_def plain_handle_def plain_of_c_def map_prod_def split: prod.splits)
  show "map_prod plain_of_c id (connection_constructor fd epfd w) = plain_new fd epfd w"
    by (simp add: connection_constructor_def plain_new_def plain_of_c_def)
  show "epoll_destruct (conn, w) = plain_delete (plain_of_c conn, w)"
    by (cases "cx_destructor conn")
      (simp add: epoll_destruct_def connection_destructor_def plain_delete_def plain_of_c_def)
qed

text \<open>A class that does through a projection what another one does obeys the interface with it.\<close>

lemma handler_class_project:
  assumes C: "handler_class C good" and fd: "\<And>d. cc_fd D d = cc_fd C (f d)"
    and new: "\<And>fd epfd w. map_prod f id (cc_new D fd epfd w) = cc_new C fd epfd w"
    and handle: "\<And>ev d w. map_option (map_prod id (map_prod f id)) (cc_handle D ev (d, w)) = cc_handle C ev (f d, w)"
    and delete: "\<And>d w. cc_delete D (d, w) = cc_delete C (f d, w)"
  shows "handler_class D (\<lambda>d. good (f d))"
proof
  fix fd epfd d and w w' :: "'b world"
  assume "cc_new D fd epfd w = (d, w')"
  then have "cc_new C fd epfd w = (f d, w')"
    using new [of fd epfd w] by simp
  from handler_class.new_good [OF C this] show "good (f d) w' \<and> cc_fd D d = fd \<and> only_on fd w w'"
    by (simp add: fd)
next
  fix d ev and w :: "'b world"
  assume g: "good (f d) w"
  show "cc_handle D ev (d, w) \<noteq> None"
    using handler_class.handle_returns [OF C g, of ev] handle [of ev d w] by auto
  show "interest (w_trace w) (cc_fd D d) \<noteq> None"
    using handler_class.good_reg [OF C g] by (simp add: fd)
  show "good (f d) (w\<lparr>w_os := s\<rparr>)" for s
    by (rule handler_class.good_os [OF C g])
  show "good (f d) w'" if "only_on x w w'" "x \<noteq> cc_fd D d" for x w'
    using handler_class.good_frame [OF C g] that by (simp add: fd)
  fix ret d' w'
  assume "cc_handle D ev (d, w) = Some (ret, d', w')"
  then have h: "cc_handle C ev (f d, w) = Some (ret, f d', w')"
    using handle [of ev d w] by simp
  show "only_on (cc_fd D d) w w' \<and> cc_fd D d' = cc_fd D d"
    using handler_class.handle_only [OF C g h] by (simp add: fd)
  show "good (f d') w'" if "0 \<le> ret"
    by (rule handler_class.handle_keep [OF C g h that])
next
  fix d and w :: "'b world"
  show "only_on (cc_fd D d) w (cc_delete D (d, w))" "interest (w_trace (cc_delete D (d, w))) (cc_fd D d) = None"
    using handler_class.delete_only [OF C] handler_class.delete_reg [OF C] by (simp_all add: fd delete)
qed

lemma c_handler_class:
  assumes "kernel_ok K" "full \<Longrightarrow> takes_all K"
  shows "handler_class (c_class K) (\<lambda>d. plain_good full (plain_of_c d))"
  by (rule handler_class_project [OF plain_handler_class [OF assms]])
    (simp_all add: c_class_def plain_class_def c_like_plain, simp_all add: plain_of_c_def)

text \<open>\<^verbatim>\<open>main\<close>: the port is converted without a look at the result of \<^verbatim>\<open>sscanf\<close>; \<open>socket\<close> stands for the calls that
  open a listening descriptor for it.\<close>

definition simple_listen :: "(u16 \<Rightarrow> int) \<Rightarrow> string list \<Rightarrow> int option" where
  "simple_listen socket argv =
    (if length argv < 2 then None
     else Some (socket (htons (word_of_int (snd (sscanf_d (argv ! 1) 0))))))"

definition epoll_main :: "('k, 'z) net_kernel_scheme \<Rightarrow> (u16 \<Rightarrow> int) \<Rightarrow> string list \<Rightarrow> 'k world \<Rightarrow>
    'k world \<times> (int \<times> u32) list \<Rightarrow> bool" where
  "epoll_main K socket argv w s \<longleftrightarrow>
    (\<exists>lfd. simple_listen socket argv = Some lfd \<and> (epoll_loop K lfd)\<^sup>*\<^sup>* (fd_loop_start lfd w) s)"

definition epoll_handle_main :: "('k, 'z) net_kernel_scheme \<Rightarrow> ((plain_conn, 'k) server \<Rightarrow> nat) \<Rightarrow> (u16 \<Rightarrow> int) \<Rightarrow> int \<Rightarrow>
    string list \<Rightarrow> 'k world \<Rightarrow> (plain_conn, 'k) loop_state \<Rightarrow> bool" where
  "epoll_handle_main K alloc socket epfd argv w s \<longleftrightarrow>
    (\<exists>lfd. simple_listen socket argv = Some lfd \<and>
      (plain_step (plain_class K) K alloc)\<^sup>*\<^sup>* (plain_loop_start lfd epfd w) s)"

definition epoll_handle_c_main :: "('k, 'z) net_kernel_scheme \<Rightarrow> ((c_connection, 'k) server \<Rightarrow> nat) \<Rightarrow> (u16 \<Rightarrow> int) \<Rightarrow> int \<Rightarrow>
    string list \<Rightarrow> 'k world \<Rightarrow> (c_connection, 'k) loop_state \<Rightarrow> bool" where
  "epoll_handle_c_main K alloc socket epfd argv w s \<longleftrightarrow>
    (\<exists>lfd. simple_listen socket argv = Some lfd \<and>
      (plain_step (c_class K) K alloc)\<^sup>*\<^sup>* (plain_loop_start lfd epfd w) s)"

text \<open>
  \<^verbatim>\<open>server_epoll_reuseport.cpp\<close> opens one listener per thread; \<open>socket\<close> gets the number of the call.  The
  descriptors go into arrays of \<^verbatim>\<open>max_threads\<close> elements, and the number of threads is not checked.
\<close>

definition max_threads :: nat where "max_threads = 8"

datatype reuseport_start = Exits int | Overrun | Threads "int list"

definition reuseport_main :: "(u16 \<Rightarrow> nat \<Rightarrow> int) \<Rightarrow> string list \<Rightarrow> reuseport_start" where
  "reuseport_main socket argv =
    (if length argv < 2 then Exits 0
     else
       let port = snd (sscanf_d (argv ! 1) 0);
           num_threads = (if 2 < length argv then snd (sscanf_d (argv ! 2) 1) else 1);
           n = nat num_threads in
       if max_threads < n then Overrun
       else Threads (map (socket (htons (word_of_int port))) [0..<n]))"

definition reuseport_thread :: "('k, 'z) net_kernel_scheme \<Rightarrow> (u16 \<Rightarrow> nat \<Rightarrow> int) \<Rightarrow> string list \<Rightarrow> int \<Rightarrow> 'k world \<Rightarrow>
    'k world \<times> (int \<times> u32) list \<Rightarrow> bool" where
  "reuseport_thread K socket argv lfd w s \<longleftrightarrow>
    (\<exists>fds. reuseport_main socket argv = Threads fds \<and> lfd \<in> set fds \<and>
      (reuseport_loop K lfd)\<^sup>*\<^sup>* (fd_loop_start lfd w) s)"

section \<open>What the programs promise\<close>

text \<open>A kernel to run with: it accepts descriptor 5, has three bytes to read and takes all that is sent.\<close>

definition loopback :: "unit net_kernel" where
  "loopback = \<lparr>k_recv = (\<lambda>fd n s. (RecvData (take n [1, 2, 3]), s)), k_send = (\<lambda>fd bs s. (SendLen (length bs), s)),
    k_accept = (\<lambda>_ s. (Accepted 5, s))\<rparr>"

lemma loopback_ok [simp]: "kernel_ok loopback" "takes_all loopback"
  by (simp_all add: kernel_ok_def takes_all_def loopback_def)

lemma loopback_echo: "handle_echo loopback fd w = (3, emit (Sent fd [1, 2, 3]) (emit (Recvd fd [1, 2, 3]) w))"
  by (simp add: handle_echo_def recv_send_def sys_recv_def sys_send_def loopback_def simple_buf_size_def emit_def)

lemma fd_run_inv:
  assumes "kernel_ok K" "full \<Longrightarrow> takes_all K" "interest (w_trace w0) = (\<lambda>_. None)"
    and "epoll_main K socket argv w0 s \<and> simple_listen socket argv = Some lfd \<or>
      reuseport_thread K sockets argv lfd w0 s"
  shows "fd_inv full lfd s"
proof -
  have "(fd_loop_step (epoll_event K) K lfd)\<^sup>*\<^sup>* (fd_loop_start lfd w0) s \<or>
      (fd_loop_step (reuseport_event K) K lfd)\<^sup>*\<^sup>* (fd_loop_start lfd w0) s"
    using assms(4) by (auto simp: epoll_main_def epoll_loop_def reuseport_thread_def reuseport_loop_def)
  then show ?thesis
    using epoll_fds.inv_run [OF assms(1-3)] reuseport_fds.inv_run [OF assms(1-3)] by blast
qed


definition demo_world :: "unit world" where
  "demo_world = \<lparr>w_os = (), w_trace = [CtlAdd 3 EPOLLIN, CtlAdd 5 EPOLLIN, Recvd 5 [1, 2, 3], Sent 5 [1, 2, 3]]\<rparr>"

lemma demo_epoll_run: "epoll_main loopback (\<lambda>_. 3) [''server'', ''80''] \<lparr>w_os = (), w_trace = []\<rparr> (demo_world, [])"
proof -
  let ?step = "epoll_loop loopback 3"
  let ?w0 = "\<lparr>w_os = (), w_trace = [CtlAdd 3 EPOLLIN]\<rparr>"
  let ?w1 = "\<lparr>w_os = (), w_trace = [CtlAdd 3 EPOLLIN, CtlAdd 5 EPOLLIN]\<rparr>"
  have "?step (?w0, []) (?w0, [(3, EPOLLIN)])" "?step (?w1, []) (?w1, [(5, EPOLLIN)])"
    unfolding epoll_loop_def
    by (rule fd_loop_step.wait, simp add: fd_batch_ok_def simple_max_events_def interest_def)+
  moreover have "?step (?w0, [(3, EPOLLIN)]) (epoll_event loopback 3 (3, EPOLLIN) ?w0, [])"
    "?step (?w1, [(5, EPOLLIN)]) (epoll_event loopback 3 (5, EPOLLIN) ?w1, [])"
    unfolding epoll_loop_def
    by (rule fd_loop_step.dispatch, simp add: fd_accept_fresh_def loopback_def interest_def)+
  moreover have "epoll_event loopback 3 (3, EPOLLIN) ?w0 = ?w1" "epoll_event loopback 3 (5, EPOLLIN) ?w1 = demo_world"
    by (simp_all add: epoll_event_def or_EPOLLIN loopback_echo)
      (simp_all add: fd_accept_def loopback_def emit_def demo_world_def)
  ultimately have "?step\<^sup>*\<^sup>* (?w0, []) (demo_world, [])"
    by (metis (no_types, lifting) converse_rtranclp_into_rtranclp rtranclp.rtrancl_refl)
  then show ?thesis
    by (simp add: epoll_main_def simple_listen_def fd_loop_start_def emit_def)
qed



text \<open>Witness of the safety theorem: both programs accept a connection.\<close>

definition next_address :: "('c, 'k) server \<Rightarrow> nat" where
  "next_address sv = Suc (sv_acceptor sv + sum_list (sorted_list_of_set (dom (sv_conns sv))))"

lemma next_address_ok: "alloc_ok next_address"
proof -
  have "sv_conns sv (next_address sv) = None \<and> next_address sv \<noteq> sv_acceptor sv" if "finite (dom (sv_conns sv))"
    for sv :: "('a, 'b) server"
  proof -
    have "p \<le> sum_list (sorted_list_of_set (dom (sv_conns sv)))" if "sv_conns sv p \<noteq> None" for p
      using that \<open>finite _\<close> by (intro member_le_sum_list) (auto simp: dom_def)
    then show ?thesis
      unfolding next_address_def by fastforce
  qed
  then show ?thesis
    by (simp add: alloc_ok_def)
qed

lemma demo_plain_run:
  "epoll_handle_main loopback next_address (\<lambda>_. 3) 4 [''server'', ''80''] \<lparr>w_os = (), w_trace = []\<rparr>
    (Running (make_connection (plain_class loopback) next_address 5 (acceptor_new 0 3 4 \<lparr>w_os = (), w_trace = []\<rparr>)) [])"
proof -
  let ?sv = "acceptor_new 0 3 4 \<lparr>w_os = (), w_trace = []\<rparr> :: (plain_conn, unit) server"
  let ?step = "plain_step (plain_class loopback) loopback next_address"
  have "?step (Running ?sv []) (Running ?sv [(0, EPOLLIN)])"
    by (rule plain_step.wait) (simp add: plain_batch_ok_def simple_max_events_def acceptor_new_def)
  moreover have "?step (Running ?sv [(0, EPOLLIN)]) (Running (make_connection (plain_class loopback) next_address 5 ?sv) [])"
    by (rule plain_step.dispatch)
      (simp_all add: accept_fresh_def plain_dispatch_def plain_accept_def acceptor_new_def loopback_def emit_def)
  ultimately have "?step\<^sup>*\<^sup>* (Running ?sv []) (Running (make_connection (plain_class loopback) next_address 5 ?sv) [])"
    by (rule converse_rtranclp_into_rtranclp [OF _ r_into_rtranclp])
  then show ?thesis
    by (simp add: epoll_handle_main_def simple_listen_def plain_loop_start_def)
qed


text \<open>More threads than \<^verbatim>\<open>max_threads\<close> run over the two global arrays.\<close>

lemma reuseport_overrun: "reuseport_main socket [prog, port, dec n] = Overrun \<longleftrightarrow> max_threads < n"
  by (simp add: reuseport_main_def scan_dec Let_def)

end
