(* ===== verification/Poll_Server.thy ===== *)
theory Poll_Server
  imports Simple_Echo
begin

text \<open>
  The echo server on \<^verbatim>\<open>poll\<close> (\<^verbatim>\<open>tcp_echo/server_poll_handle.cpp\<close>).  What epoll keeps in the kernel for
  the other servers, this one keeps itself: class \<^verbatim>\<open>Poller\<close> has an array \<^verbatim>\<open>pfds\<close> of which the first \<^verbatim>\<open>num\<close> slots
  are passed to \<^verbatim>\<open>poll\<close>, and an array \<^verbatim>\<open>handlers\<close> indexed by descriptor.  \<^verbatim>\<open>remove_fd\<close> marks a slot with
  -1 and never takes it back.

  A use of an array outside its bounds, a call through a null pointer and a call on a freed object are faults;
  the one read outside the bounds that only prints (\<^verbatim>\<open>handlers[-1]\<close> in \<^verbatim>\<open>show_fds\<close>) is a value \<open>Outside\<close> in what
  is shown.  The trace records a registration with the poller the way it records one with epoll.
\<close>

section \<open>\<^verbatim>\<open>class Poller\<close>\<close>

type_synonym short = "16 word"

definition POLLIN :: short where "POLLIN = 1"

definition max_fds :: nat where "max_fds = 4096"
definition fd_range :: int where "fd_range = 4096"

record pollfd =
  pf_fd :: int
  pf_events :: short
  pf_revents :: short

datatype shown_handler = Outside | Shown "nat option"

text \<open>\<open>po_pfds\<close> are the first \<^verbatim>\<open>num\<close> slots; \<open>None\<close> is the null pointer; \<open>po_shown\<close> is what \<^verbatim>\<open>show_fds\<close> printed.\<close>

record poller =
  po_pfds :: "pollfd list"
  po_handlers :: "int \<rightharpoonup> nat"
  po_shown :: "(pollfd \<times> shown_handler) list list"

datatype poll_fault = TableOverrun | BadIndex | NullHandler | FreedHandler

definition poller_new :: poller where
  "poller_new = \<lparr>po_pfds = [], po_handlers = Map.empty, po_shown = []\<rparr>"

definition show_fds :: "poller \<Rightarrow> poller" where
  "show_fds po = po\<lparr>po_shown := po_shown po @
    [map (\<lambda>pfd. (pfd, if 0 \<le> pf_fd pfd \<and> pf_fd pfd < fd_range then Shown (po_handlers po (pf_fd pfd)) else Outside))
      (po_pfds po)]\<rparr>"

definition add_fd :: "int \<Rightarrow> short \<Rightarrow> nat option \<Rightarrow> poller \<Rightarrow> poll_fault + int \<times> poller" where
  "add_fd fd events handler po =
    (if fd_range \<le> fd then Inr (-1, po)
     else if \<exists>pfd \<in> set (po_pfds po). pf_fd pfd = fd then Inr (-1, po)
     else if max_fds \<le> length (po_pfds po) then Inl TableOverrun
     else if fd < 0 then Inl BadIndex
     else Inr (0, show_fds (po\<lparr>po_pfds := po_pfds po @ [\<lparr>pf_fd = fd, pf_events = events, pf_revents = 0\<rparr>],
       po_handlers := (po_handlers po)(fd := handler)\<rparr>)))"

fun release_slot :: "int \<Rightarrow> pollfd list \<Rightarrow> pollfd list option" where
  "release_slot fd [] = None"
| "release_slot fd (pfd # pfds) =
    (if pf_fd pfd = fd then Some (pfd\<lparr>pf_fd := -1\<rparr> # pfds) else map_option (Cons pfd) (release_slot fd pfds))"

definition remove_fd :: "int \<Rightarrow> poller \<Rightarrow> int \<times> poller" where
  "remove_fd fd po =
    (case release_slot fd (po_pfds po) of
      Some pfds \<Rightarrow> (0, po\<lparr>po_pfds := pfds, po_handlers := (po_handlers po)(fd := None)\<rparr>)
    | None \<Rightarrow> (-1, po))"

section \<open>Connections and the loop\<close>

text \<open>The heap of connections: an object is its descriptor (the poller and the buffer are the loop's).\<close>

record 'k poll_server =
  ps_poller :: poller
  ps_listen :: int
  ps_conns :: "nat \<rightharpoonup> int"
  ps_world :: "'k world"

text \<open>The constructor does not look at the result of \<^verbatim>\<open>add_fd\<close>.\<close>

definition poll_connection_new :: "nat \<Rightarrow> int \<Rightarrow> 'k poll_server \<Rightarrow> poll_fault + 'k poll_server" where
  "poll_connection_new p fd ps =
    (case add_fd fd POLLIN (Some p) (ps_poller ps) of
      Inl f \<Rightarrow> Inl f
    | Inr (ret, po) \<Rightarrow> Inr (ps\<lparr>ps_poller := po, ps_conns := (ps_conns ps)(p \<mapsto> fd),
        ps_world := (if ret < 0 then ps_world ps else emit (CtlAdd fd EPOLLIN) (ps_world ps))\<rparr>))"

definition poll_connection_delete :: "nat \<Rightarrow> int \<Rightarrow> 'k poll_server \<Rightarrow> 'k poll_server" where
  "poll_connection_delete p fd ps =
    (case remove_fd fd (ps_poller ps) of
      (ret, po) \<Rightarrow> ps\<lparr>ps_poller := po, ps_conns := (ps_conns ps)(p := None),
        ps_world := emit (Closed fd) (if ret < 0 then ps_world ps else emit (CtlDel fd) (ps_world ps))\<rparr>)"

definition poll_handle :: "('k, 'z) kernel_scheme \<Rightarrow> short \<Rightarrow> int \<Rightarrow> 'k world \<Rightarrow> int \<times> 'k world" where
  "poll_handle K events fd w =
    (if events AND POLLIN \<noteq> 0 then
      (case handle_echo K fd w of (r, w1) \<Rightarrow> (if r \<le> 0 then -1 else 0, w1))
     else (-1, w))"

definition poll_accept :: "('k, 'z) net_kernel_scheme \<Rightarrow> ('k poll_server \<Rightarrow> nat) \<Rightarrow> 'k poll_server \<Rightarrow>
    poll_fault + 'k poll_server" where
  "poll_accept K alloc ps =
    (case k_accept K (ps_listen ps) (w_os (ps_world ps)) of
      (AcceptErr e, s) \<Rightarrow> Inr (ps\<lparr>ps_world := (ps_world ps)\<lparr>w_os := s\<rparr>\<rparr>)
    | (Accepted fd, s) \<Rightarrow>
        poll_connection_new (alloc ps) fd (ps\<lparr>ps_world := (ps_world ps)\<lparr>w_os := s\<rparr>\<rparr>))"

definition clear_revents :: "nat \<Rightarrow> 'k poll_server \<Rightarrow> 'k poll_server" where
  "clear_revents i ps = ps\<lparr>ps_poller := (ps_poller ps)\<lparr>po_pfds := (po_pfds (ps_poller ps))
    [i := (po_pfds (ps_poller ps) ! i)\<lparr>pf_revents := 0\<rparr>]\<rparr>\<rparr>"

text \<open>The body of the loop over the slots.\<close>

definition poll_slot :: "('k, 'z) net_kernel_scheme \<Rightarrow> ('k poll_server \<Rightarrow> nat) \<Rightarrow> nat \<Rightarrow> 'k poll_server \<Rightarrow>
    poll_fault + 'k poll_server" where
  "poll_slot K alloc i ps =
    (let pfd = po_pfds (ps_poller ps) ! i; ps1 = clear_revents i ps in
     if pf_fd pfd = ps_listen ps \<and> pf_revents pfd AND POLLIN \<noteq> 0 then poll_accept K alloc ps1
     else if pf_revents pfd \<noteq> 0 then
       (if pf_fd pfd < 0 \<or> fd_range \<le> pf_fd pfd then Inl BadIndex
        else case po_handlers (ps_poller ps) (pf_fd pfd) of
          None \<Rightarrow> Inl NullHandler
        | Some p \<Rightarrow> (case ps_conns ps1 p of
            None \<Rightarrow> Inl FreedHandler
          | Some fd \<Rightarrow> (case poll_handle K (pf_revents pfd) fd (ps_world ps1) of
              (ret, w1) \<Rightarrow>
                let ps2 = ps1\<lparr>ps_world := w1\<rparr> in
                if ret < 0 then Inr (poll_connection_delete p fd ps2) else Inr ps2)))
     else Inr ps)"

definition poll_loop_start :: "int \<Rightarrow> 'k world \<Rightarrow> poll_fault + 'k poll_server" where
  "poll_loop_start lfd w =
    (case add_fd lfd POLLIN None poller_new of
      Inl f \<Rightarrow> Inl f
    | Inr (ret, po) \<Rightarrow> Inr \<lparr>ps_poller = po, ps_listen = lfd, ps_conns = Map.empty,
        ps_world = (if ret < 0 then w else emit (CtlAdd lfd EPOLLIN) w)\<rparr>)"

text \<open>
  The contracts: \<^verbatim>\<open>poll\<close> stores \<^verbatim>\<open>revents\<close> in every slot, 0 in one whose descriptor is negative;
  \<^verbatim>\<open>accept4\<close> returns a descriptor that is not open; \<^verbatim>\<open>new\<close> returns an address that is not in use.
\<close>

definition poll_answer_ok :: "'k poll_server \<Rightarrow> short list \<Rightarrow> bool" where
  "poll_answer_ok ps revs \<longleftrightarrow> length revs = length (po_pfds (ps_poller ps)) \<and>
    (\<forall>(pfd, rev) \<in> set (zip (po_pfds (ps_poller ps)) revs). pf_fd pfd < 0 \<longrightarrow> rev = 0)"

definition store_revents :: "short list \<Rightarrow> 'k poll_server \<Rightarrow> 'k poll_server" where
  "store_revents revs ps = ps\<lparr>ps_poller := (ps_poller ps)\<lparr>po_pfds :=
    map2 (\<lambda>pfd rev. pfd\<lparr>pf_revents := rev\<rparr>) (po_pfds (ps_poller ps)) revs\<rparr>\<rparr>"

definition poll_fresh :: "('k, 'z) net_kernel_scheme \<Rightarrow> 'k poll_server \<Rightarrow> bool" where
  "poll_fresh K ps \<longleftrightarrow>
    (case k_accept K (ps_listen ps) (w_os (ps_world ps)) of
      (Accepted fd, _) \<Rightarrow> 0 \<le> fd \<and> fd \<noteq> ps_listen ps \<and> fd \<notin> ran (ps_conns ps) | (AcceptErr e, _) \<Rightarrow> True)"

definition slot_accepts :: "'k poll_server \<Rightarrow> nat \<Rightarrow> bool" where
  "slot_accepts ps i \<longleftrightarrow> (let pfd = po_pfds (ps_poller ps) ! i in
    pf_fd pfd = ps_listen ps \<and> pf_revents pfd AND POLLIN \<noteq> 0)"

definition poll_alloc_ok :: "('k poll_server \<Rightarrow> nat) \<Rightarrow> bool" where
  "poll_alloc_ok alloc \<longleftrightarrow> (\<forall>ps. finite (dom (ps_conns ps)) \<longrightarrow> ps_conns ps (alloc ps) = None)"

text \<open>The loop: waiting in \<^verbatim>\<open>poll\<close>, or about to look at slot \<open>i\<close>.  When \<^verbatim>\<open>poll\<close> fails the slots keep what they have.\<close>

datatype 'k poll_state = Polling "'k poll_server" | Scanning "'k poll_server" nat | Poll_Crashed poll_fault

inductive poll_step :: "('k, 'z) net_kernel_scheme \<Rightarrow> ('k poll_server \<Rightarrow> nat) \<Rightarrow> 'k poll_state \<Rightarrow> 'k poll_state \<Rightarrow> bool"
  for K alloc where
  poll: "poll_answer_ok ps revs \<Longrightarrow> poll_step K alloc (Polling ps) (Scanning (store_revents revs ps) 0)"
| poll_error: "poll_step K alloc (Polling ps) (Scanning ps 0)"
| slot: "i < length (po_pfds (ps_poller ps)) \<Longrightarrow> (slot_accepts ps i \<longrightarrow> poll_fresh K ps) \<Longrightarrow> poll_slot K alloc i ps = Inr ps' \<Longrightarrow>
    poll_step K alloc (Scanning ps i) (Scanning ps' (Suc i))"
| fault: "i < length (po_pfds (ps_poller ps)) \<Longrightarrow> (slot_accepts ps i \<longrightarrow> poll_fresh K ps) \<Longrightarrow> poll_slot K alloc i ps = Inl f \<Longrightarrow>
    poll_step K alloc (Scanning ps i) (Poll_Crashed f)"
| finished: "length (po_pfds (ps_poller ps)) \<le> i \<Longrightarrow> poll_step K alloc (Scanning ps i) (Polling ps)"

inductive_cases poll_step_CrashedE [elim!]: "poll_step K alloc (Poll_Crashed f) s"

definition poll_main :: "('k, 'z) net_kernel_scheme \<Rightarrow> ('k poll_server \<Rightarrow> nat) \<Rightarrow> (u16 \<Rightarrow> int) \<Rightarrow> string list \<Rightarrow>
    'k world \<Rightarrow> 'k poll_state \<Rightarrow> bool" where
  "poll_main K alloc socket argv w s \<longleftrightarrow>
    (\<exists>lfd. simple_listen socket argv = Some lfd \<and>
      (case poll_loop_start lfd w of
        Inl f \<Rightarrow> s = Poll_Crashed f
      | Inr ps \<Rightarrow> (poll_step K alloc)\<^sup>*\<^sup>* (Polling ps) s))"

section \<open>The invariant of the table\<close>

abbreviation slot_fds :: "'k poll_server \<Rightarrow> int list" where
  "slot_fds ps \<equiv> map pf_fd (po_pfds (ps_poller ps))"

text \<open>
  The descriptors in the table are distinct and in range; the listener's has no handler, and the others are
  those of the live objects, except that an object with a descriptor from 4096 on is not in the table.
\<close>

definition table_ok :: "int list \<Rightarrow> (int \<rightharpoonup> nat) \<Rightarrow> (nat \<rightharpoonup> int) \<Rightarrow> int \<Rightarrow> bool" where
  "table_ok fds H conns lfd \<longleftrightarrow>
    (\<forall>fd \<in> set fds. fd = -1 \<or> 0 \<le> fd \<and> fd < fd_range) \<and> distinct (filter ((\<le>) 0) fds) \<and>
    lfd \<in> set fds \<and> 0 \<le> lfd \<and> H lfd = None \<and>
    (\<forall>fd \<in> set fds. 0 \<le> fd \<longrightarrow> fd \<noteq> lfd \<longrightarrow> H fd \<noteq> None) \<and>
    (\<forall>fd p. H fd = Some p \<longrightarrow> fd \<in> set fds \<and> conns p = Some fd) \<and>
    (\<forall>p fd. conns p = Some fd \<longrightarrow> 0 \<le> fd \<and> fd \<noteq> lfd \<and> (fd < fd_range \<longrightarrow> H fd = Some p)) \<and> finite (dom conns)"

lemma table_okD:
  assumes "table_ok fds H conns lfd"
  shows "fd \<in> set fds \<Longrightarrow> fd = -1 \<or> 0 \<le> fd \<and> fd < fd_range" "distinct (filter ((\<le>) 0) fds)"
    "lfd \<in> set fds" "0 \<le> lfd" "H lfd = None" "fd \<in> set fds \<Longrightarrow> 0 \<le> fd \<Longrightarrow> fd \<noteq> lfd \<Longrightarrow> H fd \<noteq> None"
    "H fd = Some p \<Longrightarrow> fd \<in> set fds" "H fd = Some p \<Longrightarrow> conns p = Some fd"
    "conns p = Some fd \<Longrightarrow> 0 \<le> fd" "conns p = Some fd \<Longrightarrow> fd \<noteq> lfd"
    "conns p = Some fd \<Longrightarrow> fd < fd_range \<Longrightarrow> H fd = Some p" "finite (dom conns)"
  using assms unfolding table_ok_def by blast+

lemma table_okI:
  assumes "\<And>fd. fd \<in> set fds \<Longrightarrow> fd = -1 \<or> 0 \<le> fd \<and> fd < fd_range" "distinct (filter ((\<le>) 0) fds)"
    "lfd \<in> set fds" "0 \<le> lfd" "H lfd = None" "\<And>fd. fd \<in> set fds \<Longrightarrow> 0 \<le> fd \<Longrightarrow> fd \<noteq> lfd \<Longrightarrow> H fd \<noteq> None"
    "\<And>fd p. H fd = Some p \<Longrightarrow> fd \<in> set fds \<and> conns p = Some fd"
    "\<And>p fd. conns p = Some fd \<Longrightarrow> 0 \<le> fd \<and> fd \<noteq> lfd \<and> (fd < fd_range \<longrightarrow> H fd = Some p)" "finite (dom conns)"
  shows "table_ok fds H conns lfd"
  unfolding table_ok_def
  by (intro conjI ballI allI impI) (use assms in blast)+

lemma table_add:
  assumes T: "table_ok fds H conns lfd" and fd: "0 \<le> fd" "fd < fd_range" "fd \<notin> set fds"
    and p: "conns p = None" "fd \<notin> ran conns"
  shows "table_ok (fds @ [fd]) (H(fd \<mapsto> p)) (conns(p \<mapsto> fd)) lfd"
proof (rule table_okI)
  have l: "fd \<noteq> lfd"
    using table_okD(3) [OF T] fd(3) by auto
  have q: "q \<noteq> p" if "H g = Some q" for g q
    using table_okD(8) [OF T that] p(1) by auto
  have g: "g \<noteq> fd" if "conns q = Some g" for g q
    using that p(2) by (auto simp: ran_def)
  show "g = -1 \<or> 0 \<le> g \<and> g < fd_range" if "g \<in> set (fds @ [fd])" for g
    using that fd table_okD(1) [OF T, of g] by auto
  show "distinct (filter ((\<le>) 0) (fds @ [fd]))"
    using fd table_okD(2) [OF T] by simp
  show "lfd \<in> set (fds @ [fd])" "0 \<le> lfd" "(H(fd \<mapsto> p)) lfd = None" "finite (dom (conns(p \<mapsto> fd)))"
    using l table_okD(3-5,12) [OF T] by simp_all
  show "(H(fd \<mapsto> p)) g \<noteq> None" if "g \<in> set (fds @ [fd])" "0 \<le> g" "g \<noteq> lfd" for g
    using that table_okD(6) [OF T, of g] by auto
  show "g \<in> set (fds @ [fd]) \<and> (conns(p \<mapsto> fd)) r = Some g" if "(H(fd \<mapsto> p)) g = Some r" for g r
    using that q [of g r] table_okD(7,8) [OF T, of g r] by (auto split: if_splits)
  show "0 \<le> g \<and> g \<noteq> lfd \<and> (g < fd_range \<longrightarrow> (H(fd \<mapsto> p)) g = Some r)" if "(conns(p \<mapsto> fd)) r = Some g" for r g
    using that l fd g [of r g] table_okD(9-11) [OF T, of r g] by (auto split: if_splits)
qed

text \<open>An object whose descriptor is too large is created all the same, and never enters the table.\<close>

lemma table_too_large:
  assumes T: "table_ok fds H conns lfd" and fd: "fd_range \<le> fd" and p: "conns p = None"
  shows "table_ok fds H (conns(p \<mapsto> fd)) lfd"
proof (rule table_okI)
  show "g \<in> set fds \<and> (conns(p \<mapsto> fd)) r = Some g" if "H g = Some r" for g r
    using that p table_okD(7,8) [OF T, of g r] by auto
  have "fd \<noteq> lfd" "0 \<le> fd"
    using table_okD(1) [OF T table_okD(3) [OF T]] fd by (auto simp: fd_range_def)
  then show "0 \<le> g \<and> g \<noteq> lfd \<and> (g < fd_range \<longrightarrow> H g = Some r)" if "(conns(p \<mapsto> fd)) r = Some g" for r g
    using that fd table_okD(9-11) [OF T, of r g] by (auto split: if_splits)
  show "finite (dom (conns(p \<mapsto> fd)))"
    using table_okD(12) [OF T] by simp
qed (fact table_okD [OF T])+

lemma table_remove:
  assumes T: "table_ok (us @ fd # vs) H conns lfd" and p: "H fd = Some p"
  shows "table_ok (us @ (-1) # vs) (H(fd := None)) (conns(p := None)) lfd"
proof (rule table_okI)
  have fd: "conns p = Some fd"
    by (rule table_okD(8) [OF T p])
  note pos = table_okD(9) [OF T fd] table_okD(10) [OF T fd]
  have own: "fd \<notin> set us" "fd \<notin> set vs"
    using table_okD(2) [OF T] pos(1) by auto
  show "g = -1 \<or> 0 \<le> g \<and> g < fd_range" if "g \<in> set (us @ (-1) # vs)" for g
    using that table_okD(1) [OF T, of g] by auto
  show "distinct (filter ((\<le>) 0) (us @ (-1) # vs))"
    using table_okD(2) [OF T] pos(1) by auto
  show "lfd \<in> set (us @ (-1) # vs)" "0 \<le> lfd" "(H(fd := None)) lfd = None" "finite (dom (conns(p := None)))"
    using pos(2) table_okD(3-5,12) [OF T] by auto
  show "(H(fd := None)) g \<noteq> None" if "g \<in> set (us @ (-1) # vs)" "0 \<le> g" "g \<noteq> lfd" for g
    using that own table_okD(6) [OF T, of g] by auto
  show "g \<in> set (us @ (-1) # vs) \<and> (conns(p := None)) r = Some g" if "(H(fd := None)) g = Some r" for g r
    using that fd table_okD(7,8) [OF T, of g r] by (auto split: if_splits)
  show "0 \<le> g \<and> g \<noteq> lfd \<and> (g < fd_range \<longrightarrow> (H(fd := None)) g = Some r)" if "(conns(p := None)) r = Some g" for r g
    using that p table_okD(9-11) [OF T, of r g] by (auto split: if_splits)
qed

lemma distinct_filter_nth:
  assumes "distinct (filter P xs)" "i < length xs" "j < length xs" "P (xs ! i)" "xs ! i = xs ! j"
  shows "i = j"
  using assms
proof (induction xs arbitrary: i j)
  case (Cons x xs)
  then show ?case
    by (cases i; cases j) (auto split: if_splits)
qed simp

lemma release_slot_split:
  "release_slot fd pfds = Some pfds' \<Longrightarrow>
    \<exists>us pfd vs. pfds = us @ pfd # vs \<and> pf_fd pfd = fd \<and> pfds' = us @ pfd\<lparr>pf_fd := -1\<rparr> # vs"
proof (induction fd pfds arbitrary: pfds' rule: release_slot.induct)
  case (2 fd pfd pfds)
  then show ?case
    by (auto split: if_splits intro: exI [of _ "[]"]) (metis append_Cons)
qed simp

lemma release_slot_found: "fd \<in> set (map pf_fd pfds) \<Longrightarrow> release_slot fd pfds \<noteq> None"
  by (induction pfds) auto

text \<open>What holds between any two steps of the loop; a freed slot has no events.\<close>

definition poll_inv :: "bool \<Rightarrow> int \<Rightarrow> 'k poll_server \<Rightarrow> bool" where
  "poll_inv full lfd ps \<longleftrightarrow> ps_listen ps = lfd \<and>
    table_ok (slot_fds ps) (po_handlers (ps_poller ps)) (ps_conns ps) lfd \<and>
    (\<forall>pfd \<in> set (po_pfds (ps_poller ps)). pf_fd pfd < 0 \<longrightarrow> pf_revents pfd = 0) \<and>
    (\<forall>p fd. ps_conns ps p = Some fd \<longrightarrow> fd < fd_range \<longrightarrow> relayed full fd (ps_world ps)) \<and>
    length (po_pfds (ps_poller ps)) = length (filter (\<lambda>e. \<exists>fd ev. e = CtlAdd fd ev) (w_trace (ps_world ps))) \<and>
    length (po_pfds (ps_poller ps)) \<le> max_fds"

lemma poll_invD:
  assumes "poll_inv full lfd ps"
  shows "ps_listen ps = lfd" "table_ok (slot_fds ps) (po_handlers (ps_poller ps)) (ps_conns ps) lfd"
    "pfd \<in> set (po_pfds (ps_poller ps)) \<Longrightarrow> pf_fd pfd < 0 \<Longrightarrow> pf_revents pfd = 0"
    "ps_conns ps p = Some fd \<Longrightarrow> fd < fd_range \<Longrightarrow> relayed full fd (ps_world ps)"
    "length (po_pfds (ps_poller ps)) = length (filter (\<lambda>e. \<exists>fd ev. e = CtlAdd fd ev) (w_trace (ps_world ps)))"
    "length (po_pfds (ps_poller ps)) \<le> max_fds"
  using assms unfolding poll_inv_def by blast+

text \<open>Two live objects in the table have different descriptors, so work on one leaves the other relayed.\<close>

lemma relayed_others:
  assumes inv: "poll_inv full lfd ps" and p: "ps_conns ps p = Some fd" "fd < fd_range"
    and q: "ps_conns ps q = Some g" "g < fd_range" "q \<noteq> p" and only: "only_on fd (ps_world ps) w"
  shows "relayed full g w"
proof -
  have "g \<noteq> fd"
    using table_okD(11) [OF poll_invD(2) [OF inv] p] table_okD(11) [OF poll_invD(2) [OF inv] q(1,2)] q(3) by auto
  then show ?thesis
    using relayed_frame [OF poll_invD(4) [OF inv q(1,2)] only] by simp
qed

lemma slot_fds_clear [simp]: "slot_fds (clear_revents i ps) = slot_fds ps"
proof (cases "i < length (po_pfds (ps_poller ps))")
  case True
  then show ?thesis
    by (simp add: clear_revents_def map_update) (metis list_update_id nth_map)
qed (simp add: clear_revents_def list_update_beyond)

lemma clear_revents_simps [simp]:
  "ps_listen (clear_revents i ps) = ps_listen ps" "ps_conns (clear_revents i ps) = ps_conns ps"
  "ps_world (clear_revents i ps) = ps_world ps" "po_handlers (ps_poller (clear_revents i ps)) = po_handlers (ps_poller ps)"
  "length (po_pfds (ps_poller (clear_revents i ps))) = length (po_pfds (ps_poller ps))"
  by (simp_all add: clear_revents_def)

lemma inv_clear: "poll_inv full lfd ps \<Longrightarrow> poll_inv full lfd (clear_revents i ps)"
  unfolding poll_inv_def slot_fds_clear clear_revents_simps
  by (auto simp: clear_revents_def dest!: set_update_subset_insert [THEN subsetD])

lemma inv_store:
  assumes "poll_inv full lfd ps" "poll_answer_ok ps revs"
  shows "poll_inv full lfd (store_revents revs ps)"
proof -
  have len: "length (po_pfds (ps_poller ps)) = length revs"
    using assms(2) by (simp add: poll_answer_ok_def)
  then have "slot_fds (store_revents revs ps) = slot_fds ps"
    by (intro nth_equalityI) (simp_all add: store_revents_def)
  moreover have "pf_revents pfd = 0" if "pfd \<in> set (po_pfds (ps_poller (store_revents revs ps)))" "pf_fd pfd < 0" for pfd
    using that assms(2) by (auto simp: store_revents_def poll_answer_ok_def)
  ultimately show ?thesis
    using assms(1) len by (simp add: poll_inv_def) (simp add: store_revents_def)
qed

lemma inv_os: "poll_inv full lfd ps \<Longrightarrow> poll_inv full lfd (ps\<lparr>ps_world := (ps_world ps)\<lparr>w_os := s\<rparr>\<rparr>)"
  by (simp add: poll_inv_def)

lemma no_adds:
  assumes "handle_echo K fd w = (ret, w')"
  shows "filter (\<lambda>e. \<exists>fd ev. e = CtlAdd fd ev) (w_trace w') = filter (\<lambda>e. \<exists>fd ev. e = CtlAdd fd ev) (w_trace w)"
  using assms by (auto simp: handle_echo_def recv_send_def sys_recv_def sys_send_def
      split: prod.splits recv_res.splits send_res.splits if_splits)

text \<open>A new connection: in the table, or refused by \<^verbatim>\<open>add_fd\<close> without the constructor noticing.\<close>

lemma inv_new:
  assumes inv: "poll_inv full lfd ps" and p: "ps_conns ps p = None"
    and fd: "0 \<le> fd" "fd \<noteq> lfd" "fd \<notin> ran (ps_conns ps)"
  shows "case poll_connection_new p fd ps of
      Inl f \<Rightarrow> f = TableOverrun \<and> length (po_pfds (ps_poller ps)) = max_fds \<and> fd < fd_range
    | Inr ps' \<Rightarrow> poll_inv full lfd ps'"
proof -
  note T = poll_invD(2) [OF inv]
  show ?thesis
  proof (cases "fd_range \<le> fd")
    case True
    then show ?thesis
      using table_too_large [OF T True p] inv
      by (auto simp: poll_connection_new_def add_fd_def poll_inv_def split: if_splits)
  next
    case False
    have new: "fd \<notin> set (slot_fds ps)"
      using table_okD(6,8) [OF T, of fd] fd by (auto simp: ran_def)
    then have new': "\<not> (\<exists>pfd \<in> set (po_pfds (ps_poller ps)). pf_fd pfd = fd)"
      by auto
    show ?thesis
    proof (cases "max_fds \<le> length (po_pfds (ps_poller ps))")
      case True
      then show ?thesis
        using False new' poll_invD(6) [OF inv] by (simp add: poll_connection_new_def add_fd_def)
    next
      case room: False
      let ?po = "show_fds ((ps_poller ps)\<lparr>po_pfds := po_pfds (ps_poller ps) @
        [\<lparr>pf_fd = fd, pf_events = POLLIN, pf_revents = 0\<rparr>], po_handlers := (po_handlers (ps_poller ps))(fd \<mapsto> p)\<rparr>)"
      have run: "poll_connection_new p fd ps = Inr (ps\<lparr>ps_poller := ?po, ps_conns := (ps_conns ps)(p \<mapsto> fd),
          ps_world := emit (CtlAdd fd EPOLLIN) (ps_world ps)\<rparr>)"
        using False room new' fd(1) by (simp add: poll_connection_new_def add_fd_def)
      have tab: "table_ok (slot_fds ps @ [fd]) ((po_handlers (ps_poller ps))(fd \<mapsto> p)) ((ps_conns ps)(p \<mapsto> fd)) lfd"
        using table_add [OF T fd(1) _ new p fd(3)] False by simp
      have "relayed full g (emit (CtlAdd fd EPOLLIN) (ps_world ps))" if "ps_conns ps q = Some g" "g < fd_range" for q g
        using poll_invD(4) [OF inv that] by (cases "g = fd") simp_all
      then show ?thesis
        using run tab inv room by (auto simp: poll_inv_def show_fds_def split: if_splits)
    qed
  qed
qed

lemma poll_inv_delete:
  assumes inv: "poll_inv full lfd ps" and p: "po_handlers (ps_poller ps) fd = Some p" 
    and rev: "\<forall>pfd \<in> set (po_pfds (ps_poller ps)). pf_fd pfd = fd \<longrightarrow> pf_revents pfd = 0"
    and w: "only_on fd (ps_world ps) w" "filter (\<lambda>e. \<exists>fd ev. e = CtlAdd fd ev) (w_trace w) =
      filter (\<lambda>e. \<exists>fd ev. e = CtlAdd fd ev) (w_trace (ps_world ps))"
  shows "poll_inv full lfd (poll_connection_delete p fd (ps\<lparr>ps_world := w\<rparr>))"
proof -
  note T = poll_invD(2) [OF inv]
  obtain us pfd vs where split: "po_pfds (ps_poller ps) = us @ pfd # vs" "pf_fd pfd = fd"
    "release_slot fd (po_pfds (ps_poller ps)) = Some (us @ pfd\<lparr>pf_fd := -1\<rparr> # vs)"
    using release_slot_found [OF table_okD(7) [OF T p]] release_slot_split by (metis option.exhaust)
  have conn: "ps_conns ps p = Some fd" "fd < fd_range"
    using table_okD(8) [OF T p] table_okD(1) [OF T table_okD(7) [OF T p]] by (auto simp: fd_range_def)
  let ?w = "emit (Closed fd) (emit (CtlDel fd) w)"
  have "only_on fd w (emit (CtlDel fd) w)" "only_on fd (emit (CtlDel fd) w) ?w"
    by simp_all
  then have "only_on fd (ps_world ps) ?w"
    using w(1) by (blast intro: only_on_trans)
  then have "relayed full g ?w" if "ps_conns ps q = Some g" "g < fd_range" "q \<noteq> p" for q g
    using relayed_others [OF inv conn that] by blast
  moreover have "table_ok (map pf_fd us @ (-1) # map pf_fd vs) ((po_handlers (ps_poller ps))(fd := None))
      ((ps_conns ps)(p := None)) lfd"
    by (rule table_remove [where H = "po_handlers (ps_poller ps)" and fd = fd, OF _ p]) (use T split in simp)
  ultimately show ?thesis
    using split inv rev w(2)
    by (auto simp: poll_inv_def poll_connection_delete_def remove_fd_def split: if_splits)
qed

text \<open>One slot: what it keeps, and the two ways it can fail.\<close>

definition slot_fault :: "'k poll_server \<Rightarrow> nat \<Rightarrow> poll_fault \<Rightarrow> bool" where
  "slot_fault ps i f \<longleftrightarrow>
    (let pfd = po_pfds (ps_poller ps) ! i in pf_fd pfd = ps_listen ps \<and>
      (f = NullHandler \<and> pf_revents pfd \<noteq> 0 \<and> pf_revents pfd AND POLLIN = 0 \<or>
       f = TableOverrun \<and> length (po_pfds (ps_poller ps)) = max_fds))"

lemma slot_law:
  assumes K: "kernel_ok K" and full: "full \<Longrightarrow> takes_all K" and alloc: "poll_alloc_ok alloc"
    and fresh: "slot_accepts ps i \<longrightarrow> poll_fresh K ps" and inv: "poll_inv full lfd ps" and i: "i < length (po_pfds (ps_poller ps))"
  shows "case poll_slot K alloc i ps of Inl f \<Rightarrow> slot_fault ps i f | Inr ps' \<Rightarrow> poll_inv full lfd ps'"
proof -
  let ?pfd = "po_pfds (ps_poller ps) ! i" and ?ps = "clear_revents i ps"
  note T = poll_invD(2) [OF inv]
  have mem: "pf_fd ?pfd \<in> set (slot_fds ps)"
    using i by simp
  note inv1 = inv_clear [OF inv, of i]
  consider (quiet) "pf_revents ?pfd = 0" | (listener) "pf_revents ?pfd \<noteq> 0" "pf_fd ?pfd = ps_listen ps"
    | (conn) "pf_revents ?pfd \<noteq> 0" "pf_fd ?pfd \<noteq> ps_listen ps"
    by blast
  then show ?thesis
  proof cases
    case quiet
    then show ?thesis
      using inv by (simp add: poll_slot_def Let_def)
  next
    case listener
    have range: "0 \<le> ps_listen ps" "ps_listen ps < fd_range" "po_handlers (ps_poller ps) (ps_listen ps) = None"
      using table_okD(1) [OF T table_okD(3) [OF T]] table_okD(4,5) [OF T] poll_invD(1) [OF inv]
      by (auto simp: fd_range_def)
    obtain r s where acc: "k_accept K (ps_listen ps) (w_os (ps_world ps)) = (r, s)"
      by (cases "k_accept K (ps_listen ps) (w_os (ps_world ps))")
    let ?os = "?ps\<lparr>ps_world := (ps_world ps)\<lparr>w_os := s\<rparr>\<rparr>"
    have inv2: "poll_inv full lfd ?os"
      using inv_os [OF inv1, of s] by simp
    have addr: "ps_conns ps (alloc ?ps) = None"
      using alloc [unfolded poll_alloc_ok_def, THEN spec, of ?ps] table_okD(12) [OF T] by simp
    show ?thesis
    proof (cases r)
      case (AcceptErr e)
      then show ?thesis
        using listener acc inv2 range by (simp add: poll_slot_def poll_accept_def Let_def slot_fault_def)
    next
      case (Accepted fd)
      have "0 \<le> fd" "fd \<noteq> lfd" "fd \<notin> ran (ps_conns ps)" if "pf_revents ?pfd AND POLLIN \<noteq> 0"
        using fresh that listener acc Accepted poll_invD(1) [OF inv]
        by (simp_all add: poll_fresh_def slot_accepts_def Let_def)
      then show ?thesis
        using inv_new [OF inv2, of "alloc ?ps" fd] addr listener acc Accepted range
        by (cases "pf_revents ?pfd AND POLLIN = 0")
          (auto simp: poll_slot_def poll_accept_def Let_def slot_fault_def split: sum.splits)
    qed
  next
    case conn
    have "\<not> pf_fd ?pfd < 0"
      using poll_invD(3) [OF inv, of ?pfd] conn(1) i by auto
    then have fd: "0 \<le> pf_fd ?pfd" "pf_fd ?pfd < fd_range"
      using table_okD(1) [OF T mem] by auto
    obtain p where p: "po_handlers (ps_poller ps) (pf_fd ?pfd) = Some p"
      using table_okD(6) [OF T mem fd(1)] conn(2) poll_invD(1) [OF inv] by auto
    note live = table_okD(8) [OF T p]
    obtain r w1 where echo: "handle_echo K (pf_fd ?pfd) (ps_world ps) = (r, w1)"
      by (cases "handle_echo K (pf_fd ?pfd) (ps_world ps)")
    note law = handle_echo_law [OF K full echo poll_invD(4) [OF inv live fd(2)]]
    note only = handle_echo_only [OF echo]
    have others: "relayed full g w1" if "ps_conns ps q = Some g" "g < fd_range" for q g
      using relayed_others [OF inv live fd(2) that _ only] law(1) live that(1) by (cases "q = p") auto
    have keep: "poll_inv full lfd (?ps\<lparr>ps_world := w1\<rparr>)"
      using inv1 others no_adds [OF echo] by (simp add: poll_inv_def)
    have cleared: "\<forall>pfd \<in> set (po_pfds (ps_poller ?ps)). pf_fd pfd = pf_fd ?pfd \<longrightarrow> pf_revents pfd = 0"
    proof -
      have "pf_revents (po_pfds (ps_poller ?ps) ! j) = 0"
        if "j < length (po_pfds (ps_poller ps))" "pf_fd (po_pfds (ps_poller ?ps) ! j) = pf_fd ?pfd" for j
      proof (cases "j = i")
        case False
        have "slot_fds ps ! j = slot_fds ps ! i" "i < length (slot_fds ps)" "j < length (slot_fds ps)"
          using that False i by (simp_all add: clear_revents_def)
        then show ?thesis
          using distinct_filter_nth [OF table_okD(2) [OF T]] fd(1) False i by auto
      qed (use i in \<open>simp add: clear_revents_def\<close>)
      then show ?thesis
        by (auto simp: in_set_conv_nth)
    qed
    have delete: "poll_inv full lfd (poll_connection_delete p (pf_fd ?pfd) (?ps\<lparr>ps_world := w\<rparr>))"
      if "w = ps_world ps \<or> w = w1" for w
      using that poll_inv_delete [OF inv1 _ cleared, of p w] p only no_adds [OF echo] by auto
    show ?thesis
      using conn fd p live echo keep delete [of w1] delete [of "ps_world ps"]
      by (auto simp: poll_slot_def poll_handle_def Let_def)
  qed
qed

definition poll_state_inv :: "bool \<Rightarrow> int \<Rightarrow> 'k poll_state \<Rightarrow> bool" where
  "poll_state_inv full lfd s = (case s of Polling ps \<Rightarrow> poll_inv full lfd ps | Scanning ps i \<Rightarrow> poll_inv full lfd ps
    | Poll_Crashed f \<Rightarrow> f = NullHandler \<or> f = TableOverrun)"

lemma poll_inv_step:
  assumes "kernel_ok K" "full \<Longrightarrow> takes_all K" "poll_alloc_ok alloc" "poll_step K alloc s s'" "poll_state_inv full lfd s"
  shows "poll_state_inv full lfd s'"
  using assms(4)
proof (cases rule: poll_step.cases)
  case (poll ps revs)
  then show ?thesis
    using assms(5) inv_store by (simp add: poll_state_inv_def)
next
  case (slot i ps ps')
  then show ?thesis
    using slot_law [OF assms(1-3) slot(4), where lfd = lfd] assms(5) by (simp add: poll_state_inv_def)
next
  case (fault i ps f)
  then show ?thesis
    using slot_law [OF assms(1-3) fault(4), where lfd = lfd] assms(5)
    by (auto simp: poll_state_inv_def slot_fault_def Let_def)
qed (use assms(5) in \<open>simp_all add: poll_state_inv_def\<close>)

lemma poll_inv_start:
  assumes "w_trace w = []" "0 \<le> lfd" "lfd < fd_range"
  shows "\<exists>ps. poll_loop_start lfd w = Inr ps \<and> poll_inv full lfd ps"
  using assms
  by (simp add: poll_loop_start_def add_fd_def poller_new_def show_fds_def max_fds_def poll_inv_def table_ok_def)

lemma poll_inv_run:
  assumes "kernel_ok K" "full \<Longrightarrow> takes_all K" "poll_alloc_ok alloc" "w_trace w = []"
    and lfd: "simple_listen socket argv = Some lfd" "0 \<le> lfd" "lfd < fd_range"
    and run: "poll_main K alloc socket argv w s"
  shows "poll_state_inv full lfd s"
proof -
  obtain ps where ps: "poll_loop_start lfd w = Inr ps" "poll_inv full lfd ps"
    using poll_inv_start [OF assms(4) lfd(2,3)] by blast
  then have "(poll_step K alloc)\<^sup>*\<^sup>* (Polling ps) s"
    using run lfd(1) by (simp add: poll_main_def)
  then show ?thesis
  proof (induction rule: rtranclp_induct)
    case base
    show ?case
      using ps(2) by (simp add: poll_state_inv_def)
  next
    case (step s s')
    then show ?case
      using poll_inv_step [OF assms(1-3)] by blast
  qed
qed

section \<open>What the server promises\<close>


subsection \<open>The table wears out\<close>

text \<open>Clients that come one after the other: each connects, sends nothing and leaves.\<close>

definition one_by_one :: "unit net_kernel" where
  "one_by_one = \<lparr>k_recv = (\<lambda>fd n s. (RecvData [], s)), k_send = (\<lambda>fd bs s. (SendLen (length bs), s)),
    k_accept = (\<lambda>_ s. (Accepted 5, s))\<rparr>"

abbreviation wear_step :: "unit poll_state \<Rightarrow> unit poll_state \<Rightarrow> bool" where
  "wear_step \<equiv> poll_step one_by_one (\<lambda>_. 7)"

abbreviation slot_of :: "int \<Rightarrow> short \<Rightarrow> pollfd" where
  "slot_of fd r \<equiv> \<lparr>pf_fd = fd, pf_events = POLLIN, pf_revents = r\<rparr>"

definition worn :: "nat \<Rightarrow> unit poll_server \<Rightarrow> bool" where
  "worn n ps \<longleftrightarrow> po_pfds (ps_poller ps) = slot_of 3 0 # replicate n (slot_of (-1) 0) \<and>
    po_handlers (ps_poller ps) = Map.empty \<and> ps_listen ps = 3 \<and> ps_conns ps = Map.empty"

definition in_use :: "nat \<Rightarrow> unit poll_server \<Rightarrow> bool" where
  "in_use n ps \<longleftrightarrow> po_pfds (ps_poller ps) = slot_of 3 0 # replicate n (slot_of (-1) 0) @ [slot_of 5 0] \<and>
    po_handlers (ps_poller ps) = [5 \<mapsto> 7] \<and> ps_listen ps = 3 \<and> ps_conns ps = [7 \<mapsto> 5]"

lemma quiet_slots:
  assumes "\<forall>j. i \<le> j \<and> j < i + k \<longrightarrow> j < length (po_pfds (ps_poller ps)) \<and> pf_revents (po_pfds (ps_poller ps) ! j) = 0"
  shows "(poll_step K alloc)\<^sup>*\<^sup>* (Scanning ps i) (Scanning ps (i + k))"
  using assms
proof (induction k)
  case (Suc k)
  then have "poll_step K alloc (Scanning ps (i + k)) (Scanning ps (Suc (i + k)))"
    by (intro poll_step.slot) (simp_all add: slot_accepts_def poll_slot_def Let_def)
  then show ?case
    using Suc by (simp add: rtranclp.rtrancl_into_rtrancl)
qed simp

lemma wear_store:
  "po_pfds (ps_poller ps) = xs \<Longrightarrow> po_pfds (ps_poller (store_revents revs ps)) = map2 (\<lambda>pfd rev. pfd\<lparr>pf_revents := rev\<rparr>) xs revs"
  "ps_conns (store_revents revs ps) = ps_conns ps" "ps_listen (store_revents revs ps) = ps_listen ps"
  "po_handlers (ps_poller (store_revents revs ps)) = po_handlers (ps_poller ps)"
  by (simp_all add: store_revents_def)

lemma replicate_snoc:
  "(replicate n x @ [y]) ! n = y" "(replicate n x @ [y])[n := z] = replicate n x @ [z]"
  by (simp_all add: nth_append list_update_append)

lemma map2_replicate: "map2 f (replicate n x) (replicate n y) = replicate n (f x y)"
  by (simp add: zip_replicate)

text \<open>The listener's slot: it is the first, and what \<^verbatim>\<open>poll_accept\<close> does there.\<close>

lemma wear_accept:
  assumes "worn n ps"
  shows "(if Suc n < 4096 then \<exists>ps'. wear_step\<^sup>*\<^sup>* (Polling ps) (Scanning ps' 1) \<and> in_use n ps'
    else wear_step\<^sup>*\<^sup>* (Polling ps) (Poll_Crashed TableOverrun))"
proof -
  let ?revs = "POLLIN # replicate n 0"
  let ?ps = "store_revents ?revs ps"
  note w = assms [unfolded worn_def]
  have pfds: "po_pfds (ps_poller ?ps) = slot_of 3 POLLIN # replicate n (slot_of (-1) 0)"
    using wear_store(1) [of ps _ ?revs] w by (simp add: map2_replicate)
  have "poll_answer_ok ps ?revs"
    using w by (auto simp: poll_answer_ok_def zip_replicate)
  then have start: "wear_step (Polling ps) (Scanning ?ps 0)"
    by (rule poll_step.poll)
  have fresh: "poll_fresh one_by_one ?ps"
    using w by (simp add: poll_fresh_def one_by_one_def wear_store)
  have slot: "if Suc n < 4096 then \<exists>ps'. poll_slot one_by_one (\<lambda>_. 7) 0 ?ps = Inr ps' \<and> in_use n ps'
      else poll_slot one_by_one (\<lambda>_. 7) 0 ?ps = Inl TableOverrun"
    using w pfds
    by (auto simp: poll_slot_def poll_accept_def one_by_one_def poll_connection_new_def add_fd_def show_fds_def
        clear_revents_def wear_store in_use_def POLLIN_def fd_range_def max_fds_def)
  show ?thesis
  proof (cases "Suc n < 4096")
    case True
    then obtain ps' where "poll_slot one_by_one (\<lambda>_. 7) 0 ?ps = Inr ps'" "in_use n ps'"
      using slot by auto
    then have "wear_step (Scanning ?ps 0) (Scanning ps' 1)"
      using poll_step.slot [of 0 ?ps one_by_one] fresh pfds by simp
    with start have "wear_step\<^sup>*\<^sup>* (Polling ps) (Scanning ps' 1)"
      by (rule converse_rtranclp_into_rtranclp [OF _ r_into_rtranclp])
    then show ?thesis
      using True \<open>in_use n ps'\<close> by auto
  next
    case False
    then have "wear_step (Scanning ?ps 0) (Poll_Crashed TableOverrun)"
      using slot fresh pfds by (intro poll_step.fault) simp_all
    then show ?thesis
      using False start by (auto intro: converse_rtranclp_into_rtranclp)
  qed
qed

lemma wear_leave:
  assumes "in_use n ps"
  shows "\<exists>ps'. wear_step\<^sup>*\<^sup>* (Scanning ps 1) (Polling ps') \<and> worn (Suc n) ps'"
proof -
  let ?revs = "0 # replicate n 0 @ [POLLIN]"
  let ?ps = "store_revents ?revs ps"
  note u = assms [unfolded in_use_def]
  have "wear_step\<^sup>*\<^sup>* (Scanning ps 1) (Scanning ps (1 + Suc n))"
    using u by (intro quiet_slots) (auto simp: nth_append nth_Cons split: nat.splits)
  also have "wear_step\<^sup>*\<^sup>* (Scanning ps (1 + Suc n)) (Polling ps)"
    using u by (intro r_into_rtranclp poll_step.finished) simp
  also have "wear_step\<^sup>*\<^sup>* (Polling ps) (Scanning ?ps 0)"
    using u by (intro r_into_rtranclp poll_step.poll) (auto simp: poll_answer_ok_def zip_append zip_replicate)
  finally have scan: "wear_step\<^sup>*\<^sup>* (Scanning ps 1) (Scanning ?ps 0)" .
  have pfds: "po_pfds (ps_poller ?ps) = (slot_of 3 0 # replicate n (slot_of (-1) 0)) @ [slot_of 5 POLLIN]"
    using wear_store(1) [of ps _ ?revs] u by (simp add: map2_replicate)
  have "wear_step\<^sup>*\<^sup>* (Scanning ?ps 0) (Scanning ?ps (0 + Suc n))"
    unfolding pfds by (intro quiet_slots) (auto simp: pfds nth_append nth_Cons split: nat.splits)
  moreover obtain ps' where slot: "poll_slot one_by_one (\<lambda>_. 7) (Suc n) ?ps = Inr ps'" and worn: "worn (Suc n) ps'"
  proof -
    have rel: "release_slot 5 ((slot_of 3 0 # replicate n (slot_of (-1) 0)) @ [slot_of 5 0])
        = Some ((slot_of 3 0 # replicate n (slot_of (-1) 0)) @ [slot_of (-1) 0])"
    proof -
      have "release_slot 5 (replicate n (slot_of (-1) 0) @ [slot_of 5 0]) = Some (replicate n (slot_of (-1) 0) @ [slot_of (-1) 0])"
        by (induction n) simp_all
      then show ?thesis by simp
    qed
    have "worn (Suc n) (case poll_slot one_by_one (\<lambda>_. 7) (Suc n) ?ps of Inr ps' \<Rightarrow> ps') \<and>
        (\<exists>ps'. poll_slot one_by_one (\<lambda>_. 7) (Suc n) ?ps = Inr ps')"
      using u rel
      by (simp add: poll_slot_def pfds replicate_snoc clear_revents_def wear_store fd_range_def POLLIN_def poll_handle_def
          handle_echo_def recv_send_def sys_recv_def one_by_one_def Let_def poll_connection_delete_def remove_fd_def worn_def
          replicate_append_same)
    then show thesis
      using that by auto
  qed
  moreover have "wear_step (Scanning ?ps (0 + Suc n)) (Scanning ps' (Suc (Suc n)))"
    using slot u pfds by (simp, intro poll_step.slot)
      (simp_all add: slot_accepts_def nth_append wear_store)
  moreover have "wear_step (Scanning ps' (Suc (Suc n))) (Polling ps')"
    using worn by (intro poll_step.finished) (simp add: worn_def)
  ultimately have "wear_step\<^sup>*\<^sup>* (Scanning ?ps 0) (Polling ps')"
    by (meson rtranclp.rtrancl_into_rtrancl)
  then show ?thesis
    using scan worn by (meson rtranclp_trans)
qed

lemma wear_start: "\<exists>ps. poll_loop_start 3 \<lparr>w_os = (), w_trace = []\<rparr> = Inr ps \<and> worn 0 ps"
  by (simp add: poll_loop_start_def add_fd_def poller_new_def show_fds_def max_fds_def fd_range_def worn_def POLLIN_def)

lemma wear_reach:
  "worn 0 ps0 \<Longrightarrow> n < 4096 \<Longrightarrow> \<exists>ps. wear_step\<^sup>*\<^sup>* (Polling ps0) (Polling ps) \<and> worn n ps"
proof (induction n)
  case 0
  then show ?case by blast
next
  case (Suc n)
  then obtain ps where ps: "wear_step\<^sup>*\<^sup>* (Polling ps0) (Polling ps)" "worn n ps"
    by auto
  from wear_accept [OF ps(2)] Suc.prems(2) obtain ps1 where 1: "wear_step\<^sup>*\<^sup>* (Polling ps) (Scanning ps1 1)" "in_use n ps1"
    by auto
  from wear_leave [OF 1(2)] obtain ps2 where "wear_step\<^sup>*\<^sup>* (Scanning ps1 1) (Polling ps2)" "worn (Suc n) ps2"
    by auto
  with ps(1) 1(1) show ?case
    by (meson rtranclp_trans)
qed

lemma worn_shape: "worn n ps \<Longrightarrow> map pf_fd (po_pfds (ps_poller ps)) = 3 # replicate n (-1) \<and> ps_conns ps = Map.empty"
  by (simp add: worn_def)


text \<open>\<^verbatim>\<open>show_fds\<close> after a registration reads outside of \<^verbatim>\<open>handlers\<close> as soon as one slot is marked.\<close>

lemma add_fd_reads_outside:
  assumes "add_fd fd events h po = Inr (0, po')"
  shows "Outside \<in> snd ` set (last (po_shown po')) \<longleftrightarrow>
    (\<exists>pfd \<in> set (po_pfds po). pf_fd pfd < 0 \<or> fd_range \<le> pf_fd pfd)"
  using assms by (auto simp: add_fd_def show_fds_def image_iff not_less not_le split: if_splits)

text \<open>A client whose descriptor is 4096 or more is accepted and never served: no slot asks \<^verbatim>\<open>poll\<close> about it.\<close>

lemma large_descriptor_ignored:
  assumes "fd_range \<le> fd"
  shows "\<exists>ps'. poll_connection_new p fd ps = Inr ps' \<and> ps_conns ps' p = Some fd \<and> ps_poller ps' = ps_poller ps"
  using assms by (simp add: poll_connection_new_def add_fd_def)

section \<open>A run\<close>


end
