(* ===== verification/Response_Push.thy ===== *)
theory Response_Push
  imports Simple_Echo
begin

text \<open>
  What the servers that push one large response to every client have in common
  (\<^verbatim>\<open>tcp_echo/server_epollet_simple.cpp\<close> and the two programs in \<^verbatim>\<open>tcp_echo/deprecated\<close>): a table from
  descriptors to connections, the handlers of a connection, and the loop.  The programs differ in
  \<^verbatim>\<open>send_buf\<close> and in the events they ask for, which are parameters here.  \<^verbatim>\<open>send_buf\<close> is called by the constructor,
  which ignores its result, and by the handler of EPOLLOUT; a connection is closed when its response is out.
  What a client sends is read and dropped.

  The loop of \<^verbatim>\<open>handle_recv\<close> runs as long as the client keeps the socket filled, so it is a partial function,
  and that it returns is proved for kernels that run out of data.

  The locale \<open>response_pusher\<close> is the contract of \<^verbatim>\<open>send_buf\<close>; what the programs promise is proved in it.
\<close>

section \<open>\<^verbatim>\<open>class Connection\<close>\<close>

record es_conn =
  es_fd :: int
  es_recv_len :: int
  es_send_len :: nat

partial_function (option) es_handle_recv ::
  "('k, 'z) kernel_scheme \<Rightarrow> 'a es_conn_scheme \<Rightarrow> 'k world \<Rightarrow> (int \<times> 'a es_conn_scheme \<times> 'k world) option" where
  [code]: "es_handle_recv K c w =
    (case sys_recv K (es_fd c) simple_buf_size w of
      (RecvData bs, w1) \<Rightarrow>
        if 0 < length bs then es_handle_recv K (c\<lparr>es_recv_len := es_recv_len c + int (length bs)\<rparr>) w1
        else Some (-1, c, w1)
    | (RecvErr e, w1) \<Rightarrow> Some (if again e then 0 else -1, c, w1))"

type_synonym ('a, 'k) sender = "'a es_conn_scheme \<Rightarrow> 'k world \<Rightarrow> int \<times> 'a es_conn_scheme \<times> 'k world"

definition es_handle_send :: "('a, 'k) sender \<Rightarrow> 'a es_conn_scheme \<Rightarrow> 'k world \<Rightarrow> int \<times> 'a es_conn_scheme \<times> 'k world" where
  "es_handle_send send_buf c w = (case send_buf c w of (ret, s) \<Rightarrow> (if ret = 0 then 0 else -1, s))"

definition es_handle :: "('k, 'z) kernel_scheme \<Rightarrow> ('a, 'k) sender \<Rightarrow> u32 \<Rightarrow> 'a es_conn_scheme \<Rightarrow> 'k world \<Rightarrow>
    (int \<times> 'a es_conn_scheme \<times> 'k world) option" where
  "es_handle K send_buf ev c w =
    (if has ev (NOT (EPOLLIN OR EPOLLOUT)) then Some (-1, c, w)
     else case (if has ev EPOLLOUT then es_handle_send send_buf c w else (0, c, w)) of (r, c1, w1) \<Rightarrow>
       if r < 0 then Some (-1, c1, w1)
       else if has ev EPOLLIN then
         Option.bind (es_handle_recv K c1 w1) (\<lambda>(r2, c2, w2). Some (if r2 < 0 then -1 else 0, c2, w2))
       else Some (0, c1, w1))"

section \<open>The loop\<close>

text \<open>
  A program is its \<^verbatim>\<open>send_buf\<close>, the connection as the constructor has initialised it, and the events it asks for.
\<close>

record ('a, 'k) pusher =
  pu_send :: "('a, 'k) sender"
  pu_blank :: "int \<Rightarrow> 'a es_conn_scheme"
  pu_mask :: u32

definition es_new :: "('a, 'k) pusher \<Rightarrow> int \<Rightarrow> 'k world \<Rightarrow> 'a es_conn_scheme \<times> 'k world" where
  "es_new P fd w = snd (pu_send P (pu_blank P fd) w)"

text \<open>\<open>es_conns\<close> is the \<^verbatim>\<open>unordered_map\<close>; \<^verbatim>\<open>insert\<close> leaves an entry that is there alone.\<close>

record ('a, 'k) es_server =
  es_conns :: "int \<rightharpoonup> 'a es_conn_scheme"
  es_world :: "'k world"

definition es_accept :: "('a, 'k) pusher \<Rightarrow> ('k, 'z) net_kernel_scheme \<Rightarrow> int \<Rightarrow> ('a, 'k) es_server \<Rightarrow> ('a, 'k) es_server" where
  "es_accept P K lfd sv =
    (case k_accept K lfd (w_os (es_world sv)) of
      (AcceptErr e, s) \<Rightarrow> sv\<lparr>es_world := (es_world sv)\<lparr>w_os := s\<rparr>\<rparr>
    | (Accepted fd, s) \<Rightarrow>
        (case es_new P fd (emit (CtlAdd fd (pu_mask P)) ((es_world sv)\<lparr>w_os := s\<rparr>)) of
          (c, w) \<Rightarrow> sv\<lparr>es_conns := (if es_conns sv fd = None then (es_conns sv)(fd \<mapsto> c) else es_conns sv),
            es_world := w\<rparr>))"

definition close_conn :: "int \<Rightarrow> ('a, 'k) es_server \<Rightarrow> ('a, 'k) es_server" where
  "close_conn fd sv = sv\<lparr>es_conns := (es_conns sv)(fd := None),
    es_world := emit (Closed fd) (emit (CtlDel fd) (es_world sv))\<rparr>"

text \<open>One event; \<open>None\<close> if the handler does not return.\<close>

definition es_dispatch :: "('a, 'k) pusher \<Rightarrow> ('k, 'z) net_kernel_scheme \<Rightarrow> int \<Rightarrow> int \<times> u32 \<Rightarrow> ('a, 'k) es_server \<Rightarrow>
    ('a, 'k) es_server option" where
  "es_dispatch P K lfd = (\<lambda>(fd, ev) sv.
    if fd = lfd then Some (es_accept P K lfd sv)
    else case es_conns sv fd of
      None \<Rightarrow> Some sv
    | Some c \<Rightarrow> Option.bind (es_handle K (pu_send P) ev c (es_world sv)) (\<lambda>(ret, c1, w1).
        let sv1 = sv\<lparr>es_conns := (es_conns sv)(fd \<mapsto> c1), es_world := w1\<rparr> in
        Some (if ret < 0 then close_conn fd sv1 else sv1)))"

datatype ('a, 'k) es_state = Serving "('a, 'k) es_server" "(int \<times> u32) list" | Hung

inductive es_step :: "('a, 'k) pusher \<Rightarrow> ('k, 'z) net_kernel_scheme \<Rightarrow> int \<Rightarrow> ('a, 'k) es_state \<Rightarrow> ('a, 'k) es_state \<Rightarrow> bool"
  for P K lfd where
  wait: "fd_batch_ok (es_world sv) batch \<Longrightarrow> es_step P K lfd (Serving sv []) (Serving sv batch)"
| dispatch: "(fst e = lfd \<longrightarrow> fd_accept_fresh K lfd (es_world sv)) \<Longrightarrow> es_dispatch P K lfd e sv = Some sv' \<Longrightarrow>
    es_step P K lfd (Serving sv (e # es)) (Serving sv' es)"
| hang: "es_dispatch P K lfd e sv = None \<Longrightarrow> es_step P K lfd (Serving sv (e # es)) Hung"
| others: "es_step P K lfd (Serving sv es) (Serving (sv\<lparr>es_world := (es_world sv)\<lparr>w_os := s\<rparr>\<rparr>) es)"

definition es_start :: "int \<Rightarrow> 'k world \<Rightarrow> ('a, 'k) es_state" where
  "es_start lfd w = Serving \<lparr>es_conns = Map.empty, es_world = emit (CtlAdd lfd EPOLLIN) w\<rparr> []"

text \<open>\<^verbatim>\<open>main\<close> fills the response: its length in the first eight bytes, a pattern in the others (little endian).\<close>

definition reponse_size :: nat where "reponse_size = 1024 * 1024 * 1024"

definition word_bytes :: "u64 \<Rightarrow> byte list" where
  "word_bytes x = map (\<lambda>i. ucast (drop_bit (8 * i) x)) [0..<8]"

definition reponse :: "byte list" where
  "reponse = word_bytes (of_nat reponse_size) @
    concat (replicate (reponse_size div 8 - 1) (word_bytes 0x1234567812345678))"

lemma length_reponse: "length reponse = reponse_size"
  by (simp add: reponse_def length_concat map_replicate sum_list_replicate word_bytes_def reponse_size_def)

definition push_main :: "('a, 'k) pusher \<Rightarrow> ('k, 'z) net_kernel_scheme \<Rightarrow> (u16 \<Rightarrow> int) \<Rightarrow> string list \<Rightarrow> 'k world \<Rightarrow>
    ('a, 'k) es_state \<Rightarrow> bool" where
  "push_main P K socket argv w s \<longleftrightarrow>
    (\<exists>lfd. simple_listen socket argv = Some lfd \<and> (es_step P K lfd)\<^sup>*\<^sup>* (es_start lfd w) s)"

section \<open>The contract of \<^verbatim>\<open>send_buf\<close>\<close>

text \<open>
  A connection has sent the first \<^verbatim>\<open>send_len\<close> bytes of the response, counts what it has dropped, and agrees
  with epoll on what it is registered for (\<open>reg\<close>).
\<close>

definition es_ok :: "byte list \<Rightarrow> ('a es_conn_scheme \<Rightarrow> u32 option \<Rightarrow> bool) \<Rightarrow> 'a es_conn_scheme \<Rightarrow> 'k world \<Rightarrow> bool" where
  "es_ok resp reg c w \<longleftrightarrow> es_send_len c \<le> length resp \<and>
    sent_on (es_fd c) (w_trace w) = take (es_send_len c) resp \<and>
    es_recv_len c = int (length (received_on (es_fd c) (w_trace w))) \<and>
    reg c (interest (w_trace w) (es_fd c))"

lemma es_ok_quiet: "es_ok resp reg c w \<Longrightarrow> w_trace w' = w_trace w \<Longrightarrow> es_ok resp reg c w'"
  by (simp add: es_ok_def)

lemma es_ok_frame: "es_ok resp reg c w \<Longrightarrow> only_on g w w' \<Longrightarrow> g \<noteq> es_fd c \<Longrightarrow> es_ok resp reg c w'"
  by (simp add: es_ok_def only_on_frame)

lemma es_ok_os [simp]: "es_ok resp reg c (w\<lparr>w_os := s\<rparr>) = es_ok resp reg c w"
  by (simp add: es_ok_def)

text \<open>Why \<^verbatim>\<open>send_buf\<close> gives up: the kernel refuses for good, or takes nothing without an error.\<close>

definition takes_nothing :: "('k, 'z) kernel_scheme \<Rightarrow> int \<Rightarrow> bool" where
  "takes_nothing K fd \<longleftrightarrow> (\<exists>bs s s'. bs \<noteq> [] \<and> k_send K fd bs s = (SendLen 0, s'))"

definition gives_up :: "('k, 'z) kernel_scheme \<Rightarrow> int \<Rightarrow> bool" where
  "gives_up K fd \<longleftrightarrow> hard_error K fd \<or> takes_nothing K fd"

lemma takes_nothingI:
  assumes "sys_send K fd bs w = (SendLen 0, w1)" "bs \<noteq> []"
  shows "takes_nothing K fd"
  using assms by (auto simp: takes_nothing_def sys_send_def split: prod.splits send_res.splits intro!: exI [of _ bs])

text \<open>One send of what is left.\<close>

lemma push_send_cases:
  assumes K: "kernel_ok K" and ok: "es_ok resp reg c w" and more: "es_send_len c < length resp"
    and send: "sys_send K (es_fd c) (drop (es_send_len c) resp) w = (res, w1)"
    and reg: "\<forall>n i. reg c i \<longrightarrow> reg (c\<lparr>es_send_len := es_send_len c + n\<rparr>) i"
  obtains (sent) n where "res = SendLen n" "es_ok resp reg (c\<lparr>es_send_len := es_send_len c + n\<rparr>) w1"
      "only_on (es_fd c) w w1" "n = 0 \<Longrightarrow> gives_up K (es_fd c)"
    | (error) e where "res = SendErr e" "es_ok resp reg c w1" "only_on (es_fd c) w w1" "\<not> again e \<Longrightarrow> gives_up K (es_fd c)"
  using K send
proof (cases rule: sys_send_cases)
  case (sent n)
  have "es_ok resp reg (c\<lparr>es_send_len := es_send_len c + n\<rparr>) w1"
    using ok more sent(2,3) reg by (simp add: es_ok_def take_add)
  moreover have "n = 0 \<Longrightarrow> gives_up K (es_fd c)"
    using takes_nothingI [of K "es_fd c" "drop (es_send_len c) resp" w w1] send sent(1) more by (simp add: gives_up_def)
  ultimately show ?thesis
    using that(1) sent(1) only_on_event [OF sent(3)] by simp
next
  case (error e)
  have "\<not> again e \<Longrightarrow> gives_up K (es_fd c)"
    using hard_errorI(2) [OF error(3)] by (simp add: gives_up_def)
  then show ?thesis
    using that(2) error(1) es_ok_quiet [OF ok error(2)] only_on_quiet [OF error(2)] by blast
qed

text \<open>\<open>live\<close> is what a connection is after \<^verbatim>\<open>send_buf\<close>: who has more to send waits for something.\<close>

definition send_outcome :: "('k, 'z) kernel_scheme \<Rightarrow> byte list \<Rightarrow> ('a es_conn_scheme \<Rightarrow> u32 option \<Rightarrow> bool) \<Rightarrow>
    ('a es_conn_scheme \<Rightarrow> bool) \<Rightarrow> 'a es_conn_scheme \<Rightarrow> 'k world \<Rightarrow> int \<times> 'a es_conn_scheme \<times> 'k world \<Rightarrow> bool" where
  "send_outcome K resp reg live c w = (\<lambda>(ret, c', w'). es_ok resp reg c' w' \<and> live c' \<and> es_fd c' = es_fd c \<and>
    only_on (es_fd c) w w' \<and>
    (ret = 1 \<and> es_send_len c' = length resp \<or> ret = 0 \<and> es_send_len c' < length resp \<or> ret = -1 \<and> gives_up K (es_fd c)))"

locale response_pusher =
  fixes P :: "('a, 'k) pusher" and K :: "('k, 'z) net_kernel_scheme" and resp :: "byte list"
    and reg :: "'a es_conn_scheme \<Rightarrow> u32 option \<Rightarrow> bool" and live :: "'a es_conn_scheme \<Rightarrow> bool"
  assumes sends: "kernel_ok K \<Longrightarrow> es_ok resp reg c w \<Longrightarrow> send_outcome K resp reg live c w (pu_send P c w)"
    and blank: "es_fd (pu_blank P fd) = fd" "es_recv_len (pu_blank P fd) = 0" "es_send_len (pu_blank P fd) = 0"
      "reg (pu_blank P fd) (Some (pu_mask P))"
    and registered: "\<not> reg c None"
    and counting: "reg (c\<lparr>es_recv_len := n\<rparr>) i = reg c i" "live (c\<lparr>es_recv_len := n\<rparr>) = live c"
begin

abbreviation ok :: "'a es_conn_scheme \<Rightarrow> 'k world \<Rightarrow> bool" where
  "ok \<equiv> es_ok resp reg"

lemma send_law:
  assumes "kernel_ok K" "pu_send P c w = (ret, c', w')" "ok c w"
  shows "ok c' w'" "live c'" "es_fd c' = es_fd c" "only_on (es_fd c) w w'"
    "ret = 1 \<and> es_send_len c' = length resp \<or> ret = 0 \<and> es_send_len c' < length resp \<or> ret = -1 \<and> gives_up K (es_fd c)"
  using sends [OF assms(1,3)] assms(2) by (auto simp: send_outcome_def)

end

section \<open>One call of \<^verbatim>\<open>handle\<close>\<close>

text \<open>What \<^verbatim>\<open>handle_recv\<close> does if it returns.\<close>

definition recv_outcome :: "('k, 'z) kernel_scheme \<Rightarrow> byte list \<Rightarrow> ('a es_conn_scheme \<Rightarrow> u32 option \<Rightarrow> bool) \<Rightarrow>
    ('a es_conn_scheme \<Rightarrow> bool) \<Rightarrow> 'a es_conn_scheme \<Rightarrow> 'k world \<Rightarrow> int \<times> 'a es_conn_scheme \<times> 'k world \<Rightarrow> bool" where
  "recv_outcome K resp reg live c w = (\<lambda>(ret, c', w'). es_ok resp reg c' w' \<and> (live c \<longrightarrow> live c') \<and> es_fd c' = es_fd c \<and>
    only_on (es_fd c) w w' \<and> (ret < 0 \<longrightarrow> saw_eof (es_fd c) w' \<or> hard_error K (es_fd c)))"

context response_pusher
begin

lemma recv_one:
  assumes ok: "ok c w" and recv: "sys_recv K (es_fd c) n w = (RecvData bs, w1)"
  shows "ok (c\<lparr>es_recv_len := es_recv_len c + int (length bs)\<rparr>) w1" "only_on (es_fd c) w w1"
    "bs = [] \<Longrightarrow> saw_eof (es_fd c) w1"
  using sys_recv_only [OF recv] ok recv
  by (auto simp: es_ok_def sys_recv_def saw_eof_def counting split: prod.splits recv_res.splits)

lemma recv_law:
  assumes K: "kernel_ok K" and run: "es_handle_recv K c w = Some y" and ok: "ok c w"
  shows "recv_outcome K resp reg live c w y"
proof -
  have "K' = K \<and> ok c w \<longrightarrow> recv_outcome K resp reg live c w y" if "es_handle_recv K' c w = Some y" for K' c w y
    using that
  proof (rule es_handle_recv.raw_induct [rotated], intro impI, elim conjE)
    fix f K' c w y
    assume IH: "\<And>K' c w y. f K' c w = Some y \<Longrightarrow> K' = K \<and> ok c w \<longrightarrow> recv_outcome K resp reg live c w y"
      and body: "(case sys_recv K' (es_fd c) simple_buf_size w of
        (RecvData bs, w1) \<Rightarrow>
          if 0 < length bs then f K' (c\<lparr>es_recv_len := es_recv_len c + int (length bs)\<rparr>) w1
          else Some (-1, c, w1)
      | (RecvErr e, w1) \<Rightarrow> Some (if again e then 0 else -1, c, w1)) = Some y"
      and eq: "K' = K" and ok: "ok c w"
    obtain res w1 where recv: "sys_recv K (es_fd c) simple_buf_size w = (res, w1)"
      by (cases "sys_recv K (es_fd c) simple_buf_size w")
    show "recv_outcome K resp reg live c w y"
    proof (cases res)
      case (RecvData bs)
      note one = recv_one [OF ok recv [unfolded RecvData]]
      show ?thesis
      proof (cases "bs = []")
        case True
        then show ?thesis
          using body eq recv RecvData one counting(1) by (auto simp: recv_outcome_def es_ok_def)
      next
        case False
        then have "f K (c\<lparr>es_recv_len := es_recv_len c + int (length bs)\<rparr>) w1 = Some y"
          using body eq recv RecvData by simp
        from IH [OF this] one(1) have "recv_outcome K resp reg live (c\<lparr>es_recv_len := es_recv_len c + int (length bs)\<rparr>) w1 y"
          by simp
        then show ?thesis
          using only_on_trans [OF one(2)] counting(2) by (auto simp: recv_outcome_def)
      qed
    next
      case (RecvErr e)
      have "w_trace w1 = w_trace w" "\<not> again e \<Longrightarrow> hard_error K (es_fd c)"
        using K recv RecvErr hard_errorI(1) by (auto elim!: sys_recv_cases)
      then show ?thesis
        using body eq recv RecvErr es_ok_quiet [OF ok, of w1] only_on_quiet [of w1 w "es_fd c"]
        by (cases "again e") (auto simp: recv_outcome_def)
    qed
  qed
  then show ?thesis
    using run ok by blast
qed

end

text \<open>A kernel that runs out of data on the descriptor lets the loop return.\<close>

definition recv_drains :: "('k, 'z) kernel_scheme \<Rightarrow> int \<Rightarrow> ('k \<Rightarrow> nat) \<Rightarrow> bool" where
  "recv_drains K fd rank \<longleftrightarrow>
    (\<forall>n s bs s'. k_recv K fd n s = (RecvData bs, s') \<longrightarrow> bs \<noteq> [] \<longrightarrow> rank s' < rank s)"

lemma es_handle_recv_returns:
  assumes "recv_drains K (es_fd c) rank"
  shows "\<exists>y. es_handle_recv K c w = Some y"
  using assms
proof (induction "rank (w_os w)" arbitrary: c w rule: less_induct)
  case less
  obtain res w1 where recv: "sys_recv K (es_fd c) simple_buf_size w = (res, w1)"
    by (cases "sys_recv K (es_fd c) simple_buf_size w")
  show ?case
  proof (cases res)
    case (RecvData bs)
    have "rank (w_os w1) < rank (w_os w)" if "bs \<noteq> []"
    proof -
      have "k_recv K (es_fd c) simple_buf_size (w_os w) = (RecvData bs, w_os w1)"
        using recv RecvData by (auto simp: sys_recv_def split: prod.splits recv_res.splits)
      then show ?thesis
        using less.prems that by (auto simp: recv_drains_def)
    qed
    then show ?thesis
      using less.hyps [of w1 "c\<lparr>es_recv_len := es_recv_len c + int (length bs)\<rparr>"] less.prems recv RecvData
      by (subst es_handle_recv.simps) simp
  next
    case (RecvErr e)
    then show ?thesis
      using recv by (subst es_handle_recv.simps) simp
  qed
qed

text \<open>The reasons for which a handler asks to be closed.\<close>

definition close_reason :: "('k, 'z) kernel_scheme \<Rightarrow> byte list \<Rightarrow> u32 \<Rightarrow> int \<Rightarrow> 'k world \<Rightarrow> bool" where
  "close_reason K resp ev fd w \<longleftrightarrow> has ev (NOT (EPOLLIN OR EPOLLOUT)) \<or> sent_on fd (w_trace w) = resp \<or>
    saw_eof fd w \<or> gives_up K fd"

context response_pusher
begin

lemma handle_send_law:
  assumes K: "kernel_ok K" and ok: "ok c w" and live: "live c"
    and run: "(if has ev EPOLLOUT then es_handle_send (pu_send P) c w else (0, c, w)) = (r, c', w')"
  shows "ok c' w'" "live c'" "es_fd c' = es_fd c" "only_on (es_fd c) w w'"
    "r < 0 \<Longrightarrow> sent_on (es_fd c) (w_trace w') = resp \<or> gives_up K (es_fd c)"
proof -
  obtain k s1 where k: "pu_send P c w = (k, s1)" by (cases "pu_send P c w")
  have "ok c' w' \<and> live c' \<and> es_fd c' = es_fd c \<and> only_on (es_fd c) w w' \<and>
    (r < 0 \<longrightarrow> es_send_len c' = length resp \<or> gives_up K (es_fd c))"
  proof (cases "has ev EPOLLOUT")
    case True
    then have "pu_send P c w = (k, c', w')" "r = (if k = 0 then 0 else -1)"
      using run k by (auto simp: es_handle_send_def)
    then show ?thesis
      using send_law [OF K _ ok, of k c' w'] by auto
  qed (use run ok live in auto)
  then show "ok c' w'" "live c'" "es_fd c' = es_fd c" "only_on (es_fd c) w w'"
    "r < 0 \<Longrightarrow> sent_on (es_fd c) (w_trace w') = resp \<or> gives_up K (es_fd c)"
    by (auto simp: es_ok_def)
qed

lemma handle_law:
  assumes K: "kernel_ok K" and run: "es_handle K (pu_send P) ev c w = Some (ret, c', w')"
    and ok: "ok c w" and live: "live c"
  shows "ok c' w'" "live c'" "es_fd c' = es_fd c" "only_on (es_fd c) w w'"
    "ret < 0 \<Longrightarrow> close_reason K resp ev (es_fd c) w'"
proof -
  obtain r1 c1 w1 where send: "(if has ev EPOLLOUT then es_handle_send (pu_send P) c w else (0, c, w)) = (r1, c1, w1)"
    by (cases "if has ev EPOLLOUT then es_handle_send (pu_send P) c w else (0, c, w)")
  note s = handle_send_law [OF K ok live send]
  have "ok c' w' \<and> live c' \<and> es_fd c' = es_fd c \<and> only_on (es_fd c) w w' \<and>
    (ret < 0 \<longrightarrow> close_reason K resp ev (es_fd c) w')"
  proof (cases "has ev (NOT (EPOLLIN OR EPOLLOUT))")
    case True
    then show ?thesis
      using run ok live by (auto simp: es_handle_def close_reason_def)
  next
    case False
    show ?thesis
    proof (cases "r1 < 0")
      case True
      then have "ret = -1" "c' = c1" "w' = w1"
        using run send False by (auto simp: es_handle_def)
      then show ?thesis
        using s True by (auto simp: close_reason_def)
    next
      case pos: False
      show ?thesis
      proof (cases "has ev EPOLLIN")
        case False
        then have "ret = 0" "c' = c1" "w' = w1"
          using run send pos \<open>\<not> has ev (NOT (EPOLLIN OR EPOLLOUT))\<close> by (auto simp: es_handle_def)
        then show ?thesis
          using s pos by simp
      next
        case True
        then obtain r2 where recv: "es_handle_recv K c1 w1 = Some (r2, c', w')" "ret = (if r2 < 0 then -1 else 0)"
          using run send pos \<open>\<not> has ev (NOT (EPOLLIN OR EPOLLOUT))\<close>
          by (auto simp: es_handle_def split: bind_splits)
        have "recv_outcome K resp reg live c1 w1 (r2, c', w')"
          using recv_law [OF K recv(1)] s by blast
        then show ?thesis
          using s pos recv(2) only_on_trans [of "es_fd c" w w1 w']
          by (auto simp: recv_outcome_def close_reason_def gives_up_def split: if_splits)
      qed
    qed
  qed
  then show "ok c' w'" "live c'" "es_fd c' = es_fd c" "only_on (es_fd c) w w'"
    "ret < 0 \<Longrightarrow> close_reason K resp ev (es_fd c) w'"
    by blast+
qed

end

section \<open>What the loop keeps\<close>

definition es_inv :: "byte list \<Rightarrow> ('a es_conn_scheme \<Rightarrow> u32 option \<Rightarrow> bool) \<Rightarrow> ('a es_conn_scheme \<Rightarrow> bool) \<Rightarrow> int \<Rightarrow>
    ('a, 'k) es_server \<Rightarrow> (int \<times> u32) list \<Rightarrow> bool" where
  "es_inv resp reg live lfd sv es \<longleftrightarrow> interest (w_trace (es_world sv)) lfd \<noteq> None \<and> es_conns sv lfd = None \<and>
    (\<forall>fd c. es_conns sv fd = Some c \<longrightarrow> es_fd c = fd \<and> live c \<and> es_ok resp reg c (es_world sv)) \<and>
    (\<forall>fd. fd \<noteq> lfd \<longrightarrow> interest (w_trace (es_world sv)) fd \<noteq> None \<longrightarrow> es_conns sv fd \<noteq> None) \<and>
    distinct (map fst es) \<and> (\<forall>fd \<in> fst ` set es. interest (w_trace (es_world sv)) fd \<noteq> None)"

lemma es_invD:
  assumes "es_inv resp reg live lfd sv es"
  shows "interest (w_trace (es_world sv)) lfd \<noteq> None" "es_conns sv lfd = None"
    "es_conns sv fd = Some c \<Longrightarrow> es_fd c = fd" "es_conns sv fd = Some c \<Longrightarrow> live c"
    "es_conns sv fd = Some c \<Longrightarrow> es_ok resp reg c (es_world sv)"
    "fd \<noteq> lfd \<Longrightarrow> interest (w_trace (es_world sv)) fd \<noteq> None \<Longrightarrow> es_conns sv fd \<noteq> None"
    "distinct (map fst es)" "fd \<in> fst ` set es \<Longrightarrow> interest (w_trace (es_world sv)) fd \<noteq> None"
  using assms unfolding es_inv_def by blast+

lemma es_invI:
  assumes "interest (w_trace (es_world sv)) lfd \<noteq> None" "es_conns sv lfd = None"
    "\<And>fd c. es_conns sv fd = Some c \<Longrightarrow> es_fd c = fd \<and> live c \<and> es_ok resp reg c (es_world sv)"
    "\<And>fd. fd \<noteq> lfd \<Longrightarrow> interest (w_trace (es_world sv)) fd \<noteq> None \<Longrightarrow> es_conns sv fd \<noteq> None"
    "distinct (map fst es)" "\<And>fd. fd \<in> fst ` set es \<Longrightarrow> interest (w_trace (es_world sv)) fd \<noteq> None"
  shows "es_inv resp reg live lfd sv es"
  unfolding es_inv_def by (intro conjI allI impI ballI) (use assms in blast)+

text \<open>Work on one descriptor leaves the other connections as they are.\<close>

lemma es_other:
  assumes inv: "es_inv resp reg live lfd sv es" and only: "only_on fd (es_world sv) w" and g: "g \<noteq> fd"
  shows "es_conns sv g = Some c \<Longrightarrow> es_fd c = g \<and> live c \<and> es_ok resp reg c w"
    "interest (w_trace w) g = interest (w_trace (es_world sv)) g"
  using es_ok_frame [OF es_invD(5) [OF inv] only] es_invD(3,4) [OF inv] only_on_frame(3) [OF only] g by auto

text \<open>Replacing the connection of a registered descriptor, and taking one out.\<close>

lemma es_inv_update:
  assumes inv: "es_inv resp reg live lfd sv es" and only: "only_on fd (es_world sv) w" and fd: "fd \<noteq> lfd"
    and c: "es_fd c = fd" "live c" "es_ok resp reg c w" and reg: "interest (w_trace w) fd \<noteq> None"
  shows "es_inv resp reg live lfd (sv\<lparr>es_conns := (es_conns sv)(fd \<mapsto> c), es_world := w\<rparr>) es"
proof (rule es_invI)
  let ?sv = "sv\<lparr>es_conns := (es_conns sv)(fd \<mapsto> c), es_world := w\<rparr>"
  note other = es_other [OF inv only]
  show "es_fd d = g \<and> live d \<and> es_ok resp reg d (es_world ?sv)" if "es_conns ?sv g = Some d" for g d
    using that c other(1) [of g d] by (cases "g = fd") auto
  show "es_conns ?sv g \<noteq> None" if "g \<noteq> lfd" "interest (w_trace (es_world ?sv)) g \<noteq> None" for g
    using that es_invD(6) [OF inv, of g] other(2) [of g] by (cases "g = fd") simp_all
  show "interest (w_trace (es_world ?sv)) g \<noteq> None" if "g \<in> fst ` set es" for g
    using that es_invD(8) [OF inv, of g] other(2) [of g] reg by (cases "g = fd") simp_all
qed (use fd es_other(2) [OF inv only, of lfd] es_invD(1,2,7) [OF inv] in auto)

lemma es_inv_close:
  assumes inv: "es_inv resp reg live lfd sv es" and fd: "fd \<noteq> lfd" "fd \<notin> fst ` set es"
  shows "es_inv resp reg live lfd (close_conn fd sv) es"
proof (rule es_invI)
  have only: "only_on fd (es_world sv) (es_world (close_conn fd sv))"
    by (simp add: close_conn_def only_on_def)
  show "es_fd d = g \<and> live d \<and> es_ok resp reg d (es_world (close_conn fd sv))" if "es_conns (close_conn fd sv) g = Some d" for g d
    using that es_other(1) [OF inv only, of g d] by (cases "g = fd") (simp_all add: close_conn_def)
qed (use fd es_invD(1,2,6,7,8) [OF inv] in \<open>auto simp: close_conn_def split: if_splits\<close>)

definition es_state_inv :: "byte list \<Rightarrow> ('a es_conn_scheme \<Rightarrow> u32 option \<Rightarrow> bool) \<Rightarrow> ('a es_conn_scheme \<Rightarrow> bool) \<Rightarrow> int \<Rightarrow>
    ('a, 'k) es_state \<Rightarrow> bool" where
  "es_state_inv resp reg live lfd s = (case s of Serving sv es \<Rightarrow> es_inv resp reg live lfd sv es | Hung \<Rightarrow> True)"

lemma es_inv_next: "es_inv resp reg live lfd sv (e # es) \<Longrightarrow> es_inv resp reg live lfd sv es"
  by (auto simp: es_inv_def)

context response_pusher
begin

abbreviation inv :: "int \<Rightarrow> ('a, 'k) es_server \<Rightarrow> (int \<times> u32) list \<Rightarrow> bool" where
  "inv \<equiv> es_inv resp reg live"

lemma ok_registered: "ok c w \<Longrightarrow> interest (w_trace w) (es_fd c) \<noteq> None"
  using registered by (metis es_ok_def)

lemma registered_conn: "inv lfd sv es \<Longrightarrow> es_conns sv fd = Some c \<Longrightarrow> interest (w_trace (es_world sv)) fd \<noteq> None"
  using es_invD(3,5) ok_registered by metis

lemma inv_accept:
  assumes K: "kernel_ok K" and fresh: "fd_accept_fresh K lfd (es_world sv)" and i: "inv lfd sv (e # es)"
  shows "inv lfd (es_accept P K lfd sv) es"
proof (cases "k_accept K lfd (w_os (es_world sv))")
  case (Pair r s)
  note i = es_inv_next [OF i]
  show ?thesis
  proof (cases r)
    case (AcceptErr err)
    then show ?thesis
      using Pair i by (simp add: es_accept_def es_inv_def)
  next
    case (Accepted fd)
    let ?w = "emit (CtlAdd fd (pu_mask P)) ((es_world sv)\<lparr>w_os := s\<rparr>)"
    obtain k c w where send: "pu_send P (pu_blank P fd) ?w = (k, c, w)" by (cases "pu_send P (pu_blank P fd) ?w")
    have "ok (pu_blank P fd) ?w"
      by (simp add: es_ok_def blank)
    note new = send_law [OF K send this, unfolded blank]
    have "only_on fd (es_world sv) ?w"
      by (simp add: only_on_def)
    then have only: "only_on fd (es_world sv) w"
      using new(4) by (rule only_on_trans)
    have none: "interest (w_trace (es_world sv)) fd = None"
      using fresh Pair Accepted by (simp add: fd_accept_fresh_def)
    then have "es_conns sv fd = None"
      using registered_conn [OF i] by (cases "es_conns sv fd") auto
    then have "es_accept P K lfd sv = sv\<lparr>es_conns := (es_conns sv)(fd \<mapsto> c), es_world := w\<rparr>"
      using Pair Accepted send by (simp add: es_accept_def es_new_def)
    moreover have "interest (w_trace w) fd \<noteq> None" "fd \<noteq> lfd"
      using ok_registered [OF new(1)] new(3) none es_invD(1) [OF i] by auto
    ultimately show ?thesis
      using es_inv_update [OF i only _ new(3,2,1)] by simp
  qed
qed

lemma inv_conn:
  assumes K: "kernel_ok K" and i: "inv lfd sv ((fd, ev) # es)" and fd: "fd \<noteq> lfd"
    and run: "es_dispatch P K lfd (fd, ev) sv = Some sv'"
  shows "inv lfd sv' es" "es_conns sv' fd = None \<Longrightarrow>
    \<exists>w. es_world sv' = emit (Closed fd) (emit (CtlDel fd) w) \<and> close_reason K resp ev fd w"
proof -
  have "interest (w_trace (es_world sv)) fd \<noteq> None"
    using es_invD(8) [OF i] by simp
  then obtain c where c: "es_conns sv fd = Some c"
    using es_invD(6) [OF i fd] by blast
  obtain ret c1 w1 where h: "es_handle K (pu_send P) ev c (es_world sv) = Some (ret, c1, w1)"
    and sv': "sv' = (if ret < 0 then close_conn fd (sv\<lparr>es_conns := (es_conns sv)(fd \<mapsto> c1), es_world := w1\<rparr>)
      else sv\<lparr>es_conns := (es_conns sv)(fd \<mapsto> c1), es_world := w1\<rparr>)"
    using run c fd by (auto simp: es_dispatch_def Let_def split: bind_splits)
  note law = handle_law [OF K h es_invD(5,4) [OF i c], unfolded es_invD(3) [OF i c]]
  have "interest (w_trace w1) fd \<noteq> None"
    using ok_registered [OF law(1)] law(3) by simp
  note l = es_inv_update [OF es_inv_next [OF i] law(4) fd law(3,2,1) this]
  have "fd \<notin> fst ` set es"
    using es_invD(7) [OF i] by (simp add: image_image)
  from es_inv_close [OF l fd this] show "inv lfd sv' es"
    using l sv' by simp
  show "\<exists>w. es_world sv' = emit (Closed fd) (emit (CtlDel fd) w) \<and> close_reason K resp ev fd w" if "es_conns sv' fd = None"
    using that sv' law(5) by (auto simp: close_conn_def split: if_splits)
qed

lemma inv_step:
  assumes K: "kernel_ok K" and "es_step P K lfd s s'" "es_state_inv resp reg live lfd s"
  shows "es_state_inv resp reg live lfd s'"
  using assms(2)
proof (cases rule: es_step.cases)
  case (wait sv batch)
  then show ?thesis
    using assms(3) by (auto simp: es_state_inv_def es_inv_def fd_batch_ok_def)
next
  case (dispatch e sv sv' es)
  then have i: "inv lfd sv ((fst e, snd e) # es)"
    using assms(3) by (simp add: es_state_inv_def)
  show ?thesis
  proof (cases "fst e = lfd")
    case True
    then have "sv' = es_accept P K lfd sv"
      using dispatch(4) by (cases e) (simp add: es_dispatch_def)
    then show ?thesis
      using inv_accept [OF K _ i] dispatch True by (simp add: es_state_inv_def)
  next
    case False
    then show ?thesis
      using inv_conn(1) [OF K i False] dispatch by (simp add: es_state_inv_def)
  qed
next
  case (others sv es s)
  then show ?thesis
    using assms(3) by (simp add: es_state_inv_def es_inv_def)
qed (simp add: es_state_inv_def)

lemma inv_run:
  assumes K: "kernel_ok K" and w: "interest (w_trace w) = (\<lambda>_. None)" and run: "(es_step P K lfd)\<^sup>*\<^sup>* (es_start lfd w) s"
  shows "es_state_inv resp reg live lfd s"
  using run
proof (induction rule: rtranclp_induct)
  case base
  show ?case
    using w by (simp add: es_start_def es_state_inv_def es_inv_def)
next
  case (step s s')
  then show ?case
    using inv_step [OF K] by blast
qed

lemma handle_returns:
  assumes "recv_drains K (es_fd c) rank" "kernel_ok K" "ok c w"
  shows "es_handle K (pu_send P) ev c w \<noteq> None"
proof -
  obtain r1 c1 w1 where send: "(if has ev EPOLLOUT then es_handle_send (pu_send P) c w else (0, c, w)) = (r1, c1, w1)"
    by (cases "if has ev EPOLLOUT then es_handle_send (pu_send P) c w else (0, c, w)")
  have "es_fd c1 = es_fd c"
    using send send_law(3) [OF assms(2) _ assms(3)]
    by (auto simp: es_handle_send_def split: if_splits prod.splits)
  then obtain y where "es_handle_recv K c1 w1 = Some y"
    using es_handle_recv_returns assms(1) by metis
  then show ?thesis
    using send by (cases y) (simp add: es_handle_def)
qed

lemma never_hangs:
  assumes "\<And>fd. recv_drains K fd (rank fd)" "kernel_ok K" "interest (w_trace w) = (\<lambda>_. None)"
  shows "\<not> (es_step P K lfd)\<^sup>*\<^sup>* (es_start lfd w) Hung"
proof
  assume run: "(es_step P K lfd)\<^sup>*\<^sup>* (es_start lfd w) Hung"
  then obtain s where s: "(es_step P K lfd)\<^sup>*\<^sup>* (es_start lfd w) s" "es_step P K lfd s Hung"
    by (cases rule: rtranclp.cases) (auto simp: es_start_def)
  from s(2) obtain sv e es where h: "s = Serving sv (e # es)" "es_dispatch P K lfd e sv = None"
    by cases auto
  have i: "inv lfd sv (e # es)"
    using inv_run [OF assms(2,3) s(1)] h(1) by (simp add: es_state_inv_def)
  obtain fd ev where e: "e = (fd, ev)" by (cases e)
  then obtain c where c: "es_conns sv fd = Some c" "es_handle K (pu_send P) ev c (es_world sv) = None"
    using h(2) by (auto simp: es_dispatch_def Let_def bind_eq_None_conv split: if_splits option.splits prod.splits)
  then show False
    using handle_returns [OF assms(1,2) es_invD(5) [OF i c(1)]] by blast
qed

section \<open>What the servers promise\<close>

lemma main_run:
  assumes "kernel_ok K" "interest (w_trace w) = (\<lambda>_. None)"
    and "simple_listen socket argv = Some lfd" "push_main P K socket argv w (Serving sv es)"
  shows "inv lfd sv es"
  using inv_run [OF assms(1,2), of lfd "Serving sv es"] assms(3,4) by (auto simp: push_main_def es_state_inv_def)

lemma registrations:
  assumes "inv lfd sv es"
  shows "interest (w_trace (es_world sv)) fd \<noteq> None \<longleftrightarrow> fd = lfd \<or> es_conns sv fd \<noteq> None"
  using registered_conn [OF assms, of fd] es_invD(1) [OF assms] es_invD(6) [OF assms, of fd] by blast

lemma sent_prefix:
  assumes "inv lfd sv es" "es_conns sv fd = Some c"
  shows "es_send_len c \<le> length resp" "sent_on fd (w_trace (es_world sv)) = take (es_send_len c) resp"
    "live c" "reg c (interest (w_trace (es_world sv)) fd)"
  using es_invD(3-5) [OF assms] by (auto simp: es_ok_def)

lemma main_never_hangs:
  assumes "\<And>fd. recv_drains K fd (rank fd)" "kernel_ok K" "interest (w_trace w) = (\<lambda>_. None)"
  shows "\<not> push_main P K socket argv w Hung"
  using never_hangs [OF assms] by (auto simp: push_main_def)

end

section \<open>A run\<close>

text \<open>A kernel that takes 100 bytes at a time, as many times as its state says, and has nothing to read.\<close>

definition slow_net :: "nat net_kernel" where
  "slow_net = \<lparr>k_recv = (\<lambda>fd n s. (RecvErr EAGAIN, s)),
    k_send = (\<lambda>fd bs s. if 0 < s then (SendLen (min 100 (length bs)), s - 1) else (SendErr EAGAIN, s)),
    k_accept = (\<lambda>_ s. (Accepted 5, s))\<rparr>"

lemma slow_net_ok: "kernel_ok slow_net" "recv_drains slow_net fd (\<lambda>_. 0)"
  by (simp_all add: kernel_ok_def recv_drains_def slow_net_def)

lemma slow_net_send:
  "100 \<le> length bs \<Longrightarrow> sys_send slow_net fd bs \<lparr>w_os = Suc n, w_trace = tr\<rparr> =
    (SendLen 100, \<lparr>w_os = n, w_trace = tr @ [Sent fd (take 100 bs)]\<rparr>)"
  "sys_send slow_net fd bs \<lparr>w_os = 0, w_trace = tr\<rparr> = (SendErr EAGAIN, \<lparr>w_os = 0, w_trace = tr\<rparr>)"
  by (simp_all add: sys_send_def slow_net_def emit_def)

text \<open>The server accepts its first client.\<close>

lemma slow_net_run:
  "push_main P slow_net (\<lambda>_. 3) [''server'', ''80''] \<lparr>w_os = 2, w_trace = []\<rparr>
    (Serving (es_accept P slow_net 3 \<lparr>es_conns = Map.empty, es_world = \<lparr>w_os = 2, w_trace = [CtlAdd 3 EPOLLIN]\<rparr>\<rparr>) [])"
proof -
  let ?sv0 = "\<lparr>es_conns = Map.empty, es_world = \<lparr>w_os = 2 :: nat, w_trace = [CtlAdd 3 EPOLLIN]\<rparr>\<rparr>"
  let ?sv1 = "es_accept P slow_net 3 ?sv0"
  let ?step = "es_step P slow_net 3"
  have "?step (Serving ?sv0 []) (Serving ?sv0 [(3, EPOLLIN)])"
    by (rule es_step.wait) (simp add: fd_batch_ok_def simple_max_events_def interest_def)
  moreover have "?step (Serving ?sv0 [(3, EPOLLIN)]) (Serving ?sv1 [])"
    by (rule es_step.dispatch) (simp_all add: fd_accept_fresh_def slow_net_def es_dispatch_def interest_def)
  ultimately have "?step\<^sup>*\<^sup>* (Serving ?sv0 []) (Serving ?sv1 [])"
    by (rule converse_rtranclp_into_rtranclp [OF _ r_into_rtranclp])
  then show ?thesis
    by (simp add: push_main_def simple_listen_def es_start_def emit_def)
qed

end
