(* ===== verification/Et_Simple.thy ===== *)
theory Et_Simple
  imports Response_Push
begin

text \<open>
  The server that sends one response of 1 GiB to every client, edge-triggered
  (\<^verbatim>\<open>tcp_echo/server_epollet_simple.cpp\<close>).  Its \<^verbatim>\<open>send_buf\<close> sends as long as the kernel takes something; it ends
  because each round advances \<^verbatim>\<open>send_len\<close>.
\<close>

section \<open>\<^verbatim>\<open>send_buf\<close>\<close>

function es_send_buf :: "('k, 'z) kernel_scheme \<Rightarrow> byte list \<Rightarrow> es_conn \<Rightarrow> 'k world \<Rightarrow> int \<times> es_conn \<times> 'k world" where
  "es_send_buf K resp c w =
    (if es_send_len c < length resp then
      (case sys_send K (es_fd c) (drop (es_send_len c) resp) w of
        (SendLen n, w1) \<Rightarrow>
          if 0 < n then es_send_buf K resp (c\<lparr>es_send_len := es_send_len c + n\<rparr>) w1 else (-1, c, w1)
      | (SendErr e, w1) \<Rightarrow> (if again e then 0 else -1, c, w1))
     else (if es_send_len c = length resp then 1 else -1, c, w))"
  by auto

termination es_send_buf
  by (relation "measure (\<lambda>(K, resp, c, w). length resp - es_send_len c)") auto

declare es_send_buf.simps [simp del]

definition es_mask :: u32 where "es_mask = EPOLLIN OR EPOLLOUT OR EPOLLET"

definition es_pusher :: "('k, 'z) kernel_scheme \<Rightarrow> byte list \<Rightarrow> (unit, 'k) pusher" where
  "es_pusher K resp = \<lparr>pu_send = es_send_buf K resp, pu_blank = (\<lambda>fd. \<lparr>es_fd = fd, es_recv_len = 0, es_send_len = 0\<rparr>),
    pu_mask = es_mask\<rparr>"

definition es_main :: "('k, 'z) net_kernel_scheme \<Rightarrow> (u16 \<Rightarrow> int) \<Rightarrow> string list \<Rightarrow> 'k world \<Rightarrow> (unit, 'k) es_state \<Rightarrow> bool" where
  "es_main K = push_main (es_pusher K reponse) K"

text \<open>The registration never changes, and \<^verbatim>\<open>send_buf\<close> leaves nothing to wait for but the edge.\<close>

definition es_reg :: "es_conn \<Rightarrow> u32 option \<Rightarrow> bool" where "es_reg c i \<longleftrightarrow> i = Some es_mask"

abbreviation es_live :: "es_conn \<Rightarrow> bool" where "es_live \<equiv> \<lambda>_. True"

lemma es_send_outcome:
  assumes "kernel_ok K" "es_ok resp es_reg c w"
  shows "send_outcome K resp es_reg es_live c w (es_send_buf K resp c w)"
  using assms
proof (induction K resp c w rule: es_send_buf.induct)
  case (1 K resp c w)
  show ?case
  proof (cases "es_send_len c < length resp")
    case False
    then show ?thesis
      using 1(3) by (subst es_send_buf.simps) (auto simp: send_outcome_def es_ok_def)
  next
    case True
    let ?bs = "drop (es_send_len c) resp"
    obtain res w1 where send: "sys_send K (es_fd c) ?bs w = (res, w1)"
      by (cases "sys_send K (es_fd c) ?bs w")
    have reg: "\<forall>n i. es_reg c i \<longrightarrow> es_reg (c\<lparr>es_send_len := es_send_len c + n\<rparr>) i"
      by (simp add: es_reg_def)
    show ?thesis
      using 1(2,3) True send reg
    proof (cases rule: push_send_cases)
      case (error e)
      then show ?thesis
        using True send by (subst es_send_buf.simps) (simp add: send_outcome_def)
    next
      case (sent n)
      show ?thesis
      proof (cases "0 < n")
        case n: True
        have "es_send_buf K resp c w = es_send_buf K resp (c\<lparr>es_send_len := es_send_len c + n\<rparr>) w1"
          using True send sent(1) n by (subst es_send_buf.simps) simp
        then show ?thesis
          using 1(1) [OF True send [symmetric] sent(1) n 1(2) sent(2)] only_on_trans [OF sent(3)]
          by (auto simp: send_outcome_def)
      next
        case False
        then show ?thesis
          using True send sent by (simp add: send_outcome_def es_send_buf.simps [of K resp c w])
      qed
    qed
  qed
qed

interpretation es: response_pusher "es_pusher K resp" K resp es_reg es_live for K resp
  by unfold_locales (simp_all add: es_pusher_def es_send_outcome es_reg_def)

section \<open>What the server promises\<close>

text \<open>The simple edge-triggered server sends every client a prefix of the 1 GiB response, and keeps a
  connection until it is out.  In every state it reaches, the registered descriptors are the listener's and those
  of the table, and a connection has sent the first \<^verbatim>\<open>send_len\<close> bytes of the response and nothing else.  An event
  that takes a connection out of the table follows one of these: the whole response is sent, the event is
  not one that was asked for, the peer has ended its stream, or the kernel refuses for good.  If every
  client stops sending at some time, no handler runs forever.\<close>

lemma et_simple_correct:
  assumes "kernel_ok K" "interest (w_trace w) = (\<lambda>_. None)"
  shows "(\<forall>sv es lfd. simple_listen socket argv = Some lfd \<longrightarrow> es_main K socket argv w (Serving sv es) \<longrightarrow>
      (\<forall>fd. interest (w_trace (es_world sv)) fd \<noteq> None \<longleftrightarrow> fd = lfd \<or> es_conns sv fd \<noteq> None) \<and>
      (\<forall>fd c. es_conns sv fd = Some c \<longrightarrow>
        es_send_len c \<le> reponse_size \<and> sent_on fd (w_trace (es_world sv)) = take (es_send_len c) reponse) \<and>
      (\<forall>fd ev rest sv'. es = (fd, ev) # rest \<longrightarrow> fd \<noteq> lfd \<longrightarrow> es_dispatch (es_pusher K reponse) K lfd (fd, ev) sv = Some sv' \<longrightarrow>
        es_conns sv' fd = None \<longrightarrow>
        (\<exists>w1. es_world sv' = emit (Closed fd) (emit (CtlDel fd) w1) \<and> close_reason K reponse ev fd w1))) \<and>
    ((\<forall>fd. recv_drains K fd (rank fd)) \<longrightarrow> \<not> es_main K socket argv w Hung)"
proof (intro conjI allI impI)
  fix sv es lfd
  assume lfd: "simple_listen socket argv = Some lfd" and run: "es_main K socket argv w (Serving sv es)"
  note i = es.main_run [OF assms lfd run [unfolded es_main_def]]
  show "interest (w_trace (es_world sv)) fd \<noteq> None \<longleftrightarrow> fd = lfd \<or> es_conns sv fd \<noteq> None" for fd
    by (rule es.registrations [OF i])
  show "es_send_len c \<le> reponse_size" "sent_on fd (w_trace (es_world sv)) = take (es_send_len c) reponse"
    if "es_conns sv fd = Some c" for fd c
    using es.sent_prefix [OF i that] length_reponse by simp_all
  show "\<exists>w1. es_world sv' = emit (Closed fd) (emit (CtlDel fd) w1) \<and> close_reason K reponse ev fd w1"
    if "es = (fd, ev) # rest" "fd \<noteq> lfd" "es_dispatch (es_pusher K reponse) K lfd (fd, ev) sv = Some sv'" "es_conns sv' fd = None"
    for fd ev rest sv'
    using es.inv_conn(2) [OF assms(1) i [unfolded that(1)] that(2-4)] .
next
  assume "\<forall>fd. recv_drains K fd (rank fd)"
  then show "\<not> es_main K socket argv w Hung"
    unfolding es_main_def by (intro es.main_never_hangs [OF _ assms]) blast
qed

section \<open>A run\<close>

lemma slow_send:
  assumes "es_send_len c + 200 < length resp"
  shows "es_send_buf slow_net resp c \<lparr>w_os = 2, w_trace = tr\<rparr> =
    (0, c\<lparr>es_send_len := es_send_len c + 200\<rparr>, \<lparr>w_os = 0, w_trace = tr @ [Sent (es_fd c) (take 100 (drop (es_send_len c) resp)),
      Sent (es_fd c) (take 100 (drop (es_send_len c + 100) resp))]\<rparr>)"
proof -
  have two: "(2::nat) = Suc (Suc 0)" by simp
  show ?thesis
    unfolding two using assms
    by (subst es_send_buf.simps, simp add: slow_net_send, subst es_send_buf.simps, simp add: slow_net_send,
        subst es_send_buf.simps, simp add: slow_net_send again_def)
qed

lemma et_simple_correct_witness:
  "\<exists>sv. es_main slow_net (\<lambda>_. 3) [''server'', ''80''] \<lparr>w_os = 2, w_trace = []\<rparr> (Serving sv []) \<and>
    es_conns sv 5 \<noteq> None \<and> sent_on 5 (w_trace (es_world sv)) = take 200 reponse \<and> interest (w_trace (es_world sv)) 5 \<noteq> None"
proof -
  let ?w0 = "\<lparr>w_os = 2 :: nat, w_trace = [CtlAdd 3 EPOLLIN]\<rparr>"
  let ?sv0 = "\<lparr>es_conns = Map.empty, es_world = ?w0\<rparr>"
  let ?sv1 = "es_accept (es_pusher slow_net reponse) slow_net 3 ?sv0"
  have run: "es_main slow_net (\<lambda>_. 3) [''server'', ''80''] \<lparr>w_os = 2, w_trace = []\<rparr> (Serving ?sv1 [])"
    unfolding es_main_def by (rule slow_net_run)
  have accept: "k_accept slow_net 3 2 = (Accepted 5, 2)"
    by (simp add: slow_net_def)
  have c: "es_conns ?sv1 5 = Some \<lparr>es_fd = 5, es_recv_len = 0, es_send_len = 200\<rparr>"
    using slow_send [of "\<lparr>es_fd = 5, es_recv_len = 0, es_send_len = 0\<rparr>" reponse "[CtlAdd 3 EPOLLIN, CtlAdd 5 es_mask]"]
    by (simp add: es_accept_def accept es_new_def es_pusher_def emit_def length_reponse reponse_size_def)
  have "interest (w_trace \<lparr>w_os = 2, w_trace = []\<rparr>) = (\<lambda>_. None)"
    by (simp add: interest_def)
  from et_simple_correct [OF slow_net_ok(1) this, THEN conjunct1, THEN spec, THEN spec, THEN spec, THEN mp, THEN mp,
      OF _ run, of 3] have
    law: "\<forall>fd. interest (w_trace (es_world ?sv1)) fd \<noteq> None \<longleftrightarrow> fd = 3 \<or> es_conns ?sv1 fd \<noteq> None"
      "\<forall>fd c. es_conns ?sv1 fd = Some c \<longrightarrow>
        es_send_len c \<le> reponse_size \<and> sent_on fd (w_trace (es_world ?sv1)) = take (es_send_len c) reponse"
    by (simp_all add: simple_listen_def)
  have "interest (w_trace (es_world ?sv1)) 5 \<noteq> None"
    using law(1) [THEN spec, of 5] c by simp
  moreover have "sent_on 5 (w_trace (es_world ?sv1)) = take 200 reponse"
    using law(2) [THEN spec, THEN spec, THEN mp, OF c] by simp
  ultimately show ?thesis
    using run c by (intro exI [of _ ?sv1]) simp
qed

end
