(* ===== verification/Out_Simple.thy ===== *)
theory Out_Simple
  imports Et_Simple
begin

text \<open>
  The older versions of the server that sends one response of 1 GiB, level-triggered:
  \<^verbatim>\<open>tcp_echo/deprecated/server_epollout_deprecated.cpp\<close>, which asks for EPOLLOUT only while the kernel has refused
  to take more, and \<^verbatim>\<open>server_epollout_simple_deprecated.cpp\<close>, which asks for it from the start and sends
  once per event.  Apart from \<^verbatim>\<open>send_buf\<close>, the flag and the mask they are the program of \<open>Response_Push\<close>.
\<close>

section \<open>\<^verbatim>\<open>class Connection\<close>\<close>

record od_conn = es_conn +
  od_epollout :: bool

definition od_mask :: "bool \<Rightarrow> u32" where
  "od_mask flag = EPOLLIN OR (if flag then EPOLLOUT else 0)"

definition set_epollout :: "bool \<Rightarrow> od_conn \<Rightarrow> 'k world \<Rightarrow> od_conn \<times> 'k world" where
  "set_epollout flag c w = (c\<lparr>od_epollout := flag\<rparr>, emit (CtlMod (es_fd c) (od_mask flag)) w)"

definition epollout_on :: "od_conn \<Rightarrow> 'k world \<Rightarrow> od_conn \<times> 'k world" where
  "epollout_on c w = (if \<not> od_epollout c then set_epollout True c w else (c, w))"

definition epollout_off :: "od_conn \<Rightarrow> 'k world \<Rightarrow> od_conn \<times> 'k world" where
  "epollout_off c w = (if od_epollout c then set_epollout False c w else (c, w))"

function od_send_buf :: "('k, 'z) kernel_scheme \<Rightarrow> byte list \<Rightarrow> od_conn \<Rightarrow> 'k world \<Rightarrow> int \<times> od_conn \<times> 'k world" where
  "od_send_buf K resp c w =
    (if es_send_len c < length resp then
      (case sys_send K (es_fd c) (drop (es_send_len c) resp) w of
        (SendLen n, w1) \<Rightarrow>
          if 0 < n then od_send_buf K resp (c\<lparr>es_send_len := es_send_len c + n\<rparr>) w1 else (-1, c, w1)
      | (SendErr e, w1) \<Rightarrow> if again e then (0, epollout_on c w1) else (-1, c, w1))
     else if es_send_len c = length resp then (1, epollout_off c w) else (-1, c, w))"
  by auto

termination od_send_buf
  by (relation "measure (\<lambda>(K, resp, c, w). length resp - es_send_len c)") auto

declare od_send_buf.simps [simp del]

text \<open>The other version: an \<^verbatim>\<open>if\<close> for the \<^verbatim>\<open>while\<close>, and a send that took a part of the rest is a success.\<close>

definition os_send_buf :: "('k, 'z) kernel_scheme \<Rightarrow> byte list \<Rightarrow> od_conn \<Rightarrow> 'k world \<Rightarrow> int \<times> od_conn \<times> 'k world" where
  "os_send_buf K resp c w =
    (case (if es_send_len c < length resp then sys_send K (es_fd c) (drop (es_send_len c) resp) w else (SendLen 0, w)) of
      (tmp, w1) \<Rightarrow>
        let c1 = (case tmp of SendLen n \<Rightarrow> c\<lparr>es_send_len := es_send_len c + n\<rparr> | SendErr e \<Rightarrow> c) in
        if es_send_len c1 = length resp then (1, epollout_off c1 w1)
        else case tmp of
          SendErr e \<Rightarrow> if again e then (0, epollout_on c1 w1) else (-1, c1, w1)
        | SendLen n \<Rightarrow> (0, c1, w1))"

definition od_blank :: "int \<Rightarrow> od_conn" where
  "od_blank fd = \<lparr>es_fd = fd, es_recv_len = 0, es_send_len = 0, od_epollout = False\<rparr>"

section \<open>The programs\<close>

definition od_pusher :: "('k, 'z) kernel_scheme \<Rightarrow> byte list \<Rightarrow> (unit od_conn_ext, 'k) pusher" where
  "od_pusher K resp = \<lparr>pu_send = od_send_buf K resp, pu_blank = od_blank, pu_mask = od_mask False\<rparr>"

definition os_pusher :: "('k, 'z) kernel_scheme \<Rightarrow> byte list \<Rightarrow> (unit od_conn_ext, 'k) pusher" where
  "os_pusher K resp = \<lparr>pu_send = os_send_buf K resp, pu_blank = od_blank, pu_mask = od_mask True\<rparr>"

type_synonym 'k od_server = "(unit od_conn_ext, 'k) es_server"
type_synonym 'k od_state = "(unit od_conn_ext, 'k) es_state"

definition od_accept :: "('k, 'z) net_kernel_scheme \<Rightarrow> int \<Rightarrow> 'k od_server \<Rightarrow> 'k od_server" where
  "od_accept K = es_accept (od_pusher K reponse) K"

definition os_accept :: "('k, 'z) net_kernel_scheme \<Rightarrow> int \<Rightarrow> 'k od_server \<Rightarrow> 'k od_server" where
  "os_accept K = es_accept (os_pusher K reponse) K"

definition od_handle :: "('k, 'z) kernel_scheme \<Rightarrow> u32 \<Rightarrow> od_conn \<Rightarrow> 'k world \<Rightarrow> (int \<times> od_conn \<times> 'k world) option" where
  "od_handle K = es_handle K (od_send_buf K reponse)"

definition os_handle :: "('k, 'z) kernel_scheme \<Rightarrow> u32 \<Rightarrow> od_conn \<Rightarrow> 'k world \<Rightarrow> (int \<times> od_conn \<times> 'k world) option" where
  "os_handle K = es_handle K (os_send_buf K reponse)"

definition od_dispatch :: "('k, 'z) net_kernel_scheme \<Rightarrow> int \<Rightarrow> int \<times> u32 \<Rightarrow> 'k od_server \<Rightarrow> 'k od_server option" where
  "od_dispatch K = es_dispatch (od_pusher K reponse) K"

definition os_dispatch :: "('k, 'z) net_kernel_scheme \<Rightarrow> int \<Rightarrow> int \<times> u32 \<Rightarrow> 'k od_server \<Rightarrow> 'k od_server option" where
  "os_dispatch K = es_dispatch (os_pusher K reponse) K"

definition od_main :: "('k, 'z) net_kernel_scheme \<Rightarrow> (u16 \<Rightarrow> int) \<Rightarrow> string list \<Rightarrow> 'k world \<Rightarrow> 'k od_state \<Rightarrow> bool" where
  "od_main K = push_main (od_pusher K reponse) K"

definition os_main :: "('k, 'z) net_kernel_scheme \<Rightarrow> (u16 \<Rightarrow> int) \<Rightarrow> string list \<Rightarrow> 'k world \<Rightarrow> 'k od_state \<Rightarrow> bool" where
  "os_main K = push_main (os_pusher K reponse) K"

section \<open>The contract\<close>

text \<open>
  In the first program the registration follows the flag, and a connection that is not done waits for
  EPOLLOUT unless the kernel gave up on it; in the second EPOLLOUT stays on until the response is out.
\<close>

definition od_reg :: "od_conn \<Rightarrow> u32 option \<Rightarrow> bool" where
  "od_reg c i \<longleftrightarrow> i = Some (od_mask (od_epollout c))"

definition od_live :: "('k, 'z) kernel_scheme \<Rightarrow> byte list \<Rightarrow> od_conn \<Rightarrow> bool" where
  "od_live K resp c \<longleftrightarrow> od_epollout c \<or> es_send_len c = length resp \<or> gives_up K (es_fd c)"

definition os_reg :: "byte list \<Rightarrow> od_conn \<Rightarrow> u32 option \<Rightarrow> bool" where
  "os_reg resp c i \<longleftrightarrow> i = Some (od_mask True) \<or> es_send_len c = length resp \<and> i = Some (od_mask False)"

abbreviation os_live :: "od_conn \<Rightarrow> bool" where "os_live \<equiv> \<lambda>_. True"

lemma epollout_on_law:
  assumes "es_ok resp reg c w"
    and "reg (c\<lparr>od_epollout := True\<rparr>) (Some (od_mask True))" "epollout_on c w = (c', w')"
  shows "es_ok resp reg c' w' \<and> es_fd c' = es_fd c \<and> only_on (es_fd c) w w' \<and> od_epollout c' \<and> es_send_len c' = es_send_len c"
  using assms by (auto simp: epollout_on_def set_epollout_def es_ok_def split: if_splits)

lemma epollout_off_law:
  assumes "es_ok resp reg c w" "reg (c\<lparr>od_epollout := False\<rparr>) (Some (od_mask False))" "epollout_off c w = (c', w')"
  shows "es_ok resp reg c' w' \<and> es_fd c' = es_fd c \<and> only_on (es_fd c) w w' \<and> es_send_len c' = es_send_len c"
  using assms by (auto simp: epollout_off_def set_epollout_def es_ok_def split: if_splits)

lemma od_send_outcome:
  assumes "kernel_ok K" "es_ok resp od_reg c w"
  shows "send_outcome K resp od_reg (od_live K resp) c w (od_send_buf K resp c w)"
  using assms
proof (induction K resp c w rule: od_send_buf.induct)
  case (1 K resp c w)
  show ?case
  proof (cases "es_send_len c < length resp")
    case False
    obtain c1 w1 where off: "epollout_off c w = (c1, w1)" by (cases "epollout_off c w")
    have "es_send_len c = length resp"
      using 1(3) False by (simp add: es_ok_def)
    moreover have "od_send_buf K resp c w = (1, c1, w1)"
      using False off calculation by (subst od_send_buf.simps) simp
    ultimately show ?thesis
      using epollout_off_law [OF 1(3) _ off] by (simp add: send_outcome_def od_live_def od_reg_def)
  next
    case True
    obtain res w1 where send: "sys_send K (es_fd c) (drop (es_send_len c) resp) w = (res, w1)"
      by (cases "sys_send K (es_fd c) (drop (es_send_len c) resp) w")
    have reg: "\<forall>n i. od_reg c i \<longrightarrow> od_reg (c\<lparr>es_send_len := es_send_len c + n\<rparr>) i"
      by (simp add: od_reg_def)
    show ?thesis
      using 1(2,3) True send reg
    proof (cases rule: push_send_cases)
      case (error e)
      obtain c2 w2 where on: "epollout_on c w1 = (c2, w2)" by (cases "epollout_on c w1")
      have "od_reg (c\<lparr>od_epollout := True\<rparr>) (Some (od_mask True))"
        by (simp add: od_reg_def)
      note law = epollout_on_law [OF error(2) this on]
      have "od_send_buf K resp c w = (if again e then (0, c2, w2) else (-1, c, w1))"
        using True send error(1) on by (subst od_send_buf.simps) simp
      then show ?thesis
        using law True error only_on_trans [OF error(3)] by (auto simp: send_outcome_def od_live_def)
    next
      case (sent n)
      show ?thesis
      proof (cases "0 < n")
        case n: True
        have "od_send_buf K resp c w = od_send_buf K resp (c\<lparr>es_send_len := es_send_len c + n\<rparr>) w1"
          using True send sent(1) n by (subst od_send_buf.simps) simp
        then show ?thesis
          using 1(1) [OF True send [symmetric] sent(1) n 1(2) sent(2)] only_on_trans [OF sent(3)]
          by (auto simp: send_outcome_def)
      next
        case False
        then show ?thesis
          using True send sent by (simp add: send_outcome_def od_live_def od_send_buf.simps [of K resp c w])
      qed
    qed
  qed
qed

lemma os_finish:
  assumes "es_ok resp (os_reg resp) c w" "es_send_len c = length resp" "epollout_off c w = (c1, w1)"
  shows "send_outcome K resp (os_reg resp) os_live c w (1, c1, w1)"
  using epollout_off_law [OF assms(1) _ assms(3)] assms(2) by (simp add: send_outcome_def os_reg_def)

lemma send_outcome_from:
  assumes "send_outcome K resp reg live c1 w1 y" "es_fd c1 = es_fd c" "only_on (es_fd c) w w1"
  shows "send_outcome K resp reg live c w y"
  using assms only_on_trans [OF assms(3)] by (auto simp: send_outcome_def)

lemma os_send_outcome:
  assumes K: "kernel_ok K" and ok: "es_ok resp (os_reg resp) c w"
  shows "send_outcome K resp (os_reg resp) os_live c w (os_send_buf K resp c w)"
proof (cases "es_send_len c < length resp")
  case False
  obtain c1 w1 where off: "epollout_off c w = (c1, w1)" by (cases "epollout_off c w")
  have len: "es_send_len c = length resp"
    using ok False by (simp add: es_ok_def)
  then have same: "c\<lparr>es_send_len := length resp\<rparr> = c"
    by (cases c) simp
  have "os_send_buf K resp c w = (1, c1, w1)"
    using len off by (simp add: os_send_buf_def same)
  then show ?thesis
    using os_finish [OF ok len off] by simp
next
  case True
  obtain res w1 where send: "sys_send K (es_fd c) (drop (es_send_len c) resp) w = (res, w1)"
    by (cases "sys_send K (es_fd c) (drop (es_send_len c) resp) w")
  have reg: "\<forall>n i. os_reg resp c i \<longrightarrow> os_reg resp (c\<lparr>es_send_len := es_send_len c + n\<rparr>) i"
    using True by (simp add: os_reg_def)
  show ?thesis
    using K ok True send reg
  proof (cases rule: push_send_cases)
    case (error e)
    obtain c2 w2 where on: "epollout_on c w1 = (c2, w2)" by (cases "epollout_on c w1")
    have "os_reg resp (c\<lparr>od_epollout := True\<rparr>) (Some (od_mask True))"
      by (simp add: os_reg_def)
    note law = epollout_on_law [OF error(2) this on]
    have "os_send_buf K resp c w = (if again e then (0, c2, w2) else (-1, c, w1))"
      using True send error(1) on by (simp add: os_send_buf_def)
    then show ?thesis
      using law True error only_on_trans [OF error(3)] by (auto simp: send_outcome_def)
  next
    case (sent n)
    let ?c = "c\<lparr>es_send_len := es_send_len c + n\<rparr>"
    show ?thesis
    proof (cases "es_send_len ?c = length resp")
      case fin: True
      obtain c2 w2 where off: "epollout_off ?c w1 = (c2, w2)" by (cases "epollout_off ?c w1")
      have "os_send_buf K resp c w = (1, c2, w2)"
        using True send sent(1) off fin by (simp add: os_send_buf_def)
      then show ?thesis
        using send_outcome_from [OF os_finish [OF sent(2) fin off] _ sent(3)] by simp
    next
      case False
      then have "os_send_buf K resp c w = (0, ?c, w1)"
        using True send sent(1) by (simp add: os_send_buf_def)
      then show ?thesis
        using sent False by (simp add: send_outcome_def es_ok_def)
    qed
  qed
qed

interpretation od: response_pusher "od_pusher K resp" K resp od_reg "od_live K resp" for K resp
  by unfold_locales (simp_all add: od_pusher_def od_blank_def od_send_outcome od_reg_def od_live_def)

interpretation os: response_pusher "os_pusher K resp" K resp "os_reg resp" os_live for K resp
  by unfold_locales (simp_all add: os_pusher_def od_blank_def os_send_outcome os_reg_def)

section \<open>What the servers promise\<close>

lemma od_served:
  fixes K :: "('k, 'z) net_kernel_scheme" and sv :: "'k od_server"
  assumes "es_inv reponse od_reg (od_live K reponse) lfd sv es" "es_conns sv fd = Some c"
  shows "es_send_len c \<le> reponse_size \<and> sent_on fd (w_trace (es_world sv)) = take (es_send_len c) reponse \<and>
    (es_send_len c < reponse_size \<longrightarrow> interest (w_trace (es_world sv)) fd = Some (EPOLLIN OR EPOLLOUT) \<or> gives_up K fd)"
proof (intro conjI impI)
  note law = od.sent_prefix [OF assms, unfolded length_reponse]
  show "es_send_len c \<le> reponse_size" "sent_on fd (w_trace (es_world sv)) = take (es_send_len c) reponse"
    by (rule law)+
  show "interest (w_trace (es_world sv)) fd = Some (EPOLLIN OR EPOLLOUT) \<or> gives_up K fd" if "es_send_len c < reponse_size"
    using law(3,4) es_invD(3) [OF assms] that length_reponse by (auto simp: od_reg_def od_live_def od_mask_def)
qed

lemma os_served:
  fixes K :: "('k, 'z) net_kernel_scheme" and sv :: "'k od_server"
  assumes "es_inv reponse (os_reg reponse) os_live lfd sv es" "es_conns sv fd = Some c"
  shows "es_send_len c \<le> reponse_size \<and> sent_on fd (w_trace (es_world sv)) = take (es_send_len c) reponse \<and>
    (es_send_len c < reponse_size \<longrightarrow> interest (w_trace (es_world sv)) fd = Some (EPOLLIN OR EPOLLOUT) \<or> gives_up K fd)"
proof (intro conjI impI)
  note law = os.sent_prefix [OF assms, unfolded length_reponse]
  show "es_send_len c \<le> reponse_size" "sent_on fd (w_trace (es_world sv)) = take (es_send_len c) reponse"
    by (rule law)+
  show "interest (w_trace (es_world sv)) fd = Some (EPOLLIN OR EPOLLOUT) \<or> gives_up K fd" if "es_send_len c < reponse_size"
    using law(4) that length_reponse by (auto simp: os_reg_def od_mask_def)
qed

text \<open>C38: the deprecated servers of the 1 GiB response keep an unfinished connection waiting for EPOLLOUT.  In every
  state that either program reaches, the registered descriptors are the listener's and those of the table, and a
  connection has sent the first \<^verbatim>\<open>send_len\<close> bytes of the response and nothing else.  If some of it is left,
  epoll is asked for EPOLLIN and EPOLLOUT, unless the kernel gave up on the descriptor.  An event that takes a connection
  out of the table follows one of these: the whole response is sent, the event is not one that was asked for, the peer
  has ended its stream, or the kernel refuses for good.  If every client stops sending at some time, no
  handler runs forever.\<close>

theorem out_simple_correct:
  assumes "kernel_ok K" "interest (w_trace w) = (\<lambda>_. None)"
  shows "(\<forall>main dispatch sv es lfd. (main, dispatch) \<in> {(od_main, od_dispatch), (os_main, os_dispatch)} \<longrightarrow>
      simple_listen socket argv = Some lfd \<longrightarrow> main K socket argv w (Serving sv es) \<longrightarrow>
      (\<forall>fd. interest (w_trace (es_world sv)) fd \<noteq> None \<longleftrightarrow> fd = lfd \<or> es_conns sv fd \<noteq> None) \<and>
      (\<forall>fd c. es_conns sv fd = Some c \<longrightarrow>
        es_send_len c \<le> reponse_size \<and> sent_on fd (w_trace (es_world sv)) = take (es_send_len c) reponse \<and>
        (es_send_len c < reponse_size \<longrightarrow>
          interest (w_trace (es_world sv)) fd = Some (EPOLLIN OR EPOLLOUT) \<or> gives_up K fd)) \<and>
      (\<forall>fd ev rest sv'. es = (fd, ev) # rest \<longrightarrow> fd \<noteq> lfd \<longrightarrow> dispatch K lfd (fd, ev) sv = Some sv' \<longrightarrow>
        es_conns sv' fd = None \<longrightarrow>
        (\<exists>w1. es_world sv' = emit (Closed fd) (emit (CtlDel fd) w1) \<and> close_reason K reponse ev fd w1))) \<and>
    ((\<forall>fd. recv_drains K fd (rank fd)) \<longrightarrow> \<not> od_main K socket argv w Hung \<and> \<not> os_main K socket argv w Hung)"
proof (intro conjI allI impI)
  fix main :: "('a, 'b) net_kernel_scheme \<Rightarrow> (u16 \<Rightarrow> int) \<Rightarrow> string list \<Rightarrow> 'a world \<Rightarrow> 'a od_state \<Rightarrow> bool"
    and dispatch :: "('a, 'b) net_kernel_scheme \<Rightarrow> int \<Rightarrow> int \<times> u32 \<Rightarrow> 'a od_server \<Rightarrow> 'a od_server option"
    and sv es lfd
  assume which: "(main, dispatch) \<in> {(od_main, od_dispatch), (os_main, os_dispatch)}"
    and lfd: "simple_listen socket argv = Some lfd" and run: "main K socket argv w (Serving sv es)"
  consider (od) "dispatch = od_dispatch" "es_inv reponse od_reg (od_live K reponse) lfd sv es"
    | (os) "dispatch = os_dispatch" "es_inv reponse (os_reg reponse) os_live lfd sv es"
    using which run od.main_run [OF assms lfd, of reponse sv es] os.main_run [OF assms lfd, of reponse sv es]
    by (auto simp: od_main_def os_main_def)
  note served = this
  show "interest (w_trace (es_world sv)) fd \<noteq> None \<longleftrightarrow> fd = lfd \<or> es_conns sv fd \<noteq> None" for fd
    using served by cases (rule od.registrations os.registrations; assumption)+
  have conn: "es_send_len c \<le> reponse_size \<and> sent_on fd (w_trace (es_world sv)) = take (es_send_len c) reponse \<and>
      (es_send_len c < reponse_size \<longrightarrow> interest (w_trace (es_world sv)) fd = Some (EPOLLIN OR EPOLLOUT) \<or> gives_up K fd)"
    if "es_conns sv fd = Some c" for fd c
    using served by cases (rule od_served [OF _ that] os_served [OF _ that]; assumption)+
  show "es_send_len c \<le> reponse_size" "sent_on fd (w_trace (es_world sv)) = take (es_send_len c) reponse"
    "es_send_len c < reponse_size \<Longrightarrow> interest (w_trace (es_world sv)) fd = Some (EPOLLIN OR EPOLLOUT) \<or> gives_up K fd"
    if "es_conns sv fd = Some c" for fd c
    using conn [OF that] by blast+
  show "\<exists>w1. es_world sv' = emit (Closed fd) (emit (CtlDel fd) w1) \<and> close_reason K reponse ev fd w1"
    if "es = (fd, ev) # rest" "fd \<noteq> lfd" "dispatch K lfd (fd, ev) sv = Some sv'" "es_conns sv' fd = None"
    for fd ev rest sv'
    using served unfolding that(1)
    by cases (use that(2-4) in \<open>simp_all add: od_dispatch_def os_dispatch_def od.inv_conn(2) [OF assms(1)] os.inv_conn(2) [OF assms(1)]\<close>)
next
  assume "\<forall>fd. recv_drains K fd (rank fd)"
  then show "\<not> od_main K socket argv w Hung" "\<not> os_main K socket argv w Hung"
    unfolding od_main_def os_main_def by (intro od.main_never_hangs [OF _ assms] os.main_never_hangs [OF _ assms]; blast)+
qed

section \<open>The response that the kernel takes at once\<close>

text \<open>
  The comment of the class says that it sends the response ``and then close''.  The constructor ignores that
  \<^verbatim>\<open>send_buf\<close> is done; if the kernel takes all of the response there, the first program never asks for
  EPOLLOUT, and only the peer or an error ends the connection.  The other programs get an event for EPOLLOUT.
\<close>

lemma od_send_at_once:
  assumes "takes_all K" "resp \<noteq> []" "es_new (od_pusher K resp) fd w = (c, w')"
  shows "es_send_len c = length resp" "\<not> od_epollout c"
proof -
  obtain w1 where send: "sys_send K fd resp w = (SendLen (length resp), w1)"
    using assms(1) by (cases "sys_send K fd resp w")
      (auto simp: takes_all_def sys_send_def split: prod.splits send_res.splits, (metis fst_conv send_res.inject(1) send_res.distinct(1))+)
  have "od_send_buf K resp (od_blank fd) w = od_send_buf K resp (od_blank fd\<lparr>es_send_len := length resp\<rparr>) w1"
    using send assms(2) by (subst od_send_buf.simps) (simp add: od_blank_def)
  also have "\<dots> = (1, od_blank fd\<lparr>es_send_len := length resp\<rparr>, w1)"
    by (subst od_send_buf.simps) (simp add: od_blank_def epollout_off_def)
  finally have "c = od_blank fd\<lparr>es_send_len := length resp\<rparr>"
    using assms(3) by (simp add: es_new_def od_pusher_def od_blank_def)
  then show "es_send_len c = length resp" "\<not> od_epollout c"
    by (simp_all add: od_blank_def)
qed

lemma od_complete_lingers:
  fixes K :: "('k, 'z) net_kernel_scheme"
  assumes "kernel_ok K" "es_ok reponse od_reg c w" "\<not> od_epollout c"
    and "\<not> has ev (NOT (EPOLLIN OR EPOLLOUT))" "\<not> has ev EPOLLOUT" "od_handle K ev c w = Some (ret, c', w')" "ret < 0"
  shows "saw_eof (es_fd c) w' \<or> hard_error K (es_fd c)"
proof -
  obtain r2 where "es_handle_recv K c w = Some (r2, c', w')" "r2 < 0"
    using assms(4-7) by (auto simp: od_handle_def es_handle_def split: if_splits bind_splits)
  then show ?thesis
    using od.recv_law [OF assms(1) _ assms(2)] by (fastforce simp: recv_outcome_def)
qed

lemma os_complete_closes:
  assumes "es_send_len c = reponse_size" "has ev EPOLLOUT" "os_handle K ev c w = Some (ret, c', w')"
  shows "ret = -1"
proof -
  obtain s where "os_send_buf K reponse c w = (1, s)"
    using assms(1) unfolding os_send_buf_def by (simp add: length_reponse)
  then have "es_handle_send (os_send_buf K reponse) c w = (-1, s)"
    by (simp add: es_handle_send_def)
  then show ?thesis
    using assms(2,3) by (cases s) (simp add: os_handle_def es_handle_def split: if_splits)
qed

section \<open>A run\<close>

lemma od_slow_send:
  assumes "200 < length resp"
  shows "od_send_buf slow_net resp (od_blank 5) \<lparr>w_os = 2, w_trace = tr\<rparr> =
    (0, od_blank 5\<lparr>es_send_len := 200, od_epollout := True\<rparr>, \<lparr>w_os = 0, w_trace = tr @ [Sent 5 (take 100 resp),
      Sent 5 (take 100 (drop 100 resp)), CtlMod 5 (od_mask True)]\<rparr>)"
proof -
  have two: "(2::nat) = Suc (Suc 0)" and "resp \<noteq> []"
    using assms by auto
  then show ?thesis
    unfolding two using assms
    by (subst od_send_buf.simps, simp add: slow_net_send od_blank_def, subst od_send_buf.simps, simp add: slow_net_send,
        subst od_send_buf.simps, simp add: slow_net_send again_def epollout_on_def set_epollout_def emit_def)
qed

lemma out_simple_correct_witness:
  "\<exists>sv. od_main slow_net (\<lambda>_. 3) [''server'', ''80''] \<lparr>w_os = 2, w_trace = []\<rparr> (Serving sv []) \<and>
    es_conns sv 5 \<noteq> None \<and> sent_on 5 (w_trace (es_world sv)) = take 200 reponse \<and>
    interest (w_trace (es_world sv)) 5 = Some (EPOLLIN OR EPOLLOUT)"
proof -
  let ?w0 = "\<lparr>w_os = 2 :: nat, w_trace = [CtlAdd 3 EPOLLIN]\<rparr>"
  let ?sv0 = "\<lparr>es_conns = Map.empty, es_world = ?w0\<rparr>"
  let ?sv1 = "es_accept (od_pusher slow_net reponse) slow_net 3 ?sv0"
  have run: "od_main slow_net (\<lambda>_. 3) [''server'', ''80''] \<lparr>w_os = 2, w_trace = []\<rparr> (Serving ?sv1 [])"
    unfolding od_main_def by (rule slow_net_run)
  have accept: "k_accept slow_net 3 2 = (Accepted 5, 2)"
    by (simp add: slow_net_def)
  have c: "es_conns ?sv1 5 = Some (od_blank 5\<lparr>es_send_len := 200, od_epollout := True\<rparr>)"
    using od_slow_send [of reponse "[CtlAdd 3 EPOLLIN, CtlAdd 5 (od_mask False)]"]
    by (simp add: es_accept_def accept es_new_def od_pusher_def emit_def length_reponse reponse_size_def)
  have "interest (w_trace \<lparr>w_os = 2, w_trace = []\<rparr>) = (\<lambda>_. None)"
    by (simp add: interest_def)
  from out_simple_correct [OF slow_net_ok(1) this, THEN conjunct1, THEN spec [where x = od_main],
      THEN spec [where x = od_dispatch], THEN spec [where x = ?sv1], THEN spec [where x = "[]"], THEN spec [where x = 3],
      THEN mp, THEN mp, THEN mp, OF _ _ run] have
    law: "\<forall>fd c. es_conns ?sv1 fd = Some c \<longrightarrow>
        es_send_len c \<le> reponse_size \<and> sent_on fd (w_trace (es_world ?sv1)) = take (es_send_len c) reponse \<and>
        (es_send_len c < reponse_size \<longrightarrow>
          interest (w_trace (es_world ?sv1)) fd = Some (EPOLLIN OR EPOLLOUT) \<or> gives_up slow_net fd)"
    by (simp add: simple_listen_def)
  have "\<not> gives_up slow_net 5"
    by (auto simp: gives_up_def hard_error_def takes_nothing_def slow_net_def again_def split: if_splits)
  then show ?thesis
    using run c law [THEN spec, THEN spec, THEN mp, OF c] by (intro exI [of _ ?sv1]) (simp add: od_blank_def reponse_size_def)
qed

end
