(* ===== verification/Bench_Server.thy ===== *)
theory Bench_Server
  imports Simple_Echo
begin

text \<open>
  The multi-threaded echo server (\<^verbatim>\<open>tcp_echo/server_epoll_bench.cpp\<close>): the main thread accepts and hands each
  connection to the event loop of one of \<^verbatim>\<open>threads\<close> threads, through a queue behind a mutex.  A loop keeps its
  connections in a vector and registers them with their index (\<^verbatim>\<open>data.u32\<close>); removing a connection moves
  its \<^verbatim>\<open>unique_ptr\<close> out of the vector, which leaves a null pointer there.

  The threads interleave at the operations on the queue and at the events.  The rounds of a loop (\<^verbatim>\<open>dump_conn\<close>, then
  \<^verbatim>\<open>epoll_wait\<close>, then the events) may come in any order that starts when no event is left.
\<close>

section \<open>\<^verbatim>\<open>class EventLoop\<close>\<close>

definition max_conn :: nat where "max_conn = 1024"
definition bench_pkt_size :: nat where "bench_pkt_size = 1024"

text \<open>A connection is its descriptor, \<open>None\<close> a null pointer; \<open>bs_regs\<close> is the index that epoll has for a descriptor.\<close>

record bench_thread =
  bs_conns :: "int option list"
  bs_queue :: "int list"
  bs_regs :: "int \<rightharpoonup> u32"
  bs_pending :: "(u32 \<times> u32) list"

definition bench_loop_new :: bench_thread where
  "bench_loop_new = \<lparr>bs_conns = [], bs_queue = [], bs_regs = Map.empty, bs_pending = []\<rparr>"

datatype bench_fault = NullConnection | BenchIndex | DivideByZero

definition bench_handle :: "('k, 'z) kernel_scheme \<Rightarrow> int \<Rightarrow> 'k world \<Rightarrow> int \<times> 'k world" where
  "bench_handle K fd w = recv_send K bench_pkt_size fd w"

definition bench_add_conn :: "int \<Rightarrow> bench_thread \<Rightarrow> bench_thread" where
  "bench_add_conn fd l = l\<lparr>bs_queue := bs_queue l @ [fd]\<rparr>"

text \<open>Registering a descriptor that \<^verbatim>\<open>accept4\<close> failed to give (-1) fails; the connection is kept all the same.\<close>

fun dump_one :: "int \<Rightarrow> bench_thread \<times> 'k world \<Rightarrow> bench_thread \<times> 'k world" where
  "dump_one fd (l, w) =
    (l\<lparr>bs_conns := bs_conns l @ [Some fd],
       bs_regs := (if fd < 0 then bs_regs l else (bs_regs l)(fd \<mapsto> of_nat (length (bs_conns l))))\<rparr>,
     if fd < 0 then w else emit (CtlAdd fd EPOLLIN) w)"

definition dump_conn :: "bench_thread \<times> 'k world \<Rightarrow> bench_thread \<times> 'k world" where
  "dump_conn = (\<lambda>(l, w). fold dump_one (bs_queue l) (l\<lparr>bs_queue := []\<rparr>, w))"

definition rm_conn :: "nat \<Rightarrow> int \<Rightarrow> bench_thread \<times> 'k world \<Rightarrow> bench_thread \<times> 'k world" where
  "rm_conn i fd = (\<lambda>(l, w). (l\<lparr>bs_conns := (bs_conns l)[i := None], bs_regs := (bs_regs l)(fd := None)\<rparr>,
    emit (Closed fd) (emit (CtlDel fd) w)))"

text \<open>One event: \<^verbatim>\<open>int idx = events[i].data.u32\<close>, and both tests of the flags are ors.\<close>

definition bench_event :: "('k, 'z) kernel_scheme \<Rightarrow> u32 \<times> u32 \<Rightarrow> bench_thread \<times> 'k world \<Rightarrow>
    bench_fault + bench_thread \<times> 'k world" where
  "bench_event K = (\<lambda>(x, ev) (l, w).
    let idx = sint x in
    if idx < 0 \<or> int (length (bs_conns l)) \<le> idx then Inl BenchIndex
    else case bs_conns l ! nat idx of
      None \<Rightarrow> Inl NullConnection
    | Some fd \<Rightarrow>
        if ev OR EPOLLIN \<noteq> 0 then
          (case bench_handle K fd w of (ret, w1) \<Rightarrow>
            Inr (if ret \<le> 0 then rm_conn (nat idx) fd (l, w1) else (l, w1)))
        else if ev OR EPOLLERR \<noteq> 0 then Inr (rm_conn (nat idx) fd (l, w))
        else Inr (l, w))"

section \<open>The threads\<close>

record 'k bench_server =
  bs_loops :: "bench_thread list"
  bs_listen :: int
  bs_world :: "'k world"

text \<open>
  The acceptor does not leave the loop when \<^verbatim>\<open>accept4\<close> fails; \<^verbatim>\<open>conn_fd % loops->size()\<close> is computed in
  \<^verbatim>\<open>size_t\<close>.
\<close>

definition bench_accept :: "('k, 'z) net_kernel_scheme \<Rightarrow> 'k bench_server \<Rightarrow> bench_fault + 'k bench_server" where
  "bench_accept K bs =
    (case k_accept K (bs_listen bs) (w_os (bs_world bs)) of (r, s) \<Rightarrow>
      let conn_fd = (case r of Accepted fd \<Rightarrow> fd | AcceptErr e \<Rightarrow> -1); n = length (bs_loops bs) in
      if n = 0 then Inl DivideByZero
      else
        let idx = nat ((conn_fd mod 2 ^ 64) mod int n) in
        Inr (bs\<lparr>bs_loops := (bs_loops bs)[idx := bench_add_conn conn_fd (bs_loops bs ! idx)],
          bs_world := (bs_world bs)\<lparr>w_os := s\<rparr>\<rparr>))"

fun live :: "int option list \<Rightarrow> int list" where
  "live [] = []"
| "live (None # cs) = live cs"
| "live (Some fd # cs) = fd # live cs"

definition open_fds :: "bench_thread \<Rightarrow> int list" where
  "open_fds l = filter ((\<le>) 0) (bs_queue l @ live (bs_conns l))"

lemma set_live [simp]: "set (live cs) = {fd. Some fd \<in> set cs}"
  by (induction cs rule: live.induct) auto

lemma live_append [simp]: "live (cs @ ds) = live cs @ live ds"
  by (induction cs rule: live.induct) auto

definition bench_fresh :: "('k, 'z) net_kernel_scheme \<Rightarrow> 'k bench_server \<Rightarrow> bool" where
  "bench_fresh K bs \<longleftrightarrow>
    (case k_accept K (bs_listen bs) (w_os (bs_world bs)) of
      (Accepted fd, _) \<Rightarrow> 0 \<le> fd \<and> fd < 2 ^ 31 \<and> (\<forall>l \<in> set (bs_loops bs). fd \<notin> set (open_fds l))
    | (AcceptErr e, _) \<Rightarrow> True)"

definition bench_batch_ok :: "bench_thread \<Rightarrow> (u32 \<times> u32) list \<Rightarrow> bool" where
  "bench_batch_ok l batch \<longleftrightarrow> length batch \<le> max_conn \<and> distinct (map fst batch) \<and>
    (\<forall>(x, ev) \<in> set batch. x \<in> ran (bs_regs l))"

definition set_loop :: "nat \<Rightarrow> bench_thread \<times> 'k world \<Rightarrow> 'k bench_server \<Rightarrow> 'k bench_server" where
  "set_loop i = (\<lambda>(l, w) bs. bs\<lparr>bs_loops := (bs_loops bs)[i := l], bs_world := w\<rparr>)"

datatype 'k bench_state = Working "'k bench_server" | Bench_Crashed "'k bench_server" bench_fault

inductive bench_step :: "('k, 'z) net_kernel_scheme \<Rightarrow> 'k bench_state \<Rightarrow> 'k bench_state \<Rightarrow> bool" for K where
  accept: "bench_fresh K bs \<Longrightarrow> bench_accept K bs = Inr bs' \<Longrightarrow> bench_step K (Working bs) (Working bs')"
| accept_fault: "bench_fresh K bs \<Longrightarrow> bench_accept K bs = Inl f \<Longrightarrow> bench_step K (Working bs) (Bench_Crashed bs f)"
| dump: "i < length (bs_loops bs) \<Longrightarrow> bs_pending (bs_loops bs ! i) = [] \<Longrightarrow>
    bench_step K (Working bs) (Working (set_loop i (dump_conn (bs_loops bs ! i, bs_world bs)) bs))"
| wait: "i < length (bs_loops bs) \<Longrightarrow> bs_pending (bs_loops bs ! i) = [] \<Longrightarrow> bench_batch_ok (bs_loops bs ! i) batch \<Longrightarrow>
    bench_step K (Working bs) (Working (set_loop i ((bs_loops bs ! i)\<lparr>bs_pending := batch\<rparr>, bs_world bs) bs))"
| event: "i < length (bs_loops bs) \<Longrightarrow> bs_pending (bs_loops bs ! i) = e # es \<Longrightarrow>
    bench_event K e ((bs_loops bs ! i)\<lparr>bs_pending := es\<rparr>, bs_world bs) = Inr s \<Longrightarrow>
    bench_step K (Working bs) (Working (set_loop i s bs))"
| event_fault: "i < length (bs_loops bs) \<Longrightarrow> bs_pending (bs_loops bs ! i) = e # es \<Longrightarrow>
    bench_event K e ((bs_loops bs ! i)\<lparr>bs_pending := es\<rparr>, bs_world bs) = Inl f \<Longrightarrow>
    bench_step K (Working bs) (Bench_Crashed bs f)"
| others: "bench_step K (Working bs) (Working (bs\<lparr>bs_world := (bs_world bs)\<lparr>w_os := s\<rparr>\<rparr>))"

text \<open>\<^verbatim>\<open>parse_arg\<close> and \<^verbatim>\<open>main\<close>: the number of threads is not checked.\<close>

definition bench_parse_arg :: "string list \<Rightarrow> int \<times> int \<times> int" where
  "bench_parse_arg argv =
    (if length argv < 2 then (-1, 0, 1)
     else (1, snd (sscanf_d (argv ! 1) 0), if 2 < length argv then snd (sscanf_d (argv ! 2) 1) else 1))"

definition bench_main :: "('k, 'z) net_kernel_scheme \<Rightarrow> (u16 \<Rightarrow> int) \<Rightarrow> string list \<Rightarrow> 'k world \<Rightarrow> 'k bench_state \<Rightarrow> bool" where
  "bench_main K socket argv w s \<longleftrightarrow>
    (case bench_parse_arg argv of (ret, port, threads) \<Rightarrow> 0 \<le> ret \<and>
      (bench_step K)\<^sup>*\<^sup>* (Working \<lparr>bs_loops = replicate (nat threads) bench_loop_new,
        bs_listen = socket (htons (word_of_int port)), bs_world = w\<rparr>) s)"

section \<open>What a loop keeps\<close>

text \<open>
  The descriptors of loop \<open>i\<close> of \<open>n\<close> leave the remainder \<open>i\<close>, so two loops never share one.  As long as a loop has seen
  at most \<open>2 ^ 31\<close> connections, the index that epoll holds for a descriptor leads to its connection.
\<close>

definition index_ok :: "bench_thread \<Rightarrow> bool" where
  "index_ok l \<longleftrightarrow>
    (\<forall>fd x. bs_regs l fd = Some x \<longrightarrow> unat x < length (bs_conns l) \<and> bs_conns l ! unat x = Some fd) \<and>
    (\<forall>j fd. j < length (bs_conns l) \<longrightarrow> bs_conns l ! j = Some fd \<longrightarrow> 0 \<le> fd \<longrightarrow> bs_regs l fd = Some (of_nat j)) \<and>
    distinct (map fst (bs_pending l)) \<and> fst ` set (bs_pending l) \<subseteq> ran (bs_regs l)"

definition loop_ok :: "bool \<Rightarrow> nat \<Rightarrow> nat \<Rightarrow> bench_thread \<Rightarrow> 'k world \<Rightarrow> bool" where
  "loop_ok full n i l w \<longleftrightarrow>
    (\<forall>fd \<in> set (open_fds l). fd mod int n = int i) \<and> distinct (open_fds l) \<and>
    (length (bs_conns l) \<le> 2 ^ 31 \<longrightarrow> index_ok l) \<and>
    (\<forall>fd. 0 \<le> fd \<longrightarrow> Some fd \<in> set (bs_conns l) \<longrightarrow> relayed full fd w)"

lemma set_open_fds: "set (open_fds l) = {fd. 0 \<le> fd \<and> (fd \<in> set (bs_queue l) \<or> Some fd \<in> set (bs_conns l))}"
  by (auto simp: open_fds_def)

text \<open>What work on a descriptor of loop \<open>i\<close> does not disturb.\<close>

definition keeps_others :: "nat \<Rightarrow> nat \<Rightarrow> 'k world \<Rightarrow> 'k world \<Rightarrow> bool" where
  "keeps_others n i w w' \<longleftrightarrow>
    (\<forall>full g. 0 \<le> g \<longrightarrow> g mod int n \<noteq> int i \<longrightarrow> relayed full g w \<longrightarrow> relayed full g w')"

lemma keeps_others_refl: "keeps_others n i w w"
  and keeps_others_trans: "keeps_others n i w w1 \<Longrightarrow> keeps_others n i w1 w2 \<Longrightarrow> keeps_others n i w w2"
  by (auto simp: keeps_others_def)

lemma keeps_others_only: "only_on fd w w' \<Longrightarrow> fd < 0 \<or> fd mod int n = int i \<Longrightarrow> keeps_others n i w w'"
  unfolding keeps_others_def using relayed_frame by fastforce

lemma loop_ok_other: "keeps_others n i w w' \<Longrightarrow> i \<noteq> j \<Longrightarrow> loop_ok full n j l w \<Longrightarrow> loop_ok full n j l w'"
  unfolding keeps_others_def loop_ok_def by (simp add: set_open_fds)

lemma loop_okD:
  assumes "loop_ok full n i l w"
  shows "0 \<le> fd \<Longrightarrow> fd \<in> set (bs_queue l) \<or> Some fd \<in> set (bs_conns l) \<Longrightarrow> fd mod int n = int i"
    "distinct (open_fds l)" "length (bs_conns l) \<le> 2 ^ 31 \<Longrightarrow> index_ok l"
    "0 \<le> fd \<Longrightarrow> Some fd \<in> set (bs_conns l) \<Longrightarrow> relayed full fd w"
  using assms by (auto simp: loop_ok_def set_open_fds)

lemma loop_okI:
  assumes "\<And>fd. 0 \<le> fd \<Longrightarrow> fd \<in> set (bs_queue l) \<or> Some fd \<in> set (bs_conns l) \<Longrightarrow> fd mod int n = int i"
    "distinct (open_fds l)" "length (bs_conns l) \<le> 2 ^ 31 \<Longrightarrow> index_ok l"
    "\<And>fd. 0 \<le> fd \<Longrightarrow> Some fd \<in> set (bs_conns l) \<Longrightarrow> relayed full fd w"
  shows "loop_ok full n i l w"
  using assms by (auto simp: loop_ok_def set_open_fds)

lemma index_okD:
  assumes "index_ok l"
  shows "bs_regs l fd = Some x \<Longrightarrow> unat x < length (bs_conns l)" "bs_regs l fd = Some x \<Longrightarrow> bs_conns l ! unat x = Some fd"
    "j < length (bs_conns l) \<Longrightarrow> bs_conns l ! j = Some fd \<Longrightarrow> 0 \<le> fd \<Longrightarrow> bs_regs l fd = Some (of_nat j)"
    "distinct (map fst (bs_pending l))" "fst ` set (bs_pending l) \<subseteq> ran (bs_regs l)"
  using assms unfolding index_ok_def by blast+

text \<open>\<^verbatim>\<open>dump_conn\<close>: one connection goes from the queue to the vector.\<close>

lemma index_ok_push:
  assumes ok: "index_ok l" and len: "length (bs_conns l) < 2 ^ 31" and fd: "0 \<le> fd" "Some fd \<notin> set (bs_conns l)"
    and idle: "bs_pending l = []"
  shows "index_ok (l\<lparr>bs_conns := bs_conns l @ [Some fd], bs_regs := (bs_regs l)(fd \<mapsto> of_nat (length (bs_conns l)))\<rparr>)"
proof -
  have u: "unat (of_nat (length (bs_conns l)) :: u32) = length (bs_conns l)"
    using len by (simp add: unat_of_nat take_bit_nat_eq_self)
  have "g \<noteq> fd" if "j < length (bs_conns l)" "bs_conns l ! j = Some g" for j g
    using that fd(2) nth_mem by fastforce
  then show ?thesis
    using ok idle u unfolding index_ok_def by (auto simp: nth_append less_Suc_eq)
qed

lemma dump_one_law:
  assumes ok: "loop_ok full n i (l\<lparr>bs_queue := fd # q\<rparr>) w" and idle: "bs_pending l = []"
    and run: "dump_one fd (l, w) = (l', w')"
  shows "loop_ok full n i (l'\<lparr>bs_queue := q\<rparr>) w'" "bs_pending l' = []" "keeps_others n i w w'"
proof -
  have l': "l' = l\<lparr>bs_conns := bs_conns l @ [Some fd],
       bs_regs := (if fd < 0 then bs_regs l else (bs_regs l)(fd \<mapsto> of_nat (length (bs_conns l))))\<rparr>"
    and w': "w' = (if fd < 0 then w else emit (CtlAdd fd EPOLLIN) w)"
    using run by (simp_all split: if_splits)
  show "bs_pending l' = []"
    using idle l' by simp
  have only: "only_on fd w w'"
    by (simp add: w')
  have route: "fd mod int n = int i" if "0 \<le> fd"
    using loop_okD(1) [OF ok that] by simp
  show "keeps_others n i w w'"
    by (rule keeps_others_only [OF only]) (use route in linarith)
  show "loop_ok full n i (l'\<lparr>bs_queue := q\<rparr>) w'"
  proof (rule loop_okI)
    show "g mod int n = int i" if "0 \<le> g" "g \<in> set (bs_queue (l'\<lparr>bs_queue := q\<rparr>)) \<or> Some g \<in> set (bs_conns (l'\<lparr>bs_queue := q\<rparr>))" for g
      using loop_okD(1) [OF ok that(1)] that(2) l' by auto
    show "distinct (open_fds (l'\<lparr>bs_queue := q\<rparr>))"
      using loop_okD(2) [OF ok] l' by (auto simp: open_fds_def)
    have new: "Some fd \<notin> set (bs_conns l)" if "0 \<le> fd"
      using loop_okD(2) [OF ok] that by (force simp: open_fds_def)
    show "index_ok (l'\<lparr>bs_queue := q\<rparr>)" if "length (bs_conns (l'\<lparr>bs_queue := q\<rparr>)) \<le> 2 ^ 31"
    proof -
      have len: "length (bs_conns l) < 2 ^ 31"
        using that l' by simp
      then have i: "index_ok l"
        using loop_okD(3) [OF ok] by (simp add: index_ok_def)
      show ?thesis
      proof (cases "fd < 0")
        case True
        then show ?thesis
          using i l' by (auto simp: index_ok_def nth_append less_Suc_eq)
      next
        case False
        then show ?thesis
          using index_ok_push [OF i len _ new idle] l' by (simp add: index_ok_def)
      qed
    qed
    show "relayed full g w'" if "0 \<le> g" "Some g \<in> set (bs_conns (l'\<lparr>bs_queue := q\<rparr>))" for g
    proof (cases "g = fd")
      case True
      then show ?thesis
        using that(1) w' by simp
    next
      case False
      then have "relayed full g w"
        using loop_okD(4) [OF ok that(1)] that(2) l' by simp
      then show ?thesis
        using relayed_frame only False by metis
    qed
  qed
qed

lemma dump_fold_law:
  assumes "loop_ok full n i (l\<lparr>bs_queue := q\<rparr>) w" "bs_pending l = []" "bs_queue l = []" "fold dump_one q (l, w) = (l', w')"
  shows "loop_ok full n i l' w' \<and> bs_pending l' = [] \<and> keeps_others n i w w'"
  using assms
proof (induction q arbitrary: l w)
  case Nil
  then have "l\<lparr>bs_queue := []\<rparr> = l"
    by simp
  then show ?case
    using Nil keeps_others_refl by (metis fold_simps(1) prod.inject)
next
  case (Cons fd q)
  obtain l1 w1 where one: "dump_one fd (l, w) = (l1, w1)" by (cases "dump_one fd (l, w)")
  note law = dump_one_law [OF Cons.prems(1,2) one]
  have "bs_queue l1 = []"
    using one Cons.prems(3) by auto
  then have "loop_ok full n i l' w' \<and> bs_pending l' = [] \<and> keeps_others n i w1 w'"
    using Cons.IH [OF law(1,2)] Cons.prems(4) one by simp
  then show ?case
    using keeps_others_trans [OF law(3)] by blast
qed

lemma dump_law:
  assumes "loop_ok full n i l w" "bs_pending l = []" "dump_conn (l, w) = (l', w')"
  shows "loop_ok full n i l' w'" "keeps_others n i w w'"
proof -
  have "loop_ok full n i ((l\<lparr>bs_queue := []\<rparr>)\<lparr>bs_queue := bs_queue l\<rparr>) w"
    using assms(1) by simp
  from dump_fold_law [OF this] assms(2,3) show "loop_ok full n i l' w'" "keeps_others n i w w'"
    by (simp_all add: dump_conn_def)
qed

text \<open>One event.\<close>

lemma set_forget: "Some fd \<in> set (cs[i := None]) \<Longrightarrow> Some fd \<in> set cs"
  using set_update_subset_insert [of cs i None] by auto

lemma distinct_forget: "distinct (filter P (live cs)) \<Longrightarrow> distinct (filter P (live (cs[i := None])))"
proof (induction cs arbitrary: i rule: live.induct)
  case (3 fd cs)
  then show ?case
    by (cases i) (auto dest: set_forget split: if_splits)
next
  case (2 cs)
  then show ?case
    by (cases i) auto
qed simp

lemma open_fds_remove:
  "distinct (open_fds l) \<Longrightarrow> distinct (open_fds (l\<lparr>bs_conns := (bs_conns l)[i := None], bs_regs := r\<rparr>))"
  using distinct_forget [of "(\<le>) 0" "bs_conns l" i] by (auto simp: open_fds_def dest: set_forget)

lemma sint_index:
  fixes x :: u32
  assumes "unat x < 2 ^ 31"
  shows "sint x = int (unat x)"
proof -
  have "int (unat x) < int (2 ^ 31)"
    using assms by (simp only: of_nat_less_iff)
  then have "uint x < 2147483648"
    by simp
  then have "signed_take_bit 31 (uint x) = uint x"
    by (intro signed_take_bit_int_eq_self) (auto intro: order_trans [OF _ uint_ge_0])
  then show ?thesis
    by (simp add: sint_uint)
qed

lemma unat_index: "j < 2 ^ 31 \<Longrightarrow> unat (of_nat j :: u32) = j"
  by (simp add: unat_of_nat take_bit_nat_eq_self)

lemma event_index:
  assumes ok: "index_ok l" and len: "length (bs_conns l) \<le> 2 ^ 31" and x: "x \<in> ran (bs_regs l)"
  shows "\<exists>fd. bs_regs l fd = Some x \<and> sint x = int (unat x) \<and> unat x < length (bs_conns l) \<and> bs_conns l ! unat x = Some fd"
proof -
  obtain fd where fd: "bs_regs l fd = Some x"
    using x by (auto simp: ran_def)
  note at = index_okD(1,2) [OF ok fd]
  have "sint x = int (unat x)"
    by (rule sint_index [OF less_le_trans [OF at(1) len]])
  then show ?thesis
    using fd at by blast
qed

lemma index_ok_rm:
  assumes ok: "index_ok l" and len: "length (bs_conns l) \<le> 2 ^ 31" and fd: "bs_regs l fd = Some x"
    and pend: "bs_pending l = (x, ev) # es"
  shows "index_ok (l\<lparr>bs_pending := es, bs_conns := (bs_conns l)[unat x := None], bs_regs := (bs_regs l)(fd := None)\<rparr>)"
proof -
  note at = index_okD(1,2) [OF ok fd]
  have inj: "j = unat x" if "j < length (bs_conns l)" "(of_nat j :: u32) = x" for j
    using unat_index [OF less_le_trans [OF that(1) len]] that(2) by simp
  have own: "g = fd" if "bs_regs l g = Some x" for g
    using index_okD(2) [OF ok that] at(2) by simp
  have other: "unat y \<noteq> unat x" if "bs_regs l g = Some y" "g \<noteq> fd" for g y
    using index_okD(2) [OF ok that(1)] at(2) that(2) by auto
  have pending: "y \<in> ran ((bs_regs l)(fd := None))" if "y \<in> fst ` set es" for y
  proof -
    have "y \<noteq> x"
      using index_okD(4) [OF ok] pend that by auto
    moreover have "y \<in> ran (bs_regs l)"
      using index_okD(5) [OF ok] pend that by auto
    then obtain g where "bs_regs l g = Some y"
      unfolding ran_def by blast
    ultimately have "((bs_regs l)(fd := None)) g = Some y"
      using fd by auto
    then show ?thesis
      by (rule ranI)
  qed
  show ?thesis
    unfolding index_ok_def
  proof (intro conjI allI impI)
    let ?l = "l\<lparr>bs_pending := es, bs_conns := (bs_conns l)[unat x := None], bs_regs := (bs_regs l)(fd := None)\<rparr>"
    show "unat y < length (bs_conns ?l)" "bs_conns ?l ! unat y = Some g" if "bs_regs ?l g = Some y" for g y
      using that index_okD(1,2) [OF ok, of g y] other [of g y] by (auto split: if_splits)
    show "bs_regs ?l g = Some (of_nat j)" if "j < length (bs_conns ?l)" "bs_conns ?l ! j = Some g" "0 \<le> g" for j g
    proof -
      have j: "j \<noteq> unat x"
      proof
        assume "j = unat x"
        then show False
          using that(1,2) by simp
      qed
      then have "bs_regs l g = Some (of_nat j)"
        using that index_okD(3) [OF ok, of j g] by simp
      moreover have "g \<noteq> fd"
        using inj [of j] j that(1) fd calculation by auto
      ultimately show ?thesis
        by simp
    qed
    show "distinct (map fst (bs_pending ?l))"
      using index_okD(4) [OF ok] pend by simp
    show "fst ` set (bs_pending ?l) \<subseteq> ran (bs_regs ?l)"
      using pending by auto
  qed
qed

lemma event_law:
  assumes K: "kernel_ok K" and full: "full \<Longrightarrow> takes_all K" and ok: "loop_ok full n i l w"
    and pend: "bs_pending l = (x, ev) # es"
  shows "case bench_event K (x, ev) (l\<lparr>bs_pending := es\<rparr>, w) of
      Inl f \<Rightarrow> 2 ^ 31 < length (bs_conns l)
    | Inr (l', w') \<Rightarrow> loop_ok full n i l' w' \<and> keeps_others n i w w'"
proof (cases "sint x < 0 \<or> int (length (bs_conns l)) \<le> sint x \<or> bs_conns l ! nat (sint x) = None")
  case True
  have "2 ^ 31 < length (bs_conns l)"
  proof (rule ccontr)
    assume "\<not> 2 ^ 31 < length (bs_conns l)"
    then have len: "length (bs_conns l) \<le> 2 ^ 31" by simp
    note idx = loop_okD(3) [OF ok len]
    have "x \<in> ran (bs_regs l)"
      using index_okD(5) [OF idx] pend by simp
    from event_index [OF idx len this] obtain fd
      where "sint x = int (unat x)" "unat x < length (bs_conns l)" "bs_conns l ! unat x = Some fd"
      by blast
    then show False
      using True by (metis nat_int not_less of_nat_0_le_iff of_nat_less_iff option.distinct(1))
  qed
  then show ?thesis
    using True by (auto simp: bench_event_def Let_def split: option.splits)
next
  case False
  then obtain fd where fd: "bs_conns l ! nat (sint x) = Some fd" and range: "0 \<le> sint x" "nat (sint x) < length (bs_conns l)"
    by auto
  have mem: "Some fd \<in> set (bs_conns l)"
    using fd range(2) nth_mem by fastforce
  have route: "fd < 0 \<or> fd mod int n = int i"
    using loop_okD(1) [OF ok, of fd] mem by linarith
  obtain r w1 where h: "bench_handle K fd w = (r, w1)" by (cases "bench_handle K fd w")
  note only = recv_send_only [OF h [unfolded bench_handle_def]]
  have own: "relayed full fd w1" if "0 \<le> fd"
    using recv_send_law(1) [OF K full h [unfolded bench_handle_def] loop_okD(4) [OF ok that mem]] .
  have rel: "relayed full g w1" if "0 \<le> g" "Some g \<in> set (bs_conns l)" for g
    using relayed_frame [OF loop_okD(4) [OF ok that] only] own that(1) by (cases "g = fd") auto
  have index: "index_ok l" "bs_regs l fd = Some x" "nat (sint x) = unat x" if len: "length (bs_conns l) \<le> 2 ^ 31"
  proof -
    show idx: "index_ok l"
      by (rule loop_okD(3) [OF ok len])
    have "x \<in> ran (bs_regs l)"
      using index_okD(5) [OF idx] pend by simp
    from event_index [OF idx len this] show "bs_regs l fd = Some x" "nat (sint x) = unat x"
      using fd by auto
  qed
  have keep: "loop_ok full n i (l\<lparr>bs_pending := es\<rparr>) w1"
  proof (rule loop_okI)
    show "index_ok (l\<lparr>bs_pending := es\<rparr>)" if "length (bs_conns (l\<lparr>bs_pending := es\<rparr>)) \<le> 2 ^ 31"
      using loop_okD(3) [OF ok] that pend by (auto simp: index_ok_def)
  qed (use loop_okD(1,2) [OF ok] rel in \<open>auto simp: open_fds_def\<close>)
  have remove: "loop_ok full n i (l\<lparr>bs_pending := es, bs_conns := (bs_conns l)[nat (sint x) := None],
      bs_regs := (bs_regs l)(fd := None)\<rparr>) (emit (Closed fd) (emit (CtlDel fd) w1))"
    (is "loop_ok full n i ?l ?w")
  proof (rule loop_okI)
    show "g mod int n = int i" if "0 \<le> g" "g \<in> set (bs_queue ?l) \<or> Some g \<in> set (bs_conns ?l)" for g
      using loop_okD(1) [OF ok that(1)] that(2) by (auto dest: set_forget)
    show "distinct (open_fds ?l)"
      using open_fds_remove [of "l\<lparr>bs_pending := es\<rparr>"] loop_okD(2) [OF ok] by (simp add: open_fds_def)
    show "index_ok ?l" if "length (bs_conns ?l) \<le> 2 ^ 31"
      using index_ok_rm [OF index(1) _ index(2) pend] index(3) that by simp
    show "relayed full g ?w" if "0 \<le> g" "Some g \<in> set (bs_conns ?l)" for g
      using rel [OF that(1)] that(2) by (auto simp: relayed_def dest!: set_forget)
  qed
  have "only_on fd w1 (emit (Closed fd) (emit (CtlDel fd) w1))"
    by (simp add: only_on_def)
  then have "keeps_others n i w (emit (Closed fd) (emit (CtlDel fd) w1))" "keeps_others n i w w1"
    using keeps_others_only [OF _ route] only only_on_trans by blast+
  then show ?thesis
    using False fd h keep remove range
    by (auto simp: bench_event_def Let_def or_EPOLLIN rm_conn_def)
qed

section \<open>What the server keeps\<close>

definition bench_inv :: "bool \<Rightarrow> nat \<Rightarrow> 'k bench_server \<Rightarrow> bool" where
  "bench_inv full n bs \<longleftrightarrow> length (bs_loops bs) = n \<and>
    (\<forall>i < n. loop_ok full n i (bs_loops bs ! i) (bs_world bs))"

lemma inv_set_loop:
  assumes inv: "bench_inv full n bs" and i: "i < n" and l: "loop_ok full n i l w" and w: "keeps_others n i (bs_world bs) w"
  shows "bench_inv full n (set_loop i (l, w) bs)"
proof -
  have "loop_ok full n j ((bs_loops bs)[i := l] ! j) w" if "j < n" for j
    using inv that l loop_ok_other [OF w, of j] by (cases "i = j") (auto simp: bench_inv_def)
  then show ?thesis
    using inv by (simp add: bench_inv_def set_loop_def)
qed

lemma loop_ok_os: "loop_ok full n i l (w\<lparr>w_os := s\<rparr>) = loop_ok full n i l w"
  by (simp add: loop_ok_def)

lemma loop_ok_queue:
  assumes "loop_ok full n i l w" "0 \<le> fd \<Longrightarrow> fd mod int n = int i \<and> fd \<notin> set (open_fds l)"
  shows "loop_ok full n i (bench_add_conn fd l) w"
proof (rule loop_okI)
  show "g mod int n = int i" if "0 \<le> g" "g \<in> set (bs_queue (bench_add_conn fd l)) \<or> Some g \<in> set (bs_conns (bench_add_conn fd l))" for g
    using loop_okD(1) [OF assms(1) that(1)] that assms(2) by (auto simp: bench_add_conn_def)
  show "distinct (open_fds (bench_add_conn fd l))"
    using loop_okD(2) [OF assms(1)] assms(2) by (auto simp: open_fds_def bench_add_conn_def)
  show "index_ok (bench_add_conn fd l)" if "length (bs_conns (bench_add_conn fd l)) \<le> 2 ^ 31"
    using loop_okD(3) [OF assms(1)] that by (simp add: bench_add_conn_def index_ok_def)
  show "relayed full g w" if "0 \<le> g" "Some g \<in> set (bs_conns (bench_add_conn fd l))" for g
    using loop_okD(4) [OF assms(1) that(1)] that(2) by (simp add: bench_add_conn_def)
qed

lemma bench_inv_accept:
  assumes inv: "bench_inv full n bs" and fresh: "bench_fresh K bs" and run: "bench_accept K bs = Inr bs'"
  shows "bench_inv full n bs'"
proof -
  obtain r s where acc: "k_accept K (bs_listen bs) (w_os (bs_world bs)) = (r, s)"
    by (cases "k_accept K (bs_listen bs) (w_os (bs_world bs))")
  obtain fd where fd: "fd = (case r of Accepted fd \<Rightarrow> fd | AcceptErr e \<Rightarrow> -1)" by blast
  obtain i where idx: "i = nat ((fd mod 2 ^ 64) mod int n)" by blast
  have n: "length (bs_loops bs) = n" "0 < n"
    using inv run acc by (auto simp: bench_inv_def bench_accept_def Let_def split: if_splits)
  then have i: "i < n" "int i = (fd mod 2 ^ 64) mod int n"
    by (simp_all add: idx nat_less_iff)
  have bs': "bs' = bs\<lparr>bs_loops := (bs_loops bs)[i := bench_add_conn fd (bs_loops bs ! i)], bs_world := (bs_world bs)\<lparr>w_os := s\<rparr>\<rparr>"
    using run acc n by (simp add: bench_accept_def Let_def fd idx)
  have new: "fd mod int n = int i \<and> fd \<notin> set (open_fds (bs_loops bs ! i))" if "0 \<le> fd"
  proof -
    have f: "fd < 2 ^ 31" "fd \<notin> set (open_fds (bs_loops bs ! i))"
      using fresh acc fd that n(1) i(1) by (auto simp: bench_fresh_def split: accept_res.splits)
    then have "fd mod 2 ^ 64 = fd"
      using that by simp
    then show ?thesis
      using f(2) i(2) by simp
  qed
  have "loop_ok full n i (bs_loops bs ! i) (bs_world bs)"
    using inv i(1) by (simp add: bench_inv_def)
  then have "loop_ok full n i (bench_add_conn fd (bs_loops bs ! i)) (bs_world bs)"
    using new by (rule loop_ok_queue)
  then have "bench_inv full n (set_loop i (bench_add_conn fd (bs_loops bs ! i), bs_world bs) bs)"
    by (rule inv_set_loop [OF inv i(1) _ keeps_others_refl])
  then show ?thesis
    by (simp add: bench_inv_def loop_ok_os set_loop_def bs')
qed

text \<open>A crash needs a server without threads, or a loop that has seen more than \<open>2 ^ 31\<close> connections.\<close>

definition bench_state_inv :: "bool \<Rightarrow> nat \<Rightarrow> 'k bench_state \<Rightarrow> bool" where
  "bench_state_inv full n s = (case s of
      Working bs \<Rightarrow> bench_inv full n bs
    | Bench_Crashed bs f \<Rightarrow> f = DivideByZero \<and> n = 0 \<or> (\<exists>l \<in> set (bs_loops bs). 2 ^ 31 < length (bs_conns l)))"

lemma bench_inv_step:
  assumes K: "kernel_ok K" and full: "full \<Longrightarrow> takes_all K" and "bench_step K s s'" "bench_state_inv full n s"
  shows "bench_state_inv full n s'"
  using assms(3)
proof (cases rule: bench_step.cases)
  case (accept bs bs')
  then show ?thesis
    using assms(4) bench_inv_accept by (simp add: bench_state_inv_def)
next
  case (accept_fault bs f)
  then show ?thesis
    using assms(4) by (auto simp: bench_state_inv_def bench_inv_def bench_accept_def Let_def split: if_splits prod.splits)
next
  case (dump i bs)
  then have inv: "bench_inv full n bs" and i: "i < n"
    using assms(4) by (simp_all add: bench_state_inv_def bench_inv_def)
  then have ok: "loop_ok full n i (bs_loops bs ! i) (bs_world bs)"
    by (simp add: bench_inv_def)
  obtain l w where run: "dump_conn (bs_loops bs ! i, bs_world bs) = (l, w)"
    by (cases "dump_conn (bs_loops bs ! i, bs_world bs)")
  show ?thesis
    using inv_set_loop [OF inv i dump_law [OF ok dump(4) run]] dump(2) run by (simp add: bench_state_inv_def)
next
  case (wait i bs batch)
  then have inv: "bench_inv full n bs" and i: "i < n"
    using assms(4) by (simp_all add: bench_state_inv_def bench_inv_def)
  then have "loop_ok full n i (bs_loops bs ! i) (bs_world bs)"
    by (simp add: bench_inv_def)
  then have "loop_ok full n i ((bs_loops bs ! i)\<lparr>bs_pending := batch\<rparr>) (bs_world bs)"
    using wait(5) by (auto simp: loop_ok_def open_fds_def index_ok_def bench_batch_ok_def)
  then show ?thesis
    using inv_set_loop [OF inv i _ keeps_others_refl] wait by (simp add: bench_state_inv_def)
next
  case (event i bs e es s1)
  then have inv: "bench_inv full n bs" and i: "i < n"
    using assms(4) by (simp_all add: bench_state_inv_def bench_inv_def)
  then have "loop_ok full n i (bs_loops bs ! i) (bs_world bs)"
    by (simp add: bench_inv_def)
  from event_law [OF K full this, of "fst e" "snd e" es] show ?thesis
    using event inv_set_loop [OF inv i] by (cases s1) (simp add: bench_state_inv_def)
next
  case (event_fault i bs e es f)
  then have "loop_ok full n i (bs_loops bs ! i) (bs_world bs)"
    using assms(4) by (simp add: bench_state_inv_def bench_inv_def)
  from event_law [OF K full this, of "fst e" "snd e" es] show ?thesis
    using event_fault by (auto simp: bench_state_inv_def)
next
  case (others bs s)
  then show ?thesis
    using assms(4) by (simp add: bench_state_inv_def bench_inv_def loop_ok_os)
qed

lemma bench_inv_run:
  assumes "kernel_ok K" "full \<Longrightarrow> takes_all K" "(bench_step K)\<^sup>*\<^sup>*
    (Working \<lparr>bs_loops = replicate n bench_loop_new, bs_listen = lfd, bs_world = w\<rparr>) s"
  shows "bench_state_inv full n s"
  using assms(3)
proof (induction rule: rtranclp_induct)
  case base
  show ?case
    by (simp add: bench_state_inv_def bench_inv_def bench_loop_new_def loop_ok_def open_fds_def index_ok_def)
next
  case (step s s')
  then show ?case
    using bench_inv_step [OF assms(1,2)] by blast
qed

section \<open>What the server promises\<close>

text \<open>C37: the loops of the bench server never use a connection that is gone.  The server can crash in two ways only:
  a division by zero at the first client, if it was started with no thread, or a loop whose vector has grown past \<open>2 ^ 31\<close>
  connections, so that an index does not fit an \<^verbatim>\<open>int\<close>.  Otherwise every live connection is in the loop that its
  descriptor modulo the number of threads gives, epoll has the index at which the vector holds it, and it
  relays what it receives, whatever the other threads do.\<close>

theorem bench_server_safe:
  assumes "kernel_ok K" "bench_main K socket argv w s" "threads = snd (snd (bench_parse_arg argv))"
  shows "(\<forall>bs f. s = Bench_Crashed bs f \<longrightarrow> f = DivideByZero \<and> threads \<le> 0 \<or>
      (\<exists>l \<in> set (bs_loops bs). 2 ^ 31 < length (bs_conns l))) \<and>
    (\<forall>bs. s = Working bs \<longrightarrow> length (bs_loops bs) = nat threads \<and>
      (\<forall>i < nat threads. \<forall>fd. 0 \<le> fd \<longrightarrow> Some fd \<in> set (bs_conns (bs_loops bs ! i)) \<longrightarrow>
        fd mod threads = int i \<and> relayed (takes_all K) fd (bs_world bs) \<and>
        (length (bs_conns (bs_loops bs ! i)) \<le> 2 ^ 31 \<longrightarrow>
          (\<exists>j < length (bs_conns (bs_loops bs ! i)). bs_conns (bs_loops bs ! i) ! j = Some fd \<and>
            bs_regs (bs_loops bs ! i) fd = Some (of_nat j)))))"
proof -
  have "(bench_step K)\<^sup>*\<^sup>* (Working \<lparr>bs_loops = replicate (nat threads) bench_loop_new,
      bs_listen = socket (htons (word_of_int (fst (snd (bench_parse_arg argv))))), bs_world = w\<rparr>) s"
    using assms(2,3) by (simp add: bench_main_def split: prod.splits)
  from bench_inv_run [OF assms(1) _ this, of "takes_all K"] have inv: "bench_state_inv (takes_all K) (nat threads) s"
    by simp
  have live: "fd mod threads = int i \<and> relayed (takes_all K) fd (bs_world bs) \<and>
      (length (bs_conns (bs_loops bs ! i)) \<le> 2 ^ 31 \<longrightarrow>
        (\<exists>j < length (bs_conns (bs_loops bs ! i)). bs_conns (bs_loops bs ! i) ! j = Some fd \<and>
          bs_regs (bs_loops bs ! i) fd = Some (of_nat j)))"
    if s: "s = Working bs" and i: "i < nat threads" and fd: "0 \<le> fd" "Some fd \<in> set (bs_conns (bs_loops bs ! i))" for bs i fd
  proof -
    have ok: "loop_ok (takes_all K) (nat threads) i (bs_loops bs ! i) (bs_world bs)"
      using inv s i by (simp add: bench_state_inv_def bench_inv_def)
    obtain j where j: "j < length (bs_conns (bs_loops bs ! i))" "bs_conns (bs_loops bs ! i) ! j = Some fd"
      using fd(2) by (metis in_set_conv_nth)
    have "int (nat threads) = threads"
      using i by (cases "0 \<le> threads") simp_all
    then have "fd mod threads = int i"
      using loop_okD(1) [OF ok fd(1)] fd(2) by simp
    moreover have "bs_regs (bs_loops bs ! i) fd = Some (of_nat j)" if "length (bs_conns (bs_loops bs ! i)) \<le> 2 ^ 31"
      using index_okD(3) [OF loop_okD(3) [OF ok that] j fd(1)] .
    ultimately show ?thesis
      using loop_okD(4) [OF ok fd] j i by auto
  qed
  have crash: "f = DivideByZero \<and> threads \<le> 0 \<or> (\<exists>l \<in> set (bs_loops bs). 2 ^ 31 < length (bs_conns l))"
    if "s = Bench_Crashed bs f" for bs f
    using inv that by (auto simp: bench_state_inv_def)
  have "length (bs_loops bs) = nat threads" if "s = Working bs" for bs
    using inv that by (simp add: bench_state_inv_def bench_inv_def)
  then show ?thesis
    using live crash by blast
qed

text \<open>With \<^verbatim>\<open>threads\<close> given as 0 the first client kills the server.\<close>

lemma no_threads_crash: "bench_accept K \<lparr>bs_loops = replicate (nat 0) bench_loop_new, bs_listen = lfd, bs_world = w\<rparr> = Inl DivideByZero"
  by (simp add: bench_accept_def split: prod.splits)

section \<open>A run\<close>

lemma demo_bench_run:
  "\<exists>bs. bench_main loopback (\<lambda>_. 3) [''server'', ''80'', ''2''] \<lparr>w_os = (), w_trace = []\<rparr> (Working bs) \<and>
    bs_conns (bs_loops bs ! 1) = [Some 5]"
proof -
  let ?start = "\<lparr>bs_loops = [bench_loop_new, bench_loop_new], bs_listen = 3, bs_world = \<lparr>w_os = (), w_trace = []\<rparr>\<rparr>"
  let ?queued = "\<lparr>bs_loops = [bench_loop_new, bench_add_conn 5 bench_loop_new], bs_listen = 3, bs_world = \<lparr>w_os = (), w_trace = []\<rparr>\<rparr>"
  let ?bs = "set_loop 1 (dump_conn (bs_loops ?queued ! 1, bs_world ?queued)) ?queued"
  have args: "bench_parse_arg [''server'', ''80'', ''2''] = (1, 80, 2)"
    by code_simp
  have "bench_step loopback (Working ?start) (Working ?queued)"
    by (rule bench_step.accept)
      (simp_all add: bench_fresh_def loopback_def open_fds_def bench_loop_new_def bench_accept_def numeral_2_eq_2)
  moreover have "bench_step loopback (Working ?queued) (Working ?bs)"
    by (rule bench_step.dump) (simp_all add: bench_add_conn_def bench_loop_new_def)
  ultimately have "(bench_step loopback)\<^sup>*\<^sup>* (Working ?start) (Working ?bs)"
    by (rule converse_rtranclp_into_rtranclp [OF _ r_into_rtranclp])
  then have "bench_main loopback (\<lambda>_. 3) [''server'', ''80'', ''2''] \<lparr>w_os = (), w_trace = []\<rparr> (Working ?bs)"
    by (simp add: bench_main_def args numeral_2_eq_2)
  moreover have "bs_conns (bs_loops ?bs ! 1) = [Some 5]"
    by (simp add: set_loop_def dump_conn_def bench_add_conn_def bench_loop_new_def)
  ultimately show ?thesis
    by blast
qed

lemma bench_server_safe_witness:
  "\<exists>bs. bench_main loopback (\<lambda>_. 3) [''server'', ''80'', ''2''] \<lparr>w_os = (), w_trace = []\<rparr> (Working bs) \<and>
    length (bs_loops bs) = 2 \<and> bs_conns (bs_loops bs ! 1) = [Some 5] \<and> bs_regs (bs_loops bs ! 1) 5 = Some 0 \<and>
    relayed True 5 (bs_world bs)"
proof -
  obtain bs where bs: "bench_main loopback (\<lambda>_. 3) [''server'', ''80'', ''2''] \<lparr>w_os = (), w_trace = []\<rparr> (Working bs)"
    "bs_conns (bs_loops bs ! 1) = [Some 5]"
    using demo_bench_run by blast
  have "2 = snd (snd (bench_parse_arg [''server'', ''80'', ''2'']))"
    by code_simp
  from bench_server_safe [OF loopback_ok(1) bs(1) this, THEN conjunct2, THEN spec, THEN mp, OF refl] have
    law: "length (bs_loops bs) = 2" "\<forall>i < 2. \<forall>fd. 0 \<le> fd \<longrightarrow> Some fd \<in> set (bs_conns (bs_loops bs ! i)) \<longrightarrow>
        relayed (takes_all loopback) fd (bs_world bs) \<and>
        (length (bs_conns (bs_loops bs ! i)) \<le> 2 ^ 31 \<longrightarrow>
          (\<exists>j < length (bs_conns (bs_loops bs ! i)). bs_regs (bs_loops bs ! i) fd = Some (of_nat j)))"
    by auto
  have "relayed (takes_all loopback) 5 (bs_world bs)" "bs_regs (bs_loops bs ! 1) 5 = Some 0"
    using law(2) [THEN spec, of 1, THEN mp, THEN spec, of 5] bs(2) by simp_all
  then show ?thesis
    using bs law(1) loopback_ok(2) by (intro exI [of _ bs]) simp
qed

end
