(* ===== verification/Kthread.thy ===== *)
theory Kthread
  imports Prelude
begin

text \<open>
  The kernel modules of \<^verbatim>\<open>kernel_module/thread_management\<close> that start threads (\<^verbatim>\<open>kthread_example\<close>,
  \<^verbatim>\<open>kthread_example1\<close> to \<^verbatim>\<open>kthread_example3\<close>, \<^verbatim>\<open>kthread_example5\<close>; the fourth is in \<open>Ping_Pong\<close>).

  A module is the list of actions of its init function and of its exit function, the function of its threads, one
  step at a time, and whatever else runs (clocks, timers).  The steps interleave freely; a step that is blocked is
  none.  What the kernel gives is documented behaviour: \<^verbatim>\<open>kthread_run\<close> answers a task or an error pointer, never null;
  \<^verbatim>\<open>kthread_stop\<close> sets the flag that \<^verbatim>\<open>kthread_should_stop\<close> reads, wakes the thread and waits for its end; it must not
  be given a thread that has ended by itself, whose task may be freed.  \<^verbatim>\<open>wait_event\<close> and the loops that poll
  a variable pass when their condition holds, so \<^verbatim>\<open>wake_up\<close> is no step of its own.  \<^verbatim>\<open>schedule\<close> is different: it sleeps
  if the state of the thread is TASK_INTERRUPTIBLE, and a wakeup that comes before \<^verbatim>\<open>set_current_state\<close> is lost.

  The locale \<open>stopping_module\<close> is what the comment above \<^verbatim>\<open>wait_for_kthread_stop\<close> asks for: a thread does not
  end before it is told to.
\<close>

section \<open>Modules with threads\<close>

datatype task_ptr = Null | ErrPtr | Task

text \<open>
  A thread is in its own code, or in \<^verbatim>\<open>wait_for_kthread_stop\<close> and about to go on at the given point: testing
  \<^verbatim>\<open>kthread_should_stop\<close>, in \<^verbatim>\<open>set_current_state\<close>, or in \<^verbatim>\<open>schedule\<close>.
\<close>

datatype wait_point = Check_Stop | Set_State | Schedule

datatype 'pc thread_state = Absent | At 'pc | Stopping wait_point 'pc | Ended

datatype 'pc control = Goto 'pc | Wait_Stop 'pc | Return

text \<open>\<open>idle\<close>: the state is TASK_INTERRUPTIBLE.  The result is where it goes on (\<open>None\<close>: it returns), and the state; no result if it sleeps.\<close>

fun wait_for_kthread_stop :: "bool \<Rightarrow> bool \<Rightarrow> wait_point \<Rightarrow> (wait_point option \<times> bool) option" where
  "wait_for_kthread_stop stop idle Check_Stop = Some (if stop then None else Some Set_State, idle)"
| "wait_for_kthread_stop stop idle Set_State = Some (Some Schedule, True)"
| "wait_for_kthread_stop stop idle Schedule = (if idle then None else Some (Some Check_Stop, False))"

datatype 's action =
    Do "'s \<Rightarrow> 's"
  | Await "'s \<Rightarrow> bool" "'s \<Rightarrow> 's"
  | Kthread_run nat
  | Check nat
  | Use nat
  | Kthread_stop nat
  | Join nat

text \<open>\<open>Check\<close> is \<^verbatim>\<open>if (!thread) return -1\<close>, \<open>Use\<close> passes the task to the scheduler; \<open>Join\<close> is the second half of \<^verbatim>\<open>kthread_stop\<close>.\<close>

datatype phase = Loading | Loaded | Load_Failed | Unloading | Unloaded | Crashed

record ('pc, 's, 'e) kmodule =
  m_init :: "'s action list"
  m_exit :: "'s action list"
  m_entry :: 'pc
  m_thread :: "nat \<Rightarrow> bool \<Rightarrow> 'pc \<times> 's \<Rightarrow> 'pc control \<times> 's"
  m_other :: "'e \<Rightarrow> 's \<Rightarrow> 's option"

record ('pc, 's) ksys =
  k_phase :: phase
  k_todo :: "'s action list"
  k_ptr :: "nat \<Rightarrow> task_ptr"
  k_thread :: "nat \<Rightarrow> 'pc thread_state"
  k_stop :: "nat \<Rightarrow> bool"
  k_idle :: "nat \<Rightarrow> bool"
  k_data :: 's

definition k_start :: "('pc, 's, 'e) kmodule \<Rightarrow> 's \<Rightarrow> ('pc, 's) ksys" where
  "k_start M d = \<lparr>k_phase = Loading, k_todo = m_init M, k_ptr = (\<lambda>_. Null), k_thread = (\<lambda>_. Absent),
    k_stop = (\<lambda>_. False), k_idle = (\<lambda>_. False), k_data = d\<rparr>"

text \<open>One action; \<open>ans\<close> is what \<^verbatim>\<open>kthread_run\<close> answers.\<close>

fun k_exec :: "('pc, 's, 'e) kmodule \<Rightarrow> task_ptr \<Rightarrow> 's action \<Rightarrow> ('pc, 's) ksys \<Rightarrow> ('pc, 's) ksys option" where
  "k_exec M ans (Do f) s = Some (s\<lparr>k_data := f (k_data s)\<rparr>)"
| "k_exec M ans (Await P f) s = (if P (k_data s) then Some (s\<lparr>k_data := f (k_data s)\<rparr>) else None)"
| "k_exec M ans (Kthread_run i) s =
    (if ans = Null then None
     else Some (s\<lparr>k_ptr := (k_ptr s)(i := ans),
       k_thread := (if ans = Task then (k_thread s)(i := At (m_entry M)) else k_thread s)\<rparr>))"
| "k_exec M ans (Check i) s = Some (if k_ptr s i = Null then s\<lparr>k_phase := Load_Failed, k_todo := []\<rparr> else s)"
| "k_exec M ans (Use i) s =
    Some (if k_ptr s i = Task \<and> k_thread s i \<noteq> Ended then s else s\<lparr>k_phase := Crashed, k_todo := []\<rparr>)"
| "k_exec M ans (Kthread_stop i) s =
    Some (if k_ptr s i = Task \<and> k_thread s i \<noteq> Ended
      then s\<lparr>k_stop := (k_stop s)(i := True), k_idle := (k_idle s)(i := False), k_todo := Join i # k_todo s\<rparr>
      else s\<lparr>k_phase := Crashed, k_todo := []\<rparr>)"
| "k_exec M ans (Join i) s = (if k_thread s i = Ended then Some s else None)"

datatype 'e label = Module task_ptr | Thread nat | Other 'e

fun k_next :: "('pc, 's, 'e) kmodule \<Rightarrow> 'e label \<Rightarrow> ('pc, 's) ksys \<Rightarrow> ('pc, 's) ksys option" where
  "k_next M (Module ans) s =
    (case (k_phase s, k_todo s) of
      (Loading, []) \<Rightarrow> Some (s\<lparr>k_phase := Loaded\<rparr>)
    | (Unloading, []) \<Rightarrow> Some (s\<lparr>k_phase := Unloaded\<rparr>)
    | (Loaded, []) \<Rightarrow> Some (s\<lparr>k_phase := Unloading, k_todo := m_exit M\<rparr>)
    | (p, a # rest) \<Rightarrow> k_exec M ans a (s\<lparr>k_todo := rest\<rparr>)
    | _ \<Rightarrow> None)"
| "k_next M (Thread i) s =
    (case k_thread s i of
      At pc \<Rightarrow> (case m_thread M i (k_stop s i) (pc, k_data s) of
        (r, d) \<Rightarrow> Some (s\<lparr>k_thread := (k_thread s)(i := (case r of Goto pc' \<Rightarrow> At pc' | Wait_Stop pc' \<Rightarrow> Stopping Check_Stop pc' |
          Return \<Rightarrow> Ended)), k_data := d\<rparr>))
    | Stopping p pc \<Rightarrow> map_option (\<lambda>(r, idle). s\<lparr>k_thread := (k_thread s)(i := (case r of None \<Rightarrow> At pc | Some p' \<Rightarrow> Stopping p' pc)),
        k_idle := (k_idle s)(i := idle)\<rparr>) (wait_for_kthread_stop (k_stop s i) (k_idle s i) p)
    | _ \<Rightarrow> None)"
| "k_next M (Other e) s = map_option (\<lambda>d. s\<lparr>k_data := d\<rparr>) (m_other M e (k_data s))"

fun k_run :: "('pc, 's, 'e) kmodule \<Rightarrow> 'e label list \<Rightarrow> ('pc, 's) ksys \<Rightarrow> ('pc, 's) ksys option" where
  "k_run M [] s = Some s"
| "k_run M (l # ls) s = Option.bind (k_next M l s) (k_run M ls)"

definition k_reach :: "('pc, 's, 'e) kmodule \<Rightarrow> 's \<Rightarrow> ('pc, 's) ksys \<Rightarrow> bool" where
  "k_reach M d s \<longleftrightarrow> (\<exists>ls. k_run M ls (k_start M d) = Some s)"

lemma k_run_append: "k_run M (ls @ ls') s = Option.bind (k_run M ls s) (k_run M ls')"
  by (induction ls arbitrary: s) (auto simp: Option.bind_assoc split: Option.bind_splits)

text \<open>Rule induction, on the steps and on the kinds of steps.\<close>

lemma k_run_induct [consumes 1, case_names start step]:
  assumes "k_run M ls s = Some t" and "I s" and step: "\<And>l s s'. I s \<Longrightarrow> k_next M l s = Some s' \<Longrightarrow> I s'"
  shows "I t"
  using assms(1,2) by (induction ls arbitrary: s) (auto split: Option.bind_splits intro: step)

lemma k_reach_induct [consumes 1, case_names start step]:
  assumes "k_reach M d s" "I (k_start M d)" "\<And>l s s'. I s \<Longrightarrow> k_next M l s = Some s' \<Longrightarrow> I s'"
  shows "I s"
  using assms(1) k_run_induct [where I = I] assms(2,3) unfolding k_reach_def by blast

lemma k_reach_run: "k_reach M d s \<Longrightarrow> k_run M ls s = Some s' \<Longrightarrow> k_reach M d s'"
proof -
  assume "k_reach M d s" "k_run M ls s = Some s'"
  moreover then obtain ls0 where "k_run M ls0 (k_start M d) = Some s"
    by (auto simp: k_reach_def)
  ultimately have "k_run M (ls0 @ ls) (k_start M d) = Some s'"
    by (simp add: k_run_append)
  then show ?thesis
    unfolding k_reach_def by blast
qed

lemma k_next_cases:
  assumes "k_next M l s = Some s'"
  obtains (loaded) "k_phase s = Loading" "k_todo s = []" "s' = s\<lparr>k_phase := Loaded\<rparr>"
  | (unload) "k_phase s = Loaded" "k_todo s = []" "s' = s\<lparr>k_phase := Unloading, k_todo := m_exit M\<rparr>"
  | (unloaded) "k_phase s = Unloading" "k_todo s = []" "s' = s\<lparr>k_phase := Unloaded\<rparr>"
  | (action) ans a rest where "k_todo s = a # rest" "k_exec M ans a (s\<lparr>k_todo := rest\<rparr>) = Some s'"
  | (thread_step) i pc r d where "l = Thread i" "k_thread s i = At pc" "m_thread M i (k_stop s i) (pc, k_data s) = (r, d)"
      "s' = s\<lparr>k_thread := (k_thread s)(i := (case r of Goto pc' \<Rightarrow> At pc' | Wait_Stop pc' \<Rightarrow> Stopping Check_Stop pc' |
        Return \<Rightarrow> Ended)), k_data := d\<rparr>"
  | (waiting) i p pc r idle where "l = Thread i" "k_thread s i = Stopping p pc"
      "wait_for_kthread_stop (k_stop s i) (k_idle s i) p = Some (r, idle)"
      "s' = s\<lparr>k_thread := (k_thread s)(i := (case r of None \<Rightarrow> At pc | Some p' \<Rightarrow> Stopping p' pc)), k_idle := (k_idle s)(i := idle)\<rparr>"
  | (other) e d where "m_other M e (k_data s) = Some d" "s' = s\<lparr>k_data := d\<rparr>"
proof (cases l)
  case (Module ans)
  then show ?thesis
    using assms loaded unload unloaded action by (cases "k_phase s"; cases "k_todo s") auto
next
  case (Thread i)
  then show ?thesis
    using assms thread_step waiting by (cases "k_thread s i") (auto split: prod.splits)
next
  case (Other e)
  then show ?thesis
    using assms other by auto
qed

section \<open>What a module has to keep\<close>

text \<open>
  The actions still to come: every thread is started once, used and stopped only after that, and stopped once; all
  that are started are stopped in the end.
\<close>

fun stops_all :: "nat set \<Rightarrow> nat set \<Rightarrow> 's action list \<Rightarrow> bool" where
  "stops_all S T [] \<longleftrightarrow> S \<subseteq> T"
| "stops_all S T (Kthread_run i # as) \<longleftrightarrow> i \<notin> S \<and> i \<notin> T \<and> stops_all (Set.insert i S) T as"
| "stops_all S T (Check i # as) \<longleftrightarrow> i \<in> S \<and> i \<notin> T \<and> stops_all S T as"
| "stops_all S T (Use i # as) \<longleftrightarrow> i \<in> S \<and> i \<notin> T \<and> stops_all S T as"
| "stops_all S T (Kthread_stop i # as) \<longleftrightarrow> i \<in> S \<and> i \<notin> T \<and> stops_all S (Set.insert i T) as"
| "stops_all S T (a # as) \<longleftrightarrow> stops_all S T as"

definition no_join :: "'s action list \<Rightarrow> bool" where
  "no_join as \<longleftrightarrow> (\<forall>i. Join i \<notin> set as)"

definition remaining :: "('pc, 's, 'e) kmodule \<Rightarrow> ('pc, 's) ksys \<Rightarrow> 's action list" where
  "remaining M s = k_todo s @ (if k_phase s = Loading \<or> k_phase s = Loaded then m_exit M else [])"

text \<open>What the library promises of every state: no thread is stopped that may be gone, none is left in an unloaded module.\<close>

definition threads_safe :: "('pc, 's) ksys \<Rightarrow> bool" where
  "threads_safe s \<longleftrightarrow> (k_phase s = Crashed \<longrightarrow> (\<exists>i. k_ptr s i = ErrPtr)) \<and> k_phase s \<noteq> Load_Failed \<and>
    (\<forall>i. k_thread s i = Ended \<longrightarrow> k_stop s i) \<and>
    (k_phase s = Unloaded \<longrightarrow> (\<forall>i. k_ptr s i \<noteq> ErrPtr \<and> (k_thread s i = Absent \<or> k_thread s i = Ended)))"

text \<open>
  The thread has tested \<^verbatim>\<open>kthread_should_stop\<close> and has not yet set its state, or sleeps: a wakeup would be lost
  in the first case.  A thread that is told to stop otherwise is never stuck, and takes at most \<open>bound\<close> steps
  more, whatever else happens; one that misses it sleeps for good, and the module stays.
\<close>

definition missed :: "('pc, 's) ksys \<Rightarrow> nat \<Rightarrow> bool" where
  "missed s i \<longleftrightarrow> (case k_thread s i of
    Stopping Set_State pc \<Rightarrow> True | Stopping Schedule pc \<Rightarrow> k_idle s i | _ \<Rightarrow> False)"

lemma missed_cong: "k_thread s' i = k_thread s i \<Longrightarrow> k_idle s' i = k_idle s i \<Longrightarrow> missed s' i = missed s i"
  unfolding missed_def by (simp only:)

lemma missed_alive: "missed s i \<Longrightarrow> k_thread s i \<noteq> Absent \<and> k_thread s i \<noteq> Ended"
  by (auto simp: missed_def)

definition stops_within :: "('pc, 's, 'e) kmodule \<Rightarrow> nat \<Rightarrow> ('pc, 's) ksys \<Rightarrow> bool" where
  "stops_within M bound s \<longleftrightarrow> (\<forall>i. k_stop s i \<longrightarrow>
    (if missed s i then \<forall>ls s'. k_run M ls s = Some s' \<longrightarrow> missed s' i \<and> k_phase s' \<noteq> Unloaded
     else (k_thread s i = Ended \<or> (\<exists>s'. k_next M (Thread i) s = Some s')) \<and>
       (\<forall>ls s'. k_run M ls s = Some s' \<longrightarrow> count_list ls (Thread i) \<le> bound)))"

text \<open>\<open>released\<close> are the points of a thread after \<^verbatim>\<open>wait_for_kthread_stop\<close>.\<close>

locale stopping_module =
  fixes M :: "('pc, 's, 'e) kmodule" and released :: "'pc \<Rightarrow> bool"
  assumes program: "stops_all {} {} (m_init M @ m_exit M)" "no_join (m_init M @ m_exit M)"
    and entry: "\<not> released (m_entry M)"
    and waits: "m_thread M i stop (pc, d) = (Goto pc', d') \<Longrightarrow> released pc' \<Longrightarrow> released pc"
    and ends: "m_thread M i stop (pc, d) = (Return, d') \<Longrightarrow> released pc"

definition kthread_inv :: "('pc, 's, 'e) kmodule \<Rightarrow> ('pc \<Rightarrow> bool) \<Rightarrow> ('pc, 's) ksys \<Rightarrow> bool" where
  "kthread_inv M released s \<longleftrightarrow>
    (k_phase s \<noteq> Crashed \<longrightarrow> stops_all {i. k_ptr s i \<noteq> Null} {i. k_stop s i} (remaining M s)) \<and>
    k_phase s \<noteq> Load_Failed \<and> (k_phase s \<in> {Unloaded, Loaded, Crashed} \<longrightarrow> k_todo s = []) \<and>
    (k_phase s = Crashed \<longrightarrow> (\<exists>i. k_ptr s i = ErrPtr)) \<and>
    (\<forall>i. k_thread s i = Absent \<longleftrightarrow> k_ptr s i \<noteq> Task) \<and>
    (\<forall>i. k_thread s i = Ended \<longrightarrow> k_stop s i) \<and>
    (\<forall>i pc. k_thread s i = At pc \<longrightarrow> released pc \<longrightarrow> k_stop s i) \<and>
    (\<forall>i. k_phase s \<noteq> Crashed \<longrightarrow> k_stop s i \<longrightarrow> k_thread s i \<noteq> Ended \<longrightarrow> (\<exists>rest. k_todo s = Join i # rest)) \<and>
    no_join (m_init M @ m_exit M) \<and> (\<forall>i. Join i \<notin> set (tl (k_todo s))) \<and> (\<forall>i. k_stop s i \<longrightarrow> k_ptr s i = Task)"

lemma kthread_invD:
  assumes "kthread_inv M released s"
  shows "k_phase s \<noteq> Crashed \<Longrightarrow> stops_all {i. k_ptr s i \<noteq> Null} {i. k_stop s i} (remaining M s)"
    "k_phase s \<noteq> Load_Failed" "k_phase s \<in> {Unloaded, Loaded, Crashed} \<Longrightarrow> k_todo s = []"
    "k_phase s = Crashed \<Longrightarrow> \<exists>i. k_ptr s i = ErrPtr" "k_thread s i = Absent \<longleftrightarrow> k_ptr s i \<noteq> Task"
    "k_thread s i = Ended \<Longrightarrow> k_stop s i" "k_thread s i = At pc \<Longrightarrow> released pc \<Longrightarrow> k_stop s i"
    "k_phase s \<noteq> Crashed \<Longrightarrow> k_stop s i \<Longrightarrow> k_thread s i \<noteq> Ended \<Longrightarrow> \<exists>rest. k_todo s = Join i # rest"
    "no_join (m_init M @ m_exit M)" "Join i \<notin> set (tl (k_todo s))" "k_stop s i \<Longrightarrow> k_ptr s i = Task"
  using assms unfolding kthread_inv_def by blast+

lemma kthread_invI:
  assumes "k_phase s \<noteq> Crashed \<Longrightarrow> stops_all {i. k_ptr s i \<noteq> Null} {i. k_stop s i} (remaining M s)"
    "k_phase s \<noteq> Load_Failed" "k_phase s \<in> {Unloaded, Loaded, Crashed} \<Longrightarrow> k_todo s = []"
    "k_phase s = Crashed \<Longrightarrow> \<exists>i. k_ptr s i = ErrPtr" "\<And>i. k_thread s i = Absent \<longleftrightarrow> k_ptr s i \<noteq> Task"
    "\<And>i. k_thread s i = Ended \<Longrightarrow> k_stop s i" "\<And>i pc. k_thread s i = At pc \<Longrightarrow> released pc \<Longrightarrow> k_stop s i"
    "\<And>i. k_phase s \<noteq> Crashed \<Longrightarrow> k_stop s i \<Longrightarrow> k_thread s i \<noteq> Ended \<Longrightarrow> \<exists>rest. k_todo s = Join i # rest"
    "no_join (m_init M @ m_exit M)" "\<And>i. Join i \<notin> set (tl (k_todo s))" "\<And>i. k_stop s i \<Longrightarrow> k_ptr s i = Task"
  shows "kthread_inv M released s"
  unfolding kthread_inv_def by (intro conjI allI impI) (use assms in blast)+

context stopping_module
begin

lemma inv_start: "kthread_inv M released (k_start M d)"
  using program by (cases "m_init M") (auto simp: kthread_inv_def k_start_def remaining_def no_join_def)

text \<open>An action that changes no thread, and that nothing is waiting for.\<close>

lemma inv_pass:
  assumes i: "kthread_inv M released s" and todo: "k_todo s = a # rest"
    and prog: "stops_all {i. k_ptr s i \<noteq> Null} {i. k_stop s i} (rest @ (if k_phase s = Loading \<or> k_phase s = Loaded then m_exit M else []))"
    and ended: "\<And>i. k_stop s i \<Longrightarrow> k_thread s i = Ended"
  shows "kthread_inv M released (s\<lparr>k_todo := rest, k_data := d\<rparr>)"
proof -
  note D = kthread_invD [OF i]
  have rest: "Join i \<notin> set (tl rest)" for i
    using D(10) [of i] todo by (cases rest) auto
  have live: "k_phase s \<noteq> Crashed" "k_phase s \<noteq> Loaded" "k_phase s \<noteq> Unloaded"
    using D(3) todo by auto
  show ?thesis
  proof (rule kthread_invI, goal_cases)
    case 1
    show ?case
      using prog by (simp add: remaining_def)
  next
    case (8 i)
    then show ?case
      using ended by simp
  qed (use live D(2,5-7,9,11) rest in simp_all)
qed

lemma inv_action:
  assumes i: "kthread_inv M released s" and todo: "k_todo s = a # rest" and ex: "k_exec M ans a (s\<lparr>k_todo := rest\<rparr>) = Some s'"
  shows "kthread_inv M released s'"
proof -
  note D = kthread_invD [OF i]
  have live: "k_phase s \<noteq> Crashed" "k_phase s \<noteq> Loaded" "k_phase s \<noteq> Unloaded"
    using D(3) todo by auto
  let ?S = "{i. k_ptr s i \<noteq> Null}" and ?T = "{i. k_stop s i}"
  let ?tl = "rest @ (if k_phase s = Loading \<or> k_phase s = Loaded then m_exit M else [])"
  have prog: "stops_all ?S ?T (a # ?tl)"
    using D(1) live(1) todo by (simp add: remaining_def)
  have ended: "k_thread s i = Ended" if "k_stop s i" "a \<noteq> Join i" for i
    using D(8) [OF live(1) that(1)] that(2) todo by auto
  have rest: "Join i \<notin> set rest" "Join i \<notin> set (tl rest)" for i
    using D(10) [of i] todo by (cases rest; auto)+
  have same: "s\<lparr>k_todo := rest, k_data := k_data s\<rparr> = s\<lparr>k_todo := rest\<rparr>" by simp
  have usable: "k_ptr s i = Task \<Longrightarrow> k_thread s i \<noteq> Ended" "k_ptr s i \<noteq> Task \<Longrightarrow> k_ptr s i = ErrPtr" if "i \<in> ?S" "i \<notin> ?T" for i
    using that D(6) [of i] by (cases "k_ptr s i"; auto)+
  have crash: "kthread_inv M released (s\<lparr>k_phase := Crashed, k_todo := []\<rparr>)" if "k_ptr s i = ErrPtr" for i
    using D(4-7,9,11) that by (intro kthread_invI) auto
  show ?thesis
  proof (cases a)
    case (Do f)
    then show ?thesis
      using inv_pass [OF i todo] prog ended ex by auto
  next
    case (Await P f)
    then show ?thesis
      using inv_pass [OF i todo] prog ended ex by (auto split: if_splits)
  next
    case (Kthread_run j)
    then have new: "j \<notin> ?S" "j \<notin> ?T" "stops_all (Set.insert j ?S) ?T ?tl" and ans: "ans \<noteq> Null"
      using prog ex by (auto split: if_splits)
    have s': "s' = s\<lparr>k_todo := rest, k_ptr := (k_ptr s)(j := ans),
        k_thread := (if ans = Task then (k_thread s)(j := At (m_entry M)) else k_thread s)\<rparr>"
      using ex Kthread_run ans by auto
    have "{i. ((k_ptr s)(j := ans)) i \<noteq> Null} = Set.insert j ?S"
      using ans by auto
    moreover have "k_thread s i \<noteq> Ended" if "i = j" for i
      using that new(2) D(6) [of j] by auto
    ultimately show ?thesis
      unfolding s'
    proof (intro kthread_invI, goal_cases)
      case 1
      show ?case
        using new(3) \<open>{i. _ i \<noteq> Null} = _\<close> by (simp add: remaining_def)
    next
      case (5 i)
      show ?case
        using D(5) [of i] ans new(1) by (cases "i = j"; cases ans) simp_all
    next
      case (6 i)
      then show ?case
        using D(6) [of i] by (cases "i = j"; cases ans) simp_all
    next
      case (7 i pc)
      then show ?case
        using D(7) [of i pc] entry by (cases "i = j"; cases ans) simp_all
    next
      case (8 i)
      then show ?case
        using ended [of i] Kthread_run new(2) by (cases "i = j"; cases ans) simp_all
    next
      case (11 i)
      then show ?case
        using D(11) [of i] new(2) by (cases "i = j") simp_all
    qed (use live D(2,9) rest in simp_all)
  next
    case (Check j)
    then show ?thesis
      using inv_pass [OF i todo, of "k_data s"] prog ended ex same by auto
  next
    case (Use j)
    then show ?thesis
      using inv_pass [OF i todo, of "k_data s"] prog ended ex same usable [of j] crash [of j] by (auto split: if_splits)
  next
    case (Kthread_stop j)
    show ?thesis
    proof (cases "k_ptr s j = Task")
      case False
      then have "k_ptr s j = ErrPtr" "s' = s\<lparr>k_phase := Crashed, k_todo := []\<rparr>"
        using prog usable(2) [of j] ex Kthread_stop by auto
      then show ?thesis
        using crash by simp
    next
      case True
      have new: "j \<in> ?S" "j \<notin> ?T" "stops_all ?S (Set.insert j ?T) ?tl"
        using prog Kthread_stop by auto
      then have s': "s' = s\<lparr>k_stop := (k_stop s)(j := True), k_idle := (k_idle s)(j := False), k_todo := Join j # rest\<rparr>"
        using True usable(1) [OF new(1,2)] ex Kthread_stop by auto
      have T: "{i. ((k_stop s)(j := True)) i} = Set.insert j ?T"
        by auto
      show ?thesis
        unfolding s'
      proof (intro kthread_invI, goal_cases)
        case 1
        show ?case
          using new(3) T by (simp add: remaining_def)
      next
        case (8 i)
        then show ?case
          using ended [of i] Kthread_stop by (cases "i = j") simp_all
      next
        case (11 i)
        then show ?case
          using D(11) [of i] True by (cases "i = j") simp_all
      qed (use live D(2,5-7,9) rest in simp_all)
    qed
  next
    case (Join j)
    then show ?thesis
      using inv_pass [OF i todo, of "k_data s"] prog ended ex same by (auto split: if_splits)
  qed
qed

lemma inv_step:
  assumes i: "kthread_inv M released s" and run: "k_next M l s = Some s'"
  shows "kthread_inv M released s'"
proof -
  note D = kthread_invD [OF i]
  show ?thesis
    using run
  proof (cases rule: k_next_cases)
    case loaded
    then show ?thesis
      using D by (intro kthread_invI) (simp_all add: remaining_def)
  next
    case unload
    have tail: "Join i \<notin> set (tl (m_exit M))" for i
      using D(9) by (cases "m_exit M") (auto simp: no_join_def)
    have ended: "k_thread s i = Ended" if "k_stop s i" for i
      using D(8) [of i] that unload by auto
    show ?thesis
      unfolding unload(3)
    proof (intro kthread_invI, goal_cases)
      case 1
      show ?case
        using D(1) unload by (simp add: remaining_def)
    next
      case (8 i)
      then show ?case
        using ended [of i] by simp
    qed (use unload D(2,5-7,9,11) tail in simp_all)
  next
    case unloaded
    then show ?thesis
      using D by (intro kthread_invI) (simp_all add: remaining_def)
  next
    case (action ans a rest)
    then show ?thesis
      using inv_action [OF i] by simp
  next
    case (thread_step j pc r d)
    have told: "r = Return \<Longrightarrow> k_stop s j" "r = Goto q \<Longrightarrow> released q \<Longrightarrow> k_stop s j" for q
      using ends [of j "k_stop s j" pc "k_data s" d] waits [of j "k_stop s j" pc "k_data s" q d] thread_step(3)
        D(7) [OF thread_step(2)] by blast+
    show ?thesis
      unfolding thread_step(4)
    proof (intro kthread_invI, goal_cases)
      case 1
      then show ?case
        using D(1) by (simp add: remaining_def)
    next
      case (5 i)
      show ?case
        using D(5) [of i] thread_step(2) by (cases "i = j"; cases r) simp_all
    next
      case (6 i)
      then show ?case
        using D(6) [of i] told(1) by (cases "i = j"; cases r) simp_all
    next
      case (7 i q)
      then show ?case
        using D(7) [of i q] told(2) by (cases "i = j"; cases r) simp_all
    next
      case (8 i)
      then show ?case
        using D(8) [of i] thread_step(2) by (cases "i = j"; cases r) simp_all
    qed (use D(2-4,9-11) in simp_all)
  next
    case (waiting j p pc r idle)
    have released: "r = None \<Longrightarrow> k_stop s j"
      using waiting(3) by (cases p) (auto split: if_splits)
    show ?thesis
      unfolding waiting(4)
    proof (intro kthread_invI, goal_cases)
      case 1
      then show ?case
        using D(1) by (simp add: remaining_def)
    next
      case (5 i)
      show ?case
        using D(5) [of i] waiting(2) by (cases "i = j"; cases r) simp_all
    next
      case (6 i)
      then show ?case
        using D(6) [of i] by (cases "i = j"; cases r) simp_all
    next
      case (7 i q)
      then show ?case
        using D(7) [of i q] released by (cases "i = j"; cases r) simp_all
    next
      case (8 i)
      then show ?case
        using D(8) [of i] waiting(2) by (cases "i = j"; cases r) simp_all
    qed (use D(2-4,9-11) in simp_all)
  next
    case (other e d)
    then show ?thesis
      using D by (intro kthread_invI) (simp_all add: remaining_def)
  qed
qed

lemma inv_reach: "k_reach M d s \<Longrightarrow> kthread_inv M released s"
  by (erule k_reach_induct) (rule inv_start, rule inv_step)

text \<open>The check for null misses the error pointer: the module can then not be unloaded.\<close>

lemma refused:
  assumes "k_reach M d s" "k_ptr s i = ErrPtr"
  shows "k_phase s \<noteq> Unloaded" "k_todo s = Kthread_stop i # rest \<Longrightarrow> k_next M (Module ans) s = Some s' \<Longrightarrow> k_phase s' = Crashed"
proof -
  note D = kthread_invD [OF inv_reach [OF assms(1)]]
  have "k_stop s i" if "k_phase s = Unloaded"
  proof -
    have "remaining M s = []"
      using that D(3) by (simp add: remaining_def)
    then show ?thesis
      using D(1) that assms(2) by (auto simp: subset_eq)
  qed
  then show "k_phase s \<noteq> Unloaded"
    using D(11) [of i] assms(2) by auto
  show "k_phase s' = Crashed" if "k_todo s = Kthread_stop i # rest" "k_next M (Module ans) s = Some s'"
    using that assms(2) D(3) by (cases "k_phase s") auto
qed

lemma safe:
  assumes "k_reach M d s"
  shows "threads_safe s"
proof -
  note D = kthread_invD [OF inv_reach [OF assms]]
  have "k_thread s i = Absent \<or> k_thread s i = Ended" if "k_phase s = Unloaded" for i
  proof -
    have "remaining M s = []"
      using that D(3) by (simp add: remaining_def)
    then have "k_ptr s i = Task \<Longrightarrow> k_stop s i"
      using D(1) that by (auto simp: subset_eq)
    then show ?thesis
      using D(3) D(5,8) [of i] that by auto
  qed
  then show ?thesis
    using D(2,4,6) refused(1) [OF assms] by (auto simp: threads_safe_def)
qed

text \<open>Steps of other threads and of the module leave a thread that is to stop where it is.\<close>

lemma stop_keeps:
  assumes i: "kthread_inv M released s" and stop: "k_stop s j" and run: "k_next M l s = Some s'"
  shows "k_stop s' j" "l \<noteq> Thread j \<Longrightarrow> k_thread s' j = k_thread s j \<and> k_idle s' j = k_idle s j"
proof -
  note D = kthread_invD [OF i]
  have "k_stop s' j \<and> (l \<noteq> Thread j \<longrightarrow> k_thread s' j = k_thread s j \<and> k_idle s' j = k_idle s j)"
    using run
  proof (cases rule: k_next_cases)
    case (action ans a rest)
    have "a \<noteq> Kthread_run j" "a \<noteq> Kthread_stop j"
      using D(1,3) action(1) stop by (cases "k_phase s = Crashed"; auto simp: remaining_def)+
    then show ?thesis
      using action(2) stop by (cases a) (auto split: if_splits)
  qed (use stop in auto)
  then show "k_stop s' j" "l \<noteq> Thread j \<Longrightarrow> k_thread s' j = k_thread s j \<and> k_idle s' j = k_idle s j"
    by simp_all
qed

lemma missed_stays:
  assumes i: "kthread_inv M released s" and stop: "k_stop s j" "missed s j" and run: "k_next M l s = Some s'"
  shows "missed s' j"
proof (cases "l = Thread j")
  case True
  obtain p pc where "k_thread s j = Stopping p pc" "p = Set_State \<or> p = Schedule \<and> k_idle s j"
    using stop(2) by (auto simp: missed_def split: thread_state.splits wait_point.splits)
  then show ?thesis
    using run True by (auto simp: missed_def)
next
  case False
  then show ?thesis
    using stop_keeps(2) [OF i stop(1) run] stop(2) missed_cong by metis
qed

lemma missed_for_good:
  assumes "k_reach M d s" "k_stop s j" "missed s j" "k_run M ls s = Some s'"
  shows "missed s' j \<and> k_phase s' \<noteq> Unloaded"
proof -
  have "missed s' j \<and> k_stop s' j \<and> kthread_inv M released s'"
    using assms(4)
    by (induction rule: k_run_induct) (use assms(2,3) inv_reach [OF assms(1)] missed_stays stop_keeps(1) inv_step in blast)+
  moreover have "threads_safe s'"
    using safe [OF k_reach_run [OF assms(1,4)]] .
  ultimately show ?thesis
    using missed_alive [of s' j] by (auto simp: threads_safe_def)
qed

lemma ptr_keeps:
  assumes i: "kthread_inv M released s" and ptr: "k_ptr s j \<noteq> Null" and run: "k_next M l s = Some s'"
  shows "k_ptr s' j = k_ptr s j"
  using run
proof (cases rule: k_next_cases)
  case (action ans a rest)
  have "a \<noteq> Kthread_run j"
    using kthread_invD(1,3) [OF i] action(1) ptr by (cases "k_phase s = Crashed") (auto simp: remaining_def)
  then show ?thesis
    using action(2) by (cases a) (auto split: if_splits)
qed auto

end

section \<open>Unloading comes to an end\<close>

text \<open>\<open>rank\<close> is how many steps a thread that is told to stop still takes.\<close>

locale stoppable_module = stopping_module +
  fixes data :: 's and rank :: "'pc \<Rightarrow> nat" and bound :: nat
  assumes progress: "k_reach M data s \<Longrightarrow> k_stop s i \<Longrightarrow> k_thread s i = At pc \<Longrightarrow>
      m_thread M i True (pc, k_data s) = (Goto pc', d') \<Longrightarrow> rank pc' < rank pc"
    and waiting: "m_thread M i True (pc, d) = (Wait_Stop pc', d') \<Longrightarrow> rank pc' + 1 < rank pc"
    and bounded: "rank pc + 2 < bound"

fun point_rank :: "('pc \<Rightarrow> nat) \<Rightarrow> 'pc thread_state \<Rightarrow> nat" where
  "point_rank rank (At pc) = rank pc + 1"
| "point_rank rank (Stopping Check_Stop pc) = rank pc + 2"
| "point_rank rank (Stopping Schedule pc) = rank pc + 3"
| "point_rank rank _ = 0"

context stoppable_module
begin

lemma one_step:
  assumes reach: "k_reach M data s" and stop: "k_stop s i" "\<not> missed s i" and run: "k_next M l s = Some s'"
  shows "k_stop s' i" "k_reach M data s'" "\<not> missed s' i"
    "point_rank rank (k_thread s' i) + of_bool (l = Thread i) \<le> point_rank rank (k_thread s i)"
proof -
  note keeps = stop_keeps [OF inv_reach [OF reach] stop(1) run]
  show "k_stop s' i" "k_reach M data s'"
    using keeps(1) k_reach_run [OF reach, of "[l]"] run by simp_all
  have "\<not> missed s' i \<and> point_rank rank (k_thread s' i) + of_bool (l = Thread i) \<le> point_rank rank (k_thread s i)"
  proof (cases "l = Thread i")
    case False
    then show ?thesis
      using keeps(2) stop(2) missed_cong [of s' i s] by simp
  next
    case True
    show ?thesis
    proof (cases "k_thread s i")
      case (At pc)
      obtain r d where step: "m_thread M i True (pc, k_data s) = (r, d)"
        by (cases "m_thread M i True (pc, k_data s)")
      then have "k_thread s' i = (case r of Goto pc' \<Rightarrow> At pc' | Wait_Stop pc' \<Rightarrow> Stopping Check_Stop pc' | Return \<Rightarrow> Ended)"
        using run stop(1) True At by auto
      then show ?thesis
        using progress [OF reach stop(1) At] waiting step True At by (cases r) (auto simp: missed_def Suc_le_eq)
    next
      case (Stopping p pc)
      then show ?thesis
        using run stop True by (cases p) (auto simp: missed_def)
    qed (use run True in auto)
  qed
  then show "\<not> missed s' i" "point_rank rank (k_thread s' i) + of_bool (l = Thread i) \<le> point_rank rank (k_thread s i)"
    by simp_all
qed

lemma few_steps:
  assumes "k_reach M data s" "k_stop s i" "\<not> missed s i" "k_run M ls s = Some s'"
  shows "point_rank rank (k_thread s' i) + count_list ls (Thread i) \<le> point_rank rank (k_thread s i)"
  using assms
proof (induction ls arbitrary: s)
  case (Cons l ls)
  then obtain s1 where s1: "k_next M l s = Some s1" "k_run M ls s1 = Some s'"
    by (auto split: Option.bind_splits)
  note one = one_step [OF Cons.prems(1-3) s1(1)]
  show ?case
    using Cons.IH [OF one(2,1,3) s1(2)] one(4) by auto
qed simp

lemma at_most:
  assumes "k_reach M data s" "k_stop s i" "\<not> missed s i" "k_run M ls s = Some s'"
  shows "count_list ls (Thread i) \<le> bound"
proof -
  have "point_rank rank t \<le> bound" for t
  proof (cases t)
    case (At pc)
    then show ?thesis
      using bounded [of pc] by simp
  next
    case (Stopping p pc)
    then show ?thesis
      using bounded [of pc] by (cases p) simp_all
  qed simp_all
  then show ?thesis
    using few_steps [OF assms] by (meson add_leD2 order_trans)
qed

lemma never_stuck:
  assumes "k_reach M data s" "k_stop s i" "\<not> missed s i"
  shows "k_thread s i = Ended \<or> (\<exists>s'. k_next M (Thread i) s = Some s')"
proof (cases "k_thread s i")
  case Absent
  then show ?thesis
    using kthread_invD(5,11) [OF inv_reach [OF assms(1)], of i] assms(2) by simp
next
  case (Stopping p pc)
  then show ?thesis
    using assms(3) by (cases p) (auto simp: missed_def)
qed (auto split: prod.splits)

lemma stops: "k_reach M data s \<Longrightarrow> stops_within M bound s"
  unfolding stops_within_def using at_most never_stuck missed_for_good by (simp del: k_next.simps)

end

end
