(* ===== verification/Kthread_Examples.thy ===== *)
theory Kthread_Examples
  imports Kthread
begin

text \<open>
  The modules \<^verbatim>\<open>kthread_example\<close>, \<^verbatim>\<open>kthread_example1\<close> (the init function polls a variable that the thread sets),
  \<^verbatim>\<open>kthread_example2\<close> (it sleeps until the thread wakes it), \<^verbatim>\<open>kthread_example3\<close> (four threads and a semaphore) and
  \<^verbatim>\<open>kthread_example5\<close> (a long computation), as instances of \<open>Kthread\<close>.  An \<^verbatim>\<open>msleep\<close> is one step.
\<close>

section \<open>The threads\<close>

text \<open>
  The common shape: up to \<open>limit\<close> rounds while the thread is not told to stop, then \<open>leave\<close> and \<open>signal\<close>, then
  \<^verbatim>\<open>wait_for_kthread_stop\<close>, then \<open>tail\<close> rounds more.
\<close>

datatype kpc = Entry | Looping nat | Signalling | Tail nat

fun example_thread :: "nat \<Rightarrow> nat \<Rightarrow> ('s \<Rightarrow> 's) \<Rightarrow> ('s \<Rightarrow> 's) \<Rightarrow> ('s \<Rightarrow> 's) \<Rightarrow> bool \<Rightarrow> kpc \<times> 's \<Rightarrow> kpc control \<times> 's" where
  "example_thread limit tail enter leave signal stop (Entry, d) = (Goto (Looping 0), enter d)"
| "example_thread limit tail enter leave signal stop (Looping i, d) =
    (if i < limit \<and> \<not> stop then (Goto (Looping (Suc i)), d) else (Goto Signalling, leave d))"
| "example_thread limit tail enter leave signal stop (Signalling, d) = (Wait_Stop (Tail 0), signal d)"
| "example_thread limit tail enter leave signal stop (Tail i, d) = (if i < tail then Goto (Tail (Suc i)) else Return, d)"

fun kpc_released :: "kpc \<Rightarrow> bool" where
  "kpc_released (Tail i) = True"
| "kpc_released _ = False"

fun kpc_rank :: "nat \<Rightarrow> kpc \<Rightarrow> nat" where
  "kpc_rank tail Entry = tail + 4"
| "kpc_rank tail (Looping i) = tail + 3"
| "kpc_rank tail Signalling = tail + 2"
| "kpc_rank tail (Tail i) = tail - i"

lemma example_thread_released:
  "example_thread limit tail enter leave signal stop (pc, d) = (Goto pc', d') \<Longrightarrow> kpc_released pc' \<Longrightarrow> kpc_released pc"
  "example_thread limit tail enter leave signal stop (pc, d) = (Return, d') \<Longrightarrow> kpc_released pc"
  by (cases pc; auto split: if_splits)+

lemma example_thread_rank:
  "example_thread limit tail enter leave signal True (pc, d) = (Goto pc', d') \<Longrightarrow> kpc_rank tail pc' < kpc_rank tail pc"
  "example_thread limit tail enter leave signal True (pc, d) = (Wait_Stop pc', d') \<Longrightarrow> Suc (kpc_rank tail pc') < kpc_rank tail pc"
  "kpc_rank tail pc + 2 < tail + 7"
  by (cases pc; auto split: if_splits)+

section \<open>\<^verbatim>\<open>kthread_example\<close>\<close>

definition kthread_example :: "(kpc, unit, unit) kmodule" where
  "kthread_example = \<lparr>m_init = [Kthread_run 0, Check 0], m_exit = [Kthread_stop 0], m_entry = Entry,
    m_thread = (\<lambda>_. example_thread 100 1 id id id), m_other = (\<lambda>_ _. None)\<rparr>"

section \<open>\<^verbatim>\<open>kthread_example1\<close> and \<^verbatim>\<open>kthread_example2\<close>\<close>

record finish_ctx =
  finished :: int

definition finish_ctx_init :: "finish_ctx \<Rightarrow> finish_ctx" where "finish_ctx_init d = d\<lparr>finished := 0\<rparr>"

definition finish_thread :: "bool \<Rightarrow> kpc \<times> finish_ctx \<Rightarrow> kpc control \<times> finish_ctx" where
  "finish_thread = example_thread 10 10 id id (\<lambda>d. d\<lparr>finished := 1\<rparr>)"

definition kthread_example1 :: "(kpc, finish_ctx, unit) kmodule" where
  "kthread_example1 = \<lparr>m_init = [Do finish_ctx_init, Kthread_run 0, Check 0, Await (\<lambda>d. \<not> finished d = 0) id],
    m_exit = [Kthread_stop 0], m_entry = Entry, m_thread = (\<lambda>_. finish_thread), m_other = (\<lambda>_ _. None)\<rparr>"

definition kthread_example2 :: "(kpc, finish_ctx, unit) kmodule" where
  "kthread_example2 = \<lparr>m_init = [Do finish_ctx_init, Kthread_run 0, Check 0, Await (\<lambda>d. finished d = 1) id],
    m_exit = [Kthread_stop 0], m_entry = Entry, m_thread = (\<lambda>_. finish_thread), m_other = (\<lambda>_ _. None)\<rparr>"

section \<open>\<^verbatim>\<open>kthread_example3\<close>\<close>

text \<open>\<^verbatim>\<open>jiffies\<close> advances by itself; \<^verbatim>\<open>down_interruptible\<close> is tried again when it is interrupted.\<close>

record sem_ctx =
  sc_id :: nat
  sc_start :: u64
  sc_end :: u64

record sem_data =
  sem_exit :: nat
  sem_ctxs :: "nat \<Rightarrow> sem_ctx"
  jiffies :: u64
  durations :: "u64 list"

definition nr_threads :: nat where "nr_threads = 4"

definition sem_ctx_init :: "nat \<Rightarrow> sem_data \<Rightarrow> sem_data" where
  "sem_ctx_init i d = d\<lparr>sem_ctxs := (sem_ctxs d)(i := sem_ctxs d i\<lparr>sc_id := i\<rparr>)\<rparr>"

definition sem_thread :: "nat \<Rightarrow> bool \<Rightarrow> kpc \<times> sem_data \<Rightarrow> kpc control \<times> sem_data" where
  "sem_thread i = example_thread 3 3
    (\<lambda>d. d\<lparr>sem_ctxs := (sem_ctxs d)(i := sem_ctxs d i\<lparr>sc_start := jiffies d\<rparr>)\<rparr>)
    (\<lambda>d. d\<lparr>sem_ctxs := (sem_ctxs d)(i := sem_ctxs d i\<lparr>sc_end := jiffies d\<rparr>)\<rparr>)
    (\<lambda>d. d\<lparr>sem_exit := Suc (sem_exit d)\<rparr>)"

definition show_duration :: "u64 \<Rightarrow> nat \<Rightarrow> sem_data \<Rightarrow> sem_data" where
  "show_duration hz i d = d\<lparr>durations := durations d @ [(sc_end (sem_ctxs d i) - sc_start (sem_ctxs d i)) div hz]\<rparr>"

definition down :: "sem_data action" where
  "down = Await (\<lambda>d. 0 < sem_exit d) (\<lambda>d. d\<lparr>sem_exit := sem_exit d - 1\<rparr>)"

definition kthread_example3 :: "u64 \<Rightarrow> (kpc, sem_data, u64) kmodule" where
  "kthread_example3 hz = \<lparr>m_init = Do (\<lambda>d. d\<lparr>sem_exit := 0\<rparr>) # map (\<lambda>i. Do (sem_ctx_init i)) [0..<nr_threads] @
      concat (map (\<lambda>i. [Kthread_run i, Check i]) [0..<nr_threads]) @ map (\<lambda>_. down) [0..<nr_threads],
    m_exit = map Kthread_stop [0..<nr_threads] @ map (\<lambda>i. Do (show_duration hz i)) [0..<nr_threads],
    m_entry = Entry, m_thread = sem_thread, m_other = (\<lambda>now d. Some (d\<lparr>jiffies := now\<rparr>))\<rparr>"

section \<open>\<^verbatim>\<open>kthread_example5\<close>\<close>

text \<open>
  The bound of the inner loop is written \<^verbatim>\<open>2600 * 1000 * 1000\<close>, a product of \<^verbatim>\<open>int\<close>s.  It does not fit; with the
  wrap-around that the kernel is compiled for, it is negative, and converted to \<^verbatim>\<open>uint64_t\<close> it is close to \<open>2 ^ 64\<close>.
\<close>

definition tick_bound :: u64 where
  "tick_bound = scast (2600 * 1000 * 1000 :: u32)"

record loop_data =
  running :: int
  table :: "u64 list"

datatype lpc = LTest nat | LTick nat u64 | LExit

fun loop_thread :: "bool \<Rightarrow> lpc \<times> loop_data \<Rightarrow> lpc control \<times> loop_data" where
  "loop_thread stop (LTest i, d) = (if running d \<noteq> 0 \<and> i < 1 then Goto (LTick (Suc i) 0) else Wait_Stop LExit, d)"
| "loop_thread stop (LTick i tick, d) =
    (if tick < tick_bound then (Goto (LTick i (tick + 1)),
        d\<lparr>table := (table d)[unat (tick mod 1000) := table d ! unat (tick mod 1000) + 1]\<rparr>)
     else (Goto (LTest i), d))"
| "loop_thread stop (LExit, d) = (Return, d)"

definition kthread_example5 :: "(lpc, loop_data, unit) kmodule" where
  "kthread_example5 = \<lparr>m_init = [Do (\<lambda>d. d\<lparr>running := 1\<rparr>), Kthread_run 0, Check 0],
    m_exit = [Do (\<lambda>d. d\<lparr>running := 0\<rparr>), Kthread_stop 0], m_entry = LTest 0,
    m_thread = (\<lambda>_. loop_thread), m_other = (\<lambda>_ _. None)\<rparr>"

section \<open>The contracts\<close>

lemma nr_threads_upt: "[0..<nr_threads] = [0, 1, 2, 3]"
  by (simp add: nr_threads_def upt_rec)

interpretation k0: stopping_module kthread_example kpc_released
  by unfold_locales (auto simp: kthread_example_def no_join_def dest: example_thread_released)

interpretation k1: stopping_module kthread_example1 kpc_released
  by unfold_locales (auto simp: kthread_example1_def finish_thread_def no_join_def dest: example_thread_released)

interpretation k2: stopping_module kthread_example2 kpc_released
  by unfold_locales (auto simp: kthread_example2_def finish_thread_def no_join_def dest: example_thread_released)

interpretation k3: stopping_module "kthread_example3 hz" kpc_released for hz
  by unfold_locales
    (auto simp: kthread_example3_def sem_thread_def down_def no_join_def nr_threads_upt dest: example_thread_released)

interpretation k0: stoppable_module kthread_example kpc_released data "kpc_rank 1" 8 for data
  by unfold_locales (use example_thread_rank [where tail = 1] in \<open>auto simp: kthread_example_def\<close>)

interpretation k1: stoppable_module kthread_example1 kpc_released data "kpc_rank 10" 17 for data
  by unfold_locales (use example_thread_rank [where tail = 10] in \<open>auto simp: kthread_example1_def finish_thread_def\<close>)

interpretation k2: stoppable_module kthread_example2 kpc_released data "kpc_rank 10" 17 for data
  by unfold_locales (use example_thread_rank [where tail = 10] in \<open>auto simp: kthread_example2_def finish_thread_def\<close>)

interpretation k3: stoppable_module "kthread_example3 hz" kpc_released data "kpc_rank 3" 10 for hz data
  by unfold_locales (use example_thread_rank [where tail = 3] in \<open>auto simp: kthread_example3_def sem_thread_def\<close>)

fun lpc_released :: "lpc \<Rightarrow> bool" where
  "lpc_released LExit = True"
| "lpc_released _ = False"

fun lpc_rank :: "lpc \<Rightarrow> nat" where
  "lpc_rank (LTest i) = (if i < 1 then 2 ^ 64 + 4 else 2)"
| "lpc_rank (LTick i tick) = (2 ^ 64 - unat tick) + (if i < 1 then 2 ^ 64 + 5 else 3)"
| "lpc_rank LExit = 0"

lemma unat_less_max: "unat (w :: u64) < 2 ^ 64"
  using unsigned_less [of w, where 'a = nat] by simp

lemma unat_tick_Suc: "tick < tick_bound \<Longrightarrow> unat (tick + 1) = Suc (unat tick)"
  using unsigned_less [of tick_bound, where 'a = nat] by (simp add: unat_plus_if' word_less_nat_alt unat_word_ariths)

lemma loop_thread_rank:
  assumes "loop_thread True (pc, d) = (Goto pc', d')"
  shows "lpc_rank pc' < lpc_rank pc"
proof (cases pc)
  case (LTick i tick)
  then show ?thesis
    using assms unat_less_max [of tick] unat_tick_Suc [of tick] unat_less_max [of "tick + 1"]
    by (cases "tick < tick_bound") auto
qed (use assms in \<open>auto split: if_splits\<close>)

lemma loop_thread_waits: "loop_thread True (pc, d) = (Wait_Stop pc', d') \<Longrightarrow> Suc (lpc_rank pc') < lpc_rank pc"
  by (cases pc) (auto split: if_splits)

lemma lpc_rank_bound: "lpc_rank pc + 2 < 2 ^ 66"
  by (cases pc) auto

lemma loop_thread_released:
  "loop_thread stop (pc, d) = (Goto pc', d') \<Longrightarrow> lpc_released pc' \<Longrightarrow> lpc_released pc"
  "loop_thread stop (pc, d) = (Return, d') \<Longrightarrow> lpc_released pc"
  by (cases pc; auto split: if_splits)+

interpretation k5: stopping_module kthread_example5 lpc_released
  by unfold_locales (auto simp: kthread_example5_def no_join_def dest: loop_thread_released)

interpretation k5: stoppable_module kthread_example5 lpc_released data lpc_rank "2 ^ 66" for data
  by unfold_locales (use loop_thread_rank loop_thread_waits lpc_rank_bound in \<open>auto simp: kthread_example5_def\<close>)

section \<open>A thread that cannot be started\<close>

text \<open>The init functions that wait for their thread then wait for ever.\<close>

definition waits_for_none :: "finish_ctx action list \<Rightarrow> (kpc, finish_ctx) ksys \<Rightarrow> bool" where
  "waits_for_none prog s \<longleftrightarrow> k_ptr s 0 = Task \<or> (k_phase s = Loading \<and> (\<forall>i. k_thread s i = Absent) \<and>
    (k_todo s = prog \<or> (\<exists>n \<in> {1, 2, 3}. k_todo s = drop n prog \<and> (n = 1 \<or> k_ptr s 0 = ErrPtr)) \<and> finished (k_data s) = 0))"

lemma waits_for_none_step:
  assumes "prog = [Do finish_ctx_init, Kthread_run 0, Check 0, Await P id]" "m_init M = prog" "\<And>d. finished d = 0 \<Longrightarrow> \<not> P d"
    and "\<And>e d. m_other M e d = None" "waits_for_none prog s" "k_next M l s = Some s'"
    and "k_ptr s 0 = Task \<Longrightarrow> k_ptr s' 0 = Task"
  shows "waits_for_none prog s'"
proof (cases "k_ptr s 0 = Task")
  case False
  show ?thesis
    using assms(6)
  proof (cases rule: k_next_cases)
    case (action ans a rest)
    then show ?thesis
      using assms(1,3,5) False by (cases ans) (auto simp: waits_for_none_def finish_ctx_init_def split: if_splits)
  qed (use assms(1,4,5) False in \<open>auto simp: waits_for_none_def\<close>)
qed (use assms(7) in \<open>simp add: waits_for_none_def\<close>)

lemma refused_hangs:
  assumes M: "stopping_module M kpc_released" and prog: "m_init M = [Do finish_ctx_init, Kthread_run 0, Check 0, Await P id]"
    and P: "\<And>d. finished d = 0 \<Longrightarrow> \<not> P d" and other: "\<And>e d. m_other M e d = None"
    and reach: "k_reach M d s" and ptr: "k_ptr s 0 = ErrPtr"
  shows "k_phase s = Loading"
proof -
  have "waits_for_none (m_init M) s \<and> kthread_inv M kpc_released s"
    using reach
  proof (induction rule: k_reach_induct)
    case start
    show ?case
      using stopping_module.inv_start [OF M] by (simp add: waits_for_none_def k_start_def)
  next
    case (step l s s')
    then show ?case
      using waits_for_none_step [OF prog refl P other _ step(2)] stopping_module.inv_step [OF M _ step(2)]
        stopping_module.ptr_keeps [OF M _ _ step(2), of 0] by simp
  qed
  then show ?thesis
    using ptr by (auto simp: waits_for_none_def)
qed

lemma refused_load_hangs:
  "k_reach kthread_example1 d s1 \<Longrightarrow> k_ptr s1 0 = ErrPtr \<Longrightarrow> k_phase s1 = Loading"
  "k_reach kthread_example2 d s2 \<Longrightarrow> k_ptr s2 0 = ErrPtr \<Longrightarrow> k_phase s2 = Loading"
  using refused_hangs [OF k1.stopping_module_axioms, of "\<lambda>d. \<not> finished d = 0" d s1]
    refused_hangs [OF k2.stopping_module_axioms, of "\<lambda>d. finished d = 1" d s2]
  by (simp_all add: kthread_example1_def kthread_example2_def)

section \<open>The computation of \<^verbatim>\<open>kthread_example5\<close>\<close>

lemma tick_bound_wraps: "unat tick_bound = 2 ^ 64 - 1694967296"
  by (simp add: tick_bound_def)

text \<open>Neither the flag nor \<^verbatim>\<open>kthread_stop\<close> ends the inner loop; it stays inside the table.\<close>

lemma loop_runs_on:
  assumes "n < unat tick_bound" "length (table d) = 1000"
  shows "\<exists>d'. loop_thread stop (LTick i (of_nat n), d) = (Goto (LTick i (of_nat (Suc n))), d') \<and>
    running d' = running d \<and> length (table d') = 1000" "unat ((of_nat n :: u64) mod 1000) < length (table d)"
proof -
  have "unat (of_nat n :: u64) = n"
    using assms(1) unat_less_max [of tick_bound] by simp
  then have "(of_nat n :: u64) < tick_bound"
    using assms(1) by (simp add: word_less_nat_alt)
  then show "\<exists>d'. loop_thread stop (LTick i (of_nat n), d) = (Goto (LTick i (of_nat (Suc n))), d') \<and>
      running d' = running d \<and> length (table d') = 1000"
    using assms(2) by (simp add: add.commute)
  show "unat ((of_nat n :: u64) mod 1000) < length (table d)"
    using assms(2) by (simp add: unat_mod)
qed

section \<open>A run\<close>

text \<open>Loading, the rounds of the thread, unloading.\<close>

definition demo_run :: "unit label list" where
  "demo_run = replicate 3 (Module Task) @ replicate 13 (Thread 0) @ replicate 4 (Module Task) @
    replicate 12 (Thread 0) @ replicate 2 (Module Task)"

lemma demo_unloads:
  "map_option (\<lambda>s. (k_phase s, k_thread s 0, k_stop s 0)) (k_run kthread_example2 demo_run (k_start kthread_example2 \<lparr>finished = 0\<rparr>)) =
    Some (Unloaded, Ended, True)"
  by (simp add: demo_run_def numeral_eq_Suc k_start_def kthread_example2_def finish_thread_def finish_ctx_init_def)

section \<open>A lost wakeup\<close>

text \<open>The thread has tested \<^verbatim>\<open>kthread_should_stop\<close> when \<^verbatim>\<open>kthread_stop\<close> wakes it, and sets its state after that.\<close>

definition lost_run :: "unit label list" where
  "lost_run = replicate 3 (Module Task) @ replicate 14 (Thread 0) @ replicate 4 (Module Task)"

lemma wakeup_lost: "\<exists>s. k_reach kthread_example1 \<lparr>finished = 0\<rparr> s \<and> k_stop s 0 \<and> missed s 0"
proof -
  have "map_option (\<lambda>s. (k_stop s 0, missed s 0)) (k_run kthread_example1 lost_run (k_start kthread_example1 \<lparr>finished = 0\<rparr>)) =
      Some (True, True)"
    by (simp add: lost_run_def numeral_eq_Suc k_start_def kthread_example1_def finish_thread_def finish_ctx_init_def missed_def)
  then show ?thesis
    unfolding k_reach_def by auto
qed

end
