(* ===== verification/Ping_Pong.thy ===== *)
theory Ping_Pong
  imports Kthread_Examples
begin

text \<open>
  The modules with a timer: \<^verbatim>\<open>kthread_example4_wait_event_pingpong\<close>, whose timer wakes a thread again and again, and
  \<^verbatim>\<open>timer_example\<close>, which has no thread.

  A timer is pending or not, and its callback runs or not, on another processor, step by step; it can set the
  timer again.  \<^verbatim>\<open>del_timer\<close> takes a pending timer off, and does nothing about a callback that is running.
\<close>

section \<open>Timers\<close>

datatype callback = CbCount | CbStamp | CbWake | CbMod | CbDel

record timer_data =
  tm_pending :: bool
  tm_callback :: "callback option"
  tm_cnt :: u64
  tm_seen :: bool

datatype timer_event = Fire | Callback | Counter u64

definition fire :: "'a timer_data_scheme \<Rightarrow> 'a timer_data_scheme option" where
  "fire d = (if tm_pending d \<and> tm_callback d = None then Some (d\<lparr>tm_pending := False, tm_callback := Some CbCount\<rparr>) else None)"

definition timer_init :: "'a timer_data_scheme action list" where
  "timer_init = [Do (\<lambda>d. d\<lparr>tm_cnt := 0\<rparr>), Do (\<lambda>d. d\<lparr>tm_pending := True\<rparr>)]"

text \<open>\<^verbatim>\<open>timer_example_exit\<close>: the test of \<^verbatim>\<open>timer_pending\<close>, then \<^verbatim>\<open>del_timer\<close>.\<close>

definition timer_exit :: "'a timer_data_scheme action list" where
  "timer_exit = [Do (\<lambda>d. d\<lparr>tm_seen := tm_pending d\<rparr>), Do (\<lambda>d. if tm_seen d then d\<lparr>tm_pending := False\<rparr> else d)]"

section \<open>\<^verbatim>\<open>timer_example\<close>\<close>

definition timer_expire :: "timer_data \<Rightarrow> timer_data option" where
  "timer_expire d = (case tm_callback d of
      Some CbCount \<Rightarrow> Some (d\<lparr>tm_cnt := tm_cnt d + 1, tm_callback := Some (if tm_cnt d + 1 = 10 then CbDel else CbMod)\<rparr>)
    | Some CbDel \<Rightarrow> Some (d\<lparr>tm_pending := False, tm_callback := None\<rparr>)
    | Some CbMod \<Rightarrow> Some (d\<lparr>tm_pending := True, tm_callback := None\<rparr>)
    | _ \<Rightarrow> None)"

fun timer_other :: "timer_event \<Rightarrow> timer_data \<Rightarrow> timer_data option" where
  "timer_other Fire d = fire d"
| "timer_other Callback d = timer_expire d"
| "timer_other (Counter n) d = None"

definition timer_example :: "(unit, timer_data, timer_event) kmodule" where
  "timer_example = \<lparr>m_init = timer_init, m_exit = timer_exit, m_entry = (), m_thread = (\<lambda>_ _ (pc, d). (Return, d)),
    m_other = timer_other\<rparr>"

section \<open>\<^verbatim>\<open>kthread_example4\<close>\<close>

record ping_data = timer_data +
  ping_running :: int
  waked :: int
  t0 :: u64
  t1 :: u64
  counter :: u64

definition simple_arm_clock :: "ping_data \<Rightarrow> u64" where "simple_arm_clock d = counter d * 10"

definition ping_ctx_init :: "ping_data \<Rightarrow> ping_data" where
  "ping_ctx_init d = d\<lparr>ping_running := 1, waked := 0\<rparr>"

datatype ping_pc = PTest | PWait | PClear | PStamp | PExit

fun ping_thread :: "bool \<Rightarrow> ping_pc \<times> ping_data \<Rightarrow> ping_pc control \<times> ping_data" where
  "ping_thread stop (PTest, d) = (if ping_running d \<noteq> 0 then Goto PWait else Wait_Stop PExit, d)"
| "ping_thread stop (PWait, d) = (Goto (if waked d = 1 then PClear else PWait), d)"
| "ping_thread stop (PClear, d) = (Goto PStamp, d\<lparr>waked := 0\<rparr>)"
| "ping_thread stop (PStamp, d) = (Goto PTest, d\<lparr>t1 := simple_arm_clock d\<rparr>)"
| "ping_thread stop (PExit, d) = (Return, d)"

definition ping_expire :: "ping_data \<Rightarrow> ping_data option" where
  "ping_expire d = (case tm_callback d of
      Some CbCount \<Rightarrow> Some (d\<lparr>tm_cnt := tm_cnt d + 1, tm_callback := Some CbStamp\<rparr>)
    | Some CbStamp \<Rightarrow> Some (d\<lparr>t0 := simple_arm_clock d, tm_callback := Some CbWake\<rparr>)
    | Some CbWake \<Rightarrow> Some (d\<lparr>waked := 1, tm_callback := Some CbMod\<rparr>)
    | Some CbMod \<Rightarrow> Some (d\<lparr>tm_pending := True, tm_callback := None\<rparr>)
    | _ \<Rightarrow> None)"

fun ping_other :: "timer_event \<Rightarrow> ping_data \<Rightarrow> ping_data option" where
  "ping_other Fire d = fire d"
| "ping_other Callback d = ping_expire d"
| "ping_other (Counter n) d = Some (d\<lparr>counter := n\<rparr>)"

definition kthread_example4 :: "(ping_pc, ping_data, timer_event) kmodule" where
  "kthread_example4 = \<lparr>m_init = [Do ping_ctx_init, Kthread_run 0, Check 0, Use 0] @ timer_init,
    m_exit = timer_exit @ [Do (\<lambda>d. d\<lparr>ping_running := 0\<rparr>), Do (\<lambda>d. d\<lparr>waked := 1\<rparr>), Kthread_stop 0],
    m_entry = PTest, m_thread = (\<lambda>_. ping_thread), m_other = ping_other\<rparr>"

section \<open>The thread is not left asleep\<close>

fun ping_released :: "ping_pc \<Rightarrow> bool" where
  "ping_released PExit = True"
| "ping_released _ = False"

fun ping_rank :: "ping_pc \<Rightarrow> nat" where
  "ping_rank PWait = 6"
| "ping_rank PClear = 5"
| "ping_rank PStamp = 4"
| "ping_rank PTest = 3"
| "ping_rank PExit = 0"

lemma ping_thread_released:
  "ping_thread stop (pc, d) = (Goto pc', d') \<Longrightarrow> ping_released pc' \<Longrightarrow> ping_released pc"
  "ping_thread stop (pc, d) = (Return, d') \<Longrightarrow> ping_released pc"
  by (cases pc; auto split: if_splits)+

interpretation k4: stopping_module kthread_example4 ping_released
  by unfold_locales
    (auto simp: kthread_example4_def timer_init_def timer_exit_def no_join_def dest: ping_thread_released)

text \<open>
  The exit function clears \<^verbatim>\<open>running\<close> before it sets \<^verbatim>\<open>waked\<close>, and the thread clears \<^verbatim>\<open>waked\<close> before it tests \<^verbatim>\<open>running\<close>:
  a thread that is told to stop does not sleep in \<^verbatim>\<open>wait_event\<close>.
\<close>

definition awake :: "(ping_pc, ping_data) ksys \<Rightarrow> bool" where
  "awake s \<longleftrightarrow> ping_running (k_data s) = 0 \<and> (k_thread s 0 = At PWait \<longrightarrow> waked (k_data s) = 1)"

definition ping_inv :: "(ping_pc, ping_data) ksys \<Rightarrow> bool" where
  "ping_inv s \<longleftrightarrow> (k_stop s 0 \<longrightarrow> awake s) \<and> (\<forall>i. i \<noteq> 0 \<longrightarrow> k_thread s i = Absent) \<and>
    (\<forall>p pc. k_thread s 0 = Stopping p pc \<longrightarrow> pc = PExit) \<and>
    (k_phase s = Loading \<longrightarrow> \<not> k_stop s 0 \<and> (\<exists>n. k_todo s = drop n (m_init kthread_example4))) \<and>
    (k_phase s = Loaded \<longrightarrow> \<not> k_stop s 0) \<and>
    (k_phase s = Unloading \<longrightarrow> k_todo s = [Join 0] \<and> awake s \<or>
      (\<exists>n \<le> 5. k_todo s = drop n (m_exit kthread_example4) \<and> (3 \<le> n \<longrightarrow> ping_running (k_data s) = 0) \<and> (4 \<le> n \<longrightarrow> awake s)))"

lemma ping_other_awake:
  assumes "ping_other e d = Some d'"
  shows "ping_running d' = ping_running d" "waked d = 1 \<Longrightarrow> waked d' = 1"
  using assms by (cases e; auto simp: fire_def ping_expire_def split: option.splits callback.splits if_splits)+

lemma ping_thread_awake:
  assumes "ping_thread stop (pc, d) = (r, d')"
  shows "ping_running d' = ping_running d" "ping_running d = 0 \<Longrightarrow> (pc = PWait \<longrightarrow> waked d = 1) \<Longrightarrow> r \<noteq> Goto PWait"
    "r = Wait_Stop q \<Longrightarrow> q = PExit"
  using assms by (cases pc; auto split: if_splits)+

lemmas ping_lists = kthread_example4_def timer_init_def timer_exit_def

lemma ping_inv_loading:
  assumes inv: "ping_inv s" and load: "k_phase s = Loading" and todo: "k_todo s = a # rest"
    and ex: "k_exec kthread_example4 ans a (s\<lparr>k_todo := rest\<rparr>) = Some s'"
  shows "ping_inv s'"
proof -
  obtain n where n: "k_todo s = drop n (m_init kthread_example4)" and stop: "\<not> k_stop s 0"
    using inv load by (auto simp: ping_inv_def)
  have rest: "rest = drop (Suc n) (m_init kthread_example4)"
    using n todo by (metis drop_Suc list.sel(3) tl_drop)
  have "a \<in> set (m_init kthread_example4)"
    using n todo by (metis in_set_dropD list.set_intros(1))
  then have kinds: "a \<noteq> Kthread_stop i" "a \<noteq> Join i" "a = Kthread_run i \<Longrightarrow> i = 0" for i
    by (auto simp: ping_lists)
  have "k_stop s' = k_stop s" "k_phase s' = Loading \<and> k_todo s' = rest \<or> k_phase s' \<in> {Load_Failed, Crashed}"
    using ex kinds load by (cases a; auto split: if_splits)+
  moreover have old: "k_thread s i = Absent" if "i \<noteq> 0" for i
    using inv that by (simp add: ping_inv_def)
  moreover have "k_thread s' i = Absent" if "i \<noteq> 0" for i
    using ex kinds(3) that old [OF that] by (cases a) (auto split: if_splits)
  moreover have same: "k_thread s 0 = Stopping p pc \<Longrightarrow> pc = PExit" for p pc
    using inv by (simp add: ping_inv_def)
  moreover have "k_thread s' 0 = Stopping p pc \<Longrightarrow> pc = PExit" for p pc
    using ex kinds(3) same [of p pc] by (cases a) (auto split: if_splits)
  ultimately show ?thesis
    using stop rest unfolding ping_inv_def by auto
qed

lemma ping_exit_lists:
  "drop 0 (m_exit kthread_example4) = m_exit kthread_example4"
  "m_exit kthread_example4 = [Do (\<lambda>d. d\<lparr>tm_seen := tm_pending d\<rparr>), Do (\<lambda>d. if tm_seen d then d\<lparr>tm_pending := False\<rparr> else d),
    Do (\<lambda>d. d\<lparr>ping_running := 0\<rparr>), Do (\<lambda>d. d\<lparr>waked := 1\<rparr>), Kthread_stop 0]"
  by (simp_all add: ping_lists)

lemma ping_inv_unloading:
  assumes inv: "ping_inv s" and unload: "k_phase s = Unloading" and todo: "k_todo s = a # rest"
    and ex: "k_exec kthread_example4 ans a (s\<lparr>k_todo := rest\<rparr>) = Some s'"
  shows "ping_inv s'"
proof (cases "k_todo s = [Join 0]")
  case True
  then have "s' = s\<lparr>k_todo := []\<rparr>" "k_thread s 0 = Ended"
    using todo ex by (auto split: if_splits)
  moreover have "awake s"
    using inv unload True by (auto simp: ping_inv_def ping_exit_lists numeral_eq_Suc le_Suc_eq)
  ultimately show ?thesis
    using inv unload by (auto simp: ping_inv_def awake_def ping_exit_lists intro!: exI [of _ 5])
next
  case False
  then obtain n where n: "n \<le> 5" "k_todo s = drop n (m_exit kthread_example4)"
    and run: "3 \<le> n \<Longrightarrow> ping_running (k_data s) = 0" and aw: "4 \<le> n \<Longrightarrow> awake s"
    using inv unload by (auto simp: ping_inv_def)
  consider "n = 0" | "n = 1" | "n = 2" | "n = 3" | "n = 4" | "n = 5"
    using n(1) by linarith
  then show ?thesis
  proof cases
    case 1
    then have "s' = s\<lparr>k_todo := drop 1 (m_exit kthread_example4), k_data := (k_data s)\<lparr>tm_seen := tm_pending (k_data s)\<rparr>\<rparr>"
      using n todo ex by (auto simp: ping_exit_lists)
    then show ?thesis
      using inv unload by (auto simp: ping_inv_def awake_def intro: exI [of _ 1])
  next
    case 2
    then have "s' = s\<lparr>k_todo := drop 2 (m_exit kthread_example4),
        k_data := (if tm_seen (k_data s) then (k_data s)\<lparr>tm_pending := False\<rparr> else k_data s)\<rparr>"
      using n todo ex by (auto simp: ping_exit_lists)
    then show ?thesis
      using inv unload by (auto simp: ping_inv_def awake_def intro: exI [of _ 2])
  next
    case 3
    then have "s' = s\<lparr>k_todo := drop 3 (m_exit kthread_example4), k_data := (k_data s)\<lparr>ping_running := 0\<rparr>\<rparr>"
      using n todo ex by (auto simp: ping_exit_lists)
    then show ?thesis
      using inv unload by (auto simp: ping_inv_def awake_def intro: exI [of _ 3])
  next
    case 4
    then have "s' = s\<lparr>k_todo := drop 4 (m_exit kthread_example4), k_data := (k_data s)\<lparr>waked := 1\<rparr>\<rparr>"
      using n todo ex by (auto simp: ping_exit_lists)
    then show ?thesis
      using inv unload run [of] 4 by (auto simp: ping_inv_def awake_def intro: exI [of _ 4])
  next
    case 5
    then have "a = Kthread_stop 0" "rest = []" "awake s"
      using n todo aw by (auto simp: ping_exit_lists)
    then show ?thesis
      using inv unload ex by (auto simp: ping_inv_def awake_def split: if_splits)
  next
    case 6
    then show ?thesis
      using n todo by (simp add: ping_exit_lists)
  qed
qed

lemma ping_inv_step:
  assumes inv: "ping_inv s" and k: "kthread_inv kthread_example4 ping_released s" and run: "k_next kthread_example4 l s = Some s'"
  shows "ping_inv s'"
  using run
proof (cases rule: k_next_cases)
  case (action ans a rest)
  then have "k_phase s \<noteq> Crashed" "k_phase s \<noteq> Loaded" "k_phase s \<noteq> Unloaded" "k_phase s \<noteq> Load_Failed"
    using kthread_invD(2,3) [OF k] by auto
  then consider "k_phase s = Loading" | "k_phase s = Unloading"
    by (cases "k_phase s") auto
  then show ?thesis
    by cases (rule ping_inv_loading [OF inv _ action] ping_inv_unloading [OF inv _ action]; assumption)+
next
  case (thread_step i pc r d)
  have i: "i = 0"
    using inv thread_step(2) by (cases "i = 0") (auto simp: ping_inv_def)
  have keep: "ping_running d = ping_running (k_data s)"
      "ping_running (k_data s) = 0 \<Longrightarrow> (pc = PWait \<longrightarrow> waked (k_data s) = 1) \<Longrightarrow> r \<noteq> Goto PWait" "r = Wait_Stop q \<Longrightarrow> q = PExit" for q
    using ping_thread_awake [of "k_stop s 0" pc "k_data s" r d] thread_step(3) i by (simp_all add: kthread_example4_def)
  have "awake s'" if "awake s"
    using that thread_step(2,4) i keep(1,2) by (cases r) (auto simp: awake_def)
  moreover have "pc' = PExit" if "k_thread s' 0 = Stopping p pc'" for p pc'
    using that thread_step(4) i keep(3) by (cases r) auto
  ultimately show ?thesis
    using inv thread_step(4) i keep(1) by (auto simp: ping_inv_def)
next
  case (waiting i p pc r idle)
  have i: "i = 0" and pc: "pc = PExit"
    using inv waiting(2) by (cases "i = 0"; auto simp: ping_inv_def)+
  have "awake s'" if "awake s"
    using that waiting(4) i pc by (cases r) (auto simp: awake_def)
  moreover have "pc' = PExit" if "k_thread s' 0 = Stopping p pc'" for p pc'
    using that waiting(4) i pc by (cases r) auto
  ultimately show ?thesis
    using inv waiting(4) i by (auto simp: ping_inv_def)
next
  case (other e d)
  then have o: "ping_other e (k_data s) = Some d"
    by (simp add: kthread_example4_def)
  have "awake s'" if "awake s"
    using that other(2) ping_other_awake [OF o] by (auto simp: awake_def)
  then show ?thesis
    using inv other(2) ping_other_awake(1) [OF o] by (auto simp: ping_inv_def)
qed (use inv in \<open>auto simp: ping_inv_def awake_def intro: exI [of _ 0]\<close>)

lemma ping_inv_reach: "k_reach kthread_example4 d s \<Longrightarrow> ping_inv s \<and> kthread_inv kthread_example4 ping_released s"
proof (induction rule: k_reach_induct)
  case start
  have "ping_inv (k_start kthread_example4 d)"
    by (auto simp: ping_inv_def k_start_def intro: exI [of _ 0])
  then show ?case
    using k4.inv_start by blast
next
  case (step l s s')
  then show ?case
    using ping_inv_step k4.inv_step by blast
qed

interpretation k4: stoppable_module kthread_example4 ping_released d ping_rank 9 for d
proof
  show "ping_rank pc' < ping_rank pc"
    if "k_reach kthread_example4 d s" "k_stop s i" "k_thread s i = At pc"
      "m_thread kthread_example4 i True (pc, k_data s) = (Goto pc', d')" for s i pc pc' d'
  proof -
    have inv: "ping_inv s"
      using ping_inv_reach [OF that(1)] ..
    then have "i = 0"
      using that(3) by (cases "i = 0") (simp_all add: ping_inv_def)
    moreover from this have "awake s"
      using inv that(2) by (simp add: ping_inv_def)
    ultimately show ?thesis
      using that(3,4) by (cases pc) (auto simp: kthread_example4_def awake_def split: if_splits)
  qed
  show "ping_rank pc' + 1 < ping_rank pc" if "m_thread kthread_example4 i True (pc, d) = (Wait_Stop pc', d')" for i pc d pc' d'
    using that by (cases pc) (auto simp: kthread_example4_def split: if_splits)
  show "ping_rank pc + 2 < 9" for pc
    by (cases pc) auto
qed

section \<open>What the modules promise\<close>

text \<open>C39: the thread modules never stop a thread that may be gone, and their threads end unless the wakeup is lost.
  In every state that \<^verbatim>\<open>kthread_example\<close>, \<^verbatim>\<open>kthread_example1\<close> to \<^verbatim>\<open>5\<close> reach, under any interleaving, no thread has
  ended that was not told to stop; \<^verbatim>\<open>kthread_stop\<close> is given a live thread, unless \<^verbatim>\<open>kthread_run\<close> had answered an
  error, which the test for null misses and the module crashes on; and an unloaded module has no thread left.  A
  thread that is told to stop takes a bounded number of steps more and is never stuck, but for one case, which does
  occur: \<^verbatim>\<open>wait_for_kthread_stop\<close> tests the flag before it sets its state, so a wakeup in between is lost, the thread
  sleeps for ever, and the module is never unloaded.\<close>

theorem kthread_modules_stop:
  assumes "k_reach kthread_example u s0" "k_reach kthread_example1 d1 s1" "k_reach kthread_example2 d2 s2"
    and "k_reach (kthread_example3 hz) d3 s3" "k_reach kthread_example4 d4 s4" "k_reach kthread_example5 d5 s5"
  shows "threads_safe s0 \<and> threads_safe s1 \<and> threads_safe s2 \<and> threads_safe s3 \<and> threads_safe s4 \<and>
    threads_safe s5 \<and>
    stops_within kthread_example 8 s0 \<and> stops_within kthread_example1 17 s1 \<and> stops_within kthread_example2 17 s2 \<and>
    stops_within (kthread_example3 hz) 10 s3 \<and> stops_within kthread_example4 9 s4 \<and>
    stops_within kthread_example5 (2 ^ 66) s5 \<and> (\<exists>s. k_reach kthread_example1 \<lparr>finished = 0\<rparr> s \<and> k_stop s 0 \<and> missed s 0)"
  by (intro conjI wakeup_lost k0.safe [OF assms(1)] k1.safe [OF assms(2)] k2.safe [OF assms(3)] k3.safe [OF assms(4)]
      k4.safe [OF assms(5)] k5.safe [OF assms(6)] k0.stops [OF assms(1)] k1.stops [OF assms(2)] k2.stops [OF assms(3)]
      k3.stops [OF assms(4)] k4.stops [OF assms(5)] k5.stops [OF assms(6)])

text \<open>The fourth module uses the result of \<^verbatim>\<open>kthread_run\<close> at once.\<close>

lemma refused_load_crashes:
  assumes "k_todo s = Use 0 # rest" "k_phase s = Loading" "k_ptr s 0 = ErrPtr" "k_next kthread_example4 (Module ans) s = Some s'"
  shows "k_phase s' = Crashed"
  using assms by auto

section \<open>Timers and unloading\<close>

definition timer_off :: "'a timer_data_scheme \<Rightarrow> bool" where
  "timer_off d \<longleftrightarrow> \<not> tm_pending d \<and> tm_callback d = None"

fun keeps_off :: "'a timer_data_scheme action \<Rightarrow> bool" where
  "keeps_off (Do f) \<longleftrightarrow> (\<forall>d. timer_off d \<longrightarrow> timer_off (f d))"
| "keeps_off (Await P f) \<longleftrightarrow> (\<forall>d. timer_off d \<longrightarrow> timer_off (f d))"
| "keeps_off _ \<longleftrightarrow> True"

lemma timer_stays_off:
  assumes other: "\<And>e d d'. m_other M e d = Some d' \<Longrightarrow> timer_off d \<Longrightarrow> timer_off d'"
    and thread: "\<And>i stop pc d r d'. m_thread M i stop (pc, d) = (r, d') \<Longrightarrow> timer_off d \<Longrightarrow> timer_off d'"
    and run: "k_run M ls s = Some s'"
    and start: "timer_off (k_data s)" "\<forall>a \<in> set (k_todo s). keeps_off a" "k_phase s \<notin> {Loading, Loaded}"
  shows "timer_off (k_data s')"
proof -
  have "timer_off (k_data s') \<and> (\<forall>a \<in> set (k_todo s'). keeps_off a) \<and> k_phase s' \<notin> {Loading, Loaded}"
    using run
  proof (induction rule: k_run_induct)
    case start
    show ?case
      using assms(4-6) by simp
  next
    case (step l s s')
    from step(2) show ?case
    proof (cases rule: k_next_cases)
      case (action ans a rest)
      then show ?thesis
        using step(1) by (cases a) (auto split: if_splits)
    next
      case (thread_step i pc r d)
      then show ?thesis
        using step(1) thread [OF thread_step(3)] by simp
    next
      case (other e d)
      then show ?thesis
        using step(1) assms(1) by simp
    qed (use step(1) in auto)
  qed
  then show ?thesis ..
qed

definition timer_zero :: timer_data where
  "timer_zero = \<lparr>tm_pending = False, tm_callback = None, tm_cnt = 0, tm_seen = False\<rparr>"

definition ping_zero :: ping_data where
  "ping_zero = \<lparr>tm_pending = False, tm_callback = None, tm_cnt = 0, tm_seen = False, ping_running = 0, waked = 0,
    t0 = 0, t1 = 0, counter = 0\<rparr>"

text \<open>The callback is running when \<^verbatim>\<open>timer_pending\<close> is asked, and sets the timer again afterwards.\<close>

definition timer_race :: "timer_event label list" where
  "timer_race = replicate 3 (Module Task) @ [Other Fire] @ replicate 4 (Module Task) @ replicate 2 (Other Callback)"

definition ping_race :: "timer_event label list" where
  "ping_race = replicate 7 (Module Task) @ [Other Fire] @ replicate 6 (Module Task) @ replicate 3 (Thread 0) @
    replicate 2 (Module Task) @ replicate 4 (Other Callback)"

lemma replicate_simps:
  "replicate 2 x = [x, x]" "replicate 3 x = [x, x, x]" "replicate 4 x = [x, x, x, x]"
  "replicate 6 x = [x, x, x, x, x, x]" "replicate 7 x = [x, x, x, x, x, x, x]"
  by (simp_all add: numeral_eq_Suc)

lemma timer_race_run:
  "map_option (\<lambda>s. (k_phase s, tm_pending (k_data s))) (k_run timer_example timer_race (k_start timer_example timer_zero)) =
    Some (Unloaded, True)"
  by (simp add: timer_race_def replicate_simps k_start_def timer_example_def timer_init_def timer_exit_def timer_zero_def
      fire_def timer_expire_def)

lemma ping_race_run:
  "map_option (\<lambda>s. (k_phase s, tm_pending (k_data s))) (k_run kthread_example4 ping_race (k_start kthread_example4 ping_zero)) =
    Some (Unloaded, True)"
  by (simp add: ping_race_def replicate_simps k_start_def kthread_example4_def timer_init_def timer_exit_def ping_zero_def
      fire_def ping_expire_def ping_ctx_init_def)

text \<open>The two steps of \<^verbatim>\<open>timer_example_exit\<close>, with no step of the timer around them.\<close>

lemma timer_exit_off:
  assumes "k_phase s = Unloading" "k_todo s = timer_exit @ rest" "tm_callback (k_data s) = None"
    and "k_run M (Module a # Module b # ls) s = Some s'"
  obtains s1 where "k_run M ls s1 = Some s'" "timer_off (k_data s1)" "k_todo s1 = rest" "k_phase s1 = Unloading"
  using assms by (auto simp: timer_exit_def timer_off_def)

text \<open>C40: a timer can outlive its module, and only because its callback runs while the module is unloaded.  Both
  modules with a timer reach a state in which they are unloaded and the timer is pending, so that it
  will call code that is gone: \<^verbatim>\<open>timer_example_exit\<close> uses \<^verbatim>\<open>del_timer\<close>, which does not wait for a callback, and the
  callback sets the timer again.  If the callback is not running while the two steps of \<^verbatim>\<open>timer_example_exit\<close> are
  made, the timer is off from then on, whatever else happens.\<close>

theorem timers_outlive_modules:
  "(\<exists>s. k_reach timer_example timer_zero s \<and> k_phase s = Unloaded \<and> tm_pending (k_data s)) \<and>
   (\<exists>s. k_reach kthread_example4 ping_zero s \<and> k_phase s = Unloaded \<and> tm_pending (k_data s)) \<and>
   (\<forall>s a b ls s'. k_phase s = Unloading \<longrightarrow> k_todo s = m_exit timer_example \<longrightarrow> tm_callback (k_data s) = None \<longrightarrow>
     k_run timer_example (Module a # Module b # ls) s = Some s' \<longrightarrow> timer_off (k_data s')) \<and>
   (\<forall>s a b ls s'. k_phase s = Unloading \<longrightarrow> k_todo s = m_exit kthread_example4 \<longrightarrow> tm_callback (k_data s) = None \<longrightarrow>
     k_run kthread_example4 (Module a # Module b # ls) s = Some s' \<longrightarrow> timer_off (k_data s'))"
proof (intro conjI allI impI)
  show "\<exists>s. k_reach timer_example timer_zero s \<and> k_phase s = Unloaded \<and> tm_pending (k_data s)"
    using timer_race_run unfolding k_reach_def by auto
  show "\<exists>s. k_reach kthread_example4 ping_zero s \<and> k_phase s = Unloaded \<and> tm_pending (k_data s)"
    using ping_race_run unfolding k_reach_def by auto
next
  fix s a b ls s'
  assume s: "k_phase s = Unloading" "k_todo s = m_exit timer_example" "tm_callback (k_data s) = None"
    "k_run timer_example (Module a # Module b # ls) s = Some s'"
  have "k_todo s = timer_exit @ []"
    using s(2) by (simp add: timer_example_def)
  from timer_exit_off [OF s(1) this s(3,4)] obtain s1 where
    s1: "k_run timer_example ls s1 = Some s'" "timer_off (k_data s1)" "k_todo s1 = []" "k_phase s1 = Unloading" .
  have other: "timer_off d'" if "m_other timer_example e d = Some d'" "timer_off d" for e d d'
    using that by (cases e) (auto simp: timer_example_def timer_off_def fire_def timer_expire_def split: if_splits)
  have thread: "timer_off d'" if "m_thread timer_example i stop (pc, d) = (r, d')" "timer_off d" for i stop pc d r d'
    using that by (simp add: timer_example_def)
  show "timer_off (k_data s')"
    by (rule timer_stays_off [OF other thread s1(1,2)]) (simp_all add: s1)
next
  fix s a b ls s'
  assume s: "k_phase s = Unloading" "k_todo s = m_exit kthread_example4" "tm_callback (k_data s) = None"
    "k_run kthread_example4 (Module a # Module b # ls) s = Some s'"
  let ?rest = "[Do (\<lambda>d. d\<lparr>ping_running := 0\<rparr>), Do (\<lambda>d. d\<lparr>waked := 1\<rparr>), Kthread_stop 0]"
  have "k_todo s = timer_exit @ ?rest"
    using s(2) by (simp add: kthread_example4_def)
  from timer_exit_off [OF s(1) this s(3,4)] obtain s1 where
    s1: "k_run kthread_example4 ls s1 = Some s'" "timer_off (k_data s1)" "k_todo s1 = ?rest" "k_phase s1 = Unloading" .
  have other: "timer_off d'" if "m_other kthread_example4 e d = Some d'" "timer_off d" for e d d'
    using that by (cases e) (auto simp: kthread_example4_def timer_off_def fire_def ping_expire_def split: if_splits)
  have thread: "timer_off d'" if "m_thread kthread_example4 i stop (pc, d) = (r, d')" "timer_off d" for i stop pc d r d'
    using that by (cases pc) (auto simp: kthread_example4_def timer_off_def)
  show "timer_off (k_data s')"
    by (rule timer_stays_off [OF other thread s1(1,2)]) (simp_all add: s1 timer_off_def)
qed

text \<open>\<^verbatim>\<open>timer_example\<close> counts to ten, then its timer stays off.\<close>

definition ten_ok :: "timer_data \<Rightarrow> bool" where
  "ten_ok d \<longleftrightarrow> unat (tm_cnt d) \<le> 10 \<and> (tm_cnt d = 10 \<longrightarrow> \<not> tm_pending d \<and> tm_callback d \<in> {None, Some CbDel}) \<and>
    tm_callback d \<notin> {Some CbStamp, Some CbWake} \<and> (tm_callback d \<noteq> None \<longrightarrow> \<not> tm_pending d)"

lemma ten_ok_other:
  assumes run: "timer_other e d = Some d'" and ok: "ten_ok d"
  shows "ten_ok d'" "\<not> timer_off d"
proof -
  have more: "unat (tm_cnt d + 1) = Suc (unat (tm_cnt d))"
    using ok by (simp add: ten_ok_def unat_word_ariths)
  have ten: "unat (tm_cnt d) = 10 \<longleftrightarrow> tm_cnt d = 10"
    by (simp add: word_unat_eq_iff)
  have "ten_ok d' \<and> \<not> timer_off d"
  proof (cases e)
    case Fire
    then show ?thesis
      using run ok by (auto simp: fire_def ten_ok_def timer_off_def split: if_splits)
  next
    case Callback
    then obtain cb where cb: "tm_callback d = Some cb"
      using run by (cases "tm_callback d") (simp_all add: timer_expire_def)
    show ?thesis
    proof (cases cb)
      case CbCount
      then have "tm_cnt d \<noteq> 10"
        using ok cb by (auto simp: ten_ok_def)
      then have "Suc (unat (tm_cnt d)) \<le> 10"
        using ok ten by (simp add: ten_ok_def)
      then show ?thesis
        using run Callback cb CbCount ok more by (auto simp: timer_expire_def ten_ok_def timer_off_def split: if_splits)
    qed (use run Callback cb ok in \<open>auto simp: timer_expire_def ten_ok_def timer_off_def\<close>)
  qed (use run in simp)
  then show "ten_ok d'" "\<not> timer_off d"
    by simp_all
qed

definition ten_inv :: "(unit, timer_data) ksys \<Rightarrow> bool" where
  "ten_inv s \<longleftrightarrow> ten_ok (k_data s) \<and>
    (k_phase s = Loading \<and> (k_todo s = timer_init \<or> k_todo s = drop 1 timer_init) \<and> timer_off (k_data s) \<and> tm_cnt (k_data s) = 0 \<or>
      (\<exists>n. k_todo s = drop n timer_exit))"

lemma ten_inv_reach: "k_reach timer_example timer_zero s \<Longrightarrow> ten_inv s"
proof (induction rule: k_reach_induct)
  case start
  show ?case
    by (simp add: ten_inv_def ten_ok_def k_start_def timer_example_def timer_zero_def timer_off_def)
next
  case (step l s s')
  show ?case
    using step(2)
  proof (cases rule: k_next_cases)
    case (action ans a rest)
    consider "k_todo s = timer_init" "k_phase s = Loading" "timer_off (k_data s)"
      | "k_todo s = drop 1 timer_init" "k_phase s = Loading" "timer_off (k_data s)" "tm_cnt (k_data s) = 0"
      | n where "k_todo s = drop n timer_exit"
      using step(1) unfolding ten_inv_def by blast
    then show ?thesis
    proof cases
      case 3
      then have "n = 0 \<or> n = 1"
        using action(1) by (cases n; cases "n - 1") (auto simp: timer_exit_def)
      then have "rest = drop (Suc n) timer_exit" "k_data s' = (k_data s)\<lparr>tm_seen := tm_pending (k_data s)\<rparr> \<or>
          k_data s' = k_data s \<or> k_data s' = (k_data s)\<lparr>tm_pending := False\<rparr>" "k_phase s' = k_phase s" "k_todo s' = rest"
        using action 3 by (auto simp: timer_exit_def split: if_splits)
      then show ?thesis
        using step(1) by (auto simp: ten_inv_def ten_ok_def)
    next
      case 1
      then have "s' = s\<lparr>k_todo := drop 1 timer_init, k_data := (k_data s)\<lparr>tm_cnt := 0\<rparr>\<rparr>"
        using action by (auto simp: timer_init_def)
      then show ?thesis
        using 1 by (simp add: ten_inv_def ten_ok_def timer_off_def)
    next
      case 2
      then have "s' = s\<lparr>k_todo := drop 2 timer_exit, k_data := (k_data s)\<lparr>tm_pending := True\<rparr>\<rparr>"
        using action by (auto simp: timer_init_def timer_exit_def)
      then show ?thesis
        using 2 by (auto simp: ten_inv_def ten_ok_def timer_off_def)
    qed
  next
    case (thread_step i pc r d)
    then show ?thesis
      using step(1) by (auto simp: ten_inv_def timer_example_def)
  next
    case (other e d)
    then have o: "timer_other e (k_data s) = Some d"
      by (simp add: timer_example_def)
    show ?thesis
      using ten_ok_other [OF o] step(1) other(2) by (auto simp: ten_inv_def)
  qed (use step(1) in \<open>auto simp: ten_inv_def timer_example_def intro: exI [of _ 0] exI [of _ 2]\<close>)
qed

lemma timer_fires_ten_times:
  assumes "k_reach timer_example timer_zero s"
  shows "unat (tm_cnt (k_data s)) \<le> 10" "tm_cnt (k_data s) = 10 \<Longrightarrow> \<not> tm_pending (k_data s)"
  using ten_inv_reach [OF assms] by (simp_all add: ten_inv_def ten_ok_def)

section \<open>Runs\<close>

lemma kthread_modules_stop_witness:
  "\<exists>s. k_reach kthread_example2 \<lparr>finished = 0\<rparr> s \<and> k_phase s = Unloaded \<and> k_thread s 0 = Ended \<and> threads_safe s \<and>
    stops_within kthread_example2 17 s"
proof -
  obtain s where s: "k_run kthread_example2 demo_run (k_start kthread_example2 \<lparr>finished = 0\<rparr>) = Some s"
      "k_phase s = Unloaded" "k_thread s 0 = Ended"
    using demo_unloads by auto
  then have r: "k_reach kthread_example2 \<lparr>finished = 0\<rparr> s"
    unfolding k_reach_def by blast
  have start: "k_reach M d (k_start M d)" for M :: "('pc, 's, 'e) kmodule" and d
    unfolding k_reach_def by (rule exI [of _ "[]"]) simp
  show ?thesis
    using kthread_modules_stop [OF start [of kthread_example "()"] start [of kthread_example1 "\<lparr>finished = 0\<rparr>"] r
        start [of "kthread_example3 250" "\<lparr>sem_exit = 0, sem_ctxs = (\<lambda>_. \<lparr>sc_id = 0, sc_start = 0, sc_end = 0\<rparr>),
          jiffies = 0, durations = []\<rparr>"] start [of kthread_example4 ping_zero] start [of kthread_example5 "\<lparr>running = 0, table = replicate 1000 0\<rparr>"]] r s(2,3)
    by blast
qed

lemma timers_outlive_modules_witness:
  "\<exists>s s'. k_reach timer_example timer_zero s \<and> tm_pending (k_data s) \<and>
    k_run timer_example [Module Task, Module Task, Module Task] s = Some s' \<and> k_phase s' = Unloaded \<and> timer_off (k_data s')"
proof -
  let ?s = "\<lparr>k_phase = Unloading, k_todo = m_exit timer_example, k_ptr = (\<lambda>_. Null), k_thread = (\<lambda>_. Absent),
    k_stop = (\<lambda>_. False), k_idle = (\<lambda>_. False), k_data = timer_zero\<lparr>tm_pending := True\<rparr>\<rparr>"
  have "k_run timer_example (replicate 4 (Module Task)) (k_start timer_example timer_zero) = Some ?s"
    by (simp add: replicate_simps k_start_def timer_example_def timer_init_def timer_zero_def)
  then have reach: "k_reach timer_example timer_zero ?s"
    unfolding k_reach_def by blast
  have "map_option k_phase (k_run timer_example [Module Task, Module Task, Module Task] ?s) = Some Unloaded"
    by (simp add: timer_example_def timer_exit_def timer_zero_def)
  then obtain s' where s': "k_run timer_example [Module Task, Module Task, Module Task] ?s = Some s'" "k_phase s' = Unloaded"
    by auto
  have "timer_off (k_data s')"
    using timers_outlive_modules [THEN conjunct2, THEN conjunct2, THEN conjunct1, THEN spec, THEN spec, THEN spec, THEN spec,
        THEN spec, THEN mp, THEN mp, THEN mp, THEN mp, OF _ _ _ s'(1)] by (simp add: timer_zero_def)
  then show ?thesis
    using reach s' by (intro exI [of _ ?s] exI [of _ s']) (simp add: timer_zero_def)
qed

end
