(* ===== verification/Queue_Contract.thy ===== *)
theory Queue_Contract
  imports Prelude "HOL-Library.Multiset" "HOL-Library.Sublist"
begin

text \<open>
  Producers and consumers on a blocking queue, as the programs under \<^verbatim>\<open>cpp/thread\<close>, \<^verbatim>\<open>c/thread\<close> and
  \<^verbatim>\<open>c/process\<close> set them up: each producer puts its items and a stop item after them, each consumer takes
  items until it gets a stop item.

  The first part is the abstract specification: the queue is a list and \<^verbatim>\<open>put\<close> and \<^verbatim>\<open>take\<close> are atomic.  Its
  theorems (nothing lost or invented, order, no deadlock, an end) are proved once, here.  The second part
  is the step relation of threads that interleave at their system calls, and the contract
  \<open>blocking_queue\<close> under which such a program inherits the theorems.
\<close>

section \<open>Counting threads\<close>

definition tally :: "('t \<Rightarrow> bool) \<Rightarrow> 't list \<Rightarrow> nat" where
  "tally P ts = length (filter P ts)"

lemma tally_Nil [simp]: "tally P [] = 0" and tally_Cons [simp]: "tally P (t # ts) = of_bool (P t) + tally P ts"
  by (simp_all add: tally_def)

lemma tally_update: "i < length ts \<Longrightarrow> tally P (ts[i := t]) + of_bool (P (ts ! i)) = tally P ts + of_bool (P t)"
proof (induction ts arbitrary: i)
  case (Cons a ts)
  then show ?case by (cases i) auto
qed simp

lemma tally_pos: "i < length ts \<Longrightarrow> P (ts ! i) \<Longrightarrow> 0 < tally P ts"
  by (metis filter_empty_conv length_greater_0_conv nth_mem tally_def)

lemma tally_zero: "tally P ts = 0 \<longleftrightarrow> (\<forall>i < length ts. \<not> P (ts ! i))"
  by (simp add: tally_def filter_empty_conv all_set_conv_all_nth)

lemma tally_zero_set: "tally P ts = 0 \<longleftrightarrow> (\<forall>t \<in> set ts. \<not> P t)"
  by (simp add: tally_def filter_empty_conv)

lemma tally_le_length: "tally P ts \<le> length ts"
  by (simp add: tally_def)

lemma tally_all: "tally P ts = length ts \<longleftrightarrow> (\<forall>t \<in> set ts. P t)"
proof (induction ts)
  case (Cons t ts)
  then show ?case
    using tally_le_length [of P ts] by auto
qed simp

lemma tally_mono: "(\<And>t. P t \<Longrightarrow> Q t) \<Longrightarrow> tally P ts \<le> tally Q ts"
  by (induction ts) (auto simp: le_SucI)

definition total :: "('t \<Rightarrow> nat) \<Rightarrow> 't list \<Rightarrow> nat" where
  "total f ts = sum_list (map f ts)"

lemma total_update: "i < length ts \<Longrightarrow> total f (ts[i := t]) + f (ts ! i) = total f ts + f t"
proof (induction ts arbitrary: i)
  case (Cons a ts)
  then show ?case by (cases i) (auto simp: total_def)
qed simp

lemma total_ge: "i < length ts \<Longrightarrow> f (ts ! i) \<le> total f ts"
  by (simp add: total_def member_le_sum_list)

section \<open>The specification\<close>

text \<open>What a producer still has to put, and what a consumer has taken, in order.\<close>

datatype 'a client = Producer "'a list" | Consumer "'a list"

fun to_put :: "'a client \<Rightarrow> 'a list" where
  "to_put (Producer xs) = xs"
| "to_put (Consumer _) = []"

fun taken :: "'a client \<Rightarrow> 'a list" where
  "taken (Producer _) = []"
| "taken (Consumer xs) = xs"

fun finished :: "('a \<Rightarrow> bool) \<Rightarrow> 'a client \<Rightarrow> bool" where
  "finished stop (Producer xs) \<longleftrightarrow> xs = []"
| "finished stop (Consumer got) \<longleftrightarrow> got \<noteq> [] \<and> stop (last got)"

fun has_room :: "nat option \<Rightarrow> nat \<Rightarrow> bool" where
  "has_room None n \<longleftrightarrow> True"
| "has_room (Some k) n \<longleftrightarrow> n < k"

inductive spec_step :: "('a \<Rightarrow> bool) \<Rightarrow> nat option \<Rightarrow> 'a list \<times> 'a client list \<Rightarrow> 'a list \<times> 'a client list \<Rightarrow> bool"
  for stop cap where
  put: "i < length cs \<Longrightarrow> cs ! i = Producer (x # xs) \<Longrightarrow> has_room cap (length q) \<Longrightarrow>
    spec_step stop cap (q, cs) (q @ [x], cs[i := Producer xs])"
| take: "i < length cs \<Longrightarrow> cs ! i = Consumer got \<Longrightarrow> \<not> finished stop (Consumer got) \<Longrightarrow>
    spec_step stop cap (x # q, cs) (q, cs[i := Consumer (got @ [x])])"

abbreviation spec_run :: "('a \<Rightarrow> bool) \<Rightarrow> nat option \<Rightarrow> 'a list \<times> 'a client list \<Rightarrow> 'a list \<times> 'a client list \<Rightarrow> bool" where
  "spec_run stop cap \<equiv> (spec_step stop cap)\<^sup>*\<^sup>*"

inductive_cases spec_stepE: "spec_step stop cap (q, cs) s"

text \<open>A client that cannot move although it is not finished.\<close>

fun held_up :: "nat option \<Rightarrow> 'a list \<Rightarrow> 'a client \<Rightarrow> bool" where
  "held_up cap q (Producer xs) \<longleftrightarrow> \<not> has_room cap (length q)"
| "held_up cap q (Consumer got) \<longleftrightarrow> q = []"

subsection \<open>Nothing is lost or invented\<close>

definition all_items :: "'a list \<times> 'a client list \<Rightarrow> 'a multiset" where
  "all_items s = mset (fst s) + sum_list (map (\<lambda>c. mset (to_put c @ taken c)) (snd s))"

lemma sum_mset_update:
  fixes f :: "'t \<Rightarrow> 'a multiset"
  shows "i < length cs \<Longrightarrow> sum_list (map f (cs[i := c])) + f (cs ! i) = sum_list (map f cs) + f c"
proof (induction cs arbitrary: i)
  case (Cons a cs)
  then show ?case by (cases i) (auto simp: ac_simps)
qed simp

lemma all_items_step: "spec_step stop cap s s' \<Longrightarrow> all_items s' = all_items s"
proof (induction rule: spec_step.induct)
  case (put i cs x xs q)
  let ?f = "\<lambda>c. mset (to_put c @ taken c)"
  have "sum_list (map ?f (cs[i := Producer xs])) + ?f (cs ! i) = sum_list (map ?f cs) + ?f (Producer xs)"
    by (rule sum_mset_update) (rule put(1))
  then have "sum_list (map ?f (cs[i := Producer xs])) + {#x#} = sum_list (map ?f cs)"
    using put(2) by simp
  then show ?case by (simp add: all_items_def ac_simps)
next
  case (take i cs got x q)
  let ?f = "\<lambda>c. mset (to_put c @ taken c)"
  have "sum_list (map ?f (cs[i := Consumer (got @ [x])])) + ?f (cs ! i) = sum_list (map ?f cs) + ?f (Consumer (got @ [x]))"
    by (rule sum_mset_update) (rule take(1))
  then have "sum_list (map ?f (cs[i := Consumer (got @ [x])])) = sum_list (map ?f cs) + {#x#}"
    using take(2) by (simp add: ac_simps)
  then show ?case by (simp add: all_items_def ac_simps)
qed

lemma all_items_run: "spec_run stop cap s s' \<Longrightarrow> all_items s' = all_items s"
  by (induction rule: rtranclp_induct) (auto dest: all_items_step)

subsection \<open>Order\<close>

text \<open>
  Fix a producer \<open>i\<close>, a consumer \<open>j\<close> and a predicate that only items of \<open>i\<close> satisfy.  Items move
  through this list from right to left and leave it when another consumer takes them.
\<close>

definition flow :: "('a \<Rightarrow> bool) \<Rightarrow> nat \<Rightarrow> nat \<Rightarrow> 'a list \<times> 'a client list \<Rightarrow> 'a list" where
  "flow P i j s = filter P (taken (snd s ! j)) @ filter P (fst s) @ filter P (to_put (snd s ! i))"

definition only_from :: "('a \<Rightarrow> bool) \<Rightarrow> nat \<Rightarrow> 'a client list \<Rightarrow> bool" where
  "only_from P i cs \<longleftrightarrow> (\<forall>k < length cs. k \<noteq> i \<longrightarrow> (\<forall>x \<in> set (to_put (cs ! k)). \<not> P x))"

lemma spec_step_length: "spec_step stop cap s s' \<Longrightarrow> length (snd s') = length (snd s)"
  by (induction rule: spec_step.induct) auto

lemma only_from_step: "spec_step stop cap s s' \<Longrightarrow> only_from P i (snd s) \<Longrightarrow> only_from P i (snd s')"
  by (induction rule: spec_step.induct) (auto simp: only_from_def nth_list_update split: if_splits)

lemma flow_step:
  assumes "spec_step stop cap s s'" "only_from P i (snd s)" "i < length (snd s)" "j < length (snd s)"
  shows "subseq (flow P i j s') (flow P i j s)"
  using assms
proof (induction rule: spec_step.induct)
  case (put k cs x xs q)
  show ?case
  proof (cases "k = i")
    case True
    then show ?thesis
      using put by (cases "j = i") (auto simp: flow_def)
  next
    case False
    then have "\<not> P x"
      using put by (auto simp: only_from_def)
    then show ?thesis
      using put False by (cases "j = k") (auto simp: flow_def)
  qed
next
  case (take k cs got x q)
  show ?case
  proof (cases "k = j")
    case True
    then show ?thesis
      using take by (cases "i = j") (auto simp: flow_def)
  next
    case False
    have "to_put (cs[k := Consumer (got @ [x])] ! i) = to_put (cs ! i)"
      using take by (cases "k = i") auto
    then show ?thesis
      using take False by (auto simp: flow_def subseq_append')
  qed
qed

lemma flow_run:
  assumes "spec_run stop cap s s'" "only_from P i (snd s)" "i < length (snd s)" "j < length (snd s)"
  shows "subseq (flow P i j s') (flow P i j s) \<and> only_from P i (snd s') \<and> length (snd s') = length (snd s)"
  using assms(1)
proof (induction rule: rtranclp_induct)
  case (step s1 s2)
  then show ?case
    using flow_step [OF step(2), of P i j] only_from_step [OF step(2)] spec_step_length [OF step(2)] assms(3,4)
    by (auto intro: subseq_order.trans)
qed (use assms in auto)

subsection \<open>Stop items, deadlock, termination\<close>

text \<open>
  Each producer has its stop item at the end of what it puts, and only there; a consumer takes nothing
  after a stop item; there are as many stop items on their way as there are consumers waiting for one;
  and behind a last item that does not stop, something is still to come.
\<close>

definition last_only :: "('a \<Rightarrow> bool) \<Rightarrow> 'a list \<Rightarrow> bool" where
  "last_only stop xs \<longleftrightarrow> xs = [] \<or> stop (last xs) \<and> (\<forall>x \<in> set (butlast xs). \<not> stop x)"

fun is_consumer :: "'a client \<Rightarrow> bool" where
  "is_consumer (Producer _) \<longleftrightarrow> False"
| "is_consumer (Consumer _) \<longleftrightarrow> True"

definition stops_due :: "('a \<Rightarrow> bool) \<Rightarrow> 'a list \<times> 'a client list \<Rightarrow> nat" where
  "stops_due stop s = length (filter stop (fst s)) + tally (\<lambda>c. to_put c \<noteq> []) (snd s)"

definition waiting_for_stop :: "('a \<Rightarrow> bool) \<Rightarrow> 'a client list \<Rightarrow> nat" where
  "waiting_for_stop stop cs = tally (\<lambda>c. is_consumer c \<and> \<not> finished stop c) cs"

definition more_to_come :: "('a \<Rightarrow> bool) \<Rightarrow> 'a list \<times> 'a client list \<Rightarrow> bool" where
  "more_to_come stop s \<longleftrightarrow> fst s = [] \<or> stop (last (fst s)) \<or> (\<exists>c \<in> set (snd s). to_put c \<noteq> [])"

definition balanced :: "('a \<Rightarrow> bool) \<Rightarrow> 'a list \<times> 'a client list \<Rightarrow> bool" where
  "balanced stop s \<longleftrightarrow> stops_due stop s = waiting_for_stop stop (snd s) \<and> more_to_come stop s \<and>
    (\<forall>c \<in> set (snd s). last_only stop (to_put c) \<and> (\<forall>x \<in> set (butlast (taken c)). \<not> stop x))"

lemma last_only_Cons: "last_only stop (x # xs) \<Longrightarrow> last_only stop xs \<and> (stop x \<longleftrightarrow> xs = [])"
  by (cases "xs = []") (auto simp: last_only_def)

lemma more_to_come_take:
  assumes "i < length cs" "cs ! i = Consumer got" "more_to_come stop (x # q, cs)"
  shows "more_to_come stop (q, cs[i := Consumer got'])"
proof (cases "q = []")
  case False
  have "\<exists>c \<in> set (cs[i := Consumer got']). to_put c \<noteq> []" if c: "c \<in> set cs" "to_put c \<noteq> []" for c
  proof -
    obtain k where k: "k < length cs" "cs ! k = c"
      using c(1) by (auto simp: in_set_conv_nth)
    with c(2) assms(2) have "k \<noteq> i" by auto
    then have "c \<in> set (cs[i := Consumer got'])"
      using k by (metis length_list_update nth_list_update_neq nth_mem)
    with c(2) show ?thesis by blast
  qed
  then show ?thesis
    using assms(3) False by (auto simp: more_to_come_def)
qed (simp add: more_to_come_def)

lemma balanced_step: "spec_step stop cap s s' \<Longrightarrow> balanced stop s \<Longrightarrow> balanced stop s'"
proof (induction rule: spec_step.induct)
  case (put i cs x xs q)
  have l: "last_only stop xs" "stop x \<longleftrightarrow> xs = []"
    using put nth_mem [OF put(1)] last_only_Cons [of stop x xs] by (auto simp: balanced_def)
  have "\<forall>c \<in> set (cs[i := Producer xs]). last_only stop (to_put c) \<and> (\<forall>x \<in> set (butlast (taken c)). \<not> stop x)"
    using put(4) l(1) set_update_subset_insert [of cs i "Producer xs"] by (auto simp: balanced_def)
  moreover have "stops_due stop (q @ [x], cs[i := Producer xs]) = stops_due stop (q, cs)"
    using tally_update [OF put(1), of "\<lambda>c. to_put c \<noteq> []" "Producer xs"] put(2) l(2)
    by (auto simp: stops_due_def)
  moreover have "waiting_for_stop stop (cs[i := Producer xs]) = waiting_for_stop stop cs"
    using tally_update [OF put(1), of "\<lambda>c. is_consumer c \<and> \<not> finished stop c" "Producer xs"] put(2)
    by (auto simp: waiting_for_stop_def)
  moreover have "more_to_come stop (q @ [x], cs[i := Producer xs])"
    using l(2) set_update_memI [OF put(1), of "Producer xs"] by (force simp: more_to_come_def)
  ultimately show ?case
    using put(4) by (simp add: balanced_def)
next
  case (take i cs got x q)
  let ?c = "Consumer (got @ [x])"
  have "\<forall>y \<in> set got. \<not> stop y"
  proof (cases "got = []")
    case False
    moreover have "\<forall>y \<in> set (butlast got). \<not> stop y"
      using take nth_mem [OF take(1)] by (auto simp: balanced_def)
    moreover have "\<not> stop (last got)"
      using take(3) False by simp
    ultimately show ?thesis
      by (metis append_butlast_last_id rotate1.simps(2) set_ConsD set_rotate1)
  qed simp
  then have new: "last_only stop (to_put ?c) \<and> (\<forall>x \<in> set (butlast (taken ?c)). \<not> stop x)"
    by (simp add: last_only_def)
  have "\<forall>c \<in> set (cs[i := ?c]). last_only stop (to_put c) \<and> (\<forall>x \<in> set (butlast (taken c)). \<not> stop x)"
  proof
    fix c assume "c \<in> set (cs[i := ?c])"
    then have "c = ?c \<or> c \<in> set cs"
      using set_update_subset_insert [of cs i ?c] by blast
    then show "last_only stop (to_put c) \<and> (\<forall>x \<in> set (butlast (taken c)). \<not> stop x)"
      using take(4) new unfolding balanced_def by fastforce
  qed
  moreover have "stops_due stop (x # q, cs) = of_bool (stop x) + stops_due stop (q, cs[i := ?c])"
    using tally_update [OF take(1), of "\<lambda>c. to_put c \<noteq> []" ?c] take(2)
    by (auto simp: stops_due_def)
  moreover have "waiting_for_stop stop cs = of_bool (stop x) + waiting_for_stop stop (cs[i := ?c])"
    using tally_update [OF take(1), of "\<lambda>c. is_consumer c \<and> \<not> finished stop c" ?c] take(2,3)
    by (auto simp: waiting_for_stop_def)
  moreover have "more_to_come stop (q, cs[i := ?c])"
    by (rule more_to_come_take [OF take(1,2), of stop x]) (use take(4) in \<open>simp add: balanced_def\<close>)
  ultimately show ?case
    using take(4) by (simp add: balanced_def)
qed

lemma balanced_run: "spec_run stop cap s s' \<Longrightarrow> balanced stop s \<Longrightarrow> balanced stop s'"
  by (induction rule: rtranclp_induct) (auto dest: balanced_step)

text \<open>When every client that is not finished is held up, all are finished and the queue is empty.\<close>

lemma no_deadlock:
  assumes bal: "balanced stop (q, cs)" and cap: "cap \<noteq> Some 0"
    and stuck: "\<And>c. c \<in> set cs \<Longrightarrow> finished stop c \<or> held_up cap q c"
  shows "(\<forall>c \<in> set cs. finished stop c) \<and> q = []"
proof -
  have due: "stops_due stop (q, cs) = waiting_for_stop stop cs"
    using bal by (simp add: balanced_def)
  have "waiting_for_stop stop cs = 0"
  proof (rule ccontr)
    assume "waiting_for_stop stop cs \<noteq> 0"
    then obtain c where c: "c \<in> set cs" "is_consumer c" "\<not> finished stop c"
      unfolding waiting_for_stop_def tally_zero_set by blast
    from stuck [OF c(1)] c(3) have "held_up cap q c" by blast
    then have "q = []"
      using c(2) by (cases c) auto
    then have "has_room cap (length q)"
      using cap by (cases cap) auto
    have "to_put d = []" if "d \<in> set cs" for d
      using stuck [OF that] \<open>has_room cap (length q)\<close> by (cases d) auto
    then have "stops_due stop (q, cs) = 0"
      using \<open>q = []\<close> by (simp add: stops_due_def tally_zero_set)
    then show False
      using due \<open>waiting_for_stop stop cs \<noteq> 0\<close> by simp
  qed
  then have "stops_due stop (q, cs) = 0" "\<And>c. c \<in> set cs \<Longrightarrow> is_consumer c \<Longrightarrow> finished stop c"
    using due by (auto simp: waiting_for_stop_def tally_zero_set)
  moreover have "to_put c = []" if "c \<in> set cs" for c
    using that \<open>stops_due stop (q, cs) = 0\<close> by (simp add: stops_due_def tally_zero_set)
  ultimately have "finished stop c" if "c \<in> set cs" for c
    using that by (cases c) force+
  moreover have "q = []"
  proof (rule ccontr)
    assume "q \<noteq> []"
    then have "\<exists>c \<in> set cs. to_put c \<noteq> []" if "\<not> stop (last q)"
      using bal that by (simp add: balanced_def more_to_come_def)
    moreover have "\<not> stop (last q)"
      using \<open>stops_due stop (q, cs) = 0\<close> last_in_set [OF \<open>q \<noteq> []\<close>]
      by (simp add: stops_due_def filter_empty_conv)
    ultimately show False
      using \<open>\<And>c. c \<in> set cs \<Longrightarrow> to_put c = []\<close> by blast
  qed
  ultimately show ?thesis by blast
qed

text \<open>Every item is put once and taken once, so the number of steps is bounded.\<close>

definition work_left :: "'a list \<times> 'a client list \<Rightarrow> nat" where
  "work_left s = length (fst s) + 2 * total (\<lambda>c. length (to_put c)) (snd s)"

lemma work_left_step: "spec_step stop cap s s' \<Longrightarrow> work_left s' < work_left s"
proof (induction rule: spec_step.induct)
  case (put i cs x xs q)
  then show ?case
    using total_update [OF put(1), of "\<lambda>c. length (to_put c)" "Producer xs"] by (simp add: work_left_def)
next
  case (take i cs got x q)
  then show ?case
    using total_update [OF take(1), of "\<lambda>c. length (to_put c)" "Consumer (got @ [x])"] by (simp add: work_left_def)
qed

subsection \<open>The start of a program\<close>

definition clients :: "'a list list \<Rightarrow> nat \<Rightarrow> 'a client list" where
  "clients itemss k = map Producer itemss @ replicate k (Consumer [])"

text \<open>As many consumers as producers, each producer with one stop item, at the end.\<close>

definition stop_protocol :: "('a \<Rightarrow> bool) \<Rightarrow> 'a list list \<Rightarrow> nat \<Rightarrow> bool" where
  "stop_protocol stop itemss k \<longleftrightarrow> k = length itemss \<and> (\<forall>xs \<in> set itemss. xs \<noteq> [] \<and> last_only stop xs)"

lemma tally_append [simp]: "tally P (xs @ ys) = tally P xs + tally P ys"
  by (simp add: tally_def)

lemma total_simps [simp]: "total f [] = 0" "total f (x # xs) = f x + total f xs" "total f (xs @ ys) = total f xs + total f ys"
  by (simp_all add: total_def)

lemma tally_replicate [simp]: "tally P (replicate k x) = (if P x then k else 0)"
  by (simp add: tally_def)

lemma total_replicate [simp]: "total f (replicate k x) = k * f x"
  by (simp add: total_def sum_list_replicate)

lemma tally_map [simp]: "tally P (map f xs) = tally (\<lambda>x. P (f x)) xs"
  by (simp add: tally_def filter_map comp_def)

lemma total_map [simp]: "total g (map f xs) = total (\<lambda>x. g (f x)) xs"
  by (simp add: total_def comp_def)

lemma tally_False [simp]: "tally (\<lambda>_. False) xs = 0"
  by (simp add: tally_def)

lemma balanced_start:
  assumes "stop_protocol stop itemss k"
  shows "balanced stop ([], clients itemss k)"
proof -
  have "tally (\<lambda>xs. xs \<noteq> []) itemss = k"
    using assms by (simp add: stop_protocol_def tally_def filter_True)
  then have "stops_due stop ([], clients itemss k) = waiting_for_stop stop (clients itemss k)"
    by (simp add: stops_due_def waiting_for_stop_def clients_def)
  with assms show ?thesis
    by (auto simp: balanced_def more_to_come_def stop_protocol_def clients_def last_only_def)
qed

lemma all_items_start:
  fixes itemss :: "'a list list"
  shows "all_items ([], clients itemss k) = mset (concat itemss)"
proof -
  have "sum_list (map (\<lambda>c. mset (to_put c @ taken c)) (map Producer itemss)) = mset (concat itemss)"
    by (simp add: comp_def mset_concat)
  moreover have "sum_list (replicate k {#}) = ({#} :: 'a multiset)"
    by (induction k) simp_all
  ultimately show ?thesis
    by (simp add: all_items_def clients_def comp_def)
qed

section \<open>Interleaved threads\<close>

text \<open>
  A thread is a program counter in one of the queue's functions and its client.  \<open>act\<close> is what its next
  instruction does to the shared state \<open>'g\<close>: block, run into undefined behaviour, or go on; the flag says
  that it signals a condition variable, which wakes one of the threads that wait there, if any does.
  A wait on a condition variable may also end spuriously.
\<close>

record ('p, 'a) thread =
  th_pc :: 'p
  th_client :: "'a client"

datatype ('g, 't) outcome = Blocked | Undefined | Goes 'g 't bool

inductive sys_step :: "('g \<Rightarrow> ('p, 'a) thread \<Rightarrow> ('g, ('p, 'a) thread) outcome) \<Rightarrow> ('p \<Rightarrow> bool) \<Rightarrow> ('p \<Rightarrow> 'p) \<Rightarrow>
    'g \<times> ('p, 'a) thread list \<Rightarrow> 'g \<times> ('p, 'a) thread list \<Rightarrow> bool"
  for act waits wake where
  run: "i < length ts \<Longrightarrow> act g (ts ! i) = Goes g' t False \<Longrightarrow>
    sys_step act waits wake (g, ts) (g', ts[i := t])"
| notify: "i < length ts \<Longrightarrow> act g (ts ! i) = Goes g' t True \<Longrightarrow> j < length ts \<Longrightarrow> i \<noteq> j \<Longrightarrow> waits (th_pc (ts ! j)) \<Longrightarrow>
    sys_step act waits wake (g, ts) (g', ts[i := t, j := (ts ! j)\<lparr>th_pc := wake (th_pc (ts ! j))\<rparr>])"
| notify_none: "i < length ts \<Longrightarrow> act g (ts ! i) = Goes g' t True \<Longrightarrow>
    \<forall>j < length ts. j \<noteq> i \<longrightarrow> \<not> waits (th_pc (ts ! j)) \<Longrightarrow>
    sys_step act waits wake (g, ts) (g', ts[i := t])"
| spurious: "j < length ts \<Longrightarrow> waits (th_pc (ts ! j)) \<Longrightarrow>
    sys_step act waits wake (g, ts) (g, ts[j := (ts ! j)\<lparr>th_pc := wake (th_pc (ts ! j))\<rparr>])"

inductive_cases sys_stepE: "sys_step act waits wake (g, ts) s'"

text \<open>One run, by the list of the threads that move; a signal wakes the first thread that waits.\<close>

definition moved :: "('g \<Rightarrow> ('p, 'a) thread \<Rightarrow> ('g, ('p, 'a) thread) outcome) \<Rightarrow> ('p \<Rightarrow> bool) \<Rightarrow> ('p \<Rightarrow> 'p) \<Rightarrow>
    nat \<Rightarrow> 'g \<times> ('p, 'a) thread list \<Rightarrow> 'g \<times> ('p, 'a) thread list" where
  "moved act waits wake i = (\<lambda>(g, ts).
    (case act g (ts ! i) of
      Goes g' t b \<Rightarrow>
        (g', if b then
           (case find (\<lambda>j. i \<noteq> j \<and> waits (th_pc (ts ! j))) [0..<length ts] of
             None \<Rightarrow> ts[i := t] | Some j \<Rightarrow> ts[i := t, j := (ts ! j)\<lparr>th_pc := wake (th_pc (ts ! j))\<rparr>])
         else ts[i := t])
    | _ \<Rightarrow> (g, ts)))"

definition schedule :: "('g \<Rightarrow> ('p, 'a) thread \<Rightarrow> ('g, ('p, 'a) thread) outcome) \<Rightarrow> ('p \<Rightarrow> bool) \<Rightarrow> ('p \<Rightarrow> 'p) \<Rightarrow>
    nat list \<Rightarrow> 'g \<times> ('p, 'a) thread list \<Rightarrow> 'g \<times> ('p, 'a) thread list" where
  "schedule act waits wake ids s = foldl (\<lambda>s i. moved act waits wake i s) s ids"

lemma moved_run: "i < length (snd s) \<Longrightarrow> (sys_step act waits wake)\<^sup>*\<^sup>* s (moved act waits wake i s)"
proof -
  assume i: "i < length (snd s)"
  obtain g ts where s: "s = (g, ts)" by (cases s)
  let ?find = "find (\<lambda>j. i \<noteq> j \<and> waits (th_pc (ts ! j))) [0..<length ts]"
  show ?thesis
  proof (cases "act g (ts ! i)")
    case (Goes g' t b)
    have "sys_step act waits wake s (moved act waits wake i s)"
    proof (cases b)
      case True
      show ?thesis
      proof (cases ?find)
        case None
        then have "\<forall>j < length ts. j \<noteq> i \<longrightarrow> \<not> waits (th_pc (ts ! j))"
          by (auto simp: find_None_iff)
        then show ?thesis using i s Goes True None by (auto simp: moved_def intro: sys_step.notify_none)
      next
        case (Some j)
        then have "j < length ts" "i \<noteq> j" "waits (th_pc (ts ! j))"
          by (auto simp: find_Some_iff)
        then show ?thesis using i s Goes True Some by (auto simp: moved_def intro: sys_step.notify)
      qed
    qed (use i s Goes in \<open>auto simp: moved_def intro: sys_step.run\<close>)
    then show ?thesis by blast
  qed (simp_all add: s moved_def)
qed

lemma length_moved [simp]: "length (snd (moved act waits wake i s)) = length (snd s)"
  by (cases s) (auto simp: moved_def split: outcome.splits option.splits)

lemma schedule_run: "\<forall>i \<in> set ids. i < length (snd s) \<Longrightarrow> (sys_step act waits wake)\<^sup>*\<^sup>* s (schedule act waits wake ids s)"
proof (induction ids arbitrary: s)
  case (Cons i ids)
  then have "(sys_step act waits wake)\<^sup>*\<^sup>* (moved act waits wake i s) (schedule act waits wake ids (moved act waits wake i s))"
    by simp
  with moved_run [of i s act waits wake] Cons(2) show ?case
    by (auto simp: schedule_def intro: rtranclp_trans)
qed (simp add: schedule_def)

text \<open>What the specification sees of a state.\<close>

definition view :: "('g \<Rightarrow> ('p, 'a) thread list \<Rightarrow> 'a list) \<Rightarrow> 'g \<times> ('p, 'a) thread list \<Rightarrow> 'a list \<times> 'a client list" where
  "view contents s = (contents (fst s) (snd s), map th_client (snd s))"

lemma view_update:
  "view f (g, ts[i := t]) = (f g (ts[i := t]), (map th_client ts)[i := th_client t])"
  by (simp add: view_def map_update)

definition all_blocked :: "('g \<Rightarrow> ('p, 'a) thread \<Rightarrow> ('g, ('p, 'a) thread) outcome) \<Rightarrow> 'g \<times> ('p, 'a) thread list \<Rightarrow> bool" where
  "all_blocked act s \<longleftrightarrow> (\<forall>t \<in> set (snd s). act (fst s) t = Blocked)"

locale blocking_queue =
  fixes act :: "'g \<Rightarrow> ('p, 'a) thread \<Rightarrow> ('g, ('p, 'a) thread) outcome"
    and waits :: "'p \<Rightarrow> bool" and wake :: "'p \<Rightarrow> 'p"
    and contents :: "'g \<Rightarrow> ('p, 'a) thread list \<Rightarrow> 'a list"
    and inv :: "'g \<times> ('p, 'a) thread list \<Rightarrow> bool"
    and stop :: "'a \<Rightarrow> bool" and cap :: "nat option"
  assumes refines: "inv s \<Longrightarrow> sys_step act waits wake s s' \<Longrightarrow>
      inv s' \<and> (view contents s' = view contents s \<or> spec_step stop cap (view contents s) (view contents s'))"
    and defined: "inv (g, ts) \<Longrightarrow> t \<in> set ts \<Longrightarrow> act g t \<noteq> Undefined"
    and progress: "inv (g, ts) \<Longrightarrow> all_blocked act (g, ts) \<Longrightarrow> t \<in> set ts \<Longrightarrow>
      finished stop (th_client t) \<or> held_up cap (contents g ts) (th_client t)"
begin

lemma run_refines:
  assumes "(sys_step act waits wake)\<^sup>*\<^sup>* s s'" "inv s"
  shows "inv s' \<and> spec_run stop cap (view contents s) (view contents s')"
  using assms(1)
proof (induction rule: rtranclp_induct)
  case (step s1 s2)
  then show ?case
    using refines [of s1 s2] by (auto intro: rtranclp.rtrancl_into_rtrancl)
qed (use assms in simp)

lemma run_items:
  assumes "(sys_step act waits wake)\<^sup>*\<^sup>* s s'" "inv s"
  shows "all_items (view contents s') = all_items (view contents s)"
  using run_refines [OF assms] all_items_run by blast

lemma run_order:
  assumes "(sys_step act waits wake)\<^sup>*\<^sup>* s s'" "inv s" "contents (fst s) (snd s) = []"
    and "only_from P i (map th_client (snd s))" "i < length (snd s)" "j < length (snd s)"
    and "taken (th_client (snd s ! j)) = []"
  shows "subseq (filter P (taken (th_client (snd s' ! j)))) (filter P (to_put (th_client (snd s ! i))))"
proof -
  have "subseq (flow P i j (view contents s')) (flow P i j (view contents s)) \<and>
      length (map th_client (snd s')) = length (map th_client (snd s))"
    using flow_run [of stop cap "view contents s" "view contents s'" P i j] run_refines [OF assms(1,2)] assms(4-6)
    by (simp add: view_def)
  then have "subseq (flow P i j (view contents s')) (flow P i j (view contents s))" "length (snd s') = length (snd s)"
    by simp_all
  then have "subseq (filter P (taken (th_client (snd s' ! j))) @ filter P (contents (fst s') (snd s')) @
      filter P (to_put (th_client (snd s' ! i)))) (filter P (to_put (th_client (snd s ! i))))"
    using assms(3,5-7) by (simp add: flow_def view_def)
  then show ?thesis
    by (rule subseq_order.trans [OF subseq_rev_drop_many [OF subseq_order.refl]])
qed

lemma run_deadlock_free:
  assumes "(sys_step act waits wake)\<^sup>*\<^sup>* s s'" "inv s" "balanced stop (view contents s)" "cap \<noteq> Some 0"
    and blocked: "all_blocked act s'"
  shows "(\<forall>t \<in> set (snd s'). finished stop (th_client t)) \<and> contents (fst s') (snd s') = []"
proof -
  have inv: "inv (fst s', snd s')" and bal: "balanced stop (contents (fst s') (snd s'), map th_client (snd s'))"
    using run_refines [OF assms(1,2)] balanced_run assms(3) by (auto simp: view_def)
  have "finished stop c \<or> held_up cap (contents (fst s') (snd s')) c" if "c \<in> set (map th_client (snd s'))" for c
    using that progress [OF inv] blocked by auto
  from no_deadlock [OF bal assms(4) this] show ?thesis by simp
qed

lemma run_completes:
  assumes "(sys_step act waits wake)\<^sup>*\<^sup>* s s'" "inv s" "balanced stop (view contents s)" "cap \<noteq> Some 0"
    and "all_blocked act s'"
  shows "(\<forall>t \<in> set (snd s'). finished stop (th_client t)) \<and>
    sum_list (map (\<lambda>t. mset (taken (th_client t))) (snd s')) = all_items (view contents s)"
proof -
  note fin = run_deadlock_free [OF assms]
  have "mset (to_put (th_client t) @ taken (th_client t)) = mset (taken (th_client t))" if "t \<in> set (snd s')" for t
    using fin that by (cases "th_client t") auto
  then have "all_items (view contents s') = sum_list (map (\<lambda>t. mset (taken (th_client t))) (snd s'))"
    using fin by (simp add: all_items_def view_def comp_def cong: map_cong)
  then show ?thesis
    using fin run_items [OF assms(1,2)] by simp
qed

end

text \<open>A queue whose functions take a bounded number of steps when they are not blocked.\<close>

locale terminating_queue = blocking_queue +
  fixes rank :: "'b \<times> ('c, 'd) thread list \<Rightarrow> nat"
  assumes stutter: "inv s \<Longrightarrow> sys_step act waits wake s s' \<Longrightarrow> view contents s' = view contents s \<Longrightarrow> rank s' < rank s"
begin

lemma runs_to_the_end: "inv s \<Longrightarrow> \<exists>s'. (sys_step act waits wake)\<^sup>*\<^sup>* s s' \<and> all_blocked act s'"
proof (induction s rule: wf_induct_rule [OF wf_measures [of "[\<lambda>s. work_left (view contents s), rank]"]])
  case (1 s)
  show ?case
  proof (cases "all_blocked act s")
    case False
    obtain g ts where s: "s = (g, ts)" by (cases s)
    with False obtain i where i: "i < length ts" "act g (ts ! i) \<noteq> Blocked"
      by (auto simp: all_blocked_def in_set_conv_nth)
    moreover have "act g (ts ! i) \<noteq> Undefined"
      using defined [of g ts] 1(2) i(1) s by simp
    ultimately obtain g' t b where go: "act g (ts ! i) = Goes g' t b"
      by (cases "act g (ts ! i)") auto
    have "\<exists>s'. sys_step act waits wake s s'"
    proof (cases "b \<and> (\<exists>j < length ts. i \<noteq> j \<and> waits (th_pc (ts ! j)))")
      case True
      then show ?thesis using go i(1) s sys_step.notify by metis
    next
      case nobody: False
      show ?thesis
      proof (cases b)
        case True
        then show ?thesis using go i(1) s nobody sys_step.notify_none by metis
      next
        case False
        then show ?thesis using go i(1) s sys_step.run by metis
      qed
    qed
    then obtain s1 where s1: "sys_step act waits wake s s1" by blast
    then have "(s1, s) \<in> measures [\<lambda>s. work_left (view contents s), rank]"
      using refines [OF 1(2) s1] stutter [OF 1(2) s1] work_left_step by fastforce
    from 1(1) [OF this] obtain s' where "(sys_step act waits wake)\<^sup>*\<^sup>* s1 s'" "all_blocked act s'"
      using refines [OF 1(2) s1] by blast
    then show ?thesis using s1 converse_rtranclp_into_rtranclp by metis
  qed blast
qed

lemma finite_runs:
  assumes "inv (f 0)"
  shows "\<exists>n :: nat. \<not> sys_step act waits wake (f n) (f (Suc n))"
proof (rule ccontr)
  assume "\<nexists>n. \<not> sys_step act waits wake (f n) (f (Suc n))"
  then have steps: "sys_step act waits wake (f n) (f (Suc n))" for n by blast
  have inv: "inv (f n)" for n
    by (induction n) (use assms refines steps in blast)+
  have "(f (Suc n), f n) \<in> measures [\<lambda>s. work_left (view contents s), rank]" for n
    using refines [OF inv steps, of n] stutter [OF inv steps, of n] work_left_step by fastforce
  then show False
    using wf_measures [unfolded wf_iff_no_infinite_down_chain] by blast
qed

end

end
