(* ===== verification/Bbq.thy ===== *)
theory Bbq
  imports Queue_Contract
begin

text \<open>
  The bounded blocking queue of \<^verbatim>\<open>c/process/process_communication/bounded_blocking_queue_semaphore_mmap_unnamed1\<close>:
  an array of items in shared memory, two counters, and three semaphores, used by processes.  The functions
  are split at their system calls and, inside the critical section, at the counter and the copy, so that
  the interleavings of the processes are those of the code.

  The counters are \<^verbatim>\<open>int\<close>: incrementing one beyond its maximum is undefined (the comment in the header
  says "the queue has use limit of int32"), and so is a copy outside the array.
\<close>

section \<open>The queue\<close>

record bbq =
  bq_mutex :: nat
  bq_empty :: nat
  bq_full :: nat
  bq_item_size :: nat
  bq_queue_size :: nat
  bq_f :: nat
  bq_p :: nat
  bq_que :: "byte list"

definition int_max :: nat where "int_max = 2147483647"

text \<open>\<open>mem\<close> is what the memory behind the header contains before; it stays as it is.\<close>

definition bbq_init :: "byte list \<Rightarrow> nat \<Rightarrow> nat \<Rightarrow> bbq" where
  "bbq_init mem item_size queue_size = \<lparr>bq_mutex = 1, bq_empty = queue_size, bq_full = 0,
    bq_item_size = item_size, bq_queue_size = queue_size, bq_f = 0, bq_p = 0, bq_que = mem\<rparr>"

text \<open>\<^verbatim>\<open>memcpy\<close> into and out of the array.\<close>

definition store :: "nat \<Rightarrow> byte list \<Rightarrow> byte list \<Rightarrow> byte list" where
  "store off bs mem = take off mem @ bs @ drop (off + length bs) mem"

definition fetch :: "nat \<Rightarrow> nat \<Rightarrow> byte list \<Rightarrow> byte list" where
  "fetch off n mem = take n (drop off mem)"

text \<open>Where a process is in \<^verbatim>\<open>bbq_put\<close> and \<^verbatim>\<open>bbq_take\<close>: the next thing it does.\<close>

datatype put_pc = PutWait | PutLock | PutInc | PutCopy nat | PutUnlock | PutPost
datatype take_pc = TakeWait | TakeLock | TakeInc | TakeCopy nat | TakeUnlock | TakePost

fun bbq_put :: "put_pc \<Rightarrow> byte list \<Rightarrow> bbq \<Rightarrow> (bbq, put_pc) outcome" where
  "bbq_put PutWait item q =
    (if 0 < bq_empty q then Goes (q\<lparr>bq_empty := bq_empty q - 1\<rparr>) PutLock False else Blocked)"
| "bbq_put PutLock item q =
    (if 0 < bq_mutex q then Goes (q\<lparr>bq_mutex := bq_mutex q - 1\<rparr>) PutInc False else Blocked)"
| "bbq_put PutInc item q =
    (if bq_p q < int_max
     then Goes (q\<lparr>bq_p := bq_p q + 1\<rparr>) (PutCopy (bq_item_size q * (bq_p q mod bq_queue_size q))) False
     else Undefined)"
| "bbq_put (PutCopy pointer) item q =
    (if pointer + bq_item_size q \<le> length (bq_que q) \<and> bq_item_size q \<le> length item
     then Goes (q\<lparr>bq_que := store pointer (take (bq_item_size q) item) (bq_que q)\<rparr>) PutUnlock False
     else Undefined)"
| "bbq_put PutUnlock item q = Goes (q\<lparr>bq_mutex := bq_mutex q + 1\<rparr>) PutPost False"
| "bbq_put PutPost item q = Goes (q\<lparr>bq_full := bq_full q + 1\<rparr>) PutWait False"

text \<open>The second component is what has been copied to \<^verbatim>\<open>item\<close>.\<close>

fun bbq_take :: "take_pc \<Rightarrow> bbq \<Rightarrow> (bbq, take_pc \<times> byte list option) outcome" where
  "bbq_take TakeWait q =
    (if 0 < bq_full q then Goes (q\<lparr>bq_full := bq_full q - 1\<rparr>) (TakeLock, None) False else Blocked)"
| "bbq_take TakeLock q =
    (if 0 < bq_mutex q then Goes (q\<lparr>bq_mutex := bq_mutex q - 1\<rparr>) (TakeInc, None) False else Blocked)"
| "bbq_take TakeInc q =
    (if bq_f q < int_max
     then Goes (q\<lparr>bq_f := bq_f q + 1\<rparr>) (TakeCopy (bq_item_size q * (bq_f q mod bq_queue_size q)), None) False
     else Undefined)"
| "bbq_take (TakeCopy pointer) q =
    (if pointer + bq_item_size q \<le> length (bq_que q)
     then Goes q (TakeUnlock, Some (fetch pointer (bq_item_size q) (bq_que q))) False
     else Undefined)"
| "bbq_take TakeUnlock q = Goes (q\<lparr>bq_mutex := bq_mutex q + 1\<rparr>) (TakePost, None) False"
| "bbq_take TakePost q = Goes (q\<lparr>bq_empty := bq_empty q + 1\<rparr>) (TakeWait, None) False"

text \<open>\<^verbatim>\<open>bbq_empty\<close> as one step between its lock and unlock; it blocks while the mutex is taken.\<close>

definition bbq_empty :: "bbq \<Rightarrow> bool option" where
  "bbq_empty q = (if 0 < bq_mutex q then Some (bq_f q = bq_p q) else None)"

section \<open>Producers and consumers\<close>

text \<open>A process of the program: it calls \<^verbatim>\<open>bbq_put\<close> on its items, or \<^verbatim>\<open>bbq_take\<close> until the stop item.\<close>

datatype bbq_pc = Put put_pc | Take take_pc

type_synonym bbq_thread = "(bbq_pc, byte list) thread"

fun bbq_act :: "(byte list \<Rightarrow> bool) \<Rightarrow> bbq \<Rightarrow> bbq_thread \<Rightarrow> (bbq, bbq_thread) outcome" where
  "bbq_act stop q t =
    (case (th_pc t, th_client t) of
      (Put pc, Producer []) \<Rightarrow>
        if pc = PutWait then Blocked
        else (case bbq_put pc [] q of
          Blocked \<Rightarrow> Blocked | Undefined \<Rightarrow> Undefined
        | Goes q1 pc1 b \<Rightarrow> Goes q1 (t\<lparr>th_pc := Put pc1\<rparr>) b)
    | (Put pc, Producer (x # xs)) \<Rightarrow>
        (case bbq_put pc x q of
          Blocked \<Rightarrow> Blocked | Undefined \<Rightarrow> Undefined
        | Goes q1 pc1 b \<Rightarrow>
            Goes q1 (if \<exists>a. pc = PutCopy a then \<lparr>th_pc = Put pc1, th_client = Producer xs\<rparr> else t\<lparr>th_pc := Put pc1\<rparr>) b)
    | (Take pc, Consumer got) \<Rightarrow>
        if pc = TakeWait \<and> finished stop (Consumer got) then Blocked
        else (case bbq_take pc q of
          Blocked \<Rightarrow> Blocked | Undefined \<Rightarrow> Undefined
        | Goes q1 (pc1, None) b \<Rightarrow> Goes q1 (t\<lparr>th_pc := Take pc1\<rparr>) b
        | Goes q1 (pc1, Some x) b \<Rightarrow> Goes q1 \<lparr>th_pc = Take pc1, th_client = Consumer (got @ [x])\<rparr> b)
    | _ \<Rightarrow> Blocked)"

section \<open>Memory and slots\<close>

lemma length_store [simp]: "off + length bs \<le> length mem \<Longrightarrow> length (store off bs mem) = length mem"
  by (simp add: store_def)

lemma fetch_store_same: "off + length bs \<le> length mem \<Longrightarrow> fetch off (length bs) (store off bs mem) = bs"
  by (simp add: store_def fetch_def)

lemma fetch_store_other:
  assumes "off + length bs \<le> length mem" "off' + n \<le> off \<or> off + length bs \<le> off'"
  shows "fetch off' n (store off bs mem) = fetch off' n mem"
  using assms by (auto simp: store_def fetch_def drop_take min_def)

lemma slots_disjoint: "i \<noteq> j \<Longrightarrow> sz * i + sz \<le> sz * j \<or> sz * j + sz \<le> sz * (i :: nat)"
  by (metis Suc_leI linorder_neqE_nat mult.commute mult_Suc_right mult_le_mono2 add.commute)

lemma slot_inside: "i < n \<Longrightarrow> sz * i + sz \<le> sz * (n :: nat)"
  by (metis Suc_leI add.commute mult_Suc_right mult_le_mono2)

lemma slots_distinct:
  fixes a b n :: nat
  assumes "a < b" "b - a < n"
  shows "a mod n \<noteq> b mod n"
proof
  assume "a mod n = b mod n"
  then have "n dvd b - a"
    using assms(1) by (metis less_imp_le mod_eq_dvd_iff_nat)
  then show False
    using assms by (auto dest: dvd_imp_le)
qed

definition slot :: "bbq \<Rightarrow> nat \<Rightarrow> byte list" where
  "slot q k = fetch (bq_item_size q * (k mod bq_queue_size q)) (bq_item_size q) (bq_que q)"

section \<open>The invariant\<close>

fun critical :: "bbq_pc \<Rightarrow> bool" where
  "critical (Put pc) \<longleftrightarrow> pc = PutInc \<or> (\<exists>a. pc = PutCopy a) \<or> pc = PutUnlock"
| "critical (Take pc) \<longleftrightarrow> pc = TakeInc \<or> (\<exists>a. pc = TakeCopy a) \<or> pc = TakeUnlock"

fun put_claimed :: "bbq_pc \<Rightarrow> bool" where
  "put_claimed (Put pc) \<longleftrightarrow> pc = PutLock \<or> pc = PutInc" | "put_claimed (Take pc) \<longleftrightarrow> False"

fun put_copying :: "bbq_pc \<Rightarrow> bool" where
  "put_copying (Put pc) \<longleftrightarrow> (\<exists>a. pc = PutCopy a)" | "put_copying (Take pc) \<longleftrightarrow> False"

fun put_counted :: "bbq_pc \<Rightarrow> bool" where
  "put_counted (Put pc) \<longleftrightarrow> (\<exists>a. pc = PutCopy a) \<or> pc = PutUnlock \<or> pc = PutPost" | "put_counted (Take pc) \<longleftrightarrow> False"

fun take_claimed :: "bbq_pc \<Rightarrow> bool" where
  "take_claimed (Take pc) \<longleftrightarrow> pc = TakeLock \<or> pc = TakeInc" | "take_claimed (Put pc) \<longleftrightarrow> False"

fun take_copying :: "bbq_pc \<Rightarrow> bool" where
  "take_copying (Take pc) \<longleftrightarrow> (\<exists>a. pc = TakeCopy a)" | "take_copying (Put pc) \<longleftrightarrow> False"

fun take_counted :: "bbq_pc \<Rightarrow> bool" where
  "take_counted (Take pc) \<longleftrightarrow> (\<exists>a. pc = TakeCopy a) \<or> pc = TakeUnlock \<or> pc = TakePost" | "take_counted (Put pc) \<longleftrightarrow> False"

abbreviation at :: "(bbq_pc \<Rightarrow> bool) \<Rightarrow> bbq_thread list \<Rightarrow> nat" where
  "at P ts \<equiv> tally (\<lambda>t. P (th_pc t)) ts"

text \<open>
  The semaphores account for the processes between their operations; \<open>bq_p - bq_f\<close> is the number of items
  in the array, the one being copied included.
\<close>

definition bbq_counts :: "nat \<Rightarrow> bbq \<Rightarrow> bbq_thread list \<Rightarrow> bool" where
  "bbq_counts n q ts \<longleftrightarrow> bq_mutex q + at critical ts = 1 \<and> bq_f q \<le> bq_p q \<and> at take_copying ts \<le> bq_f q \<and>
    bq_f q + n = bq_p q + bq_empty q + at put_claimed ts + at take_counted ts \<and>
    bq_f q + bq_full q + at take_claimed ts + at put_counted ts = bq_p q \<and>
    bq_p q + total (\<lambda>t. length (to_put (th_client t))) ts \<le> int_max + at put_copying ts"

definition bbq_shape :: "nat \<Rightarrow> nat \<Rightarrow> bbq \<Rightarrow> bool" where
  "bbq_shape sz n q \<longleftrightarrow> bq_item_size q = sz \<and> bq_queue_size q = n \<and> length (bq_que q) = sz * n"

text \<open>What each process knows.\<close>

fun thread_ok :: "(byte list \<Rightarrow> bool) \<Rightarrow> nat \<Rightarrow> bbq_thread \<Rightarrow> bool" where
  "thread_ok stop sz t \<longleftrightarrow>
    (case (th_pc t, th_client t) of
      (Put pc, Producer xs) \<Rightarrow> (\<forall>x \<in> set xs. length x = sz) \<and> (pc = PutLock \<or> pc = PutInc \<or> (\<exists>a. pc = PutCopy a) \<longrightarrow> xs \<noteq> [])
    | (Take pc, Consumer got) \<Rightarrow> pc = TakeLock \<or> pc = TakeInc \<or> (\<exists>a. pc = TakeCopy a) \<longrightarrow> \<not> finished stop (Consumer got)
    | _ \<Rightarrow> False)"

definition pointers_ok :: "nat \<Rightarrow> nat \<Rightarrow> bbq \<Rightarrow> bbq_thread list \<Rightarrow> bool" where
  "pointers_ok sz n q ts \<longleftrightarrow> (\<forall>t \<in> set ts.
    (\<forall>a. th_pc t = Put (PutCopy a) \<longrightarrow> a = sz * ((bq_p q - 1) mod n)) \<and>
    (\<forall>a. th_pc t = Take (TakeCopy a) \<longrightarrow> a = sz * ((bq_f q - 1) mod n)))"

definition bbq_inv :: "(byte list \<Rightarrow> bool) \<Rightarrow> nat \<Rightarrow> nat \<Rightarrow> bbq \<times> bbq_thread list \<Rightarrow> bool" where
  "bbq_inv stop sz n s \<longleftrightarrow> 0 < n \<and> bbq_shape sz n (fst s) \<and> bbq_counts n (fst s) (snd s) \<and>
    (\<forall>t \<in> set (snd s). thread_ok stop sz t) \<and> pointers_ok sz n (fst s) (snd s)"

text \<open>The items in the queue: those whose copy in is done and whose copy out is not.\<close>

definition bbq_contents :: "bbq \<Rightarrow> bbq_thread list \<Rightarrow> byte list list" where
  "bbq_contents q ts = map (slot q) [bq_f q - at take_copying ts ..< bq_p q - at put_copying ts]"

lemma at_update: "i < length ts \<Longrightarrow> at P (ts[i := t]) + of_bool (P (th_pc (ts ! i))) = at P ts + of_bool (P (th_pc t))"
  by (rule tally_update)

lemma at_critical_only:
  assumes "at critical ts \<le> 1" "i < length ts" "critical (th_pc (ts ! i))"
  shows "t \<in> set (ts[i := t']) \<Longrightarrow> t \<noteq> t' \<Longrightarrow> \<not> critical (th_pc t)"
proof -
  assume t: "t \<in> set (ts[i := t'])" "t \<noteq> t'"
  then obtain j where j: "j < length ts" "ts[i := t'] ! j = t" by (metis in_set_conv_nth length_list_update)
  then have "j \<noteq> i" using t(2) assms(2) by auto
  define t0 where "t0 = t'\<lparr>th_pc := Put PutWait\<rparr>"
  have "at critical (ts[i := t0]) = 0"
    using at_update [OF assms(2), of critical t0] assms(1,3) by (simp add: t0_def)
  then have "\<not> critical (th_pc (ts[i := t0] ! j))"
    using j(1) by (simp add: tally_zero)
  then show "\<not> critical (th_pc t)"
    using j \<open>j \<noteq> i\<close> by simp
qed

lemma at_critical_excl:
  assumes "at critical ts \<le> 1" "i < length ts" "critical (th_pc (ts ! i))"
  shows "at put_copying ts = of_bool (put_copying (th_pc (ts ! i)))" "at take_copying ts = of_bool (take_copying (th_pc (ts ! i)))"
proof -
  define t0 where "t0 = (ts ! i)\<lparr>th_pc := Put PutWait\<rparr>"
  have zero: "at critical (ts[i := t0]) = 0"
    using at_update [OF assms(2), of critical t0] assms(1,3) by (simp add: t0_def)
  have "put_copying pc \<Longrightarrow> critical pc" "take_copying pc \<Longrightarrow> critical pc" for pc
    by (cases pc; auto)+
  then have "at put_copying (ts[i := t0]) = 0" "at take_copying (ts[i := t0]) = 0"
    using zero unfolding tally_zero by blast+
  then show "at put_copying ts = of_bool (put_copying (th_pc (ts ! i)))" "at take_copying ts = of_bool (take_copying (th_pc (ts ! i)))"
    using at_update [OF assms(2), of put_copying t0] at_update [OF assms(2), of take_copying t0] by (simp_all add: t0_def)
qed

section \<open>Every step keeps it, and is a step of the specification\<close>

lemma bbq_act_cases:
  assumes "bbq_act stop q t = Goes q' t' b" "thread_ok stop sz t"
  obtains
    (put_wait) x xs where "th_pc t = Put PutWait" "th_client t = Producer (x # xs)" "0 < bq_empty q" "\<not> b"
      "q' = q\<lparr>bq_empty := bq_empty q - 1\<rparr>" "t' = t\<lparr>th_pc := Put PutLock\<rparr>"
  | (put_lock) x xs where "th_pc t = Put PutLock" "th_client t = Producer (x # xs)" "0 < bq_mutex q" "\<not> b"
      "q' = q\<lparr>bq_mutex := bq_mutex q - 1\<rparr>" "t' = t\<lparr>th_pc := Put PutInc\<rparr>"
  | (put_inc) x xs where "th_pc t = Put PutInc" "th_client t = Producer (x # xs)" "bq_p q < int_max" "\<not> b"
      "q' = q\<lparr>bq_p := bq_p q + 1\<rparr>" "t' = t\<lparr>th_pc := Put (PutCopy (bq_item_size q * (bq_p q mod bq_queue_size q)))\<rparr>"
  | (put_copy) a x xs where "th_pc t = Put (PutCopy a)" "th_client t = Producer (x # xs)" "\<not> b"
      "a + bq_item_size q \<le> length (bq_que q)" "bq_item_size q \<le> length x"
      "q' = q\<lparr>bq_que := store a (take (bq_item_size q) x) (bq_que q)\<rparr>" "t' = \<lparr>th_pc = Put PutUnlock, th_client = Producer xs\<rparr>"
  | (put_unlock) xs where "th_pc t = Put PutUnlock" "th_client t = Producer xs" "\<not> b"
      "q' = q\<lparr>bq_mutex := bq_mutex q + 1\<rparr>" "t' = t\<lparr>th_pc := Put PutPost\<rparr>"
  | (put_post) xs where "th_pc t = Put PutPost" "th_client t = Producer xs" "\<not> b"
      "q' = q\<lparr>bq_full := bq_full q + 1\<rparr>" "t' = t\<lparr>th_pc := Put PutWait\<rparr>"
  | (take_wait) got where "th_pc t = Take TakeWait" "th_client t = Consumer got" "\<not> finished stop (Consumer got)"
      "0 < bq_full q" "\<not> b" "q' = q\<lparr>bq_full := bq_full q - 1\<rparr>" "t' = t\<lparr>th_pc := Take TakeLock\<rparr>"
  | (take_lock) got where "th_pc t = Take TakeLock" "th_client t = Consumer got" "0 < bq_mutex q" "\<not> b"
      "q' = q\<lparr>bq_mutex := bq_mutex q - 1\<rparr>" "t' = t\<lparr>th_pc := Take TakeInc\<rparr>"
  | (take_inc) got where "th_pc t = Take TakeInc" "th_client t = Consumer got" "bq_f q < int_max" "\<not> b"
      "q' = q\<lparr>bq_f := bq_f q + 1\<rparr>" "t' = t\<lparr>th_pc := Take (TakeCopy (bq_item_size q * (bq_f q mod bq_queue_size q)))\<rparr>"
  | (take_copy) a got where "th_pc t = Take (TakeCopy a)" "th_client t = Consumer got" "\<not> b"
      "a + bq_item_size q \<le> length (bq_que q)" "q' = q"
      "t' = \<lparr>th_pc = Take TakeUnlock, th_client = Consumer (got @ [fetch a (bq_item_size q) (bq_que q)])\<rparr>"
  | (take_unlock) got where "th_pc t = Take TakeUnlock" "th_client t = Consumer got" "\<not> b"
      "q' = q\<lparr>bq_mutex := bq_mutex q + 1\<rparr>" "t' = t\<lparr>th_pc := Take TakePost\<rparr>"
  | (take_post) got where "th_pc t = Take TakePost" "th_client t = Consumer got" "\<not> b"
      "q' = q\<lparr>bq_empty := bq_empty q + 1\<rparr>" "t' = t\<lparr>th_pc := Take TakeWait\<rparr>"
proof (cases "th_pc t")
  case (Put pc)
  obtain xs where xs: "th_client t = Producer xs"
    using assms(2) Put by (cases "th_client t") auto
  show thesis
    by (cases pc; cases xs) (use assms Put xs in \<open>auto split: if_splits intro: that\<close>)
next
  case (Take pc)
  obtain got where got: "th_client t = Consumer got"
    using assms(2) Take by (cases "th_client t") auto
  show thesis
    by (cases pc) (use assms Take got in \<open>auto split: if_splits intro: that\<close>)
qed

lemma bbq_counts_step:
  assumes "bbq_inv stop sz n (q, ts)" "i < length ts" "bbq_act stop q (ts ! i) = Goes q' t' b"
  shows "bbq_counts n q' (ts[i := t'])"
proof -
  have ok: "thread_ok stop sz (ts ! i)" and c: "bbq_counts n q ts"
    using assms(1,2) by (auto simp: bbq_inv_def simp del: thread_ok.simps)
  note u = at_update [OF assms(2), of critical t'] at_update [OF assms(2), of put_claimed t']
    at_update [OF assms(2), of put_counted t'] at_update [OF assms(2), of put_copying t']
    at_update [OF assms(2), of take_claimed t'] at_update [OF assms(2), of take_counted t']
    at_update [OF assms(2), of take_copying t']
    total_update [OF assms(2), of "\<lambda>t. length (to_put (th_client t))" t']
  from assms(3) ok show ?thesis
    by (cases rule: bbq_act_cases) (use u c in \<open>auto simp: bbq_counts_def\<close>)
qed

lemma bbq_invD:
  assumes "bbq_inv stop sz n (q, ts)"
  shows "0 < n" "bq_item_size q = sz" "bq_queue_size q = n" "length (bq_que q) = sz * n"
    "bbq_counts n q ts" "pointers_ok sz n q ts" "t \<in> set ts \<Longrightarrow> thread_ok stop sz t" "at critical ts \<le> 1"
  using assms by (auto simp: bbq_inv_def bbq_shape_def bbq_counts_def simp del: thread_ok.simps)

lemma critical_copying:
  "th_pc t = Put (PutCopy a) \<Longrightarrow> critical (th_pc t)" "th_pc t = Take (TakeCopy a) \<Longrightarrow> critical (th_pc t)"
  by simp_all

lemma bbq_pointers_step:
  assumes inv: "bbq_inv stop sz n (q, ts)" and i: "i < length ts" and act: "bbq_act stop q (ts ! i) = Goes q' t' b"
  shows "pointers_ok sz n q' (ts[i := t'])"
  unfolding pointers_ok_def
proof
  note d = bbq_invD [OF inv]
  have ok: "thread_ok stop sz (ts ! i)" using d(7) i by simp
  have moves: "critical (th_pc (ts ! i))" if "bq_p q' \<noteq> bq_p q \<or> bq_f q' \<noteq> bq_f q"
    using act ok that by (cases rule: bbq_act_cases) auto
  have own: "(\<forall>a. th_pc t' = Put (PutCopy a) \<longrightarrow> a = sz * ((bq_p q' - 1) mod n)) \<and>
      (\<forall>a. th_pc t' = Take (TakeCopy a) \<longrightarrow> a = sz * ((bq_f q' - 1) mod n))"
    using act ok by (cases rule: bbq_act_cases) (use d(2,3) in auto)
  fix t assume t: "t \<in> set (ts[i := t'])"
  show "(\<forall>a. th_pc t = Put (PutCopy a) \<longrightarrow> a = sz * ((bq_p q' - 1) mod n)) \<and>
      (\<forall>a. th_pc t = Take (TakeCopy a) \<longrightarrow> a = sz * ((bq_f q' - 1) mod n))"
  proof (cases "t = t'")
    case False
    then have old: "t \<in> set ts"
      using t set_update_subset_insert by fastforce
    show ?thesis
    proof (cases "bq_p q' \<noteq> bq_p q \<or> bq_f q' \<noteq> bq_f q")
      case True
      then have "\<not> critical (th_pc t)"
        using at_critical_only [OF d(8) i] moves t False by blast
      then show ?thesis using critical_copying by blast
    next
      case no: False
      then show ?thesis using d(6) old by (simp add: pointers_ok_def)
    qed
  qed (use own in simp)
qed

lemma bbq_inv_step:
  assumes inv: "bbq_inv stop sz n (q, ts)" and i: "i < length ts" and act: "bbq_act stop q (ts ! i) = Goes q' t' b"
  shows "bbq_inv stop sz n (q', ts[i := t']) \<and> \<not> b"
proof -
  note d = bbq_invD [OF inv]
  have ok: "thread_ok stop sz (ts ! i)" using d(7) i by simp
  have shape: "bbq_shape sz n q'"
    using act ok by (cases rule: bbq_act_cases) (use d(2-4) in \<open>auto simp: bbq_shape_def\<close>)
  have "thread_ok stop sz t'" "\<not> b"
    using act ok by (cases rule: bbq_act_cases; use ok in auto)+
  then have "\<forall>t \<in> set (ts[i := t']). thread_ok stop sz t"
    using d(7) set_update_subset_insert [of ts i t'] by blast
  with shape d(1) \<open>\<not> b\<close> bbq_counts_step [OF inv i act] bbq_pointers_step [OF inv i act] show ?thesis
    by (simp add: bbq_inv_def del: thread_ok.simps)
qed

lemma slot_cong: "bq_que q' = bq_que q \<Longrightarrow> bq_item_size q' = bq_item_size q \<Longrightarrow> bq_queue_size q' = bq_queue_size q \<Longrightarrow>
    slot q' k = slot q k"
  by (simp add: slot_def)

lemma at_copying_step:
  assumes "bbq_inv stop sz n (q, ts)" "i < length ts"
  shows "at put_copying (ts[i := t']) + of_bool (put_copying (th_pc (ts ! i))) = at put_copying ts + of_bool (put_copying (th_pc t'))"
    "at take_copying (ts[i := t']) + of_bool (take_copying (th_pc (ts ! i))) = at take_copying ts + of_bool (take_copying (th_pc t'))"
  by (rule at_update [OF assms(2)])+

text \<open>Copying an item in appends it; copying one out takes the first.\<close>

lemma contents_put:
  assumes inv: "bbq_inv stop sz n (q, ts)" and i: "i < length ts"
    and pc: "th_pc (ts ! i) = Put (PutCopy a)" and client: "th_client (ts ! i) = Producer (x # xs)"
    and t': "\<not> put_copying (th_pc t')" "\<not> take_copying (th_pc t')"
  shows "bbq_contents (q\<lparr>bq_que := store a (take (bq_item_size q) x) (bq_que q)\<rparr>) (ts[i := t']) = bbq_contents q ts @ [x]"
    "length (bbq_contents q ts) < n"
proof -
  note d = bbq_invD [OF inv]
  let ?q = "q\<lparr>bq_que := store a (take (bq_item_size q) x) (bq_que q)\<rparr>"
  have crit: "critical (th_pc (ts ! i))" using pc by simp
  have at: "at put_copying ts = 1" "at take_copying ts = 0"
    using at_critical_excl [OF d(8) i crit] pc by simp_all
  then have at': "at put_copying (ts[i := t']) = 0" "at take_copying (ts[i := t']) = 0"
    using at_copying_step [OF inv i, of t'] pc t' by simp_all
  have x: "length x = sz" using d(7) [of "ts ! i"] i pc client by simp
  have a: "a = sz * ((bq_p q - 1) mod n)" using d(6) i pc by (auto simp: pointers_ok_def)
  have "0 < at put_counted ts" using tally_pos [OF i, of "\<lambda>t. put_counted (th_pc t)"] pc by simp
  then have fp: "bq_f q < bq_p q" "bq_p q \<le> bq_f q + n"
    using d(5) by (simp_all add: bbq_counts_def)
  have mem: "a + length x \<le> length (bq_que q)"
    using slot_inside [of "(bq_p q - 1) mod n" n sz] d(1,4) a x by simp
  have new: "slot ?q (bq_p q - 1) = x"
    using fetch_store_same [OF mem] a x d(2,3) by (simp add: slot_def)
  have old: "slot ?q k = slot q k" if "bq_f q \<le> k" "k < bq_p q - 1" for k
  proof -
    have "k mod n \<noteq> (bq_p q - 1) mod n"
      using that fp by (intro slots_distinct) auto
    from slots_disjoint [OF this, of sz] show ?thesis
      using fetch_store_other [OF mem] a x d(2,3) by (simp add: slot_def)
  qed
  have "[bq_f q ..< bq_p q] = [bq_f q ..< bq_p q - 1] @ [bq_p q - 1]"
    using fp(1) by (metis One_nat_def Suc_pred le_less_Suc_eq less_Suc_eq_le less_nat_zero_code linorder_not_le not_gr_zero upt_Suc_append)
  then show "bbq_contents ?q (ts[i := t']) = bbq_contents q ts @ [x]"
    using at at' new old by (simp add: bbq_contents_def)
  show "length (bbq_contents q ts) < n"
    using at fp by (simp add: bbq_contents_def)
qed

lemma contents_take:
  assumes inv: "bbq_inv stop sz n (q, ts)" and i: "i < length ts"
    and pc: "th_pc (ts ! i) = Take (TakeCopy a)"
    and t': "\<not> put_copying (th_pc t')" "\<not> take_copying (th_pc t')"
  shows "bbq_contents q ts = fetch a (bq_item_size q) (bq_que q) # bbq_contents q (ts[i := t'])"
proof -
  note d = bbq_invD [OF inv]
  have crit: "critical (th_pc (ts ! i))" using pc by simp
  have at: "at put_copying ts = 0" "at take_copying ts = 1"
    using at_critical_excl [OF d(8) i crit] pc by simp_all
  then have at': "at put_copying (ts[i := t']) = 0" "at take_copying (ts[i := t']) = 0"
    using at_copying_step [OF inv i, of t'] pc t' by simp_all
  have a: "a = sz * ((bq_f q - 1) mod n)" using d(6) i pc by (auto simp: pointers_ok_def)
  have fp: "0 < bq_f q" "bq_f q \<le> bq_p q"
    using d(5) at(2) by (auto simp: bbq_counts_def)
  show ?thesis
    using at at' a d(2,3) fp by (simp add: bbq_contents_def slot_def upt_conv_Cons)
qed

text \<open>The steps a process is away from its next copy: every step that the specification does not see
  brings it closer.\<close>

definition bbq_rank :: "bbq_pc \<Rightarrow> nat" where
  "bbq_rank pc = (case pc of
    Put PutUnlock \<Rightarrow> 5 | Put PutPost \<Rightarrow> 4 | Put PutWait \<Rightarrow> 3 | Put PutLock \<Rightarrow> 2 | Put PutInc \<Rightarrow> 1 | Put (PutCopy a) \<Rightarrow> 0
  | Take TakeUnlock \<Rightarrow> 5 | Take TakePost \<Rightarrow> 4 | Take TakeWait \<Rightarrow> 3 | Take TakeLock \<Rightarrow> 2 | Take TakeInc \<Rightarrow> 1 | Take (TakeCopy a) \<Rightarrow> 0)"

abbreviation bbq_ranks :: "bbq \<times> bbq_thread list \<Rightarrow> nat" where
  "bbq_ranks s \<equiv> total (\<lambda>t. bbq_rank (th_pc t)) (snd s)"

lemma contents_other:
  assumes inv: "bbq_inv stop sz n (q, ts)" and i: "i < length ts" and act: "bbq_act stop q (ts ! i) = Goes q' t' b"
    and pc: "\<not> put_copying (th_pc (ts ! i))" "\<not> take_copying (th_pc (ts ! i))"
  shows "bbq_contents q' (ts[i := t']) = bbq_contents q ts \<and> th_client t' = th_client (ts ! i)"
proof -
  note d = bbq_invD [OF inv]
  have ok: "thread_ok stop sz (ts ! i)" using d(7) i by simp
  note u = at_copying_step [OF inv i, of t']
  have zero: "at put_copying ts = 0 \<and> at take_copying ts = 0" if "critical (th_pc (ts ! i))"
    using at_critical_excl [OF d(8) i that] pc by simp
  show ?thesis
    using act ok
    by (cases rule: bbq_act_cases) (use u pc zero in \<open>auto simp: bbq_contents_def slot_def fun_eq_iff\<close>)
qed

lemma bbq_refines:
  assumes inv: "bbq_inv stop sz n s" and "sys_step (bbq_act stop) (\<lambda>_. False) (\<lambda>pc. pc) s s'"
  shows "bbq_inv stop sz n s' \<and> (view bbq_contents s' = view bbq_contents s \<and> bbq_ranks s' < bbq_ranks s \<or>
    spec_step stop (Some n) (view bbq_contents s) (view bbq_contents s'))"
  using assms(2)
proof (cases rule: sys_step.cases)
  case (run i ts q q' t')
  note inv' = inv [unfolded run(1)]
  note d = bbq_invD [OF inv']
  have ok: "thread_ok stop sz (ts ! i)" using d(7) run(3) by simp
  have len: "i < length (map th_client ts)" using run(3) by simp
  have "view bbq_contents s' = view bbq_contents s \<and> bbq_ranks s' < bbq_ranks s \<or>
    spec_step stop (Some n) (view bbq_contents s) (view bbq_contents s')"
  proof (cases "put_copying (th_pc (ts ! i)) \<or> take_copying (th_pc (ts ! i))")
    case False
    then have "view bbq_contents s' = view bbq_contents s"
      using contents_other [OF inv' run(3,4)] run(1,2,3) list_update_id [of "map th_client ts" i]
      by (simp add: view_update) (simp add: view_def)
    moreover have "bbq_rank (th_pc t') < bbq_rank (th_pc (ts ! i))"
      using run(4) ok by (cases rule: bbq_act_cases) (use False in \<open>auto simp: bbq_rank_def\<close>)
    ultimately show ?thesis
      using total_update [OF run(3), of "\<lambda>t. bbq_rank (th_pc t)" t'] run(1,2) by simp
  next
    case True
    from run(4) ok show ?thesis
    proof (cases rule: bbq_act_cases)
      case (put_copy a x xs)
      have "spec_step stop (Some n) (bbq_contents q ts, map th_client ts) (bbq_contents q ts @ [x], (map th_client ts)[i := Producer xs])"
        using contents_put(2) [OF inv' run(3) put_copy(1,2), of t'] put_copy by (intro spec_step.put len) (simp_all add: run(3))
      then show ?thesis
        using contents_put(1) [OF inv' run(3) put_copy(1,2), of t'] put_copy run(1,2) by (simp add: view_update) (simp add: view_def)
    next
      case (take_copy a got)
      let ?x = "fetch a (bq_item_size q) (bq_que q)"
      have "\<not> finished stop (Consumer got)" using ok take_copy(1,2) by simp
      then have "spec_step stop (Some n) (?x # bbq_contents q (ts[i := t']), map th_client ts)
          (bbq_contents q (ts[i := t']), (map th_client ts)[i := Consumer (got @ [?x])])"
        using take_copy(2) run(3) by (intro spec_step.take len) simp_all
      then show ?thesis
        using contents_take [OF inv' run(3) take_copy(1), of t'] take_copy run(1,2)
        by (simp add: view_update) (simp add: view_def)
    qed (use True in auto)
  qed
  then show ?thesis using bbq_inv_step [OF inv' run(3,4)] run(2) by simp
next
  case (notify i ts q q' t' j)
  then show ?thesis using bbq_inv_step inv by blast
next
  case (notify_none i ts q q' t')
  then show ?thesis using bbq_inv_step inv by blast
qed simp

lemma bbq_defined:
  assumes inv: "bbq_inv stop sz n (q, ts)" and t: "t \<in> set ts"
  shows "bbq_act stop q t \<noteq> Undefined"
proof -
  note d = bbq_invD [OF inv]
  obtain i where i: "i < length ts" "ts ! i = t" using t by (auto simp: in_set_conv_nth)
  note ok = d(7) [OF t]
  note c = d(5) [unfolded bbq_counts_def]
  have copy: "sz * (k mod n) + sz \<le> length (bq_que q)" for k
    using slot_inside [of "k mod n" n sz] d(1,4) by simp
  show ?thesis
  proof (cases "th_pc t")
    case (Put pc)
    then obtain xs where xs: "th_client t = Producer xs" using ok by (cases "th_client t") auto
    have "bq_p q < int_max" if "pc = PutInc"
    proof -
      have "at put_copying ts = 0"
        using at_critical_excl(1) [OF d(8) i(1)] i(2) Put that by simp
      moreover have "0 < length (to_put (th_client t))" using ok Put xs that by simp
      then have "0 < total (\<lambda>t. length (to_put (th_client t))) ts"
        using total_ge [OF i(1), of "\<lambda>t. length (to_put (th_client t))"] unfolding i(2) by linarith
      ultimately show ?thesis using c by simp
    qed
    moreover have "a + sz \<le> length (bq_que q)" if "pc = PutCopy a" for a
      using d(6) t Put that copy by (auto simp: pointers_ok_def)
    ultimately show ?thesis
      using ok Put xs d(2) by (cases pc; cases xs) auto
  next
    case (Take pc)
    then obtain got where got: "th_client t = Consumer got" using ok by (cases "th_client t") auto
    have "bq_f q < int_max" if "pc = TakeInc"
    proof -
      have "0 < at take_claimed ts"
        using tally_pos [OF i(1), of "\<lambda>t. take_claimed (th_pc t)"] i(2) Take that by simp
      moreover have "at put_copying ts = 0"
        using at_critical_excl(1) [OF d(8) i(1)] i(2) Take that by simp
      ultimately show ?thesis using c by simp
    qed
    moreover have "a + sz \<le> length (bq_que q)" if "pc = TakeCopy a" for a
      using d(6) t Take that copy by (auto simp: pointers_ok_def)
    ultimately show ?thesis
      using Take got d(2) by (cases pc) auto
  qed
qed

lemma bbq_progress:
  assumes inv: "bbq_inv stop sz n (q, ts)" and blocked: "all_blocked (bbq_act stop) (q, ts)" and t: "t \<in> set ts"
  shows "finished stop (th_client t) \<or> held_up (Some n) (bbq_contents q ts) (th_client t)"
proof -
  note d = bbq_invD [OF inv]
  note c = d(5) [unfolded bbq_counts_def]
  have b: "bbq_act stop q u = Blocked" if "u \<in> set ts" for u
    using blocked that by (simp add: all_blocked_def del: bbq_act.simps)
  have never: "\<not> critical (th_pc u)" if "u \<in> set ts" for u
    using b [OF that] d(7) [OF that]
    by (cases "th_pc u"; cases "th_client u") (auto split: put_pc.splits take_pc.splits list.splits if_splits)
  then have "at critical ts = 0" by (simp add: tally_zero_set)
  then have m: "0 < bq_mutex q" using c by simp
  have idle: "th_pc u = Put PutWait \<or> th_pc u = Take TakeWait" if "u \<in> set ts" for u
  proof (cases "th_pc u")
    case (Put pc)
    then show ?thesis using b [OF that] d(7) [OF that] m by (cases pc; cases "th_client u") (auto split: list.splits if_splits)
  next
    case (Take pc)
    then show ?thesis using b [OF that] d(7) [OF that] m by (cases pc; cases "th_client u") (auto split: if_splits)
  qed
  then have "at put_claimed ts = 0" "at take_claimed ts = 0" "at put_counted ts = 0" "at take_counted ts = 0"
    "at put_copying ts = 0" "at take_copying ts = 0"
    unfolding tally_zero_set by fastforce+
  then have full: "bq_full q = length (bbq_contents q ts)" and empty: "bq_empty q + length (bbq_contents q ts) = n"
    using c by (auto simp: bbq_contents_def)
  show ?thesis
    using idle [OF t] b [OF t] d(7) [OF t] full empty
    by (cases "th_client t") (auto split: list.splits if_splits)
qed

interpretation bbq: terminating_queue "bbq_act stop" "\<lambda>_. False" "\<lambda>pc. pc" bbq_contents "bbq_inv stop sz n" stop "Some n" bbq_ranks
  for stop sz n
proof unfold_locales
  show "bbq_inv stop sz n s' \<and> (view bbq_contents s' = view bbq_contents s \<or>
      spec_step stop (Some n) (view bbq_contents s) (view bbq_contents s'))"
    if "bbq_inv stop sz n s" "sys_step (bbq_act stop) (\<lambda>_. False) (\<lambda>pc. pc) s s'" for s s'
    using bbq_refines [OF that] by blast
  show "bbq_ranks s' < bbq_ranks s"
    if "bbq_inv stop sz n s" "sys_step (bbq_act stop) (\<lambda>_. False) (\<lambda>pc. pc) s s'"
      "view bbq_contents s' = view bbq_contents s" for s s'
    using bbq_refines [OF that(1,2)] that(3) work_left_step by fastforce
qed (rule bbq_defined bbq_progress; assumption)+


section \<open>The program\<close>

text \<open>\<^verbatim>\<open>struct Node\<close> as the bytes \<^verbatim>\<open>memcpy\<close> sees: two little-endian \<^verbatim>\<open>int\<close>s, \<^verbatim>\<open>author\<close> and \<^verbatim>\<open>id\<close>.\<close>

definition int_bytes :: "u32 \<Rightarrow> byte list" where
  "int_bytes x = [ucast x, ucast (drop_bit 8 x), ucast (drop_bit 16 x), ucast (drop_bit 24 x)]"

definition bytes_int :: "byte list \<Rightarrow> u32" where
  "bytes_int bs = ucast (bs ! 0) OR push_bit 8 (ucast (bs ! 1)) OR push_bit 16 (ucast (bs ! 2)) OR push_bit 24 (ucast (bs ! 3))"

definition node_bytes :: "u32 \<Rightarrow> u32 \<Rightarrow> byte list" where
  "node_bytes author i = int_bytes author @ int_bytes i"

definition node_author :: "byte list \<Rightarrow> u32" where
  "node_author bs = bytes_int (take 4 bs)"

definition node_id :: "byte list \<Rightarrow> u32" where
  "node_id bs = bytes_int (take 4 (drop 4 bs))"

definition stop_node :: "byte list \<Rightarrow> bool" where
  "stop_node bs \<longleftrightarrow> node_author bs = -1"

text \<open>What \<^verbatim>\<open>producer_proc(id)\<close> puts.\<close>

definition producer_proc :: "nat \<Rightarrow> nat \<Rightarrow> byte list list" where
  "producer_proc item_num k = map (\<lambda>i. node_bytes (of_nat k) (of_nat i)) [0..<item_num] @ [node_bytes (-1) 0]"

text \<open>The state in which \<^verbatim>\<open>main\<close> has forked its children; the memory of \<^verbatim>\<open>mmap\<close> is zero.\<close>

definition bbq_start :: "nat \<Rightarrow> nat \<Rightarrow> byte list list list \<Rightarrow> nat \<Rightarrow> bbq \<times> bbq_thread list" where
  "bbq_start sz n itemss k = (bbq_init (replicate (sz * n) 0) sz n,
    map (\<lambda>xs. \<lparr>th_pc = Put PutWait, th_client = Producer xs\<rparr>) itemss @
    replicate k \<lparr>th_pc = Take TakeWait, th_client = Consumer []\<rparr>)"

definition bbq_main :: "bbq \<times> bbq_thread list" where
  "bbq_main = bbq_start 8 1000 (map (producer_proc 100) [0..<4]) 4"

definition bbq_step :: "(byte list \<Rightarrow> bool) \<Rightarrow> bbq \<times> bbq_thread list \<Rightarrow> bbq \<times> bbq_thread list \<Rightarrow> bool" where
  "bbq_step stop = sys_step (bbq_act stop) (\<lambda>_. False) (\<lambda>pc. pc)"

lemma bytes_int_bytes [simp]: "bytes_int (int_bytes x) = x"
proof (rule bit_word_eqI)
  fix k assume "k < LENGTH(32)"
  then have "k < 32" by simp
  then show "bit (bytes_int (int_bytes x)) k = bit x k"
    by (cases "k < 8"; cases "k < 16"; cases "k < 24") (auto simp: bytes_int_def int_bytes_def bit_simps)
qed

lemma node_fields [simp]: "node_author (node_bytes a i) = a" "node_id (node_bytes a i) = i" "length (node_bytes a i) = 8"
proof -
  have "length (int_bytes x) = 4" for x by (simp add: int_bytes_def)
  then show "node_author (node_bytes a i) = a" "node_id (node_bytes a i) = i" "length (node_bytes a i) = 8"
    by (simp_all add: node_author_def node_id_def node_bytes_def)
qed

lemma bbq_start_inv:
  assumes "0 < n" "\<forall>xs \<in> set itemss. \<forall>x \<in> set xs. length x = sz" "length (concat itemss) \<le> int_max"
  shows "bbq_inv stop sz n (bbq_start sz n itemss k)"
proof -
  have "total length itemss \<le> int_max"
    using assms(3) by (simp add: total_def length_concat)
  then show ?thesis
    using assms(1,2)
    by (auto simp: bbq_inv_def bbq_shape_def bbq_counts_def pointers_ok_def bbq_start_def bbq_init_def)
qed

lemma bbq_start_view: "view bbq_contents (bbq_start sz n itemss k) = ([], clients itemss k)"
  by (simp add: view_def bbq_start_def bbq_init_def bbq_contents_def clients_def)

lemma small_author: "k < 4 \<Longrightarrow> (of_nat k :: u32) \<noteq> -1"
proof
  assume "k < 4" "(of_nat k :: u32) = -1"
  then have "k = 0 \<or> k = 1 \<or> k = 2 \<or> k = 3" "(of_nat k :: u32) = -1" by auto
  then show False by auto
qed

lemma bbq_main_protocol:
  "stop_protocol stop_node (map (producer_proc k) [0..<4]) 4"
  by (auto simp: stop_protocol_def producer_proc_def last_only_def stop_node_def small_author)

lemma bbq_main_inv: "bbq_inv stop_node 8 1000 bbq_main"
  unfolding bbq_main_def
  by (rule bbq_start_inv) (auto simp: producer_proc_def length_concat comp_def int_max_def sum_list_triv)


lemma copying_critical: "put_copying pc \<Longrightarrow> critical pc" "take_copying pc \<Longrightarrow> critical pc"
  by (cases pc; auto)+

lemma copying_le_todo:
  "(\<And>t. t \<in> set ts \<Longrightarrow> thread_ok stop sz t) \<Longrightarrow> at put_copying ts \<le> total (\<lambda>t. length (to_put (th_client t))) ts"
proof (induction ts)
  case (Cons t ts)
  have "of_bool (put_copying (th_pc t)) \<le> length (to_put (th_client t))"
    using Cons(2) [of t] by (cases "th_pc t"; cases "th_client t") (auto simp: Suc_le_eq)
  then show ?case using Cons by force
qed simp

lemma small_authors_eq: "i < 4 \<Longrightarrow> k < 4 \<Longrightarrow> (of_nat i :: u32) = of_nat k \<longleftrightarrow> i = k"
  by (simp add: of_nat_eq_iff word_of_nat_eq_iff take_bit_nat_eq_self)

section \<open>What the queue promises\<close>



text \<open>C13: the program terminates and delivers everything.  However the four producers and four consumers of
  \<^verbatim>\<open>main\<close> are scheduled, no run is infinite, and when no process can go on, all have finished (none is left
  waiting on a semaphore) and the consumers have together taken exactly the items that the producers put.\<close>

theorem bbq_main_completes:
  "(\<nexists>f. f 0 = bbq_main \<and> (\<forall>i :: nat. bbq_step stop_node (f i) (f (Suc i)))) \<and>
    (\<forall>s. (bbq_step stop_node)\<^sup>*\<^sup>* bbq_main s \<and> all_blocked (bbq_act stop_node) s \<longrightarrow>
      (\<forall>t \<in> set (snd s). finished stop_node (th_client t)) \<and>
      sum_list (map (\<lambda>t. mset (taken (th_client t))) (snd s)) = mset (concat (map (producer_proc 100) [0..<4])))"
proof (intro conjI allI impI)
  show "\<nexists>f. f 0 = bbq_main \<and> (\<forall>i :: nat. bbq_step stop_node (f i) (f (Suc i)))"
    using bbq.finite_runs bbq_main_inv unfolding bbq_step_def by metis
  have v: "view bbq_contents bbq_main = ([], clients (map (producer_proc 100) [0..<4]) 4)"
    by (simp add: bbq_main_def bbq_start_view)
  fix s
  assume s: "(bbq_step stop_node)\<^sup>*\<^sup>* bbq_main s \<and> all_blocked (bbq_act stop_node) s"
  have bal: "balanced stop_node (view bbq_contents bbq_main)"
    unfolding v by (rule balanced_start [OF bbq_main_protocol])
  note c = bbq.run_completes [OF conjunct1 [OF s, unfolded bbq_step_def] bbq_main_inv bal _ conjunct2 [OF s]]
  from c show "\<forall>t \<in> set (snd s). finished stop_node (th_client t)" by simp
  from c show "sum_list (map (\<lambda>t. mset (taken (th_client t))) (snd s)) = mset (concat (map (producer_proc 100) [0..<4]))"
    by (simp only: v all_items_start option.inject zero_neq_numeral simp_thms refl numeral_eq_iff zero_less_numeral)
qed

lemma bbq_main_completes_witness:
  "\<exists>s. (bbq_step stop_node)\<^sup>*\<^sup>* bbq_main s \<and>
    sum_list (map (\<lambda>t. mset (taken (th_client t))) (snd s)) = mset (concat (map (producer_proc 100) [0..<4]))"
  using bbq_main_completes bbq.runs_to_the_end [OF bbq_main_inv] unfolding bbq_step_def by blast

text \<open>the order of each producer is kept.  At any time, what a consumer of \<^verbatim>\<open>main\<close> has taken from producer \<open>i\<close>
  is a subsequence of what producer \<open>i\<close> puts, in this order: nothing is duplicated or overtaken.\<close>

theorem bbq_main_order:
  assumes "(bbq_step stop_node)\<^sup>*\<^sup>* bbq_main s" "i < 4" "j \<in> {4..<8}"
  shows "subseq (filter (\<lambda>x. node_author x = of_nat i) (taken (th_client (snd s ! j))))
    (map (\<lambda>k. node_bytes (of_nat i) (of_nat k)) [0..<100])"
proof -
  let ?P = "\<lambda>x. node_author x = of_nat i"
  let ?start = "bbq_main"
  have len: "length (snd ?start) = 8"
    by (simp add: bbq_main_def bbq_start_def)
  have prod: "th_client (snd ?start ! k) = Producer (producer_proc 100 k)" if "k < 4" for k
    using that by (simp add: bbq_main_def bbq_start_def nth_append)
  have cons: "th_client (snd ?start ! k) = Consumer []" if "k \<in> {4..<8}" for k
  proof -
    have "k - 4 < 4" "\<not> k < 4" using that by auto
    then show ?thesis by (simp add: bbq_main_def bbq_start_def nth_append)
  qed
  have "\<not> ?P x" if "k < 4" "k \<noteq> i" "x \<in> set (producer_proc 100 k)" for k x
    using that assms(2) small_author [of i] by (auto simp: producer_proc_def of_nat_eq_iff small_authors_eq)
  then have "only_from ?P i (map th_client (snd ?start))"
    using prod cons len by (auto simp: only_from_def) (metis (full_types) atLeastLessThan_iff linorder_not_less to_put.simps list.distinct(1) list.set(1) empty_iff)
  moreover have "bbq_contents (fst ?start) (snd ?start) = []"
    by (simp add: bbq_main_def bbq_start_def bbq_init_def bbq_contents_def)
  ultimately have "subseq (filter ?P (taken (th_client (snd s ! j)))) (filter ?P (producer_proc 100 i))"
    using bbq.run_order [OF assms(1) [unfolded bbq_step_def] bbq_main_inv, of ?P i j] prod [OF assms(2)] cons [OF assms(3)]
      len assms(2,3) by simp
  moreover have "filter ?P (producer_proc 100 i) = map (\<lambda>k. node_bytes (of_nat i) (of_nat k)) [0..<100]"
    using small_author [OF assms(2)] by (auto simp: producer_proc_def filter_map comp_def filter_True)
  ultimately show ?thesis by simp
qed

lemma bbq_main_order_witness:
  "subseq (filter (\<lambda>x. node_author x = of_nat 0) (taken (th_client (snd bbq_main ! 4))))
    (map (\<lambda>k. node_bytes (of_nat 0) (of_nat k)) [0..<100])"
  using bbq_main_order [of bbq_main 0 4] by simp

end
