(* ===== verification/Blocking_Queue.thy ===== *)
theory Blocking_Queue
  imports Queue_Contract
begin

text \<open>
  The unbounded blocking queues of \<^verbatim>\<open>cpp/thread\<close>: \<^verbatim>\<open>std::queue\<close> with a mutex and a semaphore
  (\<^verbatim>\<open>blocking_queue_semaphore.h\<close>), with a mutex and a condition variable (\<^verbatim>\<open>blocking_queue_condvar.h\<close>), and the
  class of \<^verbatim>\<open>std_thread/blocking_queue.cpp\<close>, which notifies before it unlocks.

  Taking from an empty \<^verbatim>\<open>std::queue\<close> is undefined behaviour; a mutex is locked or not.
\<close>

section \<open>Threads on a queue\<close>

text \<open>
  A thread calls \<^verbatim>\<open>put\<close> on its items, or \<^verbatim>\<open>take\<close> until it gets a stop item.  \<open>fput\<close> reports whether its step
  handed the item over, \<open>ftake\<close> which item it got; \<open>start\<close> are the program counters at a call.
\<close>

definition queue_act :: "('p \<Rightarrow> 'a \<Rightarrow> 'g \<Rightarrow> ('g, 'p \<times> bool) outcome) \<Rightarrow> ('p \<Rightarrow> 'g \<Rightarrow> ('g, 'p \<times> 'a option) outcome) \<Rightarrow>
    ('p \<Rightarrow> bool) \<Rightarrow> ('a \<Rightarrow> bool) \<Rightarrow> 'g \<Rightarrow> ('p, 'a) thread \<Rightarrow> ('g, ('p, 'a) thread) outcome" where
  "queue_act fput ftake start stop g t =
    (if start (th_pc t) \<and> finished stop (th_client t) then Blocked
     else case th_client t of
       Producer xs \<Rightarrow>
         (case fput (th_pc t) (hd xs) g of
           Blocked \<Rightarrow> Blocked | Undefined \<Rightarrow> Undefined
         | Goes g1 (pc, sent) b \<Rightarrow> Goes g1 \<lparr>th_pc = pc, th_client = Producer (if sent then tl xs else xs)\<rparr> b)
     | Consumer got \<Rightarrow>
         (case ftake (th_pc t) g of
           Blocked \<Rightarrow> Blocked | Undefined \<Rightarrow> Undefined
         | Goes g1 (pc, x) b \<Rightarrow>
             Goes g1 \<lparr>th_pc = pc, th_client = Consumer (case x of None \<Rightarrow> got | Some y \<Rightarrow> got @ [y])\<rparr> b))"

definition queue_start :: "'p \<Rightarrow> 'p \<Rightarrow> 'a list list \<Rightarrow> nat \<Rightarrow> ('p, 'a) thread list" where
  "queue_start put_pc take_pc itemss k =
    map (\<lambda>xs. \<lparr>th_pc = put_pc, th_client = Producer xs\<rparr>) itemss @
    replicate k \<lparr>th_pc = take_pc, th_client = Consumer []\<rparr>"

section \<open>With a semaphore\<close>

record 'a sem_queue =
  sq_queue :: "'a list"
  sq_locked :: bool
  sq_not_empty :: nat

definition sem_queue_new :: "'a sem_queue" where
  "sem_queue_new = \<lparr>sq_queue = [], sq_locked = False, sq_not_empty = 0\<rparr>"

datatype sem_pc = SPutLock | SPutPush | SPutUnlock | SPutPost | STakeWait | STakeLock | STakePop | STakeUnlock

fun sem_put :: "sem_pc \<Rightarrow> 'a \<Rightarrow> 'a sem_queue \<Rightarrow> ('a sem_queue, sem_pc \<times> bool) outcome" where
  "sem_put SPutLock item q = (if sq_locked q then Blocked else Goes (q\<lparr>sq_locked := True\<rparr>) (SPutPush, False) False)"
| "sem_put SPutPush item q = Goes (q\<lparr>sq_queue := sq_queue q @ [item]\<rparr>) (SPutUnlock, True) False"
| "sem_put SPutUnlock item q = Goes (q\<lparr>sq_locked := False\<rparr>) (SPutPost, False) False"
| "sem_put SPutPost item q = Goes (q\<lparr>sq_not_empty := sq_not_empty q + 1\<rparr>) (SPutLock, False) False"
| "sem_put _ item q = Blocked"

fun sem_take :: "sem_pc \<Rightarrow> 'a sem_queue \<Rightarrow> ('a sem_queue, sem_pc \<times> 'a option) outcome" where
  "sem_take STakeWait q =
    (if 0 < sq_not_empty q then Goes (q\<lparr>sq_not_empty := sq_not_empty q - 1\<rparr>) (STakeLock, None) False else Blocked)"
| "sem_take STakeLock q = (if sq_locked q then Blocked else Goes (q\<lparr>sq_locked := True\<rparr>) (STakePop, None) False)"
| "sem_take STakePop q =
    (case sq_queue q of [] \<Rightarrow> Undefined | x # xs \<Rightarrow> Goes (q\<lparr>sq_queue := xs\<rparr>) (STakeUnlock, Some x) False)"
| "sem_take STakeUnlock q = Goes (q\<lparr>sq_locked := False\<rparr>) (STakeWait, None) False"
| "sem_take _ q = Blocked"

text \<open>\<^verbatim>\<open>empty()\<close>, which blocks while the mutex is taken.\<close>

definition sem_empty :: "'a sem_queue \<Rightarrow> bool option" where
  "sem_empty q = (if sq_locked q then None else Some (sq_queue q = []))"

definition sem_act :: "('a \<Rightarrow> bool) \<Rightarrow> 'a sem_queue \<Rightarrow> (sem_pc, 'a) thread \<Rightarrow> ('a sem_queue, (sem_pc, 'a) thread) outcome" where
  "sem_act = queue_act sem_put sem_take (\<lambda>pc. pc = SPutLock \<or> pc = STakeWait)"

section \<open>With a condition variable\<close>

record 'a cv_queue =
  cq_queue :: "'a list"
  cq_locked :: bool

definition cv_queue_new :: "'a cv_queue" where
  "cv_queue_new = \<lparr>cq_queue = [], cq_locked = False\<rparr>"

text \<open>
  \<open>CPutNotify\<close> and \<open>CPutLeave\<close> are the order of \<^verbatim>\<open>std_thread/blocking_queue.cpp\<close>, where the guard unlocks
  when the function returns; \<open>CPutUnlock\<close> and \<open>CPutSignal\<close> the order of the header.  \<open>CTakeWaiting\<close> is a
  thread inside \<^verbatim>\<open>pthread_cond_wait\<close> that has given up the mutex, \<open>CTakeRelock\<close> one that has been woken and
  takes the mutex again.
\<close>

datatype cv_pc = CPutLock | CPutPush | CPutUnlock | CPutSignal | CPutNotify | CPutLeave
  | CTakeLock | CTakeCheck | CTakeWaiting | CTakeRelock | CTakePop | CTakeUnlock

fun cv_put :: "cv_pc \<Rightarrow> 'a \<Rightarrow> 'a cv_queue \<Rightarrow> ('a cv_queue, cv_pc \<times> bool) outcome" where
  "cv_put CPutLock item q = (if cq_locked q then Blocked else Goes (q\<lparr>cq_locked := True\<rparr>) (CPutPush, False) False)"
| "cv_put CPutPush item q = Goes (q\<lparr>cq_queue := cq_queue q @ [item]\<rparr>) (CPutUnlock, True) False"
| "cv_put CPutUnlock item q = Goes (q\<lparr>cq_locked := False\<rparr>) (CPutSignal, False) False"
| "cv_put CPutSignal item q = Goes q (CPutLock, False) True"
| "cv_put _ item q = Blocked"

fun std_put :: "cv_pc \<Rightarrow> 'a \<Rightarrow> 'a cv_queue \<Rightarrow> ('a cv_queue, cv_pc \<times> bool) outcome" where
  "std_put CPutLock item q = (if cq_locked q then Blocked else Goes (q\<lparr>cq_locked := True\<rparr>) (CPutPush, False) False)"
| "std_put CPutPush item q = Goes (q\<lparr>cq_queue := cq_queue q @ [item]\<rparr>) (CPutNotify, True) False"
| "std_put CPutNotify item q = Goes q (CPutLeave, False) True"
| "std_put CPutLeave item q = Goes (q\<lparr>cq_locked := False\<rparr>) (CPutLock, False) False"
| "std_put _ item q = Blocked"

fun cv_take :: "cv_pc \<Rightarrow> 'a cv_queue \<Rightarrow> ('a cv_queue, cv_pc \<times> 'a option) outcome" where
  "cv_take CTakeLock q = (if cq_locked q then Blocked else Goes (q\<lparr>cq_locked := True\<rparr>) (CTakeCheck, None) False)"
| "cv_take CTakeCheck q =
    (if cq_queue q = [] then Goes (q\<lparr>cq_locked := False\<rparr>) (CTakeWaiting, None) False else Goes q (CTakePop, None) False)"
| "cv_take CTakeRelock q = (if cq_locked q then Blocked else Goes (q\<lparr>cq_locked := True\<rparr>) (CTakeCheck, None) False)"
| "cv_take CTakePop q =
    (case cq_queue q of [] \<Rightarrow> Undefined | x # xs \<Rightarrow> Goes (q\<lparr>cq_queue := xs\<rparr>) (CTakeUnlock, Some x) False)"
| "cv_take CTakeUnlock q = Goes (q\<lparr>cq_locked := False\<rparr>) (CTakeLock, None) False"
| "cv_take _ q = Blocked"

definition cv_empty :: "'a cv_queue \<Rightarrow> bool option" where
  "cv_empty q = (if cq_locked q then None else Some (cq_queue q = []))"

definition cv_act :: "('a \<Rightarrow> bool) \<Rightarrow> 'a cv_queue \<Rightarrow> (cv_pc, 'a) thread \<Rightarrow> ('a cv_queue, (cv_pc, 'a) thread) outcome" where
  "cv_act = queue_act cv_put cv_take (\<lambda>pc. pc = CPutLock \<or> pc = CTakeLock)"

definition std_act :: "('a \<Rightarrow> bool) \<Rightarrow> 'a cv_queue \<Rightarrow> (cv_pc, 'a) thread \<Rightarrow> ('a cv_queue, (cv_pc, 'a) thread) outcome" where
  "std_act = queue_act std_put cv_take (\<lambda>pc. pc = CPutLock \<or> pc = CTakeLock)"

section \<open>The programs\<close>

text \<open>\<^verbatim>\<open>main.cpp\<close> of both directories: a null pointer, \<open>None\<close>, is the stop item.\<close>

definition node_producer :: "nat \<Rightarrow> nat \<Rightarrow> (nat \<times> nat) option list" where
  "node_producer item_num k = map (\<lambda>i. if i = item_num then None else Some (k, i)) [0..<item_num + 1]"

definition sem_main :: "(nat \<times> nat) option sem_queue \<times> (sem_pc, (nat \<times> nat) option) thread list" where
  "sem_main = (sem_queue_new, queue_start SPutLock STakeWait (map (node_producer 1000) [0..<2]) 2)"

text \<open>\<^verbatim>\<open>Producer::run\<close> of \<^verbatim>\<open>std_thread/blocking_queue.cpp\<close>.\<close>

definition number_producer :: "nat \<Rightarrow> nat list" where
  "number_producer num = [1..<num + 1] @ [0]"

definition std_main :: "nat cv_queue \<times> (cv_pc, nat) thread list" where
  "std_main = (cv_queue_new, queue_start CPutLock CTakeLock (replicate 4 (number_producer 10)) 4)"

section \<open>The semaphore keeps count\<close>

abbreviation pc_in :: "'p set \<Rightarrow> ('p, 'a) thread list \<Rightarrow> nat" where
  "pc_in S ts \<equiv> tally (\<lambda>t. th_pc t \<in> S) ts"

definition sem_thread_ok :: "('a \<Rightarrow> bool) \<Rightarrow> (sem_pc, 'a) thread \<Rightarrow> bool" where
  "sem_thread_ok stop t \<longleftrightarrow>
    (case th_client t of
      Producer xs \<Rightarrow> th_pc t \<in> {SPutLock, SPutPush, SPutUnlock, SPutPost} \<and> (th_pc t = SPutPush \<longrightarrow> xs \<noteq> [])
    | Consumer got \<Rightarrow> th_pc t \<in> {STakeWait, STakeLock, STakePop, STakeUnlock} \<and>
        (th_pc t \<in> {STakeLock, STakePop} \<longrightarrow> \<not> finished stop (Consumer got)))"

definition sem_inv :: "('a \<Rightarrow> bool) \<Rightarrow> 'a sem_queue \<times> (sem_pc, 'a) thread list \<Rightarrow> bool" where
  "sem_inv stop = (\<lambda>(q, ts). (\<forall>t \<in> set ts. sem_thread_ok stop t) \<and>
    of_bool (sq_locked q) = pc_in {SPutPush, SPutUnlock, STakePop, STakeUnlock} ts \<and>
    sq_not_empty q + pc_in {STakeLock, STakePop} ts + pc_in {SPutUnlock, SPutPost} ts = length (sq_queue q))"

lemma sem_act_cases:
  assumes "sem_act stop q t = Goes q' t' b" "sem_thread_ok stop t"
  obtains
    (put_lock) xs where "th_pc t = SPutLock" "th_client t = Producer xs" "\<not> sq_locked q" "\<not> b"
      "q' = q\<lparr>sq_locked := True\<rparr>" "t' = \<lparr>th_pc = SPutPush, th_client = Producer xs\<rparr>" "xs \<noteq> []"
  | (put_push) x xs where "th_pc t = SPutPush" "th_client t = Producer (x # xs)" "\<not> b"
      "q' = q\<lparr>sq_queue := sq_queue q @ [x]\<rparr>" "t' = \<lparr>th_pc = SPutUnlock, th_client = Producer xs\<rparr>"
  | (put_unlock) xs where "th_pc t = SPutUnlock" "th_client t = Producer xs" "\<not> b"
      "q' = q\<lparr>sq_locked := False\<rparr>" "t' = \<lparr>th_pc = SPutPost, th_client = Producer xs\<rparr>"
  | (put_post) xs where "th_pc t = SPutPost" "th_client t = Producer xs" "\<not> b"
      "q' = q\<lparr>sq_not_empty := sq_not_empty q + 1\<rparr>" "t' = \<lparr>th_pc = SPutLock, th_client = Producer xs\<rparr>"
  | (take_wait) got where "th_pc t = STakeWait" "th_client t = Consumer got" "\<not> b" "0 < sq_not_empty q"
      "\<not> finished stop (Consumer got)"
      "q' = q\<lparr>sq_not_empty := sq_not_empty q - 1\<rparr>" "t' = \<lparr>th_pc = STakeLock, th_client = Consumer got\<rparr>"
  | (take_lock) got where "th_pc t = STakeLock" "th_client t = Consumer got" "\<not> b" "\<not> sq_locked q"
      "q' = q\<lparr>sq_locked := True\<rparr>" "t' = \<lparr>th_pc = STakePop, th_client = Consumer got\<rparr>"
  | (take_pop) got x xs where "th_pc t = STakePop" "th_client t = Consumer got" "\<not> b" "sq_queue q = x # xs"
      "\<not> finished stop (Consumer got)"
      "q' = q\<lparr>sq_queue := xs\<rparr>" "t' = \<lparr>th_pc = STakeUnlock, th_client = Consumer (got @ [x])\<rparr>"
  | (take_unlock) got where "th_pc t = STakeUnlock" "th_client t = Consumer got" "\<not> b"
      "q' = q\<lparr>sq_locked := False\<rparr>" "t' = \<lparr>th_pc = STakeWait, th_client = Consumer got\<rparr>"
proof (cases "th_client t")
  case (Producer xs)
  show thesis
    by (cases "th_pc t"; cases xs)
      (use assms Producer in \<open>auto simp: sem_act_def queue_act_def sem_thread_ok_def split: if_splits intro: that\<close>)
next
  case (Consumer got)
  show thesis
    by (cases "th_pc t")
      (use assms Consumer in \<open>auto simp: sem_act_def queue_act_def sem_thread_ok_def split: if_splits list.splits intro: that\<close>)
qed

definition sem_rank :: "sem_pc \<Rightarrow> nat" where
  "sem_rank pc = (case pc of SPutUnlock \<Rightarrow> 3 | SPutPost \<Rightarrow> 2 | SPutLock \<Rightarrow> 1 | SPutPush \<Rightarrow> 0
    | STakeUnlock \<Rightarrow> 3 | STakeWait \<Rightarrow> 2 | STakeLock \<Rightarrow> 1 | STakePop \<Rightarrow> 0)"

abbreviation sem_ranks :: "'a sem_queue \<times> (sem_pc, 'a) thread list \<Rightarrow> nat" where
  "sem_ranks s \<equiv> total (\<lambda>t. sem_rank (th_pc t)) (snd s)"

abbreviation sem_contents :: "'a sem_queue \<Rightarrow> (sem_pc, 'a) thread list \<Rightarrow> 'a list" where
  "sem_contents q ts \<equiv> sq_queue q"

lemma sem_inv_step:
  assumes inv: "sem_inv stop (q, ts)" and i: "i < length ts" and act: "sem_act stop q (ts ! i) = Goes q' t' b"
  shows "sem_inv stop (q', ts[i := t']) \<and> \<not> b"
proof -
  have ok: "sem_thread_ok stop (ts ! i)" using inv i by (simp add: sem_inv_def)
  note u = tally_update [OF i, of "\<lambda>t. th_pc t \<in> {SPutPush, SPutUnlock, STakePop, STakeUnlock}" t']
    tally_update [OF i, of "\<lambda>t. th_pc t \<in> {STakeLock, STakePop}" t']
    tally_update [OF i, of "\<lambda>t. th_pc t \<in> {SPutUnlock, SPutPost}" t']
  have "sem_thread_ok stop t'" "\<not> b"
    using act ok by (cases rule: sem_act_cases; use ok in \<open>auto simp: sem_thread_ok_def\<close>)+
  then have "\<forall>t \<in> set (ts[i := t']). sem_thread_ok stop t"
    using inv set_update_subset_insert [of ts i t'] by (auto simp: sem_inv_def)
  moreover have "of_bool (sq_locked q') = pc_in {SPutPush, SPutUnlock, STakePop, STakeUnlock} (ts[i := t'])"
    using act ok by (cases rule: sem_act_cases; cases "sq_locked q") (use inv u(1) in \<open>auto simp: sem_inv_def\<close>)
  moreover have "sq_not_empty q' + pc_in {STakeLock, STakePop} (ts[i := t']) + pc_in {SPutUnlock, SPutPost} (ts[i := t'])
      = length (sq_queue q')"
    using act ok by (cases rule: sem_act_cases) (use inv u(2,3) in \<open>auto simp: sem_inv_def\<close>)
  ultimately show ?thesis using \<open>\<not> b\<close> by (simp add: sem_inv_def)
qed

lemma sem_refines:
  assumes inv: "sem_inv stop s" and "sys_step (sem_act stop) (\<lambda>_. False) (\<lambda>pc. pc) s s'"
  shows "sem_inv stop s' \<and> (view sem_contents s' = view sem_contents s \<and> sem_ranks s' < sem_ranks s \<or>
    spec_step stop None (view sem_contents s) (view sem_contents s'))"
  using assms(2)
proof (cases rule: sys_step.cases)
  case (run i ts q q' t')
  note inv' = inv [unfolded run(1)]
  have ok: "sem_thread_ok stop (ts ! i)" using inv' run(3) by (simp add: sem_inv_def)
  have len: "i < length (map th_client ts)" using run(3) by simp
  have same: "(map th_client ts)[i := th_client (ts ! i)] = map th_client ts"
    using run(3) list_update_id [of "map th_client ts" i] by simp
  note r = total_update [OF run(3), of "\<lambda>t. sem_rank (th_pc t)" t']
  have "view sem_contents s' = view sem_contents s \<and> sem_ranks s' < sem_ranks s \<or>
    spec_step stop None (view sem_contents s) (view sem_contents s')"
    using run(4) ok
  proof (cases rule: sem_act_cases)
    case (put_push x xs)
    then have "spec_step stop None (sq_queue q, map th_client ts) (sq_queue q @ [x], (map th_client ts)[i := Producer xs])"
      by (intro spec_step.put len) (simp_all add: run(3))
    then show ?thesis using put_push run(1,2) by (simp add: view_update) (simp add: view_def)
  next
    case (take_pop got x xs)
    then have "spec_step stop None (x # xs, map th_client ts) (xs, (map th_client ts)[i := Consumer (got @ [x])])"
      by (intro spec_step.take len) (simp_all add: run(3))
    then show ?thesis using take_pop run(1,2) by (simp add: view_update) (simp add: view_def)
  qed (use r run(1,2) same in \<open>auto simp: view_update sem_rank_def\<close>, auto simp: view_def)
  then show ?thesis using sem_inv_step [OF inv' run(3,4)] run(2) by simp
next
  case (notify i ts q q' t' j)
  then show ?thesis using sem_inv_step inv by blast
next
  case (notify_none i ts q q' t')
  then show ?thesis using sem_inv_step inv by blast
qed simp

lemma sem_defined:
  assumes inv: "sem_inv stop (q, ts)" and t: "t \<in> set ts"
  shows "sem_act stop q t \<noteq> Undefined"
proof -
  have ok: "sem_thread_ok stop t" using inv t by (simp add: sem_inv_def)
  obtain i where i: "i < length ts" "ts ! i = t" using t by (auto simp: in_set_conv_nth)
  have "sq_queue q \<noteq> []" if "th_pc t = STakePop"
    using tally_pos [OF i(1), of "\<lambda>t. th_pc t \<in> {STakeLock, STakePop}"] i(2) that inv by (auto simp: sem_inv_def)
  then show ?thesis
    by (cases "th_pc t"; cases "th_client t") (use ok in \<open>auto simp: sem_act_def queue_act_def sem_thread_ok_def split: list.splits\<close>)
qed

lemma sem_progress:
  assumes inv: "sem_inv stop (q, ts)" and blocked: "all_blocked (sem_act stop) (q, ts)" and t: "t \<in> set ts"
  shows "finished stop (th_client t) \<or> held_up None (sq_queue q) (th_client t)"
proof -
  have ok: "sem_thread_ok stop u" if "u \<in> set ts" for u using inv that by (simp add: sem_inv_def)
  have b: "sem_act stop q u = Blocked" if "u \<in> set ts" for u
    using blocked that by (simp add: all_blocked_def)
  have "th_pc u \<notin> {SPutPush, SPutUnlock, STakePop, STakeUnlock}" if "u \<in> set ts" for u
    using b [OF that] ok [OF that]
    by (cases "th_client u"; cases "th_pc u") (auto simp: sem_act_def queue_act_def sem_thread_ok_def split: list.splits)
  then have "pc_in {SPutPush, SPutUnlock, STakePop, STakeUnlock} ts = 0" by (auto simp: tally_zero_set)
  then have m: "\<not> sq_locked q" using inv by (auto simp: sem_inv_def)
  have idle: "th_pc u = SPutLock \<or> th_pc u = STakeWait" if "u \<in> set ts" for u
    using b [OF that] ok [OF that] m
    by (cases "th_client u"; cases "th_pc u") (auto simp: sem_act_def queue_act_def sem_thread_ok_def split: list.splits)
  then have "pc_in {STakeLock, STakePop} ts = 0" "pc_in {SPutUnlock, SPutPost} ts = 0"
    unfolding tally_zero_set by fastforce+
  then have "sq_not_empty q = length (sq_queue q)" using inv by (simp add: sem_inv_def)
  then show ?thesis
    using idle [OF t] b [OF t] ok [OF t] m
    by (cases "th_client t") (auto simp: sem_act_def queue_act_def sem_thread_ok_def split: if_splits)
qed

interpretation sem: terminating_queue "sem_act stop" "\<lambda>_. False" "\<lambda>pc. pc" sem_contents "sem_inv stop" stop None sem_ranks
  for stop
proof unfold_locales
  show "sem_inv stop s' \<and> (view sem_contents s' = view sem_contents s \<or>
      spec_step stop None (view sem_contents s) (view sem_contents s'))"
    if "sem_inv stop s" "sys_step (sem_act stop) (\<lambda>_. False) (\<lambda>pc. pc) s s'" for s s'
    using sem_refines [OF that] by blast
  show "sem_ranks s' < sem_ranks s"
    if "sem_inv stop s" "sys_step (sem_act stop) (\<lambda>_. False) (\<lambda>pc. pc) s s'"
      "view sem_contents s' = view sem_contents s" for s s'
    using sem_refines [OF that(1,2)] that(3) work_left_step by fastforce
qed (rule sem_defined sem_progress; assumption)+


section \<open>No wake-up is lost\<close>

definition put_pcs :: "bool \<Rightarrow> cv_pc set" where
  "put_pcs std = (if std then {CPutLock, CPutPush, CPutNotify, CPutLeave} else {CPutLock, CPutPush, CPutUnlock, CPutSignal})"

definition cv_thread_ok :: "bool \<Rightarrow> ('a \<Rightarrow> bool) \<Rightarrow> (cv_pc, 'a) thread \<Rightarrow> bool" where
  "cv_thread_ok std stop t \<longleftrightarrow>
    (case th_client t of
      Producer xs \<Rightarrow> th_pc t \<in> put_pcs std \<and> (th_pc t = CPutPush \<longrightarrow> xs \<noteq> [])
    | Consumer got \<Rightarrow> th_pc t \<in> {CTakeLock, CTakeCheck, CTakeWaiting, CTakeRelock, CTakePop, CTakeUnlock} \<and>
        (th_pc t \<in> {CTakeCheck, CTakeWaiting, CTakeRelock, CTakePop} \<longrightarrow> \<not> finished stop (Consumer got)))"

abbreviation cv_critical :: "cv_pc set" where
  "cv_critical \<equiv> {CPutPush, CPutUnlock, CPutNotify, CPutLeave, CTakeCheck, CTakePop, CTakeUnlock}"

abbreviation cv_pending :: "cv_pc set" where
  "cv_pending \<equiv> {CPutUnlock, CPutSignal, CPutNotify}"

abbreviation cv_awake :: "cv_pc set" where
  "cv_awake \<equiv> {CTakeRelock, CTakeCheck, CTakePop}"

text \<open>
  While a thread waits, every queued item is covered by a signal still to come or by a consumer that is
  awake; \<open>k\<close> is the number of signals that have been given and not yet received.
\<close>

definition cv_inv_upto :: "bool \<Rightarrow> nat \<Rightarrow> ('a \<Rightarrow> bool) \<Rightarrow> 'a cv_queue \<times> (cv_pc, 'a) thread list \<Rightarrow> bool" where
  "cv_inv_upto std k stop = (\<lambda>(q, ts). (\<forall>t \<in> set ts. cv_thread_ok std stop t) \<and>
    of_bool (cq_locked q) = pc_in cv_critical ts \<and> (0 < pc_in {CTakePop} ts \<longrightarrow> cq_queue q \<noteq> []) \<and>
    (0 < pc_in {CTakeWaiting} ts \<longrightarrow> length (cq_queue q) \<le> pc_in cv_pending ts + pc_in cv_awake ts + k))"

definition either_act :: "bool \<Rightarrow> ('a \<Rightarrow> bool) \<Rightarrow> 'a cv_queue \<Rightarrow> (cv_pc, 'a) thread \<Rightarrow> ('a cv_queue, (cv_pc, 'a) thread) outcome" where
  "either_act std = (if std then std_act else cv_act)"

lemmas either_defs = either_act_def cv_act_def std_act_def queue_act_def

lemma cv_act_cases:
  assumes "either_act std stop q t = Goes q' t' b" "cv_thread_ok std stop t"
  obtains
    (put_lock) xs where "th_pc t = CPutLock" "th_client t = Producer xs" "\<not> cq_locked q" "\<not> b" "xs \<noteq> []"
      "q' = q\<lparr>cq_locked := True\<rparr>" "t' = \<lparr>th_pc = CPutPush, th_client = Producer xs\<rparr>"
  | (put_push) x xs pc where "th_pc t = CPutPush" "th_client t = Producer (x # xs)" "\<not> b" "pc = (if std then CPutNotify else CPutUnlock)"
      "q' = q\<lparr>cq_queue := cq_queue q @ [x]\<rparr>" "t' = \<lparr>th_pc = pc, th_client = Producer xs\<rparr>"
  | (put_unlock) xs pc where "(th_pc t, pc) = (if std then (CPutLeave, CPutLock) else (CPutUnlock, CPutSignal))" "th_client t = Producer xs" "\<not> b"
      "q' = q\<lparr>cq_locked := False\<rparr>" "t' = \<lparr>th_pc = pc, th_client = Producer xs\<rparr>"
  | (put_signal) xs pc where "(th_pc t, pc) = (if std then (CPutNotify, CPutLeave) else (CPutSignal, CPutLock))" "th_client t = Producer xs" "b"
      "q' = q" "t' = \<lparr>th_pc = pc, th_client = Producer xs\<rparr>"
  | (take_lock) got where "th_pc t = CTakeLock \<or> th_pc t = CTakeRelock" "th_client t = Consumer got" "\<not> b" "\<not> cq_locked q"
      "\<not> finished stop (Consumer got)" "q' = q\<lparr>cq_locked := True\<rparr>" "t' = \<lparr>th_pc = CTakeCheck, th_client = Consumer got\<rparr>"
  | (take_wait) got where "th_pc t = CTakeCheck" "th_client t = Consumer got" "\<not> b" "cq_queue q = []"
      "q' = q\<lparr>cq_locked := False\<rparr>" "t' = \<lparr>th_pc = CTakeWaiting, th_client = Consumer got\<rparr>"
  | (take_check) got where "th_pc t = CTakeCheck" "th_client t = Consumer got" "\<not> b" "cq_queue q \<noteq> []"
      "q' = q" "t' = \<lparr>th_pc = CTakePop, th_client = Consumer got\<rparr>"
  | (take_pop) got x xs where "th_pc t = CTakePop" "th_client t = Consumer got" "\<not> b" "cq_queue q = x # xs"
      "\<not> finished stop (Consumer got)"
      "q' = q\<lparr>cq_queue := xs\<rparr>" "t' = \<lparr>th_pc = CTakeUnlock, th_client = Consumer (got @ [x])\<rparr>"
  | (take_unlock) got where "th_pc t = CTakeUnlock" "th_client t = Consumer got" "\<not> b"
      "q' = q\<lparr>cq_locked := False\<rparr>" "t' = \<lparr>th_pc = CTakeLock, th_client = Consumer got\<rparr>"
proof (cases "th_client t")
  case (Producer xs)
  show thesis
    by (cases "th_pc t"; cases xs; cases std)
      (use assms Producer in \<open>auto simp: either_defs cv_thread_ok_def put_pcs_def split: if_splits intro: that\<close>)
next
  case (Consumer got)
  show thesis
    by (cases "th_pc t"; cases std)
      (use assms Consumer in \<open>auto simp: either_defs cv_thread_ok_def put_pcs_def split: if_splits list.splits intro: that\<close>)
qed

lemma cv_inv_act:
  assumes inv: "cv_inv_upto std 0 stop (q, ts)" and i: "i < length ts" and act: "either_act std stop q (ts ! i) = Goes q' t' b"
  shows "cv_inv_upto std (of_bool b) stop (q', ts[i := t'])"
proof -
  have all: "\<forall>t \<in> set ts. cv_thread_ok std stop t" using inv by (simp add: cv_inv_upto_def)
  then have ok: "cv_thread_ok std stop (ts ! i)" using i by simp
  have lock: "pc_in cv_critical ts = of_bool (cq_locked q)"
    and nonempty: "0 < pc_in {CTakePop} ts \<Longrightarrow> cq_queue q \<noteq> []"
    and cover: "0 < pc_in {CTakeWaiting} ts \<Longrightarrow> length (cq_queue q) \<le> pc_in cv_pending ts + pc_in cv_awake ts"
    using inv by (simp_all add: cv_inv_upto_def)
  have pop: "pc_in {CTakePop} ts \<le> 1"
  proof -
    have "pc_in {CTakePop} ts \<le> pc_in cv_critical ts" by (rule tally_mono) simp
    then show ?thesis unfolding lock by (cases "cq_locked q") simp_all
  qed
  note u = tally_update [OF i, of "\<lambda>t. th_pc t \<in> cv_critical" t'] tally_update [OF i, of "\<lambda>t. th_pc t \<in> {CTakePop}" t']
    tally_update [OF i, of "\<lambda>t. th_pc t \<in> {CTakeWaiting}" t'] tally_update [OF i, of "\<lambda>t. th_pc t \<in> cv_pending" t']
    tally_update [OF i, of "\<lambda>t. th_pc t \<in> cv_awake" t']
  have "cv_thread_ok std stop t'"
    using act ok by (cases rule: cv_act_cases) (use ok in \<open>auto simp: cv_thread_ok_def put_pcs_def split: if_splits\<close>)
  then have "\<forall>t \<in> set (ts[i := t']). cv_thread_ok std stop t"
    using all set_update_subset_insert [of ts i t'] by blast
  moreover have "pc_in cv_critical (ts[i := t']) = of_bool (cq_locked q')"
  proof -
    have held: "th_pc (ts ! i) \<in> cv_critical \<Longrightarrow> cq_locked q"
      using tally_pos [OF i, of "\<lambda>t. th_pc t \<in> cv_critical"] lock by simp
    have "of_bool (cq_locked q') + of_bool (th_pc (ts ! i) \<in> cv_critical) =
        of_bool (cq_locked q) + (of_bool (th_pc t' \<in> cv_critical) :: nat)"
      using act ok
    proof (cases rule: cv_act_cases)
      case (put_lock xs) then show ?thesis by simp
    next case (put_push x xs pc) then show ?thesis using held by simp
    next case (put_unlock xs pc) then show ?thesis using held by (cases std) simp_all
    next case (put_signal xs pc) then show ?thesis using held by (cases std) simp_all
    next case (take_lock got) show ?thesis using take_lock(1) by (rule disjE) (simp_all add: take_lock)
    next case (take_wait got) then show ?thesis using held by simp
    next case (take_check got) then show ?thesis using held by simp
    next case (take_pop got) then show ?thesis using held by simp
    next case (take_unlock got) then show ?thesis using held by simp
    qed
    then show ?thesis using u(1) lock by linarith
  qed
  moreover have "0 < pc_in {CTakePop} (ts[i := t']) \<longrightarrow> cq_queue q' \<noteq> []"
    using act ok by (cases rule: cv_act_cases) (use u(2) pop nonempty in \<open>auto split: if_splits\<close>)
  moreover have "0 < pc_in {CTakeWaiting} (ts[i := t']) \<longrightarrow>
      length (cq_queue q') \<le> pc_in cv_pending (ts[i := t']) + pc_in cv_awake (ts[i := t']) + of_bool b"
    using act ok by (cases rule: cv_act_cases) (use u(3-5) cover in \<open>auto split: if_splits\<close>)
  ultimately show ?thesis by (simp add: cv_inv_upto_def)
qed

lemma cv_inv_wake:
  assumes inv: "cv_inv_upto std k stop (q, ts)" and j: "j < length ts" and w: "th_pc (ts ! j) = CTakeWaiting"
  shows "cv_inv_upto std (k - 1) stop (q, ts[j := (ts ! j)\<lparr>th_pc := CTakeRelock\<rparr>])"
proof -
  let ?t = "(ts ! j)\<lparr>th_pc := CTakeRelock\<rparr>"
  have all: "\<forall>t \<in> set ts. cv_thread_ok std stop t" using inv by (simp add: cv_inv_upto_def)
  then have ok: "cv_thread_ok std stop (ts ! j)" using j by simp
  have wait: "0 < pc_in {CTakeWaiting} ts"
    using tally_pos [OF j, of "\<lambda>t. th_pc t \<in> {CTakeWaiting}"] w by simp
  note u = tally_update [OF j, of "\<lambda>t. th_pc t \<in> cv_critical" ?t] tally_update [OF j, of "\<lambda>t. th_pc t \<in> {CTakePop}" ?t]
    tally_update [OF j, of "\<lambda>t. th_pc t \<in> {CTakeWaiting}" ?t] tally_update [OF j, of "\<lambda>t. th_pc t \<in> cv_pending" ?t]
    tally_update [OF j, of "\<lambda>t. th_pc t \<in> cv_awake" ?t]
  have "cv_thread_ok std stop ?t"
    using ok w by (cases "th_client (ts ! j)") (auto simp: cv_thread_ok_def put_pcs_def split: if_splits)
  then have "\<forall>t \<in> set (ts[j := ?t]). cv_thread_ok std stop t"
    using all set_update_subset_insert [of ts j ?t] by blast
  then show ?thesis
    using inv u w wait by (auto simp: cv_inv_upto_def)
qed

lemma cv_inv_nobody:
  assumes "cv_inv_upto std k stop (q, ts)" "\<forall>j < length ts. th_pc (ts ! j) \<noteq> CTakeWaiting"
  shows "cv_inv_upto std 0 stop (q, ts)"
proof -
  have "pc_in {CTakeWaiting} ts = 0" using assms(2) by (simp add: tally_zero)
  then show ?thesis using assms(1) by (simp add: cv_inv_upto_def)
qed

abbreviation cv_contents :: "'a cv_queue \<Rightarrow> (cv_pc, 'a) thread list \<Rightarrow> 'a list" where
  "cv_contents q ts \<equiv> cq_queue q"

abbreviation cv_step :: "bool \<Rightarrow> ('a \<Rightarrow> bool) \<Rightarrow> 'a cv_queue \<times> (cv_pc, 'a) thread list \<Rightarrow> 'a cv_queue \<times> (cv_pc, 'a) thread list \<Rightarrow> bool" where
  "cv_step std stop \<equiv> sys_step (either_act std stop) (\<lambda>pc. pc = CTakeWaiting) (\<lambda>_. CTakeRelock)"

lemma map_wake: "map f (ts[j := t]) = (map f ts)[j := f t]" by (rule map_update)

lemma view_wake:
  "view cv_contents (q, ts[j := (ts ! j)\<lparr>th_pc := p\<rparr>]) = view cv_contents (q, ts)"
  using list_update_id [of "map th_client ts" j]
  by (cases "j < length ts") (simp_all add: view_def map_update list_update_beyond)

lemma cv_act_view:
  assumes ok: "cv_thread_ok std stop (ts ! i)" and i: "i < length ts" and act: "either_act std stop q (ts ! i) = Goes q' t' b"
  shows "view cv_contents (q', ts[i := t']) = view cv_contents (q, ts) \<or>
    spec_step stop None (view cv_contents (q, ts)) (view cv_contents (q', ts[i := t']))"
proof -
  have len: "i < length (map th_client ts)" using i by simp
  have same: "(map th_client ts)[i := th_client (ts ! i)] = map th_client ts"
    using i list_update_id [of "map th_client ts" i] by simp
  from act ok show ?thesis
  proof (cases rule: cv_act_cases)
    case (put_push x xs pc)
    then have "spec_step stop None (cq_queue q, map th_client ts) (cq_queue q @ [x], (map th_client ts)[i := Producer xs])"
      by (intro spec_step.put len) (simp_all add: i)
    then show ?thesis using put_push by (simp add: view_update) (simp add: view_def)
  next
    case (take_pop got x xs)
    then have "spec_step stop None (x # xs, map th_client ts) (xs, (map th_client ts)[i := Consumer (got @ [x])])"
      by (intro spec_step.take len) (simp_all add: i)
    then show ?thesis using take_pop by (simp add: view_update) (simp add: view_def)
  qed (use same in \<open>auto simp: view_def map_update\<close>)
qed

lemma cv_refines:
  assumes inv: "cv_inv_upto std 0 stop s" and "cv_step std stop s s'"
  shows "cv_inv_upto std 0 stop s' \<and> (view cv_contents s' = view cv_contents s \<or>
    spec_step stop None (view cv_contents s) (view cv_contents s'))"
  using assms(2)
proof (cases rule: sys_step.cases)
  case (run i ts q q' t')
  have ok: "cv_thread_ok std stop (ts ! i)" using inv run(1,3) by (simp add: cv_inv_upto_def)
  show ?thesis
    using cv_inv_act [OF inv [unfolded run(1)] run(3,4)] cv_act_view [OF ok run(3,4)] run(1,2) by simp
next
  case (notify i ts q q' t' j)
  have ok: "cv_thread_ok std stop (ts ! i)" using inv notify(1,3) by (simp add: cv_inv_upto_def)
  have j: "j < length (ts[i := t'])" "ts[i := t'] ! j = ts ! j" using notify by auto
  show ?thesis
    using cv_inv_wake [OF cv_inv_act [OF inv [unfolded notify(1)] notify(3,4)] j(1), unfolded j(2), OF notify(7)]
      cv_act_view [OF ok notify(3,4)] view_wake [of q' "ts[i := t']" j CTakeRelock] j notify(1,2) by simp
next
  case (notify_none i ts q q' t')
  have ok: "cv_thread_ok std stop (ts ! i)" using inv notify_none(1,3) by (simp add: cv_inv_upto_def)
  have "th_pc t' \<noteq> CTakeWaiting"
    using notify_none(4) ok by (cases rule: cv_act_cases) (auto split: if_splits)
  then have "\<forall>j < length (ts[i := t']). th_pc (ts[i := t'] ! j) \<noteq> CTakeWaiting"
    using notify_none(3,5) by (metis length_list_update nth_list_update_eq nth_list_update_neq)
  then show ?thesis
    using cv_inv_nobody [OF cv_inv_act [OF inv [unfolded notify_none(1)] notify_none(3,4)]]
      cv_act_view [OF ok notify_none(3,4)] notify_none(1,2) by simp
next
  case (spurious j ts q)
  then show ?thesis
    using cv_inv_wake [of std 0 stop q ts j] inv view_wake [of q ts j CTakeRelock] by simp
qed

lemma cv_defined:
  assumes inv: "cv_inv_upto std 0 stop (q, ts)" and t: "t \<in> set ts"
  shows "either_act std stop q t \<noteq> Undefined"
proof -
  have ok: "cv_thread_ok std stop t" using inv t by (simp add: cv_inv_upto_def)
  obtain i where i: "i < length ts" "ts ! i = t" using t by (auto simp: in_set_conv_nth)
  have "cq_queue q \<noteq> []" if "th_pc t = CTakePop"
    using tally_pos [OF i(1), of "\<lambda>t. th_pc t \<in> {CTakePop}"] i(2) that inv by (auto simp: cv_inv_upto_def)
  then show ?thesis
    by (cases "th_pc t"; cases "th_client t"; cases std) (use ok in \<open>auto simp: either_defs cv_thread_ok_def put_pcs_def split: list.splits\<close>)
qed

lemma cv_progress:
  assumes inv: "cv_inv_upto std 0 stop (q, ts)" and blocked: "all_blocked (either_act std stop) (q, ts)" and t: "t \<in> set ts"
  shows "finished stop (th_client t) \<or> held_up None (cq_queue q) (th_client t)"
proof -
  have ok: "cv_thread_ok std stop u" if "u \<in> set ts" for u using inv that by (simp add: cv_inv_upto_def)
  have b: "either_act std stop q u = Blocked" if "u \<in> set ts" for u
    using blocked that by (simp add: all_blocked_def)
  have nc: "th_pc u \<notin> cv_critical" if "u \<in> set ts" for u
    using b [OF that] ok [OF that]
    by (cases "th_client u"; cases "th_pc u"; cases std) (auto simp: either_defs cv_thread_ok_def put_pcs_def split: list.splits if_splits)
  then have "pc_in cv_critical ts = 0" by (auto simp: tally_zero_set)
  then have m: "\<not> cq_locked q" using inv by (auto simp: cv_inv_upto_def)
  have idle: "th_pc u \<in> {CPutLock, CTakeLock, CTakeWaiting}" if "u \<in> set ts" for u
    using b [OF that] ok [OF that] nc [OF that] m
    by (cases "th_client u"; cases "th_pc u"; cases std) (auto simp: either_defs cv_thread_ok_def put_pcs_def)
  then have quiet: "pc_in cv_pending ts = 0" "pc_in cv_awake ts = 0"
    unfolding tally_zero_set by fastforce+
  have "cq_queue q = []" if "th_pc t = CTakeWaiting"
  proof -
    have "0 < pc_in {CTakeWaiting} ts" using that t tally_zero_set [of "\<lambda>t. th_pc t \<in> {CTakeWaiting}" ts] by auto
    then show ?thesis using inv quiet by (simp add: cv_inv_upto_def)
  qed
  then show ?thesis
    using idle [OF t] b [OF t] ok [OF t] m
    by (cases "th_client t"; cases std; cases "th_pc t") (simp_all add: either_defs cv_thread_ok_def put_pcs_def split: if_splits)
qed

interpretation cv: blocking_queue "either_act std stop" "\<lambda>pc. pc = CTakeWaiting" "\<lambda>_. CTakeRelock" cv_contents
  "cv_inv_upto std 0 stop" stop None
  for std stop
  by unfold_locales (rule cv_refines cv_defined cv_progress; assumption)+


section \<open>What the queues promise\<close>

abbreviation sem_step :: "('a \<Rightarrow> bool) \<Rightarrow> 'a sem_queue \<times> (sem_pc, 'a) thread list \<Rightarrow> 'a sem_queue \<times> (sem_pc, 'a) thread list \<Rightarrow> bool" where
  "sem_step stop \<equiv> sys_step (sem_act stop) (\<lambda>_. False) (\<lambda>pc. pc)"

lemma queue_start_clients: "map th_client (queue_start p c itemss k) = clients itemss k"
  by (simp add: queue_start_def clients_def)

lemma sem_start_inv: "sem_inv stop (sem_queue_new, queue_start SPutLock STakeWait itemss k)"
  by (auto simp: sem_inv_def sem_queue_new_def queue_start_def sem_thread_ok_def)

lemma cv_start_inv: "cv_inv_upto std 0 stop (cv_queue_new, queue_start CPutLock CTakeLock itemss k)"
  by (auto simp: cv_inv_upto_def cv_queue_new_def queue_start_def cv_thread_ok_def put_pcs_def)

lemma sem_start_view: "view sem_contents (sem_queue_new, queue_start SPutLock STakeWait itemss k) = ([], clients itemss k)"
  and cv_start_view: "view cv_contents (cv_queue_new, queue_start CPutLock CTakeLock itemss k) = ([], clients itemss k)"
  by (simp_all add: view_def queue_start_clients sem_queue_new_def cv_queue_new_def)

lemma node_producers_protocol: "stop_protocol (\<lambda>x. x = None) (map (node_producer m) [0..<2]) 2"
  by (auto simp: stop_protocol_def node_producer_def last_only_def butlast_append)

lemma number_producers_protocol: "stop_protocol (\<lambda>x. x = 0) (replicate k (number_producer m)) k"
  by (auto simp: stop_protocol_def number_producer_def last_only_def)

text \<open>The queue with a semaphore is an unbounded queue.  In every interleaving, \<^verbatim>\<open>take\<close> never pops from
  an empty \<^verbatim>\<open>std::queue\<close>, at most one thread is inside the mutex, and the states are those of the
  specification whose \<^verbatim>\<open>put\<close> always appends and whose \<^verbatim>\<open>take\<close> removes the first item when there is one.\<close>

lemma sem_queue_refines:
  assumes "(sem_step stop)\<^sup>*\<^sup>* (sem_queue_new, queue_start SPutLock STakeWait itemss k) (q, ts)"
  shows "spec_run stop None ([], clients itemss k) (sq_queue q, map th_client ts) \<and>
    (\<forall>t \<in> set ts. sem_act stop q t \<noteq> Undefined) \<and>
    tally (\<lambda>t. th_pc t \<in> {SPutPush, SPutUnlock, STakePop, STakeUnlock}) ts \<le> 1"
proof -
  note r = sem.run_refines [OF assms sem_start_inv, unfolded sem_start_view]
  then have inv: "sem_inv stop (q, ts)" by blast
  then have "tally (\<lambda>t. th_pc t \<in> {SPutPush, SPutUnlock, STakePop, STakeUnlock}) ts = of_bool (sq_locked q)"
    by (simp add: sem_inv_def)
  then show ?thesis
    using r sem_defined [OF inv] by (simp add: view_def)
qed

lemma start_demo: "\<forall>i \<in> set ids. i \<le> 1 \<Longrightarrow> \<forall>i \<in> set ids. i < length (snd (q, queue_start p c [xs] 1))"
  by (auto simp: queue_start_def)

lemma sem_queue_refines_witness:
  "spec_run (\<lambda>x. x = 0) None ([], clients [[0 :: nat]] 1) ([0], [Producer [], Consumer []])"
proof -
  define s where "s = schedule (sem_act (\<lambda>x. x = (0 :: nat))) (\<lambda>_. False) (\<lambda>pc. pc) [0, 0]
      (sem_queue_new, queue_start SPutLock STakeWait [[0]] 1)"
  have "(sem_step (\<lambda>x. x = 0))\<^sup>*\<^sup>* (sem_queue_new, queue_start SPutLock STakeWait [[0]] 1) (fst s, snd s)"
    unfolding s_def prod.collapse by (intro schedule_run start_demo) simp
  from sem_queue_refines [OF this] have "spec_run (\<lambda>x. x = 0) None ([], clients [[0 :: nat]] 1) (sq_queue (fst s), map th_client (snd s))"
    by blast
  moreover have "sq_queue (fst s) = [0]" "map th_client (snd s) = [Producer [], Consumer []]"
    unfolding s_def by code_simp+
  ultimately show ?thesis by simp
qed

text \<open>the program on the semaphore queue ends, with everything delivered.  No run of the two producers
  and two consumers of \<^verbatim>\<open>main.cpp\<close> is infinite (but for its \<^verbatim>\<open>sleep\<close>s), and when no thread can go on, all have
  finished and the consumers have taken exactly the nodes put, the two null pointers included.\<close>

theorem sem_main_completes:
  "(\<nexists>f. f 0 = sem_main \<and> (\<forall>i :: nat. sem_step (\<lambda>x. x = None) (f i) (f (Suc i)))) \<and>
    (\<forall>s. (sem_step (\<lambda>x. x = None))\<^sup>*\<^sup>* sem_main s \<and> all_blocked (sem_act (\<lambda>x. x = None)) s \<longrightarrow>
      (\<forall>t \<in> set (snd s). finished (\<lambda>x. x = None) (th_client t)) \<and>
      sum_list (map (\<lambda>t. mset (taken (th_client t))) (snd s)) = mset (concat (map (node_producer 1000) [0..<2])))"
proof (intro conjI allI impI)
  have inv: "sem_inv (\<lambda>x. x = None) sem_main"
    unfolding sem_main_def by (rule sem_start_inv)
  have v: "view sem_contents sem_main = ([], clients (map (node_producer 1000) [0..<2]) 2)"
    unfolding sem_main_def by (rule sem_start_view)
  show "\<nexists>f. f 0 = sem_main \<and> (\<forall>i :: nat. sem_step (\<lambda>x. x = None) (f i) (f (Suc i)))"
    using sem.finite_runs inv by metis
  fix s
  assume s: "(sem_step (\<lambda>x. x = None))\<^sup>*\<^sup>* sem_main s \<and> all_blocked (sem_act (\<lambda>x. x = None)) s"
  have bal: "balanced (\<lambda>x. x = None) (view sem_contents sem_main)"
    unfolding v by (rule balanced_start [OF node_producers_protocol])
  note c = sem.run_completes [OF conjunct1 [OF s] inv bal _ conjunct2 [OF s]]
  from c show "\<forall>t \<in> set (snd s). finished (\<lambda>x. x = None) (th_client t)" by simp
  from c show "sum_list (map (\<lambda>t. mset (taken (th_client t))) (snd s)) = mset (concat (map (node_producer 1000) [0..<2]))"
    by (simp only: v all_items_start option.distinct simp_thms)
qed

lemma sem_main_completes_witness:
  "\<exists>s. (sem_step (\<lambda>x. x = None))\<^sup>*\<^sup>* sem_main s \<and>
    sum_list (map (\<lambda>t. mset (taken (th_client t))) (snd s)) = mset (concat (map (node_producer 1000) [0..<2]))"
proof -
  have "sem_inv (\<lambda>x. x = None) sem_main"
    unfolding sem_main_def by (rule sem_start_inv)
  from sem.runs_to_the_end [OF this] show ?thesis using sem_main_completes by blast
qed

text \<open>C16: the queues with a condition variable are unbounded queues.  For both orders of unlocking and signalling
  (\<open>std\<close> chooses), with spurious wake-ups and whatever waiter a signal wakes, \<^verbatim>\<open>take\<close> never pops from an empty
  queue and the states are those of the specification.\<close>

theorem cv_queue_refines:
  assumes "(cv_step std stop)\<^sup>*\<^sup>* (cv_queue_new, queue_start CPutLock CTakeLock itemss k) (q, ts)"
  shows "spec_run stop None ([], clients itemss k) (cq_queue q, map th_client ts) \<and>
    (\<forall>t \<in> set ts. either_act std stop q t \<noteq> Undefined)"
proof -
  note r = cv.run_refines [OF assms cv_start_inv, unfolded cv_start_view]
  then have inv: "cv_inv_upto std 0 stop (q, ts)" by blast
  then show ?thesis
    using r cv_defined [OF inv] by (simp add: view_def)
qed

text \<open>A run in which the consumer waits first and is woken.\<close>

definition cv_demo :: "bool \<Rightarrow> nat cv_queue \<times> (cv_pc, nat) thread list" where
  "cv_demo std = schedule (either_act std (\<lambda>x. x = 0)) (\<lambda>pc. pc = CTakeWaiting) (\<lambda>_. CTakeRelock)
    [1, 1, 0, 0, 0, 0, 1, 1, 1, 1] (cv_queue_new, queue_start CPutLock CTakeLock [[0]] 1)"

lemma cv_demo_run: "(cv_step std (\<lambda>x. x = 0))\<^sup>*\<^sup>* (cv_queue_new, queue_start CPutLock CTakeLock [[0]] 1) (cv_demo std)"
  unfolding cv_demo_def by (intro schedule_run start_demo) simp

lemma cv_demo_std: "cv_demo True = (cv_queue_new,
    [\<lparr>th_pc = CPutLock, th_client = Producer []\<rparr>, \<lparr>th_pc = CTakeLock, th_client = Consumer [0]\<rparr>])"
  by code_simp

lemma cv_demo_header: "cv_demo False = (cv_queue_new,
    [\<lparr>th_pc = CPutLock, th_client = Producer []\<rparr>, \<lparr>th_pc = CTakeLock, th_client = Consumer [0]\<rparr>])"
  by code_simp

lemma cv_queue_refines_witness:
  "spec_run (\<lambda>x. x = 0) None ([], clients [[0 :: nat]] 1) ([], [Producer [], Consumer [0]])"
  using cv_queue_refines [OF cv_demo_run [of True, unfolded cv_demo_std]] by (simp add: cv_queue_new_def)

text \<open>C15: no wake-up is lost.  With as many consumers as producers, each producer ending in a stop item, a
  state of either condition-variable queue in which no thread can go on is one in which all threads have
  finished and everything that was put has been taken: no consumer sleeps while items are left.\<close>

theorem cv_no_lost_wakeup:
  assumes "stop_protocol stop itemss k"
    and "(cv_step std stop)\<^sup>*\<^sup>* (cv_queue_new, queue_start CPutLock CTakeLock itemss k) s"
    and "all_blocked (either_act std stop) s"
  shows "(\<forall>t \<in> set (snd s). finished stop (th_client t)) \<and>
    sum_list (map (\<lambda>t. mset (taken (th_client t))) (snd s)) = mset (concat itemss)"
  using cv.run_completes [OF assms(2) cv_start_inv _ _ assms(3), unfolded cv_start_view all_items_start]
    balanced_start [OF assms(1)] by simp

lemma cv_no_lost_wakeup_witness:
  "sum_list (map (\<lambda>t. mset (taken (th_client t))) (snd (cv_demo False))) = mset (concat [[0 :: nat]])"
proof -
  have "all_blocked (either_act False (\<lambda>x. x = 0)) (cv_demo False)"
    by (simp add: cv_demo_header all_blocked_def either_defs)
  moreover have "stop_protocol (\<lambda>x. x = 0) [[0 :: nat]] 1"
    by (simp add: stop_protocol_def last_only_def)
  ultimately show ?thesis
    using cv_no_lost_wakeup [OF _ cv_demo_run] by blast
qed

text \<open>\<^verbatim>\<open>std_thread/blocking_queue.cpp\<close> delivers its numbers.  When the four producers and four consumers of its
  \<^verbatim>\<open>main\<close> cannot go on, all have finished (so the destructors' joins return) and the consumers have taken
  each of 0 to 10 four times.\<close>

theorem std_main_completes:
  assumes "(cv_step True (\<lambda>x. x = 0))\<^sup>*\<^sup>* std_main s" "all_blocked (either_act True (\<lambda>x. x = 0)) s"
  shows "(\<forall>t \<in> set (snd s). finished (\<lambda>x. x = 0) (th_client t)) \<and>
    sum_list (map (\<lambda>t. mset (taken (th_client t))) (snd s)) = mset (concat (replicate 4 (number_producer 10)))"
  using cv.run_completes [OF assms(1) [unfolded std_main_def] cv_start_inv _ _ assms(2), unfolded cv_start_view all_items_start]
    balanced_start [OF number_producers_protocol] by simp

definition std_run :: "nat cv_queue \<times> (cv_pc, nat) thread list" where
  "std_run = schedule (either_act True (\<lambda>x. x = 0)) (\<lambda>pc. pc = CTakeWaiting) (\<lambda>_. CTakeRelock)
    (concat (map (replicate 55) [0..<4]) @ concat (map (replicate 44) [4..<8])) std_main"

lemma std_run_blocked: "all_blocked (either_act True (\<lambda>x. x = 0)) std_run"
  by code_simp

lemma std_main_completes_witness:
  "sum_list (map (\<lambda>t. mset (taken (th_client t))) (snd std_run)) = mset (concat (replicate 4 (number_producer 10)))"
proof -
  have "(cv_step True (\<lambda>x. x = 0))\<^sup>*\<^sup>* std_main std_run"
    unfolding std_run_def by (rule schedule_run) (auto simp: std_main_def queue_start_def)
  from std_main_completes [OF this std_run_blocked] show ?thesis by blast
qed

end
