(* ===== verification/Pe_Hashmap.thy ===== *)
theory Pe_Hashmap
  imports Prelude "HOL-Library.AList"
begin

text \<open>
  The hash maps of the kernel modules \<^verbatim>\<open>kernel_module/file/proc_entry_hashmap1\<close> and \<^verbatim>\<open>proc_entry_hashmap2\<close>:
  chained buckets of entries that come from a slab cache, with a lock per bucket.  The first module updates an
  entry in place and frees at once; the second replaces entries and frees them after a grace period (RCU).
  The functions of the two have the same names in the two files, and here the module's number as a suffix.

  An entry is addressed by the number the cache hands out, and the objects of the cache are the list of
  (address, entry).  An \<^verbatim>\<open>hlist\<close> of the kernel is the list of the addresses of its entries.  Every access
  to an entry looks it up: touching or freeing an entry that is not allocated is the fault \<open>None\<close>, and so is
  a bucket outside the array.  The functions here are the ones under the bucket's lock, as one step;
  \<open>Pe_Rcu\<close> has the lookup of the second module, which takes no lock, step by step.
\<close>

section \<open>Data\<close>

type_synonym i64 = "64 word"
type_synonym addr = nat

record pe_entry =
  pe_key :: i64
  pe_value :: i64

record pe_bucket =
  pb_head :: "addr list"
  pb_num :: i64

text \<open>\<open>pm_objs\<close> are the objects of the slab cache, \<open>pm_rcu\<close> the entries given to \<^verbatim>\<open>call_rcu\<close>.\<close>

record pe_hashmap =
  pm_buckets :: "pe_bucket list"
  pm_buckets_bits :: u32
  pm_buckets_num :: u32
  pm_buckets_mask :: u32
  pm_objs :: "(addr \<times> pe_entry) list"
  pm_rcu :: "addr list"

text \<open>What the module holds of the kernel: each is acquired by one call that may fail.\<close>

datatype resource = Example_Dir | Map_Mem | Buckets_Mem | Entry_Cache | Hello_Entry

definition pe_new_map :: "nat \<Rightarrow> pe_hashmap" where
  "pe_new_map bits =
    (let num = push_bit bits 1
     in \<lparr>pm_buckets = replicate (unat num) \<lparr>pb_head = [], pb_num = 0\<rparr>, pm_buckets_bits = of_nat bits,
         pm_buckets_num = num, pm_buckets_mask = num - 1, pm_objs = [], pm_rcu = []\<rparr>)"

definition pe_map_create :: "(resource \<Rightarrow> bool) \<Rightarrow> nat \<Rightarrow> resource list \<Rightarrow> pe_hashmap option \<times> resource list" where
  "pe_map_create ok buckets_bits rs =
    (if \<not> ok Map_Mem then (None, rs)
     else let rs1 = Map_Mem # rs
     in if \<not> ok Buckets_Mem then (None, remove1 Map_Mem rs1)
     else let rs2 = Buckets_Mem # rs1
     in if \<not> ok Entry_Cache then (None, remove1 Map_Mem (remove1 Buckets_Mem rs2))
     else (Some (pe_new_map buckets_bits), Entry_Cache # rs2))"

definition pe_entry_hash :: "i64 \<Rightarrow> u64" where
  "pe_entry_hash key =
    (let src = key; ans = src; ans = ans XOR drop_bit 16 src; ans = ans XOR drop_bit 32 src
     in ans XOR drop_bit 48 src)"

text \<open>\<^verbatim>\<open>pe_entry_hash(key) & map->buckets_mask\<close>, the index at the head of each operation.\<close>

definition pe_index :: "u32 \<Rightarrow> i64 \<Rightarrow> nat" where
  "pe_index bmask key = unat (pe_entry_hash key AND ucast bmask)"

section \<open>Entries and lists\<close>

definition kmem_alloc :: "addr \<Rightarrow> pe_entry \<Rightarrow> pe_hashmap \<Rightarrow> pe_hashmap" where
  "kmem_alloc a e m = m\<lparr>pm_objs := (a, e) # pm_objs m\<rparr>"

definition kmem_free :: "addr \<Rightarrow> pe_hashmap \<Rightarrow> pe_hashmap option" where
  "kmem_free a m =
    (if map_of (pm_objs m) a = None then None else Some (m\<lparr>pm_objs := AList.delete a (pm_objs m)\<rparr>))"

definition set_bucket :: "nat \<Rightarrow> pe_bucket \<Rightarrow> pe_hashmap \<Rightarrow> pe_hashmap" where
  "set_bucket i b m = m\<lparr>pm_buckets := (pm_buckets m)[i := b]\<rparr>"

text \<open>The \<^verbatim>\<open>hlist_for_each_entry\<close> loops: the first entry with the key; \<open>None\<close> if the walk leaves the heap.\<close>

fun pe_find :: "(addr \<times> pe_entry) list \<Rightarrow> i64 \<Rightarrow> addr list \<Rightarrow> (addr \<times> pe_entry) option option" where
  "pe_find objs key [] = Some None"
| "pe_find objs key (a # as) =
    (case map_of objs a of
      None \<Rightarrow> None
    | Some e \<Rightarrow> if pe_key e = key then Some (Some (a, e)) else pe_find objs key as)"

definition hlist_replace :: "addr \<Rightarrow> addr \<Rightarrow> addr list \<Rightarrow> addr list" where
  "hlist_replace old new = map (\<lambda>a. if a = old then new else a)"

section \<open>The operations of the first module\<close>

text \<open>\<open>alloc\<close> is the answer of \<^verbatim>\<open>kmem_cache_alloc\<close>.\<close>

definition pe_map_insert1 :: "addr option \<Rightarrow> i64 \<Rightarrow> i64 \<Rightarrow> pe_hashmap \<Rightarrow> (int \<times> pe_hashmap) option" where
  "pe_map_insert1 alloc key value m =
    (case alloc of
      None \<Rightarrow> Some (-1, m)
    | Some new_entry \<Rightarrow>
        let index = pe_index (pm_buckets_mask m) key;
            m1 = kmem_alloc new_entry \<lparr>pe_key = key, pe_value = value\<rparr> m
        in if length (pm_buckets m1) \<le> index then None
        else let bucket = pm_buckets m1 ! index
        in (case pe_find (pm_objs m1) key (pb_head bucket) of
          None \<Rightarrow> None
        | Some (Some (a, e)) \<Rightarrow>
            map_option (Pair 0) (kmem_free new_entry (m1\<lparr>pm_objs := AList.update a (e\<lparr>pe_value := value\<rparr>) (pm_objs m1)\<rparr>))
        | Some None \<Rightarrow>
            Some (0, set_bucket index \<lparr>pb_head = new_entry # pb_head bucket, pb_num = pb_num bucket + 1\<rparr> m1)))"

definition pe_map_remove1 :: "i64 \<Rightarrow> pe_hashmap \<Rightarrow> (int \<times> pe_hashmap) option" where
  "pe_map_remove1 key m =
    (let index = pe_index (pm_buckets_mask m) key
     in if length (pm_buckets m) \<le> index then None
     else let bucket = pm_buckets m ! index
     in (case pe_find (pm_objs m) key (pb_head bucket) of
       None \<Rightarrow> None
     | Some (Some (a, e)) \<Rightarrow>
         map_option (Pair 0)
           (kmem_free a (set_bucket index \<lparr>pb_head = remove1 a (pb_head bucket), pb_num = pb_num bucket - 1\<rparr> m))
     | Some None \<Rightarrow> Some (-1, m)))"

text \<open>The answer is the value stored through the pointer: \<open>None\<close> is a result of -1.\<close>

definition pe_map_get1 :: "i64 \<Rightarrow> pe_hashmap \<Rightarrow> i64 option option" where
  "pe_map_get1 key m =
    (let index = pe_index (pm_buckets_mask m) key
     in if length (pm_buckets m) \<le> index then None
     else map_option (map_option (\<lambda>(a, e). pe_value e)) (pe_find (pm_objs m) key (pb_head (pm_buckets m ! index))))"

fun flush_bucket1 :: "nat \<Rightarrow> addr list \<Rightarrow> int \<times> pe_hashmap \<Rightarrow> (int \<times> pe_hashmap) option" where
  "flush_bucket1 i [] (count, m) = Some (count, m)"
| "flush_bucket1 i (a # as) (count, m) =
    (let b = pm_buckets m ! i
     in (case kmem_free a (set_bucket i \<lparr>pb_head = remove1 a (pb_head b), pb_num = pb_num b - 1\<rparr> m) of
       None \<Rightarrow> None
     | Some m1 \<Rightarrow> flush_bucket1 i as (count + 1, m1)))"

fun flush_buckets1 :: "nat list \<Rightarrow> int \<times> pe_hashmap \<Rightarrow> (int \<times> pe_hashmap) option" where
  "flush_buckets1 [] cm = Some cm"
| "flush_buckets1 (i # is) (count, m) =
    (if length (pm_buckets m) \<le> i then None
     else (case flush_bucket1 i (pb_head (pm_buckets m ! i)) (count, m) of
       None \<Rightarrow> None
     | Some cm \<Rightarrow> flush_buckets1 is cm))"

definition pe_map_flush1 :: "pe_hashmap \<Rightarrow> (int \<times> pe_hashmap) option" where
  "pe_map_flush1 m = flush_buckets1 [0..<unat (pm_buckets_num m)] (0, m)"

text \<open>\<^verbatim>\<open>kmem_cache_destroy\<close> needs a cache without objects.\<close>

definition pe_release :: "pe_hashmap \<Rightarrow> resource list \<Rightarrow> resource list option" where
  "pe_release m rs =
    (if pm_objs m \<noteq> [] then None else Some (remove1 Map_Mem (remove1 Buckets_Mem (remove1 Entry_Cache rs))))"

definition pe_map_destroy1 :: "pe_hashmap \<Rightarrow> resource list \<Rightarrow> resource list option" where
  "pe_map_destroy1 m rs = (case pe_map_flush1 m of None \<Rightarrow> None | Some (count, m1) \<Rightarrow> pe_release m1 rs)"

section \<open>The operations of the second module\<close>

definition pe_map_insert2 :: "addr option \<Rightarrow> i64 \<Rightarrow> i64 \<Rightarrow> pe_hashmap \<Rightarrow> (int \<times> pe_hashmap) option" where
  "pe_map_insert2 alloc key value m =
    (case alloc of
      None \<Rightarrow> Some (-1, m)
    | Some new_entry \<Rightarrow>
        let index = pe_index (pm_buckets_mask m) key;
            m1 = kmem_alloc new_entry \<lparr>pe_key = key, pe_value = value\<rparr> m
        in if length (pm_buckets m1) \<le> index then None
        else let bucket = pm_buckets m1 ! index
        in (case pe_find (pm_objs m1) key (pb_head bucket) of
          None \<Rightarrow> None
        | Some (Some (old_entry, e)) \<Rightarrow>
            let m2 = set_bucket index (bucket\<lparr>pb_head := hlist_replace old_entry new_entry (pb_head bucket)\<rparr>) m1
            in Some (0, m2\<lparr>pm_rcu := pm_rcu m2 @ [old_entry]\<rparr>)
        | Some None \<Rightarrow>
            Some (0, set_bucket index \<lparr>pb_head = new_entry # pb_head bucket, pb_num = pb_num bucket + 1\<rparr> m1)))"

definition pe_map_remove2 :: "i64 \<Rightarrow> pe_hashmap \<Rightarrow> (int \<times> pe_hashmap) option" where
  "pe_map_remove2 key m =
    (let index = pe_index (pm_buckets_mask m) key
     in if length (pm_buckets m) \<le> index then None
     else let bucket = pm_buckets m ! index
     in (case pe_find (pm_objs m) key (pb_head bucket) of
       None \<Rightarrow> None
     | Some (Some (old_entry, e)) \<Rightarrow>
         let m1 = set_bucket index \<lparr>pb_head = remove1 old_entry (pb_head bucket), pb_num = pb_num bucket - 1\<rparr> m
         in Some (0, m1\<lparr>pm_rcu := pm_rcu m1 @ [old_entry]\<rparr>)
     | Some None \<Rightarrow> Some (-1, m)))"

definition pe_map_get2 :: "i64 \<Rightarrow> pe_hashmap \<Rightarrow> i64 option option" where
  "pe_map_get2 key m =
    (let index = pe_index (pm_buckets_mask m) key
     in if length (pm_buckets m) \<le> index then None
     else map_option (map_option (\<lambda>(a, e). pe_value e)) (pe_find (pm_objs m) key (pb_head (pm_buckets m ! index))))"

text \<open>The callback of \<^verbatim>\<open>call_rcu\<close>, which the kernel runs once for each entry handed to it.\<close>

definition pe_entry_free_rcu :: "addr \<Rightarrow> pe_hashmap \<Rightarrow> pe_hashmap option" where
  "pe_entry_free_rcu a m = kmem_free a (m\<lparr>pm_rcu := remove1 a (pm_rcu m)\<rparr>)"

text \<open>\<^verbatim>\<open>synchronize_rcu\<close> and \<^verbatim>\<open>rcu_barrier\<close>: all callbacks queued so far have run.\<close>

fun rcu_callbacks :: "addr list \<Rightarrow> pe_hashmap \<Rightarrow> pe_hashmap option" where
  "rcu_callbacks [] m = Some m"
| "rcu_callbacks (a # as) m = (case pe_entry_free_rcu a m of None \<Rightarrow> None | Some m1 \<Rightarrow> rcu_callbacks as m1)"

text \<open>
  The lists are copied to \<^verbatim>\<open>heads\<close>, but the first entry of a list still points back to the head it was
  linked to, so \<^verbatim>\<open>hlist_del_rcu\<close> writes the rest of the list to the bucket.
\<close>

fun flush_bucket2 :: "nat \<Rightarrow> addr list \<Rightarrow> int \<times> pe_hashmap \<Rightarrow> (int \<times> pe_hashmap) option" where
  "flush_bucket2 i [] (count, m) = Some (count, m)"
| "flush_bucket2 i (a # as) (count, m) =
    (case kmem_free a (set_bucket i ((pm_buckets m ! i)\<lparr>pb_head := as\<rparr>) m) of
      None \<Rightarrow> None
    | Some m1 \<Rightarrow> flush_bucket2 i as (count + 1, m1))"

fun flush_heads2 :: "nat \<Rightarrow> addr list list \<Rightarrow> int \<times> pe_hashmap \<Rightarrow> (int \<times> pe_hashmap) option" where
  "flush_heads2 i [] cm = Some cm"
| "flush_heads2 i (h # heads) cm =
    (case flush_bucket2 i h cm of None \<Rightarrow> None | Some cm1 \<Rightarrow> flush_heads2 (Suc i) heads cm1)"

text \<open>\<open>vm\<close> tells whether \<^verbatim>\<open>vmalloc\<close> succeeds: its result is not checked.\<close>

definition pe_map_flush2 :: "bool \<Rightarrow> pe_hashmap \<Rightarrow> (int \<times> pe_hashmap) option" where
  "pe_map_flush2 vm m =
    (let n = unat (pm_buckets_num m)
     in if \<not> vm \<and> 0 < n \<or> length (pm_buckets m) < n then None
     else let heads = map pb_head (take n (pm_buckets m));
              m1 = m\<lparr>pm_buckets := replicate n \<lparr>pb_head = [], pb_num = 0\<rparr> @ drop n (pm_buckets m)\<rparr>
     in (case rcu_callbacks (pm_rcu m1) m1 of
       None \<Rightarrow> None
     | Some m2 \<Rightarrow> flush_heads2 0 heads (0, m2)))"

definition pe_map_destroy2 :: "bool \<Rightarrow> pe_hashmap \<Rightarrow> resource list \<Rightarrow> resource list option" where
  "pe_map_destroy2 vm m rs = (case pe_map_flush2 vm m of None \<Rightarrow> None | Some (count, m1) \<Rightarrow> pe_release m1 rs)"

section \<open>The proc entry\<close>

record hello_entry_param =
  hp_operation :: i64
  hp_key :: i64
  hp_value :: i64

definition HELLO_ENTRY_GET :: i64 where "HELLO_ENTRY_GET = 0"
definition HELLO_ENTRY_INSERT :: i64 where "HELLO_ENTRY_INSERT = 1"
definition HELLO_ENTRY_REMOVE :: i64 where "HELLO_ENTRY_REMOVE = 2"

text \<open>
  \<open>user\<close> is what \<^verbatim>\<open>copy_from_user\<close> finds in the caller's buffer (\<open>None\<close>: it fails), \<open>to_ok\<close> whether
  \<^verbatim>\<open>copy_to_user\<close> succeeds.  The second component of the answer is what is written back to the caller.
  The file position, which both functions increment and never read, is not kept.
\<close>

definition entry_read ::
    "(i64 \<Rightarrow> 'm \<Rightarrow> i64 option option) \<Rightarrow> u64 \<Rightarrow> hello_entry_param option \<Rightarrow> bool \<Rightarrow> 'm \<Rightarrow> (int \<times> hello_entry_param option) option" where
  "entry_read get nbytes user to_ok m =
    (if nbytes \<noteq> 24 then Some (-1, None)
     else (case user of
       None \<Rightarrow> Some (-1, None)
     | Some param \<Rightarrow>
         if hp_operation param \<noteq> HELLO_ENTRY_GET then Some (-1, None)
         else (case get (hp_key param) m of
           None \<Rightarrow> None
         | Some None \<Rightarrow> Some (-1, None)
         | Some (Some v) \<Rightarrow> if \<not> to_ok then Some (-1, None) else Some (0, Some (param\<lparr>hp_value := v\<rparr>)))))"

definition entry_write ::
    "(i64 \<Rightarrow> i64 \<Rightarrow> 'm \<Rightarrow> (int \<times> 'm) option) \<Rightarrow> (i64 \<Rightarrow> 'm \<Rightarrow> (int \<times> 'm) option) \<Rightarrow>
     u64 \<Rightarrow> hello_entry_param option \<Rightarrow> 'm \<Rightarrow> (int \<times> 'm) option" where
  "entry_write ins remove nbytes user m =
    (if nbytes \<noteq> 24 then Some (-1, m)
     else (case user of
       None \<Rightarrow> Some (-1, m)
     | Some param \<Rightarrow>
         if hp_operation param = HELLO_ENTRY_INSERT then
           (case ins (hp_key param) (hp_value param) m of
             None \<Rightarrow> None
           | Some (ret, m1) \<Rightarrow> if ret < 0 then Some (-1, m1) else Some (0, m1))
         else if hp_operation param = HELLO_ENTRY_REMOVE then
           (case remove (hp_key param) m of
             None \<Rightarrow> None
           | Some (ret, m1) \<Rightarrow> if ret < 0 then Some (-1, m1) else Some (0, m1))
         else Some (-1, m)))"

definition entry_read1 :: "u64 \<Rightarrow> hello_entry_param option \<Rightarrow> bool \<Rightarrow> pe_hashmap \<Rightarrow> (int \<times> hello_entry_param option) option" where
  "entry_read1 = entry_read pe_map_get1"

definition entry_write1 :: "addr option \<Rightarrow> u64 \<Rightarrow> hello_entry_param option \<Rightarrow> pe_hashmap \<Rightarrow> (int \<times> pe_hashmap) option" where
  "entry_write1 alloc = entry_write (pe_map_insert1 alloc) pe_map_remove1"

definition entry_read2 :: "u64 \<Rightarrow> hello_entry_param option \<Rightarrow> bool \<Rightarrow> pe_hashmap \<Rightarrow> (int \<times> hello_entry_param option) option" where
  "entry_read2 = entry_read pe_map_get2"

definition entry_write2 :: "addr option \<Rightarrow> u64 \<Rightarrow> hello_entry_param option \<Rightarrow> pe_hashmap \<Rightarrow> (int \<times> pe_hashmap) option" where
  "entry_write2 alloc = entry_write (pe_map_insert2 alloc) pe_map_remove2"

section \<open>Loading and unloading\<close>

record pe_module =
  md_res :: "resource list"
  md_map :: "pe_hashmap option"

definition hashmap_init ::
    "(pe_hashmap \<Rightarrow> resource list \<Rightarrow> resource list option) \<Rightarrow> (resource \<Rightarrow> bool) \<Rightarrow> (int \<times> pe_module) option" where
  "hashmap_init destroy ok =
    (if \<not> ok Example_Dir then Some (-1, \<lparr>md_res = [], md_map = None\<rparr>)
     else (case pe_map_create ok 16 [Example_Dir] of
       (None, rs) \<Rightarrow> Some (-1, \<lparr>md_res = remove1 Example_Dir rs, md_map = None\<rparr>)
     | (Some m, rs) \<Rightarrow>
         if ok Hello_Entry then Some (0, \<lparr>md_res = Hello_Entry # rs, md_map = Some m\<rparr>)
         else (case destroy m rs of
           None \<Rightarrow> None
         | Some rs1 \<Rightarrow> Some (-1, \<lparr>md_res = remove1 Example_Dir rs1, md_map = None\<rparr>))))"

definition hashmap_exit ::
    "(pe_hashmap \<Rightarrow> resource list \<Rightarrow> resource list option) \<Rightarrow> pe_hashmap \<Rightarrow> resource list \<Rightarrow> resource list option" where
  "hashmap_exit destroy m rs = map_option (remove1 Example_Dir) (destroy m (remove1 Hello_Entry rs))"

definition proc_entry_hashmap1_init :: "(resource \<Rightarrow> bool) \<Rightarrow> (int \<times> pe_module) option" where
  "proc_entry_hashmap1_init = hashmap_init pe_map_destroy1"

definition proc_entry_hashmap1_exit :: "pe_hashmap \<Rightarrow> resource list \<Rightarrow> resource list option" where
  "proc_entry_hashmap1_exit = hashmap_exit pe_map_destroy1"

definition proc_entry_hashmap2_init :: "bool \<Rightarrow> (resource \<Rightarrow> bool) \<Rightarrow> (int \<times> pe_module) option" where
  "proc_entry_hashmap2_init vm = hashmap_init (pe_map_destroy2 vm)"

definition proc_entry_hashmap2_exit :: "bool \<Rightarrow> pe_hashmap \<Rightarrow> resource list \<Rightarrow> resource list option" where
  "proc_entry_hashmap2_exit vm = hashmap_exit (pe_map_destroy2 vm)"

section \<open>Well-formed maps\<close>

text \<open>
  An invariant of the two modules: the shape of the array, buckets whose entries hash there, have different
  keys and are counted, and an account of the cache: what is allocated is in a bucket or waits to be freed.
\<close>

definition bucket_ok :: "u32 \<Rightarrow> (addr \<Rightarrow> pe_entry option) \<Rightarrow> nat \<Rightarrow> pe_bucket \<Rightarrow> bool" where
  "bucket_ok bmask h i b \<longleftrightarrow>
    distinct (pb_head b) \<and> inj_on (\<lambda>a. pe_key (the (h a))) (set (pb_head b)) \<and>
    (\<forall>a \<in> set (pb_head b). \<exists>e. h a = Some e \<and> pe_index bmask (pe_key e) = i) \<and>
    pb_num b = of_nat (length (pb_head b))"

definition pe_live :: "pe_hashmap \<Rightarrow> addr set" where
  "pe_live m = (\<Union>b \<in> set (pm_buckets m). set (pb_head b))"

abbreviation pe_heap :: "pe_hashmap \<Rightarrow> addr \<Rightarrow> pe_entry option" where
  "pe_heap m \<equiv> map_of (pm_objs m)"

definition pe_shape :: "pe_hashmap \<Rightarrow> bool" where
  "pe_shape m \<longleftrightarrow>
    0 < unat (pm_buckets_num m) \<and> pm_buckets_mask m = pm_buckets_num m - 1 \<and>
    length (pm_buckets m) = unat (pm_buckets_num m)"

definition pe_account :: "pe_hashmap \<Rightarrow> bool" where
  "pe_account m \<longleftrightarrow>
    dom (pe_heap m) = pe_live m \<union> set (pm_rcu m) \<and> pe_live m \<inter> set (pm_rcu m) = {} \<and> distinct (pm_rcu m)"

definition pe_wf :: "pe_hashmap \<Rightarrow> bool" where
  "pe_wf m \<longleftrightarrow>
    pe_shape m \<and> pe_account m \<and>
    (\<forall>i < length (pm_buckets m). bucket_ok (pm_buckets_mask m) (pe_heap m) i (pm_buckets m ! i))"

lemma pe_wfD:
  assumes "pe_wf m"
  shows "pe_shape m" "pe_account m"
    and "\<And>i. i < length (pm_buckets m) \<Longrightarrow> bucket_ok (pm_buckets_mask m) (pe_heap m) i (pm_buckets m ! i)"
  using assms by (simp_all add: pe_wf_def)

lemma pe_wfI:
  assumes "pe_shape m" "pe_account m"
    and "\<And>i. i < length (pm_buckets m) \<Longrightarrow> bucket_ok (pm_buckets_mask m) (pe_heap m) i (pm_buckets m ! i)"
  shows "pe_wf m"
  using assms by (simp add: pe_wf_def)

lemma pe_live_iff: "a \<in> pe_live m \<longleftrightarrow> (\<exists>i < length (pm_buckets m). a \<in> set (pb_head (pm_buckets m ! i)))"
  by (auto simp: pe_live_def set_conv_nth)

lemma unat_ucast_u32_u64: "unat (ucast (x :: u32) :: u64) = unat x"
proof -
  have "unat x < 2 ^ 64"
    using order_less_trans [OF unsigned_less [of x], of "2 ^ 64"] by simp
  then show ?thesis
    by (simp add: unsigned_ucast_eq take_bit_nat_eq_self)
qed

lemma pe_index_bound:
  assumes "0 < unat num"
  shows "pe_index (num - 1) key < unat num"
proof -
  have "pe_index (num - 1) key \<le> unat (ucast (num - 1) :: u64)"
    using word_and_le1 by (simp add: pe_index_def word_le_nat_alt)
  also have "\<dots> = unat num - 1"
    using assms by (subst unat_ucast_u32_u64, subst unat_minus_one) auto
  finally show ?thesis
    using assms by linarith
qed

lemma pe_index_inside: "pe_shape m \<Longrightarrow> pe_index (pm_buckets_mask m) key < length (pm_buckets m)"
  by (simp add: pe_shape_def pe_index_bound)

lemma bucket_okD:
  assumes "bucket_ok bmask h i b"
  shows "distinct (pb_head b)" "inj_on (\<lambda>a. pe_key (the (h a))) (set (pb_head b))"
    and "\<And>a. a \<in> set (pb_head b) \<Longrightarrow> \<exists>e. h a = Some e \<and> pe_index bmask (pe_key e) = i"
    and "pb_num b = of_nat (length (pb_head b))"
  using assms by (simp_all add: bucket_ok_def)

lemma bucket_ok_cong:
  assumes "bucket_ok bmask h i b" "\<And>a. a \<in> set (pb_head b) \<Longrightarrow> h' a = h a"
  shows "bucket_ok bmask h' i b"
  using assms by (auto simp: bucket_ok_def inj_on_def)

text \<open>An entry is in the bucket of its key, so in one bucket only.\<close>

lemma live_bucket:
  assumes "pe_wf m" "a \<in> pe_live m"
  obtains e where "pe_heap m a = Some e"
    and "a \<in> set (pb_head (pm_buckets m ! pe_index (pm_buckets_mask m) (pe_key e)))"
proof -
  obtain i where i: "i < length (pm_buckets m)" "a \<in> set (pb_head (pm_buckets m ! i))"
    using assms(2) by (auto simp: pe_live_iff)
  then show ?thesis
    using bucket_okD(3) [OF pe_wfD(3) [OF assms(1) i(1)] i(2)] that by auto
qed

lemma buckets_disjoint:
  assumes "pe_wf m" "i < length (pm_buckets m)" "j < length (pm_buckets m)" "i \<noteq> j"
    and "a \<in> set (pb_head (pm_buckets m ! i))"
  shows "a \<notin> set (pb_head (pm_buckets m ! j))"
proof
  assume "a \<in> set (pb_head (pm_buckets m ! j))"
  then show False
    using bucket_okD(3) [OF pe_wfD(3) [OF assms(1,2)] assms(5)] bucket_okD(3) [OF pe_wfD(3) [OF assms(1,3)]] assms(4)
    by force
qed

text \<open>A change of one bucket and of entries outside the other buckets.\<close>

lemma live_set_bucket:
  assumes "pe_wf m" "i < length (pm_buckets m)" "pm_buckets m' = (pm_buckets m)[i := b]"
  shows "pe_live m' = pe_live m - set (pb_head (pm_buckets m ! i)) \<union> set (pb_head b)"
    (is "?l = ?r")
proof -
  have "a \<in> ?l \<longleftrightarrow> a \<in> ?r" for a
  proof -
    have "a \<in> ?l \<longleftrightarrow> (\<exists>j < length (pm_buckets m). a \<in> set (pb_head ((pm_buckets m)[i := b] ! j)))"
      by (simp add: pe_live_iff assms(3))
    also have "\<dots> \<longleftrightarrow> a \<in> set (pb_head b) \<or> (\<exists>j < length (pm_buckets m). j \<noteq> i \<and> a \<in> set (pb_head (pm_buckets m ! j)))"
      using assms(2) by (metis nth_list_update)
    also have "\<dots> \<longleftrightarrow> a \<in> ?r"
      using buckets_disjoint [OF assms(1)] assms(2) by (auto simp: pe_live_iff)
    finally show ?thesis .
  qed
  then show ?thesis by blast
qed

lemma wf_set_bucket:
  assumes wf: "pe_wf m" and i: "i < length (pm_buckets m)"
    and buckets: "pm_buckets m' = (pm_buckets m)[i := b]"
    and nums: "pm_buckets_num m' = pm_buckets_num m" "pm_buckets_mask m' = pm_buckets_mask m"
    and b: "bucket_ok (pm_buckets_mask m) (pe_heap m') i b"
    and others: "\<And>a. a \<in> pe_live m \<Longrightarrow> a \<notin> set (pb_head (pm_buckets m ! i)) \<Longrightarrow> pe_heap m' a = pe_heap m a"
    and acc: "pe_account m'"
  shows "pe_wf m'"
proof (rule pe_wfI)
  show "pe_shape m'"
    using pe_wfD(1) [OF wf] buckets nums by (simp add: pe_shape_def)
  show "pe_account m'" by (rule acc)
  fix j
  assume "j < length (pm_buckets m')"
  then have j: "j < length (pm_buckets m)" by (simp add: buckets)
  show "bucket_ok (pm_buckets_mask m') (pe_heap m') j (pm_buckets m' ! j)"
  proof (cases "j = i")
    case True
    then show ?thesis using b i by (simp add: buckets nums)
  next
    case False
    have "pe_heap m' a = pe_heap m a" if "a \<in> set (pb_head (pm_buckets m ! j))" for a
      using that j False buckets_disjoint [OF wf j i False that] by (intro others) (auto simp: pe_live_iff)
    then show ?thesis
      using bucket_ok_cong [OF pe_wfD(3) [OF wf j]] False by (simp add: buckets nums)
  qed
qed

section \<open>The walk\<close>

lemma pe_find_sound:
  "pe_find objs key as = Some (Some (a, e)) \<Longrightarrow> a \<in> set as \<and> map_of objs a = Some e \<and> pe_key e = key"
  by (induction as) (auto split: option.splits if_splits)

lemma pe_find_absent:
  "pe_find objs key as = Some None \<Longrightarrow> a \<in> set as \<Longrightarrow> map_of objs a = Some e \<Longrightarrow> pe_key e \<noteq> key"
  by (induction as) (auto split: option.splits if_splits)

lemma pe_find_returns: "\<forall>a \<in> set as. map_of objs a \<noteq> None \<Longrightarrow> pe_find objs key as \<noteq> None"
  by (induction as) (auto split: option.splits)

lemma pe_find_cong: "(\<And>a. a \<in> set as \<Longrightarrow> map_of objs' a = map_of objs a) \<Longrightarrow> pe_find objs' key as = pe_find objs key as"
  by (induction as) (auto split: option.splits)

text \<open>The walk of the bucket of a key finds its entry, or no entry of the map has the key.\<close>

lemma walk_cases:
  assumes wf: "pe_wf m"
  obtains (found) a e where "pe_find (pm_objs m) key (pb_head (pm_buckets m ! pe_index (pm_buckets_mask m) key)) = Some (Some (a, e))"
      "a \<in> set (pb_head (pm_buckets m ! pe_index (pm_buckets_mask m) key))" "a \<in> pe_live m" "pe_heap m a = Some e" "pe_key e = key"
  | (absent) "pe_find (pm_objs m) key (pb_head (pm_buckets m ! pe_index (pm_buckets_mask m) key)) = Some None"
      "\<And>a e. a \<in> pe_live m \<Longrightarrow> pe_heap m a = Some e \<Longrightarrow> pe_key e \<noteq> key"
proof -
  define i where "i = pe_index (pm_buckets_mask m) key"
  have i: "i < length (pm_buckets m)"
    using pe_index_inside [OF pe_wfD(1) [OF wf]] by (simp add: i_def)
  have "\<forall>a \<in> set (pb_head (pm_buckets m ! i)). pe_heap m a \<noteq> None"
    using bucket_okD(3) [OF pe_wfD(3) [OF wf i]] by auto
  from pe_find_returns [OF this] obtain r where r: "pe_find (pm_objs m) key (pb_head (pm_buckets m ! i)) = Some r"
    by blast
  show ?thesis
  proof (cases r)
    case None
    have "pe_key e \<noteq> key" if a: "a \<in> pe_live m" "pe_heap m a = Some e" for a e
    proof
      assume k: "pe_key e = key"
      obtain e' where "pe_heap m a = Some e'"
        and "a \<in> set (pb_head (pm_buckets m ! pe_index (pm_buckets_mask m) (pe_key e')))"
        using wf a(1) by (rule live_bucket)
      then have "a \<in> set (pb_head (pm_buckets m ! i))"
        using a(2) k by (simp add: i_def)
      then show False
        using pe_find_absent [OF r [unfolded None] _ a(2)] k by simp
    qed
    then show ?thesis
      using r None absent by (simp add: i_def)
  next
    case (Some ae)
    obtain a e where ae: "ae = (a, e)" by (cases ae)
    then show ?thesis
      using r Some pe_find_sound [OF r [unfolded Some ae]] i found by (auto simp: i_def pe_live_iff)
  qed
qed

section \<open>The map that a hash map stands for\<close>

definition pe_abs :: "pe_hashmap \<Rightarrow> i64 \<Rightarrow> i64 option" where
  "pe_abs m key = (case pe_map_get1 key m of None \<Rightarrow> None | Some r \<Rightarrow> r)"

lemma live_key_unique:
  assumes wf: "pe_wf m" and a: "a \<in> pe_live m" "pe_heap m a = Some e"
    and b: "b \<in> pe_live m" "pe_heap m b = Some e'" and keys: "pe_key e = pe_key e'"
  shows "a = b"
proof -
  define i where "i = pe_index (pm_buckets_mask m) (pe_key e)"
  have i: "i < length (pm_buckets m)"
    using pe_index_inside [OF pe_wfD(1) [OF wf]] by (simp add: i_def)
  have "a \<in> set (pb_head (pm_buckets m ! i))"
    using live_bucket [OF wf a(1)] a(2) by (auto simp: i_def)
  moreover have "b \<in> set (pb_head (pm_buckets m ! i))"
    using live_bucket [OF wf b(1)] b(2) keys by (auto simp: i_def)
  ultimately show ?thesis
    using a(2) b(2) keys by (intro inj_onD [OF bucket_okD(2) [OF pe_wfD(3) [OF wf i]]]) simp_all
qed

lemma map_get1_total:
  assumes "pe_wf m"
  shows "pe_map_get1 key m = Some (pe_abs m key)"
  using pe_index_inside [OF pe_wfD(1) [OF assms], of key]
  by (cases rule: walk_cases [OF assms, of key]) (simp_all add: pe_abs_def pe_map_get1_def)

lemma map_get2_total: "pe_wf m \<Longrightarrow> pe_map_get2 key m = Some (pe_abs m key)"
  using map_get1_total [of m key] by (simp add: pe_map_get1_def pe_map_get2_def)

lemma abs_iff:
  assumes wf: "pe_wf m"
  shows "pe_abs m key = Some v \<longleftrightarrow> (\<exists>a e. a \<in> pe_live m \<and> pe_heap m a = Some e \<and> pe_key e = key \<and> pe_value e = v)"
proof (rule walk_cases [OF wf, of key])
  fix a e
  assume f: "pe_find (pm_objs m) key (pb_head (pm_buckets m ! pe_index (pm_buckets_mask m) key)) = Some (Some (a, e))"
    and a: "a \<in> pe_live m" "pe_heap m a = Some e" "pe_key e = key"
  have "pe_abs m key = Some (pe_value e)"
    using f pe_index_inside [OF pe_wfD(1) [OF wf], of key] by (simp add: pe_abs_def pe_map_get1_def)
  moreover have "e' = e" if "b \<in> pe_live m" "pe_heap m b = Some e'" "pe_key e' = key" for b e'
    using live_key_unique [OF wf a(1,2) that(1,2)] that a by simp
  ultimately show ?thesis
    using a by (metis option.inject)
next
  assume f: "pe_find (pm_objs m) key (pb_head (pm_buckets m ! pe_index (pm_buckets_mask m) key)) = Some None"
    and none: "\<And>a e. a \<in> pe_live m \<Longrightarrow> pe_heap m a = Some e \<Longrightarrow> pe_key e \<noteq> key"
  have "pe_abs m key = None"
    using f pe_index_inside [OF pe_wfD(1) [OF wf], of key] by (simp add: pe_abs_def pe_map_get1_def)
  then show ?thesis
    using none by auto
qed

lemma option_eqI: "(\<And>v. x = Some v \<longleftrightarrow> y = Some v) \<Longrightarrow> x = y"
  by (cases x; cases y) auto

text \<open>An operation on one key changes the entries of that key only.\<close>

lemma abs_change:
  assumes "pe_wf m" "pe_wf m'"
    and others: "\<And>a e. pe_key e \<noteq> key \<Longrightarrow>
      a \<in> pe_live m' \<and> pe_heap m' a = Some e \<longleftrightarrow> a \<in> pe_live m \<and> pe_heap m a = Some e"
    and at_key: "\<And>v. (\<exists>a e. a \<in> pe_live m' \<and> pe_heap m' a = Some e \<and> pe_key e = key \<and> pe_value e = v) \<longleftrightarrow> r = Some v"
  shows "pe_abs m' = (pe_abs m)(key := r)"
proof
  fix k
  show "pe_abs m' k = ((pe_abs m)(key := r)) k"
  proof (cases "k = key")
    case True
    then show ?thesis
      using at_key by (intro option_eqI) (simp add: abs_iff [OF assms(2)])
  next
    case False
    have "pe_abs m' k = pe_abs m k"
      using others False by (intro option_eqI) (auto simp: abs_iff [OF assms(1)] abs_iff [OF assms(2)])
    then show ?thesis using False by simp
  qed
qed

section \<open>The operations keep the invariant and act as on a map\<close>

text \<open>An unlinked or changed bucket list.\<close>

lemma bucket_ok_Cons:
  assumes "bucket_ok bmask h i b" "n \<notin> set (pb_head b)" "h' n = Some e" "pe_index bmask (pe_key e) = i"
    and "\<And>a. a \<in> set (pb_head b) \<Longrightarrow> h' a = h a"
    and "\<And>a e'. a \<in> set (pb_head b) \<Longrightarrow> h a = Some e' \<Longrightarrow> pe_key e' \<noteq> pe_key e"
  shows "bucket_ok bmask h' i \<lparr>pb_head = n # pb_head b, pb_num = pb_num b + 1\<rparr>"
proof -
  have "bucket_ok bmask h' i b"
    using assms(1,5) by (rule bucket_ok_cong)
  moreover have "pe_key e \<noteq> pe_key (the (h' a))" if "a \<in> set (pb_head b)" for a
    using bucket_okD(3) [OF assms(1) that] assms(5,6) that by force
  ultimately show ?thesis
    using assms(2,3,4) by (auto simp: bucket_ok_def)
qed

lemma bucket_ok_remove:
  assumes "bucket_ok bmask h i b" "a \<in> set (pb_head b)"
    and "\<And>x. x \<in> set (pb_head b) \<Longrightarrow> x \<noteq> a \<Longrightarrow> h' x = h x"
  shows "bucket_ok bmask h' i \<lparr>pb_head = remove1 a (pb_head b), pb_num = pb_num b - 1\<rparr>"
proof -
  note ok = bucket_okD [OF assms(1)]
  have "(of_nat (length (pb_head b) - 1) :: i64) = of_nat (length (pb_head b)) - 1"
    using assms(2) by (cases "pb_head b") auto
  moreover have "inj_on (\<lambda>x. pe_key (the (h' x))) (set (pb_head b) - {a})"
    using ok(2) assms(3) by (auto simp: inj_on_def)
  ultimately show ?thesis
    using ok assms(2,3) by (auto simp: bucket_ok_def length_remove1)
qed

lemma bucket_ok_value:
  assumes "bucket_ok bmask h i b" "h a = Some e" "pe_key e' = pe_key e"
  shows "bucket_ok bmask (h(a \<mapsto> e')) i b"
proof -
  have "pe_key (the ((h(a \<mapsto> e')) x)) = pe_key (the (h x))" for x
    using assms(2,3) by simp
  moreover have "\<exists>e''. (h(a \<mapsto> e')) x = Some e'' \<and> pe_index bmask (pe_key e'') = i" if "x \<in> set (pb_head b)" for x
    using bucket_okD(3) [OF assms(1) that] assms(2,3) by (cases "x = a") auto
  ultimately show ?thesis
    using bucket_okD(1,2,4) [OF assms(1)] unfolding bucket_ok_def by simp
qed

lemma set_hlist_replace: "a \<in> set xs \<Longrightarrow> set (hlist_replace a n xs) = insert n (set xs - {a})"
  by (auto simp: hlist_replace_def)

lemma distinct_hlist_replace: "distinct xs \<Longrightarrow> n \<notin> set xs \<Longrightarrow> distinct (hlist_replace a n xs)"
  by (auto simp: hlist_replace_def distinct_map inj_on_def)

lemma length_hlist_replace [simp]: "length (hlist_replace a n xs) = length xs"
  by (simp add: hlist_replace_def)

lemma bucket_ok_replace:
  assumes "bucket_ok bmask h i b" "a \<in> set (pb_head b)" "n \<notin> set (pb_head b)"
    and "h' n = Some e" "h a = Some e0" "pe_key e = pe_key e0"
    and "\<And>x. x \<in> set (pb_head b) \<Longrightarrow> x \<noteq> a \<Longrightarrow> h' x = h x"
  shows "bucket_ok bmask h' i (b\<lparr>pb_head := hlist_replace a n (pb_head b)\<rparr>)"
proof -
  note ok = bucket_okD [OF assms(1)]
  have "pe_index bmask (pe_key e) = i"
    using ok(3) [OF assms(2)] assms(5,6) by simp
  moreover have "pe_key e \<noteq> pe_key (the (h' x))" if "x \<in> set (pb_head b) - {a}" for x
    using that assms(2,5,6,7) inj_onD [OF ok(2), of a x] by auto
  moreover have "inj_on (\<lambda>x. pe_key (the (h' x))) (set (pb_head b) - {a})"
    using ok(2) assms(7) by (auto simp: inj_on_def)
  ultimately show ?thesis
    using ok assms(2,3,4,7) by (auto simp: bucket_ok_def set_hlist_replace distinct_hlist_replace)
qed


text \<open>The laws an insertion, a removal and a callback meet.\<close>

definition inserted :: "i64 \<Rightarrow> i64 \<Rightarrow> pe_hashmap \<Rightarrow> pe_hashmap \<Rightarrow> bool" where
  "inserted key value m m' \<longleftrightarrow> pe_wf m' \<and> pe_abs m' = (pe_abs m)(key \<mapsto> value)"

definition removed :: "i64 \<Rightarrow> pe_hashmap \<Rightarrow> pe_hashmap \<Rightarrow> bool" where
  "removed key m m' \<longleftrightarrow> pe_wf m' \<and> pe_abs m' = (pe_abs m)(key := None)"

lemma absent_abs:
  assumes "pe_wf m" "\<And>a e. a \<in> pe_live m \<Longrightarrow> pe_heap m a = Some e \<Longrightarrow> pe_key e \<noteq> key"
  shows "pe_abs m key = None"
  using abs_iff [OF assms(1), of key] assms(2) by (metis not_Some_eq)

lemma heap_kmem_alloc [simp]: "pe_heap (kmem_alloc n e m) = (pe_heap m)(n \<mapsto> e)"
  by (simp add: kmem_alloc_def)

lemma kmem_alloc_simps [simp]:
  "pm_buckets (kmem_alloc n e m) = pm_buckets m" "pm_buckets_mask (kmem_alloc n e m) = pm_buckets_mask m"
  "pm_buckets_num (kmem_alloc n e m) = pm_buckets_num m" "pm_rcu (kmem_alloc n e m) = pm_rcu m"
  by (simp_all add: kmem_alloc_def)

lemma set_bucket_simps [simp]:
  "pm_buckets (set_bucket i b m) = (pm_buckets m)[i := b]" "pm_buckets_mask (set_bucket i b m) = pm_buckets_mask m"
  "pm_buckets_num (set_bucket i b m) = pm_buckets_num m" "pm_rcu (set_bucket i b m) = pm_rcu m"
  "pm_objs (set_bucket i b m) = pm_objs m"
  by (simp_all add: set_bucket_def)

lemma live_allocated: "pe_wf m \<Longrightarrow> a \<in> pe_live m \<Longrightarrow> pe_heap m a \<noteq> None"
  by (erule live_bucket) auto

lemma insert_new:
  assumes wf: "pe_wf m" and fresh: "pe_heap m n = None"
    and absent: "\<And>a e. a \<in> pe_live m \<Longrightarrow> pe_heap m a = Some e \<Longrightarrow> pe_key e \<noteq> key"
    and i: "i = pe_index (pm_buckets_mask m) key" and b: "b = pm_buckets m ! i"
    and m': "m' = set_bucket i \<lparr>pb_head = n # pb_head b, pb_num = pb_num b + 1\<rparr>
      (kmem_alloc n \<lparr>pe_key = key, pe_value = value\<rparr> m)"
  shows "inserted key value m m'" "pm_rcu m' = pm_rcu m"
proof -
  have len: "i < length (pm_buckets m)"
    using pe_index_inside [OF pe_wfD(1) [OF wf]] by (simp add: i)
  have n: "n \<notin> pe_live m" "n \<notin> set (pm_rcu m)"
    using pe_wfD(2) [OF wf] fresh by (auto simp: pe_account_def)
  have b_live: "set (pb_head b) \<subseteq> pe_live m"
    using len by (auto simp: b pe_live_iff)
  have live: "pe_live m' = insert n (pe_live m)"
    using live_set_bucket [OF wf len, of m' "\<lparr>pb_head = n # pb_head b, pb_num = pb_num b + 1\<rparr>"] b_live
    by (auto simp: m' b)
  have heap: "pe_heap m' = (pe_heap m)(n \<mapsto> \<lparr>pe_key = key, pe_value = value\<rparr>)"
    and rcu: "pm_rcu m' = pm_rcu m"
    by (simp_all add: m')
  have "pe_wf m'"
  proof (rule wf_set_bucket [OF wf len])
    show "bucket_ok (pm_buckets_mask m) (pe_heap m') i \<lparr>pb_head = n # pb_head b, pb_num = pb_num b + 1\<rparr>"
      using n b_live absent
      by (intro bucket_ok_Cons [OF pe_wfD(3) [OF wf len, folded b], where e = "\<lparr>pe_key = key, pe_value = value\<rparr>"])
        (auto simp: heap i)
    show "pe_account m'"
      using pe_wfD(2) [OF wf] n by (auto simp: pe_account_def live heap rcu)
  qed (use n in \<open>auto simp: heap, auto simp: m'\<close>)
  moreover have "pe_abs m' = (pe_abs m)(key := Some value)"
    using \<open>pe_wf m'\<close> absent n by (intro abs_change [OF wf]) (auto simp: live heap)
  ultimately show "inserted key value m m'"
    by (simp add: inserted_def)
  show "pm_rcu m' = pm_rcu m" by (rule rcu)
qed

lemma insert1_law:
  assumes wf: "pe_wf m" and fresh: "pe_heap m n = None"
  shows "\<exists>m'. pe_map_insert1 (Some n) key value m = Some (0, m') \<and> inserted key value m m' \<and> pm_rcu m' = pm_rcu m"
proof -
  define i where "i = pe_index (pm_buckets_mask m) key"
  have len: "i < length (pm_buckets m)"
    using pe_index_inside [OF pe_wfD(1) [OF wf]] by (simp add: i_def)
  have n: "n \<notin> pe_live m"
    using pe_wfD(2) [OF wf] fresh by (auto simp: pe_account_def)
  have find: "pe_find (pm_objs (kmem_alloc n e m)) key (pb_head (pm_buckets m ! i)) =
      pe_find (pm_objs m) key (pb_head (pm_buckets m ! i))" for e
    using n len by (intro pe_find_cong) (auto simp: pe_live_iff)
  from wf show ?thesis
  proof (cases rule: walk_cases [where key = key])
    case (found a e)
    have a: "a \<noteq> n" using found(3) n by blast
    let ?m1 = "kmem_alloc n \<lparr>pe_key = key, pe_value = value\<rparr> m"
    define m' where "m' = ?m1\<lparr>pm_objs := AList.delete n (AList.update a (e\<lparr>pe_value := value\<rparr>) (pm_objs ?m1))\<rparr>"
    have heap: "pe_heap m' = (pe_heap m)(a \<mapsto> e\<lparr>pe_value := value\<rparr>)"
      using a fresh by (auto simp: m'_def delete_conv' update_conv' fun_eq_iff)
    have same: "pm_buckets m' = pm_buckets m" "pm_buckets_num m' = pm_buckets_num m"
      "pm_buckets_mask m' = pm_buckets_mask m" "pm_rcu m' = pm_rcu m"
      by (simp_all add: m'_def)
    have live: "pe_live m' = pe_live m"
      by (simp add: pe_live_def same)
    have "pe_wf m'"
    proof (rule pe_wfI)
      fix j
      assume "j < length (pm_buckets m')"
      then have "bucket_ok (pm_buckets_mask m) (pe_heap m) j (pm_buckets m ! j)"
        using pe_wfD(3) [OF wf] by (simp add: same)
      then show "bucket_ok (pm_buckets_mask m') (pe_heap m') j (pm_buckets m' ! j)"
        using found(4) by (simp add: same heap bucket_ok_value)
    qed (use pe_wfD(1,2) [OF wf] found(3,4) in \<open>auto simp: pe_shape_def pe_account_def same live heap\<close>)
    moreover have "pe_abs m' = (pe_abs m)(key := Some value)"
    proof (rule abs_change [OF wf \<open>pe_wf m'\<close>])
      show "(\<exists>b e'. b \<in> pe_live m' \<and> pe_heap m' b = Some e' \<and> pe_key e' = key \<and> pe_value e' = v) \<longleftrightarrow> Some value = Some v" for v
      proof
        assume "\<exists>b e'. b \<in> pe_live m' \<and> pe_heap m' b = Some e' \<and> pe_key e' = key \<and> pe_value e' = v"
        then obtain b e' where b: "b \<in> pe_live m" "pe_heap m' b = Some e'" "pe_key e' = key" "pe_value e' = v"
          by (auto simp: live)
        have "a = b"
          using b(2,3) found(5) live_key_unique [OF wf found(3,4) b(1), of e'] by (auto simp: heap split: if_splits)
        then show "Some value = Some v"
          using b(2,4) by (auto simp: heap)
      qed (use found(3,5) in \<open>auto simp: live heap\<close>)
    qed (use found(4,5) in \<open>auto simp: live heap split: if_splits\<close>)
    moreover have "pe_map_insert1 (Some n) key value m = Some (0, m')"
      using found(1) len find a by (simp add: pe_map_insert1_def i_def [symmetric] Let_def kmem_free_def m'_def update_conv')
    ultimately show ?thesis
      by (simp add: inserted_def same)
  next
    case absent
    then show ?thesis
      using insert_new [OF wf fresh absent(2) i_def refl refl] len find
      by (simp add: pe_map_insert1_def i_def [symmetric] Let_def)
  qed
qed


lemma insert2_law:
  assumes wf: "pe_wf m" and fresh: "pe_heap m n = None"
  shows "\<exists>m'. pe_map_insert2 (Some n) key value m = Some (0, m') \<and> inserted key value m m'"
proof -
  define i where "i = pe_index (pm_buckets_mask m) key"
  have len: "i < length (pm_buckets m)"
    using pe_index_inside [OF pe_wfD(1) [OF wf]] by (simp add: i_def)
  have n: "n \<notin> pe_live m" "n \<notin> set (pm_rcu m)"
    using pe_wfD(2) [OF wf] fresh by (auto simp: pe_account_def)
  have find: "pe_find (pm_objs (kmem_alloc n e m)) key (pb_head (pm_buckets m ! i)) =
      pe_find (pm_objs m) key (pb_head (pm_buckets m ! i))" for e
    using n len by (intro pe_find_cong) (auto simp: pe_live_iff)
  from wf show ?thesis
  proof (cases rule: walk_cases [where key = key])
    case (found a e)
    define b where "b = pm_buckets m ! i"
    define b' where "b' = b\<lparr>pb_head := hlist_replace a n (pb_head b)\<rparr>"
    define new where "new = \<lparr>pe_key = key, pe_value = value\<rparr>"
    define m' where "m' = (set_bucket i b' (kmem_alloc n new m))\<lparr>pm_rcu := pm_rcu m @ [a]\<rparr>"
    have a_b: "a \<in> set (pb_head b)" using found(2) by (simp add: b_def i_def)
    have b_live: "set (pb_head b) \<subseteq> pe_live m"
      using len by (auto simp: b_def pe_live_iff)
    have same: "pm_buckets m' = (pm_buckets m)[i := b']" "pm_buckets_num m' = pm_buckets_num m"
      "pm_buckets_mask m' = pm_buckets_mask m" "pm_rcu m' = pm_rcu m @ [a]"
      by (simp_all add: m'_def)
    have heap: "pe_heap m' = (pe_heap m)(n \<mapsto> new)"
      by (simp add: m'_def)
    have live: "pe_live m' = insert n (pe_live m - {a})"
      using live_set_bucket [OF wf len same(1)] b_live n a_b by (auto simp: b_def b'_def set_hlist_replace)
    have "a \<notin> set (pm_rcu m)"
      using pe_wfD(2) [OF wf] found(3) by (auto simp: pe_account_def)
    then have acc: "pe_account m'"
      using pe_wfD(2) [OF wf] n found(3) by (auto simp: pe_account_def live heap same)
    have "pe_wf m'"
    proof (rule wf_set_bucket [OF wf len same(1,2,3) _ _ acc])
      show "bucket_ok (pm_buckets_mask m) (pe_heap m') i b'"
        unfolding b'_def
      proof (rule bucket_ok_replace [OF pe_wfD(3) [OF wf len, folded b_def] a_b, where e = new])
        show "n \<notin> set (pb_head b)" using n b_live by blast
      qed (use found(4,5) n b_live in \<open>auto simp: heap new_def\<close>)
    qed (use n in \<open>auto simp: heap\<close>)
    moreover have "pe_abs m' = (pe_abs m)(key := Some value)"
    proof (rule abs_change [OF wf \<open>pe_wf m'\<close>])
      show "(\<exists>b e'. b \<in> pe_live m' \<and> pe_heap m' b = Some e' \<and> pe_key e' = key \<and> pe_value e' = v) \<longleftrightarrow> Some value = Some v" for v
      proof
        assume "\<exists>b e'. b \<in> pe_live m' \<and> pe_heap m' b = Some e' \<and> pe_key e' = key \<and> pe_value e' = v"
        then obtain b e' where b: "b \<in> pe_live m'" "pe_heap m' b = Some e'" "pe_key e' = key" "pe_value e' = v"
          by auto
        have "b = n"
          using b(1,2,3) found(5) live_key_unique [OF wf found(3,4), of b e'] by (auto simp: live heap split: if_splits)
        then show "Some value = Some v"
          using b(2,4) by (auto simp: heap new_def)
      qed (auto simp: live heap new_def)
    qed (use found(4,5) n in \<open>auto simp: live heap new_def split: if_splits\<close>)
    moreover have "pe_map_insert2 (Some n) key value m = Some (0, m')"
      using found(1) len find
      by (simp add: pe_map_insert2_def i_def [symmetric] Let_def m'_def b'_def b_def new_def)
    ultimately show ?thesis
      by (simp add: inserted_def)
  next
    case absent
    then show ?thesis
      using insert_new [OF wf fresh absent(2) i_def refl refl] len find
      by (simp add: pe_map_insert2_def i_def [symmetric] Let_def)
  qed
qed

text \<open>Unlinking an entry; what becomes of it is left open.\<close>

lemma unlink:
  assumes wf: "pe_wf m" and i: "i = pe_index (pm_buckets_mask m) key"
    and a: "a \<in> set (pb_head (pm_buckets m ! i))" "pe_heap m a = Some e" "pe_key e = key"
    and buckets: "pm_buckets m' = (pm_buckets m)[i := \<lparr>pb_head = remove1 a (pb_head (pm_buckets m ! i)), pb_num = pb_num (pm_buckets m ! i) - 1\<rparr>]"
    and nums: "pm_buckets_num m' = pm_buckets_num m" "pm_buckets_mask m' = pm_buckets_mask m"
    and heap: "\<And>x. x \<in> pe_live m \<Longrightarrow> x \<noteq> a \<Longrightarrow> pe_heap m' x = pe_heap m x"
    and acc: "pe_live m' = pe_live m - {a} \<Longrightarrow> pe_account m'"
  shows "removed key m m'"
proof -
  define b where "b = pm_buckets m ! i"
  have len: "i < length (pm_buckets m)"
    using pe_index_inside [OF pe_wfD(1) [OF wf]] by (simp add: i)
  have b_live: "set (pb_head b) \<subseteq> pe_live m"
    using len by (auto simp: b_def pe_live_iff)
  have dist: "distinct (pb_head b)"
    using bucket_okD(1) [OF pe_wfD(3) [OF wf len]] by (simp add: b_def)
  have live: "pe_live m' = pe_live m - {a}"
    using live_set_bucket [OF wf len buckets] b_live dist a(1) by (auto simp: b_def)
  have a_live: "a \<in> pe_live m" using a(1) b_live by (auto simp: b_def)
  have "pe_wf m'"
  proof (rule wf_set_bucket [OF wf len buckets nums _ _ acc [OF live]])
    show "bucket_ok (pm_buckets_mask m) (pe_heap m') i \<lparr>pb_head = remove1 a (pb_head (pm_buckets m ! i)), pb_num = pb_num (pm_buckets m ! i) - 1\<rparr>"
      using b_live heap by (intro bucket_ok_remove [OF pe_wfD(3) [OF wf len] a(1)]) (auto simp: b_def)
  qed (use heap a in auto)
  moreover have "pe_abs m' = (pe_abs m)(key := None)"
  proof (rule abs_change [OF wf \<open>pe_wf m'\<close>])
    fix x and e' :: pe_entry
    assume "pe_key e' \<noteq> key"
    then show "x \<in> pe_live m' \<and> pe_heap m' x = Some e' \<longleftrightarrow> x \<in> pe_live m \<and> pe_heap m x = Some e'"
      using heap [of x] a(2,3) by (cases "x = a") (auto simp: live)
  next
    fix v
    have "pe_key e' \<noteq> key" if "x \<in> pe_live m'" "pe_heap m' x = Some e'" for x and e' :: pe_entry
      using live_key_unique [OF wf a_live a(2), of x e'] that heap [of x] a(3) by (auto simp: live)
    then show "(\<exists>b e'. b \<in> pe_live m' \<and> pe_heap m' b = Some e' \<and> pe_key e' = key \<and> pe_value e' = v) \<longleftrightarrow> None = Some v"
      by auto
  qed
  ultimately show ?thesis by (simp add: removed_def)
qed

definition remove_result :: "pe_hashmap \<Rightarrow> i64 \<Rightarrow> int" where
  "remove_result m key = (if pe_abs m key = None then -1 else 0)"

lemma removed_absent: "pe_wf m \<Longrightarrow> pe_abs m key = None \<Longrightarrow> removed key m m"
  by (auto simp: removed_def fun_eq_iff)

lemma remove1_law:
  assumes wf: "pe_wf m"
  shows "\<exists>m'. pe_map_remove1 key m = Some (remove_result m key, m') \<and> removed key m m' \<and> pm_rcu m' = pm_rcu m"
proof -
  define i where "i = pe_index (pm_buckets_mask m) key"
  have len: "i < length (pm_buckets m)"
    using pe_index_inside [OF pe_wfD(1) [OF wf]] by (simp add: i_def)
  from wf show ?thesis
  proof (cases rule: walk_cases [where key = key])
    case (found a e)
    define m1 where "m1 = set_bucket i \<lparr>pb_head = remove1 a (pb_head (pm_buckets m ! i)), pb_num = pb_num (pm_buckets m ! i) - 1\<rparr> m"
    define m' where "m' = m1\<lparr>pm_objs := AList.delete a (pm_objs m1)\<rparr>"
    have same: "pm_buckets m' = (pm_buckets m)[i := \<lparr>pb_head = remove1 a (pb_head (pm_buckets m ! i)), pb_num = pb_num (pm_buckets m ! i) - 1\<rparr>]"
      "pm_buckets_num m' = pm_buckets_num m" "pm_buckets_mask m' = pm_buckets_mask m"
      "pm_rcu m' = pm_rcu m" "pe_heap m' = (pe_heap m)(a := None)"
      by (simp_all add: m'_def m1_def delete_conv')
    have "removed key m m'"
      using found(2) pe_wfD(2) [OF wf] found(3)
      by (intro unlink [OF wf i_def _ found(4,5) same(1,2,3)]) (auto simp: i_def same(4,5) pe_account_def)
    moreover have "pe_map_remove1 key m = Some (0, m')"
      using found(1,4) len by (simp add: pe_map_remove1_def i_def [symmetric] Let_def kmem_free_def m'_def m1_def)
    moreover have "pe_abs m key = Some (pe_value e)"
      using found by (auto simp: abs_iff [OF wf])
    ultimately show ?thesis
      by (simp add: same remove_result_def)
  next
    case absent
    then show ?thesis
      using absent_abs [OF wf absent(2)] len removed_absent [OF wf]
      by (simp add: pe_map_remove1_def i_def [symmetric] Let_def remove_result_def)
  qed
qed

lemma remove2_law:
  assumes wf: "pe_wf m"
  shows "\<exists>m'. pe_map_remove2 key m = Some (remove_result m key, m') \<and> removed key m m'"
proof -
  define i where "i = pe_index (pm_buckets_mask m) key"
  have len: "i < length (pm_buckets m)"
    using pe_index_inside [OF pe_wfD(1) [OF wf]] by (simp add: i_def)
  from wf show ?thesis
  proof (cases rule: walk_cases [where key = key])
    case (found a e)
    define m1 where "m1 = set_bucket i \<lparr>pb_head = remove1 a (pb_head (pm_buckets m ! i)), pb_num = pb_num (pm_buckets m ! i) - 1\<rparr> m"
    define m' where "m' = m1\<lparr>pm_rcu := pm_rcu m1 @ [a]\<rparr>"
    have same: "pm_buckets m' = (pm_buckets m)[i := \<lparr>pb_head = remove1 a (pb_head (pm_buckets m ! i)), pb_num = pb_num (pm_buckets m ! i) - 1\<rparr>]"
      "pm_buckets_num m' = pm_buckets_num m" "pm_buckets_mask m' = pm_buckets_mask m"
      "pm_rcu m' = pm_rcu m @ [a]" "pe_heap m' = pe_heap m"
      by (simp_all add: m'_def m1_def)
    have "removed key m m'"
      using found(2) pe_wfD(2) [OF wf] found(3)
      by (intro unlink [OF wf i_def _ found(4,5) same(1,2,3)]) (auto simp: i_def same(4,5) pe_account_def)
    moreover have "pe_map_remove2 key m = Some (0, m')"
      using found(1) len by (simp add: pe_map_remove2_def i_def [symmetric] Let_def m'_def m1_def)
    moreover have "pe_abs m key = Some (pe_value e)"
      using found by (auto simp: abs_iff [OF wf])
    ultimately show ?thesis
      by (simp add: remove_result_def)
  next
    case absent
    then show ?thesis
      using absent_abs [OF wf absent(2)] len removed_absent [OF wf]
      by (simp add: pe_map_remove2_def i_def [symmetric] Let_def remove_result_def)
  qed
qed

text \<open>Freeing a queued entry is not visible in the map.\<close>

lemma free_rcu_law:
  assumes wf: "pe_wf m" and a: "a \<in> set (pm_rcu m)"
  shows "\<exists>m'. pe_entry_free_rcu a m = Some m' \<and> pe_wf m' \<and> pe_abs m' = pe_abs m \<and>
    pm_rcu m' = remove1 a (pm_rcu m) \<and> pm_buckets m' = pm_buckets m \<and> pm_buckets_num m' = pm_buckets_num m \<and>
    pm_buckets_mask m' = pm_buckets_mask m \<and> pe_heap m' = (pe_heap m)(a := None)"
proof -
  define m' where "m' = m\<lparr>pm_rcu := remove1 a (pm_rcu m), pm_objs := AList.delete a (pm_objs m)\<rparr>"
  have acc: "pe_account m" by (rule pe_wfD(2) [OF wf])
  have a_live: "a \<notin> pe_live m" "pe_heap m a \<noteq> None" "distinct (pm_rcu m)"
    using acc a by (auto simp: pe_account_def)
  have same: "pm_buckets m' = pm_buckets m" "pm_buckets_num m' = pm_buckets_num m"
    "pm_buckets_mask m' = pm_buckets_mask m" "pm_rcu m' = remove1 a (pm_rcu m)" "pe_heap m' = (pe_heap m)(a := None)"
    by (simp_all add: m'_def delete_conv')
  have live: "pe_live m' = pe_live m"
    by (simp add: pe_live_def same)
  have "pe_wf m'"
  proof (rule pe_wfI)
    fix j
    assume "j < length (pm_buckets m')"
    then have j: "j < length (pm_buckets m)" by (simp add: same)
    have "pe_heap m' x = pe_heap m x" if "x \<in> set (pb_head (pm_buckets m ! j))" for x
      using that j a_live(1) by (auto simp: same pe_live_iff)
    then show "bucket_ok (pm_buckets_mask m') (pe_heap m') j (pm_buckets m' ! j)"
      using bucket_ok_cong [OF pe_wfD(3) [OF wf j]] by (simp add: same(1,3))
  next
    show "pe_account m'"
      using acc a_live a by (auto simp: pe_account_def live same)
  qed (use pe_wfD(1) [OF wf] in \<open>simp add: pe_shape_def same\<close>)
  moreover have "pe_abs m' k = pe_abs m k" for k
    using a_live(1) by (intro option_eqI) (auto simp: abs_iff [OF wf] abs_iff [OF \<open>pe_wf m'\<close>] live same(5) split: if_splits)
  moreover have "pe_entry_free_rcu a m = Some m'"
    using a_live(2) by (simp add: pe_entry_free_rcu_def kmem_free_def m'_def)
  ultimately show ?thesis
    using same by auto
qed


section \<open>A new map\<close>

lemma new_map_num: "bits < 32 \<Longrightarrow> unat (push_bit bits (1 :: u32)) = 2 ^ bits"
  by (simp only: unsigned_push_bit_eq) (simp add: take_bit_nat_eq_self take_bit_push_bit push_bit_eq_mult)

lemma new_map_wf:
  assumes "bits < 32"
  shows "pe_wf (pe_new_map bits)" "pe_abs (pe_new_map bits) = Map.empty" "pm_rcu (pe_new_map bits) = []"
proof -
  let ?m = "pe_new_map bits"
  have sel: "pm_buckets ?m = replicate (2 ^ bits) \<lparr>pb_head = [], pb_num = 0\<rparr>" "pm_buckets_num ?m = push_bit bits 1"
    "pm_buckets_mask ?m = push_bit bits 1 - 1" "pm_objs ?m = []" "pm_rcu ?m = []"
    using new_map_num [OF assms] by (simp_all add: pe_new_map_def Let_def)
  have live: "pe_live ?m = {}"
    by (auto simp: pe_live_def sel)
  show wf: "pe_wf ?m"
    using new_map_num [OF assms] by (intro pe_wfI) (auto simp: pe_shape_def pe_account_def bucket_ok_def sel live)
  show "pe_abs ?m = Map.empty"
    using absent_abs [OF wf] by (auto simp: fun_eq_iff live)
  show "pm_rcu ?m = []" by (rule sel)
qed

section \<open>Flushing\<close>

text \<open>What one bucket's loop changes.\<close>

definition emptied :: "nat \<Rightarrow> pe_hashmap \<Rightarrow> pe_hashmap \<Rightarrow> bool" where
  "emptied i m m' \<longleftrightarrow>
    pe_wf m' \<and> pm_rcu m' = pm_rcu m \<and> length (pm_buckets m') = length (pm_buckets m) \<and>
    pm_buckets_num m' = pm_buckets_num m \<and> pb_head (pm_buckets m' ! i) = [] \<and>
    (\<forall>j. j \<noteq> i \<longrightarrow> pm_buckets m' ! j = pm_buckets m ! j)"

lemma flush_bucket1_ok:
  assumes "pe_wf m" "i < length (pm_buckets m)" "pb_head (pm_buckets m ! i) = as"
  shows "\<exists>m'. flush_bucket1 i as (c, m) = Some (c + int (length as), m') \<and> emptied i m m'"
  using assms
proof (induction as arbitrary: c m)
  case Nil
  then show ?case by (simp add: emptied_def)
next
  case (Cons a as)
  define m1 where "m1 = set_bucket i \<lparr>pb_head = remove1 a (pb_head (pm_buckets m ! i)), pb_num = pb_num (pm_buckets m ! i) - 1\<rparr> m"
  define m2 where "m2 = m1\<lparr>pm_objs := AList.delete a (pm_objs m1)\<rparr>"
  have same: "pm_buckets m2 = (pm_buckets m)[i := \<lparr>pb_head = remove1 a (pb_head (pm_buckets m ! i)), pb_num = pb_num (pm_buckets m ! i) - 1\<rparr>]"
    "pm_buckets_num m2 = pm_buckets_num m" "pm_buckets_mask m2 = pm_buckets_mask m"
    "pm_rcu m2 = pm_rcu m" "pe_heap m2 = (pe_heap m)(a := None)"
    by (simp_all add: m2_def m1_def delete_conv')
  have a: "a \<in> set (pb_head (pm_buckets m ! i))" "a \<in> pe_live m"
    using Cons.prems by (auto simp: pe_live_iff intro!: exI [of _ i])
  obtain e where e: "pe_heap m a = Some e" "i = pe_index (pm_buckets_mask m) (pe_key e)"
    using bucket_okD(3) [OF pe_wfD(3) [OF Cons.prems(1,2)] a(1)] by auto
  have "removed (pe_key e) m m2"
    using pe_wfD(2) [OF Cons.prems(1)] a(2) e(1)
    by (intro unlink [OF Cons.prems(1) e(2) a(1) e(1) refl same(1,2,3)]) (auto simp: same(4,5) pe_account_def)
  then have wf2: "pe_wf m2" by (simp add: removed_def)
  have len2: "i < length (pm_buckets m2)" and head2: "pb_head (pm_buckets m2 ! i) = as"
    using Cons.prems(2,3) by (simp_all add: same)
  obtain m' where m': "flush_bucket1 i as (c + 1, m2) = Some (c + 1 + int (length as), m')" "emptied i m2 m'"
    using Cons.IH [OF wf2 len2 head2, of "c + 1"] by blast
  have "flush_bucket1 i (a # as) (c, m) = flush_bucket1 i as (c + 1, m2)"
    using e(1) by (simp add: Let_def kmem_free_def m2_def m1_def)
  then show ?case
    using m' by (auto simp: emptied_def same)
qed

lemma flush_buckets1_ok:
  assumes "pe_wf m" "i \<le> length (pm_buckets m)" "\<forall>j < i. pb_head (pm_buckets m ! j) = []"
  shows "\<exists>c' m'. flush_buckets1 [i..<length (pm_buckets m)] (c, m) = Some (c', m') \<and> pe_wf m' \<and>
    pm_rcu m' = pm_rcu m \<and> pe_live m' = {}"
  using assms
proof (induction "length (pm_buckets m) - i" arbitrary: i c m)
  case 0
  then show ?case by (auto simp: pe_live_iff)
next
  case (Suc k)
  then have i: "i < length (pm_buckets m)" by linarith
  from flush_bucket1_ok [OF Suc.prems(1) i refl, of c] obtain m1 where m1:
    "flush_bucket1 i (pb_head (pm_buckets m ! i)) (c, m) = Some (c + int (length (pb_head (pm_buckets m ! i))), m1)"
    and emp: "emptied i m m1" by blast
  have len: "length (pm_buckets m1) = length (pm_buckets m)" and rcu: "pm_rcu m1 = pm_rcu m" and wf1: "pe_wf m1"
    using emp by (simp_all add: emptied_def)
  have heads: "\<forall>j < Suc i. pb_head (pm_buckets m1 ! j) = []"
    using emp Suc.prems(3) by (auto simp: emptied_def less_Suc_eq)
  have "k = length (pm_buckets m1) - Suc i" "Suc i \<le> length (pm_buckets m1)"
    using Suc.hyps(2) i by (simp_all add: len)
  from Suc.hyps(1) [OF this(1) wf1 this(2) heads, of "c + int (length (pb_head (pm_buckets m ! i)))"]
  obtain c' m' where "flush_buckets1 [Suc i..<length (pm_buckets m)] (c + int (length (pb_head (pm_buckets m ! i))), m1) = Some (c', m')"
    "pe_wf m'" "pm_rcu m' = pm_rcu m" "pe_live m' = {}"
    by (auto simp: len rcu)
  then show ?case
    using m1 i by (simp add: upt_conv_Cons)
qed

lemma nothing_left: "pe_wf m \<Longrightarrow> pe_live m = {} \<Longrightarrow> pm_rcu m = [] \<Longrightarrow> pm_objs m = []"
  using pe_wfD(2) [of m] by (simp add: pe_account_def)

lemma destroy1_ok:
  assumes "pe_wf m" "pm_rcu m = []"
  shows "pe_map_destroy1 m rs = Some (remove1 Map_Mem (remove1 Buckets_Mem (remove1 Entry_Cache rs)))"
proof -
  have "unat (pm_buckets_num m) = length (pm_buckets m)"
    using pe_wfD(1) [OF assms(1)] by (simp add: pe_shape_def)
  then obtain c m' where "pe_map_flush1 m = Some (c, m')" "pe_wf m'" "pm_rcu m' = []" "pe_live m' = {}"
    using flush_buckets1_ok [OF assms(1), of 0 0] assms(2) by (auto simp: pe_map_flush1_def)
  then show ?thesis
    using nothing_left [of m'] by (simp add: pe_map_destroy1_def pe_release_def)
qed

text \<open>The second module: the callbacks run, then the copied lists are freed.\<close>

lemma rcu_callbacks_ok:
  assumes "distinct as" "\<forall>a \<in> set as. pe_heap m a \<noteq> None"
  shows "\<exists>m'. rcu_callbacks as m = Some m' \<and> pm_buckets m' = pm_buckets m \<and>
    pm_rcu m' = fold remove1 as (pm_rcu m) \<and> pe_heap m' = (\<lambda>x. if x \<in> set as then None else pe_heap m x)"
  using assms
proof (induction as arbitrary: m)
  case Nil
  then show ?case by simp
next
  case (Cons a as)
  define m1 where "m1 = m\<lparr>pm_rcu := remove1 a (pm_rcu m), pm_objs := AList.delete a (pm_objs m)\<rparr>"
  have heap1: "pe_heap m1 = (pe_heap m)(a := None)" "pm_buckets m1 = pm_buckets m" "pm_rcu m1 = remove1 a (pm_rcu m)"
    by (simp_all add: m1_def delete_conv')
  have free: "pe_entry_free_rcu a m = Some m1"
    using Cons.prems(2) by (auto simp: pe_entry_free_rcu_def kmem_free_def m1_def)
  have "distinct as" "\<forall>x \<in> set as. pe_heap m1 x \<noteq> None"
    using Cons.prems by (auto simp: heap1)
  from Cons.IH [OF this] free show ?case
    by (auto simp: heap1 fun_eq_iff)
qed

lemma flush_bucket2_ok:
  assumes "distinct as" "\<forall>a \<in> set as. pe_heap m a \<noteq> None"
  shows "\<exists>m'. flush_bucket2 i as (c, m) = Some (c + int (length as), m') \<and> pm_rcu m' = pm_rcu m \<and>
    pe_heap m' = (\<lambda>x. if x \<in> set as then None else pe_heap m x)"
  using assms
proof (induction as arbitrary: c m)
  case Nil
  then show ?case by simp
next
  case (Cons a as)
  define m1 where "m1 = set_bucket i ((pm_buckets m ! i)\<lparr>pb_head := as\<rparr>) m"
  define m2 where "m2 = m1\<lparr>pm_objs := AList.delete a (pm_objs m1)\<rparr>"
  have heap2: "pe_heap m2 = (pe_heap m)(a := None)" "pm_rcu m2 = pm_rcu m"
    by (simp_all add: m2_def m1_def delete_conv')
  have free: "kmem_free a m1 = Some m2"
    using Cons.prems(2) by (auto simp: kmem_free_def m2_def m1_def)
  have "distinct as" "\<forall>x \<in> set as. pe_heap m2 x \<noteq> None"
    using Cons.prems by (auto simp: heap2)
  from Cons.IH [OF this, of "c + 1"] free show ?case
    by (auto simp: heap2 fun_eq_iff m1_def [symmetric])
qed

lemma flush_heads2_ok:
  assumes "distinct (concat hs)" "\<forall>a \<in> set (concat hs). pe_heap m a \<noteq> None"
  shows "\<exists>c' m'. flush_heads2 i hs (c, m) = Some (c', m') \<and> pm_rcu m' = pm_rcu m \<and>
    pe_heap m' = (\<lambda>x. if x \<in> set (concat hs) then None else pe_heap m x)"
  using assms
proof (induction hs arbitrary: i c m)
  case Nil
  then show ?case by simp
next
  case (Cons h hs)
  obtain m1 where m1: "flush_bucket2 i h (c, m) = Some (c + int (length h), m1)" "pm_rcu m1 = pm_rcu m"
    "pe_heap m1 = (\<lambda>x. if x \<in> set h then None else pe_heap m x)"
    using flush_bucket2_ok [of h m i c] Cons.prems by auto
  have "distinct (concat hs)" "\<forall>a \<in> set (concat hs). pe_heap m1 a \<noteq> None"
    using Cons.prems by (auto simp: m1(3))
  from Cons.IH [OF this, of "Suc i" "c + int (length h)"] m1 show ?case
    by (auto simp: fun_eq_iff)
qed

lemma heads_distinct:
  assumes wf: "pe_wf m"
  shows "distinct (concat (map pb_head (pm_buckets m)))"
proof -
  have "distinct (concat (map pb_head (take n (pm_buckets m))))" if "n \<le> length (pm_buckets m)" for n
    using that
  proof (induction n)
    case 0
    then show ?case by simp
  next
    case (Suc n)
    have n: "n < length (pm_buckets m)" using Suc.prems by simp
    have "\<forall>b \<in> set (take n (pm_buckets m)). set (pb_head b) \<inter> set (pb_head (pm_buckets m ! n)) = {}"
    proof
      fix b
      assume "b \<in> set (take n (pm_buckets m))"
      then obtain j where "j < n" "b = pm_buckets m ! j"
        using n by (auto simp: in_set_conv_nth)
      then show "set (pb_head b) \<inter> set (pb_head (pm_buckets m ! n)) = {}"
        using buckets_disjoint [OF wf _ n, of j] n by auto
    qed
    then show ?case
      using Suc.IH n bucket_okD(1) [OF pe_wfD(3) [OF wf n]] by (auto simp: take_Suc_conv_app_nth)
  qed
  from this [of "length (pm_buckets m)"] show ?thesis by simp
qed

lemma fold_remove1_self: "fold remove1 as as = []"
  by (induction as) simp_all

lemma destroy2_ok:
  assumes wf: "pe_wf m"
  shows "pe_map_destroy2 True m rs = Some (remove1 Map_Mem (remove1 Buckets_Mem (remove1 Entry_Cache rs)))"
proof -
  have len: "unat (pm_buckets_num m) = length (pm_buckets m)"
    using pe_wfD(1) [OF wf] by (simp add: pe_shape_def)
  define hs where "hs = map pb_head (pm_buckets m)"
  define m1 where "m1 = m\<lparr>pm_buckets := replicate (length (pm_buckets m)) \<lparr>pb_head = [], pb_num = 0\<rparr>\<rparr>"
  have hs: "set (concat hs) = pe_live m" "distinct (concat hs)"
    using heads_distinct [OF wf] by (auto simp: hs_def pe_live_def)
  have acc: "dom (pe_heap m) = pe_live m \<union> set (pm_rcu m)" "pe_live m \<inter> set (pm_rcu m) = {}" "distinct (pm_rcu m)"
    using pe_wfD(2) [OF wf] by (simp_all add: pe_account_def)
  have m1_sel: "pe_heap m1 = pe_heap m" "pm_rcu m1 = pm_rcu m"
    by (simp_all add: m1_def)
  have "\<forall>a \<in> set (pm_rcu m). pe_heap m1 a \<noteq> None"
    using acc(1) by (auto simp: m1_sel)
  from rcu_callbacks_ok [OF acc(3) this] obtain m2 where m2: "rcu_callbacks (pm_rcu m) m1 = Some m2"
    "pm_rcu m2 = []" "pe_heap m2 = (\<lambda>x. if x \<in> set (pm_rcu m) then None else pe_heap m x)"
    unfolding m1_sel by (auto simp: fold_remove1_self)
  have "\<forall>a \<in> set (concat hs). pe_heap m2 a \<noteq> None"
    using acc(1,2) unfolding m2(3) hs(1) by auto
  from flush_heads2_ok [OF hs(2) this, of 0 0] obtain c m3 where m3: "flush_heads2 0 hs (0, m2) = Some (c, m3)"
    "pe_heap m3 = (\<lambda>x. if x \<in> set (concat hs) then None else pe_heap m2 x)"
    by auto
  have "pe_heap m3 x = None" for x
    using acc(1) unfolding m3(2) m2(3) hs(1) by auto
  then have "pe_heap m3 = Map.empty" by (rule ext)
  then have "pm_objs m3 = []" by simp
  moreover have "pe_map_flush2 True m = Some (c, m3)"
    using m2(1) m3(1) by (simp add: pe_map_flush2_def Let_def len m1_def hs_def)
  ultimately show ?thesis
    by (simp add: pe_map_destroy2_def pe_release_def)
qed

end
