(* ===== verification/Pe_Module.thy ===== *)
theory Pe_Module
  imports Pe_Hashmap
begin

text \<open>
  The two hash map modules as their users see them, through \<^verbatim>\<open>/proc/example/hello\<close>: a sequence of reads and
  writes of the entry, with the RCU callbacks of the second module anywhere between.  The contract of a map is
  the locale \<open>kv_store\<close>; both modules are interpretations of it, so what is proved of the requests in the
  locale holds of both.
\<close>

section \<open>Requests\<close>

text \<open>
  A read has the size, the caller's buffer (\<open>None\<close>: the copy fails) and whether the copy back succeeds; a write
  has size, buffer and whether the slab allocation succeeds.  \<open>Grace a\<close> is the end of the grace period of \<open>a\<close>.
\<close>

datatype request =
    Read u64 "hello_entry_param option" bool
  | Write u64 "hello_entry_param option" bool
  | Grace addr

type_synonym reply = "int \<times> hello_entry_param option"

text \<open>The kernel runs the callback of an entry that was handed to \<^verbatim>\<open>call_rcu\<close> and of no other.\<close>

definition rcu_callback :: "addr \<Rightarrow> pe_hashmap \<Rightarrow> pe_hashmap option" where
  "rcu_callback a m = (if a \<in> set (pm_rcu m) then pe_entry_free_rcu a m else Some m)"

definition no_callback :: "addr \<Rightarrow> pe_hashmap \<Rightarrow> pe_hashmap option" where
  "no_callback a m = Some m"

text \<open>\<open>alloc m\<close> is the object the slab cache hands out next.\<close>

fun serve ::
    "(addr option \<Rightarrow> u64 \<Rightarrow> hello_entry_param option \<Rightarrow> 'm \<Rightarrow> (int \<times> 'm) option) \<Rightarrow>
     (u64 \<Rightarrow> hello_entry_param option \<Rightarrow> bool \<Rightarrow> 'm \<Rightarrow> reply option) \<Rightarrow> (addr \<Rightarrow> 'm \<Rightarrow> 'm option) \<Rightarrow>
     ('m \<Rightarrow> addr) \<Rightarrow> request list \<Rightarrow> 'm \<Rightarrow> (reply list \<times> 'm) option" where
  "serve wr rd cb alloc [] m = Some ([], m)"
| "serve wr rd cb alloc (Read nbytes user to_ok # rs) m =
    (case rd nbytes user to_ok m of
      None \<Rightarrow> None
    | Some r \<Rightarrow> map_option (\<lambda>(out, m'). (r # out, m')) (serve wr rd cb alloc rs m))"
| "serve wr rd cb alloc (Write nbytes user alloc_ok # rs) m =
    (case wr (if alloc_ok then Some (alloc m) else None) nbytes user m of
      None \<Rightarrow> None
    | Some (ret, m1) \<Rightarrow> map_option (\<lambda>(out, m'). ((ret, None) # out, m')) (serve wr rd cb alloc rs m1))"
| "serve wr rd cb alloc (Grace a # rs) m =
    (case cb a m of None \<Rightarrow> None | Some m1 \<Rightarrow> serve wr rd cb alloc rs m1)"

definition serve1 :: "(pe_hashmap \<Rightarrow> addr) \<Rightarrow> request list \<Rightarrow> pe_hashmap \<Rightarrow> (reply list \<times> pe_hashmap) option" where
  "serve1 = serve entry_write1 entry_read1 no_callback"

definition serve2 :: "(pe_hashmap \<Rightarrow> addr) \<Rightarrow> request list \<Rightarrow> pe_hashmap \<Rightarrow> (reply list \<times> pe_hashmap) option" where
  "serve2 = serve entry_write2 entry_read2 rcu_callback"

section \<open>What the entry promises\<close>

text \<open>The same requests on a map: a well-formed request acts on it, any other is refused and changes nothing.\<close>

definition spec_read :: "u64 \<Rightarrow> hello_entry_param option \<Rightarrow> bool \<Rightarrow> (i64 \<Rightarrow> i64 option) \<Rightarrow> reply" where
  "spec_read nbytes user to_ok kv =
    (case user of
      Some p \<Rightarrow>
        (case kv (hp_key p) of
          Some v \<Rightarrow>
            if nbytes = 24 \<and> hp_operation p = HELLO_ENTRY_GET \<and> to_ok then (0, Some (p\<lparr>hp_value := v\<rparr>)) else (-1, None)
        | None \<Rightarrow> (-1, None))
    | None \<Rightarrow> (-1, None))"

definition spec_write :: "u64 \<Rightarrow> hello_entry_param option \<Rightarrow> bool \<Rightarrow> (i64 \<Rightarrow> i64 option) \<Rightarrow> int \<times> (i64 \<Rightarrow> i64 option)" where
  "spec_write nbytes user alloc_ok kv =
    (case user of
      Some p \<Rightarrow>
        if nbytes = 24 \<and> hp_operation p = HELLO_ENTRY_INSERT \<and> alloc_ok then (0, kv(hp_key p \<mapsto> hp_value p))
        else if nbytes = 24 \<and> hp_operation p = HELLO_ENTRY_REMOVE \<and> kv (hp_key p) \<noteq> None then (0, kv(hp_key p := None))
        else (-1, kv)
    | None \<Rightarrow> (-1, kv))"

fun spec_serve :: "request list \<Rightarrow> (i64 \<Rightarrow> i64 option) \<Rightarrow> reply list \<times> (i64 \<Rightarrow> i64 option)" where
  "spec_serve [] kv = ([], kv)"
| "spec_serve (Read nbytes user to_ok # rs) kv =
    (let (out, kv') = spec_serve rs kv in (spec_read nbytes user to_ok kv # out, kv'))"
| "spec_serve (Write nbytes user alloc_ok # rs) kv =
    (let (ret, kv1) = spec_write nbytes user alloc_ok kv; (out, kv') = spec_serve rs kv1 in ((ret, None) # out, kv'))"
| "spec_serve (Grace a # rs) kv = spec_serve rs kv"

section \<open>The contract of a map\<close>

locale kv_store =
  fixes ins :: "addr option \<Rightarrow> i64 \<Rightarrow> i64 \<Rightarrow> 'm \<Rightarrow> (int \<times> 'm) option"
    and rem :: "i64 \<Rightarrow> 'm \<Rightarrow> (int \<times> 'm) option"
    and get :: "i64 \<Rightarrow> 'm \<Rightarrow> i64 option option"
    and cb :: "addr \<Rightarrow> 'm \<Rightarrow> 'm option"
    and inv :: "'m \<Rightarrow> bool"
    and abs :: "'m \<Rightarrow> i64 \<Rightarrow> i64 option"
    and taken :: "'m \<Rightarrow> addr set"
  assumes ins_none: "ins None k v m = Some (-1, m)"
    and ins_some: "inv m \<Longrightarrow> n \<notin> taken m \<Longrightarrow>
      \<exists>m'. ins (Some n) k v m = Some (0, m') \<and> inv m' \<and> abs m' = (abs m)(k \<mapsto> v)"
    and rem: "inv m \<Longrightarrow>
      \<exists>m'. rem k m = Some (if abs m k = None then -1 else 0, m') \<and> inv m' \<and> abs m' = (abs m)(k := None)"
    and get: "inv m \<Longrightarrow> get k m = Some (abs m k)"
    and cb: "inv m \<Longrightarrow> \<exists>m'. cb a m = Some m' \<and> inv m' \<and> abs m' = abs m"
begin

lemma read_spec: "inv m \<Longrightarrow> entry_read get nbytes user to_ok m = Some (spec_read nbytes user to_ok (abs m))"
  by (auto simp: entry_read_def spec_read_def get split: option.splits)

lemma write_spec:
  assumes inv: "inv m" and n: "n \<notin> taken m"
  shows "\<exists>m'. entry_write (ins (if ok then Some n else None)) rem nbytes user m =
      Some (fst (spec_write nbytes user ok (abs m)), m') \<and> inv m' \<and> abs m' = snd (spec_write nbytes user ok (abs m))"
proof (cases "\<exists>p. user = Some p \<and> nbytes = 24 \<and> (hp_operation p = HELLO_ENTRY_INSERT \<or> hp_operation p = HELLO_ENTRY_REMOVE)")
  case False
  then show ?thesis
    using inv by (auto simp: entry_write_def spec_write_def split: option.splits)
next
  case True
  then obtain p where p: "user = Some p" "nbytes = 24"
    and op: "hp_operation p = HELLO_ENTRY_INSERT \<or> hp_operation p = HELLO_ENTRY_REMOVE" by blast
  from op show ?thesis
  proof
    assume op: "hp_operation p = HELLO_ENTRY_INSERT"
    then have "hp_operation p \<noteq> HELLO_ENTRY_REMOVE"
      by (simp add: HELLO_ENTRY_INSERT_def HELLO_ENTRY_REMOVE_def)
    then show ?thesis
      using op p inv ins_none ins_some [OF inv n, of "hp_key p" "hp_value p"]
      by (auto simp: entry_write_def spec_write_def)
  next
    assume op: "hp_operation p = HELLO_ENTRY_REMOVE"
    then have "hp_operation p \<noteq> HELLO_ENTRY_INSERT"
      by (simp add: HELLO_ENTRY_INSERT_def HELLO_ENTRY_REMOVE_def)
    moreover obtain m' where "rem (hp_key p) m = Some (if abs m (hp_key p) = None then -1 else 0, m')" "inv m'"
      "abs m' = (abs m)(hp_key p := None)"
      using rem [OF inv] by blast
    ultimately show ?thesis
      using op p by (auto simp: entry_write_def spec_write_def fun_upd_idem)
  qed
qed

lemma serve_spec:
  assumes "inv m" "\<And>m. inv m \<Longrightarrow> alloc m \<notin> taken m"
  shows "\<exists>m'. serve (\<lambda>a. entry_write (ins a) rem) (entry_read get) cb alloc rs m =
      Some (fst (spec_serve rs (abs m)), m') \<and> inv m' \<and> abs m' = snd (spec_serve rs (abs m))"
  using assms(1)
proof (induction rs arbitrary: m)
  case Nil
  then show ?case by simp
next
  case (Cons r rs)
  show ?case
  proof (cases r)
    case (Read nbytes user to_ok)
    then show ?thesis
      using Cons.IH [OF Cons.prems] read_spec [OF Cons.prems] by (auto simp: split_beta)
  next
    case (Write nbytes user ok)
    obtain m1 where m1: "entry_write (ins (if ok then Some (alloc m) else None)) rem nbytes user m =
        Some (fst (spec_write nbytes user ok (abs m)), m1)"
      "inv m1" "abs m1 = snd (spec_write nbytes user ok (abs m))"
      using write_spec [OF Cons.prems assms(2) [OF Cons.prems], of ok nbytes user] by blast
    then show ?thesis
      using Cons.IH [OF m1(2)] by (auto simp: Write split_beta Let_def)
  next
    case (Grace a)
    then show ?thesis
      using cb [OF Cons.prems, of a] Cons.IH by (auto, metis)
  qed
qed

end

text \<open>The first module never hands an entry to RCU.\<close>

definition pe_inv1 :: "pe_hashmap \<Rightarrow> bool" where
  "pe_inv1 m \<longleftrightarrow> pe_wf m \<and> pm_rcu m = []"

definition pe_taken :: "pe_hashmap \<Rightarrow> addr set" where
  "pe_taken m = fst ` set (pm_objs m)"

lemma pe_taken_fresh: "n \<notin> pe_taken m \<Longrightarrow> pe_heap m n = None"
  by (simp add: pe_taken_def map_of_eq_None_iff)

interpretation hm1: kv_store pe_map_insert1 pe_map_remove1 pe_map_get1 no_callback pe_inv1 pe_abs pe_taken
proof (unfold_locales, unfold pe_inv1_def)
  fix m n k v
  assume m: "pe_wf m \<and> pm_rcu m = []" and n: "n \<notin> pe_taken m"
  then show "\<exists>m'. pe_map_insert1 (Some n) k v m = Some (0, m') \<and> (pe_wf m' \<and> pm_rcu m' = []) \<and> pe_abs m' = (pe_abs m)(k \<mapsto> v)"
    using insert1_law [of m n k v] pe_taken_fresh [OF n] by (auto simp: inserted_def)
next
  fix m k
  assume "pe_wf m \<and> pm_rcu m = []"
  then show "\<exists>m'. pe_map_remove1 k m = Some (if pe_abs m k = None then -1 else 0, m') \<and> (pe_wf m' \<and> pm_rcu m' = []) \<and>
      pe_abs m' = (pe_abs m)(k := None)"
    using remove1_law [of m k] by (auto simp: removed_def remove_result_def)
qed (simp_all add: pe_map_insert1_def map_get1_total no_callback_def)

interpretation hm2: kv_store pe_map_insert2 pe_map_remove2 pe_map_get2 rcu_callback pe_wf pe_abs pe_taken
proof unfold_locales
  fix m n k v
  assume m: "pe_wf m" and n: "n \<notin> pe_taken m"
  then show "\<exists>m'. pe_map_insert2 (Some n) k v m = Some (0, m') \<and> pe_wf m' \<and> pe_abs m' = (pe_abs m)(k \<mapsto> v)"
    using insert2_law [of m n k v] pe_taken_fresh [OF n] by (auto simp: inserted_def)
next
  fix m k
  assume "pe_wf m"
  then show "\<exists>m'. pe_map_remove2 k m = Some (if pe_abs m k = None then -1 else 0, m') \<and> pe_wf m' \<and>
      pe_abs m' = (pe_abs m)(k := None)"
    using remove2_law [of m k] by (auto simp: removed_def remove_result_def)
next
  fix m a
  assume "pe_wf m"
  then show "\<exists>m'. rcu_callback a m = Some m' \<and> pe_wf m' \<and> pe_abs m' = pe_abs m"
    using free_rcu_law [of m a] by (auto simp: rcu_callback_def)
qed (simp_all add: pe_map_insert2_def map_get2_total)


section \<open>Both modules\<close>

text \<open>An allocator hands out objects that are not in use; \<open>next_addr\<close> is one.\<close>

definition fresh_addr :: "(pe_hashmap \<Rightarrow> addr) \<Rightarrow> bool" where
  "fresh_addr alloc \<longleftrightarrow> (\<forall>m. alloc m \<notin> pe_taken m)"

definition next_addr :: "pe_hashmap \<Rightarrow> addr" where
  "next_addr m = Suc (fold max (map fst (pm_objs m)) 0)"

lemma fold_max_bound:
  fixes x :: nat
  shows "x \<in> set xs \<or> x \<le> y \<Longrightarrow> x \<le> fold max xs y"
proof (induction xs arbitrary: y)
  case (Cons z zs)
  have "x \<in> set zs \<or> x \<le> max z y"
    using Cons.prems by (auto simp: le_max_iff_disj)
  then show ?case
    using Cons.IH by simp
qed simp

lemma next_addr_fresh: "fresh_addr next_addr"
proof -
  have "next_addr m \<notin> pe_taken m" for m
  proof
    assume "next_addr m \<in> pe_taken m"
    then have "next_addr m \<in> set (map fst (pm_objs m))"
      by (simp add: pe_taken_def)
    then have "next_addr m \<le> fold max (map fst (pm_objs m)) 0"
      by (intro fold_max_bound) simp
    then show False
      by (simp add: next_addr_def)
  qed
  then show ?thesis
    by (simp add: fresh_addr_def)
qed

lemma create_map:
  assumes "pe_map_create ok bits rs = (Some m, rs')" "bits < 32"
  shows "pe_wf m" "pe_inv1 m" "pe_abs m = Map.empty"
  using assms new_map_wf [OF assms(2)]
  by (auto simp: pe_map_create_def Let_def pe_inv1_def split: if_splits)

lemma serve1_spec:
  assumes "pe_inv1 m" "fresh_addr alloc"
  shows "\<exists>m'. serve1 alloc rs m = Some (fst (spec_serve rs (pe_abs m)), m') \<and> pe_inv1 m' \<and>
    pe_abs m' = snd (spec_serve rs (pe_abs m))"
proof -
  have "serve1 = serve (\<lambda>a. entry_write (pe_map_insert1 a) pe_map_remove1) (entry_read pe_map_get1) no_callback"
    by (simp add: serve1_def entry_write1_def [abs_def] entry_read1_def)
  then show ?thesis
    using hm1.serve_spec [OF assms(1), of alloc rs] assms(2) by (simp add: fresh_addr_def)
qed

lemma serve2_spec:
  assumes "pe_wf m" "fresh_addr alloc"
  shows "\<exists>m'. serve2 alloc rs m = Some (fst (spec_serve rs (pe_abs m)), m') \<and> pe_wf m' \<and>
    pe_abs m' = snd (spec_serve rs (pe_abs m))"
proof -
  have "serve2 = serve (\<lambda>a. entry_write (pe_map_insert2 a) pe_map_remove2) (entry_read pe_map_get2) rcu_callback"
    by (simp add: serve2_def entry_write2_def [abs_def] entry_read2_def)
  then show ?thesis
    using hm2.serve_spec [OF assms(1), of alloc rs] assms(2) by (simp add: fresh_addr_def)
qed

lemma spec_serve_user: "spec_serve (filter (\<lambda>r. \<forall>a. r \<noteq> Grace a) rs) kv = spec_serve rs kv"
proof (induction rs arbitrary: kv)
  case (Cons r rs)
  then show ?case by (cases r) simp_all
qed simp

section \<open>Properties\<close>

lemma demo_create:
  "pe_map_create (\<lambda>_. True) 2 [] = (Some (pe_new_map 2), [Entry_Cache, Buckets_Mem, Map_Mem])"
  by (simp add: pe_map_create_def Let_def)

text \<open>C17: Both hash map modules are maps.  On a map that \<^verbatim>\<open>pe_map_create\<close> made, any sequence of reads and writes
  of the proc entry, with any allocations failing and RCU callbacks at any point, never touches or frees an
  entry that is not allocated; every answer is the one a map gives (\<open>spec_serve\<close>), a refused request
  changing nothing, and the buckets then hold exactly the bindings of that map.
\<close>
theorem hashmap_refines_map:
  assumes "pe_map_create ok bits rs0 = (Some m, rs1)" "bits < 32" "fresh_addr alloc"
  shows "\<exists>m1 m2. serve1 alloc rs m = Some (fst (spec_serve rs Map.empty), m1) \<and> pe_abs m1 = snd (spec_serve rs Map.empty) \<and>
    serve2 alloc rs m = Some (fst (spec_serve rs Map.empty), m2) \<and> pe_abs m2 = snd (spec_serve rs Map.empty)"
  using serve1_spec [OF create_map(2) [OF assms(1,2)] assms(3), of rs]
    serve2_spec [OF create_map(1) [OF assms(1,2)] assms(3), of rs]
  unfolding create_map(3) [OF assms(1,2)] by blast

definition param :: "i64 \<Rightarrow> i64 \<Rightarrow> i64 \<Rightarrow> hello_entry_param option" where
  "param op k v = Some \<lparr>hp_operation = op, hp_key = k, hp_value = v\<rparr>"

theorem hashmap_refines_map_witness:
  "\<exists>m1 m2. serve1 next_addr [Write 24 (param 1 5 7) True, Write 24 (param 1 5 8) True, Read 24 (param 0 5 0) True] (pe_new_map 2) =
      Some ([(0, None), (0, None), (0, param 0 5 8)], m1) \<and>
    serve2 next_addr [Write 24 (param 1 5 7) True, Write 24 (param 1 5 8) True, Read 24 (param 0 5 0) True] (pe_new_map 2) =
      Some ([(0, None), (0, None), (0, param 0 5 8)], m2)"
proof -
  have "fst (spec_serve [Write 24 (param 1 5 7) True, Write 24 (param 1 5 8) True, Read 24 (param 0 5 0) True] Map.empty) =
      [(0, None), (0, None), (0, param 0 5 8)]"
    by (simp add: spec_write_def spec_read_def param_def HELLO_ENTRY_GET_def HELLO_ENTRY_INSERT_def HELLO_ENTRY_REMOVE_def)
  moreover have "pe_map_create (\<lambda>_. True) 2 [] = (Some (pe_new_map 2), [Entry_Cache, Buckets_Mem, Map_Mem])"
    by (rule demo_create)
  ultimately show ?thesis
    using hashmap_refines_map [of "\<lambda>_. True" 2 "[]" "pe_new_map 2" _ next_addr
        "[Write 24 (param 1 5 7) True, Write 24 (param 1 5 8) True, Read 24 (param 0 5 0) True]"] next_addr_fresh
    by auto
qed



text \<open>C19: The two modules are equivalent to a user.  Updating in place and freeing at once (the first module) or
  replacing entries and freeing them after a grace period (the second) gives the same answers to any
  sequence of requests and the same bindings, whatever objects the two allocators hand out and whenever the
  callbacks of the second module run.
\<close>
theorem hashmaps_equivalent:
  assumes "pe_map_create ok bits rs0 = (Some m, rs1)" "bits < 32" "fresh_addr alloc1" "fresh_addr alloc2"
  shows "\<exists>out m1 m2. serve1 alloc1 (filter (\<lambda>r. \<forall>a. r \<noteq> Grace a) rs) m = Some (out, m1) \<and>
    serve2 alloc2 rs m = Some (out, m2) \<and> pe_abs m1 = pe_abs m2"
  using serve1_spec [OF create_map(2) [OF assms(1,2)] assms(3), of "filter (\<lambda>r. \<forall>a. r \<noteq> Grace a) rs"]
    serve2_spec [OF create_map(1) [OF assms(1,2)] assms(4), of rs]
  unfolding spec_serve_user create_map(3) [OF assms(1,2)] by metis

theorem hashmaps_equivalent_witness:
  "\<exists>out m1 m2. serve1 next_addr [Write 24 (param 1 5 7) True, Write 24 (param 1 5 8) True, Read 24 (param 0 5 0) True] (pe_new_map 2) =
      Some (out, m1) \<and>
    serve2 next_addr [Write 24 (param 1 5 7) True, Write 24 (param 1 5 8) True, Grace 1, Read 24 (param 0 5 0) True] (pe_new_map 2) =
      Some (out, m2) \<and> pe_abs m1 = pe_abs m2"
  using hashmaps_equivalent [OF demo_create _ next_addr_fresh next_addr_fresh,
      of "[Write 24 (param 1 5 7) True, Write 24 (param 1 5 8) True, Grace 1, Read 24 (param 0 5 0) True]"]
  by simp

text \<open>C20: Loading and unloading leave nothing behind.  Whichever of its five acquisitions fails, the init function
  of a module returns -1 and has released all it had; if none fails it returns 0, holding the five, and after
  any requests the exit function finds every entry freed when it destroys the cache, and releases the five
  (for the second module when the \<^verbatim>\<open>vmalloc\<close> of its flush succeeds, see \<open>flush_needs_memory\<close>).
\<close>
theorem hashmap_modules_clean:
  assumes "fresh_addr alloc"
  shows "(\<exists>ret md. proc_entry_hashmap1_init ok = Some (ret, md) \<and> ret = (if \<forall>r. ok r then 0 else -1) \<and>
      (if \<forall>r. ok r then \<exists>m out m'. md_map md = Some m \<and> distinct (md_res md) \<and> set (md_res md) = {r. ok r} \<and>
        serve1 alloc rs m = Some (out, m') \<and> proc_entry_hashmap1_exit m' (md_res md) = Some []
      else md_res md = [] \<and> md_map md = None)) \<and>
    (\<exists>ret md. proc_entry_hashmap2_init True ok = Some (ret, md) \<and> ret = (if \<forall>r. ok r then 0 else -1) \<and>
      (if \<forall>r. ok r then \<exists>m out m'. md_map md = Some m \<and> distinct (md_res md) \<and> set (md_res md) = {r. ok r} \<and>
        serve2 alloc rs m = Some (out, m') \<and> proc_entry_hashmap2_exit True m' (md_res md) = Some []
      else md_res md = [] \<and> md_map md = None))"
proof -
  have all: "(\<forall>r. ok r) \<longleftrightarrow> ok Example_Dir \<and> ok Map_Mem \<and> ok Buckets_Mem \<and> ok Entry_Cache \<and> ok Hello_Entry"
    by (metis resource.exhaust)
  have wf: "pe_wf (pe_new_map 16)" "pm_rcu (pe_new_map 16) = []" "pe_inv1 (pe_new_map 16)"
    using new_map_wf [of 16] by (simp_all add: pe_inv1_def)
  obtain out1 m1 where 1: "serve1 alloc rs (pe_new_map 16) = Some (out1, m1)" "pe_wf m1" "pm_rcu m1 = []"
    using serve1_spec [OF wf(3) assms, of rs] by (auto simp: pe_inv1_def)
  obtain out2 m2 where 2: "serve2 alloc rs (pe_new_map 16) = Some (out2, m2)" "pe_wf m2"
    using serve2_spec [OF wf(1) assms, of rs] by auto
  have five: "{Hello_Entry, Entry_Cache, Buckets_Mem, Map_Mem, Example_Dir} = (UNIV :: resource set)"
    by (auto intro: resource.exhaust)
  show ?thesis
    using 1 2 destroy1_ok [OF wf(1,2)] destroy2_ok [OF wf(1)] destroy1_ok [OF 1(2,3)] destroy2_ok [OF 2(2)]
    by (auto simp: all proc_entry_hashmap1_init_def proc_entry_hashmap2_init_def proc_entry_hashmap1_exit_def
        proc_entry_hashmap2_exit_def hashmap_init_def hashmap_exit_def pe_map_create_def Let_def five [symmetric])
      (metis resource.exhaust)+
qed

text \<open>The unchecked \<^verbatim>\<open>vmalloc\<close> of \<^verbatim>\<open>pe_map_flush\<close>: when it fails, unloading the second module faults.\<close>

lemma flush_needs_memory:
  assumes "pe_wf m"
  shows "proc_entry_hashmap2_exit False m rs = None"
  using pe_wfD(1) [OF assms]
  by (simp add: proc_entry_hashmap2_exit_def hashmap_exit_def pe_map_destroy2_def pe_map_flush2_def pe_shape_def Let_def)

theorem hashmap_modules_clean_witness:
  "\<exists>ret md m out m'. proc_entry_hashmap2_init True (\<lambda>_. True) = Some (ret, md) \<and> ret = 0 \<and> md_map md = Some m \<and>
    serve2 next_addr [Write 24 (param 1 5 7) True, Write 24 (param 1 5 8) True] m = Some (out, m') \<and>
    proc_entry_hashmap2_exit True m' (md_res md) = Some []"
  using hashmap_modules_clean [OF next_addr_fresh, of "\<lambda>_. True" "[Write 24 (param 1 5 7) True, Write 24 (param 1 5 8) True]"]
  by auto

end
