(* ===== verification/Pe_Rcu.thy ===== *)
theory Pe_Rcu
  imports Pe_Module
begin

text \<open>
  The lookup of \<^verbatim>\<open>proc_entry_hashmap2\<close>, \<^verbatim>\<open>pe_map_get\<close>, takes no lock: readers walk a bucket while writers
  insert, replace and remove entries of it.  Here the walk is split at its loads, and any number of readers
  is interleaved with the writers.  An insertion or removal is one step: it holds the bucket's lock, and
  what a reader can see of it is the store of one pointer.

  An unlinked entry keeps its forward pointer (\<^verbatim>\<open>hlist_del_rcu\<close> and \<^verbatim>\<open>hlist_replace_rcu\<close> leave it for the
  readers that are on the entry), and its callback runs when every reader that was between \<^verbatim>\<open>rcu_read_lock\<close>
  and \<^verbatim>\<open>rcu_read_unlock\<close> at the time of \<^verbatim>\<open>call_rcu\<close> has left: the documented contract of RCU.
\<close>

section \<open>Readers and writers\<close>

text \<open>Where a reader is: at \<^verbatim>\<open>head->first\<close>, on an entry, past the end, or at \<^verbatim>\<open>break\<close> with a value.\<close>

datatype cursor = At_Head | At addr | At_End | Found i64

text \<open>\<open>rd_seen\<close> records what the map held for the key since \<^verbatim>\<open>rcu_read_lock\<close>, the last first.\<close>

record reader =
  rd_key :: i64
  rd_at :: cursor
  rd_seen :: "i64 option list"

text \<open>
  \<open>rs_next\<close>: the forward pointers of unlinked entries; \<open>rs_wait\<close>: the readers the grace period of an entry
  waits for; \<open>rs_readers\<close>: one place per processor, \<open>None\<close> outside of a lookup; \<open>rs_log\<close>: the lookups that
  returned, with their key, answer and \<open>rd_seen\<close>.
\<close>

record rcu_state =
  rs_map :: pe_hashmap
  rs_next :: "addr \<Rightarrow> addr option"
  rs_wait :: "addr \<Rightarrow> nat list"
  rs_readers :: "reader option list"
  rs_log :: "(i64 \<times> i64 option \<times> i64 option list) list"

fun list_next :: "addr \<Rightarrow> addr list \<Rightarrow> addr option" where
  "list_next a [] = None"
| "list_next a [x] = None"
| "list_next a (x # y # zs) = (if x = a then Some y else list_next a (y # zs))"

text \<open>The list of the bucket of an entry, and the forward pointer of an entry, linked or not.\<close>

definition home :: "pe_hashmap \<Rightarrow> addr \<Rightarrow> addr list" where
  "home m a =
    (case pe_heap m a of
      None \<Rightarrow> []
    | Some e \<Rightarrow> pb_head (pm_buckets m ! pe_index (pm_buckets_mask m) (pe_key e)))"

definition entry_next :: "rcu_state \<Rightarrow> addr \<Rightarrow> addr option" where
  "entry_next st a =
    (let xs = home (rs_map st) a in if a \<in> set xs then list_next a xs else rs_next st a)"

text \<open>One load of the loop of \<^verbatim>\<open>pe_map_get\<close>; \<open>None\<close> is an access to a freed entry.\<close>

definition rcu_get_step :: "rcu_state \<Rightarrow> reader \<Rightarrow> reader option" where
  "rcu_get_step st r =
    (let m = rs_map st
     in (case rd_at r of
       At_Head \<Rightarrow>
         Some (r\<lparr>rd_at := (case pb_head (pm_buckets m ! pe_index (pm_buckets_mask m) (rd_key r)) of
           [] \<Rightarrow> At_End | a # as \<Rightarrow> At a)\<rparr>)
     | At a \<Rightarrow>
         (case pe_heap m a of
           None \<Rightarrow> None
         | Some e \<Rightarrow>
             Some (r\<lparr>rd_at :=
               if pe_key e = rd_key r then Found (pe_value e)
               else (case entry_next st a of None \<Rightarrow> At_End | Some b \<Rightarrow> At b)\<rparr>))
     | _ \<Rightarrow> Some r))"

text \<open>The answer when the loop is over: \<open>None\<close> is a result of -1.\<close>

fun get_answer :: "cursor \<Rightarrow> i64 option option" where
  "get_answer At_End = Some None"
| "get_answer (Found v) = Some (Some v)"
| "get_answer _ = None"

definition active :: "rcu_state \<Rightarrow> nat list" where
  "active st = filter (\<lambda>i. rs_readers st ! i \<noteq> None) [0..<length (rs_readers st)]"

text \<open>
  A write that took the map to \<open>m'\<close>: what it handed to \<^verbatim>\<open>call_rcu\<close> keeps its forward pointer and waits for
  the readers that are now active.
\<close>

definition rcu_write :: "pe_hashmap \<Rightarrow> rcu_state \<Rightarrow> rcu_state" where
  "rcu_write m' st =
    (let olds = drop (length (pm_rcu (rs_map st))) (pm_rcu m')
     in st\<lparr>rs_map := m',
        rs_next := (\<lambda>a. if a \<in> set olds then entry_next st a else rs_next st a),
        rs_wait := (\<lambda>a. if a \<in> set olds then active st else rs_wait st a),
        rs_readers := map (map_option (\<lambda>r. r\<lparr>rd_seen := pe_abs m' (rd_key r) # rd_seen r\<rparr>)) (rs_readers st)\<rparr>)"

datatype rcu_action =
    Insert "addr option" i64 i64
  | Remove i64
  | Lock nat i64
  | Walk nat
  | Unlock nat
  | Free addr

datatype rcu_effect = Fault | Disabled | To rcu_state

definition written :: "(int \<times> pe_hashmap) option \<Rightarrow> rcu_state \<Rightarrow> rcu_effect" where
  "written r st = (case r of None \<Rightarrow> Fault | Some (ret, m') \<Rightarrow> To (rcu_write m' st))"

definition reader_at :: "rcu_state \<Rightarrow> nat \<Rightarrow> reader option" where
  "reader_at st i = (if i < length (rs_readers st) then rs_readers st ! i else None)"

fun rcu_do :: "rcu_action \<Rightarrow> rcu_state \<Rightarrow> rcu_effect" where
  "rcu_do (Insert alloc k v) st =
    (if case alloc of None \<Rightarrow> False | Some n \<Rightarrow> pe_heap (rs_map st) n \<noteq> None then Disabled
     else written (pe_map_insert2 alloc k v (rs_map st)) st)"
| "rcu_do (Remove k) st = written (pe_map_remove2 k (rs_map st)) st"
| "rcu_do (Lock i k) st =
    (if i < length (rs_readers st) \<and> rs_readers st ! i = None
     then To (st\<lparr>rs_readers := (rs_readers st)[i := Some \<lparr>rd_key = k, rd_at = At_Head, rd_seen = [pe_abs (rs_map st) k]\<rparr>]\<rparr>)
     else Disabled)"
| "rcu_do (Walk i) st =
    (case reader_at st i of
      None \<Rightarrow> Disabled
    | Some r \<Rightarrow>
        (case rcu_get_step st r of
          None \<Rightarrow> Fault
        | Some r' \<Rightarrow> To (st\<lparr>rs_readers := (rs_readers st)[i := Some r']\<rparr>)))"
| "rcu_do (Unlock i) st =
    (case reader_at st i of
      None \<Rightarrow> Disabled
    | Some r \<Rightarrow>
        (case get_answer (rd_at r) of
          None \<Rightarrow> Disabled
        | Some ans \<Rightarrow>
            To (st\<lparr>rs_readers := (rs_readers st)[i := None], rs_wait := (\<lambda>a. removeAll i (rs_wait st a)),
              rs_log := (rd_key r, ans, rd_seen r) # rs_log st\<rparr>)))"
| "rcu_do (Free a) st =
    (if a \<in> set (pm_rcu (rs_map st)) \<and> rs_wait st a = []
     then (case pe_entry_free_rcu a (rs_map st) of None \<Rightarrow> Fault | Some m' \<Rightarrow> To (st\<lparr>rs_map := m'\<rparr>))
     else Disabled)"

fun rcu_run :: "rcu_action list \<Rightarrow> rcu_state \<Rightarrow> rcu_effect" where
  "rcu_run [] st = To st"
| "rcu_run (act # acts) st =
    (case rcu_do act st of Fault \<Rightarrow> Fault | Disabled \<Rightarrow> rcu_run acts st | To st' \<Rightarrow> rcu_run acts st')"

definition rcu_start :: "pe_hashmap \<Rightarrow> nat \<Rightarrow> rcu_state" where
  "rcu_start m n = \<lparr>rs_map = m, rs_next = (\<lambda>_. None), rs_wait = (\<lambda>_. []), rs_readers = replicate n None, rs_log = []\<rparr>"

section \<open>Forward pointers\<close>

lemma list_next_in: "list_next a xs = Some b \<Longrightarrow> a \<in> set xs \<and> b \<in> set xs"
  by (induction a xs rule: list_next.induct) (auto split: if_splits)

lemma list_next_neq: "distinct xs \<Longrightarrow> list_next a xs = Some b \<Longrightarrow> b \<noteq> a"
  by (induction a xs rule: list_next.induct) (auto split: if_splits dest: list_next_in)

lemma list_next_Cons: "a \<noteq> n \<Longrightarrow> list_next a (n # xs) = list_next a xs"
  by (cases xs) auto

lemma list_next_remove1:
  "distinct xs \<Longrightarrow> a \<noteq> x \<Longrightarrow>
    list_next a (remove1 x xs) = (if list_next a xs = Some x then list_next x xs else list_next a xs)"
proof (induction a xs rule: list_next.induct)
  case (3 a u v zs)
  show ?case
  proof (cases "u = x")
    case True
    then have "x \<notin> set (v # zs)" using "3.prems"(1) by simp
    then have "list_next a (v # zs) \<noteq> Some x" using list_next_in by blast
    then show ?thesis using True "3.prems"(2) by simp
  next
    case False
    show ?thesis
    proof (cases "u = a")
      case True
      then show ?thesis using False by (cases zs) auto
    next
      case neq: False
      have "list_next a (u # remove1 x (v # zs)) = list_next a (remove1 x (v # zs))"
        using neq by (intro list_next_Cons) simp
      then show ?thesis
        using "3.IH" [OF neq] "3.prems" False neq by simp
    qed
  qed
qed auto

lemma list_next_map: "inj_on f (insert a (set xs)) \<Longrightarrow> list_next (f a) (map f xs) = map_option f (list_next a xs)"
  by (induction a xs rule: list_next.induct) (auto simp: inj_on_def)

lemma replace_inj: "n \<notin> set xs \<Longrightarrow> inj_on (\<lambda>a. if a = x then n else a) (set xs)"
  by (auto simp: inj_on_def)

lemma list_next_replace_other:
  assumes "n \<notin> set xs" "a \<in> set xs" "a \<noteq> x"
  shows "list_next a (hlist_replace x n xs) = (if list_next a xs = Some x then Some n else list_next a xs)"
  using list_next_map [of "\<lambda>a. if a = x then n else a" a xs] replace_inj [OF assms(1), of x] assms(2,3)
  by (cases "list_next a xs") (auto simp: hlist_replace_def insert_absorb)

lemma list_next_replace_new:
  assumes "distinct xs" "n \<notin> set xs" "x \<in> set xs"
  shows "list_next n (hlist_replace x n xs) = list_next x xs"
  using list_next_map [of "\<lambda>a. if a = x then n else a" x xs] replace_inj [OF assms(2), of x] assms(3)
    list_next_neq [OF assms(1), of x]
  by (cases "list_next x xs") (auto simp: hlist_replace_def insert_absorb)

section \<open>What a write changes\<close>

lemma home_live:
  assumes "pe_wf m" "a \<in> pe_live m"
  shows "a \<in> set (home m a)"
  using assms by (rule live_bucket) (simp add: home_def)

lemma home_bucket:
  assumes "pe_wf m" "pe_heap m a \<noteq> None"
  obtains i where "i < length (pm_buckets m)" "home m a = pb_head (pm_buckets m ! i)"
proof -
  obtain e where e: "pe_heap m a = Some e" using assms(2) by blast
  show thesis
    using that [OF pe_index_inside [OF pe_wfD(1) [OF assms(1)]]] by (simp add: home_def e)
qed

lemma home_distinct: "pe_wf m \<Longrightarrow> distinct (home m a)"
  using pe_index_inside [OF pe_wfD(1), of m] bucket_okD(1) [OF pe_wfD(3), of m]
  by (auto simp: home_def split: option.splits)

lemma home_subset:
  assumes "pe_wf m"
  shows "set (home m a) \<subseteq> pe_live m"
proof (cases "pe_heap m a")
  case None
  then show ?thesis by (simp add: home_def)
next
  case (Some e)
  obtain i where "i < length (pm_buckets m)" "home m a = pb_head (pm_buckets m ! i)"
    using home_bucket [OF assms, of a] Some by blast
  then show ?thesis by (auto simp: pe_live_iff)
qed

text \<open>The list of an entry after one bucket changed.\<close>

lemma home_set_bucket:
  assumes "pe_wf m" "i < length (pm_buckets m)" "pm_buckets m' = (pm_buckets m)[i := b]"
    and "pm_buckets_mask m' = pm_buckets_mask m" "pe_heap m a \<noteq> None" "pe_heap m' a = pe_heap m a"
  shows "home m' a = (if pe_index (pm_buckets_mask m) (pe_key (the (pe_heap m a))) = i then pb_head b else home m a)"
  using assms by (auto simp: home_def)

lemma other_home:
  assumes wf: "pe_wf m" and i: "i < length (pm_buckets m)" and x: "x \<in> set (pb_head (pm_buckets m ! i))"
    and a: "pe_heap m a \<noteq> None" "pe_index (pm_buckets_mask m) (pe_key (the (pe_heap m a))) \<noteq> i"
  shows "x \<notin> set (home m a)"
proof -
  obtain e where e: "pe_heap m a = Some e" using a(1) by blast
  have "pe_index (pm_buckets_mask m) (pe_key e) < length (pm_buckets m)"
    by (rule pe_index_inside [OF pe_wfD(1) [OF wf]])
  then show ?thesis
    using buckets_disjoint [OF wf i _ _ x] a(2) e by (auto simp: home_def)
qed

lemma hlist_replace_absent: "x \<notin> set xs \<Longrightarrow> hlist_replace x n xs = xs"
  by (induction xs) (auto simp: hlist_replace_def)

lemma insert2_cases:
  assumes wf: "pe_wf m" and fresh: "pe_heap m n = None"
    and ins: "pe_map_insert2 (Some n) key value m = Some (ret, m')"
  obtains
    (added) "pm_rcu m' = pm_rcu m" "pe_live m' = insert n (pe_live m)"
      "pe_heap m' = (pe_heap m)(n \<mapsto> \<lparr>pe_key = key, pe_value = value\<rparr>)"
      "\<And>a. pe_heap m a \<noteq> None \<Longrightarrow> home m' a = home m a \<or> home m' a = n # home m a"
  | (replaced) x e where "x \<in> pe_live m" "pe_heap m x = Some e" "pe_key e = key" "pm_rcu m' = pm_rcu m @ [x]"
      "pe_live m' = insert n (pe_live m - {x})" "pe_heap m' = (pe_heap m)(n \<mapsto> \<lparr>pe_key = key, pe_value = value\<rparr>)"
      "\<And>a. pe_heap m a \<noteq> None \<Longrightarrow> home m' a = hlist_replace x n (home m a)"
      "home m' n = hlist_replace x n (home m x)"
proof -
  define i where "i = pe_index (pm_buckets_mask m) key"
  define b where "b = pm_buckets m ! i"
  define new where "new = \<lparr>pe_key = key, pe_value = value\<rparr>"
  have len: "i < length (pm_buckets m)"
    using pe_index_inside [OF pe_wfD(1) [OF wf]] by (simp add: i_def)
  have n: "n \<notin> pe_live m"
    using pe_wfD(2) [OF wf] fresh by (auto simp: pe_account_def)
  have b_live: "set (pb_head b) \<subseteq> pe_live m"
    using len by (auto simp: b_def pe_live_iff)
  have find: "pe_find (pm_objs (kmem_alloc n e m)) key (pb_head b) = pe_find (pm_objs m) key (pb_head b)" for e
    using n b_live by (intro pe_find_cong) auto
  from wf show thesis
  proof (cases rule: walk_cases [where key = key])
    case (found x e)
    define b' where "b' = b\<lparr>pb_head := hlist_replace x n (pb_head b)\<rparr>"
    have m': "m' = (set_bucket i b' (kmem_alloc n new m))\<lparr>pm_rcu := pm_rcu m @ [x]\<rparr>"
      using ins found(1) len find
      by (simp add: pe_map_insert2_def i_def [symmetric] b_def [symmetric] Let_def b'_def new_def)
    have same: "pm_buckets m' = (pm_buckets m)[i := b']" "pm_buckets_mask m' = pm_buckets_mask m"
      "pm_rcu m' = pm_rcu m @ [x]" "pe_heap m' = (pe_heap m)(n \<mapsto> new)"
      by (simp_all add: m')
    have x_b: "x \<in> set (pb_head b)" using found(2) by (simp add: b_def i_def)
    have live: "pe_live m' = insert n (pe_live m - {x})"
      using live_set_bucket [OF wf len same(1)] b_live n x_b by (auto simp: b_def b'_def set_hlist_replace)
    have home_x: "home m x = pb_head b"
      using found(4,5) by (simp add: home_def b_def i_def)
    have homes: "home m' a = hlist_replace x n (home m a)" if a: "pe_heap m a \<noteq> None" for a
    proof (cases "pe_index (pm_buckets_mask m) (pe_key (the (pe_heap m a))) = i")
      case True
      then have "home m a = pb_head b" using a by (auto simp: home_def b_def)
      moreover have "a \<noteq> n" using a fresh by blast
      ultimately show ?thesis
        using home_set_bucket [OF wf len same(1,2) a] True by (simp add: same(4) b'_def)
    next
      case False
      moreover have "a \<noteq> n" using a fresh by blast
      ultimately show ?thesis
        using home_set_bucket [OF wf len same(1,2) a] other_home [OF wf len _ a False] x_b
        by (simp add: same(4) b_def hlist_replace_absent)
    qed
    have "home m' n = hlist_replace x n (home m x)"
      using len by (simp add: home_x home_def [of m'] same new_def i_def [symmetric] b'_def)
    then show thesis
      using replaced [OF found(3,4,5) same(3) live] same(4) homes by (simp add: new_def)
  next
    case absent
    define b' where "b' = \<lparr>pb_head = n # pb_head b, pb_num = pb_num b + 1\<rparr>"
    have m': "m' = set_bucket i b' (kmem_alloc n new m)"
      using ins absent(1) len find
      by (simp add: pe_map_insert2_def i_def [symmetric] b_def [symmetric] Let_def b'_def new_def)
    have same: "pm_buckets m' = (pm_buckets m)[i := b']" "pm_buckets_mask m' = pm_buckets_mask m"
      "pm_rcu m' = pm_rcu m" "pe_heap m' = (pe_heap m)(n \<mapsto> new)"
      by (simp_all add: m')
    have live: "pe_live m' = insert n (pe_live m)"
      using live_set_bucket [OF wf len same(1)] b_live by (auto simp: b_def b'_def)
    have "home m' a = home m a \<or> home m' a = n # home m a" if a: "pe_heap m a \<noteq> None" for a
    proof (cases "pe_index (pm_buckets_mask m) (pe_key (the (pe_heap m a))) = i")
      case True
      then have "home m a = pb_head b" using a by (auto simp: home_def b_def)
      moreover have "a \<noteq> n" using a fresh by blast
      ultimately show ?thesis
        using home_set_bucket [OF wf len same(1,2) a] True by (simp add: same(4) b'_def)
    next
      case False
      moreover have "a \<noteq> n" using a fresh by blast
      ultimately show ?thesis
        using home_set_bucket [OF wf len same(1,2) a] by (simp add: same(4))
    qed
    then show thesis
      using added same(3,4) live by (simp add: new_def)
  qed
qed

lemma remove2_cases:
  assumes wf: "pe_wf m" and rem: "pe_map_remove2 key m = Some (ret, m')"
  obtains
    (missing) "m' = m"
  | (unlinked) x e where "x \<in> pe_live m" "pe_heap m x = Some e" "pe_key e = key" "pm_rcu m' = pm_rcu m @ [x]"
      "pe_live m' = pe_live m - {x}" "pe_heap m' = pe_heap m"
      "\<And>a. pe_heap m a \<noteq> None \<Longrightarrow> home m' a = remove1 x (home m a)"
proof -
  define i where "i = pe_index (pm_buckets_mask m) key"
  define b where "b = pm_buckets m ! i"
  have len: "i < length (pm_buckets m)"
    using pe_index_inside [OF pe_wfD(1) [OF wf]] by (simp add: i_def)
  have b_live: "set (pb_head b) \<subseteq> pe_live m"
    using len by (auto simp: b_def pe_live_iff)
  from wf show thesis
  proof (cases rule: walk_cases [where key = key])
    case (found x e)
    define b' where "b' = \<lparr>pb_head = remove1 x (pb_head b), pb_num = pb_num b - 1\<rparr>"
    have m': "m' = (set_bucket i b' m)\<lparr>pm_rcu := pm_rcu m @ [x]\<rparr>"
      using rem found(1) len
      by (simp add: pe_map_remove2_def i_def [symmetric] b_def [symmetric] Let_def b'_def)
    have same: "pm_buckets m' = (pm_buckets m)[i := b']" "pm_buckets_mask m' = pm_buckets_mask m"
      "pm_rcu m' = pm_rcu m @ [x]" "pe_heap m' = pe_heap m"
      by (simp_all add: m')
    have x_b: "x \<in> set (pb_head b)" using found(2) by (simp add: b_def i_def)
    have "distinct (pb_head b)"
      using bucket_okD(1) [OF pe_wfD(3) [OF wf len]] by (simp add: b_def)
    then have live: "pe_live m' = pe_live m - {x}"
      using live_set_bucket [OF wf len same(1)] b_live x_b by (auto simp: b_def b'_def)
    have "home m' a = remove1 x (home m a)" if a: "pe_heap m a \<noteq> None" for a
    proof (cases "pe_index (pm_buckets_mask m) (pe_key (the (pe_heap m a))) = i")
      case True
      then have "home m a = pb_head b" using a by (auto simp: home_def b_def)
      then show ?thesis
        using home_set_bucket [OF wf len same(1,2) a] True by (simp add: same(4) b'_def)
    next
      case False
      then show ?thesis
        using home_set_bucket [OF wf len same(1,2) a] other_home [OF wf len _ a False] x_b
        by (simp add: same(4) b_def remove1_idem)
    qed
    then show thesis
      using unlinked [OF found(3,4,5) same(3) live same(4)] by blast
  next
    case absent
    then show thesis
      using rem len missing by (simp add: pe_map_remove2_def i_def [symmetric] Let_def)
  qed
qed


text \<open>
  A step over an entry changes only where it led to an unlinked one: it then leads to what followed (and the
  key is gone), or to the replacement, which has the key and the successor of the entry it replaces.
\<close>

definition unlinked_by :: "pe_hashmap \<Rightarrow> rcu_state \<Rightarrow> addr list" where
  "unlinked_by m' st = drop (length (pm_rcu (rs_map st))) (pm_rcu m')"

definition detour :: "rcu_state \<Rightarrow> pe_hashmap \<Rightarrow> addr \<Rightarrow> addr \<Rightarrow> bool" where
  "detour st m' a x \<longleftrightarrow>
    (\<exists>e. pe_heap (rs_map st) x = Some e \<and>
      (entry_next (rcu_write m' st) a = entry_next st x \<and> pe_abs m' (pe_key e) = None \<or>
       (\<exists>n e'. entry_next (rcu_write m' st) a = Some n \<and> pe_heap m' n = Some e' \<and> pe_key e' = pe_key e \<and>
         entry_next (rcu_write m' st) n = entry_next st x)))"

definition visible_write :: "rcu_state \<Rightarrow> pe_hashmap \<Rightarrow> bool" where
  "visible_write st m' \<longleftrightarrow>
    pe_wf m' \<and> pm_rcu m' = pm_rcu (rs_map st) @ unlinked_by m' st \<and>
    set (unlinked_by m' st) \<subseteq> pe_live (rs_map st) \<and> pe_live (rs_map st) \<subseteq> pe_live m' \<union> set (unlinked_by m' st) \<and>
    (\<forall>a. pe_heap (rs_map st) a \<noteq> None \<longrightarrow> pe_heap m' a = pe_heap (rs_map st) a) \<and>
    (\<forall>a \<in> pe_live m'. a \<in> pe_live (rs_map st) \<or> pe_heap (rs_map st) a = None) \<and>
    (\<forall>a. pe_heap (rs_map st) a \<noteq> None \<longrightarrow>
      entry_next (rcu_write m' st) a = entry_next st a \<or>
      (\<exists>x. entry_next st a = Some x \<and> x \<in> set (unlinked_by m' st) \<and> detour st m' a x)) \<and>
    (\<forall>x \<in> set (unlinked_by m' st). entry_next (rcu_write m' st) x = entry_next st x)"

lemma rcu_write_simps [simp]:
  "rs_map (rcu_write m' st) = m'"
  "rs_next (rcu_write m' st) = (\<lambda>a. if a \<in> set (unlinked_by m' st) then entry_next st a else rs_next st a)"
  "rs_wait (rcu_write m' st) = (\<lambda>a. if a \<in> set (unlinked_by m' st) then active st else rs_wait st a)"
  "rs_log (rcu_write m' st) = rs_log st"
  "rs_readers (rcu_write m' st) = map (map_option (\<lambda>r. r\<lparr>rd_seen := pe_abs m' (rd_key r) # rd_seen r\<rparr>)) (rs_readers st)"
  by (simp_all add: rcu_write_def unlinked_by_def Let_def)

lemma entry_next_write:
  "entry_next (rcu_write m' st) a =
    (if a \<in> set (home m' a) then list_next a (home m' a)
     else if a \<in> set (unlinked_by m' st) then entry_next st a else rs_next st a)"
  by (simp add: entry_next_def [of "rcu_write m' st"] Let_def)

lemma no_write:
  assumes "pe_wf (rs_map st)"
  shows "visible_write st (rs_map st)"
proof -
  have "unlinked_by (rs_map st) st = []" by (simp add: unlinked_by_def)
  moreover from this have "entry_next (rcu_write (rs_map st) st) a = entry_next st a" for a
    by (simp add: entry_next_write entry_next_def Let_def)
  ultimately show ?thesis
    using assms by (simp add: visible_write_def)
qed

lemma insert_visible:
  assumes wf: "pe_wf (rs_map st)" and fresh: "pe_heap (rs_map st) n = None"
    and ins: "pe_map_insert2 (Some n) key value (rs_map st) = Some (ret, m')"
  shows "visible_write st m'"
proof -
  define m where "m = rs_map st"
  note wf = wf [folded m_def] and fresh = fresh [folded m_def] and ins = ins [folded m_def]
  have wf': "pe_wf m'"
    using insert2_law [OF wf fresh, of key "value"] ins by (auto simp: inserted_def)
  have n_home: "n \<notin> set (home m a)" for a
    using home_subset [OF wf, of a] live_allocated [OF wf, of n] fresh by auto
  from wf fresh ins show ?thesis
  proof (cases rule: insert2_cases)
    case added
    have olds: "unlinked_by m' st = []"
      by (simp add: unlinked_by_def m_def [symmetric] added(1))
    have "entry_next (rcu_write m' st) a = entry_next st a" if a: "pe_heap m a \<noteq> None" for a
    proof -
      have "a \<noteq> n" using a fresh by blast
      then show ?thesis
        using added(4) [OF a] by (auto simp: entry_next_write entry_next_def Let_def m_def [symmetric] olds list_next_Cons)
    qed
    then show ?thesis
      using wf' added fresh by (auto simp: visible_write_def olds m_def [symmetric])
  next
    case (replaced x e)
    have olds: "unlinked_by m' st = [x]"
      by (simp add: unlinked_by_def m_def [symmetric] replaced(4))
    have xn: "x \<noteq> n" using replaced(2) fresh by auto
    have x_home: "x \<in> set (home m x)" by (rule home_live [OF wf replaced(1)])
    have "home m' x = hlist_replace x n (home m x)"
      using replaced(2,7) by simp
    then have x_next: "entry_next (rcu_write m' st) x = entry_next st x"
      using x_home xn by (simp add: entry_next_write olds set_hlist_replace)
    have n_next: "entry_next (rcu_write m' st) n = entry_next st x"
      using list_next_replace_new [OF home_distinct [OF wf] n_home x_home] x_home
      by (simp add: entry_next_write replaced(8) set_hlist_replace entry_next_def [of st] m_def [symmetric])
    have "entry_next (rcu_write m' st) a = entry_next st a \<or> entry_next st a = Some x \<and> detour st m' a x"
      if a: "pe_heap m a \<noteq> None" for a
    proof -
      have an: "a \<noteq> n" using a fresh by blast
      note h = replaced(7) [OF a]
      show ?thesis
      proof (cases "a = x")
        case True
        then show ?thesis using x_next by simp
      next
        case ax: False
        have mem: "a \<in> set (home m' a) \<longleftrightarrow> a \<in> set (home m a)"
          using an ax by (cases "x \<in> set (home m a)") (simp_all add: h set_hlist_replace hlist_replace_absent)
        show ?thesis
        proof (cases "a \<in> set (home m a) \<and> list_next a (home m a) = Some x")
          case True
          then have "entry_next (rcu_write m' st) a = Some n"
            using mem ax by (simp add: entry_next_write h list_next_replace_other [OF n_home])
          moreover have "entry_next st a = Some x"
            using True by (simp add: entry_next_def m_def [symmetric])
          ultimately show ?thesis
            using n_next replaced(2,3,6) by (auto simp: detour_def m_def [symmetric])
        next
          case False
          then have "entry_next (rcu_write m' st) a = entry_next st a"
            using mem ax list_next_replace_other [OF n_home _ ax, of a]
            by (auto simp: entry_next_write h olds entry_next_def [of st] Let_def m_def [symmetric])
          then show ?thesis by simp
        qed
      qed
    qed
    then show ?thesis
      using wf' replaced(1,2,4,5,6) fresh x_next by (auto simp: visible_write_def olds m_def [symmetric])
  qed
qed

lemma remove_visible:
  assumes wf: "pe_wf (rs_map st)" and rem: "pe_map_remove2 key (rs_map st) = Some (ret, m')"
  shows "visible_write st m'"
proof -
  define m where "m = rs_map st"
  note wf = wf [folded m_def] and rem = rem [folded m_def]
  have wf': "pe_wf m'" and gone: "pe_abs m' key = None"
    using remove2_law [OF wf, of key] rem by (auto simp: removed_def)
  from wf rem show ?thesis
  proof (cases rule: remove2_cases)
    case missing
    then show ?thesis using no_write [of st] wf by (simp add: m_def)
  next
    case (unlinked x e)
    have olds: "unlinked_by m' st = [x]"
      by (simp add: unlinked_by_def m_def [symmetric] unlinked(4))
    have x_home: "x \<in> set (home m x)" by (rule home_live [OF wf unlinked(1)])
    have "home m' x = remove1 x (home m x)"
      using unlinked(2,7) by simp
    then have x_next: "entry_next (rcu_write m' st) x = entry_next st x"
      using home_distinct [OF wf, of x] by (simp add: entry_next_write olds)
    have "entry_next (rcu_write m' st) a = entry_next st a \<or> entry_next st a = Some x \<and> detour st m' a x"
      if a: "pe_heap m a \<noteq> None" for a
    proof (cases "a = x")
      case True
      then show ?thesis using x_next by simp
    next
      case ax: False
      note h = unlinked(7) [OF a]
      have mem: "a \<in> set (home m' a) \<longleftrightarrow> a \<in> set (home m a)"
        using ax by (simp add: h)
      note nxt = list_next_remove1 [OF home_distinct [OF wf] ax, of a]
      show ?thesis
      proof (cases "a \<in> set (home m a) \<and> list_next a (home m a) = Some x")
        case True
        then have "x \<in> set (home m a)" using list_next_in by blast
        have "home m x = home m a"
        proof -
          obtain ea where ea: "pe_heap m a = Some ea" using a by blast
          have "pe_index (pm_buckets_mask m) (pe_key ea) = pe_index (pm_buckets_mask m) (pe_key e)"
          proof (rule ccontr)
            assume "\<not> ?thesis"
            then show False
              using buckets_disjoint [OF wf pe_index_inside [OF pe_wfD(1) [OF wf]] pe_index_inside [OF pe_wfD(1) [OF wf]], of "pe_key ea" "pe_key e" x]
                \<open>x \<in> set (home m a)\<close> x_home unlinked(2) ea
              by (simp add: home_def)
          qed
          then show ?thesis
            using ea unlinked(2) by (simp add: home_def)
        qed
        then have "entry_next (rcu_write m' st) a = entry_next st x" "entry_next st a = Some x"
          using True mem nxt x_home by (simp_all add: entry_next_write h entry_next_def [of st] m_def [symmetric])
        then show ?thesis
          using gone unlinked(2,3) by (auto simp: detour_def m_def [symmetric])
      next
        case False
        then have "entry_next (rcu_write m' st) a = entry_next st a"
          using mem ax nxt by (auto simp: entry_next_write h olds entry_next_def [of st] Let_def m_def [symmetric])
        then show ?thesis by simp
      qed
    qed
    then show ?thesis
      using wf' unlinked(1,4,5,6) x_next by (auto simp: visible_write_def olds m_def [symmetric])
  qed
qed

section \<open>The invariant\<close>

text \<open>What a reader may stand on: entries that are linked, or whose grace period waits for it.\<close>

definition accessible :: "rcu_state \<Rightarrow> nat \<Rightarrow> addr \<Rightarrow> bool" where
  "accessible st i a \<longleftrightarrow>
    a \<in> pe_live (rs_map st) \<or> a \<in> set (pm_rcu (rs_map st)) \<and> i \<in> set (rs_wait st a)"

text \<open>The walk from an entry finds the key.\<close>

inductive reaches :: "rcu_state \<Rightarrow> i64 \<Rightarrow> addr \<Rightarrow> bool" for st k where
  hit: "pe_heap (rs_map st) a = Some e \<Longrightarrow> pe_key e = k \<Longrightarrow> reaches st k a"
| fwd: "pe_heap (rs_map st) a \<noteq> None \<Longrightarrow> entry_next st a = Some b \<Longrightarrow> reaches st k b \<Longrightarrow> reaches st k a"

inductive_cases reachesE: "reaches st k a"

fun cursor_ok :: "rcu_state \<Rightarrow> nat \<Rightarrow> reader \<Rightarrow> cursor \<Rightarrow> bool" where
  "cursor_ok st i r At_Head = True"
| "cursor_ok st i r (At a) = (accessible st i a \<and> (None \<in> set (rd_seen r) \<or> reaches st (rd_key r) a))"
| "cursor_ok st i r At_End = (None \<in> set (rd_seen r))"
| "cursor_ok st i r (Found v) = (Some v \<in> set (rd_seen r))"

definition reader_ok :: "rcu_state \<Rightarrow> nat \<Rightarrow> reader \<Rightarrow> bool" where
  "reader_ok st i r \<longleftrightarrow>
    pe_abs (rs_map st) (rd_key r) \<in> set (rd_seen r) \<and>
    (\<forall>a e. accessible st i a \<and> pe_heap (rs_map st) a = Some e \<and> pe_key e = rd_key r \<longrightarrow> Some (pe_value e) \<in> set (rd_seen r)) \<and>
    (\<forall>a b. accessible st i a \<and> entry_next st a = Some b \<longrightarrow> accessible st i b) \<and>
    cursor_ok st i r (rd_at r)"

definition rcu_inv :: "rcu_state \<Rightarrow> bool" where
  "rcu_inv st \<longleftrightarrow>
    pe_wf (rs_map st) \<and>
    (\<forall>i. case reader_at st i of
      Some r \<Rightarrow> reader_ok st i r
    | None \<Rightarrow> \<forall>a \<in> set (pm_rcu (rs_map st)). i \<notin> set (rs_wait st a)) \<and>
    (\<forall>(k, ans, seen) \<in> set (rs_log st). ans \<in> set seen)"

lemma accessible_allocated: "pe_wf (rs_map st) \<Longrightarrow> accessible st i a \<Longrightarrow> pe_heap (rs_map st) a \<noteq> None"
  using pe_wfD(2) [of "rs_map st"] by (auto simp: accessible_def pe_account_def)

lemma next_live:
  assumes "pe_wf (rs_map st)" "a \<in> pe_live (rs_map st)" "entry_next st a = Some b"
  shows "b \<in> pe_live (rs_map st)"
proof -
  have "list_next a (home (rs_map st) a) = Some b"
    using assms(3) home_live [OF assms(1,2)] by (simp add: entry_next_def)
  then show ?thesis
    using list_next_in home_subset [OF assms(1)] by blast
qed

text \<open>From the head of its bucket the walk finds a key that the map holds.\<close>

lemma list_next_split: "distinct (pre @ a # b # post) \<Longrightarrow> list_next a (pre @ a # b # post) = Some b"
proof (induction pre)
  case (Cons p pre)
  then show ?case by (simp add: list_next_Cons)
qed simp

lemma reaches_suffix:
  assumes wf: "pe_wf (rs_map st)" and i: "i < length (pm_buckets (rs_map st))"
    and xs: "pb_head (pm_buckets (rs_map st) ! i) = pre @ z # zs"
    and y: "y \<in> set (z # zs)" "pe_heap (rs_map st) y = Some e" "pe_key e = k"
  shows "reaches st k z"
  using xs y(1)
proof (induction zs arbitrary: pre z)
  case Nil
  then show ?case using y(2,3) by (auto intro: reaches.hit)
next
  case (Cons w ws)
  show ?case
  proof (cases "y = z")
    case True
    then show ?thesis using y(2,3) by (auto intro: reaches.hit)
  next
    case False
    have z: "z \<in> set (pb_head (pm_buckets (rs_map st) ! i))" by (simp add: Cons.prems(1))
    obtain ez where ez: "pe_heap (rs_map st) z = Some ez" "pe_index (pm_buckets_mask (rs_map st)) (pe_key ez) = i"
      using bucket_okD(3) [OF pe_wfD(3) [OF wf i] z] by blast
    have home: "home (rs_map st) z = pre @ z # w # ws"
      using ez Cons.prems(1) by (simp add: home_def)
    have "distinct (pre @ z # w # ws)"
      using home_distinct [OF wf, of z] by (simp only: home)
    then have "entry_next st z = Some w"
      using list_next_split [of pre z w ws] by (simp add: entry_next_def home)
    moreover have "reaches st k w"
      using Cons.IH [of "pre @ [z]" w] Cons.prems False by simp
    ultimately show ?thesis
      using ez(1) by (auto intro: reaches.fwd)
  qed
qed

lemma head_reaches:
  assumes wf: "pe_wf (rs_map st)" and some: "pe_abs (rs_map st) k \<noteq> None"
    and head: "pb_head (pm_buckets (rs_map st) ! pe_index (pm_buckets_mask (rs_map st)) k) = xs"
  shows "\<exists>a as. xs = a # as \<and> reaches st k a"
proof -
  obtain y e where y: "y \<in> pe_live (rs_map st)" "pe_heap (rs_map st) y = Some e" "pe_key e = k"
    using some abs_iff [OF wf, of k] by blast
  have "y \<in> set xs"
    using home_live [OF wf y(1)] y(2,3) head by (simp add: home_def)
  moreover from this obtain a as where xs: "xs = a # as" by (cases xs) auto
  ultimately show ?thesis
    using reaches_suffix [OF wf pe_index_inside [OF pe_wfD(1) [OF wf]], of k "[]" a as y e k] head y(2,3) by simp
qed

section \<open>Writers and the invariant\<close>

lemma visible_writeD:
  assumes "visible_write st m'"
  shows "pe_wf m'" "pm_rcu m' = pm_rcu (rs_map st) @ unlinked_by m' st"
    and "set (unlinked_by m' st) \<subseteq> pe_live (rs_map st)" "pe_live (rs_map st) \<subseteq> pe_live m' \<union> set (unlinked_by m' st)"
    and "\<And>a. pe_heap (rs_map st) a \<noteq> None \<Longrightarrow> pe_heap m' a = pe_heap (rs_map st) a"
    and "\<And>a. a \<in> pe_live m' \<Longrightarrow> a \<in> pe_live (rs_map st) \<or> pe_heap (rs_map st) a = None"
    and "\<And>a. pe_heap (rs_map st) a \<noteq> None \<Longrightarrow> entry_next (rcu_write m' st) a = entry_next st a \<or>
      (\<exists>x. entry_next st a = Some x \<and> x \<in> set (unlinked_by m' st) \<and> detour st m' a x)"
    and "\<And>x. x \<in> set (unlinked_by m' st) \<Longrightarrow> entry_next (rcu_write m' st) x = entry_next st x"
  using assms by (simp_all only: visible_write_def not_False_eq_True simp_thms)

lemma reaches_allocated: "reaches st k a \<Longrightarrow> pe_heap (rs_map st) a \<noteq> None"
  by (cases rule: reaches.cases) auto

lemma reaches_write:
  assumes vis: "visible_write st m'" and k: "pe_abs m' k \<noteq> None" and "reaches st k a"
  shows "reaches (rcu_write m' st) k a"
  using assms(3)
proof induction
  case (hit a e)
  then show ?case
    using visible_writeD(5) [OF vis, of a] by (auto intro: reaches.hit)
next
  case (fwd a b)
  have heap: "pe_heap m' a \<noteq> None"
    using visible_writeD(5) [OF vis fwd.hyps(1)] fwd.hyps(1) by simp
  from visible_writeD(7) [OF vis fwd.hyps(1)] show ?case
  proof
    assume "entry_next (rcu_write m' st) a = entry_next st a"
    then show ?thesis
      using fwd heap by (auto intro: reaches.fwd)
  next
    assume "\<exists>x. entry_next st a = Some x \<and> x \<in> set (unlinked_by m' st) \<and> detour st m' a x"
    then have b: "b \<in> set (unlinked_by m' st)" "detour st m' a b"
      using fwd.hyps(2) by auto
    note b_next = visible_writeD(8) [OF vis b(1)]
    obtain e where e: "pe_heap (rs_map st) b = Some e"
      using b(2) by (auto simp: detour_def)
    have e': "pe_heap m' b = Some e"
      using visible_writeD(5) [OF vis, of b] e by simp
    from b(2) e consider
      (skipped) "entry_next (rcu_write m' st) a = entry_next st b" "pe_abs m' (pe_key e) = None"
      | (moved) n en where "entry_next (rcu_write m' st) a = Some n" "pe_heap m' n = Some en" "pe_key en = pe_key e"
          "entry_next (rcu_write m' st) n = entry_next st b"
      by (auto simp: detour_def)
    then show ?thesis
    proof cases
      case skipped
      then have "pe_key e \<noteq> k" using k by auto
      from fwd.IH show ?thesis
      proof (cases rule: reaches.cases)
        case (hit e2)
        then show ?thesis using e' \<open>pe_key e \<noteq> k\<close> by simp
      next
        case (fwd c)
        then show ?thesis using skipped(1) b_next heap by (auto intro: reaches.fwd)
      qed
    next
      case moved
      have "reaches (rcu_write m' st) k n"
        using fwd.IH
      proof (cases rule: reaches.cases)
        case (hit e2)
        then show ?thesis using moved(2,3) e' by (auto intro: reaches.hit)
      next
        case (fwd c)
        then show ?thesis using moved(2,4) b_next by (auto intro: reaches.fwd)
      qed
      then show ?thesis
        using moved(1) heap by (auto intro: reaches.fwd)
    qed
  qed
qed

lemma reader_at_write:
  "reader_at (rcu_write m' st) i = map_option (\<lambda>r. r\<lparr>rd_seen := pe_abs m' (rd_key r) # rd_seen r\<rparr>) (reader_at st i)"
  by (simp add: reader_at_def)

lemma active_reader: "reader_at st i = Some r \<Longrightarrow> i \<in> set (active st)"
  by (auto simp: reader_at_def active_def split: if_splits)

lemma inactive_reader: "reader_at st i = None \<Longrightarrow> i \<notin> set (active st)"
  by (auto simp: reader_at_def active_def split: if_splits)

lemma accessible_write:
  assumes vis: "visible_write st m'" and wf: "pe_wf (rs_map st)" and r: "reader_at st i = Some r"
  shows "accessible st i a \<Longrightarrow> accessible (rcu_write m' st) i a"
    and "accessible (rcu_write m' st) i a \<Longrightarrow> accessible st i a \<or> a \<in> pe_live m' \<and> pe_heap (rs_map st) a = None"
proof -
  have rcu: "a \<in> set (pm_rcu m') \<longleftrightarrow> a \<in> set (pm_rcu (rs_map st)) \<or> a \<in> set (unlinked_by m' st)"
    by (subst visible_writeD(2) [OF vis]) simp
  have new: "accessible (rcu_write m' st) i a \<longleftrightarrow>
      a \<in> pe_live m' \<or> a \<in> set (unlinked_by m' st) \<or> a \<in> set (pm_rcu (rs_map st)) \<and> i \<in> set (rs_wait st a)"
    using active_reader [OF r] unfolding accessible_def rcu_write_simps rcu by (cases "a \<in> set (unlinked_by m' st)") simp_all
  have old: "a \<in> set (unlinked_by m' st) \<Longrightarrow> a \<in> pe_live (rs_map st)"
    "a \<in> pe_live (rs_map st) \<Longrightarrow> a \<in> pe_live m' \<or> a \<in> set (unlinked_by m' st)"
    using visible_writeD(3,4) [OF vis] by blast+
  show "accessible st i a \<Longrightarrow> accessible (rcu_write m' st) i a"
    using old unfolding new unfolding accessible_def by blast
  show "accessible (rcu_write m' st) i a \<Longrightarrow> accessible st i a \<or> a \<in> pe_live m' \<and> pe_heap (rs_map st) a = None"
    using old visible_writeD(6) [OF vis, of a] unfolding new unfolding accessible_def by blast
qed

lemma reader_ok_write:
  assumes vis: "visible_write st m'" and wf: "pe_wf (rs_map st)" and r: "reader_at st i = Some r" and ok: "reader_ok st i r"
  shows "reader_ok (rcu_write m' st) i (r\<lparr>rd_seen := pe_abs m' (rd_key r) # rd_seen r\<rparr>)"
proof -
  let ?st = "rcu_write m' st" and ?r = "r\<lparr>rd_seen := pe_abs m' (rd_key r) # rd_seen r\<rparr>"
  note acc = accessible_write [OF vis wf r]
  have wf': "pe_wf m'" by (rule visible_writeD(1) [OF vis])
  have held: "Some (pe_value e) \<in> set (rd_seen ?r)"
    if a: "accessible ?st i a" "pe_heap m' a = Some e" "pe_key e = rd_key r" for a e
    using acc(2) [OF a(1)]
  proof
    assume "accessible st i a"
    then show ?thesis
      using ok a(2,3) visible_writeD(5) [OF vis accessible_allocated [OF wf]] by (auto simp: reader_ok_def)
  next
    assume "a \<in> pe_live m' \<and> pe_heap (rs_map st) a = None"
    then have "pe_abs m' (rd_key r) = Some (pe_value e)"
      using a(2,3) abs_iff [OF wf', of "rd_key r"] by blast
    then show ?thesis by simp
  qed
  have onward: "accessible ?st i b" if a: "accessible ?st i a" "entry_next ?st a = Some b" for a b
  proof (cases "a \<in> pe_live m'")
    case True
    then show ?thesis
      using next_live [of ?st a b] wf' a(2) by (simp add: accessible_def)
  next
    case False
    then have old: "accessible st i a" using acc(2) [OF a(1)] by blast
    have "a \<in> set (unlinked_by m' st) \<or> a \<in> set (pm_rcu (rs_map st))"
      using acc(2) [OF a(1)] a(1) False visible_writeD(4) [OF vis] unfolding accessible_def by blast
    then have "entry_next ?st a = entry_next st a"
    proof
      assume "a \<in> set (pm_rcu (rs_map st))"
      then have "a \<notin> pe_live (rs_map st)"
        using pe_wfD(2) [OF wf] by (auto simp: pe_account_def)
      then have "a \<notin> set (home (rs_map st) a)" "a \<notin> set (unlinked_by m' st)"
        using home_subset [OF wf] visible_writeD(3) [OF vis] by blast+
      moreover have "a \<notin> set (home m' a)"
        using home_subset [OF wf'] False by blast
      ultimately show ?thesis
        by (simp add: entry_next_write entry_next_def [of st])
    qed (rule visible_writeD(8) [OF vis])
    then show ?thesis
      using a(2) old ok acc(1) by (auto simp: reader_ok_def)
  qed
  have "cursor_ok ?st i ?r (rd_at r)"
  proof (cases "rd_at r")
    case (At a)
    then have "accessible st i a" "None \<in> set (rd_seen r) \<or> reaches st (rd_key r) a"
      using ok by (simp_all add: reader_ok_def)
    then show ?thesis
      using acc(1) reaches_write [OF vis, of "rd_key r" a] At by (cases "pe_abs m' (rd_key r)") auto
  qed (use ok in \<open>simp_all add: reader_ok_def\<close>)
  then show ?thesis
    using held onward by (auto simp: reader_ok_def)
qed

section \<open>Every step keeps the invariant\<close>

lemma rcu_invD:
  assumes "rcu_inv st"
  shows "pe_wf (rs_map st)" "\<And>i r. reader_at st i = Some r \<Longrightarrow> reader_ok st i r"
    and "\<And>i a. reader_at st i = None \<Longrightarrow> a \<in> set (pm_rcu (rs_map st)) \<Longrightarrow> i \<notin> set (rs_wait st a)"
    and "\<And>k ans seen. (k, ans, seen) \<in> set (rs_log st) \<Longrightarrow> ans \<in> set seen"
proof -
  have at: "case reader_at st i of Some r \<Rightarrow> reader_ok st i r
      | None \<Rightarrow> \<forall>a \<in> set (pm_rcu (rs_map st)). i \<notin> set (rs_wait st a)" for i
    using assms by (simp add: rcu_inv_def)
  show "reader_at st i = Some r \<Longrightarrow> reader_ok st i r" for i r
    using at [of i] by simp
  show "reader_at st i = None \<Longrightarrow> a \<in> set (pm_rcu (rs_map st)) \<Longrightarrow> i \<notin> set (rs_wait st a)" for i a
    using at [of i] by simp
qed (use assms in \<open>auto simp: rcu_inv_def\<close>)

lemma rcu_invI:
  assumes "pe_wf (rs_map st)" "\<And>i r. reader_at st i = Some r \<Longrightarrow> reader_ok st i r"
    and "\<And>i a. reader_at st i = None \<Longrightarrow> a \<in> set (pm_rcu (rs_map st)) \<Longrightarrow> i \<notin> set (rs_wait st a)"
    and "\<And>k ans seen. (k, ans, seen) \<in> set (rs_log st) \<Longrightarrow> ans \<in> set seen"
  shows "rcu_inv st"
  using assms by (auto simp: rcu_inv_def split: option.splits)

lemma rcu_inv_write:
  assumes inv: "rcu_inv st" and vis: "visible_write st m'"
  shows "rcu_inv (rcu_write m' st)"
proof (rule rcu_invI)
  show "pe_wf (rs_map (rcu_write m' st))"
    using visible_writeD(1) [OF vis] by simp
next
  fix i r
  assume "reader_at (rcu_write m' st) i = Some r"
  then show "reader_ok (rcu_write m' st) i r"
    using reader_ok_write [OF vis rcu_invD(1) [OF inv] _ rcu_invD(2) [OF inv]] by (auto simp: reader_at_write)
next
  fix i a
  assume r: "reader_at (rcu_write m' st) i = None" and a: "a \<in> set (pm_rcu (rs_map (rcu_write m' st)))"
  have "reader_at st i = None" using r by (simp add: reader_at_write)
  moreover have "a \<in> set (pm_rcu (rs_map st)) \<or> a \<in> set (unlinked_by m' st)"
    using a by (simp add: visible_writeD(2) [OF vis])
  ultimately show "i \<notin> set (rs_wait (rcu_write m' st) a)"
    using inactive_reader rcu_invD(3) [OF inv] by (cases "a \<in> set (unlinked_by m' st)") simp_all
next
  fix k ans seen
  assume "(k, ans, seen) \<in> set (rs_log (rcu_write m' st))"
  then show "ans \<in> set seen" using rcu_invD(4) [OF inv] by simp
qed

text \<open>Steps that do not write.\<close>

lemma entry_next_cong: "rs_map st' = rs_map st \<Longrightarrow> rs_next st' = rs_next st \<Longrightarrow> entry_next st' = entry_next st"
  by (rule ext) (simp add: entry_next_def Let_def)

lemma reaches_cong:
  assumes "reaches st k a" "rs_map st' = rs_map st" "rs_next st' = rs_next st"
  shows "reaches st' k a"
  using assms(1)
proof induction
  case (hit a e)
  then show ?case by (auto intro: reaches.hit simp: assms(2))
next
  case (fwd a b)
  then show ?case
    by (intro reaches.fwd [of st' a b]) (simp_all add: assms(2) entry_next_cong [OF assms(2,3)])
qed

lemma reader_ok_cong:
  assumes "reader_ok st i r" "rs_map st' = rs_map st" "rs_next st' = rs_next st"
    and "\<And>a. a \<in> set (pm_rcu (rs_map st)) \<Longrightarrow> i \<in> set (rs_wait st' a) \<longleftrightarrow> i \<in> set (rs_wait st a)"
  shows "reader_ok st' i r"
proof -
  have acc: "accessible st' i a \<longleftrightarrow> accessible st i a" for a
    using assms(2,4) by (auto simp: accessible_def)
  moreover have "cursor_ok st' i r (rd_at r)"
    using assms(1) acc reaches_cong [OF _ assms(2,3)] by (cases "rd_at r") (auto simp: reader_ok_def)
  ultimately show ?thesis
    using assms(1) unfolding reader_ok_def entry_next_cong [OF assms(2,3)] assms(2) by blast
qed

lemma reader_ok_lock:
  assumes inv: "rcu_inv st" and i: "reader_at st i = None"
  shows "reader_ok st i \<lparr>rd_key = k, rd_at = At_Head, rd_seen = [pe_abs (rs_map st) k]\<rparr>"
proof -
  have wf: "pe_wf (rs_map st)" by (rule rcu_invD(1) [OF inv])
  have acc: "accessible st i a \<longleftrightarrow> a \<in> pe_live (rs_map st)" for a
    using rcu_invD(3) [OF inv i] by (auto simp: accessible_def)
  have "Some (pe_value e) = pe_abs (rs_map st) k"
    if "a \<in> pe_live (rs_map st)" "pe_heap (rs_map st) a = Some e" "pe_key e = k" for a e
    using that abs_iff [OF wf, of k "pe_value e"] by auto
  then show ?thesis
    using next_live [OF wf] by (auto simp: reader_ok_def acc)
qed

lemma reader_ok_walk:
  assumes wf: "pe_wf (rs_map st)" and ok: "reader_ok st i r"
  shows "\<exists>r'. rcu_get_step st r = Some r' \<and> reader_ok st i r'"
proof -
  have move: "reader_ok st i (r\<lparr>rd_at := c\<rparr>)" if "cursor_ok st i r c" for c
  proof -
    have "cursor_ok st i (r\<lparr>rd_at := c\<rparr>) c" using that by (cases c) auto
    then show ?thesis using ok unfolding reader_ok_def by simp blast
  qed
  note at = ok [unfolded reader_ok_def]
  show ?thesis
  proof (cases "rd_at r")
    case At_Head
    let ?xs = "pb_head (pm_buckets (rs_map st) ! pe_index (pm_buckets_mask (rs_map st)) (rd_key r))"
    have "cursor_ok st i r (case ?xs of [] \<Rightarrow> At_End | a # as \<Rightarrow> At a)"
    proof (cases "?xs")
      case Nil
      then have "pe_abs (rs_map st) (rd_key r) = None"
        using head_reaches [OF wf _ Nil] by blast
      then show ?thesis using at Nil by auto
    next
      case (Cons a as)
      then have "a \<in> pe_live (rs_map st)"
        using pe_index_inside [OF pe_wfD(1) [OF wf], of "rd_key r"] by (auto simp: pe_live_iff)
      moreover have "None \<in> set (rd_seen r) \<or> reaches st (rd_key r) a"
        using head_reaches [OF wf _ Cons] at by (cases "pe_abs (rs_map st) (rd_key r)") auto
      ultimately show ?thesis using Cons by (simp add: accessible_def)
    qed
    then show ?thesis
      using move by (simp add: rcu_get_step_def Let_def At_Head)
  next
    case (At a)
    then have a: "accessible st i a" "None \<in> set (rd_seen r) \<or> reaches st (rd_key r) a"
      using at by simp_all
    obtain e where e: "pe_heap (rs_map st) a = Some e"
      using accessible_allocated [OF wf a(1)] by blast
    have "cursor_ok st i r (if pe_key e = rd_key r then Found (pe_value e)
        else (case entry_next st a of None \<Rightarrow> At_End | Some b \<Rightarrow> At b))"
    proof (cases "pe_key e = rd_key r")
      case True
      then show ?thesis using at a(1) e by auto
    next
      case False
      have onward: "\<exists>b. entry_next st a = Some b \<and> reaches st (rd_key r) b" if "reaches st (rd_key r) a"
        using that False e by (auto elim: reaches.cases)
      show ?thesis
      proof (cases "entry_next st a")
        case None
        then show ?thesis using False a(2) onward by auto
      next
        case (Some b)
        then show ?thesis using False a at onward by auto
      qed
    qed
    then show ?thesis
      using move e by (simp add: rcu_get_step_def Let_def At)
  qed (use ok in \<open>simp_all add: rcu_get_step_def Let_def\<close>)
qed

lemma reader_ok_free:
  assumes wf: "pe_wf (rs_map st)" and ok: "reader_ok st i r"
    and x: "x \<in> set (pm_rcu (rs_map st))" "i \<notin> set (rs_wait st x)"
    and free: "pe_entry_free_rcu x (rs_map st) = Some m'"
  shows "reader_ok (st\<lparr>rs_map := m'\<rparr>) i r"
proof -
  let ?st = "st\<lparr>rs_map := m'\<rparr>"
  have m': "pe_wf m'" "pe_abs m' = pe_abs (rs_map st)" "pm_rcu m' = remove1 x (pm_rcu (rs_map st))"
    "pm_buckets m' = pm_buckets (rs_map st)" "pm_buckets_mask m' = pm_buckets_mask (rs_map st)"
    "pe_heap m' = (pe_heap (rs_map st))(x := None)"
    using free_rcu_law [OF wf x(1)] free by auto
  have dist: "distinct (pm_rcu (rs_map st))" and dead: "x \<notin> pe_live (rs_map st)"
    using pe_wfD(2) [OF wf] x(1) by (auto simp: pe_account_def)
  have live: "pe_live m' = pe_live (rs_map st)"
    by (simp add: pe_live_def m'(4))
  have acc: "accessible ?st i a \<longleftrightarrow> accessible st i a" for a
    using dist x(2) by (cases "a = x") (auto simp: accessible_def m'(3) live)
  have not_x: "a \<noteq> x" if "accessible st i a" for a
    using that x(2) dead by (auto simp: accessible_def)
  have "home m' a = home (rs_map st) a" if "a \<noteq> x" for a
    using that by (cases "pe_heap (rs_map st) a") (simp_all add: home_def m'(4,5,6))
  then have nxt: "entry_next ?st a = entry_next st a" if "a \<noteq> x" for a
    using that by (simp add: entry_next_def Let_def)
  have reach: "reaches ?st k a" if "reaches st k a" "accessible st i a" for k a
    using that
  proof induction
    case (hit a e)
    then show ?case using not_x [OF hit.prems] by (intro reaches.hit [of ?st a e]) (simp_all add: m'(6))
  next
    case (fwd a b)
    have "accessible st i b" using ok fwd.hyps(2) fwd.prems by (auto simp: reader_ok_def)
    then show ?case
      using fwd not_x [OF fwd.prems] by (intro reaches.fwd [of ?st a b]) (simp_all add: m'(6) nxt)
  qed
  have "cursor_ok ?st i r (rd_at r)"
    using ok reach by (cases "rd_at r") (auto simp: reader_ok_def acc)
  then show ?thesis
    using ok not_x nxt unfolding reader_ok_def acc by (auto simp: m'(2,6) acc split: if_splits)
qed

lemma reader_at_update:
  "i < length (rs_readers st) \<Longrightarrow> rs_readers st' = (rs_readers st)[i := x] \<Longrightarrow>
    reader_at st' j = (if j = i then x else reader_at st j)"
  by (auto simp: reader_at_def)

lemma rcu_do_ok:
  assumes inv: "rcu_inv st"
  shows "rcu_do act st \<noteq> Fault \<and> (\<forall>st'. rcu_do act st = To st' \<longrightarrow> rcu_inv st')"
proof -
  have wf: "pe_wf (rs_map st)" by (rule rcu_invD(1) [OF inv])
  show ?thesis
  proof (cases act)
    case (Insert alloc k v)
    show ?thesis
    proof (cases alloc)
      case None
      then show ?thesis
        using rcu_inv_write [OF inv no_write [OF wf]] by (auto simp: Insert written_def pe_map_insert2_def)
    next
      case (Some n)
      show ?thesis
      proof (cases "pe_heap (rs_map st) n")
        case None
        then obtain m' where "pe_map_insert2 (Some n) k v (rs_map st) = Some (0, m')"
          using insert2_law [OF wf None] by blast
        then show ?thesis
          using rcu_inv_write [OF inv insert_visible [OF wf None]] Some None by (auto simp: Insert written_def)
      qed (use Some in \<open>simp add: Insert\<close>)
    qed
  next
    case (Remove k)
    obtain m' where "pe_map_remove2 k (rs_map st) = Some (remove_result (rs_map st) k, m')"
      using remove2_law [OF wf] by blast
    then show ?thesis
      using rcu_inv_write [OF inv remove_visible [OF wf]] by (auto simp: Remove written_def)
  next
    case (Lock i k)
    show ?thesis
    proof (cases "i < length (rs_readers st) \<and> rs_readers st ! i = None")
      case True
      let ?r = "\<lparr>rd_key = k, rd_at = At_Head, rd_seen = [pe_abs (rs_map st) k]\<rparr>"
      let ?st = "st\<lparr>rs_readers := (rs_readers st)[i := Some ?r]\<rparr>"
      have at: "reader_at ?st j = (if j = i then Some ?r else reader_at st j)" for j
        using True by (intro reader_at_update) simp_all
      have "reader_at st i = None" using True by (simp add: reader_at_def)
      then have "rcu_inv ?st"
        using rcu_invD [OF inv] reader_ok_lock [OF inv, of i k]
        by (intro rcu_invI) (auto simp: at intro: reader_ok_cong [of st] split: if_splits)
      then show ?thesis using True by (simp add: Lock)
    qed (auto simp: Lock)
  next
    case (Walk i)
    show ?thesis
    proof (cases "reader_at st i")
      case (Some r)
      obtain r' where r': "rcu_get_step st r = Some r'" "reader_ok st i r'"
        using reader_ok_walk [OF wf rcu_invD(2) [OF inv Some]] by blast
      let ?st = "st\<lparr>rs_readers := (rs_readers st)[i := Some r']\<rparr>"
      have at: "reader_at ?st j = (if j = i then Some r' else reader_at st j)" for j
        using Some by (intro reader_at_update) (auto simp: reader_at_def split: if_splits)
      have "rcu_inv ?st"
        using rcu_invD [OF inv] r'(2)
        by (intro rcu_invI) (auto simp: at intro: reader_ok_cong [of st] split: if_splits)
      then show ?thesis using Some r'(1) by (simp add: Walk)
    qed (simp add: Walk)
  next
    case (Unlock i)
    show ?thesis
    proof (cases "reader_at st i")
      case (Some r)
      show ?thesis
      proof (cases "get_answer (rd_at r)")
        case None
        then show ?thesis using Some by (simp add: Unlock)
      next
        case ans: (Some ans)
        let ?st = "st\<lparr>rs_readers := (rs_readers st)[i := None], rs_wait := (\<lambda>a. removeAll i (rs_wait st a)),
          rs_log := (rd_key r, ans, rd_seen r) # rs_log st\<rparr>"
        have at: "reader_at ?st j = (if j = i then None else reader_at st j)" for j
          using Some by (intro reader_at_update) (auto simp: reader_at_def split: if_splits)
        have "cursor_ok st i r (rd_at r)"
          using rcu_invD(2) [OF inv Some] by (simp add: reader_ok_def)
        then have "ans \<in> set (rd_seen r)"
          using ans by (cases "rd_at r") auto
        then have "rcu_inv ?st"
          using rcu_invD [OF inv]
          by (intro rcu_invI) (auto simp: at intro: reader_ok_cong [of st] split: if_splits)
        then show ?thesis using Some ans by (simp add: Unlock)
      qed
    qed (simp add: Unlock)
  next
    case (Free x)
    show ?thesis
    proof (cases "x \<in> set (pm_rcu (rs_map st)) \<and> rs_wait st x = []")
      case True
      obtain m' where m': "pe_entry_free_rcu x (rs_map st) = Some m'" "pe_wf m'" "pm_rcu m' = remove1 x (pm_rcu (rs_map st))"
        using free_rcu_law [OF wf, of x] True by blast
      have at: "reader_at (st\<lparr>rs_map := m'\<rparr>) j = reader_at st j" for j
        by (simp add: reader_at_def)
      have "rcu_inv (st\<lparr>rs_map := m'\<rparr>)"
      proof (rule rcu_invI)
        show "reader_ok (st\<lparr>rs_map := m'\<rparr>) j r" if "reader_at (st\<lparr>rs_map := m'\<rparr>) j = Some r" for j r
          using reader_ok_free [OF wf rcu_invD(2) [OF inv] _ _ m'(1)] that True by (simp add: at)
        show "j \<notin> set (rs_wait (st\<lparr>rs_map := m'\<rparr>) a)"
          if "reader_at (st\<lparr>rs_map := m'\<rparr>) j = None" "a \<in> set (pm_rcu (rs_map (st\<lparr>rs_map := m'\<rparr>)))" for j a
          using rcu_invD(3) [OF inv, of j a] that m'(3) notin_set_remove1 [of a "pm_rcu (rs_map st)" x] by (auto simp: at)
      qed (use m'(2) rcu_invD(4) [OF inv] in simp_all)
      then show ?thesis using True m'(1) by (simp add: Free)
    qed (auto simp: Free)
  qed
qed

lemma rcu_run_ok: "rcu_inv st \<Longrightarrow> \<exists>st'. rcu_run acts st = To st' \<and> rcu_inv st'"
proof (induction acts arbitrary: st)
  case (Cons act acts)
  then show ?case
    using rcu_do_ok [OF Cons.prems, of act] by (cases "rcu_do act st") auto
qed simp

lemma rcu_start_inv: "pe_wf m \<Longrightarrow> rcu_inv (rcu_start m n)"
proof -
  assume "pe_wf m"
  moreover have "reader_at (rcu_start m n) i = None" for i
    by (cases "i < n") (simp_all add: rcu_start_def reader_at_def)
  ultimately show "rcu_inv (rcu_start m n)"
    by (intro rcu_invI) (auto simp: rcu_start_def)
qed

section \<open>Properties\<close>

text \<open>C21: Lookups without a lock are memory safe.  On a map that \<^verbatim>\<open>pe_map_create\<close> made, for any number of
  concurrent readers and any interleaving of their loads with insertions, replacements, removals and RCU
  callbacks, no reader loads from an entry that was freed, no entry is freed twice, and the map stays
  well-formed.
\<close>
theorem rcu_readers_safe:
  assumes "pe_map_create ok bits rs0 = (Some m, rs1)" "bits < 32"
  shows "\<exists>st. rcu_run acts (rcu_start m n) = To st \<and> pe_wf (rs_map st)"
  using rcu_run_ok [OF rcu_start_inv [OF create_map(1) [OF assms]], of acts n] rcu_invD(1) by blast

text \<open>C22: Lookups without a lock are linearizable.  Under the same interleavings, when \<^verbatim>\<open>pe_map_get\<close> returns a
  value for a key, or -1, the map held that value, or no value, for the key at some time between its
  \<^verbatim>\<open>rcu_read_lock\<close> and \<^verbatim>\<open>rcu_read_unlock\<close>: a reader that meets a concurrent replacement never misses the
  key, and one that stands on an unlinked entry still finds what is behind it.
\<close>
theorem rcu_get_linearizable:
  assumes "pe_map_create ok bits rs0 = (Some m, rs1)" "bits < 32"
    and "rcu_run acts (rcu_start m n) = To st" "(key, ans, seen) \<in> set (rs_log st)"
  shows "ans \<in> set seen"
  using rcu_run_ok [OF rcu_start_inv [OF create_map(1) [OF assms(1,2)]], of acts n] assms(3,4) rcu_invD(4)
  by auto

text \<open>A reader stands on an entry while it is replaced; the callback has to wait for it.\<close>

definition rcu_demo :: "rcu_action list" where
  "rcu_demo = [Insert (Some 1) 5 7, Lock 0 5, Walk 0, Insert (Some 2) 5 8, Free 1, Walk 0, Unlock 0, Free 1]"

theorem rcu_readers_safe_witness:
  "\<exists>st. rcu_run rcu_demo (rcu_start (pe_new_map 2) 1) = To st \<and> pe_wf (rs_map st)"
  by (rule rcu_readers_safe [OF demo_create]) simp

lemma rcu_demo_log:
  "(case rcu_run rcu_demo (rcu_start (pe_new_map 2) 1) of To st \<Rightarrow> rs_log st | _ \<Rightarrow> []) = [(5, Some 7, [Some 8, Some 7])]"
  by code_simp

theorem rcu_get_linearizable_witness:
  "\<exists>st. rcu_run rcu_demo (rcu_start (pe_new_map 2) 1) = To st \<and> (5, Some 7, [Some 8, Some 7]) \<in> set (rs_log st) \<and>
    Some 7 \<in> set [Some 8, Some (7 :: i64)]"
proof -
  obtain st where "rcu_run rcu_demo (rcu_start (pe_new_map 2) 1) = To st" "(5, Some 7, [Some 8, Some 7]) \<in> set (rs_log st)"
    using rcu_demo_log by (cases "rcu_run rcu_demo (rcu_start (pe_new_map 2) 1)") auto
  then show ?thesis
    using rcu_get_linearizable [OF demo_create, of rcu_demo 1 st 5 "Some 7" "[Some 8, Some 7]"] by auto
qed

end
