(* ===== verification/Ucontext_Echo.thy ===== *)
theory Ucontext_Echo
  imports Servers
begin

text \<open>
  The coroutine echo servers, \<^verbatim>\<open>tcp_echo/server_epoll_et_ucontext.cpp\<close> and \<^verbatim>\<open>server_epoll_et_ucontext1.cpp\<close>: a
  connection is a coroutine (\<^verbatim>\<open>run\<close>) that receives and sends in straight-line code and leaves with
  \<^verbatim>\<open>swapcontext\<close> when the kernel answers "try again"; \<^verbatim>\<open>handle\<close> re-enters it when the event it waits for comes.

  The context that \<^verbatim>\<open>swapcontext\<close> saves is the point of the code and its local variables, \<open>co_point\<close>.  The
  execution between two switches may be unbounded (the coroutine leaves only when the kernel says so), so
  it is a partial function and \<open>None\<close> stands for not returning to the event loop.  The two programs differ
  in how they remember what they wait for (an enumeration, two semaphores); this is a parameter of the
  code (\<open>co_sync\<close>) with the two instances below, and \<open>co_waiting\<close> states what the code relies on.
\<close>

section \<open>The coroutine\<close>

definition co_buf_size :: nat where "co_buf_size = 64"

text \<open>
  \<open>Recv_Point\<close>: in the loop of \<^verbatim>\<open>await_recv\<close>.  \<open>Send_Point have_sent size ret\<close>: in the loop of \<^verbatim>\<open>await_send\<close>, with
  its variables.  \<open>End_Point\<close>: after the loop of \<^verbatim>\<open>run\<close>.
\<close>

datatype co_point = Recv_Point | Send_Point nat nat int | End_Point

record co_conn =
  co_fd :: int
  co_epfd :: int
  co_buffer :: "byte list"
  co_saved :: co_point
  co_exited :: bool

text \<open>How a program remembers what it waits for, and the assignments of \<^verbatim>\<open>start\<close> before it enters \<^verbatim>\<open>run\<close>.\<close>

record 'c co_sync =
  cs_start :: "'c \<Rightarrow> 'c"
  cs_wait_recv :: "'c \<Rightarrow> 'c"
  cs_wait_send :: "'c \<Rightarrow> 'c"
  cs_waits_recv :: "'c \<Rightarrow> bool"
  cs_waits_send :: "'c \<Rightarrow> bool"
  cs_wake_recv :: "'c \<Rightarrow> 'c"
  cs_wake_send :: "'c \<Rightarrow> 'c"

text \<open>One pass of a loop ends with a switch to the event loop, or continues at a point.\<close>

datatype ('c, 'k) co_next = Switch 'c "'k world" | Continue co_point 'c "'k world"

definition await_recv :: "('k, 'z) kernel_scheme \<Rightarrow> ('x co_conn_scheme) co_sync \<Rightarrow> 'x co_conn_scheme \<Rightarrow> 'k world \<Rightarrow>
    ('x co_conn_scheme, 'k) co_next" where
  "await_recv K S c w =
    (case sys_recv K (co_fd c) co_buf_size w of
      (RecvErr e, w1) \<Rightarrow>
        if again e then Switch (cs_wait_recv S (c\<lparr>co_saved := Recv_Point\<rparr>)) w1
        else Continue End_Point c w1
    | (RecvData bs, w1) \<Rightarrow>
        if length bs = 0 then Continue End_Point c w1
        else Continue (Send_Point 0 (length bs) 0) (c\<lparr>co_buffer := bs @ drop (length bs) (co_buffer c)\<rparr>) w1)"

definition await_send :: "('k, 'z) kernel_scheme \<Rightarrow> ('x co_conn_scheme) co_sync \<Rightarrow> nat \<Rightarrow> nat \<Rightarrow> int \<Rightarrow>
    'x co_conn_scheme \<Rightarrow> 'k world \<Rightarrow> ('x co_conn_scheme, 'k) co_next" where
  "await_send K S have_sent size' ret c w =
    (if have_sent < size' then
      (case sys_send K (co_fd c) (take (size' - have_sent) (drop have_sent (co_buffer c))) w of
        (SendErr e, w1) \<Rightarrow>
          if again e then Switch (cs_wait_send S (c\<lparr>co_saved := Send_Point have_sent size' ret\<rparr>)) w1
          else Continue (Send_Point have_sent size' (-1)) c w1
      | (SendLen n, w1) \<Rightarrow> Continue (Send_Point (have_sent + n) size' ret) c w1)
    else Continue (if ret < 0 then End_Point else Recv_Point) c w)"

fun co_pass :: "('k, 'z) kernel_scheme \<Rightarrow> ('x co_conn_scheme) co_sync \<Rightarrow> co_point \<Rightarrow> 'x co_conn_scheme \<Rightarrow> 'k world \<Rightarrow>
    ('x co_conn_scheme, 'k) co_next" where
  "co_pass K S Recv_Point c w = await_recv K S c w"
| "co_pass K S (Send_Point have_sent size' ret) c w = await_send K S have_sent size' ret c w"
| "co_pass K S End_Point c w = Switch (c\<lparr>co_exited := True, co_saved := End_Point\<rparr>) w"

text \<open>\<^verbatim>\<open>run\<close> from a point to its next switch.\<close>

partial_function (option) co_run :: "('k, 'z) kernel_scheme \<Rightarrow> ('x co_conn_scheme) co_sync \<Rightarrow> co_point \<Rightarrow>
    'x co_conn_scheme \<Rightarrow> 'k world \<Rightarrow> ('x co_conn_scheme \<times> 'k world) option" where
  [code]: "co_run K S pt c w =
    (case co_pass K S pt c w of
      Switch c1 w1 \<Rightarrow> Some (c1, w1)
    | Continue pt1 c1 w1 \<Rightarrow> co_run K S pt1 c1 w1)"

section \<open>The handler\<close>

text \<open>The branch of \<^verbatim>\<open>handle\<close> for one event: the result tells whether the coroutine has exited.\<close>

definition co_resume :: "('k, 'z) kernel_scheme \<Rightarrow> ('x co_conn_scheme) co_sync \<Rightarrow> ('x co_conn_scheme \<Rightarrow> bool) \<Rightarrow>
    ('x co_conn_scheme \<Rightarrow> 'x co_conn_scheme) \<Rightarrow> 'x co_conn_scheme \<times> 'k world \<Rightarrow>
    (bool \<times> 'x co_conn_scheme \<times> 'k world) option" where
  "co_resume K S waits wake = (\<lambda>(c, w).
    if waits c then map_option (\<lambda>(c1, w1). (co_exited c1, c1, w1)) (co_run K S (co_saved c) (wake c) w)
    else Some (False, c, w))"

definition co_handle :: "('k, 'z) kernel_scheme \<Rightarrow> ('x co_conn_scheme) co_sync \<Rightarrow> u32 \<Rightarrow>
    'x co_conn_scheme \<times> 'k world \<Rightarrow> (int \<times> 'x co_conn_scheme \<times> 'k world) option" where
  "co_handle K S ev s =
    (if has ev (NOT (EPOLLIN OR EPOLLOUT)) then Some (-1, s)
     else
      (case (if has ev EPOLLOUT then co_resume K S (cs_waits_send S) (cs_wake_send S) s else Some (False, s)) of
        None \<Rightarrow> None
      | Some (stop, s1) \<Rightarrow>
          if stop then Some (-1, s1)
          else
            (case (if has ev EPOLLIN then co_resume K S (cs_waits_recv S) (cs_wake_recv S) s1 else Some (False, s1)) of
              None \<Rightarrow> None
            | Some (stop2, s2) \<Rightarrow> Some (if stop2 then -1 else 0, s2))))"

text \<open>\<^verbatim>\<open>start\<close>, and the destructor.\<close>

definition co_start :: "('k, 'z) kernel_scheme \<Rightarrow> ('x co_conn_scheme) co_sync \<Rightarrow> 'x co_conn_scheme \<times> 'k world \<Rightarrow>
    ('x co_conn_scheme \<times> 'k world) option" where
  "co_start K S = (\<lambda>(c, w). co_run K S Recv_Point (cs_start S c) w)"

definition co_delete :: "'x co_conn_scheme \<times> 'k world \<Rightarrow> 'k world" where
  "co_delete = (\<lambda>(c, w). emit (Closed (co_fd c)) (emit (CtlDel (co_fd c)) w))"

section \<open>\<^verbatim>\<open>server_epoll_et_ucontext.cpp\<close>\<close>

datatype wait_status = Status_Running | Wait_Could_Recv | Wait_Could_Send

record ctx_conn = co_conn +
  cx_wait_status :: wait_status

definition ctx_sync :: "ctx_conn co_sync" where
  "ctx_sync = \<lparr>cs_start = (\<lambda>c. c\<lparr>co_exited := False, cx_wait_status := Status_Running\<rparr>),
    cs_wait_recv = cx_wait_status_update (\<lambda>_. Wait_Could_Recv),
    cs_wait_send = cx_wait_status_update (\<lambda>_. Wait_Could_Send),
    cs_waits_recv = (\<lambda>c. cx_wait_status c = Wait_Could_Recv),
    cs_waits_send = (\<lambda>c. cx_wait_status c = Wait_Could_Send),
    cs_wake_recv = cx_wait_status_update (\<lambda>_. Status_Running),
    cs_wake_send = cx_wait_status_update (\<lambda>_. Status_Running)\<rparr>"

text \<open>The constructor leaves \<^verbatim>\<open>buffer\<close>, \<^verbatim>\<open>exited\<close> and \<^verbatim>\<open>wait_status\<close> as they are in memory.\<close>

definition ctx_new :: "byte list \<Rightarrow> bool \<Rightarrow> wait_status \<Rightarrow> int \<Rightarrow> int \<Rightarrow> 'k world \<Rightarrow> ctx_conn \<times> 'k world" where
  "ctx_new junk exited wait_status fd epfd w =
    (\<lparr>co_fd = fd, co_epfd = epfd, co_buffer = junk, co_saved = Recv_Point, co_exited = exited, cx_wait_status = wait_status\<rparr>,
     emit (CtlAdd fd (EPOLLIN OR EPOLLOUT OR EPOLLET)) w)"

section \<open>\<^verbatim>\<open>server_epoll_et_ucontext1.cpp\<close>\<close>

text \<open>
  \<^verbatim>\<open>class CoroutineSemaphore\<close>.  The only context that \<^verbatim>\<open>wait\<close> is called with is the one of the connection that
  owns the semaphore, so a pointer to a context is a value of type \<open>unit option\<close>.  \<^verbatim>\<open>post\<close> returns the context it
  switches to.
\<close>

record co_semaphore =
  cm_waiting_context :: "unit option"
  cm_waiting :: bool

definition co_sem_new :: co_semaphore where
  "co_sem_new = \<lparr>cm_waiting_context = None, cm_waiting = False\<rparr>"

definition co_sem_wait :: "unit \<Rightarrow> co_semaphore \<Rightarrow> co_semaphore" where
  "co_sem_wait context s = s\<lparr>cm_waiting_context := Some context, cm_waiting := True\<rparr>"

definition co_sem_post :: "co_semaphore \<Rightarrow> unit option \<times> co_semaphore" where
  "co_sem_post s = (cm_waiting_context s, s\<lparr>cm_waiting_context := None, cm_waiting := False\<rparr>)"

record sem_conn = co_conn +
  sm_recv :: co_semaphore
  sm_send :: co_semaphore

definition sem_sync :: "sem_conn co_sync" where
  "sem_sync = \<lparr>cs_start = (\<lambda>c. c),
    cs_wait_recv = sm_recv_update (co_sem_wait ()), cs_wait_send = sm_send_update (co_sem_wait ()),
    cs_waits_recv = (\<lambda>c. cm_waiting (sm_recv c)), cs_waits_send = (\<lambda>c. cm_waiting (sm_send c)),
    cs_wake_recv = sm_recv_update (\<lambda>s. snd (co_sem_post s)), cs_wake_send = sm_send_update (\<lambda>s. snd (co_sem_post s))\<rparr>"

definition sem_new :: "byte list \<Rightarrow> int \<Rightarrow> int \<Rightarrow> 'k world \<Rightarrow> sem_conn \<times> 'k world" where
  "sem_new junk fd epfd w =
    (\<lparr>co_fd = fd, co_epfd = epfd, co_buffer = junk, co_saved = Recv_Point, co_exited = False,
      sm_recv = co_sem_new, sm_send = co_sem_new\<rparr>,
     emit (CtlAdd fd (EPOLLIN OR EPOLLOUT OR EPOLLET)) w)"

text \<open>\<^verbatim>\<open>post\<close> is called when \<^verbatim>\<open>waiting\<close> holds only, and then \<^verbatim>\<open>waiting_context\<close> is not null.\<close>

definition co_sem_ok :: "co_semaphore \<Rightarrow> bool" where
  "co_sem_ok s \<longleftrightarrow> (cm_waiting s \<longrightarrow> cm_waiting_context s \<noteq> None)"

lemma co_sem_ok:
  "co_sem_ok co_sem_new" "co_sem_ok (co_sem_wait context s)" "co_sem_ok (snd (co_sem_post s))"
  "co_sem_ok s \<Longrightarrow> cm_waiting s \<Longrightarrow> fst (co_sem_post s) = Some ()"
  by (simp_all add: co_sem_ok_def co_sem_new_def co_sem_wait_def co_sem_post_def)

section \<open>A connection and its events\<close>

fun co_deliver :: "('k, 'z) kernel_scheme \<Rightarrow> ('x co_conn_scheme) co_sync \<Rightarrow> u32 list \<Rightarrow> 'x co_conn_scheme \<times> 'k world \<Rightarrow>
    (int \<times> 'x co_conn_scheme \<times> 'k world) option" where
  "co_deliver K S [] s = Some (0, s)"
| "co_deliver K S (ev # evs) s =
    (case co_handle K S ev s of
      None \<Rightarrow> None
    | Some (ret, s1) \<Rightarrow> if ret < 0 then Some (ret, s1) else co_deliver K S evs s1)"

definition co_session :: "('k, 'z) kernel_scheme \<Rightarrow> ('x co_conn_scheme) co_sync \<Rightarrow> u32 list \<Rightarrow> 'x co_conn_scheme \<times> 'k world \<Rightarrow>
    (int \<times> 'x co_conn_scheme \<times> 'k world) option" where
  "co_session K S evs s = (case co_start K S s of None \<Rightarrow> None | Some s1 \<Rightarrow> co_deliver K S evs s1)"

text \<open>What the coroutine holds and has not sent.\<close>

fun unsent :: "co_point \<Rightarrow> byte list \<Rightarrow> byte list" where
  "unsent (Send_Point have_sent size' ret) buf = take (size' - have_sent) (drop have_sent buf)"
| "unsent Recv_Point buf = []"
| "unsent End_Point buf = []"

definition co_pending :: "'x co_conn_scheme \<Rightarrow> byte list" where
  "co_pending c = unsent (co_saved c) (co_buffer c)"

section \<open>The contract of the waiting flags\<close>

definition same_base :: "'x co_conn_scheme \<Rightarrow> 'x co_conn_scheme \<Rightarrow> bool" where
  "same_base c d \<longleftrightarrow> co_fd c = co_fd d \<and> co_buffer c = co_buffer d \<and> co_saved c = co_saved d \<and> co_exited c = co_exited d"

definition co_idle :: "('x co_conn_scheme) co_sync \<Rightarrow> 'x co_conn_scheme \<Rightarrow> bool" where
  "co_idle S c \<longleftrightarrow> \<not> cs_waits_recv S c \<and> \<not> cs_waits_send S c"

locale co_waiting =
  fixes S :: "('x co_conn_scheme) co_sync"
  assumes base: "same_base (cs_wait_recv S c) c" "same_base (cs_wait_send S c) c"
      "same_base (cs_wake_recv S c) c" "same_base (cs_wake_send S c) c"
    and wait_recv: "co_idle S c \<Longrightarrow> cs_waits_recv S (cs_wait_recv S c) \<and> \<not> cs_waits_send S (cs_wait_recv S c)"
    and wait_send: "co_idle S c \<Longrightarrow> cs_waits_send S (cs_wait_send S c) \<and> \<not> cs_waits_recv S (cs_wait_send S c)"
    and wake_recv: "\<not> cs_waits_send S c \<Longrightarrow> co_idle S (cs_wake_recv S c)"
    and wake_send: "\<not> cs_waits_recv S c \<Longrightarrow> co_idle S (cs_wake_send S c)"
    and own: "co_conn.more c = co_conn.more d \<Longrightarrow>
      cs_waits_recv S c = cs_waits_recv S d \<and> cs_waits_send S c = cs_waits_send S d"

section \<open>The invariant\<close>

definition co_mask :: u32 where "co_mask = EPOLLIN OR EPOLLOUT OR EPOLLET"

fun point_ok :: "co_point \<Rightarrow> bool" where
  "point_ok (Send_Point have_sent size' ret) = (have_sent \<le> size' \<and> size' \<le> co_buf_size)"
| "point_ok _ = True"

text \<open>The echo equation of a connection whose coroutine is at a point.\<close>

definition co_echo :: "co_point \<Rightarrow> 'x co_conn_scheme \<Rightarrow> 'k world \<Rightarrow> bool" where
  "co_echo pt c w \<longleftrightarrow>
    length (co_buffer c) = co_buf_size \<and> point_ok pt \<and> interest (w_trace w) (co_fd c) = Some co_mask \<and>
    sent_on (co_fd c) (w_trace w) @ unsent pt (co_buffer c) = received_on (co_fd c) (w_trace w)"

text \<open>The coroutine runs.\<close>

definition co_live :: "('x co_conn_scheme) co_sync \<Rightarrow> co_point \<Rightarrow> 'x co_conn_scheme \<Rightarrow> 'k world \<Rightarrow> bool" where
  "co_live S pt c w \<longleftrightarrow> co_idle S c \<and> \<not> co_exited c \<and> co_echo pt c w"

text \<open>The coroutine is suspended, for what it waits, or it has exited.\<close>

fun waits_at :: "('x co_conn_scheme) co_sync \<Rightarrow> 'x co_conn_scheme \<Rightarrow> co_point \<Rightarrow> bool" where
  "waits_at S c Recv_Point = (cs_waits_recv S c \<and> \<not> cs_waits_send S c)"
| "waits_at S c (Send_Point have_sent size' ret) = (have_sent < size' \<and> cs_waits_send S c \<and> \<not> cs_waits_recv S c)"
| "waits_at S c End_Point = False"

definition co_parked :: "('x co_conn_scheme) co_sync \<Rightarrow> 'x co_conn_scheme \<Rightarrow> 'k world \<Rightarrow> bool" where
  "co_parked S c w \<longleftrightarrow> co_echo (co_saved c) c w \<and>
    (if co_exited c then co_idle S c \<and> co_saved c = End_Point else waits_at S c (co_saved c))"

text \<open>The last system call was the one the coroutine waits for, and the kernel answered "try again".\<close>

fun refused_at :: "('k, 'z) kernel_scheme \<Rightarrow> int \<Rightarrow> 'k world \<Rightarrow> co_point \<Rightarrow> bool" where
  "refused_at K fd w Recv_Point \<longleftrightarrow> (\<exists>s e. k_recv K fd co_buf_size s = (RecvErr e, w_os w) \<and> again e)"
| "refused_at K fd w (Send_Point have_sent size' ret) \<longleftrightarrow> (\<exists>bs s e. bs \<noteq> [] \<and> k_send K fd bs s = (SendErr e, w_os w) \<and> again e)"
| "refused_at K fd w End_Point \<longleftrightarrow> True"

definition next_ok :: "('k, 'z) kernel_scheme \<Rightarrow> ('x co_conn_scheme) co_sync \<Rightarrow> int \<Rightarrow> 'k world \<Rightarrow>
    ('x co_conn_scheme, 'k) co_next \<Rightarrow> bool" where
  "next_ok K S fd w nx \<longleftrightarrow>
    (case nx of
      Switch c1 w1 \<Rightarrow> co_parked S c1 w1 \<and> refused_at K fd w1 (co_saved c1) \<and> co_fd c1 = fd \<and> only_on fd w w1
    | Continue pt1 c1 w1 \<Rightarrow> co_live S pt1 c1 w1 \<and> co_fd c1 = fd \<and> only_on fd w w1)"

lemma co_echoD:
  assumes "co_echo pt c w"
  shows "length (co_buffer c) = co_buf_size" "point_ok pt" "interest (w_trace w) (co_fd c) = Some co_mask"
    "sent_on (co_fd c) (w_trace w) @ unsent pt (co_buffer c) = received_on (co_fd c) (w_trace w)"
  using assms by (simp_all add: co_echo_def)

text \<open>What a receive and a send do to the echo equation.\<close>

lemma co_echo_quiet: "co_echo pt c w \<Longrightarrow> w_trace w' = w_trace w \<Longrightarrow> co_echo pt c w'"
  by (simp add: co_echo_def)

lemma co_echo_base: "co_echo pt c w \<Longrightarrow> same_base d c \<Longrightarrow> co_echo pt d w"
  by (simp add: co_echo_def same_base_def)

lemma co_echo_recv:
  assumes "co_echo Recv_Point c w" "length bs \<le> co_buf_size" "w_trace w' = w_trace w @ [Recvd (co_fd c) bs]"
  shows "co_echo (Send_Point 0 (length bs) 0) (c\<lparr>co_buffer := bs @ drop (length bs) (co_buffer c)\<rparr>) w'"
  using assms by (simp add: co_echo_def)

lemma co_echo_send:
  assumes "co_echo (Send_Point h n r) c w" "h < n" "k \<le> n - h"
    and "w_trace w' = w_trace w @ [Sent (co_fd c) (take k (take (n - h) (drop h (co_buffer c))))]"
  shows "co_echo (Send_Point (h + k) n r') c w'"
proof -
  let ?u = "take (n - h) (drop h (co_buffer c))"
  have "take (n - (h + k)) (drop (h + k) (co_buffer c)) = drop k ?u"
    using assms(2,3) by (simp add: drop_take add.commute)
  then have "take k ?u @ unsent (Send_Point (h + k) n r') (co_buffer c) = ?u"
    by (simp del: take_take)
  then show ?thesis
    using assms(1,2,3,4) by (simp add: co_echo_def del: unsent.simps) (simp add: co_echo_def)
qed

definition run_ok :: "('k, 'z) kernel_scheme \<Rightarrow> ('x co_conn_scheme) co_sync \<Rightarrow> int \<Rightarrow> 'k world \<Rightarrow>
    'x co_conn_scheme \<times> 'k world \<Rightarrow> bool" where
  "run_ok K S fd w = (\<lambda>(c', w'). co_parked S c' w' \<and> refused_at K fd w' (co_saved c') \<and> co_fd c' = fd \<and> only_on fd w w')"

text \<open>From one pass to a whole run, which ends with a switch.\<close>

lemma run_by_pass:
  assumes pass: "\<And>pt c w. co_live S pt c w \<Longrightarrow> next_ok K S (co_fd c) w (co_pass K S pt c w)"
    and "co_run K S pt c w = Some y" "co_live S pt c w"
  shows "run_ok K S (co_fd c) w y"
proof -
  have "K' = K \<and> S' = S \<and> co_live S pt c w \<longrightarrow> run_ok K S (co_fd c) w y" if "co_run K' S' pt c w = Some y" for K' S' pt c w y
    using that
  proof (rule co_run.raw_induct [rotated], intro impI, elim conjE)
    fix f K' S' pt c w y
    assume IH: "\<And>K' S' pt c w y. f K' S' pt c w = Some y \<Longrightarrow>
        K' = K \<and> S' = S \<and> co_live S pt c w \<longrightarrow> run_ok K S (co_fd c) w y"
      and body: "(case co_pass K' S' pt c w of Switch c1 w1 \<Rightarrow> Some (c1, w1) | Continue pt1 c1 w1 \<Rightarrow> f K' S' pt1 c1 w1) = Some y"
      and eq: "K' = K" "S' = S" and live: "co_live S pt c w"
    note nx = pass [OF live]
    show "run_ok K S (co_fd c) w y"
    proof (cases "co_pass K S pt c w")
      case (Switch c1 w1)
      then show ?thesis
        using nx body eq by (auto simp: next_ok_def run_ok_def)
    next
      case (Continue pt1 c1 w1)
      then have f: "f K S pt1 c1 w1 = Some y" and c1: "co_live S pt1 c1 w1" "co_fd c1 = co_fd c" "only_on (co_fd c) w w1"
        using nx body eq by (simp_all add: next_ok_def)
      then have "run_ok K S (co_fd c) w1 y"
        using IH [OF f] by simp
      then show ?thesis
        using only_on_trans [OF c1(3)] by (auto simp: run_ok_def)
    qed
  qed
  then show ?thesis using assms(2,3) by blast
qed

context co_waiting
begin

lemma idle_cong: "co_conn.more c = co_conn.more d \<Longrightarrow> co_idle S c = co_idle S d"
  using own [of c d] by (simp add: co_idle_def)

lemma await_recv_ok:
  assumes K: "kernel_ok K" and live: "co_live S Recv_Point c w"
  shows "next_ok K S (co_fd c) w (await_recv K S c w)"
proof -
  have c: "co_idle S c" "\<not> co_exited c" "co_echo Recv_Point c w"
    using live by (simp_all add: co_live_def)
  obtain res w1 where sys: "sys_recv K (co_fd c) co_buf_size w = (res, w1)"
    by (cases "sys_recv K (co_fd c) co_buf_size w") auto
  have only: "only_on (co_fd c) w w1" by (rule sys_recv_only [OF sys])
  from K sys show ?thesis
  proof (cases rule: sys_recv_cases)
    case (data bs)
    have "co_live S (Send_Point 0 (length bs) 0) (c\<lparr>co_buffer := bs @ drop (length bs) (co_buffer c)\<rparr>) w1"
      using co_echo_recv [OF c(3) data(2,3)] c(1,2) idle_cong [of "c\<lparr>co_buffer := bs @ drop (length bs) (co_buffer c)\<rparr>" c]
      by (simp add: co_live_def)
    moreover have "co_live S End_Point c w1" if "bs = []"
      using c that data(3) by (simp add: co_live_def co_echo_def)
    ultimately show ?thesis
      using sys data(1) only by (simp add: await_recv_def next_ok_def)
  next
    case (error e)
    let ?c = "c\<lparr>co_saved := Recv_Point\<rparr>"
    have "co_idle S ?c" using c(1) idle_cong [of ?c c] by simp
    then have waits: "cs_waits_recv S (cs_wait_recv S ?c)" "\<not> cs_waits_send S (cs_wait_recv S ?c)"
      using wait_recv by blast+
    have same: "same_base (cs_wait_recv S ?c) ?c" by (rule base(1))
    have "co_echo Recv_Point ?c w1"
      using co_echo_quiet [OF c(3) error(2)] by (simp add: co_echo_def)
    then have echo: "co_echo Recv_Point (cs_wait_recv S ?c) w1"
      using same by (rule co_echo_base)
    have "co_parked S (cs_wait_recv S ?c) w1"
      using echo waits same c(2) by (simp add: co_parked_def same_base_def)
    moreover have "refused_at K (co_fd c) w1 Recv_Point" if "again e"
      using error(3) that by auto
    moreover have "co_live S End_Point c w1"
      using c error(2) by (simp add: co_live_def co_echo_def)
    ultimately show ?thesis
      using sys error(1) only same by (simp add: await_recv_def next_ok_def same_base_def del: refused_at.simps)
  qed
qed

lemma await_send_ok:
  assumes K: "kernel_ok K" and live: "co_live S (Send_Point h n r) c w"
  shows "next_ok K S (co_fd c) w (await_send K S h n r c w)"
proof -
  have c: "co_idle S c" "\<not> co_exited c" "co_echo (Send_Point h n r) c w"
    using live by (simp_all add: co_live_def)
  show ?thesis
  proof (cases "h < n")
    case False
    then have "co_echo Recv_Point c w" "co_echo End_Point c w"
      using c(3) by (simp_all add: co_echo_def)
    then show ?thesis
      using False c(1,2) by (simp add: await_send_def next_ok_def co_live_def)
  next
    case True
    let ?bs = "take (n - h) (drop h (co_buffer c))"
    have len: "length ?bs = n - h"
      using co_echoD(1,2) [OF c(3)] by (auto simp: min_def)
    obtain res w1 where sys: "sys_send K (co_fd c) ?bs w = (res, w1)"
      by (cases "sys_send K (co_fd c) ?bs w") auto
    have only: "only_on (co_fd c) w w1" by (rule sys_send_only [OF sys])
    from K sys show ?thesis
    proof (cases rule: sys_send_cases)
      case (sent k)
      have "co_live S (Send_Point (h + k) n r) c w1"
        using co_echo_send [OF c(3) True _ sent(3)] sent(2) len c(1,2) by (simp add: co_live_def)
      then show ?thesis
        using sys sent(1) only True by (simp add: await_send_def next_ok_def)
    next
      case (error e)
      let ?p = "Send_Point h n r" and ?c = "c\<lparr>co_saved := Send_Point h n r\<rparr>"
      have "co_idle S ?c" using c(1) idle_cong [of ?c c] by simp
      then have waits: "cs_waits_send S (cs_wait_send S ?c)" "\<not> cs_waits_recv S (cs_wait_send S ?c)"
        using wait_send by blast+
      have same: "same_base (cs_wait_send S ?c) ?c" by (rule base(2))
      have "co_echo ?p ?c w1"
        using co_echo_quiet [OF c(3) error(2)] by (simp add: co_echo_def)
      then have echo: "co_echo ?p (cs_wait_send S ?c) w1"
        using same by (rule co_echo_base)
      have "co_parked S (cs_wait_send S ?c) w1"
        using echo waits same c(2) True by (simp add: co_parked_def same_base_def)
      moreover have "refused_at K (co_fd c) w1 ?p" if "again e"
      proof -
        have "?bs \<noteq> []" using len True by auto
        then show ?thesis using error(3) that unfolding refused_at.simps by blast
      qed
      moreover have "co_live S (Send_Point h n (-1)) c w1"
        using c error(2) by (simp add: co_live_def co_echo_def)
      ultimately show ?thesis
        using sys error(1) only same True by (simp add: await_send_def next_ok_def same_base_def del: refused_at.simps)
    qed
  qed
qed

lemma co_pass_ok:
  assumes "kernel_ok K" "co_live S pt c w"
  shows "next_ok K S (co_fd c) w (co_pass K S pt c w)"
proof (cases pt)
  case End_Point
  let ?c = "c\<lparr>co_exited := True, co_saved := End_Point\<rparr>"
  have "co_idle S ?c"
    using assms(2) idle_cong [of ?c c] by (simp add: co_live_def)
  then show ?thesis
    using assms(2) End_Point by (simp add: next_ok_def co_parked_def co_live_def co_echo_def)
qed (use assms await_recv_ok await_send_ok in simp_all)

lemma co_run_ok:
  assumes "kernel_ok K" "co_live S pt c w" "co_run K S pt c w = Some (c', w')"
  shows "co_parked S c' w'" "refused_at K (co_fd c) w' (co_saved c')" "co_fd c' = co_fd c" "only_on (co_fd c) w w'"
  using run_by_pass [OF co_pass_ok [OF assms(1)] assms(3,2)] by (simp_all add: run_ok_def)

text \<open>A start, and a resumption, from a state that allows it.\<close>

lemma co_start_ok:
  assumes "kernel_ok K" "co_live S Recv_Point (cs_start S c) w" "co_start K S (c, w) = Some (c', w')"
  shows "co_parked S c' w'" "refused_at K (co_fd (cs_start S c)) w' (co_saved c')"
    "co_fd c' = co_fd (cs_start S c)" "only_on (co_fd (cs_start S c)) w w'"
  using co_run_ok [OF assms(1,2), of c' w'] assms(3) by (simp_all add: co_start_def)

lemma waits_live:
  assumes "co_parked S c w"
  shows "cs_waits_recv S c \<Longrightarrow> co_live S (co_saved c) (cs_wake_recv S c) w"
    "cs_waits_send S c \<Longrightarrow> co_live S (co_saved c) (cs_wake_send S c) w"
proof -
  have echo: "co_echo (co_saved c) c w" using assms by (simp add: co_parked_def)
  have not_exited: "\<not> co_exited c \<and> waits_at S c (co_saved c)" if "\<not> co_idle S c"
    using assms that by (auto simp: co_parked_def split: if_splits)
  show "co_live S (co_saved c) (cs_wake_recv S c) w" if w: "cs_waits_recv S c"
  proof -
    have "\<not> cs_waits_send S c" "\<not> co_exited c"
      using not_exited w by (cases "co_saved c"; simp add: co_idle_def)+
    then show ?thesis
      using wake_recv co_echo_base [OF echo base(3)] base(3) [of c] by (simp add: co_live_def same_base_def)
  qed
  show "co_live S (co_saved c) (cs_wake_send S c) w" if w: "cs_waits_send S c"
  proof -
    have "\<not> cs_waits_recv S c" "\<not> co_exited c"
      using not_exited w by (cases "co_saved c"; simp add: co_idle_def)+
    then show ?thesis
      using wake_send co_echo_base [OF echo base(4)] base(4) [of c] by (simp add: co_live_def same_base_def)
  qed
qed

definition stays_ok :: "('k, 'z) kernel_scheme \<Rightarrow> 'x co_conn_scheme \<times> 'k world \<Rightarrow> 'x co_conn_scheme \<times> 'k world \<Rightarrow> bool" where
  "stays_ok K = (\<lambda>(c, w) (c', w').
    co_parked S c' w' \<and> co_fd c' = co_fd c \<and> only_on (co_fd c) w w' \<and>
    (refused_at K (co_fd c) w (co_saved c) \<longrightarrow> refused_at K (co_fd c) w' (co_saved c')))"

lemma stays_trans: "stays_ok K s s1 \<Longrightarrow> stays_ok K s1 s2 \<Longrightarrow> stays_ok K s s2"
  by (auto simp: stays_ok_def intro: only_on_trans split: prod.splits)

lemma co_resume_ok:
  assumes K: "kernel_ok K" and parked: "co_parked S c w"
    and "(waits, wake) \<in> {(cs_waits_recv S, cs_wake_recv S), (cs_waits_send S, cs_wake_send S)}"
    and run: "co_resume K S waits wake (c, w) = Some (stop, s')"
  shows "stays_ok K (c, w) s'"
proof (cases "waits c")
  case False
  then show ?thesis
    using run parked by (auto simp: co_resume_def stays_ok_def)
next
  case True
  then have live: "co_live S (co_saved c) (wake c) w" and fd: "co_fd (wake c) = co_fd c"
    using assms(3) waits_live [OF parked] base(3,4) [of c] by (auto simp: same_base_def)
  obtain c' w' where s': "s' = (c', w')" by (cases s')
  then have "co_run K S (co_saved c) (wake c) w = Some (c', w')"
    using run True by (auto simp: co_resume_def)
  from co_run_ok [OF K live this] show ?thesis
    by (simp add: stays_ok_def s' fd)
qed

lemma co_handle_ok:
  assumes K: "kernel_ok K" and parked: "co_parked S c w" and run: "co_handle K S ev (c, w) = Some (ret, s')"
  shows "stays_ok K (c, w) s'"
proof (cases "has ev (NOT (EPOLLIN OR EPOLLOUT))")
  case True
  then show ?thesis using run parked by (auto simp: co_handle_def stays_ok_def)
next
  case False
  define first where "first = (if has ev EPOLLOUT then co_resume K S (cs_waits_send S) (cs_wake_send S) (c, w) else Some (False, c, w))"
  obtain stop s1 where s1: "first = Some (stop, s1)"
    using run False by (auto simp: co_handle_def first_def [symmetric] split: option.splits)
  obtain c1 w1 where c1: "s1 = (c1, w1)" by (cases s1)
  have 1: "stays_ok K (c, w) (c1, w1)"
    using s1 co_resume_ok [OF K parked, of "cs_waits_send S" "cs_wake_send S" stop s1] parked
    by (auto simp: first_def c1 stays_ok_def split: if_splits)
  then have parked1: "co_parked S c1 w1" by (simp add: stays_ok_def)
  show ?thesis
  proof (cases stop)
    case True
    then show ?thesis
      using run False s1 1 c1 by (simp add: co_handle_def first_def [symmetric])
  next
    case go: False
    define second where "second = (if has ev EPOLLIN then co_resume K S (cs_waits_recv S) (cs_wake_recv S) (c1, w1) else Some (False, c1, w1))"
    obtain stop2 where s2: "second = Some (stop2, s')"
      using run False s1 go c1 by (auto simp: co_handle_def first_def [symmetric] second_def [symmetric] split: option.splits)
    have "stays_ok K (c1, w1) s'"
      using s2 co_resume_ok [OF K parked1, of "cs_waits_recv S" "cs_wake_recv S" stop2 s'] parked1
      by (auto simp: second_def stays_ok_def split: if_splits)
    with 1 show ?thesis by (rule stays_trans)
  qed
qed

lemma co_deliver_ok:
  assumes "kernel_ok K"
  shows "co_parked S c w \<Longrightarrow> co_deliver K S evs (c, w) = Some (ret, s') \<Longrightarrow> stays_ok K (c, w) s'"
proof (induction evs arbitrary: c w)
  case Nil
  then show ?case by (auto simp: stays_ok_def)
next
  case (Cons ev evs)
  obtain r c1 w1 where h: "co_handle K S ev (c, w) = Some (r, c1, w1)"
    using Cons.prems(2) by (auto split: option.splits)
  note 1 = co_handle_ok [OF assms Cons.prems(1) h]
  show ?case
  proof (cases "r < 0")
    case True
    then show ?thesis using 1 Cons.prems(2) h by simp
  next
    case False
    then have "stays_ok K (c1, w1) s'"
      using Cons.IH [of c1 w1] Cons.prems(2) h 1 by (simp add: stays_ok_def)
    with 1 show ?thesis by (rule stays_trans)
  qed
qed

text \<open>A connection from its construction on.\<close>

lemma co_session_ok:
  assumes K: "kernel_ok K" and fresh: "co_live S Recv_Point (cs_start S c) w" and fd: "co_fd (cs_start S c) = co_fd c"
    and run: "co_session K S evs (c, w) = Some (ret, c', w')"
  shows "co_parked S c' w'" "refused_at K (co_fd c) w' (co_saved c')" "co_fd c' = co_fd c"
proof -
  obtain c1 w1 where s: "co_start K S (c, w) = Some (c1, w1)" and d: "co_deliver K S evs (c1, w1) = Some (ret, c', w')"
    using run by (auto simp: co_session_def split: option.splits)
  note 1 = co_start_ok [OF K fresh s]
  show "co_parked S c' w'" "refused_at K (co_fd c) w' (co_saved c')" "co_fd c' = co_fd c"
    using co_deliver_ok [OF K 1(1) d] 1(2,3) fd by (simp_all add: stays_ok_def)
qed

text \<open>A coroutine that nobody waits for is never entered again.\<close>

lemma idle_ignores:
  assumes "co_idle S c" "\<And>ev. ev \<in> set evs \<Longrightarrow> \<not> has ev (NOT (EPOLLIN OR EPOLLOUT))"
  shows "co_deliver K S evs (c, w) = Some (0, c, w)"
proof -
  have "\<not> cs_waits_recv S c" "\<not> cs_waits_send S c"
    using assms(1) by (simp_all add: co_idle_def)
  then show ?thesis
    using assms(2) by (induction evs) (simp_all add: co_handle_def co_resume_def)
qed

text \<open>The first receive finds the end of the stream, or an error: the coroutine exits in \<^verbatim>\<open>start\<close>.\<close>

lemma session_exits:
  assumes "k_recv K fd co_buf_size (w_os w) = (res, s1)" "res = RecvData [] \<or> (\<exists>e. res = RecvErr e \<and> \<not> again e)"
    and "\<And>ev. ev \<in> set evs \<Longrightarrow> \<not> has ev (NOT (EPOLLIN OR EPOLLOUT))"
    and "co_fd (cs_start S c) = fd" "co_idle S (cs_start S c)" "interest (w_trace w) fd = Some m"
  shows "map_option (\<lambda>(ret, c, w'). (ret, co_exited c, interest (w_trace w') fd)) (co_session K S evs (c, w)) = Some (0, True, Some m)"
proof -
  let ?c = "(cs_start S c)\<lparr>co_exited := True, co_saved := End_Point\<rparr>"
  obtain w1 where sys: "sys_recv K fd co_buf_size w = (res, w1)" "interest (w_trace w1) fd = Some m"
    using assms(1,2,6) by (auto simp: sys_recv_def)
  then have "await_recv K S (cs_start S c) w = Continue End_Point (cs_start S c) w1"
    using assms(2,4) by (auto simp: await_recv_def)
  then have "co_start K S (c, w) = Some (?c, w1)"
    unfolding co_start_def by (simp add: co_run.simps [of K S Recv_Point] co_run.simps [of K S End_Point])
  moreover have "co_idle S ?c"
    using assms(5) idle_cong [of ?c "cs_start S c"] by simp
  ultimately show ?thesis
    using idle_ignores [OF _ assms(3), where c = ?c and K = K and w = w1] sys(2) by (simp add: co_session_def)
qed

end

section \<open>Whether the event loop gets control back\<close>

text \<open>
  The kernel runs out of answers on a descriptor: every receive that yields data and every send that it does
  not refuse with "try again" takes it closer to answering "try again".
\<close>

definition co_drains :: "('k, 'z) kernel_scheme \<Rightarrow> int \<Rightarrow> ('k \<Rightarrow> nat) \<Rightarrow> bool" where
  "co_drains K fd rank \<longleftrightarrow>
    (\<forall>n s bs s'. k_recv K fd n s = (RecvData bs, s') \<longrightarrow> bs \<noteq> [] \<longrightarrow> rank s' < rank s) \<and>
    (\<forall>bs s res s'. k_send K fd bs s = (res, s') \<longrightarrow> (\<forall>e. res = SendErr e \<longrightarrow> \<not> again e) \<longrightarrow> rank s' < rank s)"

lemma co_drains_recv: "co_drains K fd rank \<Longrightarrow> k_recv K fd n s = (RecvData bs, s') \<Longrightarrow> bs \<noteq> [] \<Longrightarrow> rank s' < rank s"
  and co_drains_send: "co_drains K fd rank \<Longrightarrow> k_send K fd bs s = (res, s') \<Longrightarrow> (\<And>e. res = SendErr e \<Longrightarrow> \<not> again e) \<Longrightarrow> rank s' < rank s"
  unfolding co_drains_def by blast+

fun pass_rank :: "('k \<Rightarrow> nat) \<Rightarrow> co_point \<Rightarrow> 'k world \<Rightarrow> nat" where
  "pass_rank rank End_Point w = 0"
| "pass_rank rank Recv_Point w = 2 * rank (w_os w) + 1"
| "pass_rank rank (Send_Point h n r) w = 2 * rank (w_os w) + 2"

lemma pass_rank_decreases:
  assumes "co_drains K (co_fd c) rank" "co_pass K S pt c w = Continue pt1 c1 w1"
  shows "pass_rank rank pt1 w1 < pass_rank rank pt w \<and> co_fd c1 = co_fd c"
proof (cases pt)
  case Recv_Point
  then show ?thesis
    using assms(2) co_drains_recv [OF assms(1)]
    by (fastforce simp: await_recv_def sys_recv_def split: if_splits prod.splits recv_res.splits)
next
  case (Send_Point h n r)
  then show ?thesis
    using assms(2) co_drains_send [OF assms(1)]
    by (fastforce simp: await_send_def sys_send_def split: if_splits prod.splits send_res.splits)
qed (use assms in simp)

lemma co_run_returns:
  assumes "co_drains K (co_fd c) rank"
  shows "\<exists>s'. co_run K S pt c w = Some s'"
  using assms
proof (induction "pass_rank rank pt w" arbitrary: pt c w rule: less_induct)
  case less
  show ?case
  proof (cases "co_pass K S pt c w")
    case (Switch c1 w1)
    then show ?thesis by (subst co_run.simps) simp
  next
    case (Continue pt1 c1 w1)
    then show ?thesis
      using pass_rank_decreases [OF less.prems Continue] less.hyps [of pt1 w1 c1] less.prems
      by (subst co_run.simps) simp
  qed
qed

lemma co_handle_returns:
  assumes K: "\<And>fd. co_drains K fd (rank fd)"
  shows "co_handle K S ev (c, w) \<noteq> None"
proof -
  have run: "co_run K S pt c w \<noteq> None" for pt c w
    using co_run_returns [OF K] by (metis option.distinct(1))
  have resume: "\<exists>stop c' w'. co_resume K S waits wake s = Some (stop, c', w')" for waits wake s
    using run by (cases s) (auto simp: co_resume_def)
  show ?thesis
    using resume by (auto simp: co_handle_def split: option.splits) (metis option.distinct(1))+
qed

lemma co_session_returns:
  assumes K: "\<And>fd. co_drains K fd (rank fd)"
  shows "co_session K S evs s \<noteq> None"
proof -
  have "co_deliver K S evs s \<noteq> None" for s
  proof (induction evs arbitrary: s)
    case (Cons ev evs)
    obtain r s1 where "co_handle K S ev s = Some (r, s1)"
      using co_handle_returns [OF K, of S ev "fst s" "snd s"] by auto
    then show ?case using Cons.IH [of s1] by simp
  qed simp
  moreover have "co_start K S s \<noteq> None"
    using co_run_returns [OF K] by (cases s) (auto simp: co_start_def)
  ultimately show ?thesis
    by (auto simp: co_session_def split: option.splits)
qed

lemma more_eq:
  "co_conn.more (c :: ctx_conn) = co_conn.more d \<Longrightarrow> cx_wait_status c = cx_wait_status d"
  "co_conn.more (a :: sem_conn) = co_conn.more b \<Longrightarrow> sm_recv a = sm_recv b \<and> sm_send a = sm_send b"
  by (cases c; cases d; simp) (cases a; cases b; simp)

interpretation ctx: co_waiting ctx_sync
  by unfold_locales (auto simp: ctx_sync_def same_base_def co_idle_def dest: more_eq(1))

interpretation sem: co_waiting sem_sync
  by unfold_locales (auto simp: sem_sync_def same_base_def co_idle_def co_sem_wait_def co_sem_post_def dest: more_eq(2))

lemma fresh_live:
  assumes "length junk = co_buf_size"
  shows "ctx_new junk x st fd epfd w = (c, w1) \<Longrightarrow> co_live ctx_sync Recv_Point (cs_start ctx_sync c) w1 \<and>
      co_fd (cs_start ctx_sync c) = co_fd c \<and> co_fd c = fd"
    "sem_new junk fd epfd w = (d, w2) \<Longrightarrow> co_live sem_sync Recv_Point (cs_start sem_sync d) w2 \<and>
      co_fd (cs_start sem_sync d) = co_fd d \<and> co_fd d = fd"
  using assms by (auto simp: ctx_new_def sem_new_def co_live_def co_idle_def co_echo_def ctx_sync_def sem_sync_def
      co_sem_new_def co_mask_def)

section \<open>The two programs do the same\<close>

text \<open>A pass in one program and in the other: the same system calls, and related connections.\<close>

fun next_rel :: "('c \<Rightarrow> 'd \<Rightarrow> bool) \<Rightarrow> ('c \<Rightarrow> 'd \<Rightarrow> bool) \<Rightarrow> ('c, 'k) co_next \<Rightarrow> ('d, 'k) co_next \<Rightarrow> bool" where
  "next_rel R Q (Switch c w) (Switch d v) \<longleftrightarrow> Q c d \<and> w = v"
| "next_rel R Q (Continue pt c w) (Continue qt d v) \<longleftrightarrow> R c d \<and> pt = qt \<and> w = v"
| "next_rel R Q _ _ \<longleftrightarrow> False"

lemma run_simulates:
  assumes pass: "\<And>pt c d w. R c d \<Longrightarrow> next_rel R Q (co_pass K S pt c w) (co_pass K T pt d w)"
    and "co_run K S pt c w = Some (c', w')" "R c d"
  shows "\<exists>d'. co_run K T pt d w = Some (d', w') \<and> Q c' d'"
proof -
  have "K' = K \<and> S' = S \<longrightarrow> (\<forall>d. R c d \<longrightarrow> (\<exists>d'. co_run K T pt d w = Some (d', snd y) \<and> Q (fst y) d'))"
    if "co_run K' S' pt c w = Some y" for K' S' pt c w y
    using that
  proof (rule co_run.raw_induct [rotated], intro impI allI, elim conjE)
    fix f K' S' pt c w y d
    assume IH: "\<And>K' S' pt c w y. f K' S' pt c w = Some y \<Longrightarrow>
        K' = K \<and> S' = S \<longrightarrow> (\<forall>d. R c d \<longrightarrow> (\<exists>d'. co_run K T pt d w = Some (d', snd y) \<and> Q (fst y) d'))"
      and body: "(case co_pass K' S' pt c w of Switch c1 w1 \<Rightarrow> Some (c1, w1) | Continue pt1 c1 w1 \<Rightarrow> f K' S' pt1 c1 w1) = Some y"
      and eq: "K' = K" "S' = S" and R: "R c d"
    note nx = pass [OF R, of pt w]
    show "\<exists>d'. co_run K T pt d w = Some (d', snd y) \<and> Q (fst y) d'"
    proof (cases "co_pass K S pt c w")
      case (Switch c1 w1)
      then show ?thesis
        using nx body eq by (subst co_run.simps) (cases "co_pass K T pt d w"; auto)
    next
      case (Continue pt1 c1 w1)
      then obtain d1 where d1: "co_pass K T pt d w = Continue pt1 d1 w1" "R c1 d1"
        using nx by (cases "co_pass K T pt d w") auto
      have "f K S pt1 c1 w1 = Some y" using body eq Continue by simp
      from IH [OF this] d1(2) obtain d' where "co_run K T pt1 d1 w1 = Some (d', snd y)" "Q (fst y) d'"
        by blast
      then show ?thesis
        using d1(1) by (subst co_run.simps) simp
    qed
  qed
  then show ?thesis using assms(2,3) by fastforce
qed

text \<open>The enumeration of one program and the semaphores of the other.\<close>

definition co_match :: "ctx_conn \<Rightarrow> sem_conn \<Rightarrow> bool" where
  "co_match c d \<longleftrightarrow> co_fd c = co_fd d \<and> co_buffer c = co_buffer d \<and> co_saved c = co_saved d \<and> co_exited c = co_exited d \<and>
    cm_waiting (sm_recv d) = (cx_wait_status c = Wait_Could_Recv) \<and> cm_waiting (sm_send d) = (cx_wait_status c = Wait_Could_Send)"

definition co_match_running :: "ctx_conn \<Rightarrow> sem_conn \<Rightarrow> bool" where
  "co_match_running c d \<longleftrightarrow> co_match c d \<and> cx_wait_status c = Status_Running"

lemma pass_match:
  assumes "co_match_running c d"
  shows "next_rel co_match_running co_match (co_pass K ctx_sync pt c w) (co_pass K sem_sync pt d w)"
    "next_rel (\<lambda>d c. co_match_running c d) (\<lambda>d c. co_match c d) (co_pass K sem_sync pt d w) (co_pass K ctx_sync pt c w)"
proof -
  show "next_rel co_match_running co_match (co_pass K ctx_sync pt c w) (co_pass K sem_sync pt d w)"
    using assms by (cases pt) (auto simp: co_match_running_def co_match_def await_recv_def await_send_def ctx_sync_def sem_sync_def
        co_sem_wait_def split: prod.splits recv_res.splits send_res.splits)
  then show "next_rel (\<lambda>d c. co_match_running c d) (\<lambda>d c. co_match c d) (co_pass K sem_sync pt d w) (co_pass K ctx_sync pt c w)"
    by (cases "co_pass K ctx_sync pt c w"; cases "co_pass K sem_sync pt d w") auto
qed

text \<open>Results that a user of the server cannot tell apart: the result of the handler and the world.\<close>

definition same_result :: "(ctx_conn \<times> 'k world) option \<Rightarrow> (sem_conn \<times> 'k world) option \<Rightarrow> bool" where
  "same_result = rel_option (\<lambda>(c, w) (d, v). co_match c d \<and> w = v)"

lemma run_match:
  assumes "co_match_running c d"
  shows "same_result (co_run K ctx_sync pt c w) (co_run K sem_sync pt d w)"
proof (cases "co_run K ctx_sync pt c w")
  case (Some y)
  then show ?thesis
    using run_simulates [OF pass_match(1), of K pt c w "fst y" "snd y" d] assms by (auto simp: same_result_def)
next
  case None
  then have "co_run K sem_sync pt d w \<noteq> Some y" for y
    using run_simulates [OF pass_match(2), of K pt d w "fst y" "snd y" c] assms by auto
  with None show ?thesis
    by (cases "co_run K sem_sync pt d w") (auto simp: same_result_def)
qed

definition same_outcome :: "('r \<times> ctx_conn \<times> 'k world) option \<Rightarrow> ('r \<times> sem_conn \<times> 'k world) option \<Rightarrow> bool" where
  "same_outcome = rel_option (\<lambda>(r, c, w) (q, d, v). r = q \<and> co_match c d \<and> w = v)"

lemma resume_match:
  assumes "co_match c d"
  shows "same_outcome (co_resume K ctx_sync (cs_waits_recv ctx_sync) (cs_wake_recv ctx_sync) (c, w))
      (co_resume K sem_sync (cs_waits_recv sem_sync) (cs_wake_recv sem_sync) (d, w))"
    "same_outcome (co_resume K ctx_sync (cs_waits_send ctx_sync) (cs_wake_send ctx_sync) (c, w))
      (co_resume K sem_sync (cs_waits_send sem_sync) (cs_wake_send sem_sync) (d, w))"
proof -
  have wake: "co_match_running (cs_wake_recv ctx_sync c) (cs_wake_recv sem_sync d)" if "cx_wait_status c = Wait_Could_Recv"
    using assms that by (simp add: co_match_running_def co_match_def ctx_sync_def sem_sync_def co_sem_post_def)
  have wake': "co_match_running (cs_wake_send ctx_sync c) (cs_wake_send sem_sync d)" if "cx_wait_status c = Wait_Could_Send"
    using assms that by (simp add: co_match_running_def co_match_def ctx_sync_def sem_sync_def co_sem_post_def)
  have waits: "cs_waits_recv sem_sync d = (cx_wait_status c = Wait_Could_Recv)" "cs_waits_recv ctx_sync c = (cx_wait_status c = Wait_Could_Recv)"
    "cs_waits_send sem_sync d = (cx_wait_status c = Wait_Could_Send)" "cs_waits_send ctx_sync c = (cx_wait_status c = Wait_Could_Send)"
    "co_saved d = co_saved c"
    using assms by (simp_all add: co_match_def ctx_sync_def sem_sync_def)
  show "same_outcome (co_resume K ctx_sync (cs_waits_recv ctx_sync) (cs_wake_recv ctx_sync) (c, w))
      (co_resume K sem_sync (cs_waits_recv sem_sync) (cs_wake_recv sem_sync) (d, w))"
    using assms run_match [OF wake, of K "co_saved c" w]
    by (auto simp: co_resume_def waits same_outcome_def same_result_def option.rel_map co_match_def elim!: option.rel_mono_strong)
  show "same_outcome (co_resume K ctx_sync (cs_waits_send ctx_sync) (cs_wake_send ctx_sync) (c, w))
      (co_resume K sem_sync (cs_waits_send sem_sync) (cs_wake_send sem_sync) (d, w))"
    using assms run_match [OF wake', of K "co_saved c" w]
    by (auto simp: co_resume_def waits same_outcome_def same_result_def option.rel_map co_match_def elim!: option.rel_mono_strong)
qed

lemma outcome_bind:
  assumes "same_outcome p q" "\<And>r c d w. co_match c d \<Longrightarrow> same_outcome (f r (c, w)) (g r (d, w))"
  shows "same_outcome (case p of None \<Rightarrow> None | Some (r, s) \<Rightarrow> f r s) (case q of None \<Rightarrow> None | Some (r, s) \<Rightarrow> g r s)"
proof (cases p)
  case None
  then have "q = None" using assms(1) by (auto simp: same_outcome_def elim: option.rel_cases)
  with None show ?thesis by (simp add: same_outcome_def)
next
  case (Some x)
  then obtain r c d w where "p = Some (r, c, w)" "q = Some (r, d, w)" "co_match c d"
    using assms(1) by (cases x) (auto simp: same_outcome_def elim: option.rel_cases)
  then show ?thesis using assms(2) by simp
qed

lemma outcome_Some: "same_outcome (Some (r, c, w)) (Some (q, d, v)) \<longleftrightarrow> r = q \<and> co_match c d \<and> w = v"
  by (simp add: same_outcome_def)

lemma handle_match:
  assumes "co_match c d"
  shows "same_outcome (co_handle K ctx_sync ev (c, w)) (co_handle K sem_sync ev (d, w))"
proof -
  have first: "same_outcome (if has ev m then co_resume K ctx_sync waits wake (c, w) else Some (False, c, w))
      (if has ev m then co_resume K sem_sync waits' wake' (d, w) else Some (False, d, w))"
    if "same_outcome (co_resume K ctx_sync waits wake (c, w)) (co_resume K sem_sync waits' wake' (d, w))" "co_match c d"
    for m waits wake waits' wake' c d w
    using that by (simp add: outcome_Some)
  have second: "same_outcome
      (case (if has ev EPOLLIN then co_resume K ctx_sync (cs_waits_recv ctx_sync) (cs_wake_recv ctx_sync) (c, w) else Some (False, c, w)) of
        None \<Rightarrow> None | Some (stop, s) \<Rightarrow> Some (if stop then - 1 else 0 :: int, s))
      (case (if has ev EPOLLIN then co_resume K sem_sync (cs_waits_recv sem_sync) (cs_wake_recv sem_sync) (d, w) else Some (False, d, w)) of
        None \<Rightarrow> None | Some (stop, s) \<Rightarrow> Some (if stop then - 1 else 0, s))" if "co_match c d" for c d w
    by (rule outcome_bind [OF first [OF resume_match(1) [OF that] that]]) (simp add: outcome_Some)
  show ?thesis
  proof (cases "has ev (NOT (EPOLLIN OR EPOLLOUT))")
    case True
    then show ?thesis using assms by (simp add: co_handle_def outcome_Some del: bit.de_Morgan_disj)
  next
    case False
    show ?thesis
      unfolding co_handle_def if_not_P [OF False]
      by (rule outcome_bind [OF first [OF resume_match(2) [OF assms] assms]])
        (use second in \<open>simp add: outcome_Some\<close>)
  qed
qed

lemma session_match:
  assumes "co_match_running (cs_start ctx_sync c) (cs_start sem_sync d)"
  shows "same_outcome (co_session K ctx_sync evs (c, w)) (co_session K sem_sync evs (d, w))"
proof -
  have deliver: "same_outcome (co_deliver K ctx_sync evs (c, w)) (co_deliver K sem_sync evs (d, w))" if "co_match c d" for c d w
    using that
  proof (induction evs arbitrary: c d w)
    case (Cons ev evs)
    have "same_outcome (if r < 0 then Some (r, c, w) else co_deliver K ctx_sync evs (c, w))
        (if r < 0 then Some (r, d, w) else co_deliver K sem_sync evs (d, w))" if "co_match c d" for r c d w
      using Cons.IH [OF that] that by (simp add: outcome_Some)
    then show ?case
      unfolding co_deliver.simps by (rule outcome_bind [OF handle_match [OF Cons.prems]])
  qed (simp add: outcome_Some)
  from run_match [OF assms, of K Recv_Point w] show ?thesis
    unfolding same_result_def
  proof (cases rule: option.rel_cases)
    case None
    then show ?thesis by (simp add: co_session_def co_start_def same_outcome_def)
  next
    case (Some x y)
    then obtain c1 d1 w1 where "x = (c1, w1)" "y = (d1, w1)" "co_match c1 d1" by (cases x; cases y) auto
    then show ?thesis using Some deliver by (simp add: co_session_def co_start_def)
  qed
qed

section \<open>What the programs promise\<close>

text \<open>C23: a coroutine connection echoes.  Through its start and any events, what a connection of the two
  programs has sent, followed by what its coroutine holds in its local variables, is exactly what it has
  received; and the coroutine always gives control back to the event loop when the kernel answers "try
  again" at some time.\<close>

theorem ucontext_echo_correct:
  assumes "kernel_ok K" "length junk = co_buf_size"
  shows "(\<forall>ret c w'. co_session K ctx_sync evs (ctx_new junk x st fd epfd w) = Some (ret, c, w') \<longrightarrow>
      sent_on fd (w_trace w') @ co_pending c = received_on fd (w_trace w')) \<and>
    (\<forall>ret c w'. co_session K sem_sync evs (sem_new junk fd epfd w) = Some (ret, c, w') \<longrightarrow>
      sent_on fd (w_trace w') @ co_pending c = received_on fd (w_trace w')) \<and>
    ((\<forall>g. co_drains K g (rank g)) \<longrightarrow>
      co_session K ctx_sync evs (ctx_new junk x st fd epfd w) \<noteq> None \<and>
      co_session K sem_sync evs (sem_new junk fd epfd w) \<noteq> None)"
proof -
  obtain c v where c: "ctx_new junk x st fd epfd w = (c, v)" by (cases "ctx_new junk x st fd epfd w")
  obtain d u where d: "sem_new junk fd epfd w = (d, u)" by (cases "sem_new junk fd epfd w")
  note fc = fresh_live(1) [OF assms(2) c] and fd = fresh_live(2) [OF assms(2) d]
  have "sent_on (co_fd c') (w_trace w') @ co_pending c' = received_on (co_fd c') (w_trace w')"
    if "co_parked S c' w'" for S and c' :: "'x co_conn_scheme" and w' :: "'a world"
    using that by (simp add: co_parked_def co_echo_def co_pending_def)
  then show ?thesis
    using ctx.co_session_ok [OF assms(1), of c v evs] sem.co_session_ok [OF assms(1), of d u evs] fc fd
      co_session_returns [of K rank]
    unfolding c d by (metis (no_types, lifting))
qed

text \<open>A coroutine that sleeps after the kernel refused what it wants.\<close>

definition co_armed :: "('k, 'z) kernel_scheme \<Rightarrow> ('x co_conn_scheme) co_sync \<Rightarrow> int \<Rightarrow> 'x co_conn_scheme \<Rightarrow> 'k world \<Rightarrow> bool" where
  "co_armed K S fd c w \<longleftrightarrow> interest (w_trace w) fd = Some (EPOLLIN OR EPOLLOUT OR EPOLLET) \<and>
    (cs_waits_recv S c \<and> \<not> cs_waits_send S c \<and> sent_on fd (w_trace w) = received_on fd (w_trace w) \<and>
       (\<exists>s e. k_recv K fd co_buf_size s = (RecvErr e, w_os w) \<and> again e) \<or>
     cs_waits_send S c \<and> \<not> cs_waits_recv S c \<and> co_pending c \<noteq> [] \<and>
       (\<exists>bs s e. bs \<noteq> [] \<and> k_send K fd bs s = (SendErr e, w_os w) \<and> again e))"

lemma parked_armed:
  assumes "co_parked S c w" "refused_at K fd w (co_saved c)" "\<not> co_exited c" "co_fd c = fd"
  shows "co_armed K S fd c w"
proof (cases "co_saved c")
  case Recv_Point
  then show ?thesis
    using assms by (auto simp: co_parked_def co_armed_def co_echo_def co_mask_def)
next
  case (Send_Point h n r)
  then have "co_pending c \<noteq> []"
    using assms by (auto simp: co_parked_def co_echo_def co_pending_def)
  moreover have "\<exists>bs s e. bs \<noteq> [] \<and> k_send K fd bs s = (SendErr e, w_os w) \<and> again e"
    using assms(2) Send_Point by simp
  ultimately show ?thesis
    using assms(1,3,4) Send_Point by (simp add: co_parked_def co_armed_def co_echo_def co_mask_def)
next
  case End_Point
  then show ?thesis using assms by (simp add: co_parked_def)
qed

text \<open>C24: no edge is lost.  Epoll reports an edge once, so a coroutine may only sleep after the kernel has refused
  the very call it sleeps for: after any events, a connection that has not exited is registered for
  both events, and it either waits to receive, with everything it received already sent, or waits to send
  what it holds, and its last call was that one and was answered "try again".\<close>

theorem ucontext_no_lost_edge:
  assumes "kernel_ok K" "length junk = co_buf_size"
  shows "(\<forall>ret c w'. co_session K ctx_sync evs (ctx_new junk x st fd epfd w) = Some (ret, c, w') \<longrightarrow>
      \<not> co_exited c \<longrightarrow> co_armed K ctx_sync fd c w') \<and>
    (\<forall>ret c w'. co_session K sem_sync evs (sem_new junk fd epfd w) = Some (ret, c, w') \<longrightarrow>
      \<not> co_exited c \<longrightarrow> co_armed K sem_sync fd c w')"
proof -
  obtain c v where c: "ctx_new junk x st fd epfd w = (c, v)" by (cases "ctx_new junk x st fd epfd w")
  obtain d u where d: "sem_new junk fd epfd w = (d, u)" by (cases "sem_new junk fd epfd w")
  note fc = fresh_live(1) [OF assms(2) c] and fd = fresh_live(2) [OF assms(2) d]
  show ?thesis
    using ctx.co_session_ok [OF assms(1), of c v evs] sem.co_session_ok [OF assms(1), of d u evs] fc fd
    unfolding c d by (metis parked_armed)
qed

text \<open>C25: the two programs are the same to a client.  On the same events and the same kernel, a connection with
  the enumeration and one with semaphores make the same system calls, answer the same results to the event
  loop, and when one of them does not return, neither does the other.\<close>

theorem ucontext_variants_equivalent:
  "map_option (\<lambda>(ret, c, w). (ret, co_exited c, co_pending c, w)) (co_session K ctx_sync evs (ctx_new junk x st fd epfd w)) =
    map_option (\<lambda>(ret, c, w). (ret, co_exited c, co_pending c, w)) (co_session K sem_sync evs (sem_new junk fd epfd w))"
proof -
  obtain c v where c: "ctx_new junk x st fd epfd w = (c, v)" by (cases "ctx_new junk x st fd epfd w")
  obtain d u where d: "sem_new junk fd epfd w = (d, u)" by (cases "sem_new junk fd epfd w")
  have "co_match_running (cs_start ctx_sync c) (cs_start sem_sync d)" "u = v"
    using c d by (auto simp: ctx_new_def sem_new_def ctx_sync_def sem_sync_def co_match_running_def co_match_def co_sem_new_def)
  then have "same_outcome (co_session K ctx_sync evs (c, v)) (co_session K sem_sync evs (d, u))"
    using session_match by simp
  then show ?thesis
    unfolding c d same_outcome_def
    by (cases rule: option.rel_cases) (auto simp: co_match_def co_pending_def)
qed

text \<open>A send that fails for good: \<^verbatim>\<open>await_send\<close> notes the error and tries again.\<close>

lemma send_spins:
  assumes broken: "\<And>bs s. \<exists>e s'. k_send K fd bs s = (SendErr e, s') \<and> \<not> again e" and "h < n" "co_fd c = fd"
  shows "co_run K S (Send_Point h n r) c w = None"
proof -
  have never: "K' = K \<and> S' = S \<and> co_fd c = fd \<and> (\<exists>r. pt = Send_Point h n r) \<longrightarrow> False"
    if "co_run K' S' pt c w = Some y" for K' S' pt c w y
    using that
  proof (rule co_run.raw_induct [rotated], intro impI, elim conjE exE)
    fix f K' S' pt c w y r
    assume IH: "\<And>K' S' pt c w y. f K' S' pt c w = Some y \<Longrightarrow>
        K' = K \<and> S' = S \<and> co_fd c = fd \<and> (\<exists>r. pt = Send_Point h n r) \<longrightarrow> False"
      and body: "(case co_pass K' S' pt c w of Switch c1 w1 \<Rightarrow> Some (c1, w1) | Continue pt1 c1 w1 \<Rightarrow> f K' S' pt1 c1 w1) = Some y"
      and eq: "K' = K" "S' = S" "co_fd c = fd" "pt = Send_Point h n r"
    obtain e s' where "k_send K fd (take (n - h) (drop h (co_buffer c))) (w_os w) = (SendErr e, s')" "\<not> again e"
      using broken by blast
    then have "f K S (Send_Point h n (-1)) c (w\<lparr>w_os := s'\<rparr>) = Some y"
      using body eq assms(2) by (simp add: await_send_def sys_send_def)
    from IH [OF this] eq(3) show False by simp
  qed
  show ?thesis
  proof (cases "co_run K S (Send_Point h n r) c w")
    case (Some y)
    from never [OF this] assms(3) show ?thesis by simp
  qed
qed

lemma session_spins:
  assumes "\<And>bs s. \<exists>e s'. k_send K fd bs s = (SendErr e, s') \<and> \<not> again e"
    and "k_recv K fd co_buf_size (w_os w) = (RecvData bs, s1)" "bs \<noteq> []" "co_fd (cs_start S c) = fd"
  shows "co_session K S evs (c, w) = None"
proof -
  have "co_run K S Recv_Point (cs_start S c) w = None"
    using assms(2-4)
    by (subst co_run.simps) (simp add: await_recv_def sys_recv_def send_spins [OF assms(1)])
  then show ?thesis by (simp add: co_session_def co_start_def)
qed


section \<open>Witnesses\<close>

text \<open>A peer that sends three bytes, takes one, then two; and a kernel on which every send fails.\<close>

definition co_world :: "script world" where
  "co_world = run_world [RecvData [1, 2, 3], RecvErr EAGAIN] [SendLen 1, SendErr EAGAIN, SendLen 2]"

definition co_events :: "u32 list" where "co_events = [EPOLLOUT, EPOLLIN]"

definition co_junk :: "byte list" where "co_junk = replicate 64 0"

definition reset_kernel :: "script kernel" where
  "reset_kernel = \<lparr>k_recv = script_recv, k_send = (\<lambda>fd bs s. (SendErr (EOTHER 104), s))\<rparr>"

lemma co_junk_length: "length co_junk = co_buf_size"
  by (simp add: co_junk_def co_buf_size_def)

lemma co_run_example:
  "map_option (\<lambda>(ret, c, w). (ret, co_exited c, co_pending c, sent_on 5 (w_trace w)))
    (co_session script_kernel ctx_sync co_events (ctx_new co_junk True Wait_Could_Send 5 4 co_world)) =
    Some (0, False, [], [1, 2, 3])"
  by code_simp

lemma co_run_example1:
  "map_option (\<lambda>(ret, c, w). (ret, co_exited c, co_pending c, sent_on 5 (w_trace w)))
    (co_session script_kernel sem_sync [EPOLLIN] (sem_new co_junk 5 4 co_world)) =
    Some (0, False, [2, 3], [1])"
  by code_simp

lemma script_drains: "co_drains script_kernel fd (\<lambda>(rs, ss). length rs + length ss)"
proof -
  have recv: "length (fst s') + length (snd s') < length (fst s) + length (snd s)"
    if "script_recv fd n s = (RecvData bs, s')" for n s bs s'
    using that by (induction fd n s rule: script_recv.induct) auto
  have send: "length (fst s') + length (snd s') < length (fst s) + length (snd s)"
    if "script_send fd bs s = (res, s')" "\<And>e. res = SendErr e \<Longrightarrow> \<not> again e" for bs s res s'
    using that by (induction fd bs s rule: script_send.induct) (auto simp: again_def)
  show ?thesis
    unfolding co_drains_def script_kernel_def by (auto dest!: recv send simp: split_beta)
qed

lemma ucontext_echo_correct_witness:
  "\<exists>c w. co_session script_kernel ctx_sync co_events (ctx_new co_junk True Wait_Could_Send 5 4 co_world) = Some (0, c, w) \<and>
    sent_on 5 (w_trace w) @ co_pending c = received_on 5 (w_trace w) \<and> sent_on 5 (w_trace w) = [1, 2, 3] \<and>
    co_session script_kernel sem_sync co_events (sem_new co_junk 5 4 co_world) \<noteq> None"
  using ucontext_echo_correct [OF script_kernel_ok co_junk_length, where rank = "\<lambda>_ (rs, ss). length rs + length ss"
      and fd = 5 and epfd = 4 and x = True and st = Wait_Could_Send and evs = co_events and w = co_world]
    script_drains co_run_example by (auto split: prod.splits)

lemma ucontext_no_lost_edge_witness:
  "\<exists>c w. co_session script_kernel sem_sync [EPOLLIN] (sem_new co_junk 5 4 co_world) = Some (0, c, w) \<and>
    co_armed script_kernel sem_sync 5 c w \<and> co_pending c = [2, 3]"
  using ucontext_no_lost_edge [OF script_kernel_ok co_junk_length, where fd = 5 and epfd = 4 and evs = "[EPOLLIN]" and w = co_world]
    co_run_example1 by (auto split: prod.splits)


end
