(* ===== verification/Ucontext_Server.thy ===== *)
theory Ucontext_Server
  imports Ucontext_Echo
begin

text \<open>
  The two coroutine programs as wholes: the acceptor, whose handler also starts the coroutine of the new
  connection, the event loop and \<^verbatim>\<open>main\<close>.  The heap of objects, the registrations and the faults are those of
  \<open>Event_Loop\<close>; the connection class obeys its interface \<open>handler_class\<close> when the kernel answers "try
  again" at some time, which is what the coroutines need to give control back.
\<close>

section \<open>The connection class\<close>

text \<open>\<^verbatim>\<open>new Connection\<close> and the assignments of \<^verbatim>\<open>start\<close>; its switch to the coroutine is in \<open>co_enter\<close>.\<close>

definition co_class :: "('k, 'z) kernel_scheme \<Rightarrow> ('x co_conn_scheme) co_sync \<Rightarrow>
    (int \<Rightarrow> int \<Rightarrow> 'k world \<Rightarrow> 'x co_conn_scheme \<times> 'k world) \<Rightarrow> ('x co_conn_scheme, 'k) conn_class" where
  "co_class K S new = \<lparr>cc_new = (\<lambda>fd epfd w. case new fd epfd w of (c, w1) \<Rightarrow> (cs_start S c, w1)),
    cc_handle = co_handle K S, cc_delete = co_delete, cc_fd = co_fd\<rparr>"

definition co_enter :: "('k, 'z) kernel_scheme \<Rightarrow> ('x co_conn_scheme) co_sync \<Rightarrow> nat \<Rightarrow> ('x co_conn_scheme, 'k) server \<Rightarrow>
    ('x co_conn_scheme, 'k) server option" where
  "co_enter K S p sv =
    (case sv_conns sv p of
      None \<Rightarrow> None
    | Some c \<Rightarrow> map_option (\<lambda>(c1, w1). sv\<lparr>sv_conns := (sv_conns sv)(p \<mapsto> c1), sv_world := w1\<rparr>)
        (co_run K S Recv_Point c (sv_world sv)))"

section \<open>The acceptor and the loop\<close>

definition co_acceptor_handle :: "('x co_conn_scheme, 'k) conn_class \<Rightarrow> ('k, 'z) net_kernel_scheme \<Rightarrow> ('x co_conn_scheme) co_sync \<Rightarrow>
    (('x co_conn_scheme, 'k) server \<Rightarrow> nat) \<Rightarrow> u32 \<Rightarrow> ('x co_conn_scheme, 'k) server \<Rightarrow>
    (int \<times> ('x co_conn_scheme, 'k) server) option" where
  "co_acceptor_handle C K S alloc ev sv =
    (if has ev (NOT EPOLLIN) then Some (-1, sv)
     else case k_accept K (sv_listen sv) (w_os (sv_world sv)) of
       (AcceptErr e, s) \<Rightarrow> Some (if again e then 0 else -1, sv\<lparr>sv_world := (sv_world sv)\<lparr>w_os := s\<rparr>\<rparr>)
     | (Accepted fd, s) \<Rightarrow>
         let sv1 = sv\<lparr>sv_world := (sv_world sv)\<lparr>w_os := s\<rparr>\<rparr>
         in map_option (Pair 0) (co_enter K S (alloc sv1) (make_connection C alloc fd sv1)))"

definition co_dispatch :: "('x co_conn_scheme, 'k) conn_class \<Rightarrow> ('k, 'z) net_kernel_scheme \<Rightarrow> ('x co_conn_scheme) co_sync \<Rightarrow>
    (('x co_conn_scheme, 'k) server \<Rightarrow> nat) \<Rightarrow> nat \<times> u32 \<Rightarrow> ('x co_conn_scheme, 'k) server \<Rightarrow>
    fault + ('x co_conn_scheme, 'k) server" where
  "co_dispatch C K S alloc = (\<lambda>(p, ev) sv.
    if p = sv_acceptor sv then
      (case co_acceptor_handle C K S alloc ev sv of
        None \<Rightarrow> Inl NoReturn
      | Some (ret, sv1) \<Rightarrow> if ret < 0 then Inl DeleteOfStackObject else Inr sv1)
    else dispatch_event C K alloc (p, ev) sv)"

inductive co_loop_step :: "('x co_conn_scheme, 'k) conn_class \<Rightarrow> ('k, 'z) net_kernel_scheme \<Rightarrow> ('x co_conn_scheme) co_sync \<Rightarrow>
    (('x co_conn_scheme, 'k) server \<Rightarrow> nat) \<Rightarrow> ('x co_conn_scheme, 'k) loop_state \<Rightarrow> ('x co_conn_scheme, 'k) loop_state \<Rightarrow> bool"
  for C K S alloc where
  wait: "epoll_batch_ok sv batch \<Longrightarrow> co_loop_step C K S alloc (Running sv []) (Running sv batch)"
| dispatch: "accept_fresh K sv \<Longrightarrow> co_dispatch C K S alloc e sv = Inr sv' \<Longrightarrow>
    co_loop_step C K S alloc (Running sv (e # es)) (Running sv' es)"
| fault: "accept_fresh K sv \<Longrightarrow> co_dispatch C K S alloc e sv = Inl f \<Longrightarrow>
    co_loop_step C K S alloc (Running sv (e # es)) (Crashed f)"

section \<open>\<^verbatim>\<open>server_epoll_et_ucontext.cpp\<close>\<close>

text \<open>The memory of a new object has the contents \<open>junk\<close>, \<open>exited\<close> and \<open>status\<close>.\<close>

definition ucontext_connection :: "('k, 'z) net_kernel_scheme \<Rightarrow> byte list \<Rightarrow> bool \<Rightarrow> wait_status \<Rightarrow> (ctx_conn, 'k) conn_class" where
  "ucontext_connection K junk exited status = co_class K ctx_sync (ctx_new junk exited status)"

definition ucontext_loop :: "('k, 'z) net_kernel_scheme \<Rightarrow> byte list \<Rightarrow> bool \<Rightarrow> wait_status \<Rightarrow> ((ctx_conn, 'k) server \<Rightarrow> nat) \<Rightarrow>
    (ctx_conn, 'k) loop_state \<Rightarrow> (ctx_conn, 'k) loop_state \<Rightarrow> bool" where
  "ucontext_loop K junk exited status alloc = co_loop_step (ucontext_connection K junk exited status) K ctx_sync alloc"

definition ucontext_main :: "('k, 'z) net_kernel_scheme \<Rightarrow> byte list \<Rightarrow> bool \<Rightarrow> wait_status \<Rightarrow> ((ctx_conn, 'k) server \<Rightarrow> nat) \<Rightarrow>
    main_env \<Rightarrow> string list \<Rightarrow> 'k world \<Rightarrow> (ctx_conn, 'k) loop_state \<Rightarrow> bool" where
  "ucontext_main K junk exited status alloc = main_run (ucontext_loop K junk exited status alloc)"

section \<open>\<^verbatim>\<open>server_epoll_et_ucontext1.cpp\<close>\<close>

definition ucontext1_connection :: "('k, 'z) net_kernel_scheme \<Rightarrow> byte list \<Rightarrow> (sem_conn, 'k) conn_class" where
  "ucontext1_connection K junk = co_class K sem_sync (sem_new junk)"

definition ucontext1_loop :: "('k, 'z) net_kernel_scheme \<Rightarrow> byte list \<Rightarrow> ((sem_conn, 'k) server \<Rightarrow> nat) \<Rightarrow>
    (sem_conn, 'k) loop_state \<Rightarrow> (sem_conn, 'k) loop_state \<Rightarrow> bool" where
  "ucontext1_loop K junk alloc = co_loop_step (ucontext1_connection K junk) K sem_sync alloc"

definition ucontext1_main :: "('k, 'z) net_kernel_scheme \<Rightarrow> byte list \<Rightarrow> ((sem_conn, 'k) server \<Rightarrow> nat) \<Rightarrow>
    main_env \<Rightarrow> string list \<Rightarrow> 'k world \<Rightarrow> (sem_conn, 'k) loop_state \<Rightarrow> bool" where
  "ucontext1_main K junk alloc = main_run (ucontext1_loop K junk alloc)"

section \<open>The class obeys the interface of the loop\<close>

definition co_good :: "('x co_conn_scheme) co_sync \<Rightarrow> 'x co_conn_scheme \<Rightarrow> 'k world \<Rightarrow> bool" where
  "co_good S c w \<longleftrightarrow> co_parked S c w \<or> co_live S Recv_Point c w \<and> co_saved c = Recv_Point"

lemma co_good_echo:
  assumes "co_good S c w"
  shows "interest (w_trace w) (co_fd c) = Some co_mask"
    "sent_on (co_fd c) (w_trace w) @ co_pending c = received_on (co_fd c) (w_trace w)"
  using assms by (auto simp: co_good_def co_parked_def co_live_def co_echo_def co_pending_def)

lemma co_echo_frame:
  assumes "co_echo pt c w" "only_on g w w'" "g \<noteq> co_fd c"
  shows "co_echo pt c w'"
  using assms only_on_frame [OF assms(2,3)] by (simp add: co_echo_def)

lemma co_good_frame: "co_good S c w \<Longrightarrow> only_on g w w' \<Longrightarrow> g \<noteq> co_fd c \<Longrightarrow> co_good S c w'"
  by (auto simp: co_good_def co_parked_def co_live_def intro: co_echo_frame)

lemma co_good_os: "co_good S c w \<Longrightarrow> co_good S c (w\<lparr>w_os := s\<rparr>)"
  by (rule co_good_frame [where g = "co_fd c + 1" and w = w]) (auto simp: only_on_def)

text \<open>A new connection can be entered.\<close>

definition starts_live :: "('x co_conn_scheme, 'k) conn_class \<Rightarrow> ('x co_conn_scheme) co_sync \<Rightarrow> bool" where
  "starts_live C S \<longleftrightarrow> (\<forall>fd epfd w c w1. cc_new C fd epfd w = (c, w1) \<longrightarrow> co_live S Recv_Point c w1)"

context co_waiting
begin

lemma good_handle:
  assumes "kernel_ok K" "co_good S c w" "co_handle K S ev (c, w) = Some (ret, c', w')"
  shows "co_good S c' w'" "co_fd c' = co_fd c" "only_on (co_fd c) w w'"
proof -
  have "co_good S c' w' \<and> co_fd c' = co_fd c \<and> only_on (co_fd c) w w'"
  proof (cases "co_parked S c w")
    case True
    from co_handle_ok [OF assms(1) True assms(3)] show ?thesis
      by (simp add: stays_ok_def co_good_def)
  next
    case False
    then have "\<not> cs_waits_recv S c" "\<not> cs_waits_send S c"
      using assms(2) by (simp_all add: co_good_def co_live_def co_idle_def)
    then have "(c', w') = (c, w)"
      using assms(3) by (auto simp: co_handle_def co_resume_def split: if_splits)
    with assms(2) show ?thesis by simp
  qed
  then show "co_good S c' w'" "co_fd c' = co_fd c" "only_on (co_fd c) w w'" by simp_all
qed

lemma co_handler_class:
  assumes K: "kernel_ok K" and drains: "\<And>fd. co_drains K fd (rank fd)"
    and new: "\<And>fd epfd w c w1. nw fd epfd w = (c, w1) \<Longrightarrow>
      co_live S Recv_Point (cs_start S c) w1 \<and> co_saved (cs_start S c) = Recv_Point \<and> co_fd (cs_start S c) = fd \<and> only_on fd w w1"
  shows "handler_class (co_class K S nw) (co_good S)"
  unfolding handler_class_def co_class_def conn_class.simps
proof (intro conjI allI impI)
  fix fd epfd c and w w' :: "'a world"
  assume "(case nw fd epfd w of (c, w1) \<Rightarrow> (cs_start S c, w1)) = (c, w')"
  then obtain c0 where "nw fd epfd w = (c0, w')" "c = cs_start S c0" by (auto split: prod.splits)
  with new [OF this(1)] show "co_good S c w'" "co_fd c = fd" "only_on fd w w'"
    by (simp_all add: co_good_def)
next
  fix c ev and w :: "'a world"
  show "co_handle K S ev (c, w) \<noteq> None" by (rule co_handle_returns [OF drains])
next
  fix c ev r c' and w w' :: "'a world"
  assume good: "co_good S c w" and h: "co_handle K S ev (c, w) = Some (r, c', w')"
  note law = good_handle [OF K good h]
  show "only_on (co_fd c) w w'" "co_fd c' = co_fd c" "co_good S c' w'" by (rule law)+
next
  fix c and w :: "'a world"
  show "only_on (co_fd c) w (co_delete (c, w))"
    by (simp add: co_delete_def only_on_def)
  show "interest (w_trace (co_delete (c, w))) (co_fd c) = None"
    by (simp add: co_delete_def)
next
  fix c g s and w w' :: "'a world"
  assume good: "co_good S c w"
  show "interest (w_trace w) (co_fd c) \<noteq> None" "co_good S c (w\<lparr>w_os := s\<rparr>)"
    using co_good_echo [OF good] co_good_os [OF good] by simp_all
  show "co_good S c w'" if "only_on g w w'" "g \<noteq> co_fd c"
    by (rule co_good_frame [OF good that])
qed

lemma co_enter_law:
  assumes K: "kernel_ok K" and drains: "\<And>fd. co_drains K fd (rank fd)" and C: "handler_class C (co_good S)" "cc_fd C = co_fd"
    and inv: "sv_inv C (co_good S) sv" and c: "sv_conns sv p = Some c" "co_live S Recv_Point c (sv_world sv)"
  obtains sv' where "co_enter K S p sv = Some sv'" "sv_inv C (co_good S) sv'" "sv_acceptor sv' = sv_acceptor sv"
    "sv_listen sv' = sv_listen sv" "\<And>q. sv_conns sv q \<noteq> None \<Longrightarrow> sv_conns sv' q \<noteq> None"
proof -
  obtain c1 w1 where run: "co_run K S Recv_Point c (sv_world sv) = Some (c1, w1)"
    using co_run_returns [OF drains, of S Recv_Point c "sv_world sv"] by auto
  note law = co_run_ok [OF K c(2) run]
  have "sv_inv C (co_good S) (sv\<lparr>sv_conns := (sv_conns sv)(p \<mapsto> c1), sv_world := w1\<rparr>)"
    by (rule handler_class.inv_update [OF C(1) inv c(1)]) (use law C(2) in \<open>simp_all add: co_good_def\<close>)
  then show thesis
    using run c(1)
    by (intro that [of "sv\<lparr>sv_conns := (sv_conns sv)(p \<mapsto> c1), sv_world := w1\<rparr>"]) (simp_all add: co_enter_def)
qed

lemma co_accept_law:
  assumes K: "kernel_ok K" and drains: "\<And>fd. co_drains K fd (rank fd)"
    and C: "handler_class C (co_good S)" "cc_fd C = co_fd"
    and new: "starts_live C S"
    and inv: "sv_inv C (co_good S) sv" and alloc: "alloc_ok alloc" and fresh: "accept_fresh K sv"
  obtains ret sv' where "co_acceptor_handle C K S alloc ev sv = Some (ret, sv')" "sv_inv C (co_good S) sv'"
    "sv_acceptor sv' = sv_acceptor sv" "sv_listen sv' = sv_listen sv" "\<And>q. sv_conns sv q \<noteq> None \<Longrightarrow> sv_conns sv' q \<noteq> None"
proof (cases "\<exists>fd s. \<not> has ev (NOT EPOLLIN) \<and> k_accept K (sv_listen sv) (w_os (sv_world sv)) = (Accepted fd, s)")
  case False
  then have "has ev (NOT EPOLLIN) \<or> (\<exists>e s. k_accept K (sv_listen sv) (w_os (sv_world sv)) = (AcceptErr e, s))"
    by (metis accept_res.exhaust prod.exhaust)
  then have "\<exists>ret sv'. acceptor_handle C K alloc ev sv = (ret, sv') \<and> co_acceptor_handle C K S alloc ev sv = Some (ret, sv') \<and>
      sv_acceptor sv' = sv_acceptor sv \<and> sv_listen sv' = sv_listen sv \<and> sv_conns sv' = sv_conns sv"
    by (auto simp: acceptor_handle_def co_acceptor_handle_def)
  then obtain ret sv' where a: "acceptor_handle C K alloc ev sv = (ret, sv')" "co_acceptor_handle C K S alloc ev sv = Some (ret, sv')"
    "sv_acceptor sv' = sv_acceptor sv \<and> sv_listen sv' = sv_listen sv \<and> sv_conns sv' = sv_conns sv"
    by blast
  then show ?thesis
    using handler_class.inv_accept [OF C(1) inv alloc fresh a(1)] by (intro that [OF a(2)]) auto
next
  case True
  then obtain fd s where ev: "\<not> has ev (NOT EPOLLIN)" and acc: "k_accept K (sv_listen sv) (w_os (sv_world sv)) = (Accepted fd, s)"
    by blast
  define sv0 where "sv0 = sv\<lparr>sv_world := (sv_world sv)\<lparr>w_os := s\<rparr>\<rparr>"
  define sv1 where "sv1 = make_connection C alloc fd sv0"
  have "acceptor_handle C K alloc ev sv = (0, sv1)"
    using ev acc by (simp add: acceptor_handle_def sv0_def sv1_def)
  from handler_class.inv_accept [OF C(1) inv alloc fresh this] have inv1: "sv_inv C (co_good S) sv1" .
  obtain c w1 where cw: "cc_new C fd (sv_epfd sv0) (sv_world sv0) = (c, w1)"
    by (cases "cc_new C fd (sv_epfd sv0) (sv_world sv0)")
  have p: "sv_conns sv1 (alloc sv0) = Some c" "co_live S Recv_Point c (sv_world sv1)"
    using new [unfolded starts_live_def, rule_format, OF cw] by (simp_all add: sv1_def make_connection_def cw Let_def)
  have keep: "sv_acceptor sv1 = sv_acceptor sv" "sv_listen sv1 = sv_listen sv" "\<And>q. sv_conns sv q \<noteq> None \<Longrightarrow> sv_conns sv1 q \<noteq> None"
    by (simp_all add: sv1_def sv0_def make_connection_def Let_def split: prod.splits)
  obtain sv' where "co_enter K S (alloc sv0) sv1 = Some sv'" "sv_inv C (co_good S) sv'" "sv_acceptor sv' = sv_acceptor sv1"
    "sv_listen sv' = sv_listen sv1" "\<And>q. sv_conns sv1 q \<noteq> None \<Longrightarrow> sv_conns sv' q \<noteq> None"
    using co_enter_law [OF K drains C inv1 p] by blast
  then show ?thesis
    using ev acc keep by (intro that [of 0 sv']) (simp_all add: co_acceptor_handle_def sv0_def [symmetric] sv1_def [symmetric])
qed

lemma co_dispatch_law:
  assumes "kernel_ok K" "\<And>fd. co_drains K fd (rank fd)" and C: "handler_class C (co_good S)" "cc_fd C = co_fd"
    and new: "starts_live C S"
    and inv: "sv_inv C (co_good S) sv" and alloc: "alloc_ok alloc" and fresh: "accept_fresh K sv"
    and pend: "pending_ok sv (e # es)"
  shows "case co_dispatch C K S alloc e sv of
      Inl f \<Rightarrow> f = DeleteOfStackObject
    | Inr sv' \<Rightarrow> sv_inv C (co_good S) sv' \<and> pending_ok sv' es \<and> sv_acceptor sv' = sv_acceptor sv \<and> sv_listen sv' = sv_listen sv"
proof -
  obtain p ev where e: "e = (p, ev)" by (cases e)
  show ?thesis
  proof (cases "p = sv_acceptor sv")
    case True
    obtain ret sv' where a: "co_acceptor_handle C K S alloc ev sv = Some (ret, sv')" "sv_inv C (co_good S) sv'"
      "sv_acceptor sv' = sv_acceptor sv" "sv_listen sv' = sv_listen sv" "\<And>q. sv_conns sv q \<noteq> None \<Longrightarrow> sv_conns sv' q \<noteq> None"
      using co_accept_law [OF assms(1,2) C new inv alloc fresh, where ev = ev] by blast
    then show ?thesis
      using True e handler_class.pending_mono [OF C(1) pend a(3,5)] by (simp add: co_dispatch_def)
  next
    case False
    then show ?thesis
      using handler_class.dispatch_law [OF C(1) inv alloc fresh pend] e
      by (auto simp: co_dispatch_def split: sum.splits)
  qed
qed

lemma co_loop_inv:
  assumes K: "kernel_ok K" and drains: "\<And>fd. co_drains K fd (rank fd)" and C: "handler_class C (co_good S)" "cc_fd C = co_fd"
    and new: "starts_live C S"
    and alloc: "alloc_ok alloc" and w: "interest (w_trace w) = (\<lambda>_. None)"
    and run: "main_run (co_loop_step C K S alloc) env argv w s"
  shows "loop_inv C (co_good S) (me_acceptor env) (me_socket env (snd (parse_args argv config_init))) s"
proof -
  let ?inv = "loop_inv C (co_good S) (me_acceptor env) (me_socket env (snd (parse_args argv config_init)))"
  have step: "?inv s2" if "co_loop_step C K S alloc s1 s2" "?inv s1" for s1 s2
    using that
  proof (cases rule: co_loop_step.cases)
    case (wait sv batch)
    then show ?thesis
      using that(2) handler_class.pending_batch [OF C(1)] by (simp add: loop_inv_def)
  next
    case (dispatch sv e sv' es)
    then show ?thesis
      using that(2) co_dispatch_law [OF K drains C new _ alloc dispatch(3), where e = e and es = es] by (simp add: loop_inv_def)
  next
    case (fault sv e f es)
    then show ?thesis
      using that(2) co_dispatch_law [OF K drains C new _ alloc fault(3), where e = e and es = es] by (simp add: loop_inv_def)
  qed
  obtain s0 where s0: "server_start env argv w = Inr s0" and runs: "(co_loop_step C K S alloc)\<^sup>*\<^sup>* s0 s"
    using run by (auto simp: main_run_def)
  have "?inv s0"
    using s0 sv_inv_start [OF w] by (auto simp: server_start_def loop_inv_def pending_ok_def acceptor_new_def split: prod.splits if_splits)
  from runs this show ?thesis
    by (induction rule: rtranclp_induct) (auto intro: step)
qed

end

lemma fresh_class:
  assumes "length junk = co_buf_size"
  shows "ctx_new junk x st fd epfd w = (c, w1) \<Longrightarrow> co_live ctx_sync Recv_Point (cs_start ctx_sync c) w1 \<and>
      co_saved (cs_start ctx_sync c) = Recv_Point \<and> co_fd (cs_start ctx_sync c) = fd \<and> only_on fd w w1"
    "sem_new junk fd epfd w = (d, w2) \<Longrightarrow> co_live sem_sync Recv_Point (cs_start sem_sync d) w2 \<and>
      co_saved (cs_start sem_sync d) = Recv_Point \<and> co_fd (cs_start sem_sync d) = fd \<and> only_on fd w w2"
proof -
  assume c: "ctx_new junk x st fd epfd w = (c, w1)"
  moreover have "co_saved (cs_start ctx_sync c) = Recv_Point \<and> co_fd (cs_start ctx_sync c) = fd \<and> only_on fd w w1"
    using c by (auto simp: ctx_new_def ctx_sync_def)
  ultimately show "co_live ctx_sync Recv_Point (cs_start ctx_sync c) w1 \<and>
      co_saved (cs_start ctx_sync c) = Recv_Point \<and> co_fd (cs_start ctx_sync c) = fd \<and> only_on fd w w1"
    using fresh_live(1) [OF assms c] by blast
next
  assume d: "sem_new junk fd epfd w = (d, w2)"
  moreover have "co_saved (cs_start sem_sync d) = Recv_Point \<and> co_fd (cs_start sem_sync d) = fd \<and> only_on fd w w2"
    using d by (auto simp: sem_new_def sem_sync_def)
  ultimately show "co_live sem_sync Recv_Point (cs_start sem_sync d) w2 \<and>
      co_saved (cs_start sem_sync d) = Recv_Point \<and> co_fd (cs_start sem_sync d) = fd \<and> only_on fd w w2"
    using fresh_live(2) [OF assms d] by blast
qed

lemma ucontext_class:
  assumes "kernel_ok K" "\<And>fd. co_drains K fd (rank fd)" "length junk = co_buf_size"
  shows "handler_class (ucontext_connection K junk x st) (co_good ctx_sync)"
    "handler_class (ucontext1_connection K junk) (co_good sem_sync)"
  unfolding ucontext_connection_def ucontext1_connection_def
  by (rule ctx.co_handler_class [OF assms(1,2) fresh_class(1) [OF assms(3)]], assumption)
    (rule sem.co_handler_class [OF assms(1,2) fresh_class(2) [OF assms(3)]], assumption)

text \<open>The invariant of the loop holds in every state the programs reach.\<close>

lemma ucontext_inv:
  assumes K: "kernel_ok K" and drains: "\<And>fd. co_drains K fd (rank fd)" and junk: "length junk = co_buf_size"
    and w: "interest (w_trace w) = (\<lambda>_. None)"
  shows "alloc_ok alloc \<Longrightarrow> ucontext_main K junk x st alloc env argv w s \<Longrightarrow>
      loop_inv (ucontext_connection K junk x st) (co_good ctx_sync) (me_acceptor env) (me_socket env (snd (parse_args argv config_init))) s"
    "alloc_ok alloc1 \<Longrightarrow> ucontext1_main K junk alloc1 env argv w s1 \<Longrightarrow>
      loop_inv (ucontext1_connection K junk) (co_good sem_sync) (me_acceptor env) (me_socket env (snd (parse_args argv config_init))) s1"
proof -
  have new: "starts_live (ucontext_connection K junk x st) ctx_sync"
    using fresh_class(1) [OF junk] by (fastforce simp: starts_live_def ucontext_connection_def co_class_def split: prod.splits)
  have new1: "starts_live (ucontext1_connection K junk) sem_sync"
    using fresh_class(2) [OF junk] by (fastforce simp: starts_live_def ucontext1_connection_def co_class_def split: prod.splits)
  have fd: "cc_fd (ucontext_connection K junk x st) = co_fd" "cc_fd (ucontext1_connection K junk) = co_fd"
    by (simp_all add: ucontext_connection_def ucontext1_connection_def co_class_def)
  show "loop_inv (ucontext_connection K junk x st) (co_good ctx_sync) (me_acceptor env) (me_socket env (snd (parse_args argv config_init))) s"
    if "alloc_ok alloc" "ucontext_main K junk x st alloc env argv w s"
    using that(2) unfolding ucontext_main_def ucontext_loop_def
    by (rule ctx.co_loop_inv [OF K drains ucontext_class(1) [OF K drains junk] fd(1) new that(1) w])
  show "loop_inv (ucontext1_connection K junk) (co_good sem_sync) (me_acceptor env) (me_socket env (snd (parse_args argv config_init))) s1"
    if "alloc_ok alloc1" "ucontext1_main K junk alloc1 env argv w s1"
    using that(2) unfolding ucontext1_main_def ucontext1_loop_def
    by (rule sem.co_loop_inv [OF K drains ucontext_class(2) [OF K drains junk] fd(2) new1 that(1) w])
qed

section \<open>What the programs promise\<close>

text \<open>C27: the coroutine servers are memory-safe, and every connection echoes next to all the others.  If the
  kernel answers "try again" at some time, no coroutine keeps the event loop waiting forever and the loop
  never calls a deleted connection; and in every state the loop reaches, each connection has sent, followed by
  what its coroutine holds, exactly what it has received.\<close>

theorem ucontext_servers_safe:
  fixes K :: "('k, 'z) net_kernel_scheme"
  assumes "kernel_ok K" "\<And>fd. co_drains K fd (rank fd)" "length junk = co_buf_size" "interest (w_trace w) = (\<lambda>_. None)"
    and "alloc_ok alloc" "alloc_ok alloc1"
  shows "fault_free (ucontext_main K junk x st alloc env argv w) \<and> fault_free (ucontext1_main K junk alloc1 env argv w) \<and>
    (\<forall>sv es p c. ucontext_main K junk x st alloc env argv w (Running sv es) \<longrightarrow> sv_conns sv p = Some c \<longrightarrow>
      sent_on (co_fd c) (w_trace (sv_world sv)) @ co_pending c = received_on (co_fd c) (w_trace (sv_world sv))) \<and>
    (\<forall>sv es p c. ucontext1_main K junk alloc1 env argv w (Running sv es) \<longrightarrow> sv_conns sv p = Some c \<longrightarrow>
      sent_on (co_fd c) (w_trace (sv_world sv)) @ co_pending c = received_on (co_fd c) (w_trace (sv_world sv)))"
proof -
  note inv = ucontext_inv [OF assms(1-4)]
  have "fault_free (ucontext_main K junk x st alloc env argv w)"
    using inv(1) [OF assms(5), of x st env argv "Crashed UseAfterFree"] inv(1) [OF assms(5), of x st env argv "Crashed NoReturn"]
    by (auto simp: fault_free_def loop_inv_def)
  moreover have "fault_free (ucontext1_main K junk alloc1 env argv w)"
    using inv(2) [OF assms(6), of env argv "Crashed UseAfterFree"] inv(2) [OF assms(6), of env argv "Crashed NoReturn"]
    by (auto simp: fault_free_def loop_inv_def)
  moreover have "sent_on (co_fd c) (w_trace (sv_world sv)) @ co_pending c = received_on (co_fd c) (w_trace (sv_world sv))"
    if "ucontext_main K junk x st alloc env argv w (Running sv es)" "sv_conns sv p = Some c" for sv es p c
    using inv(1) [OF assms(5) that(1)] that(2) by (auto simp: loop_inv_def dest: sv_invD(1) co_good_echo(2))
  moreover have "sent_on (co_fd c) (w_trace (sv_world sv)) @ co_pending c = received_on (co_fd c) (w_trace (sv_world sv))"
    if "ucontext1_main K junk alloc1 env argv w (Running sv es)" "sv_conns sv p = Some c" for sv es p c
    using inv(2) [OF assms(6) that(1)] that(2) by (auto simp: loop_inv_def dest: sv_invD(1) co_good_echo(2))
  ultimately show ?thesis by blast
qed

lemma ucontext_servers_safe_witness:
  "fault_free (ucontext_main net_script co_junk True Wait_Could_Send first_free demo_env [''server'', ''80''] (run_world [] [])) \<and>
    fault_free (ucontext1_main net_script co_junk first_free demo_env [''server'', ''80''] (run_world [] []))"
proof -
  have "co_drains net_script fd (\<lambda>(rs, ss). length rs + length ss)" for fd
    using script_drains [of fd] by (simp add: co_drains_def net_script_def script_kernel_def)
  from ucontext_servers_safe [OF net_script_ok this co_junk_length run_world_quiet first_free_ok first_free_ok]
  show ?thesis by blast
qed

text \<open>A connection that ends during \<^verbatim>\<open>start\<close> is never deleted.  If the peer has already closed the connection,
  or reset it, when it is accepted, its coroutine exits inside \<^verbatim>\<open>start\<close>, whose result the acceptor ignores;
  \<^verbatim>\<open>handle\<close> then finds nobody waiting and returns 0 for every EPOLLIN and EPOLLOUT, so the loop does not delete
  the object and its descriptor stays open and registered.\<close>

lemma ucontext_exit_in_start_leaks:
  assumes "k_recv K fd co_buf_size (w_os w) = (res, s1)" "res = RecvData [] \<or> (\<exists>e. res = RecvErr e \<and> \<not> again e)"
    and "\<And>ev. ev \<in> set evs \<Longrightarrow> \<not> has ev (NOT (EPOLLIN OR EPOLLOUT))"
  shows "map_option (\<lambda>(ret, c, w'). (ret, co_exited c, interest (w_trace w') fd))
      (co_session K ctx_sync evs (ctx_new junk x st fd epfd w)) = Some (0, True, Some co_mask) \<and>
    map_option (\<lambda>(ret, c, w'). (ret, co_exited c, interest (w_trace w') fd))
      (co_session K sem_sync evs (sem_new junk fd epfd w)) = Some (0, True, Some co_mask)"
proof -
  obtain c v where c: "ctx_new junk x st fd epfd w = (c, v)" by (cases "ctx_new junk x st fd epfd w")
  obtain d u where d: "sem_new junk fd epfd w = (d, u)" by (cases "sem_new junk fd epfd w")
  have k: "k_recv K fd co_buf_size (w_os v) = (res, s1)" "k_recv K fd co_buf_size (w_os u) = (res, s1)"
    using assms(1) c d by (auto simp: ctx_new_def sem_new_def)
  show ?thesis
    unfolding c d
    by (intro conjI ctx.session_exits [OF k(1) assms(2,3)] sem.session_exits [OF k(2) assms(2,3)])
      (use c d in \<open>auto simp: ctx_new_def ctx_sync_def sem_new_def sem_sync_def co_idle_def co_mask_def co_sem_new_def\<close>)
qed

lemma ucontext_exit_in_start_leaks_witness:
  "map_option (\<lambda>(ret, c, w'). (ret, co_exited c, interest (w_trace w') 5))
    (co_session script_kernel ctx_sync [EPOLLIN, EPOLLOUT] (ctx_new co_junk True Wait_Could_Send 5 4 (run_world [RecvData []] []))) =
    Some (0, True, Some co_mask)"
proof -
  have "k_recv script_kernel 5 co_buf_size (w_os (run_world [RecvData []] [])) = (RecvData [], [], [])"
    by (simp add: script_kernel_def run_world_def)
  moreover have "\<not> has ev (NOT (EPOLLIN OR EPOLLOUT))" if "ev \<in> set [EPOLLIN, EPOLLOUT]" for ev
    using that by (auto simp: has_def epoll_flags)
  ultimately show ?thesis
    using ucontext_exit_in_start_leaks [of script_kernel 5 "run_world [RecvData []] []" "RecvData []" "([], [])" "[EPOLLIN, EPOLLOUT]"]
    by blast
qed

end
