(* ===== verification/Client_Stats.thy ===== *)
theory Client_Stats
  imports Complex_Main Prelude "HOL-Library.AList" "HOL-Library.Multiset" "HOL-Library.Product_Lexorder"
begin

text \<open>
  The statistics of the load generators (\<^verbatim>\<open>tcp_echo/client_epoll_bench.cpp\<close>, \<^verbatim>\<open>client_epoll_verify.cpp\<close>): the thread
  of an event loop counts packets and bytes and pushes round-trip times into a ring; once a second the main
  thread reads both into a \<^verbatim>\<open>Total\<close>, and prints rates, the average and the 99th percentile.

  \<^verbatim>\<open>ll\<close> is an \<open>int\<close> (64 bits, never near its bounds); a \<^verbatim>\<open>double\<close> is an exact number: \<open>int\<close> for a sum of integers,
  \<open>rat\<close> for a rate.
\<close>

section \<open>\<^verbatim>\<open>class LatencyTracer\<close>\<close>

definition lat_size :: int where "lat_size = push_bit 18 1"
definition lat_mask :: int where "lat_mask = lat_size - 1"

text \<open>The array is not initialised: \<open>junk\<close>.\<close>

record latency =
  ly_data :: "nat \<Rightarrow> int"
  ly_f :: int
  ly_p :: int

definition latency_new :: "(nat \<Rightarrow> int) \<Rightarrow> latency" where
  "latency_new junk = \<lparr>ly_data = junk, ly_f = 0, ly_p = 0\<rparr>"

definition latency_push :: "int \<Rightarrow> latency \<Rightarrow> latency" where
  "latency_push x l = l\<lparr>ly_data := (ly_data l)(nat (ly_p l AND lat_mask) := x), ly_p := ly_p l + 1\<rparr>"

section \<open>\<^verbatim>\<open>class Total\<close> and \<^verbatim>\<open>get_p99\<close>\<close>

text \<open>\<^verbatim>\<open>std::unordered_map\<close>: an association list, in the order in which the map iterates.\<close>

type_synonym tails = "(int \<times> int) list"

record totals =
  tt_data :: "rat list"
  tt_latencies :: int
  tt_num :: int
  tt_tails :: tails

definition total_new :: totals where
  "total_new = \<lparr>tt_data = [0, 0, 0, 0], tt_latencies = 0, tt_num = 0, tt_tails = []\<rparr>"

text \<open>\<^verbatim>\<open>tails[x]++\<close>\<close>

definition tail_inc :: "int \<Rightarrow> tails \<Rightarrow> tails" where
  "tail_inc x tails = AList.map_default x 1 (\<lambda>n. n + 1) tails"

text \<open>The loop over the sorted pairs from the largest down.\<close>

fun p99_scan :: "int \<Rightarrow> int \<Rightarrow> (int \<times> int) list \<Rightarrow> int" where
  "p99_scan tail_num n [] = 0"
| "p99_scan tail_num n ((key, cnt) # rest) = (if n + cnt \<ge> tail_num then key else p99_scan tail_num (n + cnt) rest)"

definition get_p99 :: "tails \<Rightarrow> int \<Rightarrow> int" where
  "get_p99 tails tail_num = p99_scan tail_num 0 (rev (sort tails))"

text \<open>What \<^verbatim>\<open>Total::report\<close> prints as the percentile.\<close>

definition total_p99 :: "totals \<Rightarrow> int" where
  "total_p99 t = get_p99 (tt_tails t) (tt_num t div 100)"

section \<open>\<^verbatim>\<open>LatencyTracer::report\<close>\<close>

type_synonym report_state = "latency \<times> int \<times> int \<times> tails"

text \<open>The inner loop, with the number of passes to go.\<close>

fun report_block :: "nat \<Rightarrow> report_state \<Rightarrow> report_state" where
  "report_block 0 s = s"
| "report_block (Suc k) (l, total_sum, num, tails) =
    (let x = ly_data l (nat (ly_f l AND lat_mask))
     in report_block k (l\<lparr>ly_f := ly_f l + 1\<rparr>, total_sum + x, num + 1, tail_inc x tails))"

lemma report_block_ends: "ly_p (fst (report_block k s)) = ly_p (fst s)" "ly_f (fst (report_block k s)) = ly_f (fst s) + int k"
  by (induction k s rule: report_block.induct) (simp_all add: Let_def)

lemma drop_bit_block: "drop_bit 8 (f + 256) = drop_bit 8 f + (1 :: int)"
  by (simp add: drop_bit_eq_div)

function (sequential) report_loop :: "report_state \<Rightarrow> report_state" where
  "report_loop s = (if drop_bit 8 (ly_p (fst s)) - drop_bit 8 (ly_f (fst s)) > 0 then report_loop (report_block 256 s) else s)"
  by pat_completeness auto

termination report_loop
  by (relation "measure (\<lambda>s. nat (drop_bit 8 (ly_p (fst s)) - drop_bit 8 (ly_f (fst s))))")
    (auto simp: report_block_ends drop_bit_block)

declare report_loop.simps [simp del]

definition latency_report :: "latency \<Rightarrow> totals \<Rightarrow> latency \<times> totals" where
  "latency_report l t =
    (case report_loop (l, 0, 0, tt_tails t) of (l1, total_sum, num, tails) \<Rightarrow>
      (l1, t\<lparr>tt_num := tt_num t + num, tt_latencies := tt_latencies t + total_sum, tt_tails := tails\<rparr>))"

section \<open>What the association list counts\<close>

text \<open>\<open>tails\<close> counts the samples \<open>ys\<close>.\<close>

definition counts :: "int list \<Rightarrow> tails \<Rightarrow> bool" where
  "counts ys tails \<longleftrightarrow> distinct (map fst tails) \<and> fst ` set tails = set ys \<and>
    (\<forall>P. sum_list (map snd (filter (\<lambda>e. P (fst e)) tails)) = int (length (filter P ys)))"

lemma countsD:
  assumes "counts ys tails"
  shows "distinct (map fst tails)" "fst ` set tails = set ys"
    "sum_list (map snd (filter (\<lambda>e. P (fst e)) tails)) = int (length (filter P ys))"
  using assms by (simp_all add: counts_def)

lemma counts_Nil: "counts [] []"
  by (simp add: counts_def)

lemma tail_inc_sum:
  "sum_list (map snd (filter (\<lambda>e. P (fst e)) (tail_inc x tails))) =
    sum_list (map snd (filter (\<lambda>e. P (fst e)) tails)) + (if P x then 1 else 0)"
  by (induction tails) (auto simp: tail_inc_def)

lemma tail_inc_keys: "fst ` set (tail_inc x tails) = insert x (fst ` set tails)"
  by (induction tails) (auto simp: tail_inc_def)

lemma tail_inc_distinct: "distinct (map fst tails) \<Longrightarrow> distinct (map fst (tail_inc x tails))"
  using tail_inc_keys by (induction tails) (auto simp: tail_inc_def)

lemma counts_inc: "counts ys tails \<Longrightarrow> counts (ys @ [x]) (tail_inc x tails)"
  by (auto simp: counts_def tail_inc_sum tail_inc_keys intro: tail_inc_distinct)

text \<open>The percentile: enough samples reach it, and fewer are above it.\<close>

lemma p99_scan_split:
  assumes "es \<noteq> []" "tail_num \<le> n + sum_list (map snd es)"
  shows "\<exists>as cnt bs. es = as @ (p99_scan tail_num n es, cnt) # bs \<and> tail_num \<le> n + sum_list (map snd as) + cnt \<and>
    (as = [] \<or> n + sum_list (map snd as) < tail_num)"
  using assms
proof (induction tail_num n es rule: p99_scan.induct)
  case (2 tail_num n key cnt rest)
  show ?case
  proof (cases "n + cnt \<ge> tail_num")
    case True
    then show ?thesis by fastforce
  next
    case False
    then have "rest \<noteq> []" "tail_num \<le> n + cnt + sum_list (map snd rest)"
      using "2.prems" by auto
    from "2.IH" [OF False this] obtain as c bs where
      "rest = as @ (p99_scan tail_num (n + cnt) rest, c) # bs" "tail_num \<le> n + cnt + sum_list (map snd as) + c"
      "as = [] \<or> n + cnt + sum_list (map snd as) < tail_num" by blast
    then show ?thesis
      using False by (intro exI [of _ "(key, cnt) # as"]) (auto simp: add.assoc)
  qed
qed simp

lemma p99_correct:
  assumes "counts ys tails" "ys \<noteq> []" "tail_num \<le> int (length ys)"
  shows "get_p99 tails tail_num \<in> set ys" "tail_num \<le> int (length (filter (\<lambda>y. get_p99 tails tail_num \<le> y) ys))"
    "0 < tail_num \<Longrightarrow> int (length (filter (\<lambda>y. get_p99 tails tail_num < y) ys)) < tail_num"
proof -
  let ?es = "rev (sort tails)" and ?p = "get_p99 tails tail_num"
  have set: "set ?es = set tails" by simp
  have same: "sum_list (map snd (filter (\<lambda>e. P (fst e)) ?es)) = int (length (filter P ys))" for P
  proof -
    have "mset (map snd (filter (\<lambda>e. P (fst e)) ?es)) = mset (map snd (filter (\<lambda>e. P (fst e)) tails))"
      by simp
    then show ?thesis
      using countsD(3) [OF assms(1), of P] by (metis sum_mset_sum_list)
  qed
  have "set tails \<noteq> {}" using countsD(2) [OF assms(1)] assms(2) by auto
  then have "?es \<noteq> []" using set by (metis set_empty)
  moreover have "tail_num \<le> 0 + sum_list (map snd ?es)"
    using assms(3) same [of "\<lambda>_. True"] by simp
  ultimately obtain as cnt bs where es: "?es = as @ (?p, cnt) # bs"
    and split: "tail_num \<le> sum_list (map snd as) + cnt" "as = [] \<or> sum_list (map snd as) < tail_num"
    using p99_scan_split [of ?es tail_num 0] by (auto simp: get_p99_def)
  show "?p \<in> set ys"
    using es set countsD(2) [OF assms(1)] by (metis fst_conv image_eqI in_set_conv_decomp)
  have "sorted_wrt (\<lambda>a b. b \<le> a) ?es"
    by (simp add: sorted_wrt_rev)
  moreover have "distinct (map fst ?es)"
    using countsD(1) [OF assms(1)] by (metis distinct_rev mset_map mset_sort mset_eq_imp_distinct_iff rev_map)
  ultimately have "\<forall>e \<in> set as. ?p < fst e" "\<forall>e \<in> set bs. fst e < ?p"
    unfolding es by (auto simp: sorted_wrt_append less_eq_prod_def order_less_le image_iff)
  then have "filter (\<lambda>e. ?p \<le> fst e) as = as" "filter (\<lambda>e. ?p \<le> fst e) bs = []"
    "filter (\<lambda>e. ?p < fst e) as = as" "filter (\<lambda>e. ?p < fst e) bs = []"
    by (auto intro!: filter_True filter_False)
  then have filt: "filter (\<lambda>e. ?p \<le> fst e) ?es = as @ [(?p, cnt)]" "filter (\<lambda>e. ?p < fst e) ?es = as"
    unfolding es by simp_all
  show "tail_num \<le> int (length (filter (\<lambda>y. ?p \<le> y) ys))"
    using same [of "\<lambda>y. ?p \<le> y"] filt(1) split(1) by simp
  show "int (length (filter (\<lambda>y. ?p < y) ys)) < tail_num" if "0 < tail_num"
    using same [of "\<lambda>y. ?p < y"] filt(2) split(2) that by auto
qed

lemma counts_fold: "counts acc tails \<Longrightarrow> counts (acc @ ys) (fold tail_inc ys tails)"
proof (induction ys arbitrary: acc tails)
  case (Cons y ys)
  from Cons.IH [OF counts_inc [OF Cons.prems]] show ?case by simp
qed simp

section \<open>The ring as a history\<close>

text \<open>The samples \<open>xs\<close> were pushed, the first \<open>m\<close> are reported; the array holds the last \<open>2 ^ 18\<close>.\<close>

definition history :: "int list \<Rightarrow> nat \<Rightarrow> latency \<Rightarrow> bool" where
  "history xs m l \<longleftrightarrow> ly_p l = int (length xs) \<and> ly_f l = int m \<and> m \<le> length xs \<and>
    (\<forall>i < length xs. length xs \<le> i + 2 ^ 18 \<longrightarrow> ly_data l (i mod 2 ^ 18) = xs ! i)"

lemma lat_index: "nat (int n AND lat_mask) = n mod 2 ^ 18"
proof -
  have m: "lat_mask = mask 18"
    by (simp only: lat_mask_def lat_size_def mask_eq_exp_minus_1 push_bit_of_1)
  have "int n AND lat_mask = int n mod 2 ^ 18"
    unfolding m take_bit_eq_mask [symmetric] by (rule take_bit_eq_mod)
  then show ?thesis
    by (simp add: nat_mod_distrib)
qed

lemma history_new: "history [] 0 (latency_new junk)"
  by (simp add: history_def latency_new_def)

lemma history_push:
  assumes "history xs m l"
  shows "history (xs @ [x]) m (latency_push x l)"
proof -
  have "(fun_upd (ly_data l) (length xs mod 2 ^ 18) x) (i mod 2 ^ 18) = (xs @ [x]) ! i"
    if i: "i < length xs + 1" "length xs + 1 \<le> i + 2 ^ 18" for i
  proof (cases "i = length xs")
    case False
    then have lt: "i < length xs" "length xs \<le> i + 2 ^ 18" using i by auto
    have "length xs mod 2 ^ 18 \<noteq> i mod 2 ^ 18"
    proof
      assume "length xs mod 2 ^ 18 = i mod 2 ^ 18"
      then have "2 ^ 18 dvd length xs - i" using lt(1) by (meson mod_eq_dvd_iff_nat nat_less_le)
      then show False using lt i(2) by (auto dest: dvd_imp_le)
    qed
    then show ?thesis
      using assms lt by (simp add: history_def nth_append)
  qed simp
  then show ?thesis
    using assms by (simp add: history_def latency_push_def lat_index)
qed

lemma history_sample:
  assumes "history xs m l" "m \<le> i" "i < length xs" "length xs \<le> m + 2 ^ 18"
  shows "ly_data l (i mod 2 ^ 18) = xs ! i"
  using assms by (simp add: history_def)

lemma history_next:
  assumes "history xs m l" "m < length xs"
  shows "history xs (Suc m) (l\<lparr>ly_f := ly_f l + 1\<rparr>)"
  using assms by (simp add: history_def)

lemma report_block_law:
  assumes "history xs m l" "m + k \<le> length xs" "length xs \<le> m + 2 ^ 18"
  shows "\<exists>l'. report_block k (l, total_sum, num, tails) =
      (l', total_sum + sum_list (take k (drop m xs)), num + int k, fold tail_inc (take k (drop m xs)) tails) \<and>
    history xs (m + k) l'"
  using assms
proof (induction k arbitrary: m l total_sum num tails)
  case (Suc k)
  have m: "m < length xs" "ly_f l = int m" using Suc.prems by (simp_all add: history_def)
  have x: "ly_data l (nat (ly_f l AND lat_mask)) = xs ! m"
    using history_sample [OF Suc.prems(1), of m] Suc.prems m by (simp add: lat_index)
  have drop: "drop m xs = xs ! m # drop (Suc m) xs"
    by (rule Cons_nth_drop_Suc [symmetric, OF m(1)])
  obtain l' where "report_block k (l\<lparr>ly_f := ly_f l + 1\<rparr>, total_sum + xs ! m, num + 1, tail_inc (xs ! m) tails) =
      (l', total_sum + xs ! m + sum_list (take k (drop (Suc m) xs)), num + 1 + int k, fold tail_inc (take k (drop (Suc m) xs)) (tail_inc (xs ! m) tails))"
    "history xs (Suc m + k) l'"
    using Suc.IH [OF history_next [OF Suc.prems(1) m(1)], of "total_sum + xs ! m" "num + 1" "tail_inc (xs ! m) tails"]
      Suc.prems(2,3) by auto
  then show ?case
    by (simp add: x drop Let_def add.assoc del: drop_Suc)
qed simp

text \<open>A report takes whole blocks of 256.\<close>

lemma report_loop_law:
  assumes "history xs m l" "256 dvd m" "length xs \<le> m + 2 ^ 18"
  shows "\<exists>l'. report_loop (l, total_sum, num, tails) =
      (l', total_sum + sum_list (drop m (take (256 * (length xs div 256)) xs)),
       num + int (length (drop m (take (256 * (length xs div 256)) xs))),
       fold tail_inc (drop m (take (256 * (length xs div 256)) xs)) tails) \<and>
    history xs (256 * (length xs div 256)) l'"
  using assms
proof (induction "length xs - m" arbitrary: m l total_sum num tails rule: less_induct)
  case less
  let ?n = "256 * (length xs div 256)"
  have pf: "ly_p l = int (length xs)" "ly_f l = int m" "m \<le> length xs" using less.prems(1) by (simp_all add: history_def)
  have bits: "drop_bit 8 (int k) = int (k div 256)" for k :: nat
    by (simp add: drop_bit_eq_div zdiv_int)
  obtain b where b: "m = 256 * b" using less.prems(2) by blast
  show ?case
  proof (cases "m div 256 < length xs div 256")
    case False
    then have "?n = m" using b pf(3) div_le_mono [OF pf(3), of 256] by simp
    then show ?thesis
      using less.prems(1) False by (subst report_loop.simps) (simp add: pf bits)
  next
    case True
    then have m: "m + 256 \<le> ?n" "m + 256 \<le> length xs" using b by auto
    let ?ys = "take 256 (drop m xs)"
    obtain l1 where l1: "report_block 256 (l, total_sum, num, tails) =
        (l1, total_sum + sum_list ?ys, num + 256, fold tail_inc ?ys tails)" "history xs (m + 256) l1"
      using report_block_law [OF less.prems(1) m(2) less.prems(3), of total_sum num tails] by auto
    have "256 dvd m + 256" "length xs - (m + 256) < length xs - m" "length xs \<le> m + 256 + 2 ^ 18"
      using less.prems(2,3) m(2) by auto
    from less.hyps [OF this(2) l1(2) this(1,3)] obtain l2 where
      l2: "report_loop (l1, total_sum + sum_list ?ys, num + 256, fold tail_inc ?ys tails) =
        (l2, total_sum + sum_list ?ys + sum_list (drop (m + 256) (take ?n xs)), num + 256 + int (length (drop (m + 256) (take ?n xs))),
         fold tail_inc (drop (m + 256) (take ?n xs)) (fold tail_inc ?ys tails))" "history xs ?n l2"
      by blast
    have "take 256 (drop m (take ?n xs)) = ?ys"
      using m by (simp add: drop_take min_def)
    then have split: "drop m (take ?n xs) = ?ys @ drop (m + 256) (take ?n xs)"
      using append_take_drop_id [of 256 "drop m (take ?n xs)"] by (simp add: add.commute)
    have "report_loop (l, total_sum, num, tails) = report_loop (report_block 256 (l, total_sum, num, tails))"
      using True by (subst report_loop.simps) (simp add: pf bits)
    then show ?thesis
      using l1 l2 m(2) unfolding split by (auto simp: add.assoc)
  qed
qed

lemma latency_report_law:
  assumes "history xs m l" "256 dvd m" "length xs \<le> m + 2 ^ 18"
  obtains l' t where "latency_report l total_new = (l', t)" "history xs (256 * (length xs div 256)) l'"
    "tt_tails t = fold tail_inc (drop m (take (256 * (length xs div 256)) xs)) []"
    "tt_num t = int (length (drop m (take (256 * (length xs div 256)) xs)))"
    "tt_latencies t = sum_list (drop m (take (256 * (length xs div 256)) xs))"
proof -
  obtain l' where "report_loop (l, 0, 0, []) =
      (l', 0 + sum_list (drop m (take (256 * (length xs div 256)) xs)),
       0 + int (length (drop m (take (256 * (length xs div 256)) xs))),
       fold tail_inc (drop m (take (256 * (length xs div 256)) xs)) [])" "history xs (256 * (length xs div 256)) l'"
    using report_loop_law [OF assms, of 0 0 "[]"] by blast
  then show thesis
    by (intro that [of l' "\<lparr>tt_data = [0, 0, 0, 0], tt_latencies = sum_list (drop m (take (256 * (length xs div 256)) xs)),
        tt_num = int (length (drop m (take (256 * (length xs div 256)) xs))),
        tt_tails = fold tail_inc (drop m (take (256 * (length xs div 256)) xs)) []\<rparr>"])
      (simp_all add: latency_report_def total_new_def)
qed

section \<open>The life of a tracer\<close>

text \<open>What the two threads do, in the order in which they do it; each report goes to a new \<^verbatim>\<open>Total\<close>.\<close>

datatype lat_op = Push int | Report

fun lat_run :: "lat_op list \<Rightarrow> latency \<Rightarrow> totals list \<times> latency" where
  "lat_run [] l = ([], l)"
| "lat_run (Push x # ops) l = lat_run ops (latency_push x l)"
| "lat_run (Report # ops) l =
    (case latency_report l total_new of (l1, t) \<Rightarrow> case lat_run ops l1 of (ts, l2) \<Rightarrow> (t # ts, l2))"

fun pushed :: "lat_op list \<Rightarrow> int list" where
  "pushed [] = []"
| "pushed (Push x # ops) = x # pushed ops"
| "pushed (Report # ops) = pushed ops"

text \<open>After \<open>n\<close> pushes, \<open>m\<close> of which are reported: no report finds more samples than the array holds.\<close>

fun lat_fits :: "lat_op list \<Rightarrow> nat \<Rightarrow> nat \<Rightarrow> bool" where
  "lat_fits [] n m = True"
| "lat_fits (Push x # ops) n m = lat_fits ops (Suc n) m"
| "lat_fits (Report # ops) n m = (n \<le> m + 2 ^ 18 \<and> lat_fits ops n (256 * (n div 256)))"

text \<open>How many samples are reported in the end.\<close>

fun reported :: "lat_op list \<Rightarrow> nat \<Rightarrow> nat \<Rightarrow> nat" where
  "reported [] n m = m"
| "reported (Push x # ops) n m = reported ops (Suc n) m"
| "reported (Report # ops) n m = reported ops n (256 * (n div 256))"

lemma block_mono: "256 dvd m \<Longrightarrow> m \<le> n \<Longrightarrow> m \<le> 256 * (n div (256 :: nat))"
  using div_le_mono [of m n 256] by auto

lemma reported_mono: "256 dvd m \<Longrightarrow> m \<le> n \<Longrightarrow> m \<le> reported ops n m"
proof (induction ops n m rule: reported.induct)
  case (3 ops n m)
  from "3.IH" have "256 * (n div 256) \<le> reported ops n (256 * (n div 256))" by simp
  with block_mono [OF "3.prems"] show ?case by simp
qed simp_all

definition sums_up :: "int list \<Rightarrow> totals \<Rightarrow> bool" where
  "sums_up ys t \<longleftrightarrow> tt_tails t = fold tail_inc ys [] \<and> tt_num t = int (length ys) \<and> tt_latencies t = sum_list ys"

lemma drop_take_drop: "m \<le> n \<Longrightarrow> drop m (take n zs) @ drop n zs = drop m zs"
  using append_take_drop_id [of "n - m" "drop m zs"] by (simp add: take_drop)

lemma lat_run_law:
  assumes "history xs m l" "256 dvd m" "lat_fits ops (length xs) m"
  shows "\<exists>yss. list_all2 sums_up yss (fst (lat_run ops l)) \<and>
    concat yss = drop m (take (reported ops (length xs) m) (xs @ pushed ops))"
  using assms
proof (induction ops arbitrary: xs m l)
  case Nil
  then show ?case by (intro exI [of _ "[]"]) (simp add: history_def)
next
  case (Cons op ops)
  show ?case
  proof (cases op)
    case (Push x)
    then show ?thesis
      using Cons.IH [OF history_push [OF Cons.prems(1)] Cons.prems(2), of x] Cons.prems(3) by simp
  next
    case Report
    let ?n = "256 * (length xs div 256)"
    have fits: "length xs \<le> m + 2 ^ 18" "lat_fits ops (length xs) ?n" using Cons.prems(3) Report by simp_all
    obtain l' t where rep: "latency_report l total_new = (l', t)" "history xs ?n l'" "sums_up (drop m (take ?n xs)) t"
      using latency_report_law [OF Cons.prems(1,2) fits(1)] unfolding sums_up_def by blast
    obtain yss where yss: "list_all2 sums_up yss (fst (lat_run ops l'))"
      "concat yss = drop ?n (take (reported ops (length xs) ?n) (xs @ pushed ops))"
      using Cons.IH [OF rep(2) _ fits(2)] by auto
    let ?zs = "take (reported ops (length xs) ?n) (xs @ pushed ops)"
    have le: "m \<le> ?n" "?n \<le> length xs" "?n \<le> reported ops (length xs) ?n"
      using Cons.prems(1) block_mono [OF Cons.prems(2)] reported_mono [of ?n "length xs" ops]
      by (auto simp: history_def)
    have "take ?n ?zs = take ?n xs" using le(2,3) by (simp add: min_def)
    then have "drop m (take ?n xs) @ drop ?n ?zs = drop m ?zs"
      using drop_take_drop [OF le(1), of ?zs] by (simp only:)
    then show ?thesis
      using rep yss Report by (intro exI [of _ "drop m (take ?n xs) # yss"]) (simp add: split_beta del: take_append drop_append)
  qed
qed

section \<open>What the reports show\<close>

text \<open>A 99th percentile: at least one sample in a hundred reaches it, and fewer than one in a hundred are larger.\<close>

definition percentile_99 :: "int list \<Rightarrow> int \<Rightarrow> bool" where
  "percentile_99 ys p \<longleftrightarrow> p \<in> set ys \<and> int (length ys) div 100 \<le> int (length (filter (\<lambda>y. p \<le> y) ys)) \<and>
    (100 \<le> length ys \<longrightarrow> int (length (filter (\<lambda>y. p < y) ys)) < int (length ys) div 100)"

lemma p99_of_samples:
  assumes "ys \<noteq> []" "sums_up ys t"
  shows "percentile_99 ys (total_p99 t)"
proof -
  have c: "counts ys (fold tail_inc ys [])"
    using counts_fold [OF counts_Nil, of ys] by simp
  note p = p99_correct [OF c assms(1), of "int (length ys) div 100"]
  have "int (length ys) div 100 \<le> int (length ys)" "100 \<le> length ys \<Longrightarrow> 0 < int (length ys) div 100"
    by (simp_all add: zdiv_int [symmetric])
  with p show ?thesis using assms(2) by (simp add: percentile_99_def total_p99_def sums_up_def)
qed



lemma demo_p99: "get_p99 (fold tail_inc [5, 9, 5, 7] []) 2 = 7"
  by code_simp

end
