(* ===== verification/Client_Verify.thy ===== *)
theory Client_Verify
  imports Net_Io Client_Stats
begin

text \<open>
  The verifying client, \<^verbatim>\<open>tcp_echo/client_epoll_verify.cpp\<close>: every connection sends packets of consecutive
  64-bit numbers to an echo server, and compares what comes back with the numbers it expects; \<^verbatim>\<open>err_cnt\<close> counts
  the differences over all connections of an event loop.  With it \<^verbatim>\<open>util.cpp\<close> (\<^verbatim>\<open>send_full\<close>, \<^verbatim>\<open>recv_full\<close>) and the
  throughput counters that both load generators keep.

  The connections of a loop share its two packet buffers of 1024 bytes; accesses outside of them are the
  fault \<open>Buffer_Overrun\<close>, a \<^verbatim>\<open>send_full\<close> that does not return is \<open>Send_Hangs\<close>.
\<close>

section \<open>Numbers in memory (little-endian)\<close>

fun nat_bytes :: "nat \<Rightarrow> nat \<Rightarrow> byte list" where
  "nat_bytes 0 n = []"
| "nat_bytes (Suc k) n = word_of_nat n # nat_bytes k (n div 256)"

fun bytes_nat :: "byte list \<Rightarrow> nat" where
  "bytes_nat [] = 0"
| "bytes_nat (b # bs) = unat b + 256 * bytes_nat bs"

definition le_bytes :: "u64 \<Rightarrow> byte list" where "le_bytes x = nat_bytes 8 (unat x)"
definition le_word :: "byte list \<Rightarrow> u64" where "le_word bs = word_of_nat (bytes_nat bs)"

lemma length_nat_bytes [simp]: "length (nat_bytes k n) = k"
  by (induction k arbitrary: n) simp_all

lemma length_le_bytes [simp]: "length (le_bytes x) = 8"
  by (simp add: le_bytes_def)

lemma unat_byte: "unat (word_of_nat n :: byte) = n mod 256"
  by (simp add: unat_of_nat)

lemma bytes_nat_bytes: "bytes_nat (nat_bytes k n) = n mod 256 ^ k"
proof (induction k arbitrary: n)
  case (Suc k)
  show ?case by (simp add: Suc unat_byte mod_mult2_eq)
qed simp

lemma bytes_nat_bound: "bytes_nat bs < 256 ^ length bs"
proof (induction bs)
  case (Cons b bs)
  have "unat b < 256" using unsigned_less [of b, where ?'a = nat] by simp
  with Cons show ?case by simp
qed simp

lemma nat_bytes_of: "nat_bytes (length bs) (bytes_nat bs) = bs"
proof (induction bs)
  case (Cons b bs)
  have b: "unat b < 256" using unsigned_less [of b, where ?'a = nat] by simp
  then have "(unat b + 256 * bytes_nat bs) div 256 = bytes_nat bs" by simp
  moreover have "word_of_nat (unat b + 256 * bytes_nat bs) = b"
    by (rule word_unat_eq_iff [THEN iffD2], unfold unat_byte) (use b in simp)
  ultimately show ?case using Cons by simp
qed simp

lemma le_word_bytes [simp]: "le_word (le_bytes x) = x"
proof -
  have "unat x < 256 ^ 8" using unsigned_less [of x, where ?'a = nat] by simp
  then show ?thesis by (simp add: le_word_def le_bytes_def bytes_nat_bytes)
qed

lemma le_bytes_word: "length bs = 8 \<Longrightarrow> le_bytes (le_word bs) = bs"
proof -
  assume len: "length bs = 8"
  then have "bytes_nat bs < 2 ^ 64" using bytes_nat_bound [of bs] by simp
  then have "unat (word_of_nat (bytes_nat bs) :: u64) = bytes_nat bs" by (simp add: unat_of_nat)
  then show ?thesis using nat_bytes_of [of bs] len by (simp add: le_word_def le_bytes_def)
qed

section \<open>\<^verbatim>\<open>util.cpp\<close>\<close>

text \<open>The loops, with what remains to be sent, and what has been received.\<close>

partial_function (option) send_rest :: "('k, 'z) kernel_scheme \<Rightarrow> int \<Rightarrow> byte list \<Rightarrow> 'k world \<Rightarrow> (byte list \<times> 'k world) option" where
  [code]: "send_rest K fd cur w =
    (if cur = [] then Some ([], w)
     else
      (case sys_send K fd cur w of
        (SendErr e, w1) \<Rightarrow> Some (cur, w1)
      | (SendLen n, w1) \<Rightarrow> send_rest K fd (drop n cur) w1))"

definition send_full :: "('k, 'z) kernel_scheme \<Rightarrow> int \<Rightarrow> byte list \<Rightarrow> 'k world \<Rightarrow> (int \<times> 'k world) option" where
  "send_full K fd msg w =
    map_option (\<lambda>(remaining, w1). (int (length msg) - int (length remaining), w1)) (send_rest K fd msg w)"

function (sequential) recv_rest :: "('k, 'z) kernel_scheme \<Rightarrow> int \<Rightarrow> nat \<Rightarrow> byte list \<Rightarrow> 'k world \<Rightarrow> byte list \<times> 'k world" where
  "recv_rest K fd remaining got w =
    (if remaining = 0 then (got, w)
     else
      (case sys_recv K fd remaining w of
        (RecvErr e, w1) \<Rightarrow> (got, w1)
      | (RecvData bs, w1) \<Rightarrow> if bs = [] then (got, w1) else recv_rest K fd (remaining - length bs) (got @ bs) w1))"
  by pat_completeness auto

termination recv_rest
proof (relation "measure (\<lambda>(K, fd, remaining, got, w). remaining)", goal_cases)
  case (2 K fd remaining got w x y bs)
  then show ?case by (cases bs) auto
qed simp

declare recv_rest.simps [simp del]

definition recv_full :: "('k, 'z) kernel_scheme \<Rightarrow> int \<Rightarrow> nat \<Rightarrow> 'k world \<Rightarrow> int \<times> byte list \<times> 'k world" where
  "recv_full K fd len w = (case recv_rest K fd len [] w of (got, w1) \<Rightarrow> (int (length got), got, w1))"

section \<open>\<^verbatim>\<open>class ThroughputTracer\<close>\<close>

record throughput =
  th_data :: "u64 list"
  th_stamp :: "int \<times> int"

definition TX_PKT :: nat where "TX_PKT = 0"
definition RX_PKT :: nat where "RX_PKT = 1"
definition TX_BYTE :: nat where "TX_BYTE = 2"
definition RX_BYTE :: nat where "RX_BYTE = 3"

definition throughput_new :: "int \<times> int \<Rightarrow> throughput" where
  "throughput_new now = \<lparr>th_data = [0, 0, 0, 0], th_stamp = now\<rparr>"

definition th_inc :: "nat \<Rightarrow> throughput \<Rightarrow> throughput" where
  "th_inc idx t = t\<lparr>th_data := (th_data t)[idx := th_data t ! idx + 1]\<rparr>"

definition th_add :: "nat \<Rightarrow> int \<Rightarrow> throughput \<Rightarrow> throughput" where
  "th_add idx val t = t\<lparr>th_data := (th_data t)[idx := th_data t ! idx + word_of_int val]\<rparr>"

text \<open>\<^verbatim>\<open>report\<close>: the rates since \<open>old\<close> are added to the total, and \<open>old\<close> becomes \<open>now\<close>.\<close>

definition th_report :: "throughput \<Rightarrow> throughput \<Rightarrow> totals \<Rightarrow> throughput \<times> totals" where
  "th_report now old t =
    (let dt_time = (snd (th_stamp now) - snd (th_stamp old)) + (fst (th_stamp now) - fst (th_stamp old)) * 1000 * 1000;
         speed = (\<lambda>i. rat_of_int (uint (th_data now ! i - th_data old ! i)) * 1000 * 1000 / rat_of_int dt_time)
     in (now, t\<lparr>tt_data := map (\<lambda>i. tt_data t ! i + speed i) [0..<4]\<rparr>))"

section \<open>\<^verbatim>\<open>class Connection\<close>\<close>

definition client_buf_size :: nat where "client_buf_size = 1024"

record verify_conn =
  vc_fd :: int
  vc_tx_seq :: u64
  vc_rx_seq :: u64

text \<open>What the connections of an \<^verbatim>\<open>EventLoop\<close> share.\<close>

record verify_loop =
  vl_pkt_size :: nat
  vl_tx_buf :: "byte list"
  vl_rx_buf :: "byte list"
  vl_tracer :: throughput
  vl_err_cnt :: u64

datatype client_fault = Buffer_Overrun | Send_Hangs | Bad_Index

text \<open>The loop of \<^verbatim>\<open>send\<close> that fills the packet, from byte \<open>i\<close> on.\<close>

function (sequential) fill_packet :: "nat \<Rightarrow> nat \<Rightarrow> u64 \<Rightarrow> byte list \<Rightarrow> (u64 \<times> byte list) option" where
  "fill_packet i pkt_size tx_seq buf =
    (if i < pkt_size then
      (if i + 8 \<le> length buf
       then fill_packet (i + 8) pkt_size (tx_seq + 1) (take i buf @ le_bytes tx_seq @ drop (i + 8) buf)
       else None)
     else Some (tx_seq, buf))"
  by pat_completeness auto

termination fill_packet
  by (relation "measure (\<lambda>(i, pkt_size, _). pkt_size - i)") auto

declare fill_packet.simps [simp del]

definition vc_send :: "('k, 'z) kernel_scheme \<Rightarrow> verify_conn \<times> verify_loop \<times> 'k world \<Rightarrow>
    client_fault + verify_conn \<times> verify_loop \<times> 'k world" where
  "vc_send K = (\<lambda>(c, v, w).
    case fill_packet 0 (vl_pkt_size v) (vc_tx_seq c) (vl_tx_buf v) of
      None \<Rightarrow> Inl Buffer_Overrun
    | Some (tx_seq, buf) \<Rightarrow>
        (case send_full K (vc_fd c) (take (vl_pkt_size v) buf) w of
          None \<Rightarrow> Inl Send_Hangs
        | Some (sent, w1) \<Rightarrow>
            Inr (c\<lparr>vc_tx_seq := tx_seq\<rparr>,
              v\<lparr>vl_tx_buf := buf, vl_tracer := th_add TX_BYTE sent (th_inc TX_PKT (vl_tracer v))\<rparr>, w1)))"

text \<open>The loop of \<^verbatim>\<open>recv\<close> that checks the packet.\<close>

function (sequential) check_packet :: "nat \<Rightarrow> nat \<Rightarrow> u64 \<Rightarrow> u64 \<Rightarrow> byte list \<Rightarrow> (u64 \<times> u64) option" where
  "check_packet i pkt_size rx_seq err_cnt buf =
    (if i < pkt_size then
      (if i + 8 \<le> length buf
       then let val = le_word (take 8 (drop i buf)) in
         check_packet (i + 8) pkt_size (rx_seq + 1) (if val \<noteq> rx_seq then err_cnt + 1 else err_cnt) buf
       else None)
     else Some (rx_seq, err_cnt))"
  by pat_completeness auto

termination check_packet
  by (relation "measure (\<lambda>(i, pkt_size, _). pkt_size - i)") auto

declare check_packet.simps [simp del]

definition vc_recv :: "('k, 'z) kernel_scheme \<Rightarrow> verify_conn \<times> verify_loop \<times> 'k world \<Rightarrow>
    client_fault + int \<times> verify_conn \<times> verify_loop \<times> 'k world" where
  "vc_recv K = (\<lambda>(c, v, w).
    case sys_recv K (vc_fd c) (vl_pkt_size v) w of
      (RecvErr e, w1) \<Rightarrow> Inr (-1, c, v, w1)
    | (RecvData bs, w1) \<Rightarrow>
        if bs = [] then Inr (-1, c, v, w1)
        else if length bs > length (vl_rx_buf v) then Inl Buffer_Overrun
        else
          (let buf = bs @ drop (length bs) (vl_rx_buf v);
               v1 = v\<lparr>vl_rx_buf := buf, vl_tracer := th_add RX_BYTE (int (length bs)) (th_inc RX_PKT (vl_tracer v))\<rparr>
           in if length bs = vl_pkt_size v then
               (case check_packet 0 (vl_pkt_size v) (vc_rx_seq c) (vl_err_cnt v) buf of
                 None \<Rightarrow> Inl Buffer_Overrun
               | Some (rx_seq, err_cnt) \<Rightarrow>
                   Inr (int (length bs), c\<lparr>vc_rx_seq := rx_seq\<rparr>, v1\<lparr>vl_err_cnt := err_cnt\<rparr>, w1))
              else Inr (int (length bs), c, v1, w1)))"

definition vc_handle :: "('k, 'z) kernel_scheme \<Rightarrow> u32 \<Rightarrow> verify_conn \<times> verify_loop \<times> 'k world \<Rightarrow>
    client_fault + int \<times> verify_conn \<times> verify_loop \<times> 'k world" where
  "vc_handle K ev s =
    (if has ev EPOLLIN then
      (case vc_recv K s of
        Inl f \<Rightarrow> Inl f
      | Inr (ret, s1) \<Rightarrow>
          if ret < 0 then Inr (-1, s1)
          else (case vc_send K s1 of Inl f \<Rightarrow> Inl f | Inr s2 \<Rightarrow> Inr (0, s2)))
     else case s of (c, v, w) \<Rightarrow> Inr (-1, c, v, w))"

section \<open>\<^verbatim>\<open>class EventLoop\<close>\<close>

type_synonym 'k verify_state = "verify_conn list \<times> verify_loop \<times> 'k world"

text \<open>The constructor: the given descriptors are connected and registered, then every connection sends.\<close>

fun vl_register :: "int list \<Rightarrow> 'k world \<Rightarrow> 'k world" where
  "vl_register [] w = w"
| "vl_register (fd # fds) w = vl_register fds (emit (CtlAdd fd EPOLLIN) w)"

fun vl_send_all :: "('k, 'z) kernel_scheme \<Rightarrow> verify_conn list \<Rightarrow> verify_loop \<times> 'k world \<Rightarrow> client_fault + 'k verify_state" where
  "vl_send_all K [] (v, w) = Inr ([], v, w)"
| "vl_send_all K (c # cs) (v, w) =
    (case vc_send K (c, v, w) of
      Inl f \<Rightarrow> Inl f
    | Inr (c1, v1, w1) \<Rightarrow>
        (case vl_send_all K cs (v1, w1) of Inl f \<Rightarrow> Inl f | Inr (cs2, v2, w2) \<Rightarrow> Inr (c1 # cs2, v2, w2)))"

text \<open>\<^verbatim>\<open>err_cnt\<close> is not initialised: it starts as \<open>junk\<close>.\<close>

definition vl_new :: "('k, 'z) kernel_scheme \<Rightarrow> u64 \<Rightarrow> int \<times> int \<Rightarrow> int list \<Rightarrow> nat \<Rightarrow> 'k world \<Rightarrow> client_fault + 'k verify_state" where
  "vl_new K junk now fds pkt_size w =
    vl_send_all K (map (\<lambda>fd. \<lparr>vc_fd = fd, vc_tx_seq = 0, vc_rx_seq = 0\<rparr>) fds)
      (\<lparr>vl_pkt_size = pkt_size, vl_tx_buf = replicate client_buf_size 0, vl_rx_buf = replicate client_buf_size 0,
        vl_tracer = throughput_new now, vl_err_cnt = junk\<rparr>, vl_register fds w)"

text \<open>\<^verbatim>\<open>run\<close>: the events one by one, until a handler fails.  The result tells whether the loop still runs.\<close>

fun vl_run :: "('k, 'z) kernel_scheme \<Rightarrow> (nat \<times> u32) list \<Rightarrow> 'k verify_state \<Rightarrow> client_fault + bool \<times> 'k verify_state" where
  "vl_run K [] s = Inr (True, s)"
| "vl_run K ((i, ev) # evs) (cs, v, w) =
    (if i < length cs then
      (case vc_handle K ev (cs ! i, v, w) of
        Inl f \<Rightarrow> Inl f
      | Inr (ret, c1, v1, w1) \<Rightarrow>
          if ret < 0 then Inr (False, cs[i := c1], v1, w1) else vl_run K evs (cs[i := c1], v1, w1))
     else Inl Bad_Index)"

text \<open>\<^verbatim>\<open>report\<close>, called from the main thread.\<close>

definition vl_report :: "bool \<Rightarrow> int \<times> int \<Rightarrow> verify_loop \<Rightarrow> throughput \<Rightarrow> totals \<Rightarrow> int \<times> throughput \<times> totals" where
  "vl_report running now v old t =
    (if \<not> running then (-1, old, t)
     else (case th_report ((vl_tracer v)\<lparr>th_stamp := now\<rparr>) old t of (old1, t1) \<Rightarrow> (0, old1, t1)))"

section \<open>What a packet is, and what is wrong with it\<close>

text \<open>The stream of numbers that a connection sends, from number \<open>a\<close> on.\<close>

definition stream_of :: "nat \<Rightarrow> nat \<Rightarrow> byte list" where
  "stream_of a n = concat (map (\<lambda>j. le_bytes (word_of_nat j)) [a..<a + n])"

lemma length_stream [simp]: "length (stream_of a n) = 8 * n"
  by (induction n) (simp_all add: stream_of_def)

lemma stream_Suc: "stream_of a (Suc n) = stream_of a n @ le_bytes (word_of_nat (a + n))"
  by (simp add: stream_of_def)

lemma stream_add: "stream_of a (n + k) = stream_of a n @ stream_of (a + n) k"
proof (induction k)
  case 0
  show ?case by (simp add: stream_of_def)
next
  case (Suc k)
  then show ?case by (simp add: stream_Suc add.assoc)
qed

lemma stream_Cons: "stream_of a (Suc n) = le_bytes (word_of_nat a) @ stream_of (Suc a) n"
  using stream_add [of a 1 n] by (simp add: stream_of_def)

text \<open>How many of the numbers in \<open>bs\<close> differ from \<open>a\<close>, \<open>a + 1\<close> and so on.\<close>

fun mismatches :: "u64 \<Rightarrow> nat \<Rightarrow> byte list \<Rightarrow> nat" where
  "mismatches a 0 bs = 0"
| "mismatches a (Suc n) bs = (if le_word (take 8 bs) \<noteq> a then 1 else 0) + mismatches (a + 1) n (drop 8 bs)"

lemma mismatches_append:
  "length bs = 8 * n \<Longrightarrow> mismatches a (n + k) (bs @ cs) = mismatches a n bs + mismatches (a + word_of_nat n) k cs"
  by (induction n arbitrary: a bs) (simp_all add: add.assoc)

lemma mismatches_none:
  "length bs = 8 * n \<Longrightarrow> mismatches (word_of_nat a) n bs = 0 \<longleftrightarrow> bs = stream_of a n"
proof (induction n arbitrary: a bs)
  case (Suc n)
  have split: "bs = take 8 bs @ drop 8 bs" "length (take 8 bs) = 8" using Suc.prems by simp_all
  have "bs = stream_of a (Suc n) \<longleftrightarrow> take 8 bs = le_bytes (word_of_nat a) \<and> drop 8 bs = stream_of (Suc a) n"
    unfolding stream_Cons using split by (metis append_eq_append_conv length_le_bytes)
  also have "take 8 bs = le_bytes (word_of_nat a) \<longleftrightarrow> le_word (take 8 bs) = word_of_nat a"
    using split(2) le_bytes_word by (metis le_word_bytes)
  finally show ?case
    using Suc.IH [of "drop 8 bs" "Suc a"] Suc.prems by (simp add: add.commute)
qed (simp add: stream_of_def)

lemma mismatches_bound: "mismatches a n bs \<le> n"
  by (induction a n bs rule: mismatches.induct) auto

lemma fill_packet_law:
  assumes "i + 8 * n \<le> length buf"
  shows "fill_packet i (i + 8 * n) (word_of_nat a) buf =
    Some (word_of_nat (a + n), take i buf @ stream_of a n @ drop (i + 8 * n) buf)"
  using assms
proof (induction n arbitrary: i a buf)
  case 0
  then show ?case by (subst fill_packet.simps) (simp add: stream_of_def)
next
  case (Suc n)
  let ?b = "take i buf @ le_bytes (word_of_nat a) @ drop (i + 8) buf"
  have "fill_packet (i + 8) ((i + 8) + 8 * n) (word_of_nat (Suc a)) ?b =
      Some (word_of_nat (Suc a + n), take (i + 8) ?b @ stream_of (Suc a) n @ drop (i + 8 + 8 * n) ?b)"
    by (rule Suc.IH) (use Suc.prems in simp)
  moreover have "take (i + 8) ?b = take i buf @ le_bytes (word_of_nat a)" "drop (i + 8 + 8 * n) ?b = drop (i + 8 * Suc n) buf"
    using Suc.prems by (simp_all add: ac_simps)
  ultimately show ?case
    using Suc.prems by (subst fill_packet.simps) (simp add: stream_Cons ac_simps)
qed

lemma check_packet_law:
  assumes "i + 8 * n \<le> length buf"
  shows "check_packet i (i + 8 * n) rx err buf =
    Some (rx + word_of_nat n, err + word_of_nat (mismatches rx n (drop i buf)))"
  using assms
proof (induction n arbitrary: i rx err)
  case 0
  then show ?case by (subst check_packet.simps) simp
next
  case (Suc n)
  have "check_packet (i + 8) ((i + 8) + 8 * n) (rx + 1) e buf =
      Some (rx + 1 + word_of_nat n, e + word_of_nat (mismatches (rx + 1) n (drop (i + 8) buf)))" for e
    by (rule Suc.IH) (use Suc.prems in simp)
  then show ?case
    using Suc.prems by (subst check_packet.simps) (simp add: Let_def ac_simps)
qed

section \<open>What the calls do to the world\<close>

text \<open>Only bytes were sent on the descriptor.\<close>

definition only_sent :: "int \<Rightarrow> byte list \<Rightarrow> 'k world \<Rightarrow> 'k world \<Rightarrow> bool" where
  "only_sent fd bs w w' \<longleftrightarrow> (\<exists>es. w_trace w' = w_trace w @ es \<and> (\<forall>e \<in> set es. \<exists>cs. e = Sent fd cs)) \<and>
    sent_on fd (w_trace w') = sent_on fd (w_trace w) @ bs"

lemma only_sentD:
  assumes "only_sent fd bs w w'"
  shows "only_on fd w w'" "received_on g (w_trace w') = received_on g (w_trace w)"
    "Recvd g cs \<in> set (w_trace w') \<longleftrightarrow> Recvd g cs \<in> set (w_trace w)"
    "sent_on fd (w_trace w') = sent_on fd (w_trace w) @ bs"
proof -
  obtain es where es: "w_trace w' = w_trace w @ es" "\<forall>e \<in> set es. \<exists>cs. e = Sent fd cs"
    using assms by (auto simp: only_sent_def)
  show "only_on fd w w'" using es by (force simp: only_on_def)
  have "foldl (recv_step g) acc es = acc" for acc
    using es(2) by (induction es) auto
  then show "received_on g (w_trace w') = received_on g (w_trace w)" using es(1) by simp
  show "Recvd g cs \<in> set (w_trace w') \<longleftrightarrow> Recvd g cs \<in> set (w_trace w)" using es by auto
  show "sent_on fd (w_trace w') = sent_on fd (w_trace w) @ bs" using assms by (simp add: only_sent_def)
qed

lemma only_sent_refl: "w_trace w' = w_trace w \<Longrightarrow> only_sent fd [] w w'"
  by (simp add: only_sent_def)

lemma only_sent_trans: "only_sent fd bs w w1 \<Longrightarrow> only_sent fd cs w1 w2 \<Longrightarrow> only_sent fd (bs @ cs) w w2"
  by (auto simp: only_sent_def)

lemma send_rest_law:
  assumes "kernel_ok K" "send_rest K fd cur w = Some (rest, w')"
  shows "\<exists>done. cur = done @ rest \<and> only_sent fd done w w'"
proof -
  have "K' = K \<longrightarrow> (\<exists>done. cur = done @ fst y \<and> only_sent fd done w (snd y))"
    if "send_rest K' fd cur w = Some y" for K' fd cur w y
    using that
  proof (rule send_rest.raw_induct [rotated], intro impI)
    fix f K' fd cur w y
    assume IH: "\<And>K' fd cur w y. f K' fd cur w = Some y \<Longrightarrow>
        K' = K \<longrightarrow> (\<exists>done. cur = done @ fst y \<and> only_sent fd done w (snd y))"
      and body: "(if cur = [] then Some ([], w) else case sys_send K' fd cur w of
          (SendLen n, w1) \<Rightarrow> f K' fd (drop n cur) w1 | (SendErr e, w1) \<Rightarrow> Some (cur, w1)) = Some y" and K: "K' = K"
    show "\<exists>done. cur = done @ fst y \<and> only_sent fd done w (snd y)"
    proof (cases "cur = []")
      case True
      then show ?thesis using body by (auto simp: only_sent_refl)
    next
      case False
      obtain res w1 where sys: "sys_send K fd cur w = (res, w1)" by (cases "sys_send K fd cur w")
      from assms(1) sys show ?thesis
      proof (cases rule: sys_send_cases)
        case (sent n)
        then have "f K fd (drop n cur) w1 = Some y" using body False sys K by simp
        then obtain d where d: "drop n cur = d @ fst y" "only_sent fd d w1 (snd y)" using IH by blast
        have "only_sent fd (take n cur) w w1" using sent(3) by (simp add: only_sent_def)
        from only_sent_trans [OF this d(2)] show ?thesis
          using d(1) by (metis append.assoc append_take_drop_id)
      next
        case (error e)
        then show ?thesis using body False sys K by (auto simp: only_sent_refl)
      qed
    qed
  qed
  then show ?thesis using assms(2) by fastforce
qed

lemma vc_send_law:
  assumes "kernel_ok K" "vl_pkt_size v = 8 * q" "8 * q \<le> client_buf_size" "length (vl_tx_buf v) = client_buf_size"
    and "vc_tx_seq c = word_of_nat a" "vc_send K (c, v, w) = r"
  shows "r = Inl Send_Hangs \<or> (\<exists>c' v' w' sent rest. r = Inr (c', v', w') \<and> stream_of a q = sent @ rest \<and> only_sent (vc_fd c) sent w w' \<and>
    vc_fd c' = vc_fd c \<and> vc_rx_seq c' = vc_rx_seq c \<and> vc_tx_seq c' = word_of_nat (a + q) \<and>
    vl_pkt_size v' = vl_pkt_size v \<and> length (vl_tx_buf v') = client_buf_size \<and> vl_rx_buf v' = vl_rx_buf v \<and> vl_err_cnt v' = vl_err_cnt v)"
proof -
  let ?buf = "stream_of a q @ drop (8 * q) (vl_tx_buf v)"
  have fill: "fill_packet 0 (vl_pkt_size v) (vc_tx_seq c) (vl_tx_buf v) = Some (word_of_nat (a + q), ?buf)"
    using fill_packet_law [of 0 q "vl_tx_buf v" a] assms(2-5) by simp
  have pkt: "take (vl_pkt_size v) ?buf = stream_of a q" "length ?buf = client_buf_size" using assms(2-4) by simp_all
  show ?thesis
  proof (cases "send_rest K (vc_fd c) (stream_of a q) w")
    case None
    then show ?thesis using assms(6) fill pkt by (auto simp: vc_send_def send_full_def)
  next
    case (Some y)
    obtain rest w1 where y: "y = (rest, w1)" by (cases y)
    obtain d where d: "stream_of a q = d @ rest" "only_sent (vc_fd c) d w w1"
      using send_rest_law [OF assms(1)] Some y by blast
    have sent: "send_full K (vc_fd c) (take (vl_pkt_size v) ?buf) w = Some (int (length (stream_of a q)) - int (length rest), w1)"
      unfolding pkt(1) send_full_def using Some y by simp
    define v1 where "v1 = v\<lparr>vl_tx_buf := ?buf,
      vl_tracer := th_add TX_BYTE (int (length (stream_of a q)) - int (length rest)) (th_inc TX_PKT (vl_tracer v))\<rparr>"
    have "r = Inr (c\<lparr>vc_tx_seq := word_of_nat (a + q)\<rparr>, v1, w1)"
      using assms(6) fill sent by (simp add: vc_send_def v1_def del: take_append length_stream)
    then show ?thesis
      using d pkt(2) by (auto simp: v1_def simp del: length_append)
  qed
qed

lemma vc_recv_law:
  assumes "kernel_ok K" "vl_pkt_size v = 8 * q" "8 * q \<le> client_buf_size" "length (vl_rx_buf v) = client_buf_size"
  obtains (failed) w' where "vc_recv K (c, v, w) = Inr (-1, c, v, w')"
      "w_trace w' = w_trace w \<or> w_trace w' = w_trace w @ [Recvd (vc_fd c) []]"
  | (got) bs c' v' w' where "vc_recv K (c, v, w) = Inr (int (length bs), c', v', w')" "bs \<noteq> []" "length bs \<le> 8 * q"
      "w_trace w' = w_trace w @ [Recvd (vc_fd c) bs]" "vc_fd c' = vc_fd c" "vc_tx_seq c' = vc_tx_seq c"
      "vl_pkt_size v' = vl_pkt_size v" "vl_tx_buf v' = vl_tx_buf v" "length (vl_rx_buf v') = client_buf_size"
      "vc_rx_seq c' = (if length bs = 8 * q then vc_rx_seq c + word_of_nat q else vc_rx_seq c)"
      "vl_err_cnt v' = (if length bs = 8 * q then vl_err_cnt v + word_of_nat (mismatches (vc_rx_seq c) q bs) else vl_err_cnt v)"
proof -
  obtain res w1 where sys: "sys_recv K (vc_fd c) (vl_pkt_size v) w = (res, w1)" by (cases "sys_recv K (vc_fd c) (vl_pkt_size v) w")
  from assms(1) sys show thesis
  proof (cases rule: sys_recv_cases)
    case (error e)
    then show thesis using sys by (intro failed [of w1]) (simp_all add: vc_recv_def)
  next
    case (data bs)
    show thesis
    proof (cases "bs = []")
      case True
      then show thesis using sys data by (intro failed [of w1]) (simp_all add: vc_recv_def)
    next
      case False
      let ?buf = "bs @ drop (length bs) (vl_rx_buf v)"
      have fits: "length bs \<le> client_buf_size" using data(2) assms(2,3) by simp
      then have len: "length ?buf = client_buf_size" using assms(4) by simp
      have "check_packet 0 (0 + 8 * q) (vc_rx_seq c) (vl_err_cnt v) ?buf =
          Some (vc_rx_seq c + word_of_nat q, vl_err_cnt v + word_of_nat (mismatches (vc_rx_seq c) q (drop 0 ?buf)))"
        by (rule check_packet_law) (use len assms(3) in simp)
      moreover have "mismatches (vc_rx_seq c) q ?buf = mismatches (vc_rx_seq c) q bs" if "length bs = 8 * q"
        using mismatches_append [OF that, of "vc_rx_seq c" 0] by simp
      ultimately have check: "check_packet 0 (8 * q) (vc_rx_seq c) (vl_err_cnt v) ?buf =
          Some (vc_rx_seq c + word_of_nat q, vl_err_cnt v + word_of_nat (mismatches (vc_rx_seq c) q bs))" if "length bs = 8 * q"
        using that by simp
      show thesis
      proof (cases "length bs = 8 * q")
        case True
        then show thesis
          using sys data False fits len check [OF True] assms(2,4)
          by (intro got [of bs "c\<lparr>vc_rx_seq := vc_rx_seq c + word_of_nat q\<rparr>" "v\<lparr>vl_rx_buf := ?buf,
              vl_tracer := th_add RX_BYTE (int (length bs)) (th_inc RX_PKT (vl_tracer v)),
              vl_err_cnt := vl_err_cnt v + word_of_nat (mismatches (vc_rx_seq c) q bs)\<rparr>" w1])
            (simp_all add: vc_recv_def Let_def)
      next
        case no: False
        then show thesis
          using sys data False fits len assms(2,4)
          by (intro got [of bs c "v\<lparr>vl_rx_buf := ?buf,
              vl_tracer := th_add RX_BYTE (int (length bs)) (th_inc RX_PKT (vl_tracer v))\<rparr>" w1])
            (simp_all add: vc_recv_def Let_def)
      qed
    qed
  qed
qed

section \<open>The invariant of the event loop\<close>

text \<open>The numbers received on a descriptor that are not the expected ones.\<close>

definition errors_on :: "int \<Rightarrow> io_event list \<Rightarrow> nat" where
  "errors_on fd tr = mismatches 0 (length (received_on fd tr) div 8) (received_on fd tr)"

text \<open>No read returned a part of a packet.\<close>

definition full_reads :: "nat \<Rightarrow> io_event list \<Rightarrow> bool" where
  "full_reads p tr \<longleftrightarrow> (\<forall>fd bs. Recvd fd bs \<in> set tr \<longrightarrow> bs = [] \<or> length bs = p)"

definition bufs_ok :: "nat \<Rightarrow> verify_loop \<Rightarrow> bool" where
  "bufs_ok q v \<longleftrightarrow> vl_pkt_size v = 8 * q \<and> 0 < q \<and> 8 * q \<le> client_buf_size \<and>
    length (vl_tx_buf v) = client_buf_size \<and> length (vl_rx_buf v) = client_buf_size"

definition in_step :: "io_event list \<Rightarrow> verify_conn \<Rightarrow> bool" where
  "in_step tr c \<longleftrightarrow> (\<exists>n. length (received_on (vc_fd c) tr) = 8 * n \<and> vc_rx_seq c = word_of_nat n)"

definition vl_inv :: "nat \<Rightarrow> u64 \<Rightarrow> int list \<Rightarrow> 'k verify_state \<Rightarrow> bool" where
  "vl_inv q junk fds = (\<lambda>(cs, v, w). bufs_ok q v \<and> map vc_fd cs = fds \<and> distinct fds \<and> (\<forall>c \<in> set cs. in_step (w_trace w) c) \<and>
    vl_err_cnt v = junk + word_of_nat (\<Sum>fd \<leftarrow> fds. errors_on fd (w_trace w)))"

lemma full_reads_mono: "full_reads p tr' \<Longrightarrow> set tr \<subseteq> set tr' \<Longrightarrow> full_reads p tr"
  by (auto simp: full_reads_def)

lemma full_reads_sent: "only_sent fd bs w w' \<Longrightarrow> full_reads p (w_trace w') \<Longrightarrow> full_reads p (w_trace w)"
  by (simp add: full_reads_def only_sentD(3))

lemma in_step_cong:
  assumes "received_on (vc_fd c) tr' = received_on (vc_fd c) tr" "vc_fd d = vc_fd c" "vc_rx_seq d = vc_rx_seq c"
  shows "in_step tr' d = in_step tr c"
  using assms by (simp add: in_step_def)

lemma errors_on_sent: "only_sent fd bs w w' \<Longrightarrow> errors_on g (w_trace w') = errors_on g (w_trace w)"
  by (simp add: errors_on_def only_sentD(2))

lemma word_as_nat: "\<exists>a. x = (word_of_nat a :: u64)"
  by (rule exI [of _ "unat x"]) simp

lemma errors_on_packet:
  assumes "w_trace w' = w_trace w @ [Recvd fd bs]" "length (received_on fd (w_trace w)) = 8 * n" "length bs = 8 * q"
  shows "errors_on fd (w_trace w') = errors_on fd (w_trace w) + mismatches (word_of_nat n) q bs"
    "g \<noteq> fd \<Longrightarrow> errors_on g (w_trace w') = errors_on g (w_trace w)"
  using mismatches_append [OF assms(2), of 0 q bs] assms by (simp_all add: errors_on_def)

lemma sum_at:
  assumes "distinct xs" "i < length xs" "\<And>x. x \<in> set xs \<Longrightarrow> x \<noteq> xs ! i \<Longrightarrow> g x = f x"
  shows "(\<Sum>x \<leftarrow> xs. g x) + f (xs ! i) = (\<Sum>x \<leftarrow> xs. f x) + (g (xs ! i) :: nat)"
proof -
  have "sum g (set xs - {xs ! i}) = sum f (set xs - {xs ! i})"
    using assms(3) by (intro sum.cong) auto
  then show ?thesis
    using assms(1,2) sum.remove [of "set xs" "xs ! i" g] sum.remove [of "set xs" "xs ! i" f]
    by (simp add: sum_list_distinct_conv_sum_set)
qed

text \<open>A receive on connection \<open>i\<close>.\<close>

lemma vc_recv_inv:
  assumes K: "kernel_ok K" and inv: "vl_inv q junk fds (cs, v, w)" and i: "i < length cs"
    and run: "vc_recv K (cs ! i, v, w) = Inr (ret, c1, v1, w1)" and full: "full_reads (8 * q) (w_trace w1)"
  shows "vl_inv q junk fds (cs[i := c1], v1, w1)"
proof -
  let ?c = "cs ! i"
  have bufs: "bufs_ok q v" and dist: "distinct (map vc_fd cs)" and all: "map vc_fd cs = fds" and steps: "\<forall>c \<in> set cs. in_step (w_trace w) c"
    and err: "vl_err_cnt v = junk + word_of_nat (\<Sum>fd \<leftarrow> map vc_fd cs. errors_on fd (w_trace w))"
    using inv by (auto simp: vl_inv_def)
  have b: "vl_pkt_size v = 8 * q" "8 * q \<le> client_buf_size" "length (vl_rx_buf v) = client_buf_size"
    using bufs by (simp_all add: bufs_ok_def)
  from K b show ?thesis
  proof (cases rule: vc_recv_law [where c = ?c and w = w])
    case (failed w')
    then have eq: "c1 = ?c" "v1 = v" "w1 = w'" using run by simp_all
    have "received_on g (w_trace w') = received_on g (w_trace w)" for g
      using failed(2) by auto
    then have "in_step (w_trace w') c = in_step (w_trace w) c" "errors_on g (w_trace w') = errors_on g (w_trace w)" for c g
      by (simp_all add: in_step_def errors_on_def)
    then show ?thesis
      using inv by (simp add: eq vl_inv_def)
  next
    case (got bs c' v' w')
    then have eq: "c1 = c'" "v1 = v'" "w1 = w'" using run by simp_all
    have len: "length bs = 8 * q"
      using full got(2,4) unfolding eq full_reads_def by auto
    obtain n where n: "length (received_on (vc_fd ?c) (w_trace w)) = 8 * n" "vc_rx_seq ?c = word_of_nat n"
      using bspec [OF steps nth_mem [OF i]] by (auto simp: in_step_def)
    note packet = errors_on_packet [OF got(4) n(1) len]
    have same: "map vc_fd (cs[i := c']) = map vc_fd cs"
      using got(5) i by (metis list_update_id map_update nth_map length_map)
    have "(\<Sum>fd \<leftarrow> map vc_fd cs. errors_on fd (w_trace w')) + errors_on (vc_fd ?c) (w_trace w) =
        (\<Sum>fd \<leftarrow> map vc_fd cs. errors_on fd (w_trace w)) + errors_on (vc_fd ?c) (w_trace w')"
      using sum_at [OF dist, of i "\<lambda>fd. errors_on fd (w_trace w')" "\<lambda>fd. errors_on fd (w_trace w)"] packet(2) i by simp
    then have sum: "(\<Sum>fd \<leftarrow> map vc_fd cs. errors_on fd (w_trace w')) =
        (\<Sum>fd \<leftarrow> map vc_fd cs. errors_on fd (w_trace w)) + mismatches (word_of_nat n) q bs"
      using packet(1) by simp
    have "in_step (w_trace w') c" if mem: "c \<in> set (cs[i := c'])" for c
    proof -
      obtain j where "j < length (cs[i := c'])" "cs[i := c'] ! j = c" using mem unfolding in_set_conv_nth by blast
      then have j: "j < length cs" "c = cs[i := c'] ! j" by simp_all
      show ?thesis
      proof (cases "j = i")
        case True
        have "vc_rx_seq c' = word_of_nat (n + q)" using got(10) len n(2) by simp
        then show ?thesis
          using True j n(1) got(4,5) len by (auto simp: in_step_def intro!: exI [of _ "n + q"])
      next
        case False
        then have c: "c = cs ! j" using j by simp
        then have "vc_fd c \<noteq> vc_fd ?c" using False dist i j(1) nth_eq_iff_index_eq [OF dist, of j i] by simp
        then have "received_on (vc_fd c) (w_trace w') = received_on (vc_fd c) (w_trace w)" using got(4) by simp
        then show ?thesis
          using steps c nth_mem [OF j(1)] in_step_cong by blast
      qed
    qed
    moreover have "bufs_ok q v'" using got(7-9) bufs by (simp add: bufs_ok_def)
    moreover have "vl_err_cnt v' = junk + word_of_nat (\<Sum>fd \<leftarrow> map vc_fd cs. errors_on fd (w_trace w'))"
      unfolding sum using got(11) len err n(2) by simp
    ultimately show ?thesis
      unfolding vl_inv_def eq prod.case same using dist all by blast
  qed
qed

lemma vc_send_inv:
  assumes K: "kernel_ok K" and inv: "vl_inv q junk fds (cs, v, w)" and i: "i < length cs"
    and run: "vc_send K (cs ! i, v, w) = Inr (c1, v1, w1)"
  shows "vl_inv q junk fds (cs[i := c1], v1, w1) \<and> (\<exists>bs. only_sent (vc_fd (cs ! i)) bs w w1)"
proof -
  let ?c = "cs ! i"
  have bufs: "bufs_ok q v" and dist: "distinct (map vc_fd cs)" and all: "map vc_fd cs = fds" and steps: "\<forall>c \<in> set cs. in_step (w_trace w) c"
    and err: "vl_err_cnt v = junk + word_of_nat (\<Sum>fd \<leftarrow> map vc_fd cs. errors_on fd (w_trace w))"
    using inv by (auto simp: vl_inv_def)
  have b: "vl_pkt_size v = 8 * q" "8 * q \<le> client_buf_size" "length (vl_tx_buf v) = client_buf_size"
    using bufs by (simp_all add: bufs_ok_def)
  obtain a where "vc_tx_seq ?c = word_of_nat a" using word_as_nat by blast
  from vc_send_law [OF K b this run] obtain sent where sent: "only_sent (vc_fd ?c) sent w w1"
    and c1: "vc_fd c1 = vc_fd ?c" "vc_rx_seq c1 = vc_rx_seq ?c"
    and v1: "vl_pkt_size v1 = vl_pkt_size v" "length (vl_tx_buf v1) = client_buf_size" "vl_rx_buf v1 = vl_rx_buf v" "vl_err_cnt v1 = vl_err_cnt v"
    by auto
  have same: "map vc_fd (cs[i := c1]) = map vc_fd cs"
    using c1(1) i by (metis list_update_id map_update nth_map length_map)
  have "in_step (w_trace w1) c" if "c \<in> set (cs[i := c1])" for c
  proof -
    have "c \<in> set cs \<or> c = c1" using that set_update_subset_insert by fastforce
    then show ?thesis
      using steps nth_mem [OF i] c1 in_step_cong [OF only_sentD(2) [OF sent]] by metis
  qed
  moreover have "bufs_ok q v1" using v1 bufs by (simp add: bufs_ok_def)
  ultimately show ?thesis
    unfolding vl_inv_def prod.case same using all dist err v1(4) sent by (auto simp: errors_on_sent [OF sent])
qed

lemma vc_send_only:
  assumes "kernel_ok K" "vc_send K (c, v, w) = Inr (c1, v1, w1)"
  shows "\<exists>bs. only_sent (vc_fd c) bs w w1"
proof -
  obtain tx buf sent where "fill_packet 0 (vl_pkt_size v) (vc_tx_seq c) (vl_tx_buf v) = Some (tx, buf)"
    "send_full K (vc_fd c) (take (vl_pkt_size v) buf) w = Some (sent, w1)"
    using assms(2) by (auto simp: vc_send_def split: option.splits)
  then show ?thesis
    using send_rest_law [OF assms(1)] by (fastforce simp: send_full_def)
qed

lemma vc_handle_inv:
  assumes K: "kernel_ok K" and inv: "vl_inv q junk fds (cs, v, w)" and i: "i < length cs"
    and run: "vc_handle K ev (cs ! i, v, w) = Inr (ret, c1, v1, w1)" and full: "full_reads (8 * q) (w_trace w1)"
  shows "vl_inv q junk fds (cs[i := c1], v1, w1)"
proof (cases "has ev EPOLLIN")
  case False
  then show ?thesis using run inv by (auto simp: vc_handle_def)
next
  case True
  obtain r c2 v2 w2 where recv: "vc_recv K (cs ! i, v, w) = Inr (r, c2, v2, w2)"
    using run True by (auto simp: vc_handle_def split: sum.splits)
  show ?thesis
  proof (cases "r < 0")
    case neg: True
    then show ?thesis
      using vc_recv_inv [OF K inv i recv] run True recv full by (simp add: vc_handle_def)
  next
    case pos: False
    have i': "i < length (cs[i := c2])" and at: "cs[i := c2] ! i = c2" using i by simp_all
    have send: "vc_send K (cs[i := c2] ! i, v2, w2) = Inr (c1, v1, w1)"
      using run True recv pos at by (auto simp: vc_handle_def split: sum.splits)
    have "full_reads (8 * q) (w_trace w2)"
      using vc_send_only [OF K send] full_reads_sent full by blast
    then have "vl_inv q junk fds (cs[i := c2], v2, w2)"
      by (rule vc_recv_inv [OF K inv i recv])
    then show ?thesis
      using vc_send_inv [OF K _ i' send] by simp
  qed
qed

text \<open>The trace only grows.\<close>

definition grows :: "'k world \<Rightarrow> 'k world \<Rightarrow> bool" where
  "grows w w' \<longleftrightarrow> set (w_trace w) \<subseteq> set (w_trace w')"

lemma grows_refl: "grows w w" and grows_trans: "grows w w1 \<Longrightarrow> grows w1 w2 \<Longrightarrow> grows w w2"
  by (auto simp: grows_def)

lemma vc_handle_grows:
  assumes "kernel_ok K" "vc_handle K ev (c, v, w) = Inr (ret, c1, v1, w1)"
  shows "grows w w1"
proof (cases "has ev EPOLLIN")
  case False
  then show ?thesis using assms(2) by (simp add: vc_handle_def grows_def)
next
  case True
  obtain r c2 v2 w2 where recv: "vc_recv K (c, v, w) = Inr (r, c2, v2, w2)"
    using assms(2) True by (auto simp: vc_handle_def split: sum.splits)
  have "only_on (vc_fd c) w w2"
    using recv sys_recv_only [of K "vc_fd c" "vl_pkt_size v" w]
    by (auto simp: vc_recv_def Let_def split: prod.splits recv_res.splits option.splits if_splits)
  then have 1: "grows w w2" by (auto simp: only_on_def grows_def)
  show ?thesis
  proof (cases "r < 0")
    case neg: True
    then show ?thesis using 1 assms(2) True recv by (simp add: vc_handle_def)
  next
    case pos: False
    then have "vc_send K (c2, v2, w2) = Inr (c1, v1, w1)"
      using assms(2) True recv by (auto simp: vc_handle_def split: sum.splits)
    from vc_send_only [OF assms(1) this] have "grows w2 w1"
      by (auto simp: only_sent_def grows_def)
    with 1 show ?thesis by (rule grows_trans)
  qed
qed

lemma vl_run_grows:
  assumes "kernel_ok K"
  shows "vl_run K evs (cs, v, w) = Inr (going, cs', v', w') \<Longrightarrow> grows w w'"
proof (induction evs arbitrary: cs v w)
  case Nil
  then show ?case by (simp add: grows_refl)
next
  case (Cons e evs)
  obtain i ev where e: "e = (i, ev)" by (cases e)
  obtain ret c1 v1 w1 where h: "i < length cs" "vc_handle K ev (cs ! i, v, w) = Inr (ret, c1, v1, w1)"
    using Cons.prems e by (auto split: if_splits sum.splits)
  note 1 = vc_handle_grows [OF assms h(2)]
  show ?case
  proof (cases "ret < 0")
    case True
    then show ?thesis using 1 Cons.prems e h by simp
  next
    case False
    then have "grows w1 w'" using Cons.IH Cons.prems e h by simp
    with 1 show ?thesis by (rule grows_trans)
  qed
qed

lemma vl_run_inv:
  assumes "kernel_ok K"
  shows "vl_inv q junk fds (cs, v, w) \<Longrightarrow> vl_run K evs (cs, v, w) = Inr (going, cs', v', w') \<Longrightarrow>
    full_reads (8 * q) (w_trace w') \<Longrightarrow> vl_inv q junk fds (cs', v', w')"
proof (induction evs arbitrary: cs v w)
  case (Cons e evs)
  obtain i ev where e: "e = (i, ev)" by (cases e)
  obtain ret c1 v1 w1 where h: "i < length cs" "vc_handle K ev (cs ! i, v, w) = Inr (ret, c1, v1, w1)"
    using Cons.prems(2) e by (auto split: if_splits sum.splits)
  show ?case
  proof (cases "ret < 0")
    case True
    then have "cs' = cs[i := c1]" "v' = v1" "w' = w1" using Cons.prems(2) e h by simp_all
    then show ?thesis using vc_handle_inv [OF assms Cons.prems(1) h] Cons.prems(3) by simp
  next
    case False
    then have run: "vl_run K evs (cs[i := c1], v1, w1) = Inr (going, cs', v', w')" using Cons.prems(2) e h by simp
    have "full_reads (8 * q) (w_trace w1)"
      using full_reads_mono [OF Cons.prems(3)] vl_run_grows [OF assms run] by (simp add: grows_def)
    from vc_handle_inv [OF assms Cons.prems(1) h this] show ?thesis
      using Cons.IH run Cons.prems(3) by blast
  qed
qed simp

section \<open>The start\<close>

lemma received_register: "received_on fd (w_trace (vl_register fds w)) = (if fd \<in> set fds then [] else received_on fd (w_trace w))"
  by (induction fds arbitrary: w) auto

lemma vl_send_all_law:
  assumes "kernel_ok K"
  shows "bufs_ok q v \<Longrightarrow> vl_send_all K cs (v, w) = Inr (cs', v', w') \<Longrightarrow>
    bufs_ok q v' \<and> vl_err_cnt v' = vl_err_cnt v \<and> map vc_fd cs' = map vc_fd cs \<and> map vc_rx_seq cs' = map vc_rx_seq cs \<and>
    (\<forall>g. received_on g (w_trace w') = received_on g (w_trace w))"
proof (induction cs arbitrary: cs' v w)
  case (Cons c cs)
  obtain c1 v1 w1 cs2 where send: "vc_send K (c, v, w) = Inr (c1, v1, w1)"
    and rest: "vl_send_all K cs (v1, w1) = Inr (cs2, v', w')" "cs' = c1 # cs2"
    using Cons.prems(2) by (auto split: sum.splits)
  have b: "vl_pkt_size v = 8 * q" "8 * q \<le> client_buf_size" "length (vl_tx_buf v) = client_buf_size"
    using Cons.prems(1) by (simp_all add: bufs_ok_def)
  obtain a where "vc_tx_seq c = word_of_nat a" using word_as_nat by blast
  from vc_send_law [OF assms b this send] obtain sent where sent: "only_sent (vc_fd c) sent w w1"
    and c1: "vc_fd c1 = vc_fd c" "vc_rx_seq c1 = vc_rx_seq c"
    and v1: "vl_pkt_size v1 = vl_pkt_size v" "length (vl_tx_buf v1) = client_buf_size" "vl_rx_buf v1 = vl_rx_buf v" "vl_err_cnt v1 = vl_err_cnt v"
    by auto
  have "bufs_ok q v1" using v1 Cons.prems(1) by (simp add: bufs_ok_def)
  from Cons.IH [OF this rest(1)] show ?case
    using rest(2) c1 v1(4) by (simp add: only_sentD(2) [OF sent])
qed simp

lemma vl_new_inv:
  assumes "kernel_ok K" "0 < q" "8 * q \<le> client_buf_size" "distinct fds" "vl_new K junk now fds (8 * q) w = Inr (cs, v, w')"
  shows "vl_inv q junk fds (cs, v, w')"
proof -
  let ?cs = "map (\<lambda>fd. \<lparr>vc_fd = fd, vc_tx_seq = 0, vc_rx_seq = 0\<rparr>) fds"
  let ?v = "\<lparr>vl_pkt_size = 8 * q, vl_tx_buf = replicate client_buf_size 0, vl_rx_buf = replicate client_buf_size 0,
        vl_tracer = throughput_new now, vl_err_cnt = junk\<rparr>"
  have start: "vl_send_all K ?cs (?v, vl_register fds w) = Inr (cs, v, w')" "bufs_ok q ?v"
    using assms by (simp_all add: vl_new_def bufs_ok_def)
  note law = vl_send_all_law [OF assms(1) start(2,1)]
  have fds: "map vc_fd cs = fds" and rx: "map vc_rx_seq cs = map (\<lambda>_. 0) fds"
    using law by (simp_all add: comp_def)
  have none: "received_on fd (w_trace w') = []" if "fd \<in> set fds" for fd
    using law that by (simp add: received_register)
  have "in_step (w_trace w') c" if "c \<in> set cs" for c
  proof -
    have "vc_fd c \<in> set fds" using that fds by (metis in_set_conv_nth length_map nth_map)
    moreover have "vc_rx_seq c = 0"
      using that rx by (metis (no_types, lifting) ex_map_conv in_set_conv_nth length_map nth_map)
    ultimately show ?thesis using none by (auto simp: in_step_def)
  qed
  moreover have "(\<Sum>fd \<leftarrow> fds. errors_on fd (w_trace w')) = 0"
    using none by (simp add: errors_on_def)
  then have "vl_err_cnt v = junk + word_of_nat (\<Sum>fd \<leftarrow> fds. errors_on fd (w_trace w'))"
    using law by (simp only:) simp
  ultimately show "vl_inv q junk fds (cs, v, w')"
    unfolding vl_inv_def prod.case using law assms(4) fds by simp
qed

section \<open>What the client reports\<close>


text \<open>One connection, packets of one number; the server answers 9 where 0 is expected.\<close>

lemma fill_one: "length buf = client_buf_size \<Longrightarrow> fill_packet 0 8 tx buf = Some (tx + 1, le_bytes tx @ drop 8 buf)"
  using fill_packet_law [of 0 1 buf "unat tx"] by (simp add: client_buf_size_def stream_of_def)

lemma check_one: "length buf = client_buf_size \<Longrightarrow>
    check_packet 0 8 rx err buf = Some (rx + 1, err + (if le_word (take 8 buf) \<noteq> rx then 1 else 0))"
  using check_packet_law [of 0 1 buf rx err] by (simp add: client_buf_size_def)

definition wrong_echo :: "script world" where
  "wrong_echo = \<lparr>w_os = ([RecvData (le_bytes 9)], []), w_trace = []\<rparr>"

lemma wrong_echo_run: "\<exists>s cs v w. vl_new script_kernel 0 (0, 0) [5] 8 wrong_echo = Inr s \<and>
    vl_run script_kernel [(0, EPOLLIN)] s = Inr (True, cs, v, w) \<and> vl_err_cnt v = 1 \<and>
    w_trace w = [CtlAdd 5 EPOLLIN, Recvd 5 (le_bytes 9)]"
proof -
  have "length (le_bytes 9) = length ([] :: byte list) + 8" by simp
  then have ne: "le_bytes x \<noteq> []" for x by (metis length_le_bytes list.size(3) zero_neq_numeral)
  have "has EPOLLIN EPOLLIN" by (simp add: has_def epoll_flags)
  then show ?thesis
    using ne by (simp add: vl_new_def vc_send_def fill_one client_buf_size_def wrong_echo_def send_full_def send_rest.simps
        sys_send_def script_kernel_def vc_handle_def vc_recv_def sys_recv_def check_one Let_def)
qed


text \<open>A short read raises false alarms.  The client skips a read that returned a part of a packet without
  counting its numbers, so that from then on it expects the wrong ones: after a short read of some numbers
  of an intact stream, the next whole packet of the same stream counts as an error in every number.\<close>

lemma verify_short_read_alarms:
  assumes "kernel_ok K" "vl_pkt_size v = 8 * q" "8 * q \<le> client_buf_size" "length (vl_rx_buf v) = client_buf_size"
    and "vc_rx_seq c = word_of_nat n" "0 < m" "m < q"
    and "k_recv K (vc_fd c) (8 * q) (w_os w) = (RecvData (stream_of n m), s1)"
    and "k_recv K (vc_fd c) (8 * q) s1 = (RecvData (stream_of (n + m) q), s2)"
  shows "\<exists>c1 v1 w1 c2 v2 w2. vc_recv K (c, v, w) = Inr (int (8 * m), c1, v1, w1) \<and>
    vc_recv K (c1, v1, w1) = Inr (int (8 * q), c2, v2, w2) \<and>
    received_on (vc_fd c) (w_trace w2) = received_on (vc_fd c) (w_trace w) @ stream_of n (m + q) \<and>
    vl_err_cnt v2 = vl_err_cnt v + word_of_nat q"
proof -
  have "m < 2 ^ 64" using assms(3,7) by (simp add: client_buf_size_def)
  then have shift: "word_of_nat (n + m) \<noteq> (word_of_nat n :: u64)"
    using assms(6) by (auto simp: word_of_nat_eq_0_iff dest: dvd_imp_le)
  have wrong: "mismatches (word_of_nat a) k (stream_of (a + m) k) = k" for a k
  proof (induction k arbitrary: a)
    case (Suc k)
    have "word_of_nat (a + m) \<noteq> (word_of_nat a :: u64)"
      using shift by simp
    then show ?case
      using Suc [of "Suc a"] by (simp add: stream_Cons add.commute)
  qed simp
  have ne: "stream_of n m \<noteq> []" "stream_of (n + m) q \<noteq> []"
    using length_stream [of n m] length_stream [of "n + m" q] assms(6,7) by (auto simp del: length_stream)
  let ?w1 = "emit (Recvd (vc_fd c) (stream_of n m)) (w\<lparr>w_os := s1\<rparr>)"
  let ?w2 = "emit (Recvd (vc_fd c) (stream_of (n + m) q)) (?w1\<lparr>w_os := s2\<rparr>)"
  have sys: "sys_recv K (vc_fd c) (8 * q) w = (RecvData (stream_of n m), ?w1)"
    "sys_recv K (vc_fd c) (8 * q) ?w1 = (RecvData (stream_of (n + m) q), ?w2)"
    using assms(8,9) by (simp_all add: sys_recv_def)
  let ?v1 = "v\<lparr>vl_rx_buf := stream_of n m @ drop (8 * m) (vl_rx_buf v),
    vl_tracer := th_add RX_BYTE (int (8 * m)) (th_inc RX_PKT (vl_tracer v))\<rparr>"
  have first: "vc_recv K (c, v, w) = Inr (int (8 * m), c, ?v1, ?w1)"
    using sys(1) ne(1) assms(2-4,7) by (simp add: vc_recv_def Let_def)
  have bufs: "vl_pkt_size ?v1 = 8 * q" "length (vl_rx_buf ?v1) = client_buf_size" using assms(2-4,7) by simp_all
  from assms(1) bufs(1) assms(3) bufs(2) show ?thesis
  proof (cases rule: vc_recv_law [where c = c and w = ?w1])
    case (failed w')
    then show ?thesis using sys(2) ne(2) bufs assms(2,3) by (auto simp: vc_recv_def Let_def split: option.splits)
  next
    case (got bs c2 v2 w2)
    have "bs = stream_of (n + m) q"
      using got(4) got(1) sys(2) ne(2) bufs assms(2,3) by (auto simp: vc_recv_def Let_def split: option.splits if_splits)
    then show ?thesis
      using first got wrong [of n q] assms(5) by (fastforce simp: stream_add)
  qed
qed

lemma verify_short_read_alarms_witness:
  "\<exists>c v w v2 w2. vl_err_cnt v = (0 :: u64) \<and> received_on 5 (w_trace (w :: script world)) = [] \<and>
    received_on 5 (w_trace w2) = stream_of 0 3 \<and> vl_err_cnt v2 = 2 \<and>
    (\<exists>c1 v1 w1 c2. vc_recv script_kernel (c, v, w) = Inr (8, c1, v1, w1) \<and> vc_recv script_kernel (c1, v1, w1) = Inr (16, c2, v2, w2))"
proof -
  define w :: "script world" where "w = \<lparr>w_os = ([RecvData (stream_of 0 1), RecvData (stream_of 1 2)], []), w_trace = []\<rparr>"
  define c where "c = \<lparr>vc_fd = 5, vc_tx_seq = 4, vc_rx_seq = 0\<rparr>"
  define v where "v = \<lparr>vl_pkt_size = 16, vl_tx_buf = [], vl_rx_buf = replicate client_buf_size 0,
    vl_tracer = throughput_new (0, 0), vl_err_cnt = 0\<rparr>"
  have "take 16 (stream_of 0 1) = stream_of 0 1" "take 16 (stream_of 1 2) = stream_of 1 2" by simp_all
  then have "k_recv script_kernel (vc_fd c) (8 * 2) (w_os w) = (RecvData (stream_of 0 1), ([RecvData (stream_of 1 2)], []))"
    "k_recv script_kernel (vc_fd c) (8 * 2) ([RecvData (stream_of 1 2)], []) = (RecvData (stream_of (0 + 1) 2), ([], []))"
    by (simp_all add: w_def script_kernel_def)
  from verify_short_read_alarms [OF script_kernel_ok _ _ _ _ _ _ this, of v]
  have "\<exists>c1 v1 w1 c2 v2 w2. vc_recv script_kernel (c, v, w) = Inr (int (8 * 1), c1, v1, w1) \<and>
    vc_recv script_kernel (c1, v1, w1) = Inr (int (8 * 2), c2, v2, w2) \<and>
    received_on (vc_fd c) (w_trace w2) = received_on (vc_fd c) (w_trace w) @ stream_of 0 (1 + 2) \<and>
    vl_err_cnt v2 = vl_err_cnt v + word_of_nat 2"
    by (simp add: v_def c_def client_buf_size_def)
  then obtain c1 v1 w1 c2 v2 w2 where run: "vc_recv script_kernel (c, v, w) = Inr (int (8 * 1), c1, v1, w1)"
    "vc_recv script_kernel (c1, v1, w1) = Inr (int (8 * 2), c2, v2, w2)"
    "received_on (vc_fd c) (w_trace w2) = received_on (vc_fd c) (w_trace w) @ stream_of 0 (1 + 2)"
    "vl_err_cnt v2 = vl_err_cnt v + word_of_nat 2"
    by blast
  have "received_on 5 (w_trace w) = []" "vc_fd c = 5" "vl_err_cnt v = 0"
    by (simp_all add: w_def c_def v_def received_on_def)
  with run show ?thesis
    by (intro exI [of _ c] exI [of _ v] exI [of _ w] exI [of _ v2] exI [of _ w2]) (simp, metis numeral_3_eq_3)
qed

section \<open>The packet size\<close>

lemma fill_packet_overrun:
  assumes "length buf = client_buf_size" "i = 8 * k" "client_buf_size < pkt_size" "i \<le> client_buf_size"
  shows "fill_packet i pkt_size tx_seq buf = None"
  using assms
proof (induction "client_buf_size - i" arbitrary: i k tx_seq buf rule: less_induct)
  case less
  show ?case
  proof (cases "i + 8 \<le> client_buf_size")
    case False
    then show ?thesis using less.prems by (subst fill_packet.simps) simp
  next
    case True
    have "fill_packet (i + 8) pkt_size (tx_seq + 1) (take i buf @ le_bytes tx_seq @ drop (i + 8) buf) = None"
      by (rule less.hyps [where k = "Suc k"]) (use less.prems True in simp_all)
    then show ?thesis using less.prems True by (subst fill_packet.simps) simp
  qed
qed

lemma vl_send_all_faults:
  assumes "kernel_ok K"
  shows "bufs_ok q v \<Longrightarrow> vl_send_all K cs (v, w) = Inl f \<Longrightarrow> f = Send_Hangs"
proof (induction cs arbitrary: v w)
  case (Cons c cs)
  have b: "vl_pkt_size v = 8 * q" "8 * q \<le> client_buf_size" "length (vl_tx_buf v) = client_buf_size"
    using Cons.prems(1) by (simp_all add: bufs_ok_def)
  obtain a where a: "vc_tx_seq c = word_of_nat a" using word_as_nat by blast
  show ?case
  proof (cases "vc_send K (c, v, w)")
    case (Inl g)
    then show ?thesis using vc_send_law [OF assms b a Inl] Cons.prems(2) by simp
  next
    case (Inr s)
    obtain c1 v1 w1 where s: "s = (c1, v1, w1)" by (cases s)
    have "bufs_ok q v1"
      using vc_send_law [OF assms b a Inr] s Cons.prems(1) by (auto simp: bufs_ok_def)
    then show ?thesis using Cons.IH Cons.prems(2) Inr s by (auto split: sum.splits)
  qed
qed simp

lemma vc_handle_bufs:
  assumes "kernel_ok K" "bufs_ok q v"
  shows "vc_handle K ev (c, v, w) = Inl Send_Hangs \<or> (\<exists>ret c1 v1 w1. vc_handle K ev (c, v, w) = Inr (ret, c1, v1, w1) \<and> bufs_ok q v1)"
proof (cases "has ev EPOLLIN")
  case False
  then show ?thesis using assms(2) by (simp add: vc_handle_def)
next
  case True
  have b: "vl_pkt_size v = 8 * q" "8 * q \<le> client_buf_size" "length (vl_rx_buf v) = client_buf_size"
    using assms(2) by (simp_all add: bufs_ok_def)
  from assms(1) b show ?thesis
  proof (cases rule: vc_recv_law [where c = c and w = w])
    case (failed w')
    then show ?thesis using True assms(2) by (simp add: vc_handle_def)
  next
    case (got bs c' v' w')
    then have v': "bufs_ok q v'" using assms(2) by (simp add: bufs_ok_def)
    then have b': "vl_pkt_size v' = 8 * q" "8 * q \<le> client_buf_size" "length (vl_tx_buf v') = client_buf_size"
      by (simp_all add: bufs_ok_def)
    obtain a where a: "vc_tx_seq c' = word_of_nat a" using word_as_nat by blast
    have "vc_send K (c', v', w') = Inl Send_Hangs \<or> (\<exists>c2 v2 w2. vc_send K (c', v', w') = Inr (c2, v2, w2) \<and> bufs_ok q v2)"
      using vc_send_law [OF assms(1) b' a refl, of w'] v' by (auto simp: bufs_ok_def)
    then show ?thesis using True got(1) by (auto simp: vc_handle_def)
  qed
qed

lemma vl_run_faults:
  assumes "kernel_ok K"
  shows "bufs_ok q v \<Longrightarrow> vl_run K evs (cs, v, w) \<noteq> Inl Buffer_Overrun"
proof (induction evs arbitrary: cs v w)
  case (Cons e evs)
  obtain i ev where e: "e = (i, ev)" by (cases e)
  from vc_handle_bufs [OF assms Cons.prems, of ev "cs ! i" w] show ?case
    using Cons.IH e by (auto split: if_splits)
qed simp

text \<open>The packet size of the command line is not checked.  A loop with a packet size that is a multiple of 8
  up to 1024 never accesses memory outside its buffers, whatever the server answers; with a packet size
  above 1024, its very first send writes past the end of the buffer.\<close>

lemma verify_buffer_bounds:
  assumes "kernel_ok K"
  shows "(0 < q \<longrightarrow> 8 * q \<le> client_buf_size \<longrightarrow>
      vl_new K junk now fds (8 * q) w \<noteq> Inl Buffer_Overrun \<and>
      (\<forall>s. vl_new K junk now fds (8 * q) w = Inr s \<longrightarrow> vl_run K evs s \<noteq> Inl Buffer_Overrun)) \<and>
    (client_buf_size < p \<longrightarrow> vl_new K junk now (fd # fds) p w = Inl Buffer_Overrun)"
proof (intro conjI impI allI)
  assume q: "0 < q" "8 * q \<le> client_buf_size"
  let ?v = "\<lparr>vl_pkt_size = 8 * q, vl_tx_buf = replicate client_buf_size 0, vl_rx_buf = replicate client_buf_size 0,
        vl_tracer = throughput_new now, vl_err_cnt = junk\<rparr>"
  have v: "bufs_ok q ?v" using q by (simp add: bufs_ok_def)
  show "vl_new K junk now fds (8 * q) w \<noteq> Inl Buffer_Overrun"
    using vl_send_all_faults [OF assms v] by (auto simp: vl_new_def)
  show "vl_run K evs s \<noteq> Inl Buffer_Overrun" if s: "vl_new K junk now fds (8 * q) w = Inr s" for s
  proof -
    obtain cs v1 w1 where "s = (cs, v1, w1)" by (cases s)
    then show ?thesis
      using vl_send_all_law [OF assms v, THEN conjunct1] vl_run_faults [OF assms, of q v1] s by (auto simp: vl_new_def)
  qed
next
  assume "client_buf_size < p"
  then show "vl_new K junk now (fd # fds) p w = Inl Buffer_Overrun"
    using fill_packet_overrun [of "replicate client_buf_size 0" 0 0 p 0] by (simp add: vl_new_def vc_send_def)
qed

lemma verify_buffer_bounds_witness:
  "vl_new script_kernel 0 (0, 0) [5] 8 wrong_echo \<noteq> Inl Buffer_Overrun \<and>
    vl_new script_kernel 0 (0, 0) [5] 2000 wrong_echo = Inl Buffer_Overrun"
  using verify_buffer_bounds [OF script_kernel_ok, where q = 1 and junk = 0 and now = "(0, 0)" and fds = "[5]" and w = wrong_echo
      and fd = 5 and p = 2000] verify_buffer_bounds [OF script_kernel_ok, where junk = 0 and now = "(0, 0)" and fds = "[]" and w = wrong_echo
      and fd = 5 and p = 2000]
  by (simp add: client_buf_size_def)

end
