(* ===== verification/Client_Bench.thy ===== *)
theory Client_Bench
  imports Client_Verify Config
begin

text \<open>
  The load generator \<^verbatim>\<open>tcp_echo/client_epoll_bench.cpp\<close>: a connection stamps each packet with the time of day,
  and pushes the round-trip time of each packet that comes back into the ring of its event loop; \<^verbatim>\<open>main\<close>
  reads the rings and counters once a second.  The statistics are in \<open>Client_Stats\<close>, the counters and \<^verbatim>\<open>util.cpp\<close> in
  \<open>Client_Verify\<close>; the command line is the one of both clients.
\<close>

section \<open>Time stamps\<close>

text \<open>\<^verbatim>\<open>struct timeval\<close>: two 64-bit signed numbers, seconds and microseconds.\<close>

definition timeval_bytes :: "int \<times> int \<Rightarrow> byte list" where
  "timeval_bytes t = le_bytes (word_of_int (fst t)) @ le_bytes (word_of_int (snd t))"

definition bytes_timeval :: "byte list \<Rightarrow> int \<times> int" where
  "bytes_timeval bs = (sint (le_word (take 8 bs)), sint (le_word (take 8 (drop 8 bs))))"

definition rtt :: "int \<times> int \<Rightarrow> int \<times> int \<Rightarrow> int" where
  "rtt now old = (snd now - snd old) + (fst now - fst old) * 1000 * 1000"

text \<open>\<^verbatim>\<open>gettimeofday\<close>\<close>

record 'k clock_kernel = "'k kernel" +
  k_time :: "'k \<Rightarrow> (int \<times> int) \<times> 'k"

definition sys_time :: "('k, 'z) clock_kernel_scheme \<Rightarrow> 'k world \<Rightarrow> (int \<times> int) \<times> 'k world" where
  "sys_time K w = (case k_time K (w_os w) of (t, s) \<Rightarrow> (t, w\<lparr>w_os := s\<rparr>))"

section \<open>\<^verbatim>\<open>class Connection\<close>\<close>

record bench_loop =
  bl_pkt_size :: nat
  bl_tx_buf :: "byte list"
  bl_rx_buf :: "byte list"
  bl_tracer :: throughput
  bl_latency :: latency

definition bc_send :: "('k, 'z) clock_kernel_scheme \<Rightarrow> int \<Rightarrow> bench_loop \<times> 'k world \<Rightarrow> client_fault + bench_loop \<times> 'k world" where
  "bc_send K fd = (\<lambda>(b, w).
    case sys_time K w of
      (now, w1) \<Rightarrow>
        let buf = timeval_bytes now @ drop 16 (bl_tx_buf b)
        in if length buf < bl_pkt_size b then Inl Buffer_Overrun
           else
            (case send_full K fd (take (bl_pkt_size b) buf) w1 of
              None \<Rightarrow> Inl Send_Hangs
            | Some (sent, w2) \<Rightarrow>
                Inr (b\<lparr>bl_tx_buf := buf, bl_tracer := th_add TX_BYTE sent (th_inc TX_PKT (bl_tracer b))\<rparr>, w2)))"

definition bc_recv :: "('k, 'z) clock_kernel_scheme \<Rightarrow> int \<Rightarrow> bench_loop \<times> 'k world \<Rightarrow> client_fault + int \<times> bench_loop \<times> 'k world" where
  "bc_recv K fd = (\<lambda>(b, w).
    case sys_recv K fd (bl_pkt_size b) w of
      (RecvErr e, w1) \<Rightarrow> Inr (-1, b, w1)
    | (RecvData bs, w1) \<Rightarrow>
        if bs = [] then Inr (-1, b, w1)
        else if length bs > length (bl_rx_buf b) then Inl Buffer_Overrun
        else
          (let buf = bs @ drop (length bs) (bl_rx_buf b);
               (latency, w2) =
                 (if length bs = bl_pkt_size b
                  then (case sys_time K w1 of (now, w2) \<Rightarrow> (latency_push (rtt now (bytes_timeval buf)) (bl_latency b), w2))
                  else (bl_latency b, w1))
           in Inr (int (length bs),
                b\<lparr>bl_rx_buf := buf, bl_latency := latency,
                  bl_tracer := th_add RX_BYTE (int (length bs)) (th_inc RX_PKT (bl_tracer b))\<rparr>, w2)))"

definition bc_handle :: "('k, 'z) clock_kernel_scheme \<Rightarrow> u32 \<Rightarrow> int \<Rightarrow> bench_loop \<times> 'k world \<Rightarrow>
    client_fault + int \<times> bench_loop \<times> 'k world" where
  "bc_handle K ev fd s =
    (if has ev EPOLLIN then
      (case bc_recv K fd s of
        Inl f \<Rightarrow> Inl f
      | Inr (ret, s1) \<Rightarrow>
          if ret < 0 then Inr (-1, s1)
          else (case bc_send K fd s1 of Inl f \<Rightarrow> Inl f | Inr s2 \<Rightarrow> Inr (0, s2)))
     else Inr (-1, s))"

section \<open>\<^verbatim>\<open>class EventLoop\<close>\<close>

fun bl_send_all :: "('k, 'z) clock_kernel_scheme \<Rightarrow> int list \<Rightarrow> bench_loop \<times> 'k world \<Rightarrow> client_fault + bench_loop \<times> 'k world" where
  "bl_send_all K [] s = Inr s"
| "bl_send_all K (fd # fds) s = (case bc_send K fd s of Inl f \<Rightarrow> Inl f | Inr s1 \<Rightarrow> bl_send_all K fds s1)"

definition bl_new :: "('k, 'z) clock_kernel_scheme \<Rightarrow> (nat \<Rightarrow> int) \<Rightarrow> int \<times> int \<Rightarrow> int list \<Rightarrow> nat \<Rightarrow> 'k world \<Rightarrow>
    client_fault + bench_loop \<times> 'k world" where
  "bl_new K junk now fds pkt_size w =
    bl_send_all K fds
      (\<lparr>bl_pkt_size = pkt_size, bl_tx_buf = replicate client_buf_size 0, bl_rx_buf = replicate client_buf_size 0,
        bl_tracer = throughput_new now, bl_latency = latency_new junk\<rparr>, vl_register fds w)"

fun bl_run :: "('k, 'z) clock_kernel_scheme \<Rightarrow> int list \<Rightarrow> (nat \<times> u32) list \<Rightarrow> bench_loop \<times> 'k world \<Rightarrow>
    client_fault + bool \<times> bench_loop \<times> 'k world" where
  "bl_run K fds [] s = Inr (True, s)"
| "bl_run K fds ((i, ev) # evs) s =
    (if i < length fds then
      (case bc_handle K ev (fds ! i) s of
        Inl f \<Rightarrow> Inl f
      | Inr (ret, s1) \<Rightarrow> if ret < 0 then Inr (False, s1) else bl_run K fds evs s1)
     else Inl Bad_Index)"

text \<open>\<^verbatim>\<open>report\<close>: the ring is read by the main thread while the loop goes on.\<close>

definition bl_report :: "bool \<Rightarrow> int \<times> int \<Rightarrow> bench_loop \<Rightarrow> throughput \<Rightarrow> totals \<Rightarrow> int \<times> bench_loop \<times> throughput \<times> totals" where
  "bl_report running now b old t =
    (if \<not> running then (-1, b, old, t)
     else
      (case th_report ((bl_tracer b)\<lparr>th_stamp := now\<rparr>) old t of (old1, t1) \<Rightarrow>
        (case latency_report (bl_latency b) t1 of (l1, t2) \<Rightarrow> (0, b\<lparr>bl_latency := l1\<rparr>, old1, t2))))"

text \<open>One second of \<^verbatim>\<open>main\<close>: every loop reports to the same \<^verbatim>\<open>Total\<close>; the result tells whether all still run.\<close>

fun report_loops :: "(bool \<times> bench_loop \<times> throughput) list \<Rightarrow> int \<times> int \<Rightarrow> totals \<Rightarrow>
    bool \<times> (bool \<times> bench_loop \<times> throughput) list \<times> totals" where
  "report_loops [] now t = (True, [], t)"
| "report_loops ((running, b, old) # loops) now t =
    (case bl_report running now b old t of
      (ret, b1, old1, t1) \<Rightarrow>
        (case report_loops loops now t1 of (ok, rest, t2) \<Rightarrow> (0 \<le> ret \<and> ok, (running, b1, old1) # rest, t2)))"

section \<open>The command line\<close>

record client_config =
  cc_addr :: u32
  cc_port :: u16
  cc_threads :: int
  cc_conns :: int
  cc_pkt_size :: int
  cc_duration :: int

definition client_config_init :: client_config where
  "client_config_init = \<lparr>cc_addr = 0, cc_port = 0, cc_threads = 1, cc_conns = 1, cc_pkt_size = 64, cc_duration = 10\<rparr>"

text \<open>An argument that is there; errors of \<^verbatim>\<open>sscanf\<close> are printed only.\<close>

definition optional_arg :: "string list \<Rightarrow> nat \<Rightarrow> int \<Rightarrow> int" where
  "optional_arg argv i old = (if i < length argv then snd (sscanf_d (argv ! i) old) else old)"

text \<open>\<open>pton\<close> is \<^verbatim>\<open>inet_pton\<close>: the address in network order, if the string is one.\<close>

definition parse_arg :: "(string \<Rightarrow> u32 option) \<Rightarrow> string list \<Rightarrow> client_config \<Rightarrow> int \<times> client_config" where
  "parse_arg pton argv cf =
    (if length argv < 3 then (1, cf)
     else
      (0, cf\<lparr>cc_addr := (case pton (argv ! 1) of None \<Rightarrow> cc_addr cf | Some addr \<Rightarrow> addr),
        cc_port := htons (word_of_int (snd (sscanf_d (argv ! 2) 0))),
        cc_threads := optional_arg argv 3 (cc_threads cf), cc_conns := optional_arg argv 4 (cc_conns cf),
        cc_pkt_size := optional_arg argv 5 (cc_pkt_size cf), cc_duration := optional_arg argv 6 (cc_duration cf)\<rparr>))"

text \<open>The beginning of \<^verbatim>\<open>main\<close>: the exit status, or the configuration with which the loops are made.\<close>

definition client_start :: "(string \<Rightarrow> u32 option) \<Rightarrow> string list \<Rightarrow> int + client_config" where
  "client_start pton argv =
    (case parse_arg pton argv client_config_init of (ret, cf) \<Rightarrow> if ret < 0 then Inl 0 else Inr cf)"

section \<open>Facts\<close>

text \<open>A stamp survives the way there and back.\<close>

lemma sint_small: "- (2 ^ 63) \<le> x \<Longrightarrow> x < 2 ^ 63 \<Longrightarrow> sint (word_of_int x :: u64) = x"
  by transfer (simp add: signed_take_bit_int_eq_self)

definition time_ok :: "int \<times> int \<Rightarrow> bool" where
  "time_ok t \<longleftrightarrow> 0 \<le> fst t \<and> fst t < 2 ^ 63 \<and> 0 \<le> snd t \<and> snd t < 1000000"

lemma timeval_roundtrip: "time_ok t \<Longrightarrow> bytes_timeval (timeval_bytes t @ rest) = t"
  by (simp add: bytes_timeval_def timeval_bytes_def time_ok_def sint_small prod_eq_iff)

lemma length_timeval [simp]: "length (timeval_bytes t) = 16"
  by (simp add: timeval_bytes_def)

text \<open>The round-trip times are exact.  A send puts the time of day at the beginning of the packet; when a packet
  of at least 16 bytes that was stamped at time \<open>t\<close> comes back whole, the sample that goes into the ring is the
  time since \<open>t\<close> in microseconds.  A part of a packet gives no sample.\<close>

lemma bench_rtt_exact:
  assumes "kernel_ok K" "16 \<le> bl_pkt_size b" "bl_pkt_size b \<le> client_buf_size"
    and "length (bl_tx_buf b) = client_buf_size" "length (bl_rx_buf b) = client_buf_size"
  shows "(bc_send K fd (b, w) = Inr (b1, w1) \<longrightarrow>
      (\<exists>sent rest. take (bl_pkt_size b) (timeval_bytes (fst (sys_time K w)) @ drop 16 (bl_tx_buf b)) = sent @ rest \<and>
        sent_on fd (w_trace w1) = sent_on fd (w_trace w) @ sent \<and> bl_latency b1 = bl_latency b)) \<and>
    (\<forall>bs v. sys_recv K fd (bl_pkt_size b) w = (RecvData bs, v) \<longrightarrow> bs \<noteq> [] \<longrightarrow>
      (\<exists>b2 w2. bc_recv K fd (b, w) = Inr (int (length bs), b2, w2) \<and>
        (length bs \<noteq> bl_pkt_size b \<longrightarrow> bl_latency b2 = bl_latency b) \<and>
        (\<forall>t tail. time_ok t \<longrightarrow> bs = timeval_bytes t @ tail \<longrightarrow> length bs = bl_pkt_size b \<longrightarrow>
          bl_latency b2 = latency_push (rtt (fst (sys_time K v)) t) (bl_latency b))))"
proof (intro conjI impI allI)
  assume send: "bc_send K fd (b, w) = Inr (b1, w1)"
  obtain now w0 where time: "sys_time K w = (now, w0)" by (cases "sys_time K w")
  have tr: "w_trace w0 = w_trace w" using time by (auto simp: sys_time_def split: prod.splits)
  let ?msg = "take (bl_pkt_size b) (timeval_bytes now @ drop 16 (bl_tx_buf b))"
  obtain rest where rest: "send_rest K fd ?msg w0 = Some (rest, w1)" "bl_latency b1 = bl_latency b"
    using send time assms(2-4) by (auto simp: bc_send_def Let_def send_full_def split: option.splits if_splits)
  obtain d where d: "?msg = d @ rest" "only_sent fd d w0 w1"
    using send_rest_law [OF assms(1) rest(1)] by blast
  show "\<exists>sent rest. take (bl_pkt_size b) (timeval_bytes (fst (sys_time K w)) @ drop 16 (bl_tx_buf b)) = sent @ rest \<and>
      sent_on fd (w_trace w1) = sent_on fd (w_trace w) @ sent \<and> bl_latency b1 = bl_latency b"
    using d(1) only_sentD(4) [OF d(2)] rest(2) tr time by (intro exI [of _ d] exI [of _ rest]) simp
next
  fix bs v
  assume sys: "sys_recv K fd (bl_pkt_size b) w = (RecvData bs, v)" and ne: "bs \<noteq> []"
  have len: "length bs \<le> bl_pkt_size b"
    using assms(1) sys by (cases rule: sys_recv_cases) auto
  show "\<exists>b2 w2. bc_recv K fd (b, w) = Inr (int (length bs), b2, w2) \<and>
      (length bs \<noteq> bl_pkt_size b \<longrightarrow> bl_latency b2 = bl_latency b) \<and>
      (\<forall>t tail. time_ok t \<longrightarrow> bs = timeval_bytes t @ tail \<longrightarrow> length bs = bl_pkt_size b \<longrightarrow>
        bl_latency b2 = latency_push (rtt (fst (sys_time K v)) t) (bl_latency b))"
    using sys ne len assms(3,5) timeval_roundtrip by (auto simp: bc_recv_def Let_def split: prod.splits)
qed

text \<open>A clock that counts seconds, and a server that answers a stamp of ten seconds ago.\<close>

definition clock_script :: "script clock_kernel" where
  "clock_script = \<lparr>k_recv = script_recv, k_send = script_send, k_time = (\<lambda>s. ((1010, 5), s))\<rparr>"

definition clock_loop :: bench_loop where
  "clock_loop = \<lparr>bl_pkt_size = 16, bl_tx_buf = replicate client_buf_size 0, bl_rx_buf = replicate client_buf_size 0,
    bl_tracer = throughput_new (0, 0), bl_latency = latency_new (\<lambda>_. 0)\<rparr>"

lemma clock_script_ok: "kernel_ok clock_script"
  by (auto simp: kernel_ok_def clock_script_def script_recv_bound script_send_bound)

lemma bench_rtt_exact_witness:
  "\<exists>b2 w2. bc_recv clock_script 5 (clock_loop, \<lparr>w_os = ([RecvData (timeval_bytes (1000, 2))], []), w_trace = []\<rparr>) = Inr (16, b2, w2) \<and>
    bl_latency b2 = latency_push 10000003 (bl_latency clock_loop)"
proof -
  let ?w = "\<lparr>w_os = ([RecvData (timeval_bytes (1000, 2))], []), w_trace = []\<rparr> :: script world"
  let ?v = "emit (Recvd 5 (timeval_bytes (1000, 2))) (?w\<lparr>w_os := ([], [])\<rparr>)"
  have sys: "sys_recv clock_script 5 (bl_pkt_size clock_loop) ?w = (RecvData (timeval_bytes (1000, 2)), ?v)"
    by (simp add: sys_recv_def clock_script_def clock_loop_def)
  have ne: "timeval_bytes (1000, 2) \<noteq> []"
    using length_timeval [of "(1000, 2)"] by (metis list.size(3) zero_neq_numeral)
  have time: "rtt (fst (sys_time clock_script ?v)) (1000, 2) = 10000003" "time_ok (1000, 2)"
    by (simp_all add: sys_time_def clock_script_def rtt_def time_ok_def)
  have sizes: "16 \<le> bl_pkt_size clock_loop" "bl_pkt_size clock_loop \<le> client_buf_size"
    "length (bl_tx_buf clock_loop) = client_buf_size" "length (bl_rx_buf clock_loop) = client_buf_size"
    by (simp_all add: clock_loop_def client_buf_size_def)
  from bench_rtt_exact [OF clock_script_ok sizes, of 5 ?w, THEN conjunct2, rule_format, OF sys ne] obtain b2 w2 where
    recv: "bc_recv clock_script 5 (clock_loop, ?w) = Inr (int (length (timeval_bytes (1000, 2))), b2, w2)"
    and lat: "\<forall>t tail. time_ok t \<longrightarrow> timeval_bytes (1000, 2) = timeval_bytes t @ tail \<longrightarrow>
      length (timeval_bytes (1000, 2)) = bl_pkt_size clock_loop \<longrightarrow>
      bl_latency b2 = latency_push (rtt (fst (sys_time clock_script ?v)) t) (bl_latency clock_loop)"
    by blast
  have "bl_latency b2 = latency_push 10000003 (bl_latency clock_loop)"
    using lat [rule_format, of "(1000, 2)" "[]"] time by (simp add: clock_loop_def)
  then show ?thesis
    using recv by simp
qed

text \<open>The test \<^verbatim>\<open>parse_arg(argc, argv) < 0\<close> of \<^verbatim>\<open>main\<close> never holds: a usage error is the result 1.\<close>

lemma client_always_starts: "\<exists>cf. client_start pton argv = Inr cf \<and> (length argv < 3 \<longrightarrow> cf = client_config_init)"
  by (simp add: client_start_def parse_arg_def)

end
