(* ===== verification/Probe_Lib.thy ===== *)
theory Probe_Lib
  imports Prelude "HOL-Library.Multiset"
begin

text \<open>
  The library the tracing modules register their hooks with (\<^verbatim>\<open>hook_func_lib.c\<close>, in the version of
  \<^verbatim>\<open>kernel_module/network/tcp_trace\<close> and in the older one of \<^verbatim>\<open>need_resched_display\<close>, \<^verbatim>\<open>hook_func_example\<close> and,
  copied into their only file, of the \<^verbatim>\<open>sched_display\<close> family): tracepoints looked up by name, arrays of
  kprobes and kretprobes, and the loops that register them all or, on a failure, unregister what they had.

  The registration functions of the kernel are documented: they answer 0 or a negative error number, and a
  failed call registers nothing.  Which calls fail is the kernel's choice (\<open>kn_errno\<close>).  The contract
  \<open>stage\<close> says what an init function owes its caller; it is proved of a single registration, of a list of
  them, and is closed under the sequences with rollback that the modules build.
\<close>

section \<open>Log lines\<close>

text \<open>A \<^verbatim>\<open>pr_debug\<close> or \<^verbatim>\<open>pr_info\<close> is its format (without the newline) and its arguments.\<close>

datatype pr_arg = Num int | Str string

type_synonym line = "string \<times> pr_arg list"

definition word_arg :: "'a::len word \<Rightarrow> pr_arg" where
  "word_arg w = Num (uint w)"

definition flag_arg :: "bool \<Rightarrow> pr_arg" where
  "flag_arg b = Num (of_bool b)"

section \<open>The kernel\<close>

text \<open>A hook: a probe function attached to a tracepoint with its private pointer, or a cell of an array of
  kprobes or kretprobes.\<close>

type_synonym cell = "string \<times> nat"

datatype hook = Tp nat string u64 | Kp cell | Krp cell

record tracepoint =
  tpt_addr :: nat
  tpt_name :: string

text \<open>
  \<open>kn_errno\<close> are the results of the registrations to come (0 is success; none left: success), \<open>kn_live\<close> the
  hooks that are registered, \<open>kn_stale\<close> those unregistered whose probe function may still be running, and
  \<open>kn_fault\<close> says that a hook was unregistered that was not registered, or a NULL tracepoint used.
\<close>

record kernel =
  kn_tracepoints :: "tracepoint list"
  kn_errno :: "nat list"
  kn_live :: "hook list"
  kn_stale :: "hook list"
  kn_fault :: bool

definition kn_register :: "hook \<Rightarrow> 'a kernel_scheme \<Rightarrow> int \<times> 'a kernel_scheme" where
  "kn_register h k =
    (let e = (case kn_errno k of [] \<Rightarrow> 0 | e # es \<Rightarrow> e); k1 = k\<lparr>kn_errno := tl (kn_errno k)\<rparr>
     in if e = 0 then (0, k1\<lparr>kn_live := h # kn_live k1\<rparr>) else (- int e, k1))"

definition kn_unregister :: "hook \<Rightarrow> 'a kernel_scheme \<Rightarrow> 'a kernel_scheme" where
  "kn_unregister h k = (if h \<in> set (kn_live k) then k\<lparr>kn_live := remove1 h (kn_live k)\<rparr> else k\<lparr>kn_fault := True\<rparr>)"

text \<open>\<^verbatim>\<open>unregister_kprobe\<close> and \<^verbatim>\<open>unregister_kretprobe\<close> wait until no handler runs; a tracepoint does not.\<close>

definition register_kprobe :: "cell \<Rightarrow> 'a kernel_scheme \<Rightarrow> int \<times> 'a kernel_scheme" where
  "register_kprobe c = kn_register (Kp c)"

definition unregister_kprobe :: "cell \<Rightarrow> 'a kernel_scheme \<Rightarrow> 'a kernel_scheme" where
  "unregister_kprobe c = kn_unregister (Kp c)"

definition register_kretprobe :: "cell \<Rightarrow> 'a kernel_scheme \<Rightarrow> int \<times> 'a kernel_scheme" where
  "register_kretprobe c = kn_register (Krp c)"

definition unregister_kretprobe :: "cell \<Rightarrow> 'a kernel_scheme \<Rightarrow> 'a kernel_scheme" where
  "unregister_kretprobe c = kn_unregister (Krp c)"

definition tracepoint_probe_register :: "nat option \<Rightarrow> string \<Rightarrow> u64 \<Rightarrow> 'a kernel_scheme \<Rightarrow> int \<times> 'a kernel_scheme" where
  "tracepoint_probe_register tp probe priv k =
    (case tp of None \<Rightarrow> (0, k\<lparr>kn_fault := True\<rparr>) | Some a \<Rightarrow> kn_register (Tp a probe priv) k)"

definition tracepoint_probe_unregister :: "nat option \<Rightarrow> string \<Rightarrow> u64 \<Rightarrow> 'a kernel_scheme \<Rightarrow> 'a kernel_scheme" where
  "tracepoint_probe_unregister tp probe priv k =
    (case tp of
      None \<Rightarrow> k\<lparr>kn_fault := True\<rparr>
    | Some a \<Rightarrow> kn_unregister (Tp a probe priv) (k\<lparr>kn_stale := Tp a probe priv # kn_stale k\<rparr>))"

definition tracepoint_synchronize_unregister :: "'a kernel_scheme \<Rightarrow> 'a kernel_scheme" where
  "tracepoint_synchronize_unregister k = k\<lparr>kn_stale := []\<rparr>"

section \<open>\<^verbatim>\<open>struct tracepoint_probe_context\<close>\<close>

text \<open>\<open>tc_entries\<close> are the initialised entries of the array; the rest of it is zero and not used.\<close>

record tp_entry =
  te_name :: string
  te_tp :: "nat option"
  te_probe :: string
  te_priv :: u64

record tp_context =
  tc_entries :: "tp_entry list"
  tc_init_num :: nat
  tc_found_num :: nat

definition tp_entry_init :: "string \<Rightarrow> string \<Rightarrow> tp_entry" where
  "tp_entry_init name probe = \<lparr>te_name = name, te_tp = None, te_probe = probe, te_priv = 0\<rparr>"

text \<open>The state of a module that has such a context: the kernel and the module's static variable.\<close>

record probe_module = kernel +
  sched_probes :: tp_context

definition lookup_entry :: "tracepoint \<Rightarrow> nat \<Rightarrow> tp_context \<Rightarrow> tp_context" where
  "lookup_entry tp i ctx =
    (let entry = tc_entries ctx ! i
     in if te_tp entry \<noteq> None \<or> tpt_name tp \<noteq> te_name entry then ctx
        else ctx\<lparr>tc_entries := (tc_entries ctx)[i := entry\<lparr>te_tp := Some (tpt_addr tp)\<rparr>],
                 tc_found_num := tc_found_num ctx + 1\<rparr>)"

definition tracepoint_lookup :: "tracepoint \<Rightarrow> tp_context \<Rightarrow> tp_context" where
  "tracepoint_lookup tp ctx =
    (if tc_found_num ctx = tc_init_num ctx then ctx else fold (lookup_entry tp) [0..<tc_init_num ctx] ctx)"

definition clear_entry :: "nat \<Rightarrow> tp_context \<Rightarrow> tp_context" where
  "clear_entry i ctx = ctx\<lparr>tc_entries := (tc_entries ctx)[i := (tc_entries ctx ! i)\<lparr>te_tp := None\<rparr>]\<rparr>"

definition find_tracepoints :: "tracepoint list \<Rightarrow> tp_context \<Rightarrow> int \<times> tp_context" where
  "find_tracepoints ts ctx =
    (let ctx0 = (fold clear_entry [0..<tc_init_num ctx] ctx)\<lparr>tc_found_num := 0\<rparr>;
         ctx1 = fold tracepoint_lookup ts ctx0
     in (if tc_found_num ctx1 \<noteq> tc_init_num ctx1 then -1 else 0, ctx1))"

definition tracepoint_probe_context_find_tracepoints :: "'a probe_module_scheme \<Rightarrow> int \<times> 'a probe_module_scheme" where
  "tracepoint_probe_context_find_tracepoints s =
    (let (ret, ctx) = find_tracepoints (kn_tracepoints s) (sched_probes s) in (ret, s\<lparr>sched_probes := ctx\<rparr>))"

section \<open>Registering and unregistering\<close>

text \<open>The loop with rollback: \<open>ds\<close> is what is registered already, the last one first.\<close>

fun register_loop ::
    "(int \<Rightarrow> bool) \<Rightarrow> ('h \<Rightarrow> 's \<Rightarrow> int \<times> 's) \<Rightarrow> ('h \<Rightarrow> 's \<Rightarrow> 's) \<Rightarrow> 'h list \<Rightarrow> 'h list \<Rightarrow> 's \<Rightarrow> int \<times> 's" where
  "register_loop failed reg unreg [] ds s = (0, s)"
| "register_loop failed reg unreg (h # hs) ds s =
    (let (ret, s1) = reg h s
     in if failed ret then (ret, fold unreg ds s1) else register_loop failed reg unreg hs (h # ds) s1)"

definition cells :: "string \<Rightarrow> nat \<Rightarrow> cell list" where
  "cells kps num = map (\<lambda>i. (kps, i)) [0..<num]"

definition kprobes_init :: "string \<Rightarrow> nat \<Rightarrow> 'a kernel_scheme \<Rightarrow> int \<times> 'a kernel_scheme" where
  "kprobes_init kps num = register_loop (\<lambda>ret. ret < 0) register_kprobe unregister_kprobe (cells kps num) []"

definition kprobes_exit :: "string \<Rightarrow> nat \<Rightarrow> 'a kernel_scheme \<Rightarrow> 'a kernel_scheme" where
  "kprobes_exit kps num = fold unregister_kprobe (rev (cells kps num))"

definition kretprobes_init :: "string \<Rightarrow> nat \<Rightarrow> 'a kernel_scheme \<Rightarrow> int \<times> 'a kernel_scheme" where
  "kretprobes_init kps num = register_loop (\<lambda>ret. ret < 0) register_kretprobe unregister_kretprobe (cells kps num) []"

definition kretprobes_exit :: "string \<Rightarrow> nat \<Rightarrow> 'a kernel_scheme \<Rightarrow> 'a kernel_scheme" where
  "kretprobes_exit kps num = fold unregister_kretprobe (rev (cells kps num))"

definition register_entry :: "tp_entry \<Rightarrow> 'a kernel_scheme \<Rightarrow> int \<times> 'a kernel_scheme" where
  "register_entry e = tracepoint_probe_register (te_tp e) (te_probe e) (te_priv e)"

definition unregister_entry :: "tp_entry \<Rightarrow> 'a kernel_scheme \<Rightarrow> 'a kernel_scheme" where
  "unregister_entry e = tracepoint_probe_unregister (te_tp e) (te_probe e) (te_priv e)"

definition used_entries :: "tp_context \<Rightarrow> tp_entry list" where
  "used_entries ctx = take (tc_init_num ctx) (tc_entries ctx)"

definition tracepoint_probe_context_register_probes :: "'a probe_module_scheme \<Rightarrow> int \<times> 'a probe_module_scheme" where
  "tracepoint_probe_context_register_probes s =
    (let (ret, s1) = register_loop (\<lambda>ret. ret \<noteq> 0) register_entry unregister_entry (used_entries (sched_probes s)) [] s
     in if ret \<noteq> 0 then (ret, tracepoint_synchronize_unregister s1) else (0, s1))"

text \<open>The older version warns of a failure and goes on.\<close>

definition tracepoint_probe_context_register_probes0 :: "'a probe_module_scheme \<Rightarrow> int \<times> 'a probe_module_scheme" where
  "tracepoint_probe_context_register_probes0 s =
    (0, fold (\<lambda>e s. snd (register_entry e s)) (used_entries (sched_probes s)) s)"

definition tracepoint_probe_context_unregister_probes :: "'a probe_module_scheme \<Rightarrow> 'a probe_module_scheme" where
  "tracepoint_probe_context_unregister_probes s =
    tracepoint_synchronize_unregister (fold unregister_entry (used_entries (sched_probes s)) s)"

section \<open>The contract of an init function\<close>

text \<open>
  \<open>live\<close> are the registered hooks.  A stage acquires \<open>hooks\<close> as a whole or not at all, and its counterpart
  releases exactly them; \<open>P\<close> is what both keep: that nothing went wrong, the context of the module, and that no
  probe function of an unregistered hook is running.
\<close>

definition live :: "'a kernel_scheme \<Rightarrow> hook multiset" where
  "live s = mset (kn_live s)"

definition steady :: "bool \<Rightarrow> tp_context \<Rightarrow> 'a probe_module_scheme \<Rightarrow> bool" where
  "steady f ctx s \<longleftrightarrow> kn_fault s = f \<and> sched_probes s = ctx"

definition calm :: "bool \<Rightarrow> tp_context \<Rightarrow> 'a probe_module_scheme \<Rightarrow> bool" where
  "calm f ctx s \<longleftrightarrow> steady f ctx s \<and> kn_stale s = []"

locale stage =
  fixes P :: "'a kernel_scheme \<Rightarrow> bool"
    and acquire :: "'a kernel_scheme \<Rightarrow> int \<times> 'a kernel_scheme"
    and release :: "'a kernel_scheme \<Rightarrow> 'a kernel_scheme"
    and hooks :: "hook multiset"
  assumes acquire_keeps: "P s \<Longrightarrow> P (snd (acquire s))"
    and acquire_live: "P s \<Longrightarrow> fst (acquire s) = 0 \<and> live (snd (acquire s)) = live s + hooks \<or>
      fst (acquire s) < 0 \<and> live (snd (acquire s)) = live s"
    and release_keeps: "P s \<Longrightarrow> hooks \<subseteq># live s \<Longrightarrow> P (release s)"
    and release_live: "P s \<Longrightarrow> hooks \<subseteq># live s \<Longrightarrow> live (release s) = live s - hooks"
begin

lemma acquire_ok: "P s \<Longrightarrow> 0 \<le> fst (acquire s) \<Longrightarrow> fst (acquire s) = 0 \<and> live (snd (acquire s)) = live s + hooks"
  using acquire_live by fastforce

lemma acquire_failed: "P s \<Longrightarrow> fst (acquire s) < 0 \<Longrightarrow> live (snd (acquire s)) = live s"
  using acquire_live by fastforce

lemma undo: "P s \<Longrightarrow> 0 \<le> fst (acquire s) \<Longrightarrow> live (release (snd (acquire s))) = live s \<and> P (release (snd (acquire s)))"
  using acquire_ok [of s] acquire_keeps [of s] by (simp add: release_live release_keeps)

end

subsection \<open>One hook\<close>

lemma live_updates [simp]:
  "live (s\<lparr>kn_errno := es\<rparr>) = live s" "live (s\<lparr>kn_fault := f\<rparr>) = live s" "live (s\<lparr>kn_stale := st\<rparr>) = live s"
  "live (s\<lparr>kn_live := hs\<rparr>) = mset hs" "live (m\<lparr>sched_probes := ctx\<rparr>) = live m"
  by (simp_all add: live_def)

lemma kn_register_live:
  "fst (kn_register h s) = 0 \<and> live (snd (kn_register h s)) = live s + {#h#} \<or>
   fst (kn_register h s) < 0 \<and> live (snd (kn_register h s)) = live s"
  by (simp add: kn_register_def Let_def live_def split: list.split)

lemma kn_register_keeps [simp]:
  "kn_fault (snd (kn_register h s)) = kn_fault s" "kn_stale (snd (kn_register h s)) = kn_stale s"
  "sched_probes (snd (kn_register h m)) = sched_probes m"
  "kn_tracepoints (snd (kn_register h s)) = kn_tracepoints s"
  by (simp_all add: kn_register_def Let_def)

lemma kn_unregister_live:
  "{#h#} \<subseteq># live s \<Longrightarrow> live (kn_unregister h s) = live s - {#h#} \<and> kn_fault (kn_unregister h s) = kn_fault s"
  by (auto simp: kn_unregister_def live_def)

lemma kn_unregister_keeps [simp]:
  "kn_stale (kn_unregister h s) = kn_stale s" "sched_probes (kn_unregister h m) = sched_probes m"
  "kn_tracepoints (kn_unregister h s) = kn_tracepoints s"
  by (simp_all add: kn_unregister_def)

lemmas hook_ops = kn_register_live kn_unregister_live calm_def steady_def

lemma stage_hook: "stage (calm f ctx) (kn_register h) (kn_unregister h) {#h#}"
proof (unfold_locales, goal_cases)
  case (2 s)
  then show ?case using kn_register_live [of h s] by simp
qed (simp_all add: calm_def steady_def kn_unregister_live)

lemma stage_kprobe: "stage (calm f ctx) (register_kprobe c) (unregister_kprobe c) {#Kp c#}"
  unfolding register_kprobe_def unregister_kprobe_def by (rule stage_hook)

lemma stage_kretprobe: "stage (calm f ctx) (register_kretprobe c) (unregister_kretprobe c) {#Krp c#}"
  unfolding register_kretprobe_def unregister_kretprobe_def by (rule stage_hook)

text \<open>A tracepoint entry: only once the lookup has found the tracepoint.\<close>

definition entry_hook :: "tp_entry \<Rightarrow> hook" where
  "entry_hook e = Tp (the (te_tp e)) (te_probe e) (te_priv e)"

lemma stage_entry:
  assumes "te_tp e \<noteq> None"
  shows "stage (steady f ctx) (register_entry e) (unregister_entry e) {#entry_hook e#}"
proof -
  obtain a where a: "te_tp e = Some a" using assms by blast
  show ?thesis
    unfolding register_entry_def unregister_entry_def entry_hook_def tracepoint_probe_register_def tracepoint_probe_unregister_def
  proof (unfold_locales, goal_cases)
    case (2 s)
    then show ?case using kn_register_live [of _ s] by (simp add: a)
  qed (simp_all add: a steady_def kn_unregister_live)
qed

subsection \<open>The loops\<close>

lemma fold_release:
  assumes "\<And>h. h \<in> set hs \<Longrightarrow> stage P (reg h) (unreg h) {#hook h#}" "P s" "mset (map hook hs) \<subseteq># live s"
  shows "P (fold unreg hs s) \<and> live (fold unreg hs s) = live s - mset (map hook hs)"
  using assms
proof (induction hs arbitrary: s)
  case (Cons h hs)
  have st: "stage P (reg h) (unreg h) {#hook h#}" by (rule Cons.prems(1)) simp
  have sub: "{#hook h#} \<subseteq># live s"
    using Cons.prems(3) by (simp add: insert_subset_eq_iff)
  then have "mset (map hook hs) \<subseteq># live (unreg h s)" "P (unreg h s)" "live (unreg h s) = live s - {#hook h#}"
    using Cons.prems(2,3) by (simp_all add: stage.release_live [OF st] stage.release_keeps [OF st] insert_subset_eq_iff)
  then show ?case
    using Cons.IH [of "unreg h s"] Cons.prems(1) by (simp add: diff_diff_add)
qed simp

lemma register_loop_stage:
  assumes "\<And>h. h \<in> set (hs @ ds) \<Longrightarrow> stage P (reg h) (unreg h) {#hook h#}" "P s" "mset (map hook ds) \<subseteq># live s"
    and failed: "\<And>r. r \<le> 0 \<Longrightarrow> failed r \<longleftrightarrow> r < 0"
  shows "P (snd (register_loop failed reg unreg hs ds s)) \<and>
    (fst (register_loop failed reg unreg hs ds s) = 0 \<and>
       live (snd (register_loop failed reg unreg hs ds s)) = live s + mset (map hook hs) \<or>
     fst (register_loop failed reg unreg hs ds s) < 0 \<and>
       live (snd (register_loop failed reg unreg hs ds s)) = live s - mset (map hook ds))"
  using assms(1-3)
proof (induction hs arbitrary: ds s)
  case (Cons h hs)
  have st: "stage P (reg h) (unreg h) {#hook h#}" by (rule Cons.prems(1)) simp
  obtain ret s1 where r: "reg h s = (ret, s1)" by fastforce
  have P1: "P s1" using stage.acquire_keeps [OF st Cons.prems(2)] by (simp add: r)
  have c: "ret = 0 \<and> live s1 = live s + {#hook h#} \<or> ret < 0 \<and> live s1 = live s"
    using stage.acquire_live [OF st Cons.prems(2)] by (simp add: r)
  show ?case
  proof (cases "ret < 0")
    case True
    then have f: "failed ret" "live s1 = live s" using failed [of ret] c by auto
    have "P (fold unreg ds s1) \<and> live (fold unreg ds s1) = live s1 - mset (map hook ds)"
      using Cons.prems(1,3) by (intro fold_release [where reg = reg] P1) (simp_all add: f(2))
    then show ?thesis using True f by (simp add: r)
  next
    case False
    then have f: "\<not> failed ret" "live s1 = live s + {#hook h#}" using failed [of ret] c by auto
    then show ?thesis
      using Cons.IH [of "h # ds" s1] Cons.prems(1,3) P1 by (simp add: r)
  qed
qed simp

lemma stage_loop:
  assumes "\<And>h. h \<in> set hs \<Longrightarrow> stage P (reg h) (unreg h) {#hook h#}" "mset es = mset hs" "\<And>r. r \<le> 0 \<Longrightarrow> failed r \<longleftrightarrow> r < 0"
  shows "stage P (register_loop failed reg unreg hs []) (fold unreg es) (mset (map hook hs))"
proof (unfold_locales, goal_cases)
  case (1 s)
  then show ?case using register_loop_stage [of hs "[]" P reg unreg hook s failed] assms by simp
next
  case (2 s)
  then show ?case using register_loop_stage [of hs "[]" P reg unreg hook s failed] assms by simp
next
  case (3 s)
  have "set es = set hs" "mset (map hook es) = mset (map hook hs)"
    using assms(2) by (metis mset_eq_setD, simp)
  then show ?case using fold_release [of es P reg unreg hook s] assms(1) 3 by simp
next
  case (4 s)
  have "set es = set hs" "mset (map hook es) = mset (map hook hs)"
    using assms(2) by (metis mset_eq_setD, simp)
  then show ?case using fold_release [of es P reg unreg hook s] assms(1) 4 by simp
qed

lemma register_loop_ok_keeps:
  assumes "\<And>h s. v (snd (reg h s)) = v s" "\<And>r. failed r \<Longrightarrow> r \<noteq> 0" "fst (register_loop failed reg unreg hs ds s) = 0"
  shows "v (snd (register_loop failed reg unreg hs ds s)) = v s"
  using assms(3)
proof (induction hs arbitrary: ds s)
  case (Cons h hs)
  obtain ret s1 where r: "reg h s = (ret, s1)" by fastforce
  have v1: "v s1 = v s" using assms(1) [of h s] by (simp add: r)
  have "\<not> failed ret" using Cons.prems assms(2) [of ret] by (auto simp: r split: if_splits)
  then show ?case using Cons.IH [of "h # ds" s1] Cons.prems v1 by (simp add: r)
qed simp

subsection \<open>The arrays and the tracepoints of a module\<close>

definition kprobe_hooks :: "string \<Rightarrow> nat \<Rightarrow> hook multiset" where
  "kprobe_hooks kps num = mset (map Kp (cells kps num))"

definition kretprobe_hooks :: "string \<Rightarrow> nat \<Rightarrow> hook multiset" where
  "kretprobe_hooks kps num = mset (map Krp (cells kps num))"

definition tracepoint_hooks :: "tp_context \<Rightarrow> hook multiset" where
  "tracepoint_hooks ctx = mset (map entry_hook (used_entries ctx))"

definition resolved :: "tp_context \<Rightarrow> bool" where
  "resolved ctx \<longleftrightarrow> (\<forall>e \<in> set (used_entries ctx). te_tp e \<noteq> None)"

lemma stage_kprobes: "stage (calm f ctx) (kprobes_init kps num) (kprobes_exit kps num) (kprobe_hooks kps num)"
  unfolding kprobes_init_def kprobes_exit_def kprobe_hooks_def by (rule stage_loop) (simp_all add: stage_kprobe)

lemma stage_kretprobes: "stage (calm f ctx) (kretprobes_init kps num) (kretprobes_exit kps num) (kretprobe_hooks kps num)"
  unfolding kretprobes_init_def kretprobes_exit_def kretprobe_hooks_def by (rule stage_loop) (simp_all add: stage_kretprobe)

lemma stage_entries:
  "resolved ctx \<Longrightarrow> stage (steady f ctx) (register_loop (\<lambda>ret. ret \<noteq> 0) register_entry unregister_entry (used_entries ctx) [])
    (fold unregister_entry (used_entries ctx)) (tracepoint_hooks ctx)"
  unfolding tracepoint_hooks_def by (rule stage_loop) (auto simp: resolved_def intro: stage_entry)

lemma register_entry_stale: "kn_stale (snd (register_entry e s)) = kn_stale s"
  by (simp add: register_entry_def tracepoint_probe_register_def split: option.split)

lemma synchronize_simps [simp]:
  "kn_stale (tracepoint_synchronize_unregister s) = []" "live (tracepoint_synchronize_unregister s) = live s"
  "steady f ctx (tracepoint_synchronize_unregister m) = steady f ctx m"
  by (simp_all add: tracepoint_synchronize_unregister_def steady_def)

lemma stage_tracepoints:
  assumes "resolved ctx"
  shows "stage (calm f ctx) tracepoint_probe_context_register_probes tracepoint_probe_context_unregister_probes (tracepoint_hooks ctx)"
proof -
  let ?loop = "register_loop (\<lambda>ret. ret \<noteq> 0) register_entry unregister_entry (used_entries ctx) []"
  note st = stage_entries [OF assms, of f]
  have reg: "tracepoint_probe_context_register_probes s =
      (if fst (?loop s) \<noteq> 0 then (fst (?loop s), tracepoint_synchronize_unregister (snd (?loop s))) else (0, snd (?loop s)))"
    if "calm f ctx s" for s
    using that by (simp add: tracepoint_probe_context_register_probes_def calm_def steady_def split: prod.split)
  have stale: "kn_stale (snd (?loop s)) = kn_stale s" if "fst (?loop s) = 0" for s
    by (rule register_loop_ok_keeps [OF register_entry_stale _ that]) simp
  show ?thesis
  proof (unfold_locales, goal_cases)
    case (1 s)
    then have "steady f ctx s" "kn_stale s = []" by (simp_all add: calm_def)
    then show ?case
      using stage.acquire_keeps [OF st, of s] stale [of s] by (simp add: reg [OF 1] calm_def)
  next
    case (2 s)
    then have "steady f ctx s" by (simp add: calm_def)
    then show ?case
      using stage.acquire_live [OF st, of s] by (auto simp add: reg [OF 2])
  next
    case (3 s)
    then have "steady f ctx s" "sched_probes s = ctx" by (simp_all add: calm_def steady_def)
    then show ?case
      using stage.release_keeps [OF st, of s] 3(2)
      by (simp add: tracepoint_probe_context_unregister_probes_def calm_def)
  next
    case (4 s)
    then have "steady f ctx s" "sched_probes s = ctx" by (simp_all add: calm_def steady_def)
    then show ?case
      using stage.release_live [OF st, of s] 4(2)
      by (simp add: tracepoint_probe_context_unregister_probes_def)
  qed
qed

subsection \<open>Stages in sequence\<close>

text \<open>The shape of every init function: if the second stage fails, the first is undone.\<close>

definition and_then :: "('s \<Rightarrow> int \<times> 's) \<Rightarrow> ('s \<Rightarrow> 's) \<Rightarrow> ('s \<Rightarrow> int \<times> 's) \<Rightarrow> 's \<Rightarrow> int \<times> 's" where
  "and_then acq1 rel1 acq2 s =
    (let (ret, s1) = acq1 s
     in if ret < 0 then (ret, s1)
        else let (ret2, s2) = acq2 s1 in if ret2 < 0 then (ret2, rel1 s2) else (0, s2))"

lemma union_submset:
  assumes "H1 + H2 \<subseteq># (M :: 'b multiset)"
  shows "H1 \<subseteq># M" "H2 \<subseteq># M - H1"
proof -
  obtain R where M: "M = H1 + H2 + R" using assms by (auto simp: mset_subset_eq_exists_conv)
  show "H1 \<subseteq># M" "H2 \<subseteq># M - H1" by (simp_all add: M)
qed

lemma stage_and_then:
  assumes st1: "stage P acq1 rel1 H1" and st2: "stage P acq2 rel2 H2"
  shows "stage P (and_then acq1 rel1 acq2) (\<lambda>s. rel2 (rel1 s)) (H1 + H2)"
proof (unfold_locales, goal_cases)
  case (1 s)
  obtain r1 s1 where a1: "acq1 s = (r1, s1)" by fastforce
  obtain r2 s2 where a2: "acq2 s1 = (r2, s2)" by fastforce
  have "P s1" using stage.acquire_keeps [OF st1 1] by (simp add: a1)
  moreover have "P s2" using stage.acquire_keeps [OF st2 \<open>P s1\<close>] by (simp add: a2)
  moreover have "P (rel1 s2)" if "\<not> r1 < 0" "r2 < 0"
    using that stage.acquire_live [OF st1 1] stage.acquire_live [OF st2 \<open>P s1\<close>]
    by (intro stage.release_keeps [OF st1 \<open>P s2\<close>]) (auto simp: a1 a2)
  ultimately show ?case by (simp add: and_then_def a1 a2)
next
  case (2 s)
  obtain r1 s1 where a1: "acq1 s = (r1, s1)" by fastforce
  obtain r2 s2 where a2: "acq2 s1 = (r2, s2)" by fastforce
  have "P s1" using stage.acquire_keeps [OF st1 2] by (simp add: a1)
  have "P s2" using stage.acquire_keeps [OF st2 \<open>P s1\<close>] by (simp add: a2)
  have l1: "r1 = 0 \<and> live s1 = live s + H1 \<or> r1 < 0 \<and> live s1 = live s"
    using stage.acquire_live [OF st1 2] by (simp add: a1)
  have l2: "r2 = 0 \<and> live s2 = live s1 + H2 \<or> r2 < 0 \<and> live s2 = live s1"
    using stage.acquire_live [OF st2 \<open>P s1\<close>] by (simp add: a2)
  have "live (rel1 s2) = live s" if "\<not> r1 < 0" "r2 < 0"
    using that l1 l2 stage.release_live [OF st1 \<open>P s2\<close>] by auto
  then show ?case using l1 l2 by (auto simp: and_then_def a1 a2 ac_simps)
next
  case (3 s)
  note sub = union_submset [OF this(2)]
  then show ?case
    using stage.release_keeps [OF st1 3(1) sub(1)] stage.release_live [OF st1 3(1) sub(1)] sub(2) by (simp add: stage.release_keeps [OF st2])
next
  case (4 s)
  note sub = union_submset [OF this(2)]
  then show ?case
    using stage.release_keeps [OF st1 4(1) sub(1)] stage.release_live [OF st1 4(1) sub(1)] sub(2) by (simp add: stage.release_live [OF st2])
qed

text \<open>The exit functions release in their own order.\<close>

lemma stage_release_swap:
  assumes "stage P acq (\<lambda>s. rel2 (rel1 s)) (H1 + H2)" "stage P acq1 rel1 H1" "stage P acq2 rel2 H2"
  shows "stage P acq (\<lambda>s. rel1 (rel2 s)) (H1 + H2)"
proof (unfold_locales, goal_cases)
  case (1 s)
  then show ?case by (rule stage.acquire_keeps [OF assms(1)])
next
  case (2 s)
  then show ?case by (rule stage.acquire_live [OF assms(1)])
next
  case (3 s)
  note sub = union_submset [OF this(2) [unfolded add.commute [of H1]]]
  then show ?case
    using stage.release_keeps [OF assms(3) 3(1) sub(1)] stage.release_live [OF assms(3) 3(1) sub(1)] sub(2)
    by (simp add: stage.release_keeps [OF assms(2)])
next
  case (4 s)
  note sub = union_submset [OF this(2) [unfolded add.commute [of H1]]]
  then show ?case
    using stage.release_keeps [OF assms(3) 4(1) sub(1)] stage.release_live [OF assms(3) 4(1) sub(1)] sub(2)
    by (simp add: stage.release_live [OF assms(2)] ac_simps)
qed

section \<open>The lookup of the tracepoints\<close>

text \<open>What the lookup computes: for each name the first tracepoint of the kernel that has it.\<close>

definition first_tp :: "tracepoint list \<Rightarrow> string \<Rightarrow> nat option" where
  "first_tp ts name = map_option tpt_addr (find (\<lambda>t. tpt_name t = name) ts)"

definition resolve :: "tracepoint list \<Rightarrow> tp_entry \<Rightarrow> tp_entry" where
  "resolve ts e = e\<lparr>te_tp := first_tp ts (te_name e)\<rparr>"

definition found_in :: "tracepoint list \<Rightarrow> tp_entry \<Rightarrow> bool" where
  "found_in ts e \<longleftrightarrow> first_tp ts (te_name e) \<noteq> None"

lemma first_tp_Nil [simp]: "first_tp [] name = None"
  by (simp add: first_tp_def)

lemma first_tp_snoc: "first_tp (ts @ [t]) name = (case first_tp ts name of Some a \<Rightarrow> Some a | None \<Rightarrow> if tpt_name t = name then Some (tpt_addr t) else None)"
  by (induction ts) (auto simp: first_tp_def)

lemma found_in_iff: "found_in ts e \<longleftrightarrow> te_name e \<in> tpt_name ` set ts"
  by (induction ts) (auto simp: found_in_def first_tp_def)

lemma take_drop_step:
  assumes "m < length es"
  shows "(map g (take m es) @ drop m es)[m := g (es ! m)] = map g (take (Suc m) es) @ drop (Suc m) es"
    and "(map g (take m es) @ drop m es) ! m = es ! m"
proof -
  have "drop m es = es ! m # drop (Suc m) es" using assms by (simp add: Cons_nth_drop_Suc)
  then show "(map g (take m es) @ drop m es)[m := g (es ! m)] = map g (take (Suc m) es) @ drop (Suc m) es"
    using assms by (simp add: take_Suc_conv_app_nth list_update_append)
  show "(map g (take m es) @ drop m es) ! m = es ! m"
    using assms by (simp add: nth_append min_def)
qed

lemma fold_clear:
  "m \<le> length (tc_entries ctx) \<Longrightarrow> fold clear_entry [0..<m] ctx =
    ctx\<lparr>tc_entries := map (\<lambda>e. e\<lparr>te_tp := None\<rparr>) (take m (tc_entries ctx)) @ drop m (tc_entries ctx)\<rparr>"
proof (induction m)
  case (Suc m)
  then show ?case using take_drop_step [of m "tc_entries ctx" "\<lambda>e. e\<lparr>te_tp := None\<rparr>"] by (simp add: clear_entry_def)
qed simp

definition hits :: "tracepoint \<Rightarrow> tp_entry \<Rightarrow> bool" where
  "hits tp e \<longleftrightarrow> te_tp e = None \<and> tpt_name tp = te_name e"

definition hit :: "tracepoint \<Rightarrow> tp_entry \<Rightarrow> tp_entry" where
  "hit tp e = (if hits tp e then e\<lparr>te_tp := Some (tpt_addr tp)\<rparr> else e)"

lemma lookup_entry_hits: "lookup_entry tp i ctx =
  (if hits tp (tc_entries ctx ! i)
   then ctx\<lparr>tc_entries := (tc_entries ctx)[i := hit tp (tc_entries ctx ! i)], tc_found_num := tc_found_num ctx + 1\<rparr>
   else ctx)"
  by (auto simp: lookup_entry_def hits_def hit_def Let_def)

lemma fold_lookup:
  "m \<le> length (tc_entries ctx) \<Longrightarrow> fold (lookup_entry tp) [0..<m] ctx =
    ctx\<lparr>tc_entries := map (hit tp) (take m (tc_entries ctx)) @ drop m (tc_entries ctx),
        tc_found_num := tc_found_num ctx + length (filter (hits tp) (take m (tc_entries ctx)))\<rparr>"
proof (induction m)
  case (Suc m)
  let ?es = "tc_entries ctx"
  from Suc have m: "m < length ?es" by simp
  note step = take_drop_step [OF m, of "hit tp"]
  show ?case
  proof (cases "hits tp (?es ! m)")
    case True
    then show ?thesis
      using Suc.IH m step by (simp add: lookup_entry_hits take_Suc_conv_app_nth)
  next
    case False
    then have "hit tp (?es ! m) = ?es ! m" by (simp add: hit_def)
    then show ?thesis
      using False Suc.IH m step by (simp add: lookup_entry_hits take_Suc_conv_app_nth Cons_nth_drop_Suc)
  qed
qed simp

lemma hit_resolve: "hit tp (resolve ts e) = resolve (ts @ [tp]) e"
  by (auto simp: hit_def hits_def resolve_def first_tp_snoc split: option.split)

lemma hits_resolve: "hits tp (resolve ts e) \<longleftrightarrow> found_in (ts @ [tp]) e \<and> \<not> found_in ts e"
  by (auto simp: hits_def resolve_def found_in_def first_tp_snoc split: option.split)

lemma found_in_snoc: "found_in ts e \<Longrightarrow> found_in (ts @ [t]) e"
  by (simp add: found_in_iff)

lemma resolve_found: "found_in ts e \<Longrightarrow> resolve (ts @ [t]) e = resolve ts e"
  by (auto simp: found_in_def resolve_def first_tp_snoc)

lemma count_found: "length (filter (found_in (ts @ [t])) us) =
  length (filter (found_in ts) us) + length (filter (\<lambda>e. found_in (ts @ [t]) e \<and> \<not> found_in ts e) us)"
  by (induction us) (auto simp: found_in_snoc)

definition looked_up :: "tracepoint list \<Rightarrow> tp_context \<Rightarrow> tp_context" where
  "looked_up ts ctx = ctx\<lparr>tc_entries := map (resolve ts) (used_entries ctx) @ drop (tc_init_num ctx) (tc_entries ctx),
    tc_found_num := length (filter (found_in ts) (used_entries ctx))\<rparr>"

lemma fold_tracepoint_lookup:
  assumes "tc_init_num ctx \<le> length (tc_entries ctx)"
  shows "fold tracepoint_lookup ts ((fold clear_entry [0..<tc_init_num ctx] ctx)\<lparr>tc_found_num := 0\<rparr>) = looked_up ts ctx"
proof (induction ts rule: rev_induct)
  case Nil
  then show ?case
    using assms by (simp add: fold_clear looked_up_def used_entries_def resolve_def found_in_def)
next
  case (snoc t ts)
  let ?us = "used_entries ctx" and ?n = "tc_init_num ctx"
  have n: "length ?us = ?n" using assms by (simp add: used_entries_def)
  show ?case
  proof (cases "length (filter (found_in ts) ?us) = ?n")
    case True
    then have all: "\<forall>e \<in> set ?us. found_in ts e"
      using n by (metis length_filter_less less_irrefl)
    then have "filter (found_in (ts @ [t])) ?us = ?us" "filter (found_in ts) ?us = ?us"
      "map (resolve (ts @ [t])) ?us = map (resolve ts) ?us"
      by (simp_all add: filter_id_conv found_in_snoc resolve_found)
    then show ?thesis using snoc True by (simp add: tracepoint_lookup_def looked_up_def)
  next
    case False
    have "filter (hits t) (map (resolve ts) ?us) = map (resolve ts) (filter (\<lambda>e. found_in (ts @ [t]) e \<and> \<not> found_in ts e) ?us)"
      by (simp add: filter_map comp_def hits_resolve)
    moreover have "map (hit t) (map (resolve ts) ?us) = map (resolve (ts @ [t])) ?us"
      by (simp add: hit_resolve)
    ultimately show ?thesis
      using snoc False n by (simp add: tracepoint_lookup_def looked_up_def fold_lookup count_found)
  qed
qed

lemma find_tracepoints_correct:
  assumes "tc_init_num ctx \<le> length (tc_entries ctx)"
  shows "find_tracepoints ts ctx =
    (if \<forall>e \<in> set (used_entries ctx). te_name e \<in> tpt_name ` set ts then 0 else -1, looked_up ts ctx)"
proof -
  have n: "length (used_entries ctx) = tc_init_num ctx" using assms by (simp add: used_entries_def)
  have "length (filter (found_in ts) (used_entries ctx)) = tc_init_num ctx \<longleftrightarrow> (\<forall>e \<in> set (used_entries ctx). found_in ts e)"
    using n by (metis filter_True length_filter_less less_irrefl)
  then show ?thesis
    by (simp add: find_tracepoints_def fold_tracepoint_lookup [OF assms] Let_def looked_up_def found_in_iff)
qed

lemma used_looked_up:
  "tc_init_num ctx \<le> length (tc_entries ctx) \<Longrightarrow> used_entries (looked_up ts ctx) = map (resolve ts) (used_entries ctx)"
  by (simp add: looked_up_def used_entries_def)

lemma found_resolved:
  assumes "tc_init_num ctx \<le> length (tc_entries ctx)" "\<forall>e \<in> set (used_entries ctx). te_name e \<in> tpt_name ` set ts"
  shows "resolved (looked_up ts ctx)"
proof -
  have "\<forall>e \<in> set (used_entries ctx). first_tp ts (te_name e) \<noteq> None"
    using assms(2) by (simp only: found_in_iff [symmetric] found_in_def)
  then show ?thesis
    by (simp add: resolved_def used_looked_up [OF assms(1)] resolve_def)
qed

lemma find_step:
  assumes "tc_init_num (sched_probes s) \<le> length (tc_entries (sched_probes s))"
  shows "tracepoint_probe_context_find_tracepoints s =
    (if \<forall>e \<in> set (used_entries (sched_probes s)). te_name e \<in> tpt_name ` set (kn_tracepoints s) then 0 else -1,
     s\<lparr>sched_probes := looked_up (kn_tracepoints s) (sched_probes s)\<rparr>)"
  by (simp add: tracepoint_probe_context_find_tracepoints_def find_tracepoints_correct [OF assms])

end
