(* ===== verification/Probe_Modules.thy ===== *)
theory Probe_Modules
  imports Probe_Lib
begin

text \<open>
  The small modules that hook the scheduler and single functions: \<^verbatim>\<open>need_resched_display\<close>, \<^verbatim>\<open>sched_display\<close>,
  \<^verbatim>\<open>sched_stat_display\<close> (under \<^verbatim>\<open>kernel_module/thread_schedule\<close>), \<^verbatim>\<open>hook_func_example\<close>, \<^verbatim>\<open>kprobe_example1\<close> and
  \<^verbatim>\<open>kretprobe_example1\<close> (under \<^verbatim>\<open>kernel_module/hook_function\<close>): what their probes print, and what loading and
  unloading leave behind.
\<close>

section \<open>The context a probe runs in\<close>

record task =
  tk_pid :: int
  tk_tgid :: int
  tk_comm :: string
  tk_state :: int
  tk_flags :: u32

record cpu_ctx =
  cx_cpu :: nat
  cx_current :: task
  cx_preempt_count :: u32
  cx_need_resched :: bool

definition cpu_id :: "cpu_ctx \<Rightarrow> pr_arg" where
  "cpu_id cx = Num (int (cx_cpu cx))"

definition preempt_line :: "cpu_ctx \<Rightarrow> line" where
  "preempt_line cx = (''preempt_count: 0x%08x, test_preempt_need_resched: %d'',
     [word_arg (cx_preempt_count cx), flag_arg (cx_need_resched cx)])"

section \<open>\<^verbatim>\<open>need_resched_display\<close>\<close>

definition CPU_ID :: nat where "CPU_ID = 0"

definition task_struct_display :: "string \<Rightarrow> task \<Rightarrow> line list" where
  "task_struct_display prefix t =
    [(''%s task tid/pid: %d, pid/tgid: %d, comm: %s'', [Str prefix, Num (tk_pid t), Num (tk_tgid t), Str (tk_comm t)]),
     (''    task state: %ld, task flag: 0x%08x'', [Num (tk_state t), word_arg (tk_flags t)])]"

definition current_display :: "cpu_ctx \<Rightarrow> line list" where
  "current_display cx = task_struct_display ''current:'' (cx_current cx) @ [preempt_line cx]"

definition trace_sched_switch_handler :: "cpu_ctx \<Rightarrow> bool \<Rightarrow> task \<Rightarrow> task \<Rightarrow> line list" where
  "trace_sched_switch_handler cx preempt prev next_task =
    (if cx_cpu cx = CPU_ID
     then (''trace_sched_switch_handler: cpu_id: %d, preempt: %d'', [cpu_id cx, flag_arg preempt]) #
          task_struct_display ''prev: '' prev @ task_struct_display ''next: '' next_task @ [('''', [])]
     else [])"

definition kprobe___schedule_pre_handler :: "cpu_ctx \<Rightarrow> u64 \<Rightarrow> line list" where
  "kprobe___schedule_pre_handler cx di =
    (let preempt = di \<noteq> 0
     in if cx_cpu cx = CPU_ID
        then (''kprobe___schedule_pre_handler: cpu_id: %d, preempt: %d'', [cpu_id cx, flag_arg preempt]) #
             current_display cx @ [('''', [])]
        else [])"

definition kretprobe_resched_curr_ret_handler :: "cpu_ctx \<Rightarrow> line list" where
  "kretprobe_resched_curr_ret_handler cx =
    (if cx_cpu cx = CPU_ID
     then (''kretprobe_resched_curr_ret_handler: cpu_id: %d'', [cpu_id cx]) # current_display cx @ [('''', [])]
     else [])"

definition need_resched_probes :: tp_context where
  "need_resched_probes =
    \<lparr>tc_entries = [tp_entry_init ''sched_switch'' ''trace_sched_switch_handler''], tc_init_num = 1, tc_found_num = 0\<rparr>"

definition need_resched_display_init :: "'a probe_module_scheme \<Rightarrow> int \<times> 'a probe_module_scheme" where
  "need_resched_display_init s =
    (let (ret, s1) = tracepoint_probe_context_find_tracepoints s in
     if ret < 0 then (ret, s1) else
     let (ret, s2) = tracepoint_probe_context_register_probes0 s1 in
     if ret < 0 then (ret, s2) else
     let (ret, s3) = kprobes_init ''kprobes'' 1 s2 in
     if ret < 0 then (ret, tracepoint_probe_context_unregister_probes s3) else
     let (ret, s4) = kretprobes_init ''kretprobes'' 1 s3 in
     if ret < 0 then (ret, tracepoint_probe_context_unregister_probes (kprobes_exit ''kprobes'' 1 s4)) else
     (0, s4))"

definition need_resched_display_exit :: "'a probe_module_scheme \<Rightarrow> 'a probe_module_scheme" where
  "need_resched_display_exit s =
    tracepoint_probe_context_unregister_probes (kprobes_exit ''kprobes'' 1 (kretprobes_exit ''kretprobes'' 1 s))"

section \<open>\<^verbatim>\<open>hook_func_example\<close>, \<^verbatim>\<open>kprobe_example1\<close>, \<^verbatim>\<open>kretprobe_example1\<close>\<close>

text \<open>The context of the example has an entry, but \<^verbatim>\<open>init_num\<close> is 0.\<close>

definition hook_example_probes :: tp_context where
  "hook_example_probes =
    \<lparr>tc_entries = [tp_entry_init ''local_timer_entry'' ''trace_local_timer_entry_handler''], tc_init_num = 0, tc_found_num = 0\<rparr>"

definition hook_func_example_init :: "'a probe_module_scheme \<Rightarrow> int \<times> 'a probe_module_scheme" where
  "hook_func_example_init s =
    (let (ret, s1) = tracepoint_probe_context_find_tracepoints s in
     if ret < 0 then (-1, s1) else
     let (ret, s2) = tracepoint_probe_context_register_probes0 s1 in
     if ret < 0 then (-1, s2) else
     let (ret, s3) = kprobes_init ''kprobes'' 1 s2 in
     if ret < 0 then (-1, s3) else
     let (ret, s4) = kretprobes_init ''kretprobes'' 1 s3 in
     if ret < 0 then (-1, s4) else (0, s4))"

definition hook_func_example_exit :: "'a probe_module_scheme \<Rightarrow> 'a probe_module_scheme" where
  "hook_func_example_exit s =
    kretprobes_exit ''kretprobes'' 1 (kprobes_exit ''kprobes'' 1 (tracepoint_probe_context_unregister_probes s))"

definition kprobe_example1_init :: "'a kernel_scheme \<Rightarrow> int \<times> 'a kernel_scheme" where
  "kprobe_example1_init s = (let (ret, s1) = kprobes_init ''kprobes'' 1 s in if ret < 0 then (-1, s1) else (0, s1))"

definition kprobe_example1_exit :: "'a kernel_scheme \<Rightarrow> 'a kernel_scheme" where
  "kprobe_example1_exit s = kprobes_exit ''kprobes'' 1 s"

definition kretprobe_example1_init :: "'a kernel_scheme \<Rightarrow> int \<times> 'a kernel_scheme" where
  "kretprobe_example1_init s = (let (ret, s1) = kretprobes_init ''kprobes'' 1 s in if ret < 0 then (-1, s1) else (0, s1))"

definition kretprobe_example1_exit :: "'a kernel_scheme \<Rightarrow> 'a kernel_scheme" where
  "kretprobe_example1_exit s = kretprobes_exit ''kprobes'' 1 s"

text \<open>The return probe measures the call: \<^verbatim>\<open>ktime_t\<close> is a signed number of nanoseconds.\<close>

definition kretprobe_symbol_entry_handler :: "int \<Rightarrow> int" where
  "kretprobe_symbol_entry_handler ktime = ktime"

definition kretprobe_symbol_ret_handler :: "string \<Rightarrow> int \<Rightarrow> int \<Rightarrow> u64 \<Rightarrow> line list" where
  "kretprobe_symbol_ret_handler symbol entry_stamp ktime retval =
    (let delta = ktime - entry_stamp
     in [(''%s returned %lu and took %lld ns to execute'', [Str symbol, word_arg retval, Num delta])])"

section \<open>\<^verbatim>\<open>sched_display\<close>\<close>

text \<open>
  Three per-CPU counters: NULL, or a counter for each CPU, which \<^verbatim>\<open>alloc_percpu\<close> makes zero.  \<open>sd_alloc\<close> says
  which allocations succeed (none left: they do), \<open>sd_percpu\<close> is the number of objects that are allocated.
\<close>

record sched_display = probe_module +
  sd_wakeup_count :: "(nat \<Rightarrow> u64) option"
  sd_switch_count :: "(nat \<Rightarrow> u64) option"
  sd_migrate_count :: "(nat \<Rightarrow> u64) option"
  sd_alloc :: "bool list"
  sd_percpu :: int

definition alloc_percpu :: "sched_display \<Rightarrow> (nat \<Rightarrow> u64) option \<times> sched_display" where
  "alloc_percpu s =
    (let ok = (case sd_alloc s of [] \<Rightarrow> True | b # bs \<Rightarrow> b); s1 = s\<lparr>sd_alloc := tl (sd_alloc s)\<rparr>
     in if ok then (Some (\<lambda>cpu. 0), s1\<lparr>sd_percpu := sd_percpu s1 + 1\<rparr>) else (None, s1))"

definition free_percpu :: "(nat \<Rightarrow> u64) option \<Rightarrow> sched_display \<Rightarrow> sched_display" where
  "free_percpu p s = (if p = None then s else s\<lparr>sd_percpu := sd_percpu s - 1\<rparr>)"

definition sd_task_display :: "string \<Rightarrow> task \<Rightarrow> line list" where
  "sd_task_display prefix t =
    [(''%s task tid/pid: %d, pid/tgid: %d, comm: %s'', [Str prefix, Num (tk_pid t), Num (tk_tgid t), Str (tk_comm t)])]"

definition sd_current_display :: "cpu_ctx \<Rightarrow> line list" where
  "sd_current_display cx =
    [(''current: cpu_id: %d, task tid/pid: %d, pid/tgid: %d, comm: %s'',
        [cpu_id cx, Num (tk_pid (cx_current cx)), Num (tk_tgid (cx_current cx)), Str (tk_comm (cx_current cx))]),
     preempt_line cx]"

text \<open>A probe that dereferences NULL ends in a fault of the kernel.\<close>

definition probe_sched_wakeup :: "cpu_ctx \<Rightarrow> task \<Rightarrow> sched_display \<Rightarrow> line list \<times> sched_display" where
  "probe_sched_wakeup cx p s =
    (case sd_wakeup_count s of
      None \<Rightarrow> ([], s\<lparr>kn_fault := True\<rparr>)
    | Some cnt \<Rightarrow>
        let n = cnt (cx_cpu cx) + 1; s1 = s\<lparr>sd_wakeup_count := Some (cnt(cx_cpu cx := n))\<rparr>
        in (if n mod 1000 = 0
            then (''probe_sched_wakeup: '', []) # sd_current_display cx @ sd_task_display ''target: '' p @ [('''', [])]
            else [], s1))"

definition probe_sched_switch :: "cpu_ctx \<Rightarrow> bool \<Rightarrow> task \<Rightarrow> task \<Rightarrow> sched_display \<Rightarrow> line list \<times> sched_display" where
  "probe_sched_switch cx preempt prev next_task s =
    (case sd_switch_count s of
      None \<Rightarrow> ([], s\<lparr>kn_fault := True\<rparr>)
    | Some cnt \<Rightarrow>
        let n = cnt (cx_cpu cx) + 1; s1 = s\<lparr>sd_switch_count := Some (cnt(cx_cpu cx := n))\<rparr>
        in (if n mod 1000 = 0
            then (''probe_sched_switch: preempt: %d'', [flag_arg preempt]) # sd_current_display cx @
                 sd_task_display ''prev: '' prev @ sd_task_display ''next: '' next_task @ [('''', [])]
            else [], s1))"

definition probe_sched_migrate_task :: "cpu_ctx \<Rightarrow> task \<Rightarrow> int \<Rightarrow> sched_display \<Rightarrow> line list \<times> sched_display" where
  "probe_sched_migrate_task cx p cpu s =
    (case sd_migrate_count s of
      None \<Rightarrow> ([], s\<lparr>kn_fault := True\<rparr>)
    | Some cnt \<Rightarrow>
        let n = cnt (cx_cpu cx) + 1; s1 = s\<lparr>sd_migrate_count := Some (cnt(cx_cpu cx := n))\<rparr>
        in (if n mod 10 = 0
            then (''probe_sched_migrate: target cpu: %d'', [Num cpu]) # sd_current_display cx @
                 sd_task_display ''p: '' p @ [('''', [])]
            else [], s1))"

definition sched_display_probes :: tp_context where
  "sched_display_probes =
    \<lparr>tc_entries = [tp_entry_init ''sched_wakeup'' ''probe_sched_wakeup'', tp_entry_init ''sched_switch'' ''probe_sched_switch'',
       tp_entry_init ''sched_migrate_task'' ''probe_sched_migrate_task''],
     tc_init_num = 3, tc_found_num = 0\<rparr>"

definition sched_display_init :: "sched_display \<Rightarrow> int \<times> sched_display" where
  "sched_display_init s =
    (let (wakeup, s1) = alloc_percpu s; s2 = s1\<lparr>sd_wakeup_count := wakeup\<rparr>;
         (switch, s3) = alloc_percpu s2; s4 = s3\<lparr>sd_switch_count := switch\<rparr>;
         (migrate, s5) = alloc_percpu s4; s6 = s5\<lparr>sd_migrate_count := migrate\<rparr>;
         (ret, s7) = tracepoint_probe_context_find_tracepoints s6 in
     if ret < 0 then (-1, s7) else
     let (ret, s8) = tracepoint_probe_context_register_probes0 s7 in
     if ret < 0 then (-1, s8) else (0, s8))"

definition sched_display_exit :: "sched_display \<Rightarrow> sched_display" where
  "sched_display_exit s =
    (let s1 = tracepoint_probe_context_unregister_probes s
     in free_percpu (sd_migrate_count s1) (free_percpu (sd_switch_count s1) (free_percpu (sd_wakeup_count s1) s1)))"

section \<open>\<^verbatim>\<open>sched_stat_display\<close>\<close>

definition trace_sched_stat_wait_probe :: "cpu_ctx \<Rightarrow> task \<Rightarrow> u64 \<Rightarrow> line list" where
  "trace_sched_stat_wait_probe cx tsk delay =
    (if cx_cpu cx = CPU_ID
     then (''trace_sched_stat_wait_probe: cpu_id: %d, delay: %llu'', [cpu_id cx, word_arg delay]) #
          sd_task_display ''task: '' tsk @ [('''', [])]
     else [])"

definition trace_sched_stat_sleep_probe :: "cpu_ctx \<Rightarrow> task \<Rightarrow> u64 \<Rightarrow> line list" where
  "trace_sched_stat_sleep_probe cx tsk delay =
    (if cx_cpu cx = CPU_ID
     then (''trace_sched_stat_sleep_probe: cpu_id: %d, delay: %llu'', [cpu_id cx, word_arg delay]) #
          sd_task_display ''task: '' tsk @ [('''', [])]
     else [])"

definition trace_sched_stat_iowait_probe :: "cpu_ctx \<Rightarrow> task \<Rightarrow> u64 \<Rightarrow> line list" where
  "trace_sched_stat_iowait_probe cx tsk delay =
    (if cx_cpu cx = CPU_ID
     then (''trace_sched_stat_iowait_probe: cpu_id: %d, delay: %llu'', [cpu_id cx, word_arg delay]) #
          sd_task_display ''task: '' tsk @ [('''', [])]
     else [])"

definition trace_sched_stat_blocked_probe :: "cpu_ctx \<Rightarrow> task \<Rightarrow> u64 \<Rightarrow> line list" where
  "trace_sched_stat_blocked_probe cx tsk delay =
    (if cx_cpu cx = CPU_ID
     then (''trace_sched_stat_blocked_probe: cpu_id: %d, delay: %llu'', [cpu_id cx, word_arg delay]) #
          sd_task_display ''task: '' tsk @ [('''', [])]
     else [])"

definition sched_stat_probes :: tp_context where
  "sched_stat_probes =
    \<lparr>tc_entries = [tp_entry_init ''sched_stat_wait'' ''trace_sched_stat_wait_probe'',
       tp_entry_init ''sched_stat_sleep'' ''trace_sched_stat_sleep_probe'',
       tp_entry_init ''sched_stat_iowait'' ''trace_sched_stat_iowait_probe'',
       tp_entry_init ''sched_stat_blocked'' ''trace_sched_stat_blocked_probe''],
     tc_init_num = 4, tc_found_num = 0\<rparr>"

definition sched_stat_display_init :: "'a probe_module_scheme \<Rightarrow> int \<times> 'a probe_module_scheme" where
  "sched_stat_display_init s =
    (let (ret, s1) = tracepoint_probe_context_find_tracepoints s in
     if ret < 0 then (-1, s1) else
     let (ret, s2) = tracepoint_probe_context_register_probes0 s1 in
     if ret < 0 then (-1, s2) else (0, s2))"

definition sched_stat_display_exit :: "'a probe_module_scheme \<Rightarrow> 'a probe_module_scheme" where
  "sched_stat_display_exit s = tracepoint_probe_context_unregister_probes s"

section \<open>All or nothing\<close>

interpretation kprobe_example1: stage "calm f ctx" kprobe_example1_init kprobe_example1_exit "kprobe_hooks ''kprobes'' 1" for f ctx
proof (unfold_locales, goal_cases)
  case (1 s)
  then show ?case using stage.acquire_keeps [OF stage_kprobes [of f ctx "''kprobes''" 1] 1]
    by (cases "kprobes_init ''kprobes'' 1 s") (simp add: kprobe_example1_init_def)
next
  case (2 s)
  then show ?case using stage.acquire_live [OF stage_kprobes [of f ctx "''kprobes''" 1] 2]
    by (cases "kprobes_init ''kprobes'' 1 s") (auto simp: kprobe_example1_init_def)
qed (simp_all add: kprobe_example1_exit_def stage.release_keeps [OF stage_kprobes] stage.release_live [OF stage_kprobes])

interpretation kretprobe_example1: stage "calm f ctx" kretprobe_example1_init kretprobe_example1_exit "kretprobe_hooks ''kprobes'' 1" for f ctx
proof (unfold_locales, goal_cases)
  case (1 s)
  then show ?case using stage.acquire_keeps [OF stage_kretprobes [of f ctx "''kprobes''" 1] 1]
    by (cases "kretprobes_init ''kprobes'' 1 s") (simp add: kretprobe_example1_init_def)
next
  case (2 s)
  then show ?case using stage.acquire_live [OF stage_kretprobes [of f ctx "''kprobes''" 1] 2]
    by (cases "kretprobes_init ''kprobes'' 1 s") (auto simp: kretprobe_example1_init_def)
qed (simp_all add: kretprobe_example1_exit_def stage.release_keeps [OF stage_kretprobes] stage.release_live [OF stage_kretprobes])

section \<open>The older library: a failed registration goes unnoticed\<close>

text \<open>The hooks that a sequence of registrations with these results registers.\<close>

fun granted :: "nat list \<Rightarrow> 'h list \<Rightarrow> 'h list" where
  "granted es [] = []"
| "granted [] (h # hs) = h # granted [] hs"
| "granted (e # es) (h # hs) = (if e = 0 then h # granted es hs else granted es hs)"

lemma granted_all: "set hs \<subseteq> set (granted es hs) \<longleftrightarrow> (\<forall>e \<in> set (take (length hs) es). e = 0)" if "distinct hs"
proof -
  have sub: "set (granted es hs) \<subseteq> set hs" for es :: "nat list" and hs :: "'a list"
    by (induction es hs rule: granted.induct) auto
  show ?thesis
    using that
  proof (induction es hs rule: granted.induct)
    case (3 e es h hs)
    then have "h \<notin> set (granted es hs)" using sub by fastforce
    with 3 show ?case by (auto simp: subset_insert)
  next
    case (2 h hs)
    then have "h \<notin> set hs" by simp
    with 2 show ?case by (auto simp: subset_insert)
  qed simp
qed

lemma register_entry_granted:
  assumes "te_tp e \<noteq> None"
  shows "live (snd (register_entry e s)) = live s + mset (granted (kn_errno s) [entry_hook e])"
    "kn_errno (snd (register_entry e s)) = tl (kn_errno s)" "kn_fault (snd (register_entry e s)) = kn_fault s"
    "kn_stale (snd (register_entry e s)) = kn_stale s" "sched_probes (snd (register_entry e m)) = sched_probes m"
proof -
  obtain a where "te_tp e = Some a" using assms by blast
  then have r: "register_entry e k = kn_register (entry_hook e) k" for k :: "'c kernel_scheme"
    by (simp add: register_entry_def tracepoint_probe_register_def entry_hook_def)
  show "live (snd (register_entry e s)) = live s + mset (granted (kn_errno s) [entry_hook e])"
    unfolding r by (cases "kn_errno s") (simp_all add: kn_register_def Let_def live_def)
  show "kn_errno (snd (register_entry e s)) = tl (kn_errno s)"
    unfolding r by (simp add: kn_register_def Let_def)
qed (use assms in \<open>auto simp: register_entry_def tracepoint_probe_register_def\<close>)

lemma granted_Cons: "granted es (h # hs) = granted es [h] @ granted (tl es) hs"
  by (cases es) simp_all

lemma register_fold:
  assumes "\<forall>e \<in> set es. te_tp e \<noteq> None"
  shows "live (fold (\<lambda>e s. snd (register_entry e s)) es s) = live s + mset (granted (kn_errno s) (map entry_hook es)) \<and>
    kn_fault (fold (\<lambda>e s. snd (register_entry e s)) es s) = kn_fault s \<and>
    kn_stale (fold (\<lambda>e s. snd (register_entry e s)) es s) = kn_stale s"
  using assms
proof (induction es arbitrary: s)
  case (Cons e es)
  then have e: "te_tp e \<noteq> None" by simp
  show ?case
    using Cons.IH [of "snd (register_entry e s)"] Cons.prems
    by (simp add: register_entry_granted [OF e] granted_Cons [of "kn_errno s" "entry_hook e" "map entry_hook es"])
qed simp

lemma subset_diff_single: "h \<notin> A \<Longrightarrow> A \<subseteq> set_mset (M - {#h#}) \<longleftrightarrow> A \<subseteq> set_mset M"
proof -
  assume "h \<notin> A"
  then have "x \<in># M - {#h#} \<longleftrightarrow> x \<in># M" if "x \<in> A" for x
    using that by (auto simp: in_diff_count)
  then show ?thesis by blast
qed

lemma unregister_fold:
  assumes "\<forall>e \<in> set es. te_tp e \<noteq> None" "distinct (map entry_hook es)"
  shows "live (fold unregister_entry es s) = live s - mset (map entry_hook es) \<and>
    (kn_fault (fold unregister_entry es s) \<longleftrightarrow> kn_fault s \<or> \<not> set (map entry_hook es) \<subseteq> set_mset (live s))"
  using assms
proof (induction es arbitrary: s)
  case (Cons e es)
  obtain a where a: "te_tp e = Some a" using Cons.prems(1) by auto
  let ?h = "entry_hook e" and ?s = "unregister_entry e s"
  have 1: "live ?s = live s - {#?h#}" "kn_fault ?s \<longleftrightarrow> kn_fault s \<or> ?h \<notin># live s"
    by (auto simp: unregister_entry_def tracepoint_probe_unregister_def a kn_unregister_def live_def entry_hook_def diff_single_trivial)
  have "set (map entry_hook es) \<subseteq> set_mset (live s - {#?h#}) \<longleftrightarrow> set (map entry_hook es) \<subseteq> set_mset (live s)"
    using Cons.prems(2) by (intro subset_diff_single) simp
  then show ?case
    using Cons.IH [of ?s] Cons.prems 1 by (auto simp: diff_diff_add)
qed simp

lemma register_fold_context: "sched_probes (fold (\<lambda>e s. snd (register_entry e s)) es m) = sched_probes m"
proof (induction es arbitrary: m)
  case (Cons e es)
  have "sched_probes (snd (register_entry e m)) = sched_probes m"
    by (simp add: register_entry_def tracepoint_probe_register_def split: option.split)
  with Cons show ?case by simp
qed simp

lemma old_library:
  assumes "resolved (sched_probes s)" "distinct (map entry_hook (used_entries (sched_probes s)))" "\<not> kn_fault s"
    and "set (map entry_hook (used_entries (sched_probes s))) \<inter> set (kn_live s) = {}"
  shows "kn_fault (tracepoint_probe_context_unregister_probes (snd (tracepoint_probe_context_register_probes0 s))) \<longleftrightarrow>
    (\<exists>e \<in> set (take (length (used_entries (sched_probes s))) (kn_errno s)). e \<noteq> 0)"
proof -
  let ?es = "used_entries (sched_probes s)" and ?s = "fold (\<lambda>e s. snd (register_entry e s)) (used_entries (sched_probes s)) s"
  have tp: "\<forall>e \<in> set ?es. te_tp e \<noteq> None" using assms(1) by (simp add: resolved_def)
  have "live ?s = live s + mset (granted (kn_errno s) (map entry_hook ?es))" "kn_fault ?s = kn_fault s"
    using register_fold [OF tp, of s] by simp_all
  then have "kn_fault (fold unregister_entry ?es ?s) \<longleftrightarrow> \<not> set (map entry_hook ?es) \<subseteq> set (granted (kn_errno s) (map entry_hook ?es)) \<union> set (kn_live s)"
    using unregister_fold [OF tp assms(2), of ?s] assms(3) by (simp add: live_def Un_commute)
  also have "\<dots> \<longleftrightarrow> \<not> set (map entry_hook ?es) \<subseteq> set (granted (kn_errno s) (map entry_hook ?es))"
    using assms(4) by blast
  also have "\<dots> \<longleftrightarrow> (\<exists>e \<in> set (take (length ?es) (kn_errno s)). e \<noteq> 0)"
    using granted_all [OF assms(2), of "kn_errno s"] by simp
  finally show ?thesis
    by (simp add: tracepoint_probe_context_register_probes0_def tracepoint_probe_context_unregister_probes_def
      register_fold_context tracepoint_synchronize_unregister_def)
qed

lemma sched_stat_used: "used_entries sched_stat_probes = tc_entries sched_stat_probes"
  by (simp add: used_entries_def sched_stat_probes_def)

text \<open>The older library does not notice a failed registration. With its four tracepoints present, loading
  sched_stat_display answers 0 whichever of the four registrations the kernel refuses; and unloading then
  unregisters a probe that was never registered exactly if one was refused.\<close>

lemma failed_probe_unnoticed:
  assumes "sched_probes s = sched_stat_probes"
    and "{''sched_stat_wait'', ''sched_stat_sleep'', ''sched_stat_iowait'', ''sched_stat_blocked''} \<subseteq> tpt_name ` set (kn_tracepoints s)"
    and "\<not> kn_fault s" and "\<forall>a probe priv. Tp a probe priv \<in> set (kn_live s) \<longrightarrow> probe \<notin> te_probe ` set (tc_entries sched_stat_probes)"
  shows "fst (sched_stat_display_init s) = 0 \<and>
    (kn_fault (sched_stat_display_exit (snd (sched_stat_display_init s))) \<longleftrightarrow> (\<exists>e \<in> set (take 4 (kn_errno s)). e \<noteq> 0))"
proof -
  let ?ctx = "looked_up (kn_tracepoints s) sched_stat_probes" and ?s = "s\<lparr>sched_probes := looked_up (kn_tracepoints s) sched_stat_probes\<rparr>"
  have n: "tc_init_num sched_stat_probes \<le> length (tc_entries sched_stat_probes)" by (simp add: sched_stat_probes_def)
  have found: "\<forall>e \<in> set (used_entries sched_stat_probes). te_name e \<in> tpt_name ` set (kn_tracepoints s)"
    unfolding sched_stat_used using assms(2) by (simp add: sched_stat_probes_def tp_entry_init_def)
  note used = used_looked_up [OF n, of "kn_tracepoints s", unfolded sched_stat_used]
  have "map te_probe (used_entries ?ctx) = map te_probe (tc_entries sched_stat_probes)"
    by (simp add: used resolve_def comp_def)
  moreover have "distinct (map te_probe (tc_entries sched_stat_probes))"
    by (simp add: sched_stat_probes_def tp_entry_init_def)
  ultimately have dist: "distinct (map entry_hook (used_entries ?ctx))" "length (used_entries ?ctx) = 4"
    by (auto simp: distinct_map entry_hook_def inj_on_def used sched_stat_probes_def)
  have disj: "set (map entry_hook (used_entries ?ctx)) \<inter> set (kn_live s) = {}"
    using assms(4) by (auto simp: used entry_hook_def resolve_def)
  have find: "tracepoint_probe_context_find_tracepoints s = (0, ?s)"
    using found by (simp add: find_step assms(1) n)
  have "kn_fault (tracepoint_probe_context_unregister_probes (snd (tracepoint_probe_context_register_probes0 ?s))) \<longleftrightarrow>
      (\<exists>e \<in> set (take 4 (kn_errno s)). e \<noteq> 0)"
    using old_library [of ?s] found_resolved [OF n found] dist disj assms(3) by simp
  then show ?thesis
    by (simp add: sched_stat_display_init_def sched_stat_display_exit_def find tracepoint_probe_context_register_probes0_def)
qed

text \<open>A kernel with these tracepoints, for the witnesses.\<close>

definition sample_kernel :: "string list \<Rightarrow> nat list \<Rightarrow> tp_context \<Rightarrow> probe_module" where
  "sample_kernel names errnos ctx =
    \<lparr>kn_tracepoints = map (\<lambda>name. \<lparr>tpt_addr = length name, tpt_name = name\<rparr>) names, kn_errno = errnos, kn_live = [], kn_stale = [],
     kn_fault = False, sched_probes = ctx\<rparr>"

lemma failed_probe_unnoticed_witness:
  "let s = sample_kernel [''sched_stat_wait'', ''sched_stat_sleep'', ''sched_stat_iowait'', ''sched_stat_blocked''] [0, 12] sched_stat_probes
   in fst (sched_stat_display_init s) = 0 \<and> kn_fault (sched_stat_display_exit (snd (sched_stat_display_init s)))"
  using failed_probe_unnoticed
    [of "sample_kernel [''sched_stat_wait'', ''sched_stat_sleep'', ''sched_stat_iowait'', ''sched_stat_blocked''] [0, 12] sched_stat_probes"]
  by (simp add: sample_kernel_def Let_def)

section \<open>Init functions that leave something behind\<close>

lemma kprobes_init_one:
  "kprobes_init kps 1 s = (let (ret, s1) = register_kprobe (kps, 0) s in if ret < 0 then (ret, s1) else (0, s1))"
  by (cases "register_kprobe (kps, 0) s") (simp add: kprobes_init_def cells_def)

lemma kretprobes_init_one:
  "kretprobes_init kps 1 s = (let (ret, s1) = register_kretprobe (kps, 0) s in if ret < 0 then (ret, s1) else (0, s1))"
  by (cases "register_kretprobe (kps, 0) s") (simp add: kretprobes_init_def cells_def)

lemma hook_example_used: "used_entries (looked_up ts hook_example_probes) = []"
  by (simp add: looked_up_def used_entries_def hook_example_probes_def)

text \<open>
  \<^verbatim>\<open>hook_func_example\<close> leaves a kprobe behind. Its init function returns -1 as soon as a call fails, without
  undoing the ones before: if the kernel accepts the kprobe but not the kretprobe, loading fails while the
  kprobe, whose handler is in the module that is now discarded, is registered; if it accepts both, or refuses
  the kprobe, nothing is wrong.
\<close>

lemma hook_example_leaks:
  assumes "sched_probes s = hook_example_probes" "kn_errno s = [e1, e2]"
  shows "hook_func_example_init s = (ret, s') \<Longrightarrow>
    (ret = 0 \<longleftrightarrow> e1 = 0 \<and> e2 = 0) \<and>
    live s' = live s + (if e1 = 0 then {#Kp (''kprobes'', 0)#} else {#}) + (if ret = 0 then {#Krp (''kretprobes'', 0)#} else {#})"
proof -
  let ?s = "s\<lparr>sched_probes := looked_up (kn_tracepoints s) hook_example_probes\<rparr>"
  have "tracepoint_probe_context_find_tracepoints s = (0, ?s)"
    by (subst find_step) (simp_all add: assms(1) used_entries_def hook_example_probes_def)
  moreover have "tracepoint_probe_context_register_probes0 ?s = (0, ?s)"
    by (simp add: tracepoint_probe_context_register_probes0_def hook_example_used)
  moreover assume "hook_func_example_init s = (ret, s')"
  ultimately show ?thesis
    using assms(2) unfolding hook_func_example_init_def kprobes_init_one kretprobes_init_one
    by (auto simp: register_kprobe_def register_kretprobe_def kn_register_def Let_def live_def split: if_splits)
qed

lemma hook_example_leaks_witness:
  "let (ret, s) = hook_func_example_init (sample_kernel [] [0, 12] hook_example_probes) in ret = -1 \<and> Kp (''kprobes'', 0) \<in># live s"
proof -
  obtain ret s where r: "hook_func_example_init (sample_kernel [] [0, 12] hook_example_probes) = (ret, s)" by fastforce
  have "sched_probes (sample_kernel [] [0, 12] hook_example_probes) = hook_example_probes"
    "kn_errno (sample_kernel [] [0, 12] hook_example_probes) = [0, 12]" by (simp_all add: sample_kernel_def)
  note leak = hook_example_leaks [OF this r]
  have "ret = 0 \<or> ret = -1"
    using r by (auto simp: hook_func_example_init_def Let_def split: prod.splits if_splits)
  then show ?thesis using leak by (simp add: r)
qed

section \<open>need_resched_display\<close>

lemma register_probes0_ok:
  assumes "calm f ctx s" "resolved ctx" "\<forall>e \<in> set (take (length (used_entries ctx)) (kn_errno s)). e = 0"
  shows "fst (tracepoint_probe_context_register_probes0 s) = 0"
    and "calm f ctx (snd (tracepoint_probe_context_register_probes0 s))"
    and "live (snd (tracepoint_probe_context_register_probes0 s)) = live s + tracepoint_hooks ctx"
proof -
  have tp: "\<forall>e \<in> set (used_entries ctx). te_tp e \<noteq> None" using assms(2) by (simp add: resolved_def)
  have all: "\<forall>e \<in> set (take (length hs) es). e = 0 \<Longrightarrow> granted es hs = hs" for es and hs :: "hook list"
    by (induction es hs rule: granted.induct) auto
  show "fst (tracepoint_probe_context_register_probes0 s) = 0"
    by (simp add: tracepoint_probe_context_register_probes0_def)
  show "calm f ctx (snd (tracepoint_probe_context_register_probes0 s))"
    using assms(1) register_fold [OF tp, of s]
    by (simp add: tracepoint_probe_context_register_probes0_def calm_def steady_def register_fold_context)
  show "live (snd (tracepoint_probe_context_register_probes0 s)) = live s + tracepoint_hooks ctx"
    using assms(1,3) register_fold [OF tp, of s] all [of "map entry_hook (used_entries ctx)" "kn_errno s"]
    by (simp add: tracepoint_probe_context_register_probes0_def calm_def steady_def tracepoint_hooks_def)
qed

definition need_resched_hooks :: "tracepoint list \<Rightarrow> hook multiset" where
  "need_resched_hooks ts = tracepoint_hooks (looked_up ts need_resched_probes) + (kprobe_hooks ''kprobes'' 1 + kretprobe_hooks ''kretprobes'' 1)"

text \<open>If the kernel takes the tracepoint probe, loading is all or nothing.\<close>

lemma need_resched_all_or_nothing:
  assumes "sched_probes s = need_resched_probes" "''sched_switch'' \<in> tpt_name ` set (kn_tracepoints s)"
    and "kn_stale s = []" "\<forall>e \<in> set (take 1 (kn_errno s)). e = 0"
  shows "need_resched_display_init s = (ret, s') \<Longrightarrow>
    kn_fault s' = kn_fault s \<and> kn_stale s' = [] \<and>
    (ret = 0 \<and> live s' = live s + need_resched_hooks (kn_tracepoints s) \<or> ret < 0 \<and> live s' = live s)"
proof -
  let ?ctx = "looked_up (kn_tracepoints s) need_resched_probes"
  let ?s = "s\<lparr>sched_probes := ?ctx\<rparr>" and ?P = "calm (kn_fault s) ?ctx"
  have n: "tc_init_num need_resched_probes \<le> length (tc_entries need_resched_probes)" by (simp add: need_resched_probes_def)
  have used: "used_entries need_resched_probes = tc_entries need_resched_probes"
    by (simp add: used_entries_def need_resched_probes_def)
  have found: "\<forall>e \<in> set (used_entries need_resched_probes). te_name e \<in> tpt_name ` set (kn_tracepoints s)"
    unfolding used using assms(2) by (simp add: need_resched_probes_def tp_entry_init_def)
  note res = found_resolved [OF n found]
  have len: "length (used_entries ?ctx) = 1"
    unfolding used_looked_up [OF n] used by (simp add: need_resched_probes_def)
  have find: "tracepoint_probe_context_find_tracepoints s = (0, ?s)"
    using found by (simp add: find_step assms(1) n)
  have P: "?P ?s" using assms(3) by (simp add: calm_def steady_def)
  have ok: "\<forall>e \<in> set (take (length (used_entries ?ctx)) (kn_errno ?s)). e = 0" using assms(4) by (simp add: len)
  note reg = register_probes0_ok [OF P res ok]
  let ?s2 = "snd (tracepoint_probe_context_register_probes0 ?s)"
  let ?rest = "and_then (kprobes_init ''kprobes'' 1) (kprobes_exit ''kprobes'' 1) (kretprobes_init ''kretprobes'' 1)"
  have st: "stage ?P ?rest (\<lambda>s. kretprobes_exit ''kretprobes'' 1 (kprobes_exit ''kprobes'' 1 s)) (kprobe_hooks ''kprobes'' 1 + kretprobe_hooks ''kretprobes'' 1)"
    by (rule stage_and_then [OF stage_kprobes stage_kretprobes])
  obtain r s3 where r: "?rest ?s2 = (r, s3)" by fastforce
  have P3: "?P s3" using stage.acquire_keeps [OF st reg(2)] unfolding r by simp
  have l3: "r = 0 \<and> live s3 = live ?s2 + (kprobe_hooks ''kprobes'' 1 + kretprobe_hooks ''kretprobes'' 1) \<or> r < 0 \<and> live s3 = live ?s2"
    using stage.acquire_live [OF st reg(2)] unfolding r by simp
  have init: "need_resched_display_init s = (if r < 0 then (r, tracepoint_probe_context_unregister_probes s3) else (0, s3))"
    using r reg(1) unfolding need_resched_display_init_def find and_then_def
    by (auto simp: Let_def split: prod.splits if_splits)
  have undo: "?P (tracepoint_probe_context_unregister_probes s3) \<and> live (tracepoint_probe_context_unregister_probes s3) = live s" if "r < 0"
    using that l3 reg(3) stage.release_keeps [OF stage_tracepoints [OF res] P3] stage.release_live [OF stage_tracepoints [OF res] P3]
    by simp
  assume "need_resched_display_init s = (ret, s')"
  then show ?thesis
    using init undo P3 l3 reg(3) by (auto simp: calm_def steady_def need_resched_hooks_def ac_simps split: if_splits)
qed

section \<open>sched_display: every thousandth event\<close>

text \<open>The three probes as they are called, by kind.\<close>

datatype sched_kind = Kind_Wakeup | Kind_Switch | Kind_Migrate

datatype sched_event = Wakeup cpu_ctx task | Switch cpu_ctx bool task task | Migrate cpu_ctx task int

fun ev_kind :: "sched_event \<Rightarrow> sched_kind" where
  "ev_kind (Wakeup _ _) = Kind_Wakeup"
| "ev_kind (Switch _ _ _ _) = Kind_Switch"
| "ev_kind (Migrate _ _ _) = Kind_Migrate"

fun ev_cpu :: "sched_event \<Rightarrow> nat" where
  "ev_cpu (Wakeup cx _) = cx_cpu cx"
| "ev_cpu (Switch cx _ _ _) = cx_cpu cx"
| "ev_cpu (Migrate cx _ _) = cx_cpu cx"

fun sd_probe :: "sched_event \<Rightarrow> sched_display \<Rightarrow> line list \<times> sched_display" where
  "sd_probe (Wakeup cx p) s = probe_sched_wakeup cx p s"
| "sd_probe (Switch cx preempt prev next_task) s = probe_sched_switch cx preempt prev next_task s"
| "sd_probe (Migrate cx p cpu) s = probe_sched_migrate_task cx p cpu s"

fun sd_run :: "sched_event list \<Rightarrow> sched_display \<Rightarrow> line list list \<times> sched_display" where
  "sd_run [] s = ([], s)"
| "sd_run (e # es) s = (let (ls, s1) = sd_probe e s; (lss, s2) = sd_run es s1 in (ls # lss, s2))"

fun sd_counter :: "sched_kind \<Rightarrow> sched_display \<Rightarrow> (nat \<Rightarrow> u64) option" where
  "sd_counter Kind_Wakeup s = sd_wakeup_count s"
| "sd_counter Kind_Switch s = sd_switch_count s"
| "sd_counter Kind_Migrate s = sd_migrate_count s"

fun sample_period :: "sched_kind \<Rightarrow> nat" where
  "sample_period Kind_Wakeup = 1000"
| "sample_period Kind_Switch = 1000"
| "sample_period Kind_Migrate = 10"

lemma sd_probe_step:
  assumes "sd_counter (ev_kind e) s = Some f"
  shows "fst (sd_probe e s) \<noteq> [] \<longleftrightarrow> (f (ev_cpu e) + 1) mod of_nat (sample_period (ev_kind e)) = 0"
    and "sd_counter k (snd (sd_probe e s)) =
      (if k = ev_kind e then Some (f(ev_cpu e := f (ev_cpu e) + 1)) else sd_counter k s)"
    and "kn_fault (snd (sd_probe e s)) = kn_fault s"
proof -
  show "fst (sd_probe e s) \<noteq> [] \<longleftrightarrow> (f (ev_cpu e) + 1) mod of_nat (sample_period (ev_kind e)) = 0"
    using assms by (cases e) (simp_all add: probe_sched_wakeup_def probe_sched_switch_def probe_sched_migrate_task_def Let_def)
  show "sd_counter k (snd (sd_probe e s)) = (if k = ev_kind e then Some (f(ev_cpu e := f (ev_cpu e) + 1)) else sd_counter k s)"
    using assms by (cases e; cases k) (simp_all add: probe_sched_wakeup_def probe_sched_switch_def probe_sched_migrate_task_def Let_def)
  show "kn_fault (snd (sd_probe e s)) = kn_fault s"
    using assms by (cases e) (simp_all add: probe_sched_wakeup_def probe_sched_switch_def probe_sched_migrate_task_def Let_def)
qed

text \<open>How many of the first \<open>n\<close> events are of this kind on this CPU.\<close>

definition ev_count :: "sched_kind \<Rightarrow> nat \<Rightarrow> sched_event list \<Rightarrow> nat" where
  "ev_count k cpu es = length (filter (\<lambda>e. ev_kind e = k \<and> ev_cpu e = cpu) es)"

lemma ev_count_Nil [simp]: "ev_count k cpu [] = 0"
  by (simp add: ev_count_def)

lemma ev_count_Cons: "ev_count k cpu (e # es) = of_bool (ev_kind e = k \<and> ev_cpu e = cpu) + ev_count k cpu es"
  by (simp add: ev_count_def)

lemma ev_count_le: "ev_count k cpu es \<le> length es"
  by (simp add: ev_count_def)

lemma sd_run_counts:
  assumes "\<And>k. \<exists>f. sd_counter k s = Some f"
  shows "length (fst (sd_run es s)) = length es \<and> kn_fault (snd (sd_run es s)) = kn_fault s \<and>
    (\<forall>i < length es. fst (sd_run es s) ! i \<noteq> [] \<longleftrightarrow>
      (the (sd_counter (ev_kind (es ! i)) s) (ev_cpu (es ! i)) +
        of_nat (ev_count (ev_kind (es ! i)) (ev_cpu (es ! i)) (take (Suc i) es))) mod of_nat (sample_period (ev_kind (es ! i))) = 0)"
  using assms
proof (induction es arbitrary: s)
  case (Cons e es)
  obtain f where f: "sd_counter (ev_kind e) s = Some f" using Cons.prems by blast
  note step = sd_probe_step [OF f]
  obtain ls s1 where p: "sd_probe e s = (ls, s1)" by fastforce
  have c1: "sd_counter k s1 = (if k = ev_kind e then Some (f(ev_cpu e := f (ev_cpu e) + 1)) else sd_counter k s)" for k
    using step(2) [of k] by (simp add: p)
  have "\<exists>f. sd_counter k s1 = Some f" for k
    using Cons.prems [of k] by (cases "k = ev_kind e") (simp_all add: c1)
  note IH = Cons.IH [OF this]
  obtain lss s2 where r: "sd_run es s1 = (lss, s2)" by fastforce
  have start: "the (sd_counter k s1) cpu = the (sd_counter k s) cpu + of_nat (of_bool (ev_kind e = k \<and> ev_cpu e = cpu))" for k cpu
    by (auto simp: c1 f)
  have "(ls # lss) ! i \<noteq> [] \<longleftrightarrow>
      (the (sd_counter (ev_kind ((e # es) ! i)) s) (ev_cpu ((e # es) ! i)) +
        of_nat (ev_count (ev_kind ((e # es) ! i)) (ev_cpu ((e # es) ! i)) (take (Suc i) (e # es))))
        mod of_nat (sample_period (ev_kind ((e # es) ! i))) = 0" if "i < length (e # es)" for i
  proof (cases i)
    case 0
    then show ?thesis using step(1) by (simp add: p f ev_count_Cons)
  next
    case (Suc j)
    then show ?thesis using that IH by (simp add: r start ev_count_Cons add.assoc)
  qed
  then show ?case using IH step(3) by (simp add: p r)
qed simp

lemma register_entry_counters:
  "sd_wakeup_count (snd (register_entry e s)) = sd_wakeup_count s" "sd_switch_count (snd (register_entry e s)) = sd_switch_count s"
  "sd_migrate_count (snd (register_entry e s)) = sd_migrate_count s"
  by (simp_all add: register_entry_def tracepoint_probe_register_def kn_register_def Let_def split: option.split)

lemma register_fold_counters: "sd_counter k (fold (\<lambda>e s. snd (register_entry e s)) es s) = sd_counter k s"
  by (induction es arbitrary: s) (cases k; simp add: register_entry_counters)+

lemma sched_display_init_counters:
  assumes "sd_alloc s = []"
  shows "sd_counter k (snd (sched_display_init s)) = Some (\<lambda>cpu. 0)"
proof -
  have ctx: "sd_counter k (x\<lparr>sched_probes := ctx\<rparr>) = sd_counter k x" for x ctx
    by (cases k) simp_all
  have "sd_counter k (snd (tracepoint_probe_context_register_probes0 x)) = sd_counter k x" for x
    by (simp add: tracepoint_probe_context_register_probes0_def register_fold_counters)
  moreover have "sd_counter k (snd (tracepoint_probe_context_find_tracepoints x)) = sd_counter k x" for x
    by (simp add: tracepoint_probe_context_find_tracepoints_def ctx split: prod.split)
  ultimately have frame: "sd_counter k (snd (tracepoint_probe_context_register_probes0 x)) = sd_counter k x"
    "sd_counter k (snd (tracepoint_probe_context_find_tracepoints x)) = sd_counter k x" for x by blast+
  let ?x = "s\<lparr>sd_wakeup_count := Some (\<lambda>cpu. 0), sd_switch_count := Some (\<lambda>cpu. 0), sd_percpu := 3 + sd_percpu s,
      sd_migrate_count := Some (\<lambda>cpu. 0)\<rparr>"
  have start: "sd_counter k ?x = Some (\<lambda>cpu. 0)"
    by (cases k) simp_all
  have alloc: "alloc_percpu x = (Some (\<lambda>cpu. 0), x\<lparr>sd_percpu := sd_percpu x + 1\<rparr>)" if "sd_alloc x = []" for x
    using that by (cases x) (simp add: alloc_percpu_def)
  obtain r y where f: "tracepoint_probe_context_find_tracepoints ?x = (r, y)" by fastforce
  obtain r2 z where g: "tracepoint_probe_context_register_probes0 y = (r2, z)" by fastforce
  have "snd (sched_display_init s) = (if r < 0 then y else z)"
    using assms f g by (simp add: sched_display_init_def alloc Let_def)
  then show ?thesis
    using frame(1) [of y] frame(2) [of ?x] start by (simp add: f g)
qed

lemma counter_multiple:
  assumes "n < 2 ^ 64" "0 < p" "p < 2 ^ 64"
  shows "(of_nat n :: u64) mod of_nat p = 0 \<longleftrightarrow> p dvd n"
proof -
  have "(of_nat n :: u64) mod of_nat p = 0 \<longleftrightarrow> unat ((of_nat n :: u64) mod of_nat p) = 0"
    by (simp add: unat_eq_zero)
  also have "\<dots> \<longleftrightarrow> n mod p = 0"
    using assms by (simp add: unat_mod)
  finally show ?thesis by (simp add: mod_eq_0_iff_dvd)
qed

text \<open>Sched_display samples. After its per-CPU counters have been allocated, the probes report exactly every
  thousandth wake-up and every thousandth switch of a CPU and every tenth migration, whatever events of the other kinds and
  of other CPUs come in between, and never dereference a NULL counter (for fewer than 2 ^ 64 events).\<close>

lemma sched_display_samples:
  assumes "sd_alloc s = []" "length es < 2 ^ 64"
  shows "kn_fault (snd (sd_run es (snd (sched_display_init s)))) = kn_fault (snd (sched_display_init s)) \<and>
    length (fst (sd_run es (snd (sched_display_init s)))) = length es \<and>
    (\<forall>i < length es. fst (sd_run es (snd (sched_display_init s))) ! i \<noteq> [] \<longleftrightarrow>
      sample_period (ev_kind (es ! i)) dvd ev_count (ev_kind (es ! i)) (ev_cpu (es ! i)) (take (Suc i) es))"
proof -
  note init = sched_display_init_counters [OF assms(1)]
  note counts = sd_run_counts [of "snd (sched_display_init s)" es, unfolded init, simplified]
  have period: "0 < sample_period k" "sample_period k < 2 ^ 64" for k
    by (cases k; simp)+
  have "ev_count k cpu (take (Suc i) es) < 2 ^ 64" for k cpu i
    using ev_count_le [of k cpu "take (Suc i) es"] assms(2) by simp
  then have "(of_nat (ev_count k cpu (take (Suc i) es)) :: u64) mod of_nat (sample_period k) = 0 \<longleftrightarrow>
      sample_period k dvd ev_count k cpu (take (Suc i) es)" for k cpu i
    using period by (intro counter_multiple)
  then show ?thesis using counts by blast
qed

definition sample_sched_display :: sched_display where
  "sample_sched_display = \<lparr>kn_tracepoints = [], kn_errno = [], kn_live = [], kn_stale = [], kn_fault = False,
     sched_probes = sched_display_probes, sd_wakeup_count = None, sd_switch_count = None, sd_migrate_count = None,
     sd_alloc = [], sd_percpu = 0\<rparr>"

definition sample_task :: task where
  "sample_task = \<lparr>tk_pid = 1, tk_tgid = 1, tk_comm = ''init'', tk_state = 0, tk_flags = 0\<rparr>"

lemma sched_display_samples_witness:
  "let cx = \<lparr>cx_cpu = 0, cx_current = sample_task, cx_preempt_count = 0, cx_need_resched = False\<rparr>;
       es = replicate 10 (Migrate cx sample_task 1)
   in fst (sd_run es (snd (sched_display_init sample_sched_display))) ! 8 = [] \<and>
      fst (sd_run es (snd (sched_display_init sample_sched_display))) ! 9 \<noteq> []"
proof -
  let ?e = "Migrate \<lparr>cx_cpu = 0, cx_current = sample_task, cx_preempt_count = 0, cx_need_resched = False\<rparr> sample_task 1"
  have "sd_alloc sample_sched_display = []" "length (replicate 10 ?e) < 2 ^ 64" by (simp_all add: sample_sched_display_def)
  note samples = sched_display_samples [OF this, THEN conjunct2, THEN conjunct2, rule_format]
  show ?thesis
    using samples [of 8] samples [of 9] by (simp add: Let_def ev_count_def)
qed

text \<open>If a tracepoint is missing, loading fails and the three counters stay allocated.\<close>

lemma sched_display_init_leaks:
  assumes "sched_probes s = sched_display_probes" "''sched_wakeup'' \<notin> tpt_name ` set (kn_tracepoints s)" "sd_alloc s = []"
  shows "fst (sched_display_init s) = -1 \<and> sd_percpu (snd (sched_display_init s)) = sd_percpu s + 3"
proof -
  have used: "tp_entry_init ''sched_wakeup'' ''probe_sched_wakeup'' \<in> set (used_entries sched_display_probes)"
    by (simp add: used_entries_def sched_display_probes_def)
  have "tracepoint_probe_context_find_tracepoints x = (-1, x\<lparr>sched_probes := looked_up (kn_tracepoints x) (sched_probes x)\<rparr>)"
    if "sched_probes x = sched_display_probes" "kn_tracepoints x = kn_tracepoints s" for x :: sched_display
  proof -
    have "\<not> (\<forall>e \<in> set (used_entries (sched_probes x)). te_name e \<in> tpt_name ` set (kn_tracepoints x))"
      unfolding that using used assms(2) by (force simp: tp_entry_init_def)
    moreover have "tc_init_num (sched_probes x) \<le> length (tc_entries (sched_probes x))"
      unfolding that by (simp add: sched_display_probes_def)
    ultimately show ?thesis by (simp add: find_step)
  qed
  then show ?thesis
    using assms(1,3) by (simp add: sched_display_init_def alloc_percpu_def Let_def)
qed

end
