(* ===== verification/Trace_Filter.thy ===== *)
theory Trace_Filter
  imports Probe_Lib Config "HOL-Library.Monad_Syntax"
begin

text \<open>
  The TCP tracer (\<^verbatim>\<open>kernel_module/network/tcp_trace\<close>): the filter on sockets that all its probes share and what
  they print (\<^verbatim>\<open>tcp_trace_filter.c\<close>, \<^verbatim>\<open>tcp_trace.h\<close> and the display functions of \<^verbatim>\<open>tcp_trace_data.c\<close>).

  Of the kernel's structures the records hold the fields the module reads.  A pointer is a 64-bit word, NULL is
  0, and \<open>memory\<close> gives what a non-NULL pointer points to.  A display is the list of its log lines; \<open>None\<close> is a
  read outside the array \<^verbatim>\<open>tcp_state_desc\<close>.
\<close>

section \<open>Kernel structures\<close>

record sock =
  sk_num :: u16
  sk_dport :: u16
  sk_family :: u16
  sk_state :: byte
  sk_rcv_saddr :: u32
  sk_daddr :: u32
  sk_v6_rcv_saddr :: "128 word"
  sk_v6_daddr :: "128 word"

record tcp_sock = sock +
  tp_bytes_acked :: u64
  tp_bytes_received :: u64
  tp_snd_una :: u32
  tp_copied_seq :: u32
  tp_snd_nxt :: u32
  tp_rcv_nxt :: u32
  tp_write_seq :: u32
  tp_rcv_wnd :: u32
  tp_snd_wnd :: u32
  tp_srtt_us :: u32

text \<open>A segment: \<open>sb_th\<close> is the TCP header at \<^verbatim>\<open>skb->data\<close>, \<open>sb_tcp_flags\<close> and \<open>sb_seq\<close> are of \<^verbatim>\<open>skb->cb\<close>.\<close>

record tcphdr =
  th_fin :: bool
  th_syn :: bool
  th_rst :: bool
  th_psh :: bool
  th_ack :: bool
  th_urg :: bool
  th_ece :: bool
  th_cwr :: bool
  th_seq :: u32
  th_ack_seq :: u32
  th_window :: u16
  th_doff :: "4 word"

record sk_buff =
  sb_th :: tcphdr
  sb_len :: u32
  sb_tcp_flags :: byte
  sb_seq :: u32

record memory =
  km_sock :: "u64 \<Rightarrow> tcp_sock"
  km_skb :: "u64 \<Rightarrow> sk_buff"

record pt_regs =
  rg_di :: u64
  rg_si :: u64
  rg_dx :: u64
  rg_cx :: u64
  rg_r8 :: u64
  rg_r9 :: u64
  rg_ax :: u64

definition AF_INET :: u16 where "AF_INET = 2"
definition AF_INET6 :: u16 where "AF_INET6 = 10"

text \<open>\<^verbatim>\<open>ntohs\<close> and \<^verbatim>\<open>ntohl\<close> on a little-endian machine.\<close>

definition ntohs :: "u16 \<Rightarrow> u16" where
  "ntohs x = htons x"

definition ntohl :: "u32 \<Rightarrow> u32" where
  "ntohl x = push_bit 24 (x AND 255) OR push_bit 8 (x AND 65280) OR (drop_bit 8 x AND 65280) OR (drop_bit 24 x AND 255)"

section \<open>\<^verbatim>\<open>tcp_trace.h\<close>\<close>

definition x86_64_get_regs_arg :: "pt_regs \<Rightarrow> int \<Rightarrow> u64" where
  "x86_64_get_regs_arg regs index =
    (let args = [rg_di regs, rg_si regs, rg_dx regs, rg_cx regs, rg_r8 regs, rg_r9 regs]
     in if \<not> (index \<ge> 0 \<and> index < 6) then 0 else args ! nat index)"

record sock_filter_config =
  sf_local_port :: u16
  sf_remote_port :: u16
  sf_enable_ipv4 :: bool
  sf_enable_ipv6 :: bool
  sf_local_addr_ipv4 :: u32
  sf_remote_addr_ipv4 :: u32

section \<open>\<^verbatim>\<open>tcp_trace_filter.c\<close>\<close>

definition sock_config_default :: sock_filter_config where
  "sock_config_default = \<lparr>sf_local_port = 0, sf_remote_port = 0, sf_enable_ipv4 = True, sf_enable_ipv6 = True,
     sf_local_addr_ipv4 = 0, sf_remote_addr_ipv4 = 0\<rparr>"

definition trace_level :: int where "trace_level = 3"

definition sock_filter :: "sock_filter_config \<Rightarrow> memory \<Rightarrow> u64 \<Rightarrow> int \<Rightarrow> bool" where
  "sock_filter cfg m sk func_level =
    (if sk = 0 then False else
     if trace_level < func_level then False else
     let s = km_sock m sk; local_port = sk_num s; remote_port = ntohs (sk_dport s) in
     if \<not> (sf_local_port cfg = 0 \<or> local_port = sf_local_port cfg) then False else
     if \<not> (sf_remote_port cfg = 0 \<or> remote_port = sf_remote_port cfg) then False else
     if sk_family s = AF_INET then
       if \<not> sf_enable_ipv4 cfg then False else
       if \<not> (sf_local_addr_ipv4 cfg = 0 \<or> sk_rcv_saddr s = sf_local_addr_ipv4 cfg) then False else
       if \<not> (sf_remote_addr_ipv4 cfg = 0 \<or> sk_daddr s = sf_remote_addr_ipv4 cfg) then False else True
     else if sk_family s = AF_INET6 then
       if \<not> sf_enable_ipv6 cfg then False else True
     else True)"

definition tcp_state_desc :: "string list" where
  "tcp_state_desc =
    [''NONE'', ''TCP_ESTABLISHED'', ''TCP_SYN_SENT'', ''TCP_SYN_RECV'', ''TCP_FIN_WAIT1'', ''TCP_FIN_WAIT2'', ''TCP_TIME_WAIT'',
     ''TCP_CLOSE'', ''TCP_CLOSE_WAIT'', ''TCP_LAST_ACK'', ''TCP_LISTEN'', ''TCP_CLOSING'', ''TCP_NEW_SYN_RECV'']"

text \<open>\<^verbatim>\<open>tcp_state_desc[i]\<close>\<close>

definition state_desc :: "int \<Rightarrow> string option" where
  "state_desc i = (if 0 \<le> i \<and> i < int (length tcp_state_desc) then Some (tcp_state_desc ! nat i) else None)"

definition sock_common_display :: "memory \<Rightarrow> u64 \<Rightarrow> string \<Rightarrow> line list option" where
  "sock_common_display m sk prefix =
    (if sk = 0 then Some [] else
     let s = km_sock m sk; local_port = sk_num s; remote_port = ntohs (sk_dport s); state = uint (sk_state s) in
     if sk_family s = AF_INET then do {
       desc \<leftarrow> state_desc state;
       Some [(''%-32s  sock: 0x%lx, local: %pI4:%d, remote: %pI4:%d, state: %s'',
         [Str prefix, word_arg sk, word_arg (sk_rcv_saddr s), word_arg local_port, word_arg (sk_daddr s), word_arg remote_port, Str desc])]
     }
     else if sk_family s = AF_INET6 then do {
       desc \<leftarrow> state_desc state;
       Some [(''%-32s  sock: 0x%lx, local: [%pI6]:%d, remote: [%pI6]:%d state: %s'',
         [Str prefix, word_arg sk, word_arg (sk_v6_rcv_saddr s), word_arg local_port, word_arg (sk_v6_daddr s), word_arg remote_port, Str desc])]
     }
     else Some [])"

definition sock_filter_and_display ::
    "sock_filter_config \<Rightarrow> memory \<Rightarrow> u64 \<Rightarrow> int \<Rightarrow> string \<Rightarrow> (bool \<times> line list) option" where
  "sock_filter_and_display cfg m sk func_level prefix =
    (if \<not> sock_filter cfg m sk func_level then Some (False, []) else do {
       ls \<leftarrow> sock_common_display m sk prefix;
       Some (True, ls)
     })"

section \<open>The display functions of \<^verbatim>\<open>tcp_trace_data.c\<close>\<close>

text \<open>The cast \<^verbatim>\<open>(unsigned)tp->bytes_acked\<close> keeps the low 32 bits.\<close>

definition tcp_sock_display :: "memory \<Rightarrow> u64 \<Rightarrow> line list" where
  "tcp_sock_display m sk =
    (let tp = km_sock m sk in
     [(''bytes_acked:     0x%08x,   bytes_received:  0x%08x'', [word_arg (ucast (tp_bytes_acked tp) :: u32), word_arg (ucast (tp_bytes_received tp) :: u32)]),
      (''snd_una:         0x%08x,   copied_seq:      0x%08x'', [word_arg (tp_snd_una tp), word_arg (tp_copied_seq tp)]),
      (''snd_nxt:         0x%08x,   rcv_nxt:         0x%08x'', [word_arg (tp_snd_nxt tp), word_arg (tp_rcv_nxt tp)]),
      (''write_seq:       0x%08x,   recv not copy:   0x%08x'', [word_arg (tp_write_seq tp), word_arg (tp_rcv_nxt tp - tp_copied_seq tp)]),
      (''send not ack:    0x%08x,   rcv_wnd:         0x%08x'', [word_arg (tp_snd_nxt tp - tp_snd_una tp), word_arg (tp_rcv_wnd tp)]),
      (''write not send:  0x%08x'', [word_arg (tp_write_seq tp - tp_snd_nxt tp)]),
      (''snd_wnd:         0x%08x'', [word_arg (tp_snd_wnd tp)]),
      (''srtt_us:           %8d'', [word_arg (drop_bit 3 (tp_srtt_us tp))])])"

definition tcp_recv_skb_display :: "memory \<Rightarrow> u64 \<Rightarrow> line list" where
  "tcp_recv_skb_display m skb =
    (let b = km_skb m skb; th = sb_th b in
     [(''recv flags:  fin: %d, syn: %d, rst: %d, psh: %d, ack: %d, urg: %d, ece: %d, cwr: %d'',
        [flag_arg (th_fin th), flag_arg (th_syn th), flag_arg (th_rst th), flag_arg (th_psh th),
         flag_arg (th_ack th), flag_arg (th_urg th), flag_arg (th_ece th), flag_arg (th_cwr th)]),
      (''recv ack:        0x%08x,   recv seq:        0x%08x'', [word_arg (ntohl (th_ack_seq th)), word_arg (ntohl (th_seq th))]),
      (''recv wnd:        0x%08x,   recv len:        0x%08x'',
        [word_arg (ntohs (th_window th)), word_arg (sb_len b - push_bit 2 (ucast (th_doff th)))])])"

section \<open>Which sockets pass\<close>

text \<open>The specification: every criterion that is set must match.\<close>

definition selected :: "sock_filter_config \<Rightarrow> tcp_sock \<Rightarrow> bool" where
  "selected cfg s \<longleftrightarrow>
    (sf_local_port cfg \<noteq> 0 \<longrightarrow> sk_num s = sf_local_port cfg) \<and>
    (sf_remote_port cfg \<noteq> 0 \<longrightarrow> ntohs (sk_dport s) = sf_remote_port cfg) \<and>
    (sk_family s = AF_INET \<longrightarrow> sf_enable_ipv4 cfg \<and>
      (sf_local_addr_ipv4 cfg \<noteq> 0 \<longrightarrow> sk_rcv_saddr s = sf_local_addr_ipv4 cfg) \<and>
      (sf_remote_addr_ipv4 cfg \<noteq> 0 \<longrightarrow> sk_daddr s = sf_remote_addr_ipv4 cfg)) \<and>
    (sk_family s = AF_INET6 \<longrightarrow> sf_enable_ipv6 cfg)"

lemma sock_filter_iff: "sock_filter cfg m sk func_level \<longleftrightarrow> sk \<noteq> 0 \<and> func_level \<le> 3 \<and> selected cfg (km_sock m sk)"
  by (auto simp: sock_filter_def trace_level_def selected_def Let_def AF_INET_def AF_INET6_def)

lemma sock_filter_NULL [simp]: "\<not> sock_filter cfg m 0 func_level"
  by (simp add: sock_filter_def)

text \<open>The kernel keeps the state of a socket within the states TCP has.\<close>

definition states_ok :: "memory \<Rightarrow> bool" where
  "states_ok m \<longleftrightarrow> (\<forall>sk. uint (sk_state (km_sock m sk)) < 13)"

lemma state_desc_some: "0 \<le> i \<Longrightarrow> i < 13 \<Longrightarrow> \<exists>desc. state_desc i = Some desc"
  by (simp add: state_desc_def tcp_state_desc_def)

lemma sock_common_display_some:
  assumes "states_ok m"
  shows "\<exists>ls. sock_common_display m sk prefix = Some ls"
proof -
  obtain desc where "state_desc (uint (sk_state (km_sock m sk))) = Some desc"
    using state_desc_some [of "uint (sk_state (km_sock m sk))"] assms by (auto simp: states_ok_def)
  then show ?thesis by (simp add: sock_common_display_def Let_def)
qed

end
