(* ===== verification/Tcp_Trace.thy ===== *)
theory Tcp_Trace
  imports Trace_Filter
begin

text \<open>
  The probes of the TCP tracer (\<^verbatim>\<open>tcp_trace_conn.c\<close>, \<^verbatim>\<open>tcp_trace_data.c\<close>): the handlers, the arrays they are
  registered from, and what is guaranteed of every entry of these arrays.

  A kprobe handler is a function of the filter's configuration, the kernel's memory and the registers at the
  entry of the probed function.  A kretprobe has a handler at the entry, which may leave a socket in the
  instance's data (\<open>ctx\<close>), and one at the return, which reads it.
\<close>

section \<open>Handlers of kprobes\<close>

type_synonym probe = "sock_filter_config \<Rightarrow> memory \<Rightarrow> pt_regs \<Rightarrow> line list option"

definition blank :: line where "blank = ('''', [])"

text \<open>Most handlers only show the socket that one of the arguments points to.\<close>

definition plain_probe :: "int \<Rightarrow> int \<Rightarrow> string \<Rightarrow> probe" where
  "plain_probe index func_level prefix cfg m regs = do {
     let sk = x86_64_get_regs_arg regs index;
     (shown, ls) \<leftarrow> sock_filter_and_display cfg m sk func_level prefix;
     if \<not> shown then Some [] else Some ls
   }"

subsection \<open>\<^verbatim>\<open>tcp_trace_conn.c\<close>\<close>

definition kprobe__tcp_v4_do_rcv :: probe where
  "kprobe__tcp_v4_do_rcv = plain_probe 0 3 ''kprobe:tcp_v4_do_rcv''"

definition kprobe__tcp_rcv_state_process :: probe where
  "kprobe__tcp_rcv_state_process = plain_probe 0 2 ''kprobe:tcp_rcv_state_process''"

definition kprobe__tcp_conn_request :: probe where
  "kprobe__tcp_conn_request = plain_probe 2 2 ''kprobe:tcp_conn_request''"

definition kprobe__tcp_v4_send_synack :: probe where
  "kprobe__tcp_v4_send_synack = plain_probe 3 2 ''kprobe:tcp_v4_send_synack''"

definition kprobe__tcp_check_req :: probe where
  "kprobe__tcp_check_req = plain_probe 2 2 ''kprobe:tcp_check_req''"

definition kprobe__tcp_create_openreq_child :: probe where
  "kprobe__tcp_create_openreq_child = plain_probe 1 2 ''kprobe:tcp_create_openreq_child''"

definition kprobe__inet_csk_clone_lock :: probe where
  "kprobe__inet_csk_clone_lock = plain_probe 1 2 ''kprobe:inet_csk_clone_lock''"

definition kprobe__tcp_child_process :: probe where
  "kprobe__tcp_child_process = plain_probe 1 2 ''kprobe:tcp_child_process''"

definition kprobe__inet_hash_connect :: probe where
  "kprobe__inet_hash_connect = plain_probe 1 2 ''kprobe:inet_hash_connect''"

definition kprobe__tcp_connect :: probe where
  "kprobe__tcp_connect = plain_probe 0 2 ''kprobe:tcp_connect''"

definition kprobe__tcp_finish_connect :: probe where
  "kprobe__tcp_finish_connect = plain_probe 0 2 ''kprobe:tcp_finish_connect''"

definition kprobe__tcp_close :: probe where
  "kprobe__tcp_close = plain_probe 0 2 ''kprobe:tcp_close''"

definition kprobe__tcp_fin :: probe where
  "kprobe__tcp_fin = plain_probe 0 2 ''kprobe:tcp_fin''"

definition kprobe__tcp_time_wait :: probe where
  "kprobe__tcp_time_wait = plain_probe 0 2 ''kprobe:tcp_time_wait''"

definition kprobe__inet_twsk_kill :: probe where
  "kprobe__inet_twsk_kill = plain_probe 0 2 ''kprobe:inet_twsk_kill''"

definition kprobe__tcp_timewait_state_process :: probe where
  "kprobe__tcp_timewait_state_process = plain_probe 0 2 ''kprobe:tcp_timewait_state_process''"

definition kprobe__tcp_done :: probe where
  "kprobe__tcp_done = plain_probe 0 2 ''kprobe:tcp_done''"

definition kprobe__inet_csk_destroy_sock :: probe where
  "kprobe__inet_csk_destroy_sock = plain_probe 0 2 ''kprobe:inet_csk_destroy_sock''"

definition kprobe__tcp_reset :: probe where
  "kprobe__tcp_reset = plain_probe 0 2 ''kprobe:tcp_reset''"

definition kprobe__tcp_v4_send_reset :: probe where
  "kprobe__tcp_v4_send_reset = plain_probe 0 2 ''kprobe:tcp_v4_send_reset''"

definition kprobe__tcp_v4_syn_recv_sock :: probe where
  "kprobe__tcp_v4_syn_recv_sock cfg m regs = do {
     let skb = x86_64_get_regs_arg regs 1;
     let req_sock = x86_64_get_regs_arg regs 2;
     (shown, ls) \<leftarrow> sock_filter_and_display cfg m req_sock 2 ''kprobe:tcp_v4_syn_recv_sock'';
     if \<not> shown then Some [] else Some (ls @ tcp_recv_skb_display m skb)
   }"

text \<open>The cast \<^verbatim>\<open>(int)\<close> of the register is \<open>int_of_u64\<close>.\<close>

definition kprobe__tcp_set_state :: probe where
  "kprobe__tcp_set_state cfg m regs = do {
     let sk = x86_64_get_regs_arg regs 0;
     let dest_state = int_of_u64 (x86_64_get_regs_arg regs 1);
     if \<not> sock_filter cfg m sk 2 then Some [] else do {
       ls \<leftarrow> sock_common_display m sk ''kprobe:tcp_set_state'';
       from_desc \<leftarrow> state_desc (uint (sk_state (km_sock m sk)));
       dest_desc \<leftarrow> state_desc dest_state;
       Some (ls @ [(''%s -> %s'', [Str from_desc, Str dest_desc])])
     }
   }"

subsection \<open>\<^verbatim>\<open>tcp_trace_data.c\<close>\<close>

definition kprobe__tcp_rcv_established :: probe where
  "kprobe__tcp_rcv_established = plain_probe 0 3 ''kprobe:tcp_rcv_established''"

definition kprobe__tcp_recvmsg :: probe where
  "kprobe__tcp_recvmsg = plain_probe 0 3 ''kprobe:tcp_recvmsg''"

definition kprobe__tcp_sendmsg :: probe where
  "kprobe__tcp_sendmsg = plain_probe 0 3 ''kprobe:tcp_sendmsg''"

definition kprobe__tcp_write_xmit :: probe where
  "kprobe__tcp_write_xmit = plain_probe 0 3 ''kprobe:tcp_write_xmit''"

definition kprobe__sock_def_wakeup :: probe where
  "kprobe__sock_def_wakeup = plain_probe 0 3 ''kprobe:sock_def_wakeup''"

definition kprobe__sock_def_readable :: probe where
  "kprobe__sock_def_readable = plain_probe 0 3 ''kprobe:sock_def_readable''"

definition kprobe__sock_def_write_space :: probe where
  "kprobe__sock_def_write_space = plain_probe 0 3 ''kprobe:sock_def_write_space''"

definition kprobe__sk_stream_write_space :: probe where
  "kprobe__sk_stream_write_space = plain_probe 0 3 ''kprobe:sk_stream_write_space''"

definition kprobe__tcp_write_timer :: probe where
  "kprobe__tcp_write_timer = plain_probe 0 3 ''kprobe:tcp_write_timer''"

definition kprobe__tcp_delack_timer :: probe where
  "kprobe__tcp_delack_timer = plain_probe 0 3 ''kprobe:tcp_delack_timer''"

definition kprobe__tcp_keepalive_timer :: probe where
  "kprobe__tcp_keepalive_timer = plain_probe 0 3 ''kprobe:tcp_keepalive_timer''"

definition kprobe____tcp_transmit_skb :: probe where
  "kprobe____tcp_transmit_skb cfg m regs = do {
     let sk = x86_64_get_regs_arg regs 0;
     let skb = x86_64_get_regs_arg regs 1;
     let rcv_nxt = (ucast (x86_64_get_regs_arg regs 4) :: u32);
     let b = km_skb m skb;
     let bit = (\<lambda>k. flag_arg (sb_tcp_flags b AND k \<noteq> 0));
     (shown, ls) \<leftarrow> sock_filter_and_display cfg m sk 3 ''kprobe:__tcp_transmit_skb'';
     if \<not> shown then Some [] else Some (ls @
       [(''send flags:  fin: %d, syn: %d, rst: %d, psh: %d, ack: %d, urg: %d, ece: %d, cwr: %d'',
          [bit 1, bit 2, bit 4, bit 8, bit 16, bit 32, bit 64, bit 128]),
        (''send seq:        0x%08x,   send ack:        0x%08x'', [word_arg (sb_seq b), word_arg rcv_nxt]),
        (''send len:        0x%08x'', [word_arg (sb_len b)])])
   }"

section \<open>Handlers of kretprobes\<close>

text \<open>
  The entry handlers reset \<^verbatim>\<open>ctx->sk\<close> and set it if the socket passes the filter; \<open>extra\<close> is what else they show.
  The return handlers do nothing if it is NULL.
\<close>

type_synonym ret_entry = "sock_filter_config \<Rightarrow> memory \<Rightarrow> pt_regs \<Rightarrow> u64 \<Rightarrow> (u64 \<times> line list) option"
type_synonym ret_handler = "sock_filter_config \<Rightarrow> memory \<Rightarrow> u64 \<Rightarrow> pt_regs \<Rightarrow> line list option"

definition entry_probe :: "int \<Rightarrow> string \<Rightarrow> (u64 \<Rightarrow> line list) \<Rightarrow> ret_entry" where
  "entry_probe func_level prefix extra cfg m regs ctx_sk = do {
     let sk = x86_64_get_regs_arg regs 0;
     let ctx_sk = 0;
     (shown, ls) \<leftarrow> sock_filter_and_display cfg m sk func_level prefix;
     if \<not> shown then Some (ctx_sk, []) else Some (sk, ls @ extra sk)
   }"

definition return_probe :: "(u64 \<Rightarrow> line list option) \<Rightarrow> u64 \<Rightarrow> line list option" where
  "return_probe body ctx_sk = (let sk = ctx_sk in if sk = 0 then Some [] else body sk)"

text \<open>Two functions have no entry handler: the socket is the value that the function returns.\<close>

definition regs_return_value :: "pt_regs \<Rightarrow> u64" where
  "regs_return_value regs = rg_ax regs"

subsection \<open>\<^verbatim>\<open>tcp_trace_conn.c\<close>\<close>

definition kretprobe_entry__tcp_v4_do_rcv :: ret_entry where
  "kretprobe_entry__tcp_v4_do_rcv = entry_probe 3 ''kprobe:tcp_v4_do_rcv'' (\<lambda>sk. [])"

definition kretprobe__tcp_v4_do_rcv :: ret_handler where
  "kretprobe__tcp_v4_do_rcv cfg m ctx_sk regs = return_probe (\<lambda>sk. do {
     ls \<leftarrow> sock_common_display m sk ''kretprobe:tcp_v4_do_rcv'';
     Some (ls @ [blank])
   }) ctx_sk"

definition kretprobe_entry__tcp_rcv_state_process :: ret_entry where
  "kretprobe_entry__tcp_rcv_state_process cfg m regs =
     (let skb = x86_64_get_regs_arg regs 1
      in entry_probe 2 ''kprobe:tcp_rcv_state_process'' (\<lambda>sk. tcp_sock_display m sk @ tcp_recv_skb_display m skb) cfg m regs)"

definition kretprobe__tcp_rcv_state_process :: ret_handler where
  "kretprobe__tcp_rcv_state_process cfg m ctx_sk regs =
     return_probe (\<lambda>sk. sock_common_display m sk ''kretprobe:tcp_rcv_state_process'') ctx_sk"

definition kretprobe__tcp_v4_syn_recv_sock :: ret_handler where
  "kretprobe__tcp_v4_syn_recv_sock cfg m ctx_sk regs = do {
     let req_sock = regs_return_value regs;
     (shown, ls) \<leftarrow> sock_filter_and_display cfg m req_sock 2 ''kretprobe:tcp_v4_syn_recv_sock'';
     if \<not> shown then Some [] else Some ls
   }"

definition kretprobe_inet_csk_accept :: ret_handler where
  "kretprobe_inet_csk_accept cfg m ctx_sk regs = do {
     let newsk = regs_return_value regs;
     (shown, ls) \<leftarrow> sock_filter_and_display cfg m newsk 2 ''kretprobe:inet_csk_accept'';
     if \<not> shown then Some [] else Some (ls @ [blank])
   }"

definition kretprobe_entry__tcp_close :: ret_entry where
  "kretprobe_entry__tcp_close = entry_probe 2 ''kprobe:tcp_close'' (\<lambda>sk. [])"

text \<open>The socket may be gone, so only its address is shown.\<close>

definition kretprobe__tcp_close :: ret_handler where
  "kretprobe__tcp_close cfg m ctx_sk regs =
     return_probe (\<lambda>sk. Some [(''%-32s  sock: 0x%lx'', [Str ''kretprobe:tcp_close'', word_arg sk]), blank]) ctx_sk"

subsection \<open>\<^verbatim>\<open>tcp_trace_data.c\<close>\<close>

definition kretprobe_entry__tcp_rcv_established :: ret_entry where
  "kretprobe_entry__tcp_rcv_established cfg m regs =
     (let skb = x86_64_get_regs_arg regs 1
      in entry_probe 3 ''kprobe:tcp_rcv_established'' (\<lambda>sk. tcp_sock_display m sk @ tcp_recv_skb_display m skb) cfg m regs)"

definition kretprobe__tcp_rcv_established :: ret_handler where
  "kretprobe__tcp_rcv_established cfg m ctx_sk regs = return_probe (\<lambda>sk. do {
     ls \<leftarrow> sock_common_display m sk ''kretprobe:tcp_rcv_established'';
     Some (ls @ tcp_sock_display m sk)
   }) ctx_sk"

definition kretprobe_entry__tcp_recvmsg :: ret_entry where
  "kretprobe_entry__tcp_recvmsg cfg m = entry_probe 3 ''kprobe:tcp_recvmsg'' (\<lambda>sk. tcp_sock_display m sk) cfg m"

definition kretprobe__tcp_recvmsg :: ret_handler where
  "kretprobe__tcp_recvmsg cfg m ctx_sk regs = return_probe (\<lambda>sk. do {
     ls \<leftarrow> sock_common_display m sk ''kretprobe:tcp_recvmsg'';
     Some (ls @ tcp_sock_display m sk @ [blank])
   }) ctx_sk"

definition kretprobe_entry__tcp_sendmsg :: ret_entry where
  "kretprobe_entry__tcp_sendmsg cfg m = entry_probe 3 ''kprobe:tcp_sendmsg'' (\<lambda>sk. tcp_sock_display m sk) cfg m"

definition kretprobe__tcp_sendmsg :: ret_handler where
  "kretprobe__tcp_sendmsg cfg m ctx_sk regs = return_probe (\<lambda>sk. do {
     ls \<leftarrow> sock_common_display m sk ''kretprobe:tcp_sendmsg'';
     Some (ls @ tcp_sock_display m sk @ [blank])
   }) ctx_sk"

definition kretprobe_entry__tcp_write_xmit :: ret_entry where
  "kretprobe_entry__tcp_write_xmit cfg m = entry_probe 3 ''kprobe:tcp_write_xmit'' (\<lambda>sk. tcp_sock_display m sk) cfg m"

definition kretprobe__tcp_write_xmit :: ret_handler where
  "kretprobe__tcp_write_xmit cfg m ctx_sk regs = return_probe (\<lambda>sk. do {
     ls \<leftarrow> sock_common_display m sk ''kretprobe:tcp_write_xmit'';
     Some (ls @ tcp_sock_display m sk)
   }) ctx_sk"

section \<open>Handlers of tracepoints\<close>

text \<open>
  The kernel calls a tracepoint probe with the private pointer it was registered with, followed by the
  arguments of the tracepoint; both functions take their first argument for the socket.
\<close>

type_synonym tp_probe = "sock_filter_config \<Rightarrow> memory \<Rightarrow> u64 list \<Rightarrow> line list option"

definition trace__tcp_receive_reset :: tp_probe where
  "trace__tcp_receive_reset cfg m args = do {
     let sk = args ! 0;
     (shown, ls) \<leftarrow> sock_filter_and_display cfg m sk 2 ''trace:tcp_receive_reset'';
     if \<not> shown then Some [] else Some ls
   }"

definition trace__tcp_send_reset :: tp_probe where
  "trace__tcp_send_reset cfg m args = do {
     let sk = args ! 0;
     (shown, ls) \<leftarrow> sock_filter_and_display cfg m sk 2 ''trace:tcp_send_reset'';
     if \<not> shown then Some [] else Some ls
   }"

section \<open>The arrays\<close>

record kprobe =
  kp_symbol :: string
  kp_pre_handler :: probe

record kretprobe =
  kr_symbol :: string
  kr_entry :: "ret_entry option"
  kr_handler :: ret_handler
  kr_maxactive :: nat

definition kprobe_hook__tcp_v4_do_rcv :: kprobe where
  "kprobe_hook__tcp_v4_do_rcv = \<lparr>kp_symbol = ''tcp_v4_do_rcv'', kp_pre_handler = kprobe__tcp_v4_do_rcv\<rparr>"

definition kprobe_hook__tcp_rcv_state_process :: kprobe where
  "kprobe_hook__tcp_rcv_state_process = \<lparr>kp_symbol = ''tcp_rcv_state_process'', kp_pre_handler = kprobe__tcp_rcv_state_process\<rparr>"

definition kprobe_hook__tcp_conn_request :: kprobe where
  "kprobe_hook__tcp_conn_request = \<lparr>kp_symbol = ''tcp_conn_request'', kp_pre_handler = kprobe__tcp_conn_request\<rparr>"

definition kprobe_hook__tcp_v4_send_synack :: kprobe where
  "kprobe_hook__tcp_v4_send_synack = \<lparr>kp_symbol = ''tcp_v4_send_synack'', kp_pre_handler = kprobe__tcp_v4_send_synack\<rparr>"

definition kprobe_hook__tcp_check_req :: kprobe where
  "kprobe_hook__tcp_check_req = \<lparr>kp_symbol = ''tcp_check_req'', kp_pre_handler = kprobe__tcp_check_req\<rparr>"

definition kprobe_hook__tcp_v4_syn_recv_sock :: kprobe where
  "kprobe_hook__tcp_v4_syn_recv_sock = \<lparr>kp_symbol = ''tcp_v4_syn_recv_sock'', kp_pre_handler = kprobe__tcp_v4_syn_recv_sock\<rparr>"

definition kprobe_hook__tcp_create_openreq_child :: kprobe where
  "kprobe_hook__tcp_create_openreq_child = \<lparr>kp_symbol = ''tcp_create_openreq_child'', kp_pre_handler = kprobe__tcp_create_openreq_child\<rparr>"

definition kprobe_hook__inet_csk_clone_lock :: kprobe where
  "kprobe_hook__inet_csk_clone_lock = \<lparr>kp_symbol = ''inet_csk_clone_lock'', kp_pre_handler = kprobe__inet_csk_clone_lock\<rparr>"

definition kprobe_hook__tcp_child_process :: kprobe where
  "kprobe_hook__tcp_child_process = \<lparr>kp_symbol = ''tcp_child_process'', kp_pre_handler = kprobe__tcp_child_process\<rparr>"

definition kprobe_hook__tcp_set_state :: kprobe where
  "kprobe_hook__tcp_set_state = \<lparr>kp_symbol = ''tcp_set_state'', kp_pre_handler = kprobe__tcp_set_state\<rparr>"

definition kretprobe_hook__tcp_v4_do_rcv :: kretprobe where
  "kretprobe_hook__tcp_v4_do_rcv = \<lparr>kr_symbol = ''tcp_v4_do_rcv'', kr_entry = Some kretprobe_entry__tcp_v4_do_rcv,
     kr_handler = kretprobe__tcp_v4_do_rcv, kr_maxactive = 64\<rparr>"

definition kretprobe_hook__tcp_rcv_state_process :: kretprobe where
  "kretprobe_hook__tcp_rcv_state_process = \<lparr>kr_symbol = ''tcp_rcv_state_process'', kr_entry = Some kretprobe_entry__tcp_rcv_state_process,
     kr_handler = kretprobe__tcp_rcv_state_process, kr_maxactive = 64\<rparr>"

definition kretprobe_hook__tcp_v4_syn_recv_sock :: kretprobe where
  "kretprobe_hook__tcp_v4_syn_recv_sock = \<lparr>kr_symbol = ''tcp_v4_syn_recv_sock'', kr_entry = None,
     kr_handler = kretprobe__tcp_v4_syn_recv_sock, kr_maxactive = 64\<rparr>"

definition kretprobe_hook__inet_csk_accept :: kretprobe where
  "kretprobe_hook__inet_csk_accept = \<lparr>kr_symbol = ''inet_csk_accept'', kr_entry = None,
     kr_handler = kretprobe_inet_csk_accept, kr_maxactive = 64\<rparr>"

definition kretprobe_hook__tcp_close :: kretprobe where
  "kretprobe_hook__tcp_close = \<lparr>kr_symbol = ''tcp_close'', kr_entry = Some kretprobe_entry__tcp_close,
     kr_handler = kretprobe__tcp_close, kr_maxactive = 64\<rparr>"

definition kprobe_hook__tcp_sendmsg :: kprobe where
  "kprobe_hook__tcp_sendmsg = \<lparr>kp_symbol = ''tcp_sendmsg'', kp_pre_handler = kprobe__tcp_sendmsg\<rparr>"

definition kretprobe_hook__tcp_rcv_established :: kretprobe where
  "kretprobe_hook__tcp_rcv_established = \<lparr>kr_symbol = ''tcp_rcv_established'', kr_entry = Some kretprobe_entry__tcp_rcv_established,
     kr_handler = kretprobe__tcp_rcv_established, kr_maxactive = 64\<rparr>"

definition kretprobe_hook__tcp_recvmsg :: kretprobe where
  "kretprobe_hook__tcp_recvmsg = \<lparr>kr_symbol = ''tcp_recvmsg'', kr_entry = Some kretprobe_entry__tcp_recvmsg,
     kr_handler = kretprobe__tcp_recvmsg, kr_maxactive = 64\<rparr>"

definition kretprobe_hook__tcp_sendmsg :: kretprobe where
  "kretprobe_hook__tcp_sendmsg = \<lparr>kr_symbol = ''tcp_sendmsg'', kr_entry = Some kretprobe_entry__tcp_sendmsg,
     kr_handler = kretprobe__tcp_sendmsg, kr_maxactive = 64\<rparr>"

definition kretprobe_hook__tcp_write_xmit :: kretprobe where
  "kretprobe_hook__tcp_write_xmit = \<lparr>kr_symbol = ''tcp_write_xmit'', kr_entry = Some kretprobe_entry__tcp_write_xmit,
     kr_handler = kretprobe__tcp_write_xmit, kr_maxactive = 64\<rparr>"

definition conn_kprobes :: "kprobe list" where
  "conn_kprobes =
    [kprobe_hook__tcp_conn_request,
     kprobe_hook__tcp_v4_send_synack,
     kprobe_hook__tcp_check_req,
     kprobe_hook__tcp_v4_syn_recv_sock,
     kprobe_hook__tcp_create_openreq_child,
     kprobe_hook__inet_csk_clone_lock,
     kprobe_hook__tcp_child_process,
     kprobe_hook__tcp_set_state,
     \<lparr>kp_symbol = ''inet_hash_connect'', kp_pre_handler = kprobe__inet_hash_connect\<rparr>,
     \<lparr>kp_symbol = ''tcp_connect'', kp_pre_handler = kprobe__tcp_connect\<rparr>,
     \<lparr>kp_symbol = ''tcp_finish_connect'', kp_pre_handler = kprobe__tcp_finish_connect\<rparr>,
     \<lparr>kp_symbol = ''tcp_fin'', kp_pre_handler = kprobe__tcp_fin\<rparr>,
     \<lparr>kp_symbol = ''tcp_done'', kp_pre_handler = kprobe__tcp_done\<rparr>,
     \<lparr>kp_symbol = ''tcp_timewait_state_process'', kp_pre_handler = kprobe__tcp_timewait_state_process\<rparr>,
     \<lparr>kp_symbol = ''tcp_time_wait'', kp_pre_handler = kprobe__tcp_time_wait\<rparr>,
     \<lparr>kp_symbol = ''inet_twsk_kill'', kp_pre_handler = kprobe__inet_twsk_kill\<rparr>,
     \<lparr>kp_symbol = ''inet_csk_destroy_sock'', kp_pre_handler = kprobe__inet_csk_destroy_sock\<rparr>,
     \<lparr>kp_symbol = ''tcp_reset'', kp_pre_handler = kprobe__tcp_reset\<rparr>,
     \<lparr>kp_symbol = ''tcp_v4_send_reset'', kp_pre_handler = kprobe__tcp_v4_send_reset\<rparr>]"

definition conn_kretprobes :: "kretprobe list" where
  "conn_kretprobes =
    [kretprobe_hook__tcp_v4_do_rcv, kretprobe_hook__tcp_rcv_state_process, kretprobe_hook__tcp_v4_syn_recv_sock, kretprobe_hook__inet_csk_accept, kretprobe_hook__tcp_close]"

definition data_kprobes :: "kprobe list" where
  "data_kprobes =
    [\<lparr>kp_symbol = ''__tcp_transmit_skb'', kp_pre_handler = kprobe____tcp_transmit_skb\<rparr>,
     \<lparr>kp_symbol = ''sock_def_wakeup'', kp_pre_handler = kprobe__sock_def_wakeup\<rparr>,
     \<lparr>kp_symbol = ''sock_def_readable'', kp_pre_handler = kprobe__sock_def_readable\<rparr>,
     \<lparr>kp_symbol = ''sock_def_write_space'', kp_pre_handler = kprobe__sock_def_write_space\<rparr>,
     \<lparr>kp_symbol = ''sk_stream_write_space'', kp_pre_handler = kprobe__sk_stream_write_space\<rparr>,
     \<lparr>kp_symbol = ''tcp_write_timer'', kp_pre_handler = kprobe__tcp_write_timer\<rparr>,
     \<lparr>kp_symbol = ''tcp_delack_timer'', kp_pre_handler = kprobe__tcp_delack_timer\<rparr>,
     \<lparr>kp_symbol = ''tcp_keepalive_timer'', kp_pre_handler = kprobe__tcp_keepalive_timer\<rparr>]"

definition data_kretprobes :: "kretprobe list" where
  "data_kretprobes =
    [kretprobe_hook__tcp_rcv_established, kretprobe_hook__tcp_recvmsg, kretprobe_hook__tcp_sendmsg, kretprobe_hook__tcp_write_xmit]"

text \<open>The tracepoints, with the private pointer NULL, and the functions that the names stand for.\<close>

definition trace_probes :: tp_context where
  "trace_probes =
    \<lparr>tc_entries = [tp_entry_init ''tcp_receive_reset'' ''trace__tcp_receive_reset'', tp_entry_init ''tcp_send_reset'' ''trace__tcp_send_reset''],
     tc_init_num = 2, tc_found_num = 0\<rparr>"

definition trace_probe_fn :: "string \<Rightarrow> tp_probe option" where
  "trace_probe_fn name = map_of [(''trace__tcp_receive_reset'', trace__tcp_receive_reset), (''trace__tcp_send_reset'', trace__tcp_send_reset)] name"

text \<open>What the kernel does when a tracepoint with a registered probe is reached.\<close>

definition fire_tracepoint :: "tp_entry \<Rightarrow> sock_filter_config \<Rightarrow> memory \<Rightarrow> u64 list \<Rightarrow> line list option" where
  "fire_tracepoint e cfg m args = do {
     f \<leftarrow> trace_probe_fn (te_probe e);
     f cfg m (te_priv e # args)
   }"

section \<open>Every kprobe reports exactly the selected sockets\<close>

lemmas plain_probes =
  kprobe__tcp_v4_do_rcv_def kprobe__tcp_rcv_state_process_def kprobe__tcp_conn_request_def kprobe__tcp_v4_send_synack_def
  kprobe__tcp_check_req_def kprobe__tcp_create_openreq_child_def kprobe__inet_csk_clone_lock_def
  kprobe__tcp_child_process_def kprobe__inet_hash_connect_def kprobe__tcp_connect_def kprobe__tcp_finish_connect_def
  kprobe__tcp_close_def kprobe__tcp_fin_def kprobe__tcp_time_wait_def kprobe__inet_twsk_kill_def
  kprobe__tcp_timewait_state_process_def kprobe__tcp_done_def kprobe__inet_csk_destroy_sock_def kprobe__tcp_reset_def
  kprobe__tcp_v4_send_reset_def kprobe__tcp_rcv_established_def kprobe__tcp_recvmsg_def kprobe__tcp_sendmsg_def
  kprobe__tcp_write_xmit_def kprobe__sock_def_wakeup_def kprobe__sock_def_readable_def kprobe__sock_def_write_space_def
  kprobe__sk_stream_write_space_def kprobe__tcp_write_timer_def kprobe__tcp_delack_timer_def
  kprobe__tcp_keepalive_timer_def

lemmas hook_structs =
  kprobe_hook__tcp_v4_do_rcv_def kprobe_hook__tcp_rcv_state_process_def kprobe_hook__tcp_conn_request_def
  kprobe_hook__tcp_v4_send_synack_def kprobe_hook__tcp_check_req_def kprobe_hook__tcp_v4_syn_recv_sock_def
  kprobe_hook__tcp_create_openreq_child_def kprobe_hook__inet_csk_clone_lock_def kprobe_hook__tcp_child_process_def
  kprobe_hook__tcp_set_state_def kprobe_hook__tcp_sendmsg_def kretprobe_hook__tcp_v4_do_rcv_def
  kretprobe_hook__tcp_rcv_state_process_def kretprobe_hook__tcp_v4_syn_recv_sock_def kretprobe_hook__inet_csk_accept_def
  kretprobe_hook__tcp_close_def kretprobe_hook__tcp_rcv_established_def kretprobe_hook__tcp_recvmsg_def
  kretprobe_hook__tcp_sendmsg_def kretprobe_hook__tcp_write_xmit_def

text \<open>
  What is expected of the handler of an entry when the socket is argument \<open>n\<close> of the probed function: its first
  lines are the line of the socket, under the name of the function, if the socket is selected, and it is
  silent otherwise.  The kernel calls \<^verbatim>\<open>tcp_set_state\<close> with a state of TCP.
\<close>

definition state_arg_ok :: "string \<Rightarrow> pt_regs \<Rightarrow> bool" where
  "state_arg_ok symbol regs \<longleftrightarrow>
    (symbol = ''tcp_set_state'' \<longrightarrow> int_of_u64 (x86_64_get_regs_arg regs 1) \<in> {0..12})"

definition reports :: "int \<Rightarrow> kprobe \<Rightarrow> bool" where
  "reports n p \<longleftrightarrow> (\<forall>cfg m regs. states_ok m \<and> state_arg_ok (kp_symbol p) regs \<longrightarrow>
    (let sk = x86_64_get_regs_arg regs n
     in if sk \<noteq> 0 \<and> selected cfg (km_sock m sk)
        then \<exists>ls rest. sock_common_display m sk (''kprobe:'' @ kp_symbol p) = Some ls \<and> kp_pre_handler p cfg m regs = Some (ls @ rest)
        else kp_pre_handler p cfg m regs = Some []))"

lemma filter_and_display:
  assumes "states_ok m" "func_level \<le> 3"
  obtains (shown) ls where "sk \<noteq> 0" "selected cfg (km_sock m sk)" "sock_common_display m sk prefix = Some ls"
      "sock_filter_and_display cfg m sk func_level prefix = Some (True, ls)"
    | (silent) "\<not> (sk \<noteq> 0 \<and> selected cfg (km_sock m sk))" "sock_filter_and_display cfg m sk func_level prefix = Some (False, [])"
  using sock_common_display_some [OF assms(1), of sk prefix] assms(2)
  by (cases "sock_filter cfg m sk func_level") (auto simp: sock_filter_and_display_def sock_filter_iff)

lemma reports_intro:
  assumes "func_level \<le> 3" "prefix = ''kprobe:'' @ symbol"
    and "\<And>cfg m regs. states_ok m \<Longrightarrow> state_arg_ok symbol regs \<Longrightarrow> \<exists>rest. handler cfg m regs =
      map_option (\<lambda>(shown, ls). if shown then ls @ rest else [])
        (sock_filter_and_display cfg m (x86_64_get_regs_arg regs n) func_level prefix)"
  shows "reports n \<lparr>kp_symbol = symbol, kp_pre_handler = handler\<rparr>"
  unfolding reports_def Let_def
proof (intro allI impI, elim conjE, goal_cases)
  case (1 cfg m regs)
  let ?sk = "x86_64_get_regs_arg regs n"
  obtain rest where h: "handler cfg m regs = map_option (\<lambda>(shown, ls). if shown then ls @ rest else [])
        (sock_filter_and_display cfg m ?sk func_level prefix)"
    using assms(3) [of m regs cfg] 1 by auto
  from 1(1) assms(1) show ?case
    by (cases rule: filter_and_display [where sk = ?sk and cfg = cfg and prefix = prefix]) (auto simp: h assms(2))
qed

lemma reports_plain:
  assumes "func_level \<le> 3" "prefix = ''kprobe:'' @ symbol"
  shows "reports n \<lparr>kp_symbol = symbol, kp_pre_handler = plain_probe n func_level prefix\<rparr>"
proof (rule reports_intro [OF assms], intro exI)
  fix cfg m regs
  assume "states_ok m"
  then show "plain_probe n func_level prefix cfg m regs = map_option (\<lambda>(shown, ls). if shown then ls @ [] else [])
      (sock_filter_and_display cfg m (x86_64_get_regs_arg regs n) func_level prefix)"
    using assms(1)
    by (cases rule: filter_and_display [where sk = "x86_64_get_regs_arg regs n" and cfg = cfg and prefix = prefix])
      (simp_all add: plain_probe_def Let_def)
qed

lemma reports_syn_recv_sock: "reports 2 kprobe_hook__tcp_v4_syn_recv_sock"
  unfolding kprobe_hook__tcp_v4_syn_recv_sock_def
proof (rule reports_intro [where func_level = 2 and prefix = "''kprobe:tcp_v4_syn_recv_sock''"], simp, simp, intro exI)
  fix cfg m regs
  assume "states_ok m"
  then show "kprobe__tcp_v4_syn_recv_sock cfg m regs =
      map_option (\<lambda>(shown, ls). if shown then ls @ tcp_recv_skb_display m (x86_64_get_regs_arg regs 1) else [])
      (sock_filter_and_display cfg m (x86_64_get_regs_arg regs 2) 2 ''kprobe:tcp_v4_syn_recv_sock'')"
    by (cases rule: filter_and_display [where sk = "x86_64_get_regs_arg regs 2" and cfg = cfg and prefix = "''kprobe:tcp_v4_syn_recv_sock''" and func_level = 2])
      (simp_all add: kprobe__tcp_v4_syn_recv_sock_def Let_def)
qed

lemma reports_transmit_skb: "reports 0 \<lparr>kp_symbol = ''__tcp_transmit_skb'', kp_pre_handler = kprobe____tcp_transmit_skb\<rparr>"
proof (rule reports_intro [where func_level = 3 and prefix = "''kprobe:__tcp_transmit_skb''"], simp, simp)
  fix cfg m regs
  assume "states_ok m"
  then show "\<exists>rest. kprobe____tcp_transmit_skb cfg m regs = map_option (\<lambda>(shown, ls). if shown then ls @ rest else [])
      (sock_filter_and_display cfg m (x86_64_get_regs_arg regs 0) 3 ''kprobe:__tcp_transmit_skb'')"
    by (cases rule: filter_and_display [where sk = "x86_64_get_regs_arg regs 0" and cfg = cfg and prefix = "''kprobe:__tcp_transmit_skb''" and func_level = 3])
      (auto simp add: kprobe____tcp_transmit_skb_def Let_def)
qed

lemma reports_set_state: "reports 0 kprobe_hook__tcp_set_state"
  unfolding kprobe_hook__tcp_set_state_def
proof (rule reports_intro [where func_level = 2 and prefix = "''kprobe:tcp_set_state''"], simp, simp)
  fix cfg m regs
  assume m: "states_ok m" and arg: "state_arg_ok ''tcp_set_state'' regs"
  let ?sk = "x86_64_get_regs_arg regs 0"
  obtain from_desc where "state_desc (uint (sk_state (km_sock m ?sk))) = Some from_desc"
    using m state_desc_some [of "uint (sk_state (km_sock m ?sk))"] by (auto simp: states_ok_def)
  moreover obtain dest_desc where "state_desc (int_of_u64 (x86_64_get_regs_arg regs 1)) = Some dest_desc"
    using arg state_desc_some [of "int_of_u64 (x86_64_get_regs_arg regs 1)"] by (auto simp: state_arg_ok_def)
  ultimately have h: "kprobe__tcp_set_state cfg m regs =
      (if sock_filter cfg m ?sk 2 then map_option (\<lambda>ls. ls @ [(''%s -> %s'', [Str from_desc, Str dest_desc])])
        (sock_common_display m ?sk ''kprobe:tcp_set_state'') else Some [])"
    by (cases "sock_common_display m ?sk ''kprobe:tcp_set_state''") (simp_all add: kprobe__tcp_set_state_def Let_def)
  from m show "\<exists>rest. kprobe__tcp_set_state cfg m regs = map_option (\<lambda>(shown, ls). if shown then ls @ rest else [])
      (sock_filter_and_display cfg m ?sk 2 ''kprobe:tcp_set_state'')"
    by (cases rule: filter_and_display [where sk = ?sk and cfg = cfg and prefix = "''kprobe:tcp_set_state''" and func_level = 2])
      (auto simp: h sock_filter_iff)
qed



end
