(* ===== verification/Trace_Module.thy ===== *)
theory Trace_Module
  imports Tcp_Trace
begin

text \<open>
  The TCP tracer as a module: the return probes over any interleaving of calls, the tracepoint probes as the
  kernel calls them, the parameters, and loading and unloading (\<^verbatim>\<open>tcp_trace_main.c\<close> and the init and exit
  functions of \<^verbatim>\<open>tcp_trace_conn.c\<close> and \<^verbatim>\<open>tcp_trace_data.c\<close>).
\<close>

section \<open>Return probes\<close>

text \<open>
  Up to \<^verbatim>\<open>maxactive\<close> calls of a probed function are in progress, each with an instance; the instance's data is
  not initialised and keeps what its last use left there.  A call that finds no free instance is missed: none
  of the handlers runs.
\<close>

datatype ret_event = Enter nat memory pt_regs | Leave nat memory pt_regs

type_synonym instances = "nat \<Rightarrow> u64"

fun ret_step :: "kretprobe \<Rightarrow> sock_filter_config \<Rightarrow> ret_event \<Rightarrow> instances \<Rightarrow> (instances \<times> line list) option" where
  "ret_step k cfg (Enter i m regs) data =
    (case kr_entry k of
      None \<Rightarrow> Some (data, [])
    | Some entry \<Rightarrow> do {
        (ctx_sk, ls) \<leftarrow> entry cfg m regs (data i);
        Some (data(i := ctx_sk), ls)
      })"
| "ret_step k cfg (Leave i m regs) data = do {
     ls \<leftarrow> kr_handler k cfg m (data i) regs;
     Some (data, ls)
   }"

fun ret_run :: "kretprobe \<Rightarrow> sock_filter_config \<Rightarrow> ret_event list \<Rightarrow> instances \<Rightarrow> (instances \<times> line list list) option" where
  "ret_run k cfg [] data = Some (data, [])"
| "ret_run k cfg (e # es) data = do {
     (data1, ls) \<leftarrow> ret_step k cfg e data;
     (data2, lss) \<leftarrow> ret_run k cfg es data1;
     Some (data2, ls # lss)
   }"

text \<open>The socket that an entry leaves for the return: the argument if it is selected.\<close>

definition entry_sock :: "sock_filter_config \<Rightarrow> memory \<Rightarrow> pt_regs \<Rightarrow> u64" where
  "entry_sock cfg m regs =
    (let sk = x86_64_get_regs_arg regs 0 in if sk \<noteq> 0 \<and> selected cfg (km_sock m sk) then sk else 0)"

text \<open>The probes with an entry handler, and what the proofs need of them.\<close>

definition paired :: "kretprobe \<Rightarrow> bool" where
  "paired k \<longleftrightarrow> (\<exists>entry. kr_entry k = Some entry \<and>
    (\<forall>cfg m regs ctx_sk. states_ok m \<longrightarrow> (\<exists>ls. entry cfg m regs ctx_sk = Some (entry_sock cfg m regs, ls) \<and>
       (entry_sock cfg m regs = 0 \<longrightarrow> ls = [])))) \<and>
    (\<forall>cfg m ctx_sk regs. states_ok m \<longrightarrow> kr_handler k cfg m ctx_sk regs \<noteq> None) \<and>
    (\<forall>cfg m regs. kr_handler k cfg m 0 regs = Some [])"

lemma entry_probe_sock:
  assumes "states_ok m" "func_level \<le> 3"
  shows "\<exists>ls. entry_probe func_level prefix extra cfg m regs ctx_sk = Some (entry_sock cfg m regs, ls) \<and>
    (entry_sock cfg m regs = 0 \<longrightarrow> ls = [])"
  using assms
  by (cases rule: filter_and_display [where sk = "x86_64_get_regs_arg regs 0" and cfg = cfg and prefix = prefix])
    (auto simp: entry_probe_def entry_sock_def Let_def)

lemmas ret_entries = kretprobe_entry__tcp_v4_do_rcv_def kretprobe_entry__tcp_rcv_state_process_def kretprobe_entry__tcp_close_def
  kretprobe_entry__tcp_rcv_established_def kretprobe_entry__tcp_recvmsg_def kretprobe_entry__tcp_sendmsg_def
  kretprobe_entry__tcp_write_xmit_def

lemmas ret_handlers = kretprobe__tcp_v4_do_rcv_def kretprobe__tcp_rcv_state_process_def kretprobe__tcp_close_def
  kretprobe__tcp_rcv_established_def kretprobe__tcp_recvmsg_def kretprobe__tcp_sendmsg_def kretprobe__tcp_write_xmit_def
  return_probe_def

lemma paired_intro:
  assumes "\<And>cfg m regs ctx_sk. states_ok m \<Longrightarrow> \<exists>ls. entry cfg m regs ctx_sk = Some (entry_sock cfg m regs, ls) \<and>
      (entry_sock cfg m regs = 0 \<longrightarrow> ls = [])"
    and "\<And>cfg m ctx_sk regs. states_ok m \<Longrightarrow> handler cfg m ctx_sk regs \<noteq> None"
    and "\<And>cfg m regs. handler cfg m 0 regs = Some []"
  shows "paired \<lparr>kr_symbol = symbol, kr_entry = Some entry, kr_handler = handler, kr_maxactive = n\<rparr>"
  using assms by (simp add: paired_def)

lemma display_total:
  assumes "states_ok m"
  shows "(\<exists>y. sock_common_display m sk prefix = Some y) = True" "(\<exists>y. sock_common_display m sk prefix \<bind> (\<lambda>ls. Some (f ls)) = Some y) = True"
  using sock_common_display_some [OF assms, of sk prefix] by auto

lemma paired_hooks:
  "paired kretprobe_hook__tcp_v4_do_rcv" "paired kretprobe_hook__tcp_rcv_state_process" "paired kretprobe_hook__tcp_close"
  "paired kretprobe_hook__tcp_rcv_established" "paired kretprobe_hook__tcp_recvmsg" "paired kretprobe_hook__tcp_sendmsg"
  "paired kretprobe_hook__tcp_write_xmit"
  unfolding hook_structs
  by (rule paired_intro, (simp add: ret_entries entry_probe_sock Let_def), (simp add: ret_handlers Let_def display_total),
      (simp add: ret_handlers Let_def))+

lemma paired_tables:
  assumes "k \<in> set (conn_kretprobes @ data_kretprobes)" "kr_entry k \<noteq> None"
  shows "paired k"
  using assms paired_hooks
  by (auto simp: conn_kretprobes_def data_kretprobes_def kretprobe_hook__tcp_v4_syn_recv_sock_def kretprobe_hook__inet_csk_accept_def)

text \<open>What a call leaves in its instance stays there until another call uses the instance.\<close>

fun uses :: "nat \<Rightarrow> ret_event \<Rightarrow> bool" where
  "uses i (Enter j m regs) \<longleftrightarrow> i = j"
| "uses i (Leave j m regs) \<longleftrightarrow> False"

fun at_memory :: "ret_event \<Rightarrow> memory" where
  "at_memory (Enter i m regs) = m"
| "at_memory (Leave i m regs) = m"

lemma paired_entry:
  assumes "paired k" "states_ok m" "kr_entry k = Some entry"
  shows "\<exists>ls. entry cfg m regs ctx_sk = Some (entry_sock cfg m regs, ls) \<and> (entry_sock cfg m regs = 0 \<longrightarrow> ls = [])"
  using assms by (auto simp: paired_def)

lemma paired_handler:
  assumes "paired k" "states_ok m"
  shows "\<exists>ls. kr_handler k cfg m ctx_sk regs = Some ls \<and> (ctx_sk = 0 \<longrightarrow> ls = [])"
proof -
  have "kr_handler k cfg m ctx_sk regs \<noteq> None" "kr_handler k cfg m 0 regs = Some []"
    using assms by (simp_all add: paired_def)
  then show ?thesis by (cases "ctx_sk = 0") auto
qed

lemma ret_step_paired:
  assumes "paired k" "states_ok (at_memory e)"
  shows "\<exists>data' ls. ret_step k cfg e data = Some (data', ls) \<and> (\<forall>i. \<not> uses i e \<longrightarrow> data' i = data i)"
proof (cases e)
  case (Enter j m regs)
  obtain entry where entry: "kr_entry k = Some entry" using assms(1) by (auto simp: paired_def)
  obtain ls where "entry cfg m regs (data j) = Some (entry_sock cfg m regs, ls)"
    using paired_entry [OF assms(1) _ entry, of m cfg regs "data j"] assms(2) by (auto simp: Enter)
  then show ?thesis by (simp add: Enter entry)
next
  case (Leave j m regs)
  obtain ls where "kr_handler k cfg m (data j) regs = Some ls"
    using paired_handler [OF assms(1), of m cfg "data j" regs] assms(2) by (auto simp: Leave)
  then show ?thesis by (simp add: Leave)
qed

lemma ret_run_keeps:
  assumes "paired k" "\<forall>e \<in> set es. states_ok (at_memory e) \<and> \<not> uses i e"
  shows "\<exists>data' lss. ret_run k cfg es data = Some (data', lss) \<and> data' i = data i"
  using assms(2)
proof (induction es arbitrary: data)
  case (Cons e es)
  obtain data1 ls where "ret_step k cfg e data = Some (data1, ls)" "data1 i = data i"
    using Cons.prems ret_step_paired [OF assms(1), of e cfg data] by auto
  then show ?case using Cons.IH [of data1] Cons.prems by fastforce
qed simp

lemma ret_run_total:
  assumes "paired k" "\<forall>e \<in> set es. states_ok (at_memory e)"
  shows "\<exists>data' lss. ret_run k cfg es data = Some (data', lss) \<and> length lss = length es"
  using assms(2)
proof (induction es arbitrary: data)
  case (Cons e es)
  obtain data1 ls where "ret_step k cfg e data = Some (data1, ls)"
    using Cons.prems ret_step_paired [OF assms(1), of e cfg data] by auto
  then show ?case using Cons.IH [of data1] Cons.prems by fastforce
qed simp

lemma ret_run_append:
  "ret_run k cfg (xs @ ys) data =
    Option.bind (ret_run k cfg xs data) (\<lambda>(data1, xss). Option.bind (ret_run k cfg ys data1) (\<lambda>(data2, yss). Some (data2, xss @ yss)))"
proof (induction xs arbitrary: data)
  case Nil
  then show ?case by (cases "ret_run k cfg ys data") auto
next
  case (Cons x xs)
  then show ?case by (cases "ret_step k cfg x data") (auto split: bind_splits)
qed


text \<open>A socket, a memory and registers, for the witnesses.\<close>

definition sample_sock :: tcp_sock where
  "sample_sock = \<lparr>sk_num = 8192, sk_dport = 80, sk_family = AF_INET, sk_state = 1, sk_rcv_saddr = 0, sk_daddr = 0, sk_v6_rcv_saddr = 0,
     sk_v6_daddr = 0, tp_bytes_acked = 0, tp_bytes_received = 0, tp_snd_una = 0, tp_copied_seq = 0, tp_snd_nxt = 0, tp_rcv_nxt = 0,
     tp_write_seq = 0, tp_rcv_wnd = 0, tp_snd_wnd = 0, tp_srtt_us = 0\<rparr>"

definition sample_skb :: sk_buff where
  "sample_skb = \<lparr>sb_th = \<lparr>th_fin = False, th_syn = False, th_rst = False, th_psh = False, th_ack = True, th_urg = False, th_ece = False,
       th_cwr = False, th_seq = 0, th_ack_seq = 0, th_window = 0, th_doff = 5\<rparr>, sb_len = 20, sb_tcp_flags = 16, sb_seq = 0\<rparr>"

definition sample_memory :: memory where
  "sample_memory = \<lparr>km_sock = \<lambda>p. sample_sock, km_skb = \<lambda>p. sample_skb\<rparr>"

definition sample_regs :: "u64 \<Rightarrow> pt_regs" where
  "sample_regs sk = \<lparr>rg_di = sk, rg_si = 0, rg_dx = 0, rg_cx = 0, rg_r8 = 0, rg_r9 = 0, rg_ax = 0\<rparr>"

lemma sample_states_ok: "states_ok sample_memory"
  by (simp add: states_ok_def sample_memory_def sample_sock_def)

lemma sample_selected: "selected sock_config_default sample_sock"
  by (simp add: selected_def sock_config_default_def)


section \<open>The reset tracepoints\<close>

lemma trace_entries: "find_tracepoints ts trace_probes = (ret, ctx) \<Longrightarrow> e \<in> set (used_entries ctx) \<Longrightarrow>
  te_priv e = 0 \<and> te_probe e \<in> {''trace__tcp_receive_reset'', ''trace__tcp_send_reset''}"
proof -
  assume f: "find_tracepoints ts trace_probes = (ret, ctx)" and e: "e \<in> set (used_entries ctx)"
  have n: "tc_init_num trace_probes \<le> length (tc_entries trace_probes)" by (simp add: trace_probes_def)
  have "ctx = looked_up ts trace_probes" using f find_tracepoints_correct [OF n, of ts] by simp
  then obtain e0 where "e0 \<in> set (used_entries trace_probes)" "e = resolve ts e0"
    using e used_looked_up [OF n, of ts] by auto
  moreover have "used_entries trace_probes = tc_entries trace_probes"
    by (simp add: used_entries_def trace_probes_def)
  ultimately show ?thesis by (auto simp: trace_probes_def tp_entry_init_def resolve_def)
qed

text \<open>Resets are never reported. The functions registered for tcp_receive_reset and tcp_send_reset take the
  socket for their first argument, but the kernel passes the private pointer first, which is NULL: whatever
  socket is reset and whatever the filter is, they print nothing. Called on a selected socket they
  would print its line.\<close>

lemma resets_never_reported:
  assumes "find_tracepoints ts trace_probes = (ret, ctx)" "e \<in> set (used_entries ctx)" "states_ok m"
  shows "fire_tracepoint e cfg m args = Some [] \<and>
    (\<exists>f. trace_probe_fn (te_probe e) = Some f \<and>
      (\<forall>sk. sk \<noteq> 0 \<and> selected cfg (km_sock m sk) \<longrightarrow> f cfg m [sk] = sock_common_display m sk (''trace:'' @ drop 7 (te_probe e))))"
proof -
  have null: "te_priv e = 0" and fn: "te_probe e \<in> {''trace__tcp_receive_reset'', ''trace__tcp_send_reset''}"
    using trace_entries [OF assms(1,2)] by auto
  have show_sock: "sock_filter_and_display cfg m sk 2 prefix = map_option (Pair True) (sock_common_display m sk prefix)"
    if "sk \<noteq> 0 \<and> selected cfg (km_sock m sk)" for sk prefix
    using that by (cases "sock_common_display m sk prefix") (simp_all add: sock_filter_and_display_def sock_filter_iff)
  have bind_id: "map_option (Pair True) d \<bind> (\<lambda>(shown, ls). if \<not> shown then Some [] else Some ls) = d" for d :: "line list option"
    by (cases d) simp_all
  show ?thesis
    using fn null show_sock bind_id
    by (auto simp: fire_tracepoint_def trace_probe_fn_def trace__tcp_receive_reset_def trace__tcp_send_reset_def sock_filter_and_display_def)
qed

definition reset_tracepoints :: "tracepoint list" where
  "reset_tracepoints = [\<lparr>tpt_addr = 1, tpt_name = ''tcp_receive_reset''\<rparr>, \<lparr>tpt_addr = 2, tpt_name = ''tcp_send_reset''\<rparr>]"

lemma resets_never_reported_witness:
  "let (ret, ctx) = find_tracepoints reset_tracepoints trace_probes
   in ret = 0 \<and> (\<forall>e \<in> set (used_entries ctx). fire_tracepoint e sock_config_default sample_memory [4096] = Some [])"
proof -
  have n: "tc_init_num trace_probes \<le> length (tc_entries trace_probes)" by (simp add: trace_probes_def)
  have "used_entries trace_probes = tc_entries trace_probes"
    by (simp add: used_entries_def trace_probes_def)
  then have "find_tracepoints reset_tracepoints trace_probes = (0, looked_up reset_tracepoints trace_probes)"
    unfolding find_tracepoints_correct [OF n] by (simp add: reset_tracepoints_def trace_probes_def tp_entry_init_def)
  then show ?thesis
    using resets_never_reported [of reset_tracepoints 0 "looked_up reset_tracepoints trace_probes" _ "sample_memory" sock_config_default "[4096]"]
    by (simp add: sample_states_ok)
qed

section \<open>Loading and unloading\<close>

record trace_module = probe_module +
  tm_sock_config :: sock_filter_config

text \<open>The parameters of the module are of type \<^verbatim>\<open>int\<close>; a port is stored into a \<^verbatim>\<open>u16\<close>, a switch into a \<^verbatim>\<open>bool\<close>.\<close>

record trace_params =
  pa_local_port :: int
  pa_remote_port :: int
  pa_enable_ipv4 :: int
  pa_enable_ipv6 :: int

definition init_sock_config_from_param :: "trace_params \<Rightarrow> trace_module \<Rightarrow> int \<times> trace_module" where
  "init_sock_config_from_param params s =
    (0, s\<lparr>tm_sock_config := (tm_sock_config s)
       \<lparr>sf_local_port := word_of_int (pa_local_port params), sf_remote_port := word_of_int (pa_remote_port params),
        sf_enable_ipv4 := pa_enable_ipv4 params \<noteq> 0, sf_enable_ipv6 := pa_enable_ipv6 params \<noteq> 0\<rparr>\<rparr>)"

definition tcp_trace_conn_init :: "'a probe_module_scheme \<Rightarrow> int \<times> 'a probe_module_scheme" where
  "tcp_trace_conn_init s =
    (let (ret, s1) = tracepoint_probe_context_find_tracepoints s in
     if ret < 0 then (ret, s1) else
     let (ret, s2) = tracepoint_probe_context_register_probes s1 in
     if ret < 0 then (ret, s2) else
     let (ret, s3) = kprobes_init ''conn.kprobes'' 19 s2 in
     if ret < 0 then (ret, tracepoint_probe_context_unregister_probes s3) else
     let (ret, s4) = kretprobes_init ''conn.kretprobes'' 5 s3 in
     if ret < 0 then (ret, tracepoint_probe_context_unregister_probes (kprobes_exit ''conn.kprobes'' 19 s4)) else (0, s4))"

definition tcp_trace_conn_exit :: "'a probe_module_scheme \<Rightarrow> 'a probe_module_scheme" where
  "tcp_trace_conn_exit s =
    kretprobes_exit ''conn.kretprobes'' 5 (kprobes_exit ''conn.kprobes'' 19 (tracepoint_probe_context_unregister_probes s))"

definition tcp_trace_data_init :: "'a probe_module_scheme \<Rightarrow> int \<times> 'a probe_module_scheme" where
  "tcp_trace_data_init s =
    (let (ret, s1) = kprobes_init ''data.kprobes'' 8 s in
     if ret < 0 then (ret, s1) else
     let (ret, s2) = kretprobes_init ''data.kretprobes'' 4 s1 in
     if ret < 0 then (ret, kprobes_exit ''data.kprobes'' 8 s2) else (0, s2))"

definition tcp_trace_data_exit :: "'a probe_module_scheme \<Rightarrow> 'a probe_module_scheme" where
  "tcp_trace_data_exit s = kretprobes_exit ''data.kretprobes'' 4 (kprobes_exit ''data.kprobes'' 8 s)"

definition tcp_trace_init :: "trace_params \<Rightarrow> trace_module \<Rightarrow> int \<times> trace_module" where
  "tcp_trace_init params s =
    (let (_, s0) = init_sock_config_from_param params s;
         (ret, s1) = tcp_trace_conn_init s0 in
     if ret < 0 then (ret, s1) else
     let (ret, s2) = tcp_trace_data_init s1 in
     if ret < 0 then (ret, tcp_trace_conn_exit s2) else (0, s2))"

definition tcp_trace_exit :: "trace_module \<Rightarrow> trace_module" where
  "tcp_trace_exit s = tcp_trace_data_exit (tcp_trace_conn_exit s)"

lemma table_sizes: "length conn_kprobes = 19" "length conn_kretprobes = 5" "length data_kprobes = 8" "length data_kretprobes = 4"
  by (simp_all add: conn_kprobes_def conn_kretprobes_def data_kprobes_def data_kretprobes_def)

text \<open>A port from 1 to 65535 is the one that is traced; a parameter beyond is taken modulo 2 ^ 16, 0 is no filter.\<close>

lemma param_port:
  assumes "init_sock_config_from_param params s = (ret, s')"
  shows "uint (sf_local_port (tm_sock_config s')) = pa_local_port params mod 2 ^ 16"
  using assms by (auto simp: init_sock_config_from_param_def uint_word_of_int)

subsection \<open>The stages\<close>

definition conn_hooks :: "tp_context \<Rightarrow> hook multiset" where
  "conn_hooks ctx = tracepoint_hooks ctx + (kprobe_hooks ''conn.kprobes'' 19 + kretprobe_hooks ''conn.kretprobes'' 5)"

definition data_hooks :: "hook multiset" where
  "data_hooks = kprobe_hooks ''data.kprobes'' 8 + kretprobe_hooks ''data.kretprobes'' 4"

text \<open>The part of the init function of \<^verbatim>\<open>tcp_trace_conn.c\<close> behind the lookup.\<close>

definition conn_acquire :: "'a probe_module_scheme \<Rightarrow> int \<times> 'a probe_module_scheme" where
  "conn_acquire = and_then tracepoint_probe_context_register_probes tracepoint_probe_context_unregister_probes
     (and_then (kprobes_init ''conn.kprobes'' 19) (kprobes_exit ''conn.kprobes'' 19) (kretprobes_init ''conn.kretprobes'' 5))"

lemma conn_stage: "resolved ctx \<Longrightarrow> stage (calm f ctx) conn_acquire tcp_trace_conn_exit (conn_hooks ctx)"
  unfolding conn_acquire_def tcp_trace_conn_exit_def conn_hooks_def
  by (intro stage_and_then stage_tracepoints stage_kprobes stage_kretprobes)

lemma data_init_and_then: "tcp_trace_data_init =
  and_then (kprobes_init ''data.kprobes'' 8) (kprobes_exit ''data.kprobes'' 8) (kretprobes_init ''data.kretprobes'' 4)"
  by (rule ext) (simp add: tcp_trace_data_init_def and_then_def)

interpretation data: stage "calm f ctx" tcp_trace_data_init tcp_trace_data_exit data_hooks for f ctx
  unfolding data_init_and_then tcp_trace_data_exit_def data_hooks_def
  by (rule stage_and_then [OF stage_kprobes stage_kretprobes])

lemma conn_init_acquire:
  assumes "tracepoint_probe_context_find_tracepoints s = (ret, s1)"
  shows "tcp_trace_conn_init s = (if ret < 0 then (ret, s1) else conn_acquire s1)"
  by (auto simp: tcp_trace_conn_init_def conn_acquire_def and_then_def assms Let_def split: prod.split)

definition trace_hooks :: "tracepoint list \<Rightarrow> hook multiset" where
  "trace_hooks ts = conn_hooks (looked_up ts trace_probes) + data_hooks"

lemma trace_probes_used: "tc_init_num trace_probes \<le> length (tc_entries trace_probes)"
  "used_entries trace_probes = tc_entries trace_probes"
  by (simp_all add: used_entries_def trace_probes_def)

lemma trace_stage:
  assumes "resolved ctx"
  shows "stage (calm f ctx) (and_then conn_acquire tcp_trace_conn_exit tcp_trace_data_init) tcp_trace_exit (conn_hooks ctx + data_hooks)"
  unfolding tcp_trace_exit_def by (rule stage_and_then [OF conn_stage [OF assms] data.stage_axioms])

lemma find_trace_probes:
  assumes "sched_probes s = trace_probes"
  defines "s1 \<equiv> s\<lparr>sched_probes := looked_up (kn_tracepoints s) trace_probes\<rparr>"
  obtains (missing) "tracepoint_probe_context_find_tracepoints s = (-1, s1)"
    | (found) "tracepoint_probe_context_find_tracepoints s = (0, s1)" "resolved (looked_up (kn_tracepoints s) trace_probes)"
proof (cases "\<forall>e \<in> set (used_entries trace_probes). te_name e \<in> tpt_name ` set (kn_tracepoints s)")
  case True
  then show ?thesis
    using found find_step [of s] found_resolved [OF trace_probes_used(1) True] by (simp add: assms trace_probes_used(1))
next
  case False
  then show ?thesis
    using missing find_step [of s] by (simp add: assms trace_probes_used(1))
qed

text \<open>C30: loading the tracer is all or nothing. Whichever of its 38 registrations the kernel refuses, or if a
  tracepoint does not exist, tcp_trace_init returns a negative value with exactly the hooks of before registered; otherwise it
  returns 0 with all 38 in addition. After that, whatever the rest of the kernel registers in between, tcp_trace_exit removes
  exactly these 38. No hook is ever unregistered that is not registered, and no probe function can still run when init
  fails or exit is over.\<close>

theorem tcp_trace_all_or_nothing:
  assumes "sched_probes s = trace_probes" "kn_stale s = []" "tcp_trace_init params s = (ret, s')"
  shows "kn_fault s' = kn_fault s \<and> kn_stale s' = [] \<and>
    (ret = 0 \<and> live s' = live s + trace_hooks (kn_tracepoints s) \<or> ret < 0 \<and> live s' = live s) \<and>
    (ret = 0 \<longrightarrow> (\<forall>t. sched_probes t = sched_probes s' \<and> kn_stale t = [] \<and> trace_hooks (kn_tracepoints s) \<subseteq># live t \<longrightarrow>
      kn_fault (tcp_trace_exit t) = kn_fault t \<and> kn_stale (tcp_trace_exit t) = [] \<and>
      live (tcp_trace_exit t) = live t - trace_hooks (kn_tracepoints s)))"
proof -
  define s0 where "s0 = snd (init_sock_config_from_param params s)"
  have s0: "sched_probes s0 = trace_probes" "kn_stale s0 = []" "kn_fault s0 = kn_fault s" "live s0 = live s"
    "kn_tracepoints s0 = kn_tracepoints s"
    using assms(1,2) by (simp_all add: s0_def init_sock_config_from_param_def live_def)
  let ?ctx = "looked_up (kn_tracepoints s) trace_probes" and ?s1 = "s0\<lparr>sched_probes := looked_up (kn_tracepoints s) trace_probes\<rparr>"
  have init: "(ret, s') = (let (ret, s1) = tcp_trace_conn_init s0 in
     if ret < 0 then (ret, s1) else
     let (ret, s2) = tcp_trace_data_init s1 in
     if ret < 0 then (ret, tcp_trace_conn_exit s2) else (0, s2))"
    using assms(3) unfolding tcp_trace_init_def s0_def
    by (cases "init_sock_config_from_param params s") (simp only: Let_def prod.case snd_conv)
  from s0(1) show ?thesis
  proof (cases rule: find_trace_probes)
    case missing
    then have "tcp_trace_conn_init s0 = (-1, ?s1)" using conn_init_acquire [OF missing] by (simp add: s0(5))
    then show ?thesis using init s0 by simp
  next
    case found
    note conn = conn_init_acquire [OF found(1)]
    have res: "resolved ?ctx" using found(2) by (simp only: s0(5))
    note st = trace_stage [OF res, where f = "kn_fault s"]
    have calm: "calm (kn_fault s) ?ctx ?s1" using s0 by (simp add: calm_def steady_def)
    have run: "(ret, s') = and_then conn_acquire tcp_trace_conn_exit tcp_trace_data_init ?s1"
      using init conn by (simp add: and_then_def s0(5))
    have "calm (kn_fault s) ?ctx s'"
      using stage.acquire_keeps [OF st calm] by (simp flip: run)
    moreover have "ret = 0 \<and> live s' = live s + trace_hooks (kn_tracepoints s) \<or> ret < 0 \<and> live s' = live s"
      using stage.acquire_live [OF st calm] s0(4) by (simp flip: run add: trace_hooks_def)
    moreover have "calm (kn_fault t) ?ctx (tcp_trace_exit t) \<and> live (tcp_trace_exit t) = live t - trace_hooks (kn_tracepoints s)"
      if "sched_probes t = ?ctx" "kn_stale t = []" "trace_hooks (kn_tracepoints s) \<subseteq># live t" for t
    proof -
      note st_t = trace_stage [OF res, where f = "kn_fault t"]
      have "calm (kn_fault t) ?ctx t" using that by (simp add: calm_def steady_def)
      then show ?thesis
        using stage.release_keeps [OF st_t] stage.release_live [OF st_t] that(3) by (simp add: trace_hooks_def)
    qed
    ultimately show ?thesis by (auto simp: calm_def steady_def)
  qed
qed

definition sample_trace_module :: "nat list \<Rightarrow> trace_module" where
  "sample_trace_module errnos = \<lparr>kn_tracepoints = reset_tracepoints, kn_errno = errnos, kn_live = [Kp (''other'', 0)], kn_stale = [],
     kn_fault = False, sched_probes = trace_probes, tm_sock_config = sock_config_default\<rparr>"

lemma tcp_trace_all_or_nothing_witness:
  "let (ret, s) = tcp_trace_init \<lparr>pa_local_port = 8192, pa_remote_port = 0, pa_enable_ipv4 = 1, pa_enable_ipv6 = 1\<rparr> (sample_trace_module [0, 0, 0, 12])
   in \<not> kn_fault s \<and> (ret = 0 \<or> live s = {#Kp (''other'', 0)#})"
proof -
  let ?params = "\<lparr>pa_local_port = 8192, pa_remote_port = 0, pa_enable_ipv4 = 1, pa_enable_ipv6 = 1\<rparr>" and ?s = "sample_trace_module [0, 0, 0, 12]"
  obtain ret s where r: "tcp_trace_init ?params ?s = (ret, s)" by fastforce
  have "sched_probes ?s = trace_probes" "kn_stale ?s = []" "\<not> kn_fault ?s" "live ?s = {#Kp (''other'', 0)#}"
    by (simp_all add: sample_trace_module_def live_def)
  then show ?thesis using tcp_trace_all_or_nothing [OF _ _ r] by (auto simp: r)
qed

end
